(* ===== verification/Prelude.thy ===== *)
theory Prelude
  imports Main "HOL-Library.Word"
begin

text \<open>
  Shared ground of the development: the widths of the machine integers of the server, the
  results of operations that can panic or go wrong, the one-step-at-a-time readers of
  NUL-terminated strings, and generic lemmas on lists and options.

  The C types: \<open>Num\<close> and \<open>Objid\<close> are \<open>int64_t\<close> (\<open>structures.h\<close>), \<open>int\<close> has 32 bits and
  \<open>unsigned\<close> has 32 bits. Signed values are kept as HOL integers, and every place where the
  code narrows or may overflow goes through \<open>to_int32\<close> or \<open>to_num\<close>, which keep the low bits
  as the target machine does.
\<close>

unbundle bit_operations_syntax

named_theorems c_simps \<open>evaluation rules of the C-level helpers\<close>
named_theorems wf_intros \<open>how well-formedness is built up\<close>

subsection \<open>Machine integers\<close>

definition to_int32 :: "int \<Rightarrow> int" where
  "to_int32 x = signed_take_bit 31 x"

definition to_num :: "int \<Rightarrow> int" where
  "to_num x = signed_take_bit 63 x"

definition num_min :: int where "num_min = - (2 ^ 63)"
definition num_max :: int where "num_max = 2 ^ 63 - 1"

definition is_num :: "int \<Rightarrow> bool" where
  "is_num x \<longleftrightarrow> num_min \<le> x \<and> x \<le> num_max"

definition is_int32 :: "int \<Rightarrow> bool" where
  "is_int32 x \<longleftrightarrow> - (2 ^ 31) \<le> x \<and> x < 2 ^ 31"

lemma to_num_is_num [simp, intro]: "is_num (to_num x)"
proof -
  have "- (2 ^ 63) \<le> signed_take_bit 63 x" by (rule signed_take_bit_int_greater_eq_minus_exp)
  moreover have "signed_take_bit 63 x < 2 ^ 63" by (rule signed_take_bit_int_less_exp)
  ultimately show ?thesis by (simp add: is_num_def num_min_def num_max_def to_num_def)
qed

lemma to_num_id [simp]: "is_num x \<Longrightarrow> to_num x = x"
  by (simp add: is_num_def num_min_def num_max_def to_num_def signed_take_bit_int_eq_self)

lemma to_int32_id [simp]: "is_int32 x \<Longrightarrow> to_int32 x = x"
  by (simp add: is_int32_def to_int32_def signed_take_bit_int_eq_self)

lemma to_int32_is_int32 [simp, intro]: "is_int32 (to_int32 x)"
proof -
  have "- (2 ^ 31) \<le> signed_take_bit 31 x" by (rule signed_take_bit_int_greater_eq_minus_exp)
  moreover have "signed_take_bit 31 x < 2 ^ 31" by (rule signed_take_bit_int_less_exp)
  ultimately show ?thesis by (simp add: is_int32_def to_int32_def)
qed

lemma to_num_cong: "to_num x = to_num y \<longleftrightarrow> x mod 2 ^ 64 = y mod 2 ^ 64"
  by (simp add: to_num_def signed_take_bit_eq_iff_take_bit_eq take_bit_eq_mod)

subsection \<open>Results\<close>

text \<open>
  A C function that can end the server does so by calling \<open>panic\<close>; a dereference of a null
  or out-of-range pointer, a trap of the processor and a loop that does not end are all
  \<open>Undefined\<close>. Plain loops over the database return an option instead: \<open>None\<close> when the loop
  reads through a null pointer or never ends.
\<close>

datatype fault = Panic string | Undefined

type_synonym 'a res = "fault + 'a"

definition of_option :: "'a option \<Rightarrow> 'a res" where
  "of_option x = (case x of None \<Rightarrow> Inl Undefined | Some y \<Rightarrow> Inr y)"

definition bind_res :: "'a res \<Rightarrow> ('a \<Rightarrow> 'b res) \<Rightarrow> 'b res" where
  "bind_res x f = (case x of Inl e \<Rightarrow> Inl e | Inr y \<Rightarrow> f y)"

lemma of_option_simps [simp]:
  "of_option None = Inl Undefined"
  "of_option (Some y) = Inr y"
  by (simp_all add: of_option_def)

lemma of_option_Inr [simp]: "of_option x = Inr y \<longleftrightarrow> x = Some y"
  by (cases x) auto

lemma bind_res_simps [simp]:
  "bind_res (Inl e) f = Inl e"
  "bind_res (Inr y) f = f y"
  by (simp_all add: bind_res_def)

lemma bind_res_Inr: "bind_res x f = Inr z \<longleftrightarrow> (\<exists>y. x = Inr y \<and> f y = Inr z)"
  by (cases x) auto

subsection \<open>Characters\<close>

text \<open>A C string is the list of its bytes before the terminating NUL.\<close>

definition code :: "char \<Rightarrow> int" where
  "code c = of_char c"

definition byte :: "int \<Rightarrow> char" where
  "byte n = char_of n"

definition c_string :: "string \<Rightarrow> bool" where
  "c_string s \<longleftrightarrow> CHR 0x00 \<notin> set s"

text \<open>The byte a pointer to the string \<open>s\<close> points at; the terminating NUL is 0.\<close>

definition peek :: "string \<Rightarrow> int" where
  "peek s = (case s of [] \<Rightarrow> 0 | c # _ \<Rightarrow> code c)"

lemma peek_simps [simp]:
  "peek [] = 0"
  "peek (c # s) = code c"
  by (simp_all add: peek_def)

lemma code_nat: "code c = int (of_char c)"
  by (simp add: code_def of_nat_of_char)

lemma code_range [simp, intro]: "0 \<le> code c" "code c < 256"
  using nat_of_char_less_256 [of c] by (simp_all add: code_nat)

lemma code_Char [simp]:
  "code (Char b0 b1 b2 b3 b4 b5 b6 b7) =
    of_bool b0 + 2 * (of_bool b1 + 2 * (of_bool b2 + 2 * (of_bool b3 + 2 *
      (of_bool b4 + 2 * (of_bool b5 + 2 * (of_bool b6 + 2 * of_bool b7))))))"
  by (simp add: code_def)

lemma byte_code [simp]: "byte (code c) = c"
  by (simp add: byte_def code_def)

lemma code_byte [simp]: "0 \<le> n \<Longrightarrow> n < 256 \<Longrightarrow> code (byte n) = n"
  by (simp add: byte_def code_def)

lemma code_eq_iff [simp]: "code c = code d \<longleftrightarrow> c = d"
  by (metis byte_code)

lemma c_string_simps [simp]:
  "c_string []"
  "c_string (c # s) \<longleftrightarrow> c \<noteq> CHR 0x00 \<and> c_string s"
  "c_string (s @ t) \<longleftrightarrow> c_string s \<and> c_string t"
  by (auto simp: c_string_def)

lemma c_string_take [simp]: "c_string s \<Longrightarrow> c_string (take n s)"
  by (auto simp: c_string_def dest: in_set_takeD)

lemma c_string_drop [simp]: "c_string s \<Longrightarrow> c_string (drop n s)"
  by (auto simp: c_string_def dest: in_set_dropD)

lemma code_0 [simp]: "code c = 0 \<longleftrightarrow> c = CHR 0x00"
proof -
  have "code (CHR 0x00) = 0" by (simp add: code_def)
  then show ?thesis by (metis code_eq_iff)
qed

subsection \<open>Caches\<close>

text \<open>
  The contract of a cache in front of a function: in a good state a request is answered as the
  function would, and the state stays good. Then no sequence of requests can tell the cache from
  the function.
\<close>

locale memo =
  fixes good :: "'c \<Rightarrow> bool"
    and ask :: "'k \<Rightarrow> 'c \<Rightarrow> ('v \<times> 'c) option"
    and answer :: "'k \<Rightarrow> 'v"
  assumes ask_good: "good c \<Longrightarrow> \<exists>c'. ask k c = Some (answer k, c') \<and> good c'"
begin

primrec ask_all :: "'k list \<Rightarrow> 'c \<Rightarrow> ('v list \<times> 'c) option" where
  "ask_all [] c = Some ([], c)"
| "ask_all (k # ks) c =
     Option.bind (ask k c) (\<lambda>(v, c). map_option (\<lambda>(vs, c). (v # vs, c)) (ask_all ks c))"

lemma ask_all_transparent: "good c \<Longrightarrow> \<exists>c'. ask_all ks c = Some (map answer ks, c') \<and> good c'"
proof (induction ks arbitrary: c)
  case (Cons k ks)
  from ask_good [OF Cons.prems, of k] Cons.IH show ?case by fastforce
qed simp

end

end
