(* ===== verification/Utf.thy ===== *)
theory Utf
  imports Prelude
begin

text \<open>
  The UTF-8 routines of \<open>server/utf.c\<close>. A pointer into a string is the list of the bytes from
  there to the terminating NUL; \<open>get_utf\<close> returns the rune it read and the number of bytes by
  which it moved the pointer. \<open>get_cont\<close> is the macro \<open>GET_CONT\<close>: \<open>Inl\<close> is its jump to
  \<open>bad_cont\<close>, with the pointer where it stands.
\<close>

definition INVALID_RUNE :: int where "INVALID_RUNE = 0xfffd"

definition get_cont :: "int \<times> nat \<Rightarrow> string \<Rightarrow> nat + int \<times> nat" where
  "get_cont vn s = (case vn of (v, n) \<Rightarrow>
     let c = (peek (drop n s) - 0x80) mod 256 in
     if c > 0x3f then Inl n else Inr (push_bit 6 v + c, Suc n))"

definition get_utf :: "string \<Rightarrow> int \<times> nat" where
  "get_utf s =
    (let c = peek s in
     if c \<le> 0x7f then (c, 1)
     else if c \<le> 0xbf then (INVALID_RUNE, 1)
     else if c \<le> 0xdf then
       (case get_cont (c AND 0x1f, 1) s of
          Inl n \<Rightarrow> (INVALID_RUNE, n)
        | Inr (v, n) \<Rightarrow> (if v \<le> 0x7f then INVALID_RUNE else v, n))
     else if c \<le> 0xef then
       (case get_cont (c AND 0x0f, 1) s of
          Inl n \<Rightarrow> (INVALID_RUNE, n)
        | Inr p \<Rightarrow>
       (case get_cont p s of
          Inl n \<Rightarrow> (INVALID_RUNE, n)
        | Inr (v, n) \<Rightarrow>
            (if v \<le> 0x7ff \<or> (v \<ge> 0xd800 \<and> v \<le> 0xdfff) then INVALID_RUNE else v, n)))
     else if c \<le> 0xf7 then
       (case get_cont (c AND 0x07, 1) s of
          Inl n \<Rightarrow> (INVALID_RUNE, n)
        | Inr p \<Rightarrow>
       (case get_cont p s of
          Inl n \<Rightarrow> (INVALID_RUNE, n)
        | Inr q \<Rightarrow>
       (case get_cont q s of
          Inl n \<Rightarrow> (INVALID_RUNE, n)
        | Inr (v, n) \<Rightarrow> (if v \<le> 0xffff \<or> v > 0x10ffff then INVALID_RUNE else v, n))))
     else (INVALID_RUNE, 1))"

text \<open>The bytes \<open>put_utf\<close> writes, or \<open>None\<close> where it returns -1.\<close>

definition put_utf :: "int \<Rightarrow> string option" where
  "put_utf vv =
    (let v = vv mod 2 ^ 32 in
     if v \<le> 0x7f then Some [byte v]
     else if v \<le> 0x7ff then
       Some [byte (0xc0 OR drop_bit 6 v), byte (0x80 OR (v AND 0x3f))]
     else if v \<le> 0xffff then
       (if (v - 0xd800) mod 2 ^ 32 \<le> 0xdfff - 0xd800 then None
        else Some [byte (0xe0 OR drop_bit 12 v),
                   byte (0x80 OR (drop_bit 6 v AND 0x3f)),
                   byte (0x80 OR (v AND 0x3f))])
     else if v \<le> 0x10ffff then
       Some [byte (0xf0 OR drop_bit 18 v),
             byte (0x80 OR (drop_bit 12 v AND 0x3f)),
             byte (0x80 OR (drop_bit 6 v AND 0x3f)),
             byte (0x80 OR (v AND 0x3f))]
     else None)"

definition clearance_utf :: "char \<Rightarrow> nat" where
  "clearance_utf ch =
    (let c = code ch in
     if c \<le> 0x7f then 1
     else if c \<le> 0xbf then 1
     else if c \<le> 0xdf then 2
     else if c \<le> 0xef then 3
     else if c \<le> 0xf7 then 4
     else 1)"


text \<open>
  \<open>skip_utf\<close> counts an \<open>int\<close> down to 0 (a negative count never gets there, so the whole string is
  skipped); \<open>strlen_utf\<close> reads runes up to the first that is 0.
\<close>

lemma get_utf_pos: "0 < snd (get_utf s)"
  by (auto simp: get_utf_def get_cont_def Let_def split: sum.splits if_splits)

function skip_utf :: "string \<Rightarrow> int \<Rightarrow> nat" where
  "skip_utf s i =
    (if s \<noteq> [] \<and> peek s \<noteq> 0 \<and> i \<noteq> 0
     then snd (get_utf s) + skip_utf (drop (snd (get_utf s)) s) (i - 1)
     else 0)"
  by pat_completeness auto
termination
  by (relation "measure (\<lambda>(s, i). length s)") (use get_utf_pos in \<open>auto simp: diff_less\<close>)

function strlen_utf :: "string \<Rightarrow> int" where
  "strlen_utf s =
    (if fst (get_utf s) \<noteq> 0 then 1 + strlen_utf (drop (snd (get_utf s)) s) else 0)"
  by pat_completeness auto
termination
proof (relation "measure length")
  fix s :: string
  assume "fst (get_utf s) \<noteq> 0"
  then have "s \<noteq> []" by (auto simp: get_utf_def)
  then show "(drop (snd (get_utf s)) s, s) \<in> measure length"
    using get_utf_pos [of s] by (auto simp: diff_less)
qed simp

declare skip_utf.simps [simp del] strlen_utf.simps [simp del]

text \<open>
  \<open>get_utf_call\<close> reads its bytes from a callback and keeps one byte of push-back. The callback is
  the list of bytes still to come, and \<open>-1\<close> (\<open>EOF\<close>) when they have run out; the state is the
  pushed-back byte or \<open>-1\<close>. Unlike in \<open>get_utf\<close>, \<open>c\<close> is an \<open>int\<close> here, so \<open>c - 0x80\<close> does not wrap.
  \<open>Inl (st, cs)\<close> is the jump to \<open>bad_cont\<close>.
\<close>

definition c_getch :: "int list \<Rightarrow> int \<times> int list" where
  "c_getch cs = (case cs of [] \<Rightarrow> (-1, []) | c # r \<Rightarrow> (c, r))"

definition get_cont_call :: "int \<Rightarrow> int list \<Rightarrow> (int \<times> int list) + (int \<times> int list)" where
  "get_cont_call v cs = (case c_getch cs of (cc, r) \<Rightarrow>
     let c = cc - 0x80 in
     if c > 0x3f then Inl (cc, r) else Inr (push_bit 6 v + c, r))"

definition get_utf_call :: "int list \<Rightarrow> int \<Rightarrow> int \<times> int \<times> int list" where
  "get_utf_call cs state =
    (let (c, r) = (if state \<noteq> -1 then (state, cs) else c_getch cs) in
     if state = -1 \<and> c = -1 then (-1, state, r)
     else if c \<le> 0x7f then (c, -1, r)
     else if c \<le> 0xbf then (INVALID_RUNE, -1, r)
     else if c \<le> 0xdf then
       (case get_cont_call (c AND 0x1f) r of
          Inl (cc, r) \<Rightarrow> (INVALID_RUNE, cc, r)
        | Inr (v, r) \<Rightarrow> (if v \<le> 0x7f then INVALID_RUNE else v, -1, r))
     else if c \<le> 0xef then
       (case get_cont_call (c AND 0x0f) r of
          Inl (cc, r) \<Rightarrow> (INVALID_RUNE, cc, r)
        | Inr (v, r) \<Rightarrow>
       (case get_cont_call v r of
          Inl (cc, r) \<Rightarrow> (INVALID_RUNE, cc, r)
        | Inr (v, r) \<Rightarrow>
            (if v \<le> 0x7ff \<or> (v \<ge> 0xd800 \<and> v \<le> 0xdfff) then INVALID_RUNE else v, -1, r)))
     else if c \<le> 0xf7 then
       (case get_cont_call (c AND 0x07) r of
          Inl (cc, r) \<Rightarrow> (INVALID_RUNE, cc, r)
        | Inr (v, r) \<Rightarrow>
       (case get_cont_call v r of
          Inl (cc, r) \<Rightarrow> (INVALID_RUNE, cc, r)
        | Inr (v, r) \<Rightarrow>
       (case get_cont_call v r of
          Inl (cc, r) \<Rightarrow> (INVALID_RUNE, cc, r)
        | Inr (v, r) \<Rightarrow> (if v \<le> 0xffff \<or> v > 0x10ffff then INVALID_RUNE else v, -1, r))))
     else (INVALID_RUNE, -1, r))"

subsection \<open>Bits as arithmetic\<close>


lemma and_mask_mod: 
  "(v::int) AND 0x3f = v mod 64" "(v::int) AND 0x1f = v mod 32" "(v::int) AND 0x0f = v mod 16"  "(v::int) AND 0x07 = v mod 8"
  using take_bit_eq_mask [of 6 v] take_bit_eq_mask [of 5 v]
   take_bit_eq_mask [of 4 v] take_bit_eq_mask [of 3 v]
  by (simp_all add: take_bit_eq_mod mask_eq_exp_minus_1)

lemma or_low_bits: 
  assumes "0 \<le> y" "y < 2 ^ n"
  shows "(push_bit n x :: int) OR y = 2 ^ n * x + y"
proof -
  have t: "take_bit n y = y" using assms by (simp add: take_bit_int_eq_self)
  have "push_bit n x AND take_bit n y = 0"
    by (rule bit_eqI) (auto simp: bit_simps)
  then have "push_bit n x + take_bit n y = push_bit n x OR take_bit n y"
    by (rule disjunctive_add_eq_or)
  with t show ?thesis by (simp add: push_bit_eq_mult mult.commute)
qed

lemma or_tags:
  "0 \<le> y \<Longrightarrow> y < 64 \<Longrightarrow> (0x80::int) OR y = 128 + y"
  "0 \<le> y \<Longrightarrow> y < 32 \<Longrightarrow> (0xc0::int) OR y = 192 + y"
  "0 \<le> y \<Longrightarrow> y < 16 \<Longrightarrow> (0xe0::int) OR y = 224 + y"
  "0 \<le> y \<Longrightarrow> y < 8 \<Longrightarrow> (0xf0::int) OR y = 240 + y"
  using or_low_bits [of y 6 2] or_low_bits [of y 5 6] or_low_bits [of y 4 14] or_low_bits [of y 3 30]
  by (simp_all add: push_bit_eq_mult)

lemma sub_mod:
  assumes "0 \<le> p" "p < m" "0 \<le> k" "k < (m::int)"
  shows "(p - k) mod m = (if p < k then p - k + m else p - k)"
proof (cases "p < k")
  case True
  have "(p - k) mod m = (p - k + m) mod m" by simp
  also have "\<dots> = p - k + m" using assms True by (intro mod_pos_pos_trivial) auto
  finally show ?thesis using True by simp
next
  case False
  then show ?thesis using assms by simp
qed

lemma surrogate_test:
  assumes "0 \<le> v" "v \<le> 0xffff"
  shows "((v::int) - 0xd800) mod 2 ^ 32 \<le> 0xdfff - 0xd800 \<longleftrightarrow> 0xd800 \<le> v \<and> v \<le> 0xdfff"
  using assms by (subst sub_mod) auto

lemma put_utf_arith:
  assumes "0 \<le> v" "v < 2 ^ 32"
  shows "put_utf v =
     (if v \<le> 0x7f then Some [byte v]
      else if v \<le> 0x7ff then Some [byte (192 + v div 64), byte (128 + v mod 64)]
      else if v \<le> 0xffff then
        (if 0xd800 \<le> v \<and> v \<le> 0xdfff then None
         else Some [byte (224 + v div 4096), byte (128 + v div 64 mod 64), byte (128 + v mod 64)])
      else if v \<le> 0x10ffff then
        Some [byte (240 + v div 262144), byte (128 + v div 4096 mod 64),
              byte (128 + v div 64 mod 64), byte (128 + v mod 64)]
      else None)"
proof -
  have m: "v mod 2 ^ 32 = v" using assms by simp
  have t: "0x80 OR (w mod 64) = 128 + w mod 64" for w :: int
    by (rule or_tags) simp_all
  have a: "v \<le> 0x7ff \<Longrightarrow> 0xc0 OR v div 64 = 192 + v div 64"
    using assms by (intro or_tags) auto
  have b: "v \<le> 0xffff \<Longrightarrow> 0xe0 OR v div 4096 = 224 + v div 4096"
    using assms by (intro or_tags) auto
  have c: "v \<le> 0x10ffff \<Longrightarrow> 0xf0 OR v div 262144 = 240 + v div 262144"
    using assms by (intro or_tags) auto
  have d: "drop_bit 6 v = v div 64" "drop_bit 12 v = v div 4096" "drop_bit 18 v = v div 262144"
    by (simp_all add: drop_bit_eq_div)
  show ?thesis
    unfolding put_utf_def Let_def m and_mask_mod d t
    using a b c surrogate_test [OF assms(1)] by (simp del: power_numeral)
qed

lemma peek_range: "0 \<le> peek s" "peek s < 256"
  by (auto simp: peek_def split: list.split)

lemma get_cont_arith:
  "get_cont (v, n) s = (if 128 \<le> peek (drop n s) \<and> peek (drop n s) \<le> 191
     then Inr (64 * v + (peek (drop n s) - 128), Suc n) else Inl n)"
  using peek_range [of "drop n s"]
  by (auto simp: get_cont_def Let_def push_bit_eq_mult sub_mod)

lemma lead_bits:
  "192 \<le> c \<Longrightarrow> c \<le> 223 \<Longrightarrow> (c::int) mod 32 = c - 192"
  "224 \<le> c \<Longrightarrow> c \<le> 239 \<Longrightarrow> (c::int) mod 16 = c - 224"
  "240 \<le> c \<Longrightarrow> c \<le> 247 \<Longrightarrow> (c::int) mod 8 = c - 240"
  by presburger+


definition is_cont :: "int \<Rightarrow> bool" where
  "is_cont x \<longleftrightarrow> 128 \<le> x \<and> x \<le> 191"

lemma get_utf_lead1: "peek s \<le> 0x7f \<Longrightarrow> get_utf s = (peek s, 1)"
  by (simp add: get_utf_def)

lemma get_utf_bad: "0x80 \<le> peek s \<Longrightarrow> peek s \<le> 0xbf \<or> 0xf7 < peek s \<Longrightarrow> get_utf s = (INVALID_RUNE, 1)"
  by (auto simp add: get_utf_def)

lemma get_utf_lead2:
  "0xc0 \<le> peek s \<Longrightarrow> peek s \<le> 0xdf \<Longrightarrow> get_utf s =
    (let d = peek (drop 1 s); v = 64 * (peek s - 192) + (d - 128) in
     if \<not> is_cont d then (INVALID_RUNE, 1)
     else (if v \<le> 0x7f then INVALID_RUNE else v, 2))"
  by (simp add: get_utf_def get_cont_arith and_mask_mod lead_bits is_cont_def Let_def)

lemma get_utf_lead3:
  "0xe0 \<le> peek s \<Longrightarrow> peek s \<le> 0xef \<Longrightarrow> get_utf s =
    (let d = peek (drop 1 s); e = peek (drop 2 s);
         v = 64 * (64 * (peek s - 224) + (d - 128)) + (e - 128) in
     if \<not> is_cont d then (INVALID_RUNE, 1)
     else if \<not> is_cont e then (INVALID_RUNE, 2)
     else (if v \<le> 0x7ff \<or> (v \<ge> 0xd800 \<and> v \<le> 0xdfff) then INVALID_RUNE else v, 3))"
  by (simp add: get_utf_def get_cont_arith and_mask_mod lead_bits is_cont_def numeral_2_eq_2 Let_def)

lemma get_utf_lead4:
  "0xf0 \<le> peek s \<Longrightarrow> peek s \<le> 0xf7 \<Longrightarrow> get_utf s =
    (let d = peek (drop 1 s); e = peek (drop 2 s); f = peek (drop 3 s);
         v = 64 * (64 * (64 * (peek s - 240) + (d - 128)) + (e - 128)) + (f - 128) in
     if \<not> is_cont d then (INVALID_RUNE, 1)
     else if \<not> is_cont e then (INVALID_RUNE, 2)
     else if \<not> is_cont f then (INVALID_RUNE, 3)
     else (if v \<le> 0xffff \<or> v > 0x10ffff then INVALID_RUNE else v, 4))"
  by (simp add: get_utf_def get_cont_arith and_mask_mod lead_bits is_cont_def numeral_2_eq_2
      numeral_3_eq_3 Let_def)

lemma put_utf_dom:
  assumes "put_utf v = Some bs" "is_int32 v"
  shows "0 \<le> v" "v \<le> 0x10ffff"
proof -
  have neg: "put_utf v = None" if "v < 0"
  proof -
    have "v mod 2 ^ 32 = v + 2 ^ 32"
      using sub_mod [of 0 "2 ^ 32" "- v"] that assms(2) by (simp add: is_int32_def)
    then show ?thesis using that assms(2) by (simp add: put_utf_def is_int32_def)
  qed
  then show "0 \<le> v" using assms(1) by force
  then show "v \<le> 0x10ffff"
    using assms put_utf_arith [of v] by (auto simp: is_int32_def split: if_splits)
qed

lemma peek_byte [simp]: "0 \<le> n \<Longrightarrow> n < 256 \<Longrightarrow> peek (byte n # s) = n"
  by simp



lemma get_utf_1: "0 \<le> c \<Longrightarrow> c < 128 \<Longrightarrow> get_utf (byte c # s) = (c, 1)"
  by (simp add: get_utf_lead1)

lemma get_utf_2:
  "0 \<le> a \<Longrightarrow> a < 32 \<Longrightarrow> 0 \<le> b \<Longrightarrow> b < 64 \<Longrightarrow> 0x7f < 64 * a + b \<Longrightarrow>
   get_utf (byte (192 + a) # byte (128 + b) # s) = (64 * a + b, 2)"
  by (simp add: get_utf_lead2 is_cont_def)

lemma get_utf_3:
  "0 \<le> a \<Longrightarrow> a < 16 \<Longrightarrow> 0 \<le> b \<Longrightarrow> b < 64 \<Longrightarrow> 0 \<le> c \<Longrightarrow> c < 64 \<Longrightarrow>
   v = 64 * (64 * a + b) + c \<Longrightarrow> 0x7ff < v \<Longrightarrow> \<not> (0xd800 \<le> v \<and> v \<le> 0xdfff) \<Longrightarrow>
   get_utf (byte (224 + a) # byte (128 + b) # byte (128 + c) # s) = (v, 3)"
  by (auto simp: get_utf_lead3 is_cont_def numeral_2_eq_2 Let_def)

lemma get_utf_4:
  "0 \<le> a \<Longrightarrow> a < 8 \<Longrightarrow> 0 \<le> b \<Longrightarrow> b < 64 \<Longrightarrow> 0 \<le> c \<Longrightarrow> c < 64 \<Longrightarrow> 0 \<le> d \<Longrightarrow> d < 64 \<Longrightarrow>
   v = 64 * (64 * (64 * a + b) + c) + d \<Longrightarrow> 0xffff < v \<Longrightarrow> v \<le> 0x10ffff \<Longrightarrow>
   get_utf (byte (240 + a) # byte (128 + b) # byte (128 + c) # byte (128 + d) # s) = (v, 4)"
  by (simp add: get_utf_lead4 is_cont_def numeral_2_eq_2 numeral_3_eq_3 Let_def)

lemma div_steps: "(v::int) div 4096 = v div 64 div 64" "v div 262144 = v div 64 div 64 div 64"
  by (simp_all flip: zdiv_zmult2_eq)

lemma get_utf_put_utf:
  assumes "is_int32 v" "put_utf v = Some bs"
  shows "get_utf (bs @ s) = (v, length bs)"
proof -
  note r = put_utf_dom [OF assms(2,1)]
  consider (1) "v \<le> 0x7f" | (2) "0x7f < v" "v \<le> 0x7ff" | (3) "0x7ff < v" "v \<le> 0xffff" | (4) "0xffff < v"
    by linarith
  then show ?thesis
  proof cases
    case 1 then show ?thesis using assms(2) r by (auto simp: put_utf_arith get_utf_1)
  next
    case 2
    then have "v div 64 < 32" by auto
    with 2 r show ?thesis using assms(2) get_utf_2 [of "v div 64" "v mod 64" s]
      by (auto simp: put_utf_arith)
  next
    case 3
    then have "v div 4096 < 16" by auto
    with 3 r show ?thesis
      using assms(2) get_utf_3 [of "v div 4096" "v div 64 mod 64" "v mod 64" v s]
      by (auto simp: put_utf_arith div_steps split: if_splits)
  next
    case 4
    let ?a = "v div 262144" and ?b = "v div 4096 mod 64" and ?c = "v div 64 mod 64" and ?d = "v mod 64"
    have v: "v = 64 * (64 * (64 * ?a + ?b) + ?c) + ?d" by (simp only: div_steps) simp
    have "get_utf (byte (240 + ?a) # byte (128 + ?b) # byte (128 + ?c) # byte (128 + ?d) # s) = (v, 4)"
      using r 4 by (intro get_utf_4 v) auto
    moreover have "bs = [byte (240 + ?a), byte (128 + ?b), byte (128 + ?c), byte (128 + ?d)]"
      using 4 r assms(2) by (simp add: put_utf_arith)
    ultimately show ?thesis by simp
  qed
qed



lemma is_cont_lt: "is_cont (peek (drop n s)) \<Longrightarrow> n < length s"
  by (cases "n < length s") (auto simp: is_cont_def)

lemma lead_cases:
  obtains "peek s \<le> 0x7f" | "0x80 \<le> peek s" "peek s \<le> 0xbf \<or> 0xf7 < peek s"
    | "0xc0 \<le> peek s" "peek s \<le> 0xdf" | "0xe0 \<le> peek s" "peek s \<le> 0xef"
    | "0xf0 \<le> peek s" "peek s \<le> 0xf7"
  by linarith

lemma get_utf_length: 
  assumes "s \<noteq> []" 
  shows "snd (get_utf s) \<le> length s"
proof -
  have "0 < length s" using assms by simp
  then show ?thesis
    using is_cont_lt [of 1 s] is_cont_lt [of 2 s] is_cont_lt [of 3 s]
    by (cases s rule: lead_cases)
       (auto simp: get_utf_lead1 get_utf_bad get_utf_lead2 get_utf_lead3 get_utf_lead4 Let_def Suc_le_eq
         simp del: One_nat_def length_greater_0_conv length_0_conv)
qed

lemma take_byte: "n < length s \<Longrightarrow> take 1 (drop n s) = [byte (peek (drop n s))]"
  by (metis (no_types) Cons_nth_drop_Suc One_nat_def byte_code peek_simps(2) take0 take_Suc_Cons)

lemma take_bytes:
  "0 < length s \<Longrightarrow> take 1 s = [byte (peek s)]"
  "1 < length s \<Longrightarrow> take 2 s = [byte (peek s), byte (peek (drop 1 s))]"
  "2 < length s \<Longrightarrow> take 3 s = [byte (peek s), byte (peek (drop 1 s)), byte (peek (drop 2 s))]"
  "3 < length s \<Longrightarrow> take 4 s = [byte (peek s), byte (peek (drop 1 s)), byte (peek (drop 2 s)), byte (peek (drop 3 s))]"
  by (auto simp: neq_Nil_conv less_Suc_eq_le numeral_2_eq_2 numeral_3_eq_3 eval_nat_numeral
      Suc_le_length_iff simp flip: Suc_le_eq)

text \<open>A rune the decoder accepts is the encoding it was read from: no overlong form, no
  surrogate and nothing above 0x10ffff decodes to a rune.\<close>

lemma put_utf_1: "0 \<le> c \<Longrightarrow> c < 128 \<Longrightarrow> put_utf c = Some [byte c]"
  by (simp add: put_utf_arith)

lemma put_utf_2:
  "0 \<le> a \<Longrightarrow> a < 32 \<Longrightarrow> 0 \<le> b \<Longrightarrow> b < 64 \<Longrightarrow> 0x7f < 64 * a + b \<Longrightarrow>
   put_utf (64 * a + b) = Some [byte (192 + a), byte (128 + b)]"
  by (simp add: put_utf_arith)

lemma base64: "0 \<le> c \<Longrightarrow> c < 64 \<Longrightarrow> (64 * w + c) div 64 = (w::int)"
  "0 \<le> c \<Longrightarrow> c < 64 \<Longrightarrow> (64 * w + c) mod 64 = (c::int)"
  by simp_all

lemma put_utf_3:
  assumes "0 \<le> a" "a < 16" "0 \<le> b" "b < 64" "0 \<le> c" "c < 64"
    and v: "v = 64 * (64 * a + b) + c" "0x7ff < v" "\<not> (0xd800 \<le> v \<and> v \<le> 0xdfff)"
  shows "put_utf v = Some [byte (224 + a), byte (128 + b), byte (128 + c)]"
proof -
  have d: "v div 64 = 64 * a + b" "v mod 64 = c"
    unfolding v(1) by (rule base64; fact)+
  have "(64 * a + b) div 64 = a" "(64 * a + b) mod 64 = b" by (rule base64; fact)+
  moreover have "v \<le> 0xffff" using assms(2,4,6) v(1) by auto
  ultimately show ?thesis using v(2,3) d by (simp add: put_utf_arith div_steps)
qed

lemma put_utf_4:
  assumes "0 \<le> a" "a < 8" "0 \<le> b" "b < 64" "0 \<le> c" "c < 64" "0 \<le> d" "d < 64"
    and v: "v = 64 * (64 * (64 * a + b) + c) + d" "0xffff < v" "v \<le> 0x10ffff"
  shows "put_utf v = Some [byte (240 + a), byte (128 + b), byte (128 + c), byte (128 + d)]"
proof -
  have d: "v div 64 = 64 * (64 * a + b) + c" "v mod 64 = d"
    unfolding v(1) by (rule base64; fact)+
  have "(64 * (64 * a + b) + c) div 64 = 64 * a + b" "(64 * (64 * a + b) + c) mod 64 = c"
    "(64 * a + b) div 64 = a" "(64 * a + b) mod 64 = b" by (rule base64; fact)+
  then show ?thesis using v(2,3) d by (simp add: put_utf_arith div_steps)
qed

lemma put_utf_get_utf:
  assumes "s \<noteq> []" "get_utf s = (v, n)" "v \<noteq> INVALID_RUNE"
  shows "put_utf v = Some (take n s)"
proof (cases s rule: lead_cases)
  case 1
  then show ?thesis using assms take_bytes(1) [of s] peek_range [of s]
    by (auto simp: get_utf_lead1 put_utf_1)
next
  case 2
  then show ?thesis using assms by (auto simp: get_utf_bad)
next
  case 3
  then have "is_cont (peek (drop 1 s))" "n = 2" "0x7f < v"
    "v = 64 * (peek s - 192) + (peek (drop 1 s) - 128)"
    using assms by (auto simp: get_utf_lead2 Let_def split: if_splits)
  then show ?thesis
    using 3 put_utf_2 [of "peek s - 192" "peek (drop 1 s) - 128"] take_bytes(2) [of s] is_cont_lt [of 1 s]
    by (simp add: is_cont_def)
next
  case 4
  then have c: "is_cont (peek (drop 1 s))" "is_cont (peek (drop 2 s))" "n = 3"
    and v: "v = 64 * (64 * (peek s - 224) + (peek (drop 1 s) - 128)) + (peek (drop 2 s) - 128)"
      "0x7ff < v" "\<not> (0xd800 \<le> v \<and> v \<le> 0xdfff)"
    using assms by (auto simp: get_utf_lead3 Let_def split: if_splits)
  have "put_utf v = Some [byte (224 + (peek s - 224)), byte (128 + (peek (drop 1 s) - 128)),
      byte (128 + (peek (drop 2 s) - 128))]"
    using 4 c by (intro put_utf_3 v) (auto simp: is_cont_def)
  then show ?thesis using c take_bytes(3) [of s] is_cont_lt [of 2 s] by simp
next
  case 5
  then have c: "is_cont (peek (drop 1 s))" "is_cont (peek (drop 2 s))" "is_cont (peek (drop 3 s))" "n = 4"
    and v: "v = 64 * (64 * (64 * (peek s - 240) + (peek (drop 1 s) - 128)) + (peek (drop 2 s) - 128))
       + (peek (drop 3 s) - 128)" "0xffff < v" "v \<le> 0x10ffff"
    using assms by (auto simp: get_utf_lead4 Let_def split: if_splits)
  have "put_utf v = Some [byte (240 + (peek s - 240)), byte (128 + (peek (drop 1 s) - 128)),
      byte (128 + (peek (drop 2 s) - 128)), byte (128 + (peek (drop 3 s) - 128))]"
    using 5 c by (intro put_utf_4 v) (auto simp: is_cont_def)
  then show ?thesis using c take_bytes(4) [of s] is_cont_lt [of 3 s] by simp
qed

subsection \<open>Counting and skipping runes\<close>

text \<open>The encoding of a sequence of runes; \<open>None\<close> if one of them has none.\<close>

fun encode_runes :: "int list \<Rightarrow> string option" where
  "encode_runes [] = Some []"
| "encode_runes (v # vs) =
     (case put_utf v of None \<Rightarrow> None
      | Some bs \<Rightarrow> map_option (\<lambda>t. bs @ t) (encode_runes vs))"

lemma put_utf_nonempty: "put_utf v = Some bs \<Longrightarrow> bs \<noteq> []"
  by (auto simp: put_utf_def Let_def split: if_splits)

lemma peek_zero: "peek s = 0 \<Longrightarrow> fst (get_utf s) = 0"
  by (simp add: get_utf_lead1)

lemma skip_utf_step:
  assumes "is_int32 v" "put_utf v = Some bs" "v \<noteq> 0" "i \<noteq> 0"
  shows "skip_utf (bs @ s) i = length bs + skip_utf s (i - 1)"
proof -
  have "peek (bs @ s) \<noteq> 0" "bs @ s \<noteq> []"
    using get_utf_put_utf [OF assms(1,2), of s] assms(3) peek_zero [of "bs @ s"]
      put_utf_nonempty [OF assms(2)] by auto
  with assms(4) show ?thesis
    by (subst skip_utf.simps) (simp add: get_utf_put_utf [OF assms(1,2)])
qed

lemma strlen_utf_step:
  assumes "is_int32 v" "put_utf v = Some bs" "v \<noteq> 0"
  shows "strlen_utf (bs @ s) = 1 + strlen_utf s"
  using assms(3) by (subst strlen_utf.simps) (simp add: get_utf_put_utf [OF assms(1,2)])

lemma skip_utf_0 [simp]: "skip_utf s 0 = 0"
  by (simp add: skip_utf.simps)

lemma strlen_utf_Nil [simp]: "strlen_utf [] = 0"
  by (subst strlen_utf.simps) (simp add: get_utf_lead1)

lemma strlen_utf_encode:
  "\<forall>v\<in>set vs. is_int32 v \<and> v \<noteq> 0 \<Longrightarrow> encode_runes vs = Some s \<Longrightarrow> strlen_utf s = int (length vs)"
proof (induction vs arbitrary: s)
  case (Cons v vs)
  then show ?case by (auto simp: strlen_utf_step split: option.splits)
qed simp

lemma skip_utf_encode:
  "\<forall>v\<in>set us. is_int32 v \<and> v \<noteq> 0 \<Longrightarrow> encode_runes us = Some s \<Longrightarrow>
   skip_utf (s @ t) (int (length us)) = length s"
proof (induction us arbitrary: s)
  case (Cons v vs)
  then show ?case by (auto simp: skip_utf_step split: option.splits)
qed simp

lemma skip_utf_le: "skip_utf s i \<le> length s"
proof (induction s i rule: skip_utf.induct)
  case (1 s i)
  then show ?case
    using get_utf_length [of s] by (subst skip_utf.simps) auto
qed


subsection \<open>Properties\<close>

text \<open>C1: the decoder reads back exactly the rune the encoder wrote and moves past exactly its
  bytes, whatever follows them in the string.\<close>

theorem utf8_roundtrip:
  assumes "is_int32 v" "put_utf v = Some bs"
  shows "get_utf (bs @ s) = (v, length bs)"
  using assms by (rule get_utf_put_utf)

theorem utf8_roundtrip_witness:
  "put_utf 0x20ac = Some [CHR 0xe2, CHR 0x82, CHR 0xac] \<and>
   get_utf ([CHR 0xe2, CHR 0x82, CHR 0xac] @ ''x'') = (0x20ac, 3)"
proof -
  have 1: "is_int32 0x20ac" by (simp add: is_int32_def)
  have 2: "put_utf 0x20ac = Some [CHR 0xe2, CHR 0x82, CHR 0xac]" by code_simp
  show ?thesis using utf8_roundtrip [OF 1 2, of "''x''"] 2 by simp
qed

text \<open>C2: the decoder is strict and stays inside the string: it moves past at least one and at
  most all of the bytes before the NUL, and a rune other than the replacement rune comes from
  exactly the bytes \<open>put_utf\<close> would write for it, so no overlong form, surrogate or
  out-of-range value is accepted.\<close>

theorem utf8_canonical:
  assumes "s \<noteq> []" "get_utf s = (v, n)"
  shows "0 < n \<and> n \<le> length s \<and> (v \<noteq> INVALID_RUNE \<longrightarrow> put_utf v = Some (take n s))"
  using assms get_utf_pos [of s] get_utf_length [of s] put_utf_get_utf [of s v n] by auto

theorem utf8_canonical_witness:
  "get_utf [CHR 0xc3, CHR 0xa9, CHR ''x''] = (0xe9, 2) \<and> put_utf 0xe9 = Some [CHR 0xc3, CHR 0xa9]"
proof -
  have 1: "get_utf [CHR 0xc3, CHR 0xa9, CHR ''x''] = (0xe9, 2)" by code_simp
  show ?thesis using utf8_canonical [OF _ 1] 1 by (simp add: INVALID_RUNE_def)
qed



text \<open>The callback decoder does not detect a broken sequence: on the very bytes its comment gives as
  an example it returns a rune built from the letter and swallows the letter, where \<open>get_utf\<close>
  reports the bad sequence and leaves the letter to be read next.\<close>

theorem get_utf_call_broken_sequence:
  "get_utf_call [0xe3, 0x80, 0x41] (-1) = (0x2fc1, -1, [])"
  "get_utf [CHR 0xe3, CHR 0x80, CHR 0x41] = (INVALID_RUNE, 2)"
  by code_simp+

end
