(* ===== verification/Streams.thy ===== *)
theory Streams
  imports Utf "HOL-Library.Monad_Syntax"
begin

text \<open>
  The growable character buffers of \<open>server/streams.c\<close>. The buffer is the block of memory the
  stream owns, \<open>buflen\<close> bytes of it, of which the first \<open>current\<close> are the text; a write outside
  the block has no defined result (\<open>None\<close>). Fresh memory is filled with NULs: the code never
  reads a byte it has not written. Sizes stay below the range of \<open>int\<close>.
\<close>

record stream =
  buffer :: string
  current :: nat

definition buflen :: "stream \<Rightarrow> nat" where
  "buflen s = length (buffer s)"

definition fresh :: "nat \<Rightarrow> string" where
  "fresh n = replicate n (CHR 0x00)"

text \<open>Copying bytes to a position of a block, as \<open>memcpy\<close> and \<open>strcpy\<close> do.\<close>

definition poke :: "string \<Rightarrow> nat \<Rightarrow> string \<Rightarrow> string option" where
  "poke b i bs = (if i + length bs \<le> length b
     then Some (take i b @ bs @ drop (i + length bs) b) else None)"

definition new_stream :: "int \<Rightarrow> stream" where
  "new_stream sz = (let n = (if sz < 1 then 1 else sz) in
     \<lparr>buffer = fresh (nat n), current = 0\<rparr>)"

definition grow :: "stream \<Rightarrow> nat \<Rightarrow> stream option" where
  "grow s newlen =
     map_option (\<lambda>b. s\<lparr>buffer := b\<rparr>) (poke (fresh newlen) 0 (take (current s) (buffer s)))"

definition write_at_current :: "stream \<Rightarrow> string \<Rightarrow> nat \<Rightarrow> stream option" where
  "write_at_current s bs n =
     map_option (\<lambda>b. s\<lparr>buffer := b, current := current s + n\<rparr>) (poke (buffer s) (current s) bs)"

definition stream_add_char :: "stream \<Rightarrow> char \<Rightarrow> stream option" where
  "stream_add_char s c = do {
     s \<leftarrow> (if current s + 1 \<ge> buflen s then grow s (buflen s * 2) else Some s);
     write_at_current s [c] 1
   }"

text \<open>\<open>put_utf\<close> leaves the pointer alone when it returns -1.\<close>

definition stream_add_utf :: "stream \<Rightarrow> int \<Rightarrow> (int \<times> stream) option" where
  "stream_add_utf s c = do {
     s \<leftarrow> (if current s + 4 \<ge> buflen s then grow s (buflen s * 2 + 4) else Some s);
     (case put_utf c of
        None \<Rightarrow> Some (-1, s)
      | Some bs \<Rightarrow> map_option (\<lambda>s. (0, s)) (write_at_current s bs (length bs)))
   }"

definition stream_delete_char :: "stream \<Rightarrow> stream" where
  "stream_delete_char s = (if current s > 0 then s\<lparr>current := current s - 1\<rparr> else s)"

text \<open>
  \<open>stream_delete_utf\<close> backs over continuation bytes with no lower bound: running past the start of
  the block is \<open>None\<close>.
\<close>

fun back_over_cont :: "string \<Rightarrow> nat \<Rightarrow> nat option" where
  "back_over_cont b i =
    (if code (b ! i) AND 0xc0 = 0x80
     then (case i of 0 \<Rightarrow> None | Suc j \<Rightarrow> back_over_cont b j)
     else Some i)"

declare back_over_cont.simps [simp del]

definition stream_delete_utf :: "stream \<Rightarrow> stream option" where
  "stream_delete_utf s =
    (if current s > 0
     then map_option (\<lambda>i. s\<lparr>current := i\<rparr>) (back_over_cont (buffer s) (current s - 1))
     else Some s)"

definition room_for :: "stream \<Rightarrow> nat \<Rightarrow> stream option" where
  "room_for s len =
    (if current s + len \<ge> buflen s
     then let newlen = buflen s * 2 in
          grow s (if newlen \<le> current s + len then current s + len + 1 else newlen)
     else Some s)"

text \<open>\<open>strcpy\<close> copies the terminating NUL as well.\<close>

definition stream_add_string :: "stream \<Rightarrow> string \<Rightarrow> stream option" where
  "stream_add_string s str = do {
     s \<leftarrow> room_for s (length str);
     write_at_current s (str @ [CHR 0x00]) (length str)
   }"

definition stream_add_bytes :: "stream \<Rightarrow> string \<Rightarrow> stream option" where
  "stream_add_bytes s bytes = do {
     s \<leftarrow> room_for s (length bytes);
     write_at_current s bytes (length bytes)
   }"

text \<open>
  \<open>stream_printf\<close> of a text that has already been formatted. \<open>vsnprintf\<close> with \<open>k\<close> bytes of room
  writes the text cut to \<open>k - 1\<close> bytes and a NUL (nothing when \<open>k\<close> is 0) and returns its full length.
\<close>

definition vsnprintf_at :: "stream \<Rightarrow> string \<Rightarrow> stream option" where
  "vsnprintf_at s str = (let k = buflen s - current s in
     write_at_current s (if k = 0 then [] else take (k - 1) str @ [CHR 0x00]) 0)"

definition stream_printf :: "stream \<Rightarrow> string \<Rightarrow> stream option" where
  "stream_printf s str = do {
     s \<leftarrow> vsnprintf_at s str;
     let len = length str;
     s \<leftarrow> (if current s + len \<ge> buflen s
           then Option.bind (room_for s len) (\<lambda>s. vsnprintf_at s str) else Some s);
     Some (s\<lparr>current := current s + len\<rparr>)
   }"

definition stream_contents :: "stream \<Rightarrow> (string \<times> stream) option" where
  "stream_contents s = map_option (\<lambda>b. (take (current s) b, s\<lparr>buffer := b\<rparr>))
     (poke (buffer s) (current s) [CHR 0x00])"

definition reset_stream :: "stream \<Rightarrow> (string \<times> stream) option" where
  "reset_stream s = map_option (\<lambda>b. (take (current s) b, s\<lparr>buffer := b, current := 0\<rparr>))
     (poke (buffer s) (current s) [CHR 0x00])"

definition stream_length :: "stream \<Rightarrow> nat" where
  "stream_length s = current s"

subsection \<open>The invariant and the text of a stream\<close>

text \<open>There is always room for the NUL that ends the text.\<close>

definition stream_ok :: "stream \<Rightarrow> bool" where
  "stream_ok s \<longleftrightarrow> current s < buflen s"

definition text_of :: "stream \<Rightarrow> string" where
  "text_of s = take (current s) (buffer s)"

lemma new_stream_ok: "stream_ok (new_stream n) \<and> text_of (new_stream n) = []"
  by (simp add: new_stream_def stream_ok_def text_of_def buflen_def fresh_def Let_def)

lemma grow_spec:
  "stream_ok s \<Longrightarrow> current s \<le> n \<Longrightarrow>
   \<exists>s'. grow s n = Some s' \<and> buflen s' = n \<and> current s' = current s \<and> text_of s' = text_of s"
  by (auto simp: grow_def poke_def fresh_def buflen_def text_of_def stream_ok_def)

lemma write_spec:
  "current s + length bs \<le> buflen s \<Longrightarrow> n \<le> length bs \<Longrightarrow>
   \<exists>s'. write_at_current s bs n = Some s' \<and> buflen s' = buflen s \<and>
     current s' = current s + n \<and> text_of s' = text_of s @ take n bs"
  by (auto simp: write_at_current_def poke_def buflen_def text_of_def)

text \<open>The contract of an operation that appends \<open>bs\<close>: it does not go out of the block, keeps the
  room for the NUL and leaves the old text followed by \<open>bs\<close>.\<close>

definition appends :: "stream \<Rightarrow> string \<Rightarrow> stream option \<Rightarrow> bool" where
  "appends s bs r \<longleftrightarrow> (case r of None \<Rightarrow> False
     | Some s' \<Rightarrow> stream_ok s' \<and> text_of s' = text_of s @ bs)"

lemma room_for_spec:
  assumes "stream_ok s"
  shows "\<exists>s'. room_for s n = Some s' \<and> current s' + n < buflen s' \<and> current s' = current s \<and>
    text_of s' = text_of s"
proof (cases "current s + n \<ge> buflen s")
  case True
  let ?m = "if buflen s * 2 \<le> current s + n then current s + n + 1 else buflen s * 2"
  have m: "current s \<le> ?m" "current s + n < ?m" by auto
  from grow_spec [OF assms m(1)] obtain s' where
    "grow s ?m = Some s'" "buflen s' = ?m" "current s' = current s" "text_of s' = text_of s" by blast
  with True m(2) show ?thesis by (simp add: room_for_def Let_def)
next
  case False
  then show ?thesis by (simp add: room_for_def)
qed

lemma make_room_spec:
  assumes "stream_ok s" "current s + k < n"
  shows "\<exists>s'. (if current s + k \<ge> buflen s then grow s n else Some s) = Some s' \<and>
    current s' + k < buflen s' \<and> text_of s' = text_of s"
proof (cases "current s + k \<ge> buflen s")
  case True
  from assms have "current s \<le> n" by simp
  from grow_spec [OF assms(1) this] assms(2) True show ?thesis by auto
qed auto

lemma add_char_appends:
  assumes "stream_ok s"
  shows "appends s [c] (stream_add_char s c)"
proof -
  from assms have "current s + 1 < buflen s * 2" by (simp add: stream_ok_def)
  from make_room_spec [OF assms this] obtain s' where
    s': "(if current s + 1 \<ge> buflen s then grow s (buflen s * 2) else Some s) = Some s'"
    "current s' + 1 < buflen s'" "text_of s' = text_of s" by blast
  from s'(2) have "current s' + length [c] \<le> buflen s'" by simp
  from write_spec [OF this, of 1] obtain s2 where
    "write_at_current s' [c] 1 = Some s2" "buflen s2 = buflen s'" "current s2 = current s' + 1"
    "text_of s2 = text_of s' @ [c]" by auto
  with s' show ?thesis by (simp only: stream_add_char_def appends_def stream_ok_def) simp
qed

lemma add_string_appends:
  assumes "stream_ok s"
  shows "appends s t (stream_add_string s t)"
proof -
  from room_for_spec [OF assms, of "length t"] obtain s' where
    s': "room_for s (length t) = Some s'" "current s' + length t < buflen s'" "text_of s' = text_of s"
    by blast
  from s'(2) have "current s' + length (t @ [CHR 0x00]) \<le> buflen s'" by simp
  from write_spec [OF this, of "length t"] obtain s2 where
    "write_at_current s' (t @ [CHR 0x00]) (length t) = Some s2" "buflen s2 = buflen s'"
    "current s2 = current s' + length t" "text_of s2 = text_of s' @ t" by auto
  with s' show ?thesis by (simp add: stream_add_string_def appends_def stream_ok_def)
qed

lemma add_bytes_appends:
  assumes "stream_ok s"
  shows "appends s t (stream_add_bytes s t)"
proof -
  from room_for_spec [OF assms, of "length t"] obtain s' where
    s': "room_for s (length t) = Some s'" "current s' + length t < buflen s'" "text_of s' = text_of s"
    by blast
  from s'(2) have "current s' + length t \<le> buflen s'" by simp
  from write_spec [OF this, of "length t"] obtain s2 where
    "write_at_current s' t (length t) = Some s2" "buflen s2 = buflen s'"
    "current s2 = current s' + length t" "text_of s2 = text_of s' @ t" by auto
  with s' show ?thesis by (simp add: stream_add_bytes_def appends_def stream_ok_def)
qed

lemma vsnprintf_spec:
  assumes ok: "current s < buflen s"
  shows "\<exists>s'. vsnprintf_at s t = Some s' \<and> buflen s' = buflen s \<and> current s' = current s \<and>
    text_of s' = text_of s \<and>
    (current s + length t < buflen s \<longrightarrow> take (current s + length t) (buffer s') = text_of s @ t)"
proof -
  let ?w = "take (buflen s - current s - 1) t @ [CHR 0x00]"
  have l: "current s + length ?w \<le> buflen s" using ok by auto
  have "vsnprintf_at s t = Some (s\<lparr>buffer := take (current s) (buffer s) @ ?w @
      drop (current s + length ?w) (buffer s)\<rparr>)"
    using ok l by (simp add: vsnprintf_at_def write_at_current_def poke_def buflen_def Let_def)
  with ok l show ?thesis by (auto simp: text_of_def buflen_def)
qed

lemma printf_appends:
  assumes ok: "stream_ok s"
  shows "appends s t (stream_printf s t)"
proof -
  from ok have "current s < buflen s" by (simp add: stream_ok_def)
  from vsnprintf_spec [OF this, of t] obtain s1 where
    s1: "vsnprintf_at s t = Some s1" "buflen s1 = buflen s" "current s1 = current s"
      "text_of s1 = text_of s"
      "current s + length t < buflen s \<longrightarrow> take (current s + length t) (buffer s1) = text_of s @ t"
    by blast
  show ?thesis
  proof (cases "current s + length t \<ge> buflen s")
    case False
    with s1 show ?thesis
      by (simp add: stream_printf_def appends_def stream_ok_def text_of_def buflen_def)
  next
    case True
    have ok1: "stream_ok s1" using ok s1 by (simp add: stream_ok_def)
    from room_for_spec [OF ok1, of "length t"] obtain s2 where
      s2: "room_for s1 (length t) = Some s2" "current s2 + length t < buflen s2"
        "current s2 = current s1" "text_of s2 = text_of s1" by blast
    then have "current s2 < buflen s2" by simp
    from vsnprintf_spec [OF this, of t] s2(2) obtain s3 where
      s3: "vsnprintf_at s2 t = Some s3" "buflen s3 = buflen s2" "current s3 = current s2"
        "take (current s2 + length t) (buffer s3) = text_of s2 @ t" by blast
    from True s1 s2 s3 have "stream_printf s t = Some (s3\<lparr>current := current s3 + length t\<rparr>)"
      by (simp add: stream_printf_def)
    with s1 s2 s3 show ?thesis
      by (simp add: appends_def stream_ok_def text_of_def buflen_def)
  qed
qed

lemma put_utf_length: "put_utf c = Some bs \<Longrightarrow> length bs \<le> 4"
  by (auto simp: put_utf_def Let_def split: if_splits)

lemma add_utf_appends:
  assumes ok: "stream_ok s"
  shows "case stream_add_utf s c of None \<Rightarrow> False
    | Some (r, s') \<Rightarrow> stream_ok s' \<and>
        (case put_utf c of None \<Rightarrow> r = -1 \<and> text_of s' = text_of s
         | Some bs \<Rightarrow> r = 0 \<and> text_of s' = text_of s @ bs)"
proof -
  from ok have "current s + 4 < buflen s * 2 + 4" by (simp add: stream_ok_def)
  from make_room_spec [OF ok this] obtain s' where
    s': "(if current s + 4 \<ge> buflen s then grow s (buflen s * 2 + 4) else Some s) = Some s'"
    "current s' + 4 < buflen s'" "text_of s' = text_of s" by blast
  show ?thesis
  proof (cases "put_utf c")
    case None
    with s' show ?thesis by (simp add: stream_add_utf_def stream_ok_def)
  next
    case (Some bs)
    then have "current s' + length bs \<le> buflen s'" using put_utf_length [OF Some] s'(2) by simp
    from write_spec [OF this, of "length bs"] obtain s2 where
      "write_at_current s' bs (length bs) = Some s2" "buflen s2 = buflen s'"
      "current s2 = current s' + length bs" "text_of s2 = text_of s' @ bs" by auto
    with s' Some put_utf_length [OF Some] show ?thesis
      by (simp add: stream_add_utf_def stream_ok_def)
  qed
qed

lemma reset_spec:
  "stream_ok s \<Longrightarrow> \<exists>s'. reset_stream s = Some (text_of s, s') \<and> stream_ok s' \<and> text_of s' = []"
  by (auto simp: reset_stream_def poke_def stream_ok_def text_of_def buflen_def)

lemma contents_spec:
  "stream_ok s \<Longrightarrow> \<exists>s'. stream_contents s = Some (text_of s, s') \<and> stream_ok s' \<and> text_of s' = text_of s"
  by (auto simp: stream_contents_def poke_def stream_ok_def text_of_def buflen_def)

lemma delete_char_spec:
  "stream_ok s \<Longrightarrow> stream_ok (stream_delete_char s) \<and> text_of (stream_delete_char s) = butlast (text_of s)"
  by (auto simp: stream_delete_char_def stream_ok_def text_of_def buflen_def butlast_take)

subsection \<open>Text buffers\<close>

text \<open>What the clients of a buffer rely on, and what they get from it: any sequence of appends
  followed by a reset yields the concatenation of the pieces.\<close>

locale text_buffer =
  fixes ok :: "'b \<Rightarrow> bool"
    and shown :: "'b \<Rightarrow> string"
    and add :: "'b \<Rightarrow> string \<Rightarrow> 'b option"
    and reset :: "'b \<Rightarrow> (string \<times> 'b) option"
  assumes add_ok: "ok b \<Longrightarrow> \<exists>b'. add b s = Some b' \<and> ok b' \<and> shown b' = shown b @ s"
    and reset_ok: "ok b \<Longrightarrow> \<exists>b'. reset b = Some (shown b, b') \<and> ok b' \<and> shown b' = []"
begin

primrec add_all :: "'b \<Rightarrow> string list \<Rightarrow> 'b option" where
  "add_all b [] = Some b"
| "add_all b (s # ss) = Option.bind (add b s) (\<lambda>b. add_all b ss)"

lemma add_all_ok: "ok b \<Longrightarrow> \<exists>b'. add_all b ss = Some b' \<and> ok b' \<and> shown b' = shown b @ concat ss"
proof (induction ss arbitrary: b)
  case (Cons s ss)
  from add_ok [OF Cons.prems, of s] Cons.IH show ?case by fastforce
qed simp

lemma add_all_reset:
  "ok b \<Longrightarrow> shown b = [] \<Longrightarrow> \<exists>b'. Option.bind (add_all b ss) reset = Some (concat ss, b') \<and> ok b'"
  using add_all_ok [of b ss] reset_ok by fastforce

end

interpretation strings: text_buffer stream_ok text_of stream_add_string reset_stream
proof unfold_locales
  show "\<exists>b'. stream_add_string b s = Some b' \<and> stream_ok b' \<and> text_of b' = text_of b @ s"
    if "stream_ok b" for b s
    using add_string_appends [OF that, of s] by (auto simp: appends_def split: option.splits)
qed (rule reset_spec)

interpretation formats: text_buffer stream_ok text_of stream_printf reset_stream
proof unfold_locales
  show "\<exists>b'. stream_printf b s = Some b' \<and> stream_ok b' \<and> text_of b' = text_of b @ s"
    if "stream_ok b" for b s
    using printf_appends [OF that, of s] by (auto simp: appends_def split: option.splits)
qed (rule reset_spec)

subsection \<open>Properties\<close>



text \<open>a stream is a faithful string builder: from a new stream of any initial size, adding any
  pieces and resetting returns their concatenation.\<close>

theorem stream_builds_text:
  "\<exists>s. Option.bind (strings.add_all (new_stream n) ss) reset_stream = Some (concat ss, s) \<and> stream_ok s"
  using new_stream_ok [of n] by (intro strings.add_all_reset) simp_all

end
