(* ===== verification/Strings.thy ===== *)
theory Strings
  imports Streams "HOL-Library.Sublist"
begin

text \<open>
  The string routines of \<open>server/utils.c\<close>: case-insensitive comparison, the matching of verb
  names, the string hash, searching and replacing, the encoding of binary strings and the
  quoting of string literals. A \<open>const char *\<close> is the list of the bytes up to the NUL.
\<close>

subsection \<open>Definitions\<close>

text \<open>
  \<open>cmap\<close> is a table of \<open>char\<close>, which is signed on the target: it maps the ASCII capitals to small
  letters and every other byte to itself.
\<close>

definition cmap :: "char \<Rightarrow> int" where
  "cmap c = signed_take_bit 7 (if 65 \<le> code c \<and> code c \<le> 90 then code c + 32 else code c)"

fun mystrcasecmp :: "string \<Rightarrow> string \<Rightarrow> int" where
  "mystrcasecmp (c # s) (d # t) =
     (if cmap c = cmap d then (if code c = 0 then 0 else mystrcasecmp s t) else cmap c - cmap d)"
| "mystrcasecmp (c # s) [] = (if cmap c = 0 then 0 else cmap c)"
| "mystrcasecmp [] (d # t) = (if 0 = cmap d then 0 else - cmap d)"
| "mystrcasecmp [] [] = 0"

fun mystrncasecmp :: "string \<Rightarrow> string \<Rightarrow> nat \<Rightarrow> int" where
  "mystrncasecmp s t 0 = 0"
| "mystrncasecmp (c # s) (d # t) (Suc n) =
     (if cmap c = cmap d then (if code c = 0 \<or> n = 0 then 0 else mystrncasecmp s t n)
      else cmap c - cmap d)"
| "mystrncasecmp (c # s) [] (Suc n) = (if cmap c = 0 then 0 else cmap c)"
| "mystrncasecmp [] (d # t) (Suc n) = (if 0 = cmap d then 0 else - cmap d)"
| "mystrncasecmp [] [] (Suc n) = 0"

datatype star = NoStar | Inner | End

abbreviation at_end :: "string \<Rightarrow> bool" where
  "at_end v \<equiv> peek v = 0 \<or> peek v = 32"

fun skip_stars :: "string \<Rightarrow> star \<Rightarrow> string \<times> star" where
  "skip_stars v st = (case v of [] \<Rightarrow> (v, st)
    | c # v' \<Rightarrow> (if c = CHR ''*'' then skip_stars v' (if at_end v' then End else Inner) else (v, st)))"

declare skip_stars.simps [simp del]

lemma skip_stars_simps [simp]:
  "skip_stars [] st = ([], st)"
  "skip_stars (c # v) st =
    (if c = CHR ''*'' then skip_stars v (if at_end v then End else Inner) else (c # v, st))"
  by (subst skip_stars.simps, simp)+

lemma skip_stars_suffix: "suffix (fst (skip_stars v st)) v"
  by (induction v arbitrary: st) (auto intro: suffix_ConsI)

text \<open>The loop over one alias: it stops at the first place where the alias and the word part.\<close>

function match_alias :: "string \<Rightarrow> string \<Rightarrow> star \<Rightarrow> string \<times> string \<times> star" where
  "match_alias v w st = (case skip_stars v st of (v1, st1) \<Rightarrow>
     if at_end v1 \<or> peek w = 0 \<or> cmap (hd w) \<noteq> cmap (hd v1) then (v1, w, st1)
     else match_alias (tl v1) (tl w) st1)"
  by pat_completeness auto
termination
  by (relation "measure (\<lambda>(v, w, st). length w)") (auto simp: peek_def split: list.splits)

declare match_alias.simps [simp del]

lemma match_alias_suffix: "suffix (fst (match_alias v w st)) v"
proof (induction v w st rule: match_alias.induct)
  case (1 v w st)
  obtain v1 st1 where s: "skip_stars v st = (v1, st1)" by force
  have v1: "suffix v1 v" using skip_stars_suffix [of v st] s by simp
  show ?case
  proof (cases "at_end v1 \<or> peek w = 0 \<or> cmap (hd w) \<noteq> cmap (hd v1)")
    case True
    then show ?thesis using s v1 by (subst match_alias.simps) simp
  next
    case False
    then have "suffix (fst (match_alias (tl v1) (tl w) st1)) (tl v1)" using "1" s by simp
    moreover have "suffix (tl v1) v" using v1 by (metis suffix_tl suffix_order.trans)
    ultimately show ?thesis using s False by (subst match_alias.simps) simp
  qed
qed

definition next_alias :: "string \<Rightarrow> string" where
  "next_alias v = dropWhile (\<lambda>c. c = CHR '' '') (dropWhile (\<lambda>c. c \<noteq> CHR 0x00 \<and> c \<noteq> CHR '' '') v)"

lemma next_alias_shorter:
  assumes "suffix v' v" "v \<noteq> []" "peek v \<noteq> 0"
  shows "length (next_alias v') < length v"
proof (cases "v' = v")
  case True
  have d: "length (dropWhile P xs) \<le> length xs" for P and xs :: string by (rule length_dropWhile_le)
  obtain c r where v: "v = c # r" "c \<noteq> CHR 0x00" using assms by (cases v) auto
  show ?thesis
  proof (cases "c = CHR '' ''")
    case True
    then show ?thesis using \<open>v' = v\<close> v d [of _ r] by (simp add: next_alias_def less_Suc_eq_le)
  next
    case False
    then have "next_alias v' = dropWhile (\<lambda>c. c = CHR '' '') (dropWhile (\<lambda>c. c \<noteq> CHR 0x00 \<and> c \<noteq> CHR '' '') r)"
      using \<open>v' = v\<close> v by (simp add: next_alias_def)
    then have "length (next_alias v') \<le> length r" using d le_trans by metis
    then show ?thesis using v by simp
  qed
next
  case False
  then have "length v' < length v" using assms(1) by (metis suffix_length_less strict_suffix_def)
  moreover have "length (next_alias v') \<le> length v'"
    unfolding next_alias_def by (meson length_dropWhile_le le_trans)
  ultimately show ?thesis by simp
qed

text \<open>
  \<open>verb\<close> is a space-separated list of aliases in which stars mark what may be left out; \<open>same\<close> is
  the test \<open>verb == word\<close> of the two pointers with which the function begins.
\<close>

function match_aliases :: "string \<Rightarrow> string \<Rightarrow> bool" where
  "match_aliases v word =
    (if peek v = 0 then False
     else case match_alias v word NoStar of (v', w, st) \<Rightarrow>
       if (if peek w = 0 then st \<noteq> NoStar \<or> at_end v' else st = End) then True
       else match_aliases (next_alias v') word)"
  by pat_completeness auto
termination
proof (relation "measure (\<lambda>(v, w). length v)", simp)
  fix v word v' w st and p :: "string \<times> star"
  assume "peek v \<noteq> 0" and m: "(v', p) = match_alias v word NoStar"
  moreover then have "v \<noteq> []" by auto
  moreover have "suffix v' v" using match_alias_suffix [of v word NoStar] by (simp flip: m)
  ultimately show "((next_alias v', word), v, word) \<in> measure (\<lambda>(v, w). length v)"
    using next_alias_shorter by simp
qed

declare match_aliases.simps [simp del]

definition verbcasecmp :: "bool \<Rightarrow> string \<Rightarrow> string \<Rightarrow> bool" where
  "verbcasecmp same verb word \<longleftrightarrow> same \<or> match_aliases verb word"


text \<open>\<open>unsigned\<close> arithmetic on 32 bits, with the sign-extended table entry added in.\<close>

fun str_hash_from :: "32 word \<Rightarrow> string \<Rightarrow> 32 word" where
  "str_hash_from ans [] = ans"
| "str_hash_from ans (c # s) =
     str_hash_from (push_bit 3 ans + drop_bit 28 ans + word_of_int (cmap c)) s"

definition str_hash :: "string \<Rightarrow> 32 word" where
  "str_hash s = str_hash_from 0 s"

text \<open>Whether \<open>strncmp\<close> or \<open>mystrncasecmp\<close> with the length of \<open>what\<close> returns 0 at this place.\<close>

definition occurs_here :: "bool \<Rightarrow> string \<Rightarrow> string \<Rightarrow> bool" where
  "occurs_here case_counts s what =
     (if case_counts then take (length what) s = what
      else mystrncasecmp s what (length what) = 0)"

partial_function (option) strsub :: "string \<Rightarrow> string \<Rightarrow> string \<Rightarrow> bool \<Rightarrow> string option" where
  "strsub source what with' case_counts =
    (case source of [] \<Rightarrow> Some []
     | c # rest \<Rightarrow>
         (if occurs_here case_counts source what
          then Option.bind (strsub (drop (length what) source) what with' case_counts)
                 (\<lambda>t. Some (with' @ t))
          else Option.bind (strsub rest what with' case_counts) (\<lambda>t. Some (c # t))))"

declare strsub.simps [code]

function strindex_from :: "string \<Rightarrow> string \<Rightarrow> bool \<Rightarrow> int \<Rightarrow> int" where
  "strindex_from s what case_counts ind =
    (if length what \<le> length s
     then (if occurs_here case_counts s what then ind + 1
           else strindex_from (drop (snd (get_utf s)) s) what case_counts (ind + 1))
     else 0)"
  by pat_completeness auto
termination
proof (relation "measure (\<lambda>(s, what, cc, ind). length s)", simp)
  fix s what :: string and cc :: bool and ind :: int
  assume "length what \<le> length s" "\<not> occurs_here cc s what"
  then have "s \<noteq> []" by (auto simp: occurs_here_def split: if_splits)
  then show "((drop (snd (get_utf s)) s, what, cc, ind + 1), s, what, cc, ind)
      \<in> measure (\<lambda>(s, what, cc, ind). length s)"
    using get_utf_pos [of s] by simp
qed

declare strindex_from.simps [simp del]

definition strindex :: "string \<Rightarrow> string \<Rightarrow> bool \<Rightarrow> int" where
  "strindex source what case_counts = strindex_from source what case_counts 0"

text \<open>
  \<open>strrindex\<close> walks a pointer down from the last place where \<open>what\<close> could begin; here it is an
  index into \<open>source\<close>. A read below the start of the string is \<open>None\<close>.
\<close>

definition is_cont_at :: "string \<Rightarrow> int \<Rightarrow> bool option" where
  "is_cont_at source i = (if i < 0 then None else Some (peek (drop (nat i) source) AND 0xc0 = 0x80))"

partial_function (option) back_over :: "string \<Rightarrow> int \<Rightarrow> int option" where
  "back_over source i = Option.bind (is_cont_at source i)
     (\<lambda>c. if c then back_over source (i - 1) else Some i)"

declare back_over.simps [code]

partial_function (option) strrindex_from :: "string \<Rightarrow> string \<Rightarrow> bool \<Rightarrow> int \<Rightarrow> int \<Rightarrow> int option" where
  "strrindex_from source what case_counts i ind =
    (if i \<ge> 0
     then (if occurs_here case_counts (drop (nat i) source) what then Some (ind + 1)
           else Option.bind (back_over source i)
                  (\<lambda>j. strrindex_from source what case_counts (j - 1) (ind - 1)))
     else Some 0)"

declare strrindex_from.simps [code]

definition strrindex :: "string \<Rightarrow> string \<Rightarrow> bool \<Rightarrow> int option" where
  "strrindex source what case_counts =
    (let i = int (length source) - int (length what) in
     if i < 0 then Some 0
     else Option.bind (back_over source i) (\<lambda>i.
       let ind = strlen_utf source - strlen_utf (drop (nat i) source) in
       strrindex_from source what case_counts i ind))"

text \<open>Binary strings: printable bytes stand for themselves, all others are \<open>~XX\<close>.\<close>

definition hex_digit :: "int \<Rightarrow> char" where
  "hex_digit d = (if d < 10 then byte (48 + d) else byte (97 + (d - 10)))"

fun raw_bytes_to_binary :: "string \<Rightarrow> string" where
  "raw_bytes_to_binary [] = []"
| "raw_bytes_to_binary (c # s) =
     (if code c \<ge> 32 \<and> code c < 126 then c # raw_bytes_to_binary s
      else CHR ''~'' # hex_digit (code c div 16) # hex_digit (code c mod 16) # raw_bytes_to_binary s)"

definition hex_val :: "char \<Rightarrow> int option" where
  "hex_val ch = (let c = code ch OR 0x20 in
     if 48 \<le> c \<and> c \<le> 57 then Some (c - 48)
     else if 97 \<le> c \<and> c \<le> 102 then Some (c - 97 + 10)
     else None)"

text \<open>A NUL in place of a digit is not one, so a string that ends inside an escape gives \<open>None\<close>.\<close>

fun binary_to_raw_bytes :: "string \<Rightarrow> string option" where
  "binary_to_raw_bytes [] = Some []"
| "binary_to_raw_bytes (c # s) =
     (if c \<noteq> CHR ''~'' then map_option (\<lambda>t. c # t) (binary_to_raw_bytes s)
      else (case s of
          d # e # t \<Rightarrow>
            (case (hex_val d, hex_val e) of
               (Some x, Some y) \<Rightarrow> map_option (\<lambda>u. byte (push_bit 4 x + y) # u) (binary_to_raw_bytes t)
             | _ \<Rightarrow> None)
        | _ \<Rightarrow> None))"

fun quote_chars :: "string \<Rightarrow> string" where
  "quote_chars [] = []"
| "quote_chars (c # s) =
    (let n = code c in
     (if n = 7 then [CHR 0x5c, CHR ''a'']
      else if n = 8 then [CHR 0x5c, CHR ''b'']
      else if n = 27 then [CHR 0x5c, CHR ''e'']
      else if n = 12 then [CHR 0x5c, CHR ''f'']
      else if n = 10 then [CHR 0x5c, CHR ''n'']
      else if n = 13 then [CHR 0x5c, CHR ''r'']
      else if n = 9 then [CHR 0x5c, CHR ''t'']
      else if n = 11 then [CHR 0x5c, CHR ''v'']
      else if c = CHR 0x22 \<or> c = CHR 0x5c then [CHR 0x5c, c]
      else [c]) @ quote_chars s)"

definition string_quote :: "string \<Rightarrow> string" where
  "string_quote s = [CHR 0x22] @ quote_chars s @ [CHR 0x22]"

subsection \<open>Comparison up to case\<close>

abbreviation fold_case :: "string \<Rightarrow> int list" where
  "fold_case s \<equiv> map cmap s"

lemma cmap_0 [simp]: "cmap c = 0 \<longleftrightarrow> c = CHR 0x00"
proof -
  let ?n = "if 65 \<le> code c \<and> code c \<le> 90 then code c + 32 else code c"
  have r: "0 \<le> ?n" "?n < 256" by auto
  have "signed_take_bit 7 ?n = 0 \<longleftrightarrow> take_bit 8 ?n = take_bit 8 0"
    using signed_take_bit_eq_iff_take_bit_eq [of 7 ?n 0] by simp
  also have "\<dots> \<longleftrightarrow> ?n = 0" using r by (simp add: take_bit_int_eq_self)
  also have "\<dots> \<longleftrightarrow> code c = 0" by auto
  finally show ?thesis by (simp add: cmap_def)
qed

lemma cmap_0' [simp]: "0 = cmap c \<longleftrightarrow> c = CHR 0x00"
  using cmap_0 [of c] by metis

lemma mystrcasecmp_0:
  "c_string s \<Longrightarrow> c_string t \<Longrightarrow> mystrcasecmp s t = 0 \<longleftrightarrow> fold_case s = fold_case t"
  by (induction s t rule: mystrcasecmp.induct) auto

lemma mystrncasecmp_0:
  "c_string s \<Longrightarrow> c_string t \<Longrightarrow>
   mystrncasecmp s t n = 0 \<longleftrightarrow> take n (fold_case s) = take n (fold_case t)"
  by (induction s t n rule: mystrncasecmp.induct) auto

lemma mystrcasecmp_refl [simp]: "mystrcasecmp s s = 0"
proof (induction s)
  case (Cons c s) then show ?case by simp
qed simp

lemma str_hash_from_cong: "fold_case s = fold_case t \<Longrightarrow> str_hash_from a s = str_hash_from a t"
proof (induction s arbitrary: a t)
  case (Cons c s)
  then obtain d t' where "t = d # t'" "cmap c = cmap d" "fold_case s = fold_case t'" by (cases t) auto
  with Cons.IH show ?case by simp
qed simp

lemma str_hash_cong: "fold_case s = fold_case t \<Longrightarrow> str_hash s = str_hash t"
  unfolding str_hash_def by (rule str_hash_from_cong)

text \<open>The test \<open>hash == h && !mystrcasecmp(...)\<close> of every lookup: the hash never rejects a name that
  the comparison would accept.\<close>

lemma hash_and_compare:
  assumes "c_string s" "c_string t"
  shows "str_hash s = str_hash t \<and> mystrcasecmp s t = 0 \<longleftrightarrow> fold_case s = fold_case t"
  unfolding mystrcasecmp_0 [OF assms] using str_hash_cong [of s t] by blast


subsection \<open>What a verb name matches\<close>

text \<open>
  The aliases of a verb name, and what one alias matches: with the stars taken out, the alias is
  a text; the word is a case-insensitive prefix of it that covers at least the part before the
  first star, or, when the alias ends in a star, any extension of the whole text.
\<close>

function aliases_of :: "string \<Rightarrow> string list" where
  "aliases_of v = (if peek v = 0 then []
     else takeWhile (\<lambda>c. c \<noteq> CHR 0x00 \<and> c \<noteq> CHR '' '') v # aliases_of (next_alias v))"
  by pat_completeness auto
termination
  by (relation "measure length") (auto intro!: next_alias_shorter)

declare aliases_of.simps [simp del]

abbreviation not_star :: "char \<Rightarrow> bool" where
  "not_star c \<equiv> c \<noteq> CHR ''*''"

definition alias_matches :: "string \<Rightarrow> string \<Rightarrow> bool" where
  "alias_matches p w \<longleftrightarrow>
    (let lit = fold_case (filter not_star p); word = fold_case w in
     (prefix word lit \<and> length (takeWhile not_star p) \<le> length word) \<or>
     (p \<noteq> [] \<and> last p = CHR ''*'' \<and> prefix lit word))"

text \<open>The same once a star has been passed.\<close>

definition tail_matches :: "string \<Rightarrow> star \<Rightarrow> string \<Rightarrow> bool" where
  "tail_matches p st w \<longleftrightarrow>
    (let lit = fold_case (filter not_star p); word = fold_case w in
     prefix word lit \<or>
     ((if p = [] then st = End else last p = CHR ''*'') \<and> prefix lit word))"

definition accepts :: "string \<times> string \<times> star \<Rightarrow> bool" where
  "accepts r = (case r of (v', w, st) \<Rightarrow> if peek w = 0 then st \<noteq> NoStar \<or> at_end v' else st = End)"

abbreviation word_chars :: "string \<Rightarrow> bool" where
  "word_chars p \<equiv> c_string p \<and> CHR '' '' \<notin> set p"

abbreviation alias_end :: "string \<Rightarrow> bool" where
  "alias_end r \<equiv> r = [] \<or> hd r = CHR '' ''"


text \<open>The walk over one alias, by recursion on the alias.\<close>

fun walk :: "star \<Rightarrow> string \<Rightarrow> string \<Rightarrow> bool" where
  "walk st [] w = (w = [] \<or> st = End)"
| "walk st (c # p) w =
    (if c = CHR ''*'' then walk (if p = [] then End else Inner) p w
     else case w of [] \<Rightarrow> st \<noteq> NoStar | d # w' \<Rightarrow> cmap d = cmap c \<and> walk st p w')"

lemma code_is: "code c = 32 \<longleftrightarrow> c = CHR '' ''" "code c = 42 \<longleftrightarrow> c = CHR ''*''"
  using code_eq_iff [of c "CHR '' ''"] code_eq_iff [of c "CHR ''*''"] by simp_all

lemma match_alias_star:
  "match_alias (CHR ''*'' # v) w st = match_alias v w (if at_end v then End else Inner)"
  by (simp add: match_alias.simps [of "CHR ''*'' # v"] match_alias.simps [of v])

lemma match_alias_end: "alias_end r \<Longrightarrow> match_alias r w st = (r, w, st)"
  by (subst match_alias.simps) (cases r; auto)

lemma match_alias_char:
  "c \<noteq> CHR ''*'' \<Longrightarrow> c \<noteq> CHR 0x00 \<Longrightarrow> c \<noteq> CHR '' '' \<Longrightarrow> c_string w \<Longrightarrow>
   match_alias (c # v) w st =
     (if w \<noteq> [] \<and> cmap (hd w) = cmap c then match_alias v (tl w) st else (c # v, w, st))"
  by (cases w) (simp_all add: match_alias.simps [of "c # v"] code_is)

definition reaches :: "string \<Rightarrow> string \<Rightarrow> string \<Rightarrow> bool" where
  "reaches p r v' \<longleftrightarrow> (\<exists>p'. suffix p' p \<and> v' = p' @ r)"

lemma reaches_simps [simp]: "reaches p r (p @ r)" "reaches p r r"
  by (auto simp: reaches_def)

lemma reaches_Cons: "reaches p r v' \<Longrightarrow> reaches (c # p) r v'"
  by (auto simp: reaches_def intro: suffix_ConsI)

lemma match_alias_walk:
  "word_chars p \<Longrightarrow> alias_end r \<Longrightarrow> c_string w \<Longrightarrow> st = End \<longrightarrow> p = [] \<Longrightarrow>
   reaches p r (fst (match_alias (p @ r) w st)) \<and>
   (accepts (match_alias (p @ r) w st) \<longleftrightarrow> walk st p w)"
proof (induction st p w rule: walk.induct)
  case (1 st w)
  then have "at_end r" by (cases r) auto
  with 1 show ?case by (cases w) (simp_all add: match_alias_end accepts_def)
next
  case (2 st c p w)
  show ?case
  proof (cases "c = CHR ''*''")
    case True
    have e: "at_end (p @ r) \<longleftrightarrow> p = []"
      using "2.prems" by (cases p; cases r) (auto simp: code_is)
    have "reaches p r (fst (match_alias (p @ r) w (if p = [] then End else Inner))) \<and>
      (accepts (match_alias (p @ r) w (if p = [] then End else Inner)) \<longleftrightarrow>
        walk (if p = [] then End else Inner) p w)"
      using True "2.prems" by (intro "2.IH"(1)) auto
    then show ?thesis using True e by (simp add: match_alias_star reaches_Cons)
  next
    case False
    have c: "c \<noteq> CHR 0x00" "c \<noteq> CHR '' ''" using "2.prems" by auto
    have st: "st \<noteq> End" using "2.prems" by simp
    note step = match_alias_char [OF False c "2.prems"(3), of "p @ r" st]
    have stop: "reaches (c # p) r (c # p @ r)" using reaches_simps(1) [of "c # p" r] by simp
    show ?thesis
    proof (cases w)
      case Nil
      then show ?thesis using False step stop c by (simp add: accepts_def code_is)
    next
      case (Cons d w')
      show ?thesis
      proof (cases "cmap d = cmap c")
        case True
        have "reaches p r (fst (match_alias (p @ r) w' st)) \<and>
          (accepts (match_alias (p @ r) w' st) \<longleftrightarrow> walk st p w')"
          using False Cons "2.prems" by (intro "2.IH"(2)) auto
        with True False Cons step show ?thesis by (simp add: reaches_Cons)
      next
        case mis: False
        with False Cons "2.prems"(3) step stop st show ?thesis
          by (simp add: accepts_def)
      qed
    qed
  qed
qed

lemma walk_tail:
  "st \<noteq> NoStar \<Longrightarrow> st = End \<longrightarrow> p = [] \<Longrightarrow> walk st p w \<longleftrightarrow> tail_matches p st w"
proof (induction st p w rule: walk.induct)
  case (1 st w)
  then show ?case by (cases st) (auto simp: tail_matches_def)
next
  case (2 st c p w)
  show ?case
  proof (cases "c = CHR ''*''")
    case True
    have "walk (if p = [] then End else Inner) p w \<longleftrightarrow> tail_matches p (if p = [] then End else Inner) w"
      using True by (intro "2.IH"(1)) auto
    moreover have "tail_matches (c # p) st w \<longleftrightarrow> tail_matches p (if p = [] then End else Inner) w"
      using True by (simp add: tail_matches_def)
    ultimately show ?thesis using True by simp
  next
    case False
    with "2.prems" have st: "st = Inner" by (cases st) auto
    show ?thesis
    proof (cases w)
      case Nil
      with False st show ?thesis by (simp add: tail_matches_def)
    next
      case (Cons d w')
      have "walk st p w' \<longleftrightarrow> tail_matches p st w'"
        using False Cons st by (intro "2.IH"(2)) auto
      moreover have "tail_matches (c # p) st w \<longleftrightarrow> cmap d = cmap c \<and> tail_matches p st w'"
        using False Cons st by (auto simp: tail_matches_def)
      ultimately show ?thesis using False Cons by simp
    qed
  qed
qed

lemma walk_alias: "walk NoStar p w \<longleftrightarrow> alias_matches p w"
proof (induction p arbitrary: w)
  case Nil
  then show ?case by (auto simp: alias_matches_def)
next
  case (Cons c p)
  show ?case
  proof (cases "c = CHR ''*''")
    case True
    then show ?thesis
      using walk_tail [of End p w] walk_tail [of Inner p w]
      by (auto simp: alias_matches_def tail_matches_def Let_def)
  next
    case False
    with Cons show ?thesis by (cases w) (auto simp: alias_matches_def Let_def)
  qed
qed

lemma alias_split:
  assumes "c_string v"
  obtains r where "v = takeWhile (\<lambda>c. c \<noteq> CHR 0x00 \<and> c \<noteq> CHR '' '') v @ r" "alias_end r"
    "word_chars (takeWhile (\<lambda>c. c \<noteq> CHR 0x00 \<and> c \<noteq> CHR '' '') v)"
proof
  let ?P = "\<lambda>c. c \<noteq> CHR 0x00 \<and> c \<noteq> CHR '' ''"
  show "v = takeWhile ?P v @ dropWhile ?P v" by simp
  show "alias_end (dropWhile ?P v)"
    using assms hd_dropWhile [of ?P v] set_dropWhileD [of "hd (dropWhile ?P v)" ?P v]
    by (cases "dropWhile ?P v = []") (auto simp: c_string_def)
  show "word_chars (takeWhile ?P v)" by (auto simp: c_string_def dest: set_takeWhileD)
qed

lemma next_alias_app:
  assumes "word_chars p" "alias_end r" "suffix p' p"
  shows "next_alias (p' @ r) = next_alias (p @ r)"
proof -
  let ?P = "\<lambda>c. c \<noteq> CHR 0x00 \<and> c \<noteq> CHR '' ''"
  have "dropWhile ?P (q @ r) = r" if "word_chars q" for q
  proof -
    have "dropWhile ?P (q @ r) = dropWhile ?P r"
      using that by (intro dropWhile_append2) (auto simp: c_string_def)
    also have "\<dots> = r" using assms(2) by (cases r) auto
    finally show ?thesis .
  qed
  moreover have "word_chars p'" using assms by (auto simp: suffix_def)
  ultimately show ?thesis using assms(1) by (simp add: next_alias_def)
qed

lemma c_string_next_alias: "c_string v \<Longrightarrow> c_string (next_alias v)"
  by (auto simp: c_string_def next_alias_def dest!: set_dropWhileD)

lemma match_aliases_spec:
  "c_string v \<Longrightarrow> c_string w \<Longrightarrow> match_aliases v w \<longleftrightarrow> (\<exists>p \<in> set (aliases_of v). alias_matches p w)"
proof (induction v w rule: match_aliases.induct)
  case (1 v w)
  show ?case
  proof (cases "peek v = 0")
    case True
    then show ?thesis by (simp add: match_aliases.simps aliases_of.simps)
  next
    case False
    define p where "p = takeWhile (\<lambda>c. c \<noteq> CHR 0x00 \<and> c \<noteq> CHR '' '') v"
    from alias_split [OF "1.prems"(1)] obtain r where
      v: "v = p @ r" "alias_end r" "word_chars p" unfolding p_def by blast
    obtain v' w' st where m: "match_alias v w NoStar = (v', w', st)" by (cases "match_alias v w NoStar")
    from match_alias_walk [OF v(3,2) "1.prems"(2), of NoStar] obtain p' where
      p': "suffix p' p" "v' = p' @ r" and acc: "accepts (v', w', st) = alias_matches p w"
      using m v(1) by (auto simp: walk_alias reaches_def)
    have "next_alias v' = next_alias v" using next_alias_app [OF v(3,2) p'(1)] p'(2) v(1) by simp
    moreover have "match_aliases v w \<longleftrightarrow> accepts (v', w', st) \<or> match_aliases (next_alias v') w"
      using False m by (simp add: match_aliases.simps [of v] accepts_def)
    moreover have "aliases_of v = p # aliases_of (next_alias v)"
      using False by (simp add: aliases_of.simps [of v] p_def)
    moreover have "\<not> accepts (v', w', st) \<Longrightarrow> match_aliases (next_alias v') w \<longleftrightarrow>
        (\<exists>p\<in>set (aliases_of (next_alias v')). alias_matches p w)"
      using False m "1.prems" c_string_next_alias [of v] calculation(1)
      by (intro "1.IH" [OF False m [symmetric] refl]) (auto simp: accepts_def c_string_next_alias)
    ultimately show ?thesis using acc by auto
  qed
qed

subsection \<open>Binary strings\<close>

lemma hex_val_digits: "\<forall>d \<in> set [0..15]. hex_val (hex_digit d) = Some d"
  by code_simp

lemma hex_val_digit: "0 \<le> d \<Longrightarrow> d < 16 \<Longrightarrow> hex_val (hex_digit d) = Some d"
  using hex_val_digits by simp

lemma code_div_16 [simp]: "0 \<le> code c div 16" "code c div 16 < 16"
proof -
  have "x div 16 < 16" if "x < 256" for x :: int using that by presburger
  then show "code c div 16 < 16" by simp
qed (simp add: pos_imp_zdiv_nonneg_iff)

lemma binary_roundtrip: "binary_to_raw_bytes (raw_bytes_to_binary s) = Some s"
proof (induction s)
  case (Cons c s)
  show ?case
  proof (cases "code c \<ge> 32 \<and> code c < 126")
    case True
    then have "c \<noteq> CHR ''~''" by auto
    with True Cons show ?thesis by simp
  next
    case False
    have "push_bit 4 (code c div 16) + code c mod 16 = code c"
      by (simp add: push_bit_eq_mult mult.commute)
    then show ?thesis using False Cons by (simp add: hex_val_digit)
  qed
qed simp

lemma raw_bytes_to_binary_c_string: "c_string (raw_bytes_to_binary s)"
proof (induction s)
  case (Cons c s)
  have "hex_digit d \<noteq> CHR 0x00" if "0 \<le> d" "d < 16" for d
    using hex_val_digit [OF that] by (auto simp: hex_val_def Let_def)
  from this [of "code c div 16"] this [of "code c mod 16"] Cons show ?case by auto
qed simp

subsection \<open>Searching and replacing\<close>

lemma strsub_Nil [simp]: "strsub [] what w cc = Some []"
  by (simp add: strsub.simps)

lemma strsub_total: "what \<noteq> [] \<Longrightarrow> \<exists>t. strsub source what w cc = Some t"
proof (induction source rule: length_induct)
  case (1 source)
  show ?case
  proof (cases source)
    case (Cons c rest)
    have "\<exists>t. strsub (drop (length what) source) what w cc = Some t"
      using "1" Cons by (cases what) auto
    moreover have "\<exists>t. strsub rest what w cc = Some t" using "1" Cons by auto
    ultimately show ?thesis using Cons by (subst strsub.simps) auto
  qed simp
qed

lemma occurs_here_Nil [simp]: "occurs_here cc s []"
  by (simp add: occurs_here_def)

lemma strsub_empty_pattern_diverges:
  assumes "strsub source what w cc = Some r"
  shows "what = [] \<longrightarrow> source = []"
proof (rule strsub.raw_induct [where P = "\<lambda>s what w cc r. what = [] \<longrightarrow> s = []", OF _ assms])
  fix f source what w cc r
  assume IH: "\<And>s what w cc r. f s what w cc = Some r \<Longrightarrow> what = [] \<longrightarrow> s = []"
    and eq: "(case source of [] \<Rightarrow> Some []
     | c # rest \<Rightarrow>
         (if occurs_here cc source what
          then Option.bind (f (drop (length what) source) what w cc) (\<lambda>t. Some (w @ t))
          else Option.bind (f rest what w cc) (\<lambda>t. Some (c # t)))) = Some r"
  show "what = [] \<longrightarrow> source = []"
  proof
    assume e: "what = []"
    show "source = []"
    proof (rule ccontr)
      assume "source \<noteq> []"
      then obtain t where "f source what w cc = Some t"
        using eq e by (cases source) (auto split: bind_splits)
      with IH e \<open>source \<noteq> []\<close> show False by blast
    qed
  qed
qed

lemma strsub_no_occurrence:
  "what \<noteq> [] \<Longrightarrow> (\<And>i. i < length source \<Longrightarrow> \<not> occurs_here cc (drop i source) what) \<Longrightarrow>
   strsub source what w cc = Some source"
proof (induction source)
  case (Cons c source)
  have "\<not> occurs_here cc (drop i source) what" if "i < length source" for i
    using Cons.prems(2) [of "Suc i"] that by simp
  with Cons show ?case using Cons.prems(2) [of 0] by (subst strsub.simps) simp
qed simp

lemma skip_utf_Suc:
  "s \<noteq> [] \<Longrightarrow> c_string s \<Longrightarrow>
   skip_utf s (1 + int k) = snd (get_utf s) + skip_utf (drop (snd (get_utf s)) s) (int k)"
  by (subst skip_utf.simps) (cases s; simp)

lemma strindex_from_spec:
  assumes "c_string s" "strindex_from s what cc ind = r" "0 \<le> ind" "r \<noteq> 0"
  shows "\<exists>k. r = ind + int k + 1 \<and> occurs_here cc (drop (skip_utf s (int k)) s) what \<and>
    (\<forall>j < k. \<not> occurs_here cc (drop (skip_utf s (int j)) s) what)"
  using assms
proof (induction s what cc ind rule: strindex_from.induct)
  case (1 s what cc ind)
  show ?case
  proof (cases "length what \<le> length s")
    case False
    with "1.prems" show ?thesis by (simp add: strindex_from.simps)
  next
    case len: True
    show ?thesis
    proof (cases "occurs_here cc s what")
      case True
      with len "1.prems" show ?thesis by (intro exI [of _ 0]) (simp add: strindex_from.simps)
    next
      case False
      then have "s \<noteq> []" using len by (cases what) auto
      let ?t = "drop (snd (get_utf s)) s"
      have "strindex_from ?t what cc (ind + 1) = r"
        using len False "1.prems"(2) by (simp add: strindex_from.simps [of s])
      from "1.IH" [OF len False _ this] "1.prems" obtain k where
        k: "r = ind + 1 + int k + 1" "occurs_here cc (drop (skip_utf ?t (int k)) ?t) what"
          "\<forall>j<k. \<not> occurs_here cc (drop (skip_utf ?t (int j)) ?t) what" by auto
      have s: "drop (skip_utf s (int (Suc j))) s = drop (skip_utf ?t (int j)) ?t" for j
        using \<open>s \<noteq> []\<close> "1.prems"(1) by (simp add: skip_utf_Suc add.commute)
      show ?thesis
      proof (intro exI [of _ "Suc k"] conjI allI impI)
        show "r = ind + int (Suc k) + 1" using k(1) by simp
        show "occurs_here cc (drop (skip_utf s (int (Suc k))) s) what" using k(2) s by simp
        fix j assume "j < Suc k"
        then show "\<not> occurs_here cc (drop (skip_utf s (int j)) s) what"
          using k(3) s False by (cases j) auto
      qed
    qed
  qed
qed

subsection \<open>String literals\<close>

text \<open>
  The part of \<open>yylex\<close> (\<open>server/parser.y\<close>) that reads a string literal, from behind its opening
  quote: \<open>lex_getc\<close> yields runes, and each rune of the literal is added to the token with
  \<open>stream_add_utf\<close>. The result says whether the closing quote was found, and gives the token and
  the runes left.
\<close>

definition unescape :: "int \<Rightarrow> int" where
  "unescape c =
    (if c = 97 then 7 else if c = 98 then 8 else if c = 101 then 27 else if c = 102 then 12
     else if c = 110 then 10 else if c = 114 then 13 else if c = 116 then 9
     else if c = 118 then 11 else c)"

definition add_rune :: "string \<Rightarrow> int \<Rightarrow> string" where
  "add_rune token c = (case put_utf c of None \<Rightarrow> token | Some bs \<Rightarrow> token @ bs)"

fun lex_string :: "string \<Rightarrow> int list \<Rightarrow> bool \<times> string \<times> int list" where
  "lex_string token [] = (False, token, [])"
| "lex_string token (c # cs) =
    (if c = 34 then (True, token, cs)
     else if c = 10 then (False, token, cs)
     else if c = 92 then
       (case cs of [] \<Rightarrow> (False, token, []) | d # cs \<Rightarrow> lex_string (add_rune token (unescape d)) cs)
     else lex_string (add_rune token c) cs)"

text \<open>What \<open>quote_chars\<close> does, on runes: every escape is of an ASCII character.\<close>

definition quote_rune :: "int \<Rightarrow> int list" where
  "quote_rune n =
    (if n = 7 then [92, 97] else if n = 8 then [92, 98] else if n = 27 then [92, 101]
     else if n = 12 then [92, 102] else if n = 10 then [92, 110] else if n = 13 then [92, 114]
     else if n = 9 then [92, 116] else if n = 11 then [92, 118]
     else if n = 34 \<or> n = 92 then [92, n] else [n])"

lemma lex_quote_rune:
  "lex_string token (quote_rune n @ cs) = lex_string (add_rune token n) cs"
  by (simp add: quote_rune_def unescape_def)

lemma lex_quote_runes:
  "lex_string token (concat (map quote_rune vs) @ 34 # cs) = (True, foldl add_rune token vs, cs)"
  by (induction vs arbitrary: token) (simp_all add: lex_quote_rune)

lemma foldl_add_rune: "encode_runes vs = Some s \<Longrightarrow> foldl add_rune token vs = token @ s"
  by (induction vs arbitrary: s token) (auto simp: add_rune_def split: option.splits)

lemma quote_chars_append: "quote_chars (s @ t) = quote_chars s @ quote_chars t"
  by (induction s) (simp_all add: Let_def)

definition ascii_runes :: "int list" where "ascii_runes = [1..127]"

lemma quote_ascii:
  "\<forall>v \<in> set ascii_runes. encode_runes (quote_rune v) = Some (quote_chars [byte v])"
  unfolding ascii_runes_def by code_simp

lemma quote_chars_high:
  assumes "\<forall>c\<in>set s. 128 \<le> code c"
  shows "quote_chars s = s"
  using assms
proof (induction s)
  case (Cons c s)
  then have "128 \<le> code c" by simp
  then have "c \<noteq> CHR 0x22" "c \<noteq> CHR 0x5c" by auto
  with Cons show ?case by (simp add: Let_def)
qed simp

lemma put_utf_high: "0x80 \<le> v \<Longrightarrow> is_int32 v \<Longrightarrow> put_utf v = Some bs \<Longrightarrow> \<forall>c\<in>set bs. 128 \<le> code c"
proof -
  assume v: "0x80 \<le> v" "is_int32 v" and p: "put_utf v = Some bs"
  note r = put_utf_dom [OF p v(2)]
  have m: "0 \<le> w mod 64" "w mod 64 < 64" for w :: int by simp_all
  have "v \<le> 0x7ff \<Longrightarrow> v div 64 < 32" "v \<le> 0xffff \<Longrightarrow> v div 4096 < 16" "v div 262144 < 8"
    "0 \<le> v div 64" "0 \<le> v div 4096" "0 \<le> v div 262144"
    using r by (auto simp: pos_imp_zdiv_nonneg_iff)
  then show ?thesis
    using v r p m by (auto simp: put_utf_arith split: if_splits)
qed

lemma quote_rune_encode:
  assumes "is_int32 v" "v \<noteq> 0" "put_utf v = Some bs"
  shows "encode_runes (quote_rune v) = Some (quote_chars bs)"
proof (cases "v < 0x80")
  case True
  note r = put_utf_dom [OF assms(3,1)]
  then have "v \<in> set ascii_runes" using True assms(2) by (simp add: ascii_runes_def)
  moreover have "bs = [byte v]" using assms(3) True r by (simp add: put_utf_arith)
  ultimately show ?thesis using quote_ascii by blast
next
  case False
  then have "quote_rune v = [v]" by (simp add: quote_rune_def)
  moreover have "\<forall>c\<in>set bs. 128 \<le> code c"
    using put_utf_high [of v bs] False assms by simp
  then have "quote_chars bs = bs" by (rule quote_chars_high)
  ultimately show ?thesis using assms(3) by simp
qed

lemma encode_runes_append:
  "encode_runes us = Some s \<Longrightarrow> encode_runes vs = Some t \<Longrightarrow> encode_runes (us @ vs) = Some (s @ t)"
  by (induction us arbitrary: s) (auto split: option.splits)

lemma quote_runes_encode:
  "\<forall>v\<in>set vs. is_int32 v \<and> v \<noteq> 0 \<Longrightarrow> encode_runes vs = Some s \<Longrightarrow>
   encode_runes (concat (map quote_rune vs)) = Some (quote_chars s)"
proof (induction vs arbitrary: s)
  case (Cons v vs)
  then obtain bs t where "put_utf v = Some bs" "encode_runes vs = Some t" "s = bs @ t"
    by (auto split: option.splits)
  with Cons show ?case
    by (auto simp: quote_chars_append intro!: encode_runes_append quote_rune_encode)
qed simp

lemma encode_quote: "encode_runes [34] = Some [CHR 0x22]"
  by code_simp

lemma string_quote_encode:
  assumes "\<forall>v\<in>set vs. is_int32 v \<and> v \<noteq> 0" "encode_runes vs = Some s"
  shows "encode_runes (34 # concat (map quote_rune vs) @ [34]) = Some (string_quote s)"
proof -
  have "encode_runes (concat (map quote_rune vs) @ [34]) = Some (quote_chars s @ [CHR 0x22])"
    by (intro encode_runes_append quote_runes_encode encode_quote assms)
  from encode_runes_append [OF encode_quote this] show ?thesis
    by (simp only: string_quote_def append.simps)
qed

subsection \<open>Properties\<close>

text \<open>C5: the hash used to speed up name lookups never changes their outcome: names that are equal
  up to ASCII case hash alike, so the test \<open>hash == h && !mystrcasecmp(a, b)\<close> is equality up to
  case.\<close>

theorem hash_lookup_exact:
  assumes "c_string s" "c_string t"
  shows "str_hash s = str_hash t \<and> mystrcasecmp s t = 0 \<longleftrightarrow> fold_case s = fold_case t"
  using assms by (rule hash_and_compare)

theorem hash_lookup_exact_witness: "str_hash ''Aliases'' = str_hash ''aliases''"
  using hash_lookup_exact [of "''Aliases''" "''aliases''"] by (simp add: cmap_def)

text \<open>C6: what a verb name matches. \<open>verbcasecmp\<close>, a loop over two pointers and a state for the
  stars, accepts a word exactly if one of the space-separated aliases does: the word must be, up
  to case, a prefix of the alias without its stars that reaches at least to the first star, or
  extend the whole alias when that ends in a star.\<close>

theorem verbcasecmp_matches:
  assumes "c_string verb" "c_string word"
  shows "verbcasecmp False verb word \<longleftrightarrow> (\<exists>p \<in> set (aliases_of verb). alias_matches p word)"
  using match_aliases_spec [OF assms] by (simp add: verbcasecmp_def)

theorem verbcasecmp_matches_witness: "verbcasecmp False ''get t*ake'' ''TAK''"
proof -
  have "alias_matches ''t*ake'' ''TAK''" by (simp add: alias_matches_def cmap_def)
  moreover have "''t*ake'' \<in> set (aliases_of ''get t*ake'')"
    by (simp add: aliases_of.simps next_alias_def)
  ultimately show ?thesis using verbcasecmp_matches [of "''get t*ake''" "''TAK''"] by auto
qed

text \<open>C7: binary strings round-trip: any bytes at all, NULs included, are encoded as a string with
  no NUL in it from which the decoder gets the same bytes back.\<close>

theorem binary_string_roundtrip:
  "c_string (raw_bytes_to_binary s) \<and> binary_to_raw_bytes (raw_bytes_to_binary s) = Some s"
  using binary_roundtrip raw_bytes_to_binary_c_string by blast



text \<open>C9: replacing text always ends, provided the text to replace is not empty, and leaves a
  source without an occurrence as it is; with an empty one the loop of \<open>strsub\<close> never ends on a
  non-empty source, which is why its caller rejects it.\<close>

theorem strsub_terminates:
  "(what \<noteq> [] \<longrightarrow>
     (\<exists>t. strsub source what with' cc = Some t) \<and>
     ((\<forall>i < length source. \<not> occurs_here cc (drop i source) what) \<longrightarrow>
        strsub source what with' cc = Some source)) \<and>
   (source \<noteq> [] \<longrightarrow> strsub source [] with' cc = None)"
proof -
  have "source \<noteq> [] \<longrightarrow> strsub source [] with' cc = None"
    using strsub_empty_pattern_diverges [of source "[]" with' cc]
    by (cases "strsub source [] with' cc") auto
  then show ?thesis using strsub_total strsub_no_occurrence by blast
qed

theorem strsub_terminates_witness: "strsub ''abab'' ''b'' ''xy'' True = Some ''axyaxy''"
proof -
  obtain t where "strsub ''abab'' ''b'' ''xy'' True = Some t"
    using strsub_terminates [of "''b''" "''abab''" "''xy''" True] by auto
  then show ?thesis by (simp add: strsub.simps occurs_here_def)
qed



text \<open>The backward search steps over the first byte of a rune of two or more bytes once it has been
  moved into that rune, so it does not find such a rune where the forward search does.\<close>

theorem strrindex_misses_runes:
  "strrindex [CHR 0xc3, CHR 0xa9, CHR ''a'', CHR ''b''] [CHR 0xc3, CHR 0xa9] True = Some 0"
  "strindex [CHR 0xc3, CHR 0xa9, CHR ''a'', CHR ''b''] [CHR 0xc3, CHR 0xa9] True = 1"
proof -
  let ?s = "[CHR 0xc3, CHR 0xa9, CHR ''a'', CHR ''b'']"
  have "back_over ?s 2 = Some 2" "back_over ?s 1 = Some 0"
    by (simp_all add: back_over.simps is_cont_at_def)
  then show "strrindex ?s [CHR 0xc3, CHR 0xa9] True = Some 0"
    by (simp add: strrindex_def strrindex_from.simps occurs_here_def Let_def)
qed code_simp

text \<open>The pointer test with which \<open>verbcasecmp\<close> begins is not a mere shortcut: a name with a star or
  a space in it does not match itself, unless the two strings happen to be the same object.\<close>

theorem verbcasecmp_pointer_shortcut:
  "verbcasecmp True ''foo*bar'' ''foo*bar''" "\<not> verbcasecmp False ''foo*bar'' ''foo*bar''"
  by code_simp+

end
