(* ===== verification/Values.thy ===== *)
theory Values
  imports Strings
begin

text \<open>
  MOO values (\<open>server/structures.h\<close>) and the value functions of \<open>server/utils.c\<close>, with the
  comparisons of \<open>server/numbers.c\<close> they use.

  Strings and lists are reference-counted and shared in the server, and every operation that
  changes one works on a copy or on the only reference; here they are plain values. A floating-point
  number is its 64-bit IEEE pattern; comparisons are read off the pattern, arithmetic is a parameter
  of the definitions that use it. A waif is known by its address.
\<close>

type_synonym objid = int
type_synonym float64 = "64 word"

datatype error = E_NONE | E_TYPE | E_DIV | E_PERM | E_PROPNF | E_VERBNF | E_VARNF | E_INVIND
  | E_RECMOVE | E_MAXREC | E_RANGE | E_ARGS | E_NACC | E_INVARG | E_QUOTA | E_FLOAT

datatype var = VInt int | VObj objid | VStr string | VErr error | VList "var list"
  | VClear | VNone | VCatch int | VFinally int | VFloat float64 | VWaif nat

definition SYSTEM_OBJECT :: objid where "SYSTEM_OBJECT = 0"
definition NOTHING :: objid where "NOTHING = -1"
definition AMBIGUOUS :: objid where "AMBIGUOUS = -2"
definition FAILED_MATCH :: objid where "FAILED_MATCH = -3"

lemmas special_objids = SYSTEM_OBJECT_def NOTHING_def AMBIGUOUS_def FAILED_MATCH_def

text \<open>The numbers of the error values, which are stored in databases.\<close>

fun error_code :: "error \<Rightarrow> int" where
  "error_code E_NONE = 0" | "error_code E_TYPE = 1" | "error_code E_DIV = 2"
| "error_code E_PERM = 3" | "error_code E_PROPNF = 4" | "error_code E_VERBNF = 5"
| "error_code E_VARNF = 6" | "error_code E_INVIND = 7" | "error_code E_RECMOVE = 8"
| "error_code E_MAXREC = 9" | "error_code E_RANGE = 10" | "error_code E_ARGS = 11"
| "error_code E_NACC = 12" | "error_code E_INVARG = 13" | "error_code E_QUOTA = 14"
| "error_code E_FLOAT = 15"

datatype var_type = TYPE_INT | TYPE_OBJ | TYPE_STR | TYPE_ERR | TYPE_LIST | TYPE_CLEAR | TYPE_NONE
  | TYPE_CATCH | TYPE_FINALLY | TYPE_FLOAT | TYPE_WAIF

fun type_of :: "var \<Rightarrow> var_type" where
  "type_of (VInt _) = TYPE_INT" | "type_of (VObj _) = TYPE_OBJ" | "type_of (VStr _) = TYPE_STR"
| "type_of (VErr _) = TYPE_ERR" | "type_of (VList _) = TYPE_LIST" | "type_of VClear = TYPE_CLEAR"
| "type_of VNone = TYPE_NONE" | "type_of (VCatch _) = TYPE_CATCH"
| "type_of (VFinally _) = TYPE_FINALLY" | "type_of (VFloat _) = TYPE_FLOAT"
| "type_of (VWaif _) = TYPE_WAIF"

subsection \<open>Comparing floating-point numbers\<close>

text \<open>The IEEE 754 comparisons on bit patterns: exponent all ones with a fraction is a NaN, both
  zeroes are equal, otherwise sign and magnitude decide.\<close>

definition fl_mag :: "float64 \<Rightarrow> int" where
  "fl_mag d = uint (d AND 0x7fffffffffffffff)"

definition fl_neg :: "float64 \<Rightarrow> bool" where
  "fl_neg d \<longleftrightarrow> bit d 63"

definition fl_val :: "float64 \<Rightarrow> int" where
  "fl_val d = (if fl_neg d then - fl_mag d else fl_mag d)"

definition fl_nan :: "float64 \<Rightarrow> bool" where
  "fl_nan d \<longleftrightarrow> fl_mag d > 0x7ff0000000000000"

definition fl_eq :: "float64 \<Rightarrow> float64 \<Rightarrow> bool" where
  "fl_eq a b \<longleftrightarrow> \<not> fl_nan a \<and> \<not> fl_nan b \<and> fl_val a = fl_val b"

definition fl_lt :: "float64 \<Rightarrow> float64 \<Rightarrow> bool" where
  "fl_lt a b \<longleftrightarrow> \<not> fl_nan a \<and> \<not> fl_nan b \<and> fl_val a < fl_val b"

text \<open>\<open>IS_REAL\<close>: strictly between the infinities.\<close>

definition is_real :: "float64 \<Rightarrow> bool" where
  "is_real d \<longleftrightarrow> fl_lt 0xfff0000000000000 d \<and> fl_lt d 0x7ff0000000000000"

subsection \<open>Truth and equality\<close>

fun is_true :: "var \<Rightarrow> bool" where
  "is_true (VInt n) = (n \<noteq> 0)"
| "is_true (VFloat d) = (\<not> fl_eq d 0)"
| "is_true (VStr s) = (peek s \<noteq> 0)"
| "is_true (VList vs) = (length vs \<noteq> 0)"
| "is_true _ = False"

fun do_equals :: "var \<Rightarrow> var \<Rightarrow> bool" where
  "do_equals (VFloat a) (VFloat b) = fl_eq a b"
| "do_equals _ _ = False"

text \<open>
  \<open>equality\<close> panics on types that are never the value of an expression. Lists are compared element by
  element up to the first difference, after their lengths; that two lists with the same address
  are equal at once is left out: it makes a difference only for a list with a NaN in it.
\<close>

fun equality :: "var \<Rightarrow> var \<Rightarrow> bool \<Rightarrow> bool res"
  and equality_list :: "var list \<Rightarrow> var list \<Rightarrow> bool \<Rightarrow> bool res" where
  "equality lhs rhs case_matters =
    (if type_of lhs = TYPE_FLOAT \<or> type_of rhs = TYPE_FLOAT then Inr (do_equals lhs rhs)
     else if type_of lhs \<noteq> type_of rhs then Inr False
     else (case (lhs, rhs) of
         (VInt a, VInt b) \<Rightarrow> Inr (a = b)
       | (VObj a, VObj b) \<Rightarrow> Inr (a = b)
       | (VErr a, VErr b) \<Rightarrow> Inr (a = b)
       | (VStr a, VStr b) \<Rightarrow> Inr (if case_matters then a = b else mystrcasecmp a b = 0)
       | (VList a, VList b) \<Rightarrow>
           (if length a \<noteq> length b then Inr False else equality_list a b case_matters)
       | (VWaif a, VWaif b) \<Rightarrow> Inr (a = b)
       | _ \<Rightarrow> Inl (Panic ''EQUALITY: Unknown value type'')))"
| "equality_list (a # as) (b # bs) case_matters =
     bind_res (equality a b case_matters)
       (\<lambda>e. if \<not> e then Inr False else equality_list as bs case_matters)"
| "equality_list _ _ case_matters = Inr True"

declare equality.simps [simp del]

text \<open>The sizes the server adds up in \<open>value_bytes\<close>: of a \<open>Var\<close> and of a \<open>double\<close> on the target, and
  of a waif, which \<open>waif.c\<close> computes.\<close>

definition sizeof_Var :: int where "sizeof_Var = 16"
definition sizeof_double :: int where "sizeof_double = 8"

fun value_bytes :: "(nat \<Rightarrow> int) \<Rightarrow> var \<Rightarrow> int" where
  "value_bytes waif_bytes (VStr s) = sizeof_Var + int (length s) + 1"
| "value_bytes waif_bytes (VFloat _) = sizeof_Var + sizeof_double"
| "value_bytes waif_bytes (VList vs) =
     sizeof_Var + sizeof_Var + sum_list (map (value_bytes waif_bytes) vs)"
| "value_bytes waif_bytes (VWaif w) = sizeof_Var + waif_bytes w"
| "value_bytes waif_bytes _ = sizeof_Var"

subsection \<open>When equality is an equivalence\<close>

text \<open>The values an expression can have: no markers, no \<open>TYPE_CLEAR\<close>, strings without NUL.\<close>

fun user_value :: "var \<Rightarrow> bool" where
  "user_value (VStr s) = c_string s"
| "user_value (VList vs) = (\<forall>v \<in> set vs. user_value v)"
| "user_value VClear = False"
| "user_value VNone = False"
| "user_value (VCatch _) = False"
| "user_value (VFinally _) = False"
| "user_value _ = True"

text \<open>The relation \<open>equality\<close> decides.\<close>

fun var_eq :: "bool \<Rightarrow> var \<Rightarrow> var \<Rightarrow> bool" where
  "var_eq cm v w = (case v of
      VInt a \<Rightarrow> VInt a = w
    | VObj a \<Rightarrow> VObj a = w
    | VErr a \<Rightarrow> VErr a = w
    | VStr a \<Rightarrow> (case w of VStr b \<Rightarrow> if cm then a = b else fold_case a = fold_case b | _ \<Rightarrow> False)
    | VList as \<Rightarrow> (case w of VList bs \<Rightarrow> list_all2 (var_eq cm) as bs | _ \<Rightarrow> False)
    | VWaif a \<Rightarrow> VWaif a = w
    | VFloat a \<Rightarrow> (case w of VFloat b \<Rightarrow> fl_eq a b | _ \<Rightarrow> False)
    | _ \<Rightarrow> False)"

declare var_eq.simps [simp del]

lemma var_eq_simps [simp]:
  "var_eq cm (VInt a) w \<longleftrightarrow> VInt a = w"
  "var_eq cm (VObj x) w \<longleftrightarrow> VObj x = w"
  "var_eq cm (VErr e) w \<longleftrightarrow> VErr e = w"
  "var_eq cm (VWaif n) w \<longleftrightarrow> VWaif n = w"
  "var_eq cm (VStr s) (VStr t) \<longleftrightarrow> (if cm then s = t else fold_case s = fold_case t)"
  "var_eq cm (VList as) (VList bs) \<longleftrightarrow> list_all2 (var_eq cm) as bs"
  "var_eq cm (VFloat d) (VFloat f) \<longleftrightarrow> fl_eq d f"
  by (auto simp: var_eq.simps)

lemma var_eq_type: "var_eq cm v w \<Longrightarrow> type_of v = type_of w"
  by (subst (asm) var_eq.simps) (auto split: var.splits)

lemma list_all2_neq: "length xs \<noteq> length ys \<Longrightarrow> \<not> list_all2 P xs ys"
  by (auto dest: list_all2_lengthD)

lemma equality_var_eq:
  "user_value a \<Longrightarrow> user_value b \<Longrightarrow> equality a b cm = Inr (var_eq cm a b)"
  "\<forall>v\<in>set as. user_value v \<Longrightarrow> \<forall>v\<in>set bs. user_value v \<Longrightarrow> length as = length bs \<Longrightarrow>
     equality_list as bs cm = Inr (list_all2 (var_eq cm) as bs)"
proof (induction a b cm and as bs cm rule: equality_equality_list.induct)
  case (1 lhs rhs cm)
  show ?case
  proof (cases "type_of lhs = type_of rhs")
    case False
    then have "\<not> var_eq cm lhs rhs" using var_eq_type by blast
    moreover from False have "\<not> do_equals lhs rhs" by (cases lhs; cases rhs) simp_all
    ultimately show ?thesis using False by (simp add: equality.simps)
  next
    case True
    with 1 show ?thesis
      by (cases lhs; cases rhs; simp add: equality.simps mystrcasecmp_0 list_all2_neq)
  qed
next
  case (2 a as b bs cm)
  then show ?case by auto
qed auto

lemma var_eq_sym1: "var_eq cm a b \<Longrightarrow> var_eq cm b a"
proof (induction a arbitrary: b)
  case (VList as)
  then obtain bs where b: "b = VList bs" "list_all2 (var_eq cm) as bs"
    by (cases b) (auto dest: var_eq_type)
  have "list_all2 (var_eq cm) bs as"
    unfolding list_all2_conv_all_nth
  proof (intro conjI allI impI)
    show "length bs = length as" using b(2) by (simp add: list_all2_lengthD)
    fix i assume "i < length bs"
    then show "var_eq cm (bs ! i) (as ! i)"
      using b(2) VList.IH by (simp add: list_all2_conv_all_nth)
  qed
  then show ?case using b(1) by simp
next
  case (VStr s)
  then show ?case by (cases b) (auto dest: var_eq_type split: if_splits)
next
  case (VFloat d)
  then show ?case by (cases b) (auto dest: var_eq_type simp: fl_eq_def)
qed (auto simp: var_eq.simps)

lemma var_eq_sym: "var_eq cm a b \<longleftrightarrow> var_eq cm b a"
  using var_eq_sym1 by blast

lemma var_eq_trans: "var_eq cm a b \<Longrightarrow> var_eq cm b c \<Longrightarrow> var_eq cm a c"
proof (induction a arbitrary: b c)
  case (VList as)
  then obtain bs where b: "b = VList bs" "list_all2 (var_eq cm) as bs"
    by (cases b) (auto dest: var_eq_type)
  with VList.prems(2) obtain cs where c: "c = VList cs" "list_all2 (var_eq cm) bs cs"
    by (cases c) (auto dest: var_eq_type)
  have "list_all2 (var_eq cm) as cs"
    unfolding list_all2_conv_all_nth
  proof (intro conjI allI impI)
    show "length as = length cs" using b(2) c(2) by (simp add: list_all2_lengthD)
    fix i assume "i < length as"
    then show "var_eq cm (as ! i) (cs ! i)"
      using b(2) c(2) VList.IH [of "as ! i" "bs ! i" "cs ! i"] by (simp add: list_all2_conv_all_nth)
  qed
  then show ?case using c(1) by simp
next
  case (VStr s)
  then show ?case by (cases b; cases c) (auto dest: var_eq_type split: if_splits)
next
  case (VFloat d)
  then show ?case by (cases b; cases c) (auto dest: var_eq_type simp: fl_eq_def)
qed (auto simp: var_eq.simps)

fun no_nan :: "var \<Rightarrow> bool" where
  "no_nan (VFloat d) = (\<not> fl_nan d)"
| "no_nan (VList vs) = (\<forall>v \<in> set vs. no_nan v)"
| "no_nan _ = True"

lemma var_eq_refl: "user_value a \<Longrightarrow> no_nan a \<Longrightarrow> var_eq cm a a"
proof (induction a)
  case (VList vs)
  then show ?case by (auto simp: list_all2_conv_all_nth)
qed (auto simp: fl_eq_def)

subsection \<open>Properties\<close>

text \<open>C11: on the values of expressions \<open>equality\<close> never panics and is symmetric and transitive,
  and it is reflexive on those without a NaN inside; this holds with and without regard to case.\<close>

theorem equality_equivalence:
  assumes "user_value a" "user_value b" "user_value c"
  shows "(\<exists>r. equality a b cm = Inr r) \<and> equality a b cm = equality b a cm \<and>
    (equality a b cm = Inr True \<longrightarrow> equality b c cm = Inr True \<longrightarrow> equality a c cm = Inr True) \<and>
    (no_nan a \<longrightarrow> equality a a cm = Inr True)"
  using assms var_eq_sym [of cm a b] var_eq_trans [of cm a b c] var_eq_refl [of a cm]
  by (simp add: equality_var_eq)

theorem equality_equivalence_witness:
  "equality (VList [VStr ''Foo'', VInt 3]) (VList [VStr ''foo'', VInt 3]) False =
   equality (VList [VStr ''foo'', VInt 3]) (VList [VStr ''Foo'', VInt 3]) False"
  using equality_equivalence [of "VList [VStr ''Foo'', VInt 3]" "VList [VStr ''foo'', VInt 3]" "VInt 0" False]
  by simp

end
