(* ===== verification/Printing.thy ===== *)
theory Printing
  imports Values
begin

text \<open>
  How values are shown: the error texts of \<open>server/unparse.c\<close>, the conversion of values to strings
  and to literals of \<open>server/list.c\<close>, and the packages in which the built-in functions of the server
  return their results (\<open>server/functions.c\<close>).
\<close>

subsection \<open>Errors\<close>

fun unparse_error :: "error \<Rightarrow> string" where
  "unparse_error E_NONE = ''No error''"
| "unparse_error E_TYPE = ''Type mismatch''"
| "unparse_error E_DIV = ''Division by zero''"
| "unparse_error E_PERM = ''Permission denied''"
| "unparse_error E_PROPNF = ''Property not found''"
| "unparse_error E_VERBNF = ''Verb not found''"
| "unparse_error E_VARNF = ''Variable not found''"
| "unparse_error E_INVIND = ''Invalid indirection''"
| "unparse_error E_RECMOVE = ''Recursive move''"
| "unparse_error E_MAXREC = ''Too many verb calls''"
| "unparse_error E_RANGE = ''Range error''"
| "unparse_error E_ARGS = ''Incorrect number of arguments''"
| "unparse_error E_NACC = ''Move refused by destination''"
| "unparse_error E_INVARG = ''Invalid argument''"
| "unparse_error E_QUOTA = ''Resource limit exceeded''"
| "unparse_error E_FLOAT = ''Floating-point arithmetic error''"

fun error_name :: "error \<Rightarrow> string" where
  "error_name E_NONE = ''E_NONE''" | "error_name E_TYPE = ''E_TYPE''"
| "error_name E_DIV = ''E_DIV''" | "error_name E_PERM = ''E_PERM''"
| "error_name E_PROPNF = ''E_PROPNF''" | "error_name E_VERBNF = ''E_VERBNF''"
| "error_name E_VARNF = ''E_VARNF''" | "error_name E_INVIND = ''E_INVIND''"
| "error_name E_RECMOVE = ''E_RECMOVE''" | "error_name E_MAXREC = ''E_MAXREC''"
| "error_name E_RANGE = ''E_RANGE''" | "error_name E_ARGS = ''E_ARGS''"
| "error_name E_NACC = ''E_NACC''" | "error_name E_INVARG = ''E_INVARG''"
| "error_name E_QUOTA = ''E_QUOTA''" | "error_name E_FLOAT = ''E_FLOAT''"

subsection \<open>Numbers in decimal\<close>

text \<open>The conversions of the C library: \<open>printf\<close> with \<open>%d\<close>, and \<open>strtoimax\<close> in base 10, which returns
  the number, cut to the range of its type, and the place where it stopped (the start of the
  string, if there is no number).\<close>

definition digit :: "nat \<Rightarrow> char" where
  "digit d = byte (48 + int d)"

fun show_nat :: "nat \<Rightarrow> string" where
  "show_nat n = (if n < 10 then [digit n] else show_nat (n div 10) @ [digit (n mod 10)])"

declare show_nat.simps [simp del]

definition show_num :: "int \<Rightarrow> string" where
  "show_num n = (if n < 0 then CHR ''-'' # show_nat (nat (- n)) else show_nat (nat n))"

definition is_digit :: "char \<Rightarrow> bool" where
  "is_digit c \<longleftrightarrow> 48 \<le> code c \<and> code c \<le> 57"

definition is_space :: "char \<Rightarrow> bool" where
  "is_space c \<longleftrightarrow> code c = 32 \<or> (9 \<le> code c \<and> code c \<le> 13)"

definition digits_value :: "string \<Rightarrow> int" where
  "digits_value ds = foldl (\<lambda>n c. 10 * n + (code c - 48)) 0 ds"

definition strtoimax :: "string \<Rightarrow> int \<times> string" where
  "strtoimax s =
    (let t = dropWhile is_space s;
         neg = (t \<noteq> [] \<and> hd t = CHR ''-'');
         u = (if t \<noteq> [] \<and> (hd t = CHR ''-'' \<or> hd t = CHR ''+'') then tl t else t);
         ds = takeWhile is_digit u;
         n = (if neg then - digits_value ds else digits_value ds)
     in if ds = [] then (0, s)
        else (max num_min (min num_max n), dropWhile is_digit u))"

subsection \<open>Values as strings and as literals\<close>

text \<open>
  \<open>fmt\<close> is the \<open>%.15g\<close> conversion of the C library; \<open>waif\<close> gives the class and the owner of the waif
  at an address.
\<close>

definition float2str :: "(float64 \<Rightarrow> string) \<Rightarrow> float64 \<Rightarrow> string" where
  "float2str fmt d = (let b = fmt d in
     if CHR ''.'' \<notin> set b \<and> CHR ''e'' \<notin> set b then b @ ''.0'' else b)"

fun list2str_one :: "(float64 \<Rightarrow> string) \<Rightarrow> var \<Rightarrow> string res" where
  "list2str_one fmt (VInt n) = Inr (show_num n)"
| "list2str_one fmt (VObj n) = Inr (CHR ''#'' # show_num n)"
| "list2str_one fmt (VStr s) = Inr s"
| "list2str_one fmt (VErr e) = Inr (unparse_error e)"
| "list2str_one fmt (VFloat d) = Inr (float2str fmt d)"
| "list2str_one fmt (VList _) = Inr ''{list}''"
| "list2str_one fmt (VWaif _) = Inr ''{waif}''"
| "list2str_one fmt _ = Inl (Panic (''LIST2STR: Impossible var type.'' @ [CHR 0x0a]))"

fun list2str :: "(float64 \<Rightarrow> string) \<Rightarrow> var list \<Rightarrow> string res" where
  "list2str fmt [] = Inr []"
| "list2str fmt (v # vs) =
     bind_res (list2str_one fmt v) (\<lambda>s. bind_res (list2str fmt vs) (\<lambda>t. Inr (s @ t)))"

definition value2str :: "(float64 \<Rightarrow> string) \<Rightarrow> var \<Rightarrow> string res" where
  "value2str fmt v = list2str fmt [v]"

fun print_to_stream :: "(float64 \<Rightarrow> string) \<Rightarrow> (nat \<Rightarrow> objid \<times> objid) \<Rightarrow> var \<Rightarrow> string"
  and print_list :: "(float64 \<Rightarrow> string) \<Rightarrow> (nat \<Rightarrow> objid \<times> objid) \<Rightarrow> string \<Rightarrow> var list \<Rightarrow> string" where
  "print_to_stream fmt waif (VInt n) = show_num n"
| "print_to_stream fmt waif (VObj n) = CHR ''#'' # show_num n"
| "print_to_stream fmt waif (VErr e) = error_name e"
| "print_to_stream fmt waif (VFloat d) = float2str fmt d"
| "print_to_stream fmt waif (VStr s) = string_quote s"
| "print_to_stream fmt waif (VList vs) = CHR ''{'' # print_list fmt waif [] vs @ ''}''"
| "print_to_stream fmt waif (VWaif w) = ''[[class = #'' @ show_num (fst (waif w)) @
     '', owner = #'' @ show_num (snd (waif w)) @ '']]''"
| "print_to_stream fmt waif _ = ''>>Unknown value<<''"
| "print_list fmt waif sep [] = []"
| "print_list fmt waif sep (v # vs) =
     sep @ print_to_stream fmt waif v @ print_list fmt waif '', '' vs"

definition value_to_literal :: "(float64 \<Rightarrow> string) \<Rightarrow> (nat \<Rightarrow> objid \<times> objid) \<Rightarrow> var \<Rightarrow> string" where
  "value_to_literal fmt waif v = print_to_stream fmt waif v"

subsection \<open>Packages\<close>

datatype package =
    BI_RETURN var
  | BI_RAISE (raise_code: var) (raise_msg: string) (raise_value: var)
  | BI_CALL nat nat
  | BI_SUSPEND nat
  | BI_KILL

definition make_raise_pack :: "error \<Rightarrow> string \<Rightarrow> var \<Rightarrow> package" where
  "make_raise_pack err msg v = BI_RAISE (VErr err) msg v"

definition make_error_pack :: "error \<Rightarrow> package" where
  "make_error_pack err = make_raise_pack err (unparse_error err) (VInt 0)"

definition make_var_pack :: "var \<Rightarrow> package" where
  "make_var_pack v = BI_RETURN v"

definition make_int_pack :: "int \<Rightarrow> package" where
  "make_int_pack n = BI_RETURN (VInt n)"

definition make_float_pack :: "float64 \<Rightarrow> package" where
  "make_float_pack d = BI_RETURN (VFloat d)"

definition no_var_pack :: package where
  "no_var_pack = make_var_pack (VInt 0)"

lemmas pack_defs = make_raise_pack_def make_error_pack_def make_var_pack_def make_int_pack_def
  make_float_pack_def no_var_pack_def

subsection \<open>Reading back a printed number\<close>

lemma code_digit [simp]: "d < 10 \<Longrightarrow> code (digit d) = 48 + int d"
  by (simp add: digit_def)

lemma digits_value_snoc: "digits_value (ds @ [c]) = 10 * digits_value ds + (code c - 48)"
  by (simp add: digits_value_def)

lemma digits_value_show_nat: "digits_value (show_nat n) = int n"
proof (induction n rule: show_nat.induct)
  case (1 n)
  show ?case
  proof (cases "n < 10")
    case True
    then show ?thesis by (simp add: show_nat.simps [of n] digits_value_def)
  next
    case False
    then have "digits_value (show_nat n) = 10 * digits_value (show_nat (n div 10)) + (code (digit (n mod 10)) - 48)"
      by (simp add: show_nat.simps [of n] digits_value_snoc)
    also have "\<dots> = 10 * int (n div 10) + int (n mod 10)" using "1" False by simp
    also have "\<dots> = int n" by presburger
    finally show ?thesis .
  qed
qed

lemma show_nat_digits: "show_nat n \<noteq> [] \<and> (\<forall>c\<in>set (show_nat n). is_digit c)"
proof (induction n rule: show_nat.induct)
  case (1 n)
  then show ?case
    by (cases "n < 10") (auto simp: show_nat.simps [of n] is_digit_def)
qed

lemma digit_not: "is_digit c \<Longrightarrow> \<not> is_space c \<and> c \<noteq> CHR ''-'' \<and> c \<noteq> CHR ''+''"
  by (auto simp: is_digit_def is_space_def)

lemma strtoimax_digits:
  assumes "ds \<noteq> []" "\<forall>c\<in>set ds. is_digit c" "r = [] \<or> \<not> is_digit (hd r)"
  shows "strtoimax (ds @ r) = (max num_min (min num_max (digits_value ds)), r)"
    and "strtoimax (CHR ''-'' # ds @ r) = (max num_min (min num_max (- digits_value ds)), r)"
proof -
  obtain c cs where c: "ds = c # cs" using assms(1) by (cases ds) auto
  with assms(2) have "is_digit c" by simp
  note nc = digit_not [OF this]
  have tw: "takeWhile is_digit (ds @ r) = ds" "dropWhile is_digit (ds @ r) = r"
    using assms(2,3) by (cases r; simp)+
  have "dropWhile is_space (ds @ r) = ds @ r" "hd (ds @ r) = c" using nc c by simp_all
  then show "strtoimax (ds @ r) = (max num_min (min num_max (digits_value ds)), r)"
    unfolding strtoimax_def Let_def using nc tw assms(1) by (simp del: max.absorb1 max.absorb2)
  have "\<not> is_space (CHR ''-'')" by (simp add: is_space_def)
  then show "strtoimax (CHR ''-'' # ds @ r) = (max num_min (min num_max (- digits_value ds)), r)"
    unfolding strtoimax_def Let_def using tw assms(1) by simp
qed

lemma strtoimax_show_num:
  assumes "is_num n" "r = [] \<or> \<not> is_digit (hd r)"
  shows "strtoimax (show_num n @ r) = (n, r)"
proof (cases "n < 0")
  case True
  have d: "show_nat (nat (- n)) \<noteq> []" "\<forall>c\<in>set (show_nat (nat (- n))). is_digit c"
    using show_nat_digits by blast+
  show ?thesis
    using True assms(1) strtoimax_digits(2) [OF d assms(2)]
    by (simp add: show_num_def digits_value_show_nat is_num_def)
next
  case False
  have d: "show_nat (nat n) \<noteq> []" "\<forall>c\<in>set (show_nat (nat n)). is_digit c"
    using show_nat_digits by blast+
  show ?thesis
    using False assms(1) strtoimax_digits(1) [OF d assms(2)]
    by (simp add: show_num_def digits_value_show_nat is_num_def)
qed

subsection \<open>Properties\<close>



end
