(* ===== verification/Numbers.thy ===== *)
theory Numbers
  imports Printing
begin

text \<open>
  The arithmetic of the server (\<open>server/numbers.c\<close>): conversions, comparison, the binary operators
  and the numeric built-in functions that are not calls of the mathematics library.

  Integers wrap around at 64 bits. The floating-point operations of the hardware and the library are
  the fields of a record \<open>fp_ops\<close>: what they return is not modelled, only where they are used. A
  processor trap is \<open>Undefined\<close>.
\<close>

record fp_ops =
  f_add :: "float64 \<Rightarrow> float64 \<Rightarrow> float64"
  f_sub :: "float64 \<Rightarrow> float64 \<Rightarrow> float64"
  f_mul :: "float64 \<Rightarrow> float64 \<Rightarrow> float64"
  f_div :: "float64 \<Rightarrow> float64 \<Rightarrow> float64"
  f_mod :: "float64 \<Rightarrow> float64 \<Rightarrow> float64"
  f_pow :: "float64 \<Rightarrow> float64 \<Rightarrow> float64 \<times> bool" \<comment> \<open>and whether it sets \<open>errno\<close>\<close>
  f_abs :: "float64 \<Rightarrow> float64"
  f_neg :: "float64 \<Rightarrow> float64"
  f_of_num :: "int \<Rightarrow> float64"
  f_to_num :: "float64 \<Rightarrow> int"
  f_strtod :: "string \<Rightarrow> float64 \<times> string"

subsection \<open>Conversions\<close>

definition only_spaces :: "string \<Rightarrow> bool" where
  "only_spaces p \<longleftrightarrow> (\<forall>c \<in> set p. c = CHR '' '')"

definition parse_number :: "fp_ops \<Rightarrow> string \<Rightarrow> bool \<Rightarrow> int option" where
  "parse_number F str try_floating_point =
    (let (n, p) = strtoimax str;
         (n, p) = (if try_floating_point \<and> (p = str \<or> peek p = 46 \<or> peek p = 101 \<or> peek p = 69)
                   then (let (d, p) = f_strtod F str in (f_to_num F d, p)) else (n, p))
     in if p = str then None else if only_spaces p then Some n else None)"

definition parse_object :: "fp_ops \<Rightarrow> string \<Rightarrow> int option" where
  "parse_object F str =
    (let s = dropWhile (\<lambda>c. c = CHR '' '') str;
         s = (if s \<noteq> [] \<and> hd s = CHR ''#'' then tl s else s)
     in parse_number F s False)"

definition parse_float :: "fp_ops \<Rightarrow> string \<Rightarrow> float64 option" where
  "parse_float F str =
    (let s = dropWhile (\<lambda>c. c = CHR '' '') str;
         negative = (s \<noteq> [] \<and> hd s = CHR ''-'');
         s = (if negative then tl s else s);
         (d, p) = f_strtod F s
     in if p = s then None
        else if only_spaces p then Some (if negative then f_neg F d else d) else None)"

fun become_integer :: "fp_ops \<Rightarrow> var \<Rightarrow> bool \<Rightarrow> error + int" where
  "become_integer F (VInt n) called_from_tonum = Inr n"
| "become_integer F (VStr s) called_from_tonum =
     (case (if called_from_tonum then parse_number F s True else parse_object F s) of
        None \<Rightarrow> Inr 0 | Some n \<Rightarrow> Inr n)"
| "become_integer F (VObj n) called_from_tonum = Inr n"
| "become_integer F (VErr e) called_from_tonum = Inr (error_code e)"
| "become_integer F (VFloat d) called_from_tonum =
     (if \<not> is_real d then Inl E_FLOAT else Inr (f_to_num F d))"
| "become_integer F _ called_from_tonum = Inl E_TYPE"

fun become_float :: "fp_ops \<Rightarrow> var \<Rightarrow> error + float64" where
  "become_float F (VInt n) = Inr (f_of_num F n)"
| "become_float F (VStr s) =
     (case parse_float F s of None \<Rightarrow> Inl E_INVARG
      | Some d \<Rightarrow> if is_real d then Inr d else Inl E_INVARG)"
| "become_float F (VObj n) = Inr (f_of_num F n)"
| "become_float F (VErr e) = Inr (f_of_num F (error_code e))"
| "become_float F (VFloat d) = Inr d"
| "become_float F _ = Inl E_TYPE"

subsection \<open>Comparison\<close>

definition compare_integers :: "int \<Rightarrow> int \<Rightarrow> int" where
  "compare_integers a b = (if a < b then -1 else if a > b then 1 else 0)"

text \<open>The callers pass numbers only; on other values the code would read the wrong member of the
  union.\<close>

fun compare_numbers :: "var \<Rightarrow> var \<Rightarrow> var res" where
  "compare_numbers a b =
    (if type_of a \<noteq> type_of b then Inr (VErr E_TYPE)
     else (case (a, b) of
         (VInt x, VInt y) \<Rightarrow> Inr (VInt (if x < y then -1 else if x > y then 1 else 0))
       | (VFloat x, VFloat y) \<Rightarrow> Inr (VInt (if fl_lt x y then -1 else if fl_lt y x then 1 else 0))
       | _ \<Rightarrow> Inl Undefined))"

subsection \<open>Operators\<close>

definition float_result :: "float64 \<Rightarrow> var" where
  "float_result d = (if \<not> is_real d then VErr E_FLOAT else VFloat d)"

text \<open>The macros \<open>SIMPLE_BINARY\<close> and \<open>DIVISION_OP\<close>.\<close>

definition simple_binary ::
    "(int \<Rightarrow> int \<Rightarrow> int) \<Rightarrow> (float64 \<Rightarrow> float64 \<Rightarrow> float64) \<Rightarrow> var \<Rightarrow> var \<Rightarrow> var res" where
  "simple_binary iop fop a b =
    (if type_of a \<noteq> type_of b then Inr (VErr E_TYPE)
     else (case (a, b) of
         (VInt x, VInt y) \<Rightarrow> Inr (VInt (to_num (iop x y)))
       | (VFloat x, VFloat y) \<Rightarrow> Inr (float_result (fop x y))
       | _ \<Rightarrow> Inl Undefined))"

definition do_add :: "fp_ops \<Rightarrow> var \<Rightarrow> var \<Rightarrow> var res" where
  "do_add F = simple_binary (+) (f_add F)"

definition do_subtract :: "fp_ops \<Rightarrow> var \<Rightarrow> var \<Rightarrow> var res" where
  "do_subtract F = simple_binary (-) (f_sub F)"

definition do_multiply :: "fp_ops \<Rightarrow> var \<Rightarrow> var \<Rightarrow> var res" where
  "do_multiply F = simple_binary (*) (f_mul F)"

text \<open>Integer division of C: towards zero. The quotient of the least integer by -1 does not fit, and
  the processor traps on it, for the remainder too.\<close>

definition c_div :: "int \<Rightarrow> int \<Rightarrow> int" where
  "c_div a b = sgn a * sgn b * (\<bar>a\<bar> div \<bar>b\<bar>)"

definition c_mod :: "int \<Rightarrow> int \<Rightarrow> int" where
  "c_mod a b = sgn a * (\<bar>a\<bar> mod \<bar>b\<bar>)"

definition division_op ::
    "(int \<Rightarrow> int \<Rightarrow> int) \<Rightarrow> (float64 \<Rightarrow> float64 \<Rightarrow> float64) \<Rightarrow> var \<Rightarrow> var \<Rightarrow> var res" where
  "division_op iop fop a b =
    (if type_of a \<noteq> type_of b then Inr (VErr E_TYPE)
     else (case (a, b) of
         (VInt x, VInt y) \<Rightarrow>
           (if y \<noteq> 0 then (if x = num_min \<and> y = -1 then Inl Undefined else Inr (VInt (iop x y)))
            else Inr (VErr E_DIV))
       | (VFloat x, VFloat y) \<Rightarrow>
           (if \<not> fl_eq y 0 then Inr (float_result (fop x y)) else Inr (VErr E_DIV))
       | _ \<Rightarrow> Inr (VErr E_DIV)))"

definition do_divide :: "fp_ops \<Rightarrow> var \<Rightarrow> var \<Rightarrow> var res" where
  "do_divide F = division_op c_div (f_div F)"

definition do_modulus :: "fp_ops \<Rightarrow> var \<Rightarrow> var \<Rightarrow> var res" where
  "do_modulus F = division_op c_mod (f_mod F)"

text \<open>The loop of \<open>do_power\<close>, for \<open>b \<ge> 0\<close>.\<close>

fun power_loop :: "int \<Rightarrow> nat \<Rightarrow> int \<Rightarrow> int" where
  "power_loop a b r =
    (if b \<noteq> 0
     then power_loop (to_num (a * a)) (b div 2) (if odd b then to_num (r * a) else r)
     else r)"

declare power_loop.simps [simp del]

definition do_power :: "fp_ops \<Rightarrow> var \<Rightarrow> var \<Rightarrow> var" where
  "do_power F lhs rhs =
    (case lhs of
       VInt a \<Rightarrow>
         (case rhs of
            VInt b \<Rightarrow>
              (if b < 0
               then (if a = -1 then VInt (if odd b then 1 else -1)
                     else if a = 0 then VErr E_DIV
                     else if a = 1 then VInt 1
                     else VInt 0)
               else VInt (power_loop a (nat b) 1))
          | _ \<Rightarrow> VErr E_TYPE)
     | VFloat x \<Rightarrow>
         (let power = (\<lambda>d. case f_pow F x d of (p, errno_set) \<Rightarrow>
            if errno_set \<or> \<not> is_real p then VErr E_FLOAT else VFloat p) in
          (case rhs of
             VInt n \<Rightarrow> power (f_of_num F n)
           | VFloat d \<Rightarrow> power d
           | _ \<Rightarrow> VErr E_TYPE))
     | _ \<Rightarrow> VErr E_TYPE)"

subsection \<open>Built-in functions\<close>

text \<open>The registered prototypes have been checked before a built-in function is called.\<close>

definition bf_toint :: "fp_ops \<Rightarrow> var list \<Rightarrow> package" where
  "bf_toint F args = (case become_integer F (args ! 0) True of
     Inl e \<Rightarrow> make_error_pack e | Inr n \<Rightarrow> make_var_pack (VInt n))"

definition bf_tofloat :: "fp_ops \<Rightarrow> var list \<Rightarrow> package" where
  "bf_tofloat F args = (case become_float F (args ! 0) of
     Inl e \<Rightarrow> make_error_pack e | Inr d \<Rightarrow> make_var_pack (VFloat d))"

text \<open>One turn of the loops of \<open>bf_min\<close> and \<open>bf_max\<close>: the value kept so far and whether a wrong type
  has been seen.\<close>

definition keep_better :: "(int \<Rightarrow> int \<Rightarrow> bool) \<Rightarrow> (float64 \<Rightarrow> float64 \<Rightarrow> bool) \<Rightarrow>
    var \<Rightarrow> var \<times> bool \<Rightarrow> var \<times> bool" where
  "keep_better ilt flt v st = (case st of (r, bad) \<Rightarrow>
     (case (r, v) of
        (VInt m, VInt n) \<Rightarrow> (if ilt n m then v else r, bad)
      | (VFloat c, VFloat d) \<Rightarrow> (if flt d c then v else r, bad)
      | _ \<Rightarrow> (r, True)))"

definition min_max :: "(int \<Rightarrow> int \<Rightarrow> bool) \<Rightarrow> (float64 \<Rightarrow> float64 \<Rightarrow> bool) \<Rightarrow> var list \<Rightarrow> package" where
  "min_max ilt flt args = (case fold (keep_better ilt flt) (tl args) (args ! 0, False) of
     (r, bad) \<Rightarrow> if bad then make_error_pack E_TYPE else make_var_pack r)"

definition bf_min :: "var list \<Rightarrow> package" where
  "bf_min args = min_max (<) fl_lt args"

definition bf_max :: "var list \<Rightarrow> package" where
  "bf_max args = min_max (>) (\<lambda>a b. fl_lt b a) args"

definition bf_abs :: "fp_ops \<Rightarrow> var list \<Rightarrow> package" where
  "bf_abs F args = (case args ! 0 of
     VInt n \<Rightarrow> make_var_pack (VInt (if n < 0 then to_num (- n) else n))
   | VFloat d \<Rightarrow> make_var_pack (VFloat (f_abs F d))
   | v \<Rightarrow> make_var_pack v)"

text \<open>\<open>bf_random\<close> with \<open>RAND_MAX\<close> = 2147483647: three calls of the generator fill 63 bits.\<close>

definition bf_random :: "int \<times> int \<times> int \<Rightarrow> var list \<Rightarrow> package" where
  "bf_random rnd args =
    (let num = (if length args \<ge> 1 then (case args ! 0 of VInt n \<Rightarrow> n | _ \<Rightarrow> num_max) else num_max) in
     if num \<le> 0 then make_error_pack E_INVARG
     else (case rnd of (r1, r2, r3) \<Rightarrow>
       let rr = to_num (push_bit 32 r1 + push_bit 1 r2 + drop_bit 30 r3)
       in make_var_pack (VInt (to_num (1 + c_mod rr num)))))"

subsection \<open>Lemmas\<close>

lemma to_num_mod: "to_num x mod 2 ^ 64 = x mod 2 ^ 64"
  unfolding to_num_def take_bit_eq_mod [symmetric] by (simp add: take_bit_signed_take_bit)

lemma to_num_mult: "to_num (to_num x * y) = to_num (x * y)" "to_num (x * to_num y) = to_num (x * y)"
  unfolding to_num_cong by (metis to_num_mod mod_mult_left_eq, metis to_num_mod mod_mult_right_eq)

lemma to_num_power: "to_num (to_num x ^ n * y) = to_num (x ^ n * y)"
  unfolding to_num_cong by (metis to_num_mod power_mod mod_mult_left_eq)

lemma power_loop_correct: "is_num r \<Longrightarrow> power_loop a b r = to_num (r * a ^ b)"
proof (induction a b r rule: power_loop.induct)
  case (1 a b r)
  show ?case
  proof (cases "b = 0")
    case True
    then show ?thesis using "1.prems" by (subst power_loop.simps) simp
  next
    case False
    let ?r = "if odd b then to_num (r * a) else r"
    have "is_num ?r" using "1.prems" by simp
    with False "1.IH" have "power_loop a b r = to_num (?r * to_num (a * a) ^ (b div 2))"
      by (simp add: power_loop.simps [of a b r])
    also have "\<dots> = to_num (?r * (a * a) ^ (b div 2))"
      using to_num_power [of "a * a" "b div 2" ?r] by (simp add: mult.commute)
    also have "\<dots> = to_num ((if odd b then r * a else r) * (a * a) ^ (b div 2))"
      by (simp add: to_num_mult)
    also have "(if odd b then r * a else r) * (a * a) ^ (b div 2) = r * a ^ b"
    proof -
      have "(a * a) ^ (b div 2) = a ^ (2 * (b div 2))" by (simp add: power_mult power2_eq_square)
      moreover have "odd b \<Longrightarrow> a * a ^ (2 * (b div 2)) = a ^ b" by (simp flip: power_Suc)
      ultimately show ?thesis by (auto simp: mult.assoc)
    qed
    finally show ?thesis .
  qed
qed

lemma c_div_mod: "b \<noteq> 0 \<Longrightarrow> c_div a b * b + c_mod a b = a"
proof -
  assume "b \<noteq> 0"
  have "c_div a b * b + c_mod a b = sgn a * ((\<bar>a\<bar> div \<bar>b\<bar>) * (sgn b * b) + \<bar>a\<bar> mod \<bar>b\<bar>)"
    by (simp add: c_div_def c_mod_def algebra_simps)
  also have "sgn b * b = \<bar>b\<bar>" by (simp add: abs_sgn mult.commute)
  also have "(\<bar>a\<bar> div \<bar>b\<bar>) * \<bar>b\<bar> + \<bar>a\<bar> mod \<bar>b\<bar> = \<bar>a\<bar>" by simp
  finally show ?thesis by (simp add: sgn_mult_abs)
qed

lemma c_mod_bound:
  assumes "b \<noteq> 0"
  shows "\<bar>c_mod a b\<bar> < \<bar>b\<bar>" "c_mod a b = 0 \<or> sgn (c_mod a b) = sgn a"
proof -
  have m: "0 \<le> \<bar>a\<bar> mod \<bar>b\<bar>" "\<bar>a\<bar> mod \<bar>b\<bar> < \<bar>b\<bar>" using assms by simp_all
  then show "\<bar>c_mod a b\<bar> < \<bar>b\<bar>" by (cases "a = 0") (simp_all add: c_mod_def abs_mult abs_sgn_eq)
  show "c_mod a b = 0 \<or> sgn (c_mod a b) = sgn a"
    using m(1) by (cases "\<bar>a\<bar> mod \<bar>b\<bar> = 0") (simp_all add: c_mod_def sgn_mult)
qed

lemma c_div_range:
  assumes "is_num a" "is_num b" "b \<noteq> 0" "\<not> (a = num_min \<and> b = -1)"
  shows "is_num (c_div a b)" "is_num (c_mod a b)"
proof -
  show "is_num (c_mod a b)"
    using c_mod_bound(1) [OF assms(3), of a] assms(2)
    by (auto simp: is_num_def num_min_def num_max_def)
  have q: "0 \<le> \<bar>a\<bar> div \<bar>b\<bar>" "\<bar>a\<bar> div \<bar>b\<bar> \<le> \<bar>a\<bar>"
    using assms(3) zdiv_mono2 [of "\<bar>a\<bar>" 1 "\<bar>b\<bar>"] by (simp_all add: pos_imp_zdiv_nonneg_iff)
  then have d: "\<bar>c_div a b\<bar> \<le> \<bar>a\<bar>"
    using assms(3) by (cases "a = 0") (simp_all add: c_div_def abs_mult abs_sgn_eq)
  show "is_num (c_div a b)"
  proof (cases "a = num_min")
    case False
    then have "\<bar>a\<bar> < 2 ^ 63" using assms(1) by (simp add: is_num_def num_min_def num_max_def) linarith
    with d show ?thesis by (simp add: is_num_def num_min_def num_max_def) linarith
  next
    case True
    show ?thesis
    proof (cases "b = 1")
      case True
      then show ?thesis using assms(1) by (simp add: c_div_def sgn_mult_abs)
    next
      case False
      then have "2 \<le> \<bar>b\<bar>" using assms(3,4) True by linarith
      then have "\<bar>a\<bar> div \<bar>b\<bar> \<le> \<bar>a\<bar> div 2" by (intro zdiv_mono2) auto
      also have "\<bar>a\<bar> div 2 = 2 ^ 62" using True by (simp add: num_min_def)
      finally have "\<bar>c_div a b\<bar> \<le> 2 ^ 62"
        using assms(3) True q(1) by (simp add: c_div_def abs_mult abs_sgn_eq num_min_def)
      then show ?thesis by (simp add: is_num_def num_min_def num_max_def) linarith
    qed
  qed
qed

text \<open>What \<open>bf_min\<close> and \<open>bf_max\<close> compute on integers.\<close>

lemma fold_keep_ints:
  assumes "\<And>m n. ilt n m \<Longrightarrow> g m n = n" "\<And>m n. \<not> ilt n m \<Longrightarrow> g m n = m"
  shows "fold (keep_better ilt flt) (map VInt ns) (VInt m, bad) = (VInt (fold (\<lambda>n m. g m n) ns m), bad)"
  by (induction ns arbitrary: m) (simp_all add: keep_better_def assms)

lemma fold_keep_bad: "snd (fold (keep_better ilt flt) vs (r, True))"
proof (induction vs arbitrary: r)
  case (Cons v vs)
  have "snd (keep_better ilt flt v (r, True))"
    by (auto simp: keep_better_def split: var.splits)
  then obtain r' where "keep_better ilt flt v (r, True) = (r', True)"
    by (cases "keep_better ilt flt v (r, True)") auto
  with Cons show ?case by simp
qed simp

lemma fold_keep_type:
  assumes "type_of r = TYPE_INT \<or> type_of r = TYPE_FLOAT"
  shows "\<not> snd (fold (keep_better ilt flt) vs (r, False)) \<longleftrightarrow> (\<forall>v \<in> set vs. type_of v = type_of r)"
  using assms
proof (induction vs arbitrary: r)
  case (Cons v vs)
  show ?case
  proof (cases "type_of v = type_of r")
    case True
    then obtain r' where "keep_better ilt flt v (r, False) = (r', False)" "type_of r' = type_of r"
      using Cons.prems by (cases r; cases v) (auto simp: keep_better_def split: if_splits)
    with Cons True show ?thesis by simp
  next
    case False
    then have "keep_better ilt flt v (r, False) = (r, True)"
      using Cons.prems by (cases r; cases v) (auto simp: keep_better_def)
    with False show ?thesis using fold_keep_bad by simp
  qed
qed simp

subsection \<open>Properties\<close>



text \<open>C14: integer division truncates towards zero: quotient and remainder recompose the dividend,
  the remainder is smaller than the divisor and has the sign of the dividend, and both results are
  in range. The only pair of operands with a divisor other than zero on which this fails is the
  least integer and -1, on which the server dies.\<close>

theorem integer_division:
  assumes "is_num a" "is_num b" "b \<noteq> 0"
  shows "(a = num_min \<and> b = -1 \<longrightarrow>
      do_divide F (VInt a) (VInt b) = Inl Undefined \<and> do_modulus F (VInt a) (VInt b) = Inl Undefined) \<and>
    (\<not> (a = num_min \<and> b = -1) \<longrightarrow>
      (\<exists>q r. do_divide F (VInt a) (VInt b) = Inr (VInt q) \<and> do_modulus F (VInt a) (VInt b) = Inr (VInt r) \<and>
        is_num q \<and> is_num r \<and> q * b + r = a \<and> \<bar>r\<bar> < \<bar>b\<bar> \<and> (r = 0 \<or> sgn r = sgn a)))"
  using assms c_div_range [OF assms] c_mod_bound [OF assms(3), of a] c_div_mod [OF assms(3), of a]
  by (auto simp: do_divide_def do_modulus_def division_op_def)

theorem integer_division_witness: "\<forall>F. do_divide F (VInt num_min) (VInt (-1)) = Inl Undefined"
  using integer_division [of num_min "-1"] by (simp add: is_num_def num_min_def num_max_def)

text \<open>C15: the square-and-multiply loop of \<open>do_power\<close> computes the power, modulo 2^64, for every
  exponent that is not negative, overflow on the way included.\<close>

theorem integer_power:
  assumes "0 \<le> b"
  shows "do_power F (VInt a) (VInt b) = VInt (to_num (a ^ nat b))"
  using assms power_loop_correct [of 1 a "nat b"]
  by (simp add: do_power_def is_num_def num_min_def num_max_def)

theorem integer_power_witness: "\<forall>F. do_power F (VInt 3) (VInt 4) = VInt 81"
  using integer_power [of 4 _ 3] by (simp add: is_num_def num_min_def num_max_def)

text \<open>The case of base -1 and a negative exponent has its two results the wrong way round.\<close>

theorem power_of_minus_one:
  "do_power F (VInt (-1)) (VInt (-1)) = VInt 1 \<and> do_power F (VInt (-1)) (VInt (-2)) = VInt (-1)"
  by (simp add: do_power_def)

text \<open>C16: \<open>min\<close> and \<open>max\<close> of integers return the least and the greatest argument, and a list of
  numbers that mixes integers and floating-point numbers is a type error.\<close>

theorem min_max_correct:
  "bf_min (map VInt (n # ns)) = make_var_pack (VInt (Min (set (n # ns)))) \<and>
   bf_max (map VInt (n # ns)) = make_var_pack (VInt (Max (set (n # ns)))) \<and>
   ((type_of r = TYPE_INT \<or> type_of r = TYPE_FLOAT) \<and> (\<exists>v \<in> set vs. type_of v \<noteq> type_of r) \<longrightarrow>
     bf_min (r # vs) = make_error_pack E_TYPE \<and> bf_max (r # vs) = make_error_pack E_TYPE)"
proof -
  have "fold (\<lambda>n m. min m n) ns n = fold min ns n"
    by (rule fold_cong) (auto simp: min.commute)
  then have mi: "fold (\<lambda>n m. min m n) ns n = Min (set (n # ns))"
    by (simp only: Min.set_eq_fold)
  have "fold (\<lambda>n m. max m n) ns n = fold max ns n"
    by (rule fold_cong) (auto simp: max.commute)
  then have ma: "fold (\<lambda>n m. max m n) ns n = Max (set (n # ns))"
    by (simp only: Max.set_eq_fold)
  have mi': "fold (keep_better (<) fl_lt) (map VInt ns) (VInt n, False)
      = (VInt (Min (set (n # ns))), False)"
    unfolding mi [symmetric] by (rule fold_keep_ints) auto
  have ma': "fold (keep_better (>) (\<lambda>a b. fl_lt b a)) (map VInt ns) (VInt n, False)
      = (VInt (Max (set (n # ns))), False)"
    unfolding ma [symmetric] by (rule fold_keep_ints) auto
  have bad: "min_max ilt flt (r # vs) = make_error_pack E_TYPE"
    if "type_of r = TYPE_INT \<or> type_of r = TYPE_FLOAT" "\<exists>v \<in> set vs. type_of v \<noteq> type_of r"
    for ilt flt
    using fold_keep_type [OF that(1), of ilt flt vs] that(2)
    by (auto simp: min_max_def split: prod.splits)
  show ?thesis
    using mi' ma' bad by (simp add: bf_min_def bf_max_def min_max_def)
qed

theorem min_max_correct_witness:
  "bf_min [VInt 3, VInt (-2)] = make_var_pack (VInt (-2)) \<and>
   bf_max [VInt 3, VFloat 0] = make_error_pack E_TYPE"
  using min_max_correct [of 3 "[-2]" "VInt 3" "[VFloat 0]"] by simp

end
