(* ===== verification/Lists.thy ===== *)
theory Lists
  imports Numbers
begin

text \<open>
  The list and string operations of \<open>list.c\<close> and the built-in functions on them.

  A MOO list is a HOL list; the code numbers its elements from 1 and the positions it is given are
  C \<open>int\<close>s, so that a \<open>Num\<close> passed as one loses its high half (\<open>to_int32\<close>). Reading or writing
  outside the elements is \<open>Undefined\<close>. A built-in function gets the list of its arguments, whose number and types
  \<open>call_bi_func\<close> has compared with the registered ones; it never sees any other (\<open>Undefined\<close>).
\<close>

subsection \<open>Lists\<close>

fun ismember_from :: "int \<Rightarrow> var \<Rightarrow> var list \<Rightarrow> bool \<Rightarrow> int res" where
  "ismember_from i lhs [] case_matters = Inr 0"
| "ismember_from i lhs (v # vs) case_matters =
     bind_res (equality lhs v case_matters)
       (\<lambda>e. if e then Inr i else ismember_from (i + 1) lhs vs case_matters)"

definition ismember :: "var \<Rightarrow> var list \<Rightarrow> bool \<Rightarrow> int res" where
  "ismember lhs rhs case_matters = ismember_from 1 lhs rhs case_matters"

definition listset :: "var list \<Rightarrow> var \<Rightarrow> int \<Rightarrow> var list res" where
  "listset list value pos =
    (if 1 \<le> pos \<and> pos \<le> int (length list) then Inr (list[nat (pos - 1) := value]) else Inl Undefined)"

definition doinsert :: "var list \<Rightarrow> var \<Rightarrow> int \<Rightarrow> var list res" where
  "doinsert list value pos =
    (if 1 \<le> pos \<and> pos \<le> int (length list) + 1
     then Inr (take (nat (pos - 1)) list @ [value] @ drop (nat (pos - 1)) list) else Inl Undefined)"

definition listinsert :: "var list \<Rightarrow> var \<Rightarrow> int \<Rightarrow> var list res" where
  "listinsert list value pos =
    doinsert list value (if pos \<le> 0 then 1 else if pos > int (length list) then int (length list) + 1 else pos)"

definition listappend :: "var list \<Rightarrow> var \<Rightarrow> var list res" where
  "listappend list value = doinsert list value (int (length list) + 1)"

definition listdelete :: "var list \<Rightarrow> int \<Rightarrow> var list res" where
  "listdelete list pos =
    (if 1 \<le> pos \<and> pos \<le> int (length list)
     then Inr (take (nat (pos - 1)) list @ drop (nat pos) list) else Inl Undefined)"

definition setadd :: "var list \<Rightarrow> var \<Rightarrow> var list res" where
  "setadd list value =
    bind_res (ismember value list False) (\<lambda>i. if i \<noteq> 0 then Inr list else listappend list value)"

definition setremove :: "var list \<Rightarrow> var \<Rightarrow> var list res" where
  "setremove list value =
    bind_res (ismember value list False) (\<lambda>i. if i \<noteq> 0 then listdelete list i else Inr list)"

definition listconcat :: "var list \<Rightarrow> var list \<Rightarrow> var list" where
  "listconcat first second = first @ second"

definition listrangeset :: "var list \<Rightarrow> int \<Rightarrow> int \<Rightarrow> var list \<Rightarrow> var list res" where
  "listrangeset base from to value =
    (let base_len = int (length base);
         lenleft = (if from > 1 then from - 1 else 0);
         lenright = (if base_len > to then base_len - to else 0)
     in if lenleft \<le> base_len \<and> (lenright > 0 \<longrightarrow> to \<ge> 0)
        then Inr (take (nat lenleft) base @ value @ take (nat lenright) (drop (nat to) base))
        else Inl Undefined)"

definition sublist :: "var list \<Rightarrow> int \<Rightarrow> int \<Rightarrow> var list res" where
  "sublist list lower upper =
    (if lower > upper then Inr []
     else if 1 \<le> lower \<and> upper \<le> int (length list)
     then Inr (take (nat (upper - lower + 1)) (drop (nat (lower - 1)) list))
     else Inl Undefined)"

definition assoc_matches :: "var \<Rightarrow> int \<Rightarrow> var \<Rightarrow> bool res" where
  "assoc_matches vtarget vindex e = (case e of
     VList vs \<Rightarrow> if int (length vs) \<ge> vindex
       then if vindex \<ge> 1 then equality (vs ! nat (vindex - 1)) vtarget False else Inl Undefined
       else Inr False
   | _ \<Rightarrow> Inr False)"

fun list_iassoc_from :: "int \<Rightarrow> var \<Rightarrow> var list \<Rightarrow> int \<Rightarrow> int res" where
  "list_iassoc_from i vtarget [] vindex = Inr 0"
| "list_iassoc_from i vtarget (e # es) vindex =
     bind_res (assoc_matches vtarget vindex e)
       (\<lambda>m. if m then Inr i else list_iassoc_from (i + 1) vtarget es vindex)"

definition list_iassoc :: "var \<Rightarrow> var list \<Rightarrow> int \<Rightarrow> int res" where
  "list_iassoc vtarget vlist vindex = list_iassoc_from 1 vtarget vlist vindex"

fun list_assoc :: "var \<Rightarrow> var list \<Rightarrow> int \<Rightarrow> var res" where
  "list_assoc vtarget [] vindex = Inr (VList [])"
| "list_assoc vtarget (e # es) vindex =
     bind_res (assoc_matches vtarget vindex e)
       (\<lambda>m. if m then Inr e else list_assoc vtarget es vindex)"

fun setadd_all :: "var list \<Rightarrow> var list \<Rightarrow> var list res" where
  "setadd_all r [] = Inr r"
| "setadd_all r (v # vs) = bind_res (setadd r v) (\<lambda>r. setadd_all r vs)"

definition remove_duplicates :: "var list \<Rightarrow> var list res" where
  "remove_duplicates list = setadd_all [] list"

subsection \<open>Strings\<close>

text \<open>Positions count runes; the bytes are found with \<open>skip_utf\<close>.\<close>

definition strrangeset :: "string \<Rightarrow> int \<Rightarrow> int \<Rightarrow> string \<Rightarrow> string" where
  "strrangeset base from to value =
    (let charsleft = (if from > 1 then from - 1 else 0);
         lenleft = skip_utf base charsleft;
         indright = lenleft + skip_utf (drop lenleft base) (to_int32 (to - from + 1))
     in take lenleft base @ value @ drop indright base)"

definition substr :: "string \<Rightarrow> int \<Rightarrow> int \<Rightarrow> string" where
  "substr str lower upper =
    (if lower > upper then []
     else
       (let lower_ind = skip_utf str (to_int32 (lower - 1));
            upper_ind = lower_ind + skip_utf (drop lower_ind str) (to_int32 (upper + 1 - lower))
        in take (upper_ind - lower_ind) (drop lower_ind str)))"

definition strget :: "string \<Rightarrow> int \<Rightarrow> string" where
  "strget str i =
    (let ind = skip_utf str (to_int32 (i - 1));
         n = clearance_utf (case drop ind str of [] \<Rightarrow> CHR 0x00 | c # _ \<Rightarrow> c)
     in take n (drop ind str))"

subsection \<open>Built-in functions\<close>

definition ret_list :: "var list \<Rightarrow> package res" where
  "ret_list vs = Inr (make_var_pack (VList vs))"

definition ret_bool :: "bool \<Rightarrow> package res" where
  "ret_bool b = Inr (make_var_pack (VInt (of_bool b)))"

fun bf_length :: "var list \<Rightarrow> package" where
  "bf_length (VList l # _) = make_var_pack (VInt (int (length l)))"
| "bf_length (VStr s # _) = make_var_pack (VInt (strlen_utf s))"
| "bf_length _ = make_error_pack E_TYPE"

definition bf_setadd :: "var list \<Rightarrow> package res" where
  "bf_setadd args = (case args of [VList l, v] \<Rightarrow> bind_res (setadd l v) ret_list | _ \<Rightarrow> Inl Undefined)"

definition bf_setremove :: "var list \<Rightarrow> package res" where
  "bf_setremove args = (case args of [VList l, v] \<Rightarrow> bind_res (setremove l v) ret_list | _ \<Rightarrow> Inl Undefined)"

definition bf_enlist :: "var list \<Rightarrow> package res" where
  "bf_enlist args = (case args of
     [v] \<Rightarrow> if type_of v \<noteq> TYPE_LIST then ret_list [v] else Inr (make_var_pack v)
   | _ \<Rightarrow> Inl Undefined)"

definition bf_iassoc :: "var list \<Rightarrow> package res" where
  "bf_iassoc args =
    (let index = (case args of [_, _, VInt n] \<Rightarrow> to_int32 n | _ \<Rightarrow> 1) in
     if index < 1 then Inr (make_error_pack E_RANGE)
     else case args of
         v # VList l # _ \<Rightarrow> bind_res (list_iassoc v l index) (\<lambda>n. Inr (make_var_pack (VInt n)))
       | _ \<Rightarrow> Inl Undefined)"

definition bf_assoc :: "var list \<Rightarrow> package res" where
  "bf_assoc args =
    (let index = (case args of [_, _, VInt n] \<Rightarrow> to_int32 n | _ \<Rightarrow> 1) in
     if index < 1 then Inr (make_error_pack E_RANGE)
     else case args of
         v # VList l # _ \<Rightarrow> bind_res (list_assoc v l index) (\<lambda>r. Inr (make_var_pack r))
       | _ \<Rightarrow> Inl Undefined)"

definition bf_listappend :: "var list \<Rightarrow> package res" where
  "bf_listappend args = (case args of
     [VList l, v] \<Rightarrow> bind_res (listappend l v) ret_list
   | [VList l, v, VInt n] \<Rightarrow> bind_res (listinsert l v (to_int32 (to_num (n + 1)))) ret_list
   | _ \<Rightarrow> Inl Undefined)"

definition bf_listinsert :: "var list \<Rightarrow> package res" where
  "bf_listinsert args = (case args of
     [VList l, v] \<Rightarrow> bind_res (listinsert l v 1) ret_list
   | [VList l, v, VInt n] \<Rightarrow> bind_res (listinsert l v (to_int32 n)) ret_list
   | _ \<Rightarrow> Inl Undefined)"

definition bf_listdelete :: "var list \<Rightarrow> package res" where
  "bf_listdelete args = (case args of
     [VList l, VInt n] \<Rightarrow>
       if n \<le> 0 \<or> n > int (length l) then Inr (make_error_pack E_RANGE)
       else bind_res (listdelete l (to_int32 n)) ret_list
   | _ \<Rightarrow> Inl Undefined)"

definition bf_listset :: "var list \<Rightarrow> package res" where
  "bf_listset args = (case args of
     [VList l, v, VInt n] \<Rightarrow>
       if n \<le> 0 \<or> n > int (length l) then Inr (make_error_pack E_RANGE)
       else bind_res (listset l v (to_int32 n)) ret_list
   | _ \<Rightarrow> Inl Undefined)"

definition bf_equal :: "var list \<Rightarrow> package res" where
  "bf_equal args = (case args of [v, w] \<Rightarrow> bind_res (equality v w True) ret_bool | _ \<Rightarrow> Inl Undefined)"

definition bf_is_member :: "var list \<Rightarrow> package res" where
  "bf_is_member args = (case args of
     [v, VList l] \<Rightarrow> bind_res (ismember v l True) (\<lambda>n. Inr (make_var_pack (VInt n)))
   | _ \<Rightarrow> Inl Undefined)"

definition bf_remove_duplicates :: "var list \<Rightarrow> package res" where
  "bf_remove_duplicates args = (case args of
     [VList l] \<Rightarrow> bind_res (remove_duplicates l) ret_list | _ \<Rightarrow> Inl Undefined)"

text \<open>String functions: the optional last argument says whether case matters.\<close>

definition case_flag :: "var list \<Rightarrow> nat \<Rightarrow> bool" where
  "case_flag args n = (length args = n \<and> is_true (args ! (n - 1)))"

definition bf_strsub :: "var list \<Rightarrow> package res" where
  "bf_strsub args = (case args of
     VStr source # VStr what # VStr with_str # _ \<Rightarrow>
       if what = [] then Inr (make_error_pack E_INVARG)
       else bind_res (of_option (strsub source what with_str (case_flag args 4)))
              (\<lambda>s. Inr (make_var_pack (VStr s)))
   | _ \<Rightarrow> Inl Undefined)"

fun strcmp :: "string \<Rightarrow> string \<Rightarrow> int" where
  "strcmp [] t = - peek t"
| "strcmp (c # s) t =
     (case t of [] \<Rightarrow> code c | d # t' \<Rightarrow> if c = d then strcmp s t' else code c - code d)"

definition signum :: "int \<Rightarrow> int" where
  "signum x = (if x < 0 then -1 else if x > 0 then 1 else 0)"

definition bf_strcmp :: "var list \<Rightarrow> package res" where
  "bf_strcmp args = (case args of
     [VStr s, VStr t] \<Rightarrow> Inr (make_var_pack (VInt (signum (strcmp s t)))) | _ \<Rightarrow> Inl Undefined)"

definition bf_index :: "var list \<Rightarrow> package res" where
  "bf_index args = (case args of
     VStr source # VStr what # _ \<Rightarrow>
       Inr (make_var_pack (VInt (strindex source what (case_flag args 3))))
   | _ \<Rightarrow> Inl Undefined)"

definition bf_rindex :: "var list \<Rightarrow> package res" where
  "bf_rindex args = (case args of
     VStr source # VStr what # _ \<Rightarrow>
       bind_res (of_option (strrindex source what (case_flag args 3)))
         (\<lambda>n. Inr (make_var_pack (VInt n)))
   | _ \<Rightarrow> Inl Undefined)"

definition bf_tostr :: "(float64 \<Rightarrow> string) \<Rightarrow> var list \<Rightarrow> package res" where
  "bf_tostr fmt args = bind_res (list2str fmt args) (\<lambda>s. Inr (make_var_pack (VStr s)))"

definition bf_toliteral :: "(float64 \<Rightarrow> string) \<Rightarrow> (nat \<Rightarrow> objid \<times> objid) \<Rightarrow> var list \<Rightarrow> package" where
  "bf_toliteral fmt waif args = make_var_pack (VStr (value_to_literal fmt waif (args ! 0)))"

definition bf_value_bytes :: "(nat \<Rightarrow> int) \<Rightarrow> var list \<Rightarrow> package" where
  "bf_value_bytes waif_bytes args = make_var_pack (VInt (to_int32 (value_bytes waif_bytes (args ! 0))))"

definition bf_ord :: "var list \<Rightarrow> package res" where
  "bf_ord args = (case args of
     [VStr s] \<Rightarrow> (case get_utf s of (ucs, n) \<Rightarrow>
       if ucs = 0 \<or> drop n s \<noteq> [] then Inr (make_error_pack E_INVARG)
       else Inr (make_var_pack (VInt ucs)))
   | _ \<Rightarrow> Inl Undefined)"

subsection \<open>Binary strings as lists\<close>

definition is_text :: "char \<Rightarrow> bool" where
  "is_text ch = (let c = code ch in 33 \<le> c \<and> c \<le> 126 \<or> c = 32 \<or> c = 9)"

text \<open>\<open>bf_decode_binary\<close> goes over the bytes twice: to count the elements of the result, then to
  fill them in.\<close>

fun count_chunks :: "bool \<Rightarrow> string \<Rightarrow> nat" where
  "count_chunks in_string [] = 0"
| "count_chunks in_string (c # bytes) =
     (if is_text c then (if in_string then 0 else 1) + count_chunks True bytes
      else 1 + count_chunks False bytes)"

fun decode_chunks :: "string \<Rightarrow> bool \<Rightarrow> string \<Rightarrow> var list" where
  "decode_chunks s in_string [] = (if in_string then [VStr s] else [])"
| "decode_chunks s in_string (c # bytes) =
     (if is_text c then decode_chunks (s @ [c]) True bytes
      else (if in_string then [VStr s] else []) @ [VInt (code c)] @
           decode_chunks (if in_string then [] else s) False bytes)"

definition bf_decode_binary :: "var list \<Rightarrow> package res" where
  "bf_decode_binary args = (case args of
     VStr binary # _ \<Rightarrow>
       (case binary_to_raw_bytes binary of
          None \<Rightarrow> Inr (make_error_pack E_INVARG)
        | Some bytes \<Rightarrow>
            if length args \<ge> 2 \<and> is_true (args ! 1) then ret_list (map (\<lambda>c. VInt (code c)) bytes)
            else let r = decode_chunks [] False bytes in
              if length r = count_chunks False bytes then ret_list r else Inl Undefined)
   | _ \<Rightarrow> Inl Undefined)"

fun encode_binary :: "string \<Rightarrow> var \<Rightarrow> bool \<times> string"
  and encode_binary_list :: "string \<Rightarrow> var list \<Rightarrow> bool \<times> string" where
  "encode_binary s (VInt n) = (if n < 0 \<or> n \<ge> 256 then (False, s) else (True, s @ [byte n]))"
| "encode_binary s (VStr t) = (True, s @ t)"
| "encode_binary s (VList vs) = encode_binary_list s vs"
| "encode_binary s _ = (False, s)"
| "encode_binary_list s [] = (True, s)"
| "encode_binary_list s (v # vs) = (case encode_binary s v of
      (ok, s) \<Rightarrow> if ok then encode_binary_list s vs else (False, s))"

definition bf_encode_binary :: "var list \<Rightarrow> package" where
  "bf_encode_binary args = (case encode_binary [] (VList args) of (ok, bytes) \<Rightarrow>
     if ok then make_var_pack (VStr (raw_bytes_to_binary bytes)) else make_error_pack E_INVARG)"

subsection \<open>The pattern cache and matching\<close>

text \<open>Compiled patterns have the type \<open>'p\<close>; \<open>new_pattern\<close> gives \<open>None\<close> for a pattern that does not
  compile. The chain of entries from \<open>pat_cache\<close> on is a list, the most recently used first.\<close>

record 'p pat_cache_entry =
  pc_string :: "string option"
  pc_case_matters :: bool
  pc_dialect :: int
  pc_pattern :: "'p option"

definition PATTERN_CACHE_SIZE :: nat where "PATTERN_CACHE_SIZE = 50"

definition setup_pattern_cache :: "'p pat_cache_entry list" where
  "setup_pattern_cache = replicate PATTERN_CACHE_SIZE
     \<lparr>pc_string = None, pc_case_matters = False, pc_dialect = 0, pc_pattern = None\<rparr>"

definition cache_hit :: "string \<Rightarrow> bool \<Rightarrow> int \<Rightarrow> 'p pat_cache_entry \<Rightarrow> bool" where
  "cache_hit s case_matters dialect e \<longleftrightarrow>
    pc_string e = Some s \<and> case_matters = pc_case_matters e \<and> dialect = pc_dialect e"

text \<open>The search: the entry to use, refilled when it is the last one and no hit, and the others in
  their order.\<close>

fun find_entry :: "(string \<Rightarrow> bool \<Rightarrow> int \<Rightarrow> 'p option) \<Rightarrow> string \<Rightarrow> bool \<Rightarrow> int \<Rightarrow> 'p pat_cache_entry list
    \<Rightarrow> ('p pat_cache_entry \<times> 'p pat_cache_entry list) option" where
  "find_entry new_pattern s cm d [] = None"
| "find_entry new_pattern s cm d (e # es) =
     (if cache_hit s cm d e then Some (e, es)
      else if es = [] then
        (let p = new_pattern s cm d in
         Some (e\<lparr>pc_pattern := p, pc_case_matters := cm, pc_dialect := d,
                 pc_string := (if p = None then None else Some s)\<rparr>, []))
      else map_option (\<lambda>(x, r). (x, e # r)) (find_entry new_pattern s cm d es))"

definition get_pattern :: "(string \<Rightarrow> bool \<Rightarrow> int \<Rightarrow> 'p option) \<Rightarrow> string \<Rightarrow> bool \<Rightarrow> int \<Rightarrow>
    'p pat_cache_entry list \<Rightarrow> ('p option \<times> 'p pat_cache_entry list) option" where
  "get_pattern new_pattern s cm d cache =
    map_option (\<lambda>(x, r). (pc_pattern x, x # r)) (find_entry new_pattern s cm d cache)"

text \<open>What \<open>match_pattern\<close> answers, with the byte positions of the ten registers: a matched group is
  \<open>(start, end)\<close> counted from 1, a group that took no part is \<open>(0, -1)\<close>.\<close>

datatype match_result = MATCH_SUCCEEDED "(int \<times> int) list" | MATCH_FAILED | MATCH_ABORTED

definition match_rebase :: "string \<Rightarrow> int \<Rightarrow> int" where
  "match_rebase subject x =
    (if x = 0 then 0 else strlen_utf subject - strlen_utf (drop (nat (x - 1)) subject) + 1)"

definition rebase_pair :: "string \<Rightarrow> int \<times> int \<Rightarrow> var list" where
  "rebase_pair subject r =
    [VInt (match_rebase subject (fst r)), VInt (match_rebase subject (snd r + 1) - 1)]"

definition do_match :: "(string \<Rightarrow> bool \<Rightarrow> int \<Rightarrow> 'p option) \<Rightarrow> ('p \<Rightarrow> string \<Rightarrow> bool \<Rightarrow> match_result) \<Rightarrow>
    var list \<Rightarrow> bool \<Rightarrow> int \<Rightarrow> 'p pat_cache_entry list \<Rightarrow> (var \<times> 'p pat_cache_entry list) res" where
  "do_match new_pattern match_pattern args reverse dialect cache = (case args of
     VStr subject # VStr pattern # _ \<Rightarrow>
       bind_res (of_option (get_pattern new_pattern pattern (case_flag args 3) dialect cache))
        (\<lambda>(pat, cache). case pat of
           None \<Rightarrow> Inr (VErr E_INVARG, cache)
         | Some p \<Rightarrow> (case match_pattern p subject reverse of
               MATCH_SUCCEEDED regs \<Rightarrow>
                 if length regs = 10 then
                   Inr (VList (rebase_pair subject (regs ! 0) @
                     [VList (map (\<lambda>r. VList (rebase_pair subject r)) (tl regs)), VStr subject]), cache)
                 else Inl Undefined
             | MATCH_FAILED \<Rightarrow> Inr (VList [], cache)
             | MATCH_ABORTED \<Rightarrow> Inr (VErr E_QUOTA, cache)))
   | _ \<Rightarrow> Inl Undefined)"

definition match_package :: "var \<Rightarrow> package" where
  "match_package ans = (case ans of VErr e \<Rightarrow> make_error_pack e | _ \<Rightarrow> make_var_pack ans)"

definition bf_match where
  "bf_match new_pattern match_pattern args cache =
    bind_res (do_match new_pattern match_pattern args False 1 cache) (\<lambda>(a, c). Inr (match_package a, c))"

definition bf_rmatch where
  "bf_rmatch new_pattern match_pattern args cache =
    bind_res (do_match new_pattern match_pattern args True 1 cache) (\<lambda>(a, c). Inr (match_package a, c))"

definition bf_pcre_match where
  "bf_pcre_match new_pattern match_pattern args cache =
    bind_res (do_match new_pattern match_pattern args False 0 cache) (\<lambda>(a, c). Inr (match_package a, c))"

definition bf_pcre_rmatch where
  "bf_pcre_rmatch new_pattern match_pattern args cache =
    bind_res (do_match new_pattern match_pattern args True 0 cache) (\<lambda>(a, c). Inr (match_package a, c))"

subsection \<open>Substitution\<close>

definition invalid_pair :: "int \<Rightarrow> int \<Rightarrow> int \<Rightarrow> bool" where
  "invalid_pair num1 num2 limit \<longleftrightarrow>
    \<not> ((num1 = 0 \<and> num2 = -1) \<or> (num1 > 0 \<and> num2 \<ge> num1 - 1 \<and> num2 \<le> limit))"

definition bad_pair :: "int \<Rightarrow> var \<Rightarrow> bool" where
  "bad_pair subj_length pair = (case pair of
     VList [VInt a, VInt b] \<Rightarrow> invalid_pair (to_int32 a) (to_int32 b) subj_length
   | _ \<Rightarrow> True)"

definition check_subs_list :: "var \<Rightarrow> bool" where
  "check_subs_list subs = (case subs of
     VList [VInt a, VInt b, VList pairs, VStr subj] \<Rightarrow>
       length pairs \<noteq> 9 \<or> invalid_pair (to_int32 a) (to_int32 b) (strlen_utf subj) \<or>
       (\<exists>p \<in> set pairs. bad_pair (strlen_utf subj) p)
   | _ \<Rightarrow> True)"

text \<open>The pair of positions \<open>%0\<close> ... \<open>%9\<close> stand for.\<close>

definition sub_pair :: "var \<Rightarrow> nat \<Rightarrow> (int \<times> int) option" where
  "sub_pair subs n = (case subs of
     VList (VInt a # VInt b # VList pairs # _) \<Rightarrow>
       if n = 0 then Some (a, b)
       else if n - 1 < length pairs
       then (case pairs ! (n - 1) of VList (VInt a # VInt b # _) \<Rightarrow> Some (a, b) | _ \<Rightarrow> None)
       else None
   | _ \<Rightarrow> None)"

definition sub_text :: "string \<Rightarrow> int \<times> int \<Rightarrow> string" where
  "sub_text subject p =
    (let start = to_int32 (fst p - 1);
         last = to_int32 (snd p - 1);
         from = skip_utf subject start;
         upto = from + skip_utf (drop from subject) (to_int32 (last - start + 1))
     in take (upto - from) (drop from subject))"

fun substitute :: "var \<Rightarrow> string \<Rightarrow> string \<Rightarrow> string option res" where
  "substitute subs subject [] = Inr (Some [])"
| "substitute subs subject (c # tmpl) =
    (if c = CHR ''%'' then
       (case tmpl of
          [] \<Rightarrow> Inr None
        | d # tmpl' \<Rightarrow>
            if d = CHR ''%'' then
              bind_res (substitute subs subject tmpl') (\<lambda>r. Inr (map_option (\<lambda>s. CHR ''%'' # s) r))
            else if 48 \<le> code d \<and> code d \<le> 57 then
              (case sub_pair subs (nat (code d - 48)) of
                 None \<Rightarrow> Inl Undefined
               | Some p \<Rightarrow> bind_res (substitute subs subject tmpl')
                   (\<lambda>r. Inr (map_option (\<lambda>s. sub_text subject p @ s) r)))
            else Inr None)
     else bind_res (substitute subs subject tmpl) (\<lambda>r. Inr (map_option (\<lambda>s. c # s) r)))"

definition bf_substitute :: "var list \<Rightarrow> package res" where
  "bf_substitute args = (case args of
     [VStr tmpl, subs] \<Rightarrow>
       if check_subs_list subs then Inr (make_error_pack E_INVARG)
       else (case subs of
           VList [_, _, _, VStr subject] \<Rightarrow>
             bind_res (substitute subs subject tmpl)
               (\<lambda>r. case r of None \<Rightarrow> Inr (make_error_pack E_INVARG)
                   | Some s \<Rightarrow> Inr (make_var_pack (VStr s)))
         | _ \<Rightarrow> Inl Undefined)
   | _ \<Rightarrow> Inl Undefined)"

subsection \<open>Lists as sets\<close>

definition occurs :: "bool \<Rightarrow> var \<Rightarrow> var list \<Rightarrow> bool" where
  "occurs cm v vs \<longleftrightarrow> (\<exists>w \<in> set vs. var_eq cm v w)"

definition uniq :: "var list \<Rightarrow> bool" where
  "uniq vs \<longleftrightarrow> sorted_wrt (\<lambda>a b. \<not> var_eq False a b) vs"

definition values_ok :: "var list \<Rightarrow> bool" where
  "values_ok vs \<longleftrightarrow> (\<forall>v \<in> set vs. user_value v)"

lemma occurs_simps [simp]:
  "\<not> occurs cm v []"
  "occurs cm v (w # ws) \<longleftrightarrow> var_eq cm v w \<or> occurs cm v ws"
  "occurs cm v (ws @ xs) \<longleftrightarrow> occurs cm v ws \<or> occurs cm v xs"
  by (auto simp: occurs_def)

lemma values_ok_simps [simp]:
  "values_ok []" "values_ok (v # vs) \<longleftrightarrow> user_value v \<and> values_ok vs"
  "values_ok (vs @ ws) \<longleftrightarrow> values_ok vs \<and> values_ok ws"
  by (auto simp: values_ok_def)

lemma uniq_simps [simp]:
  "uniq []" "uniq (v # vs) \<longleftrightarrow> \<not> occurs False v vs \<and> uniq vs"
  "uniq (vs @ [w]) \<longleftrightarrow> uniq vs \<and> \<not> occurs False w vs"
  using var_eq_sym by (auto simp: uniq_def occurs_def sorted_wrt_append)

lemma ismember_from_absent:
  "user_value v \<Longrightarrow> values_ok vs \<Longrightarrow> \<not> occurs cm v vs \<Longrightarrow> ismember_from i v vs cm = Inr 0"
  by (induction vs arbitrary: i) (auto simp: equality_var_eq)

lemma ismember_from_present:
  "user_value v \<Longrightarrow> values_ok vs \<Longrightarrow> occurs cm v vs \<Longrightarrow>
    \<exists>us w ws. vs = us @ w # ws \<and> \<not> occurs cm v us \<and> var_eq cm v w \<and>
      ismember_from i v vs cm = Inr (i + int (length us))"
proof (induction vs arbitrary: i)
  case (Cons a vs)
  show ?case
  proof (cases "var_eq cm v a")
    case True
    then have "ismember_from i v (a # vs) cm = Inr (i + int (length ([]::var list)))"
      using Cons.prems by (simp add: equality_var_eq)
    with True show ?thesis
      by (intro exI [of _ "[]"] exI [of _ a] exI [of _ vs]) simp
  next
    case False
    with Cons.prems Cons.IH [of "i + 1"] obtain us w ws where
      "vs = us @ w # ws" "\<not> occurs cm v us" "var_eq cm v w"
      "ismember_from (i + 1) v vs cm = Inr (i + 1 + int (length us))" by auto
    with False Cons.prems show ?thesis
      by (intro exI [of _ "a # us"] exI [of _ w] exI [of _ ws]) (simp add: equality_var_eq)
  qed
qed simp

lemma listappend_eq [simp]: "listappend l v = Inr (l @ [v])"
  by (simp add: listappend_def doinsert_def)

lemma listdelete_middle [simp]: "listdelete (us @ w # ws) (1 + int (length us)) = Inr (us @ ws)"
  by (simp add: listdelete_def nat_add_distrib)

lemma setadd_spec:
  "user_value v \<Longrightarrow> values_ok l \<Longrightarrow> setadd l v = Inr (if occurs False v l then l else l @ [v])"
  using ismember_from_absent [of v l False 1] ismember_from_present [of v l False 1]
  by (auto simp: setadd_def ismember_def)

lemma setremove_spec:
  assumes "user_value v" "values_ok l"
  shows "(\<not> occurs False v l \<longrightarrow> setremove l v = Inr l) \<and>
    (occurs False v l \<longrightarrow> (\<exists>us w ws. l = us @ w # ws \<and> \<not> occurs False v us \<and> var_eq False v w \<and>
       setremove l v = Inr (us @ ws)))"
proof (intro conjI impI)
  assume "\<not> occurs False v l"
  then show "setremove l v = Inr l"
    using ismember_from_absent [OF assms] by (simp add: setremove_def ismember_def)
next
  assume "occurs False v l"
  then obtain us w ws where d: "l = us @ w # ws" "\<not> occurs False v us" "var_eq False v w"
    "ismember_from 1 v l False = Inr (1 + int (length us))"
    using ismember_from_present [OF assms, of False 1] by auto
  then have "setremove l v = Inr (us @ ws)" by (simp add: setremove_def ismember_def)
  with d show "\<exists>us w ws. l = us @ w # ws \<and> \<not> occurs False v us \<and> var_eq False v w \<and>
       setremove l v = Inr (us @ ws)" by auto
qed

lemma occurs_cong: "var_eq cm v w \<Longrightarrow> occurs cm v l = occurs cm w l"
  unfolding occurs_def using var_eq_trans var_eq_sym by blast

lemma uniq_remove: "uniq (us @ w # ws) \<Longrightarrow> uniq (us @ ws)"
  by (auto simp: uniq_def sorted_wrt_append)

lemma uniq_middle: "uniq (us @ w # ws) \<Longrightarrow> \<not> occurs False w (us @ ws)"
  using var_eq_sym by (fastforce simp: uniq_def sorted_wrt_append occurs_def)

lemma set_update:
  assumes "user_value v" "values_ok l" "uniq l"
  shows "\<exists>r. setadd l v = Inr r \<and> uniq r \<and> values_ok r \<and>
      (\<forall>w. no_nan w \<and> user_value w \<longrightarrow> occurs False w r = (occurs False w l \<or> var_eq False w v))"
    "\<exists>r. setremove l v = Inr r \<and> uniq r \<and> values_ok r \<and>
      (\<forall>w. occurs False w r = (occurs False w l \<and> \<not> var_eq False w v))"
proof -
  show "\<exists>r. setadd l v = Inr r \<and> uniq r \<and> values_ok r \<and>
      (\<forall>w. no_nan w \<and> user_value w \<longrightarrow> occurs False w r = (occurs False w l \<or> var_eq False w v))"
    using assms occurs_cong [of False _ v l] by (auto simp: setadd_spec)
  show "\<exists>r. setremove l v = Inr r \<and> uniq r \<and> values_ok r \<and>
      (\<forall>w. occurs False w r = (occurs False w l \<and> \<not> var_eq False w v))"
  proof (cases "occurs False v l")
    case False
    then show ?thesis using assms setremove_spec [OF assms(1,2)] occurs_cong [of False _ v l] by auto
  next
    case True
    then obtain us w ws where d: "l = us @ w # ws" "var_eq False v w" "setremove l v = Inr (us @ ws)"
      using setremove_spec [OF assms(1,2)] by blast
    have n: "\<not> occurs False w (us @ ws)" using assms(3) uniq_middle d(1) by blast
    have "occurs False x (us @ ws) = (occurs False x l \<and> \<not> var_eq False x v)" for x
    proof (cases "var_eq False x w")
      case True
      then have "\<not> occurs False x (us @ ws)" using n occurs_cong by blast
      moreover have "var_eq False x v" using True d(2) var_eq_sym var_eq_trans by blast
      ultimately show ?thesis by simp
    next
      case False
      then have "\<not> var_eq False x v" using d(2) var_eq_trans by blast
      with False show ?thesis using d(1) by simp
    qed
    with d assms uniq_remove show ?thesis by auto
  qed
qed

lemma setadd_all_spec:
  "values_ok l \<Longrightarrow> values_ok r \<Longrightarrow> uniq r \<Longrightarrow>
    \<exists>r'. setadd_all r l = Inr r' \<and> uniq r' \<and> values_ok r' \<and>
      (\<forall>w. occurs False w r' = (occurs False w r \<or> occurs False w l))"
proof (induction l arbitrary: r)
  case (Cons v l)
  let ?r = "if occurs False v r then r else r @ [v]"
  have "values_ok ?r" "uniq ?r" using Cons.prems by auto
  with Cons obtain r' where r': "setadd_all ?r l = Inr r'" "uniq r'" "values_ok r'"
    "\<forall>w. occurs False w r' = (occurs False w ?r \<or> occurs False w l)" by auto
  have "occurs False w ?r = (occurs False w r \<or> var_eq False w v)" for w
    using occurs_cong [of False w v r] by auto
  with r' Cons.prems show ?case by (auto simp: setadd_spec)
qed simp

subsection \<open>Positions of runes\<close>

lemma encode_runes_app:
  "encode_runes us = Some a \<Longrightarrow> encode_runes vs = Some b \<Longrightarrow> encode_runes (us @ vs) = Some (a @ b)"
  by (induction us arbitrary: a) (auto split: option.splits)

definition runes :: "int list \<Rightarrow> string \<Rightarrow> bool" where
  "runes us a \<longleftrightarrow> (\<forall>v\<in>set us. is_int32 v \<and> v \<noteq> 0) \<and> encode_runes us = Some a"

lemma runes_skip: "runes us a \<Longrightarrow> skip_utf (a @ t) (int (length us)) = length a"
  using skip_utf_encode by (simp add: runes_def)

lemma runes_strlen: "runes us a \<Longrightarrow> strlen_utf a = int (length us)"
  using strlen_utf_encode by (simp add: runes_def)

lemma runes_append: "runes us a \<Longrightarrow> runes vs b \<Longrightarrow> runes (us @ vs) (a @ b)"
  using encode_runes_app by (auto simp: runes_def)

lemma small_int32: "0 \<le> n \<Longrightarrow> n < 2 ^ 31 \<Longrightarrow> to_int32 n = n"
  by (simp add: is_int32_def)

lemma skip_then_take:
  assumes "runes us a" "runes ms m"
  shows "take (skip_utf (m @ t) (int (length ms))) (drop (skip_utf (a @ m @ t) (int (length us))) (a @ m @ t)) = m"
  using runes_skip [OF assms(1), of "m @ t"] runes_skip [OF assms(2), of t] by simp

lemma substr_runes:
  assumes "runes us a" "runes ms m" "length us + length ms < 2 ^ 31 - 1"
  shows "substr (a @ m @ t) (int (length us) + 1) (int (length us + length ms)) = m"
proof (cases "ms = []")
  case True
  with assms show ?thesis by (simp add: substr_def runes_def)
next
  case False
  have "to_int32 (int (length us) + 1 - 1) = int (length us)"
    "to_int32 (int (length us + length ms) + 1 - (int (length us) + 1)) = int (length ms)"
    using assms(3) by (auto intro!: small_int32)
  then show ?thesis
    using False runes_skip [OF assms(1), of "m @ t"] runes_skip [OF assms(2), of t]
    by (simp add: substr_def Let_def)
qed

lemma strrangeset_runes:
  assumes "runes us a" "runes ms m" "length us + length ms < 2 ^ 31 - 1"
  shows "strrangeset (a @ m @ t) (int (length us) + 1) (int (length us + length ms)) v = a @ v @ t"
proof -
  have l: "(if int (length us) + 1 > 1 then int (length us) + 1 - 1 else 0) = int (length us)" by simp
  have "to_int32 (int (length us + length ms) - (int (length us) + 1) + 1) = int (length ms)"
    using assms(3) by (auto intro!: small_int32)
  then show ?thesis
    unfolding strrangeset_def Let_def l
    using runes_skip [OF assms(1), of "m @ t"] runes_skip [OF assms(2), of t] by simp
qed

lemma clearance_byte:
  "0 \<le> n \<Longrightarrow> n \<le> 0x7f \<Longrightarrow> clearance_utf (byte n) = 1"
  "0xc0 \<le> n \<Longrightarrow> n \<le> 0xdf \<Longrightarrow> clearance_utf (byte n) = 2"
  "0xe0 \<le> n \<Longrightarrow> n \<le> 0xef \<Longrightarrow> clearance_utf (byte n) = 3"
  "0xf0 \<le> n \<Longrightarrow> n \<le> 0xf7 \<Longrightarrow> clearance_utf (byte n) = 4"
  by (simp_all add: clearance_utf_def Let_def)

lemma clearance_put_utf:
  assumes "is_int32 v" "put_utf v = Some bs"
  shows "clearance_utf (hd bs) = length bs"
proof -
  have v: "0 \<le> v" "v \<le> 0x10ffff" using put_utf_dom assms by auto
  then have "v < 2 ^ 32" by simp
  note eq = assms(2) [unfolded put_utf_arith [OF v(1) this]]
  consider "v \<le> 0x7f" | "0x7f < v" "v \<le> 0x7ff" | "0x7ff < v" "v \<le> 0xffff" | "0xffff < v" by linarith
  then show ?thesis
  proof cases
    case 1
    then have "bs = [byte v]" using eq by simp
    then show ?thesis using clearance_byte(1) [OF v(1) 1] by simp
  next
    case 2
    then have "bs = [byte (192 + v div 64), byte (128 + v mod 64)]" using eq by simp
    moreover have "0xc0 \<le> 192 + v div 64" "192 + v div 64 \<le> 0xdf" using 2 by linarith+
    ultimately show ?thesis using clearance_byte(2) by simp
  next
    case 3
    then have "\<not> v \<le> 0x7f" "\<not> v \<le> 0x7ff" by simp_all
    with 3 eq have "\<exists>x y. bs = [byte (224 + v div 4096), x, y]" by (simp only: if_False if_True split: if_splits) blast+
    moreover have "0xe0 \<le> 224 + v div 4096" "224 + v div 4096 \<le> 0xef" using 3 by linarith+
    ultimately show ?thesis using clearance_byte(3) by auto
  next
    case 4
    then have "\<not> v \<le> 0x7f" "\<not> v \<le> 0x7ff" "\<not> v \<le> 0xffff" by simp_all
    with v(2) eq have "\<exists>x y z. bs = [byte (240 + v div 262144), x, y, z]" by auto
    moreover have "0xf0 \<le> 240 + v div 262144" "240 + v div 262144 \<le> 0xf7" using 4 v by linarith+
    ultimately show ?thesis using clearance_byte(4) by auto
  qed
qed

lemma strget_runes:
  assumes "runes us a" "runes [x] m" "length us < 2 ^ 31"
  shows "strget (a @ m @ t) (int (length us) + 1) = m"
proof -
  have "to_int32 (int (length us) + 1 - 1) = int (length us)"
    using assms(3) by (auto intro!: small_int32)
  moreover have "clearance_utf (hd m) = length m" "m \<noteq> []"
    using assms(2) clearance_put_utf put_utf_nonempty by (auto simp: runes_def split: option.splits)
  ultimately show ?thesis
    using runes_skip [OF assms(1), of "m @ t"] by (cases m) (simp_all add: strget_def Let_def)
qed

subsection \<open>Binary strings\<close>

lemma code_cmp: "\<not> code c < 0" "\<not> 256 \<le> code c"
  using code_range [of c] by linarith+

lemma encode_decode_chunks:
  "b \<or> t = [] \<Longrightarrow> encode_binary_list s (decode_chunks t b bytes) = (True, s @ t @ bytes)"
proof (induction t b bytes arbitrary: s rule: decode_chunks.induct)
  case (2 t b c bytes)
  then show ?case by (cases b) (auto simp: code_cmp)
qed auto

lemma encode_codes: "encode_binary_list s (map (\<lambda>c. VInt (code c)) bytes) = (True, s @ bytes)"
  by (induction bytes arbitrary: s) (simp_all add: code_cmp)

lemma count_decode: "length (decode_chunks t b bytes) = count_chunks b bytes + of_bool b"
  by (induction t b bytes rule: decode_chunks.induct) auto

subsection \<open>The pattern cache\<close>

definition cache_ok :: "(string \<Rightarrow> bool \<Rightarrow> int \<Rightarrow> 'p option) \<Rightarrow> 'p pat_cache_entry list \<Rightarrow> bool" where
  "cache_ok new_pattern cache \<longleftrightarrow> length cache = PATTERN_CACHE_SIZE \<and>
    (\<forall>e \<in> set cache. \<forall>s. pc_string e = Some s \<longrightarrow>
       pc_pattern e = new_pattern s (pc_case_matters e) (pc_dialect e))"

lemma find_entry_spec:
  assumes "es \<noteq> []"
    and "\<forall>e \<in> set es. \<forall>s. pc_string e = Some s \<longrightarrow> pc_pattern e = f s (pc_case_matters e) (pc_dialect e)"
  shows "\<exists>x r. find_entry f s cm d es = Some (x, r) \<and> pc_pattern x = f s cm d \<and>
    length (x # r) = length es \<and>
    (\<forall>e \<in> set (x # r). \<forall>s. pc_string e = Some s \<longrightarrow> pc_pattern e = f s (pc_case_matters e) (pc_dialect e))"
  using assms
proof (induction f s cm d es rule: find_entry.induct)
  case (2 f s cm d e es)
  show ?case
  proof (cases "cache_hit s cm d e \<or> es = []")
    case True
    with "2.prems" show ?thesis by (auto simp: cache_hit_def Let_def)
  next
    case False
    with 2 obtain x r where "find_entry f s cm d es = Some (x, r)" "pc_pattern x = f s cm d"
      "length (x # r) = length es"
      "\<forall>e \<in> set (x # r). \<forall>s. pc_string e = Some s \<longrightarrow> pc_pattern e = f s (pc_case_matters e) (pc_dialect e)"
      by force
    with False "2.prems" show ?thesis by simp
  qed
qed simp

lemma get_pattern_spec:
  assumes "cache_ok f cache"
  shows "\<exists>c'. get_pattern f s cm d cache = Some (f s cm d, c') \<and> cache_ok f c'"
proof -
  have "cache \<noteq> []" using assms by (auto simp: cache_ok_def PATTERN_CACHE_SIZE_def)
  then obtain x r where "find_entry f s cm d cache = Some (x, r)" "pc_pattern x = f s cm d"
    "length (x # r) = length cache"
    "\<forall>e \<in> set (x # r). \<forall>s. pc_string e = Some s \<longrightarrow> pc_pattern e = f s (pc_case_matters e) (pc_dialect e)"
    using find_entry_spec [of cache f s cm d] assms unfolding cache_ok_def by blast
  with assms show ?thesis by (simp add: get_pattern_def cache_ok_def)
qed

interpretation patterns: memo "cache_ok f" "\<lambda>(s, cm, d). get_pattern f s cm d" "\<lambda>(s, cm, d). f s cm d"
  by unfold_locales (use get_pattern_spec in auto)

lemma setup_cache_ok: "cache_ok f setup_pattern_cache"
  by (simp add: cache_ok_def setup_pattern_cache_def)

subsection \<open>Matching and substituting\<close>

text \<open>What the matcher promises about a register: the group took no part, or its bytes are whole
  runes of the subject.\<close>

definition reg_ok :: "string \<Rightarrow> int \<times> int \<Rightarrow> bool" where
  "reg_ok subject r \<longleftrightarrow> r = (0, -1) \<or>
    (\<exists>us ms ws a m t. runes us a \<and> runes ms m \<and> runes ws t \<and> subject = a @ m @ t \<and>
       r = (int (length a) + 1, int (length a + length m)))"

definition group_text :: "string \<Rightarrow> int \<times> int \<Rightarrow> string" where
  "group_text subject r = take (nat (snd r - fst r + 1)) (drop (nat (fst r - 1)) subject)"

fun expand :: "(nat \<Rightarrow> string) \<Rightarrow> string \<Rightarrow> string option" where
  "expand grp [] = Some []"
| "expand grp (c # tmpl) =
    (if c \<noteq> CHR ''%'' then map_option (\<lambda>s. c # s) (expand grp tmpl)
     else case tmpl of [] \<Rightarrow> None
      | d # tmpl' \<Rightarrow>
         if d = CHR ''%'' then map_option (\<lambda>s. d # s) (expand grp tmpl')
         else if is_digit d then map_option (\<lambda>s. grp (nat (code d - 48)) @ s) (expand grp tmpl')
         else None)"

lemma runes_length: "runes us a \<Longrightarrow> length us \<le> length a"
proof -
  have "encode_runes us = Some a \<Longrightarrow> length us \<le> length a" for a
  proof (induction us arbitrary: a)
    case (Cons v us)
    then obtain bs t where e: "put_utf v = Some bs" "encode_runes us = Some t" "a = bs @ t"
      by (auto split: option.splits)
    then have "1 \<le> length bs" "length us \<le> length t"
      using put_utf_nonempty [of v bs] Cons.IH by (auto simp: Suc_le_eq)
    with e(3) show ?case by simp
  qed simp
  then show "runes us a \<Longrightarrow> length us \<le> length a" by (simp add: runes_def)
qed

lemma rebase_ok:
  assumes "reg_ok subject r" "int (length subject) < 2 ^ 31 - 1"
  shows "\<exists>i j. rebase_pair subject r = [VInt i, VInt j] \<and> is_int32 i \<and> is_int32 j \<and>
    \<not> invalid_pair i j (strlen_utf subject) \<and> sub_text subject (i, j) = group_text subject r"
  using assms(1) unfolding reg_ok_def
proof (elim disjE exE conjE)
  assume r: "r = (0, -1)"
  have "rebase_pair subject r = [VInt 0, VInt (-1)]" by (simp add: r rebase_pair_def match_rebase_def)
  moreover have "sub_text subject (0, -1) = []" by (simp add: sub_text_def Let_def to_int32_id is_int32_def)
  ultimately show ?thesis by (simp add: is_int32_def invalid_pair_def group_text_def r)
next
  fix us ms ws a m t
  assume h: "runes us a" "runes ms m" "runes ws t" "subject = a @ m @ t"
    "r = (int (length a) + 1, int (length a + length m))"
  have am: "runes (us @ ms) (a @ m)" using runes_append h by blast
  have all: "strlen_utf subject = int (length us + length ms + length ws)"
    "strlen_utf (m @ t) = int (length ms + length ws)" "strlen_utf t = int (length ws)"
    using runes_strlen [OF runes_append [OF am h(3)]] runes_strlen [OF runes_append [OF h(2,3)]]
      runes_strlen [OF h(3)] h(4) by simp_all
  have "nat (int (length a) + int (length m)) = length a + length m" by simp
  then have reb: "rebase_pair subject r = [VInt (int (length us) + 1), VInt (int (length us + length ms))]"
    using all h(4,5) by (simp add: rebase_pair_def match_rebase_def)
  have "int (length us + length ms) < 2 ^ 31 - 1"
    using runes_length [OF am] assms(2) h(4) by simp
  then have b: "is_int32 (int (length us) + 1)" "is_int32 (int (length us + length ms))"
    "to_int32 (int (length us)) = int (length us)" "to_int32 (int (length ms)) = int (length ms)"
    "to_int32 (int (length us + length ms) - 1) = int (length us + length ms) - 1"
    by (auto intro!: to_int32_id simp: is_int32_def)
  have "sub_text subject (int (length us) + 1, int (length us + length ms)) = m"
    using runes_skip [OF h(1), of "m @ t"] runes_skip [OF h(2), of t] b h(4)
    by (simp add: sub_text_def Let_def)
  moreover have "group_text subject r = m" by (simp add: group_text_def h(4,5))
  moreover have "\<not> invalid_pair (int (length us) + 1) (int (length us + length ms)) (strlen_utf subject)"
    using all(1) by (simp add: invalid_pair_def)
  ultimately show ?thesis using reb b(1,2) by auto
qed

definition match_value :: "string \<Rightarrow> (int \<times> int) list \<Rightarrow> var" where
  "match_value subject regs = VList (rebase_pair subject (regs ! 0) @
     [VList (map (\<lambda>r. VList (rebase_pair subject r)) (tl regs)), VStr subject])"

lemma match_value_check:
  assumes "length regs = 10" "\<forall>r \<in> set regs. reg_ok subject r" "int (length subject) < 2 ^ 31 - 1"
  shows "\<not> check_subs_list (match_value subject regs)"
    "k < 10 \<Longrightarrow> \<exists>p. sub_pair (match_value subject regs) k = Some p \<and>
      sub_text subject p = group_text subject (regs ! k)"
proof -
  have "regs ! 0 \<in> set regs" using assms(1) by simp
  then obtain i j where h: "rebase_pair subject (regs ! 0) = [VInt i, VInt j]" "is_int32 i" "is_int32 j"
    "\<not> invalid_pair i j (strlen_utf subject)" "sub_text subject (i, j) = group_text subject (regs ! 0)"
    using rebase_ok [of subject "regs ! 0"] assms(2,3) by blast
  have t: "\<not> bad_pair (strlen_utf subject) (VList (rebase_pair subject r))" if "r \<in> set (tl regs)" for r
  proof -
    have "r \<in> set regs" using that by (cases regs) auto
    then show ?thesis using rebase_ok [of subject r] assms(2,3) by (auto simp: bad_pair_def)
  qed
  show "\<not> check_subs_list (match_value subject regs)"
    using h(1-4) t assms(1) by (auto simp: match_value_def check_subs_list_def)
  assume k: "k < 10"
  show "\<exists>p. sub_pair (match_value subject regs) k = Some p \<and>
      sub_text subject p = group_text subject (regs ! k)"
  proof (cases k)
    case 0
    with h show ?thesis by (simp add: match_value_def sub_pair_def)
  next
    case (Suc n)
    then have n: "n < length (tl regs)" "tl regs ! n = regs ! k" "regs ! k \<in> set regs"
      using k assms(1) by (auto simp: nth_tl)
    then obtain i' j' where "rebase_pair subject (regs ! k) = [VInt i', VInt j']"
      "sub_text subject (i', j') = group_text subject (regs ! k)"
      using rebase_ok [of subject "regs ! k"] assms(2,3) by blast
    with n h(1) Suc show ?thesis by (simp add: match_value_def sub_pair_def)
  qed
qed

lemma substitute_expand:
  assumes "\<And>k. k < 10 \<Longrightarrow> \<exists>p. sub_pair subs k = Some p \<and> sub_text subject p = grp k"
  shows "substitute subs subject tmpl = Inr (expand grp tmpl)"
proof (induction tmpl rule: length_induct)
  case (1 tmpl)
  show ?case
  proof (cases tmpl)
    case (Cons c rest)
    show ?thesis
    proof (cases "c = CHR ''%''")
      case False
      then show ?thesis using 1 Cons by simp
    next
      case True
      show ?thesis
      proof (cases rest)
        case Nil
        then show ?thesis using Cons True by simp
      next
        case (Cons d rest')
        have ih: "substitute subs subject rest' = Inr (expand grp rest')"
          using 1 Cons \<open>tmpl = c # rest\<close> by simp
        have "\<exists>p. sub_pair subs (nat (code d - 48)) = Some p \<and> sub_text subject p = grp (nat (code d - 48))"
          if "is_digit d" using that by (intro assms) (auto simp: is_digit_def)
        then show ?thesis
          using ih True Cons \<open>tmpl = c # rest\<close> by (auto simp: is_digit_def)
      qed
    qed
  qed simp
qed

subsection \<open>Properties\<close>

text \<open>C17: lists used as sets: on values without duplicates up to \<open>equality\<close> without regard to case,
  \<open>setadd\<close> adds and \<open>setremove\<close> removes exactly the given value, and both keep the list free of
  duplicates; \<open>remove_duplicates\<close> makes any list free of duplicates and keeps its members.\<close>

theorem list_sets:
  assumes "user_value v" "values_ok l" "uniq l" "values_ok k"
  shows "(\<exists>r. setadd l v = Inr r \<and> uniq r \<and>
      (\<forall>w. no_nan w \<and> user_value w \<longrightarrow> occurs False w r = (occurs False w l \<or> var_eq False w v))) \<and>
    (\<exists>r. setremove l v = Inr r \<and> uniq r \<and>
      (\<forall>w. occurs False w r = (occurs False w l \<and> \<not> var_eq False w v))) \<and>
    (\<exists>r. remove_duplicates k = Inr r \<and> uniq r \<and> (\<forall>w. occurs False w r = occurs False w k))"
  using set_update [OF assms(1-3)] setadd_all_spec [OF assms(4), of "[]"]
  by (auto simp: remove_duplicates_def)

theorem list_sets_witness:
  "\<exists>r. remove_duplicates [VStr ''a'', VInt 1, VStr ''A''] = Inr r \<and> uniq r"
  using list_sets [of "VInt 1" "[]" "[VStr ''a'', VInt 1, VStr ''A'']"] by auto


text \<open>C19: \<open>listdelete\<close> and \<open>listset\<close> of the language check the position, all 64 bits of it, before the
  elements are touched: the calls end in \<open>E_RANGE\<close> or in the edited list, never outside the list
  (lists are shorter than 2^31).\<close>

theorem list_bounds_checked:
  assumes "int (length l) < 2 ^ 31"
  shows "bf_listdelete [VList l, VInt n] =
      (if 1 \<le> n \<and> n \<le> int (length l)
       then ret_list (take (nat (n - 1)) l @ drop (nat n) l) else Inr (make_error_pack E_RANGE)) \<and>
    bf_listset [VList l, v, VInt n] =
      (if 1 \<le> n \<and> n \<le> int (length l)
       then ret_list (l[nat (n - 1) := v]) else Inr (make_error_pack E_RANGE))"
proof (cases "1 \<le> n \<and> n \<le> int (length l)")
  case True
  then have "to_int32 n = n" using assms by (intro small_int32) auto
  with True show ?thesis by (simp add: bf_listdelete_def bf_listset_def listdelete_def listset_def)
next
  case False
  then show ?thesis by (auto simp: bf_listdelete_def bf_listset_def)
qed

theorem list_bounds_checked_witness:
  "bf_listdelete [VList [VInt 5], VInt (2 ^ 32 + 1)] = Inr (make_error_pack E_RANGE)"
  using list_bounds_checked [of "[VInt 5]" "2 ^ 32 + 1" "VInt 0"] by simp

text \<open>\<open>listappend\<close> and \<open>listinsert\<close> do not: the position loses its high half on the way, so a huge one
  means the front of the list and not its end.\<close>

theorem list_position_truncated:
  "bf_listappend [VList [VInt 1, VInt 2], VInt 9, VInt (2 ^ 32)] = ret_list [VInt 9, VInt 1, VInt 2] \<and>
   bf_listappend [VList [VInt 1, VInt 2], VInt 9, VInt (2 ^ 31)] = ret_list [VInt 9, VInt 1, VInt 2]"
proof -
  have "to_int32 (to_num (2 ^ 32 + 1)) = 1" "to_int32 (to_num (2 ^ 31 + 1)) = 1 - 2 ^ 31" by code_simp+
  then show ?thesis by (simp add: bf_listappend_def listinsert_def doinsert_def)
qed



text \<open>C21: \<open>encode_binary\<close> gives back the bytes \<open>decode_binary\<close> took apart, in both of its modes, and
  the list \<open>decode_binary\<close> allocates after its counting pass has room for exactly the elements of the
  filling pass.\<close>

theorem binary_list_roundtrip:
  assumes "binary_to_raw_bytes b = Some bytes"
  shows "(\<exists>r. bf_decode_binary [VStr b] = ret_list r \<and>
      bf_encode_binary [VList r] = make_var_pack (VStr (raw_bytes_to_binary bytes))) \<and>
    (\<exists>r. bf_decode_binary [VStr b, VInt 1] = ret_list r \<and>
      bf_encode_binary [VList r] = make_var_pack (VStr (raw_bytes_to_binary bytes)))"
  using assms count_decode [of "[]" False bytes] encode_decode_chunks [of False "[]" "[]" bytes]
    encode_codes [of "[]" bytes]
  by (auto simp: bf_decode_binary_def bf_encode_binary_def ret_list_def Let_def)

theorem binary_list_roundtrip_witness:
  "\<exists>r. bf_decode_binary [VStr ''hi~0d~0a''] = ret_list r \<and>
     bf_encode_binary [VList r] = make_var_pack (VStr ''hi~0d~0a'')"
proof -
  have "binary_to_raw_bytes ''hi~0d~0a'' = Some [CHR ''h'', CHR ''i'', CHR 0x0d, CHR 0x0a]" by code_simp
  moreover have "raw_bytes_to_binary [CHR ''h'', CHR ''i'', CHR 0x0d, CHR 0x0a] = ''hi~0d~0a''" by code_simp
  ultimately show ?thesis using binary_list_roundtrip [of "''hi~0d~0a''"] by auto
qed

text \<open>C22: the pattern cache is invisible: whatever patterns are asked for, in whatever order, from the
  empty cache on, each request gets what compiling the pattern gives, failures included.\<close>

theorem pattern_cache_transparent:
  "\<exists>c. patterns.ask_all f ks setup_pattern_cache = Some (map (\<lambda>(s, cm, d). f s cm d) ks, c) \<and> cache_ok f c"
  using patterns.ask_all_transparent [OF setup_cache_ok] .

text \<open>C23: what \<open>match\<close> returns is accepted by \<open>substitute\<close>, and there \<open>%0\<close> to \<open>%9\<close> stand for exactly the
  text of the groups; every other character stands for itself and any other use of \<open>%\<close> is
  \<open>E_INVARG\<close>. The matcher reports groups of whole runes or groups that took no part.\<close>

theorem match_then_substitute:
  assumes "cache_ok new_pattern cache" "new_pattern pat False d = Some p"
    and "match_pattern p subject back = MATCH_SUCCEEDED regs"
    and "length regs = 10" "\<forall>r \<in> set regs. reg_ok subject r" "int (length subject) < 2 ^ 31 - 1"
  shows "\<exists>ans c. do_match new_pattern match_pattern [VStr subject, VStr pat] back d cache = Inr (ans, c) \<and>
    bf_substitute [VStr tmpl, ans] =
      Inr (case expand (\<lambda>k. group_text subject (regs ! k)) tmpl of
         None \<Rightarrow> make_error_pack E_INVARG | Some s \<Rightarrow> make_var_pack (VStr s))"
proof -
  have 1: "\<exists>c. do_match new_pattern match_pattern [VStr subject, VStr pat] back d cache = Inr (match_value subject regs, c)"
    using get_pattern_spec [OF assms(1), of pat False d] assms(2-4)
    by (auto simp: do_match_def case_flag_def match_value_def)
  have "substitute (match_value subject regs) subject tmpl = Inr (expand (\<lambda>k. group_text subject (regs ! k)) tmpl)"
    by (rule substitute_expand) (use match_value_check(2) [OF assms(4-6)] in auto)
  moreover obtain x y z where "match_value subject regs = VList [x, y, z, VStr subject]"
    by (simp add: match_value_def rebase_pair_def)
  ultimately have 2: "bf_substitute [VStr tmpl, match_value subject regs] =
      Inr (case expand (\<lambda>k. group_text subject (regs ! k)) tmpl of
         None \<Rightarrow> make_error_pack E_INVARG | Some s \<Rightarrow> make_var_pack (VStr s))"
    using match_value_check(1) [OF assms(4-6)] by (simp add: bf_substitute_def split: option.split)
  show ?thesis using 1 2 by blast
qed

theorem match_then_substitute_witness:
  "\<exists>ans c. do_match (\<lambda>s cm d. Some s) (\<lambda>p s back. MATCH_SUCCEEDED ((2, 3) # replicate 9 (0, -1)))
      [VStr ''abcd'', VStr ''b.''] False 1 setup_pattern_cache = Inr (ans, c) \<and>
    bf_substitute [VStr ''<%0>'', ans] = Inr (make_var_pack (VStr ''<bc>''))"
proof -
  have "encode_runes [0x61] = Some ''a''" "encode_runes [0x62, 0x63] = Some ''bc''"
    "encode_runes [0x64] = Some ''d''" by code_simp+
  then have r: "runes [0x61] ''a''" "runes [0x62, 0x63] ''bc''" "runes [0x64] ''d''"
    by (simp_all add: runes_def is_int32_def)
  have "reg_ok ''abcd'' (2, 3)" unfolding reg_ok_def
    by (rule disjI2, (rule exI)+, rule conjI [OF r(1)], rule conjI [OF r(2)], rule conjI [OF r(3)]) simp
  then have "\<forall>r \<in> set ((2, 3) # replicate 9 (0, -1)). reg_ok ''abcd'' r"
    by (auto simp: reg_ok_def)
  moreover have "expand (\<lambda>k. group_text ''abcd'' (((2, 3) # replicate 9 (0, -1)) ! k)) ''<%0>'' = Some ''<bc>''"
    by (simp add: is_digit_def group_text_def numeral_2_eq_2)
  ultimately show ?thesis
    using match_then_substitute [OF setup_cache_ok, of "\<lambda>s cm d. Some s" "''b.''" 1 "''b.''"
        "\<lambda>p s back. MATCH_SUCCEEDED ((2, 3) # replicate 9 (0, -1))" "''abcd''" False
        "(2, 3) # replicate 9 (0, -1)" "''<%0>''"]
    by simp
qed

end
