(* ===== verification/Program.thy ===== *)
theory Program
  imports Printing
begin

text \<open>
  Compiled programs (\<open>program.h\<close>, \<open>program.c\<close>). A \<open>Program\<close> is immutable but for the cached line number
  and its reference count, which only decides when its memory is released.
\<close>

record bytecodes =
  numbytes_label :: nat
  numbytes_literal :: nat
  numbytes_fork :: nat
  numbytes_var_name :: nat
  numbytes_stack :: nat
  vector :: "8 word list"
  max_stack :: nat

record program =
  prog_version :: nat
  first_lineno :: nat
  main_vector :: bytecodes
  literals :: "var list"
  fork_vectors :: "bytecodes list"
  var_names :: "string list"
  cached_lineno :: nat
  cached_lineno_pc :: nat
  cached_lineno_vec :: int

definition MAIN_VECTOR :: int where "MAIN_VECTOR = -1"

text \<open>The sizes of the C structures on the target.\<close>

definition sizeof_Program :: int where "sizeof_Program = 104"
definition sizeof_Bytecodes :: int where "sizeof_Bytecodes = 24"
definition sizeof_pointer :: int where "sizeof_pointer = 8"

definition program_bytes :: "(nat \<Rightarrow> int) \<Rightarrow> program \<Rightarrow> int" where
  "program_bytes waif_bytes p =
    sizeof_Program + int (length (vector (main_vector p))) +
    sum_list (map (value_bytes waif_bytes) (literals p)) +
    sizeof_Bytecodes * int (length (fork_vectors p)) +
    sum_list (map (\<lambda>b. int (length (vector b))) (fork_vectors p)) +
    sizeof_pointer * int (length (var_names p)) +
    sum_list (map (\<lambda>s. int (length s) + 1) (var_names p))"

end
