(* ===== verification/DbObjects.thy ===== *)
theory DbObjects
  imports Lists Program "HOL-Library.Monad_Syntax"
begin

text \<open>
  The in-memory database and its objects (\<open>db_private.h\<close>, \<open>db_objects.c\<close>).

  The table \<open>objects\<close> is a list with \<open>None\<close> for the null pointers of recycled objects; its length is
  \<open>num_objects\<close>. Operations on the database take it and return the changed one; \<open>None\<close> is a read
  through a null pointer or outside the table, or a loop over the links that never ends. Objects are linked into two
  forests, by \<open>parent\<close>, \<open>child\<close>, \<open>sibling\<close> and by \<open>location\<close>, \<open>contents\<close>, \<open>next\<close>; the code treats both alike, with
  macros, and \<open>hierarchy\<close> chooses between them here.
\<close>

subsection \<open>State\<close>

record pval =
  pv_var :: var
  pv_owner :: objid
  pv_perms :: int

record propdef =
  pd_name :: string
  pd_hash :: "32 word"

text \<open>Verbs are identified by their address: handles and the verb cache point at them.\<close>

record verbdef =
  v_addr :: nat
  v_name :: string
  v_program :: "program option"
  v_owner :: objid
  v_perms :: int
  v_prep :: int

record object =
  o_id :: objid
  o_owner :: objid
  o_location :: objid
  o_contents :: objid
  o_next :: objid
  o_parent :: objid
  o_child :: objid
  o_sibling :: objid
  o_name :: string
  o_flags :: int
  o_verbdefs :: "verbdef list"
  o_propdefs :: "propdef list"
  o_propdefs_max :: nat
  o_propval :: "pval list"
  o_waif_propdefs :: "propdef list option"

text \<open>An entry of the verb cache; its handle is the definer and the address of the verb, \<open>None\<close> for a
  lookup that failed.\<close>

record vc_entry =
  vc_hash :: "32 word"
  vc_oid_key :: objid
  vc_verbname :: string
  vc_h :: "(objid \<times> nat) option"

record db =
  objects :: "object option list"
  max_objects :: nat
  all_users :: "var list"
  vc_table :: "vc_entry list list option"
  db_verb_generation :: int
  verbcache_hit :: int
  verbcache_neg_hit :: int
  verbcache_miss :: int
  next_addr :: nat

definition FLAG_USER :: nat where "FLAG_USER = 0"
definition FLAG_PROGRAMMER :: nat where "FLAG_PROGRAMMER = 1"
definition FLAG_WIZARD :: nat where "FLAG_WIZARD = 2"
definition FLAG_READ :: nat where "FLAG_READ = 4"
definition FLAG_WRITE :: nat where "FLAG_WRITE = 5"
definition FLAG_FERTILE :: nat where "FLAG_FERTILE = 7"

lemmas flag_defs = FLAG_USER_def FLAG_PROGRAMMER_def FLAG_WIZARD_def FLAG_READ_def FLAG_WRITE_def
  FLAG_FERTILE_def

subsection \<open>Access\<close>

definition dbpriv_find_object :: "db \<Rightarrow> objid \<Rightarrow> object option" where
  "dbpriv_find_object db oid =
    (if oid < 0 \<or> oid \<ge> int (length (objects db)) then None else objects db ! nat oid)"

definition valid :: "db \<Rightarrow> objid \<Rightarrow> bool" where
  "valid db oid \<longleftrightarrow> dbpriv_find_object db oid \<noteq> None"

text \<open>\<open>objects[oid]->field = ...\<close>\<close>

definition set_object :: "objid \<Rightarrow> object option \<Rightarrow> db \<Rightarrow> db" where
  "set_object oid x db = db\<lparr>objects := (objects db)[nat oid := x]\<rparr>"

definition modify :: "objid \<Rightarrow> (object \<Rightarrow> object) \<Rightarrow> db \<Rightarrow> db option" where
  "modify oid f db = (do {
     x \<leftarrow> dbpriv_find_object db oid;
     Some (set_object oid (Some (f x)) db)
   })"

definition db_last_used_objid :: "db \<Rightarrow> objid" where
  "db_last_used_objid db = int (length (objects db)) - 1"

text \<open>The loop reads \<open>objects[-1]\<close> when no object is left.\<close>

fun strip_recycled :: "'a option list \<Rightarrow> 'a option list option" where
  "strip_recycled [] = None"
| "strip_recycled (x # xs) = (if x = None then strip_recycled xs else Some (x # xs))"

definition db_reset_last_used_objid :: "db \<Rightarrow> db option" where
  "db_reset_last_used_objid db =
    map_option (\<lambda>xs. db\<lparr>objects := rev xs\<rparr>) (strip_recycled (rev (objects db)))"

definition ensure_new_object :: "db \<Rightarrow> db" where
  "ensure_new_object db =
    (let db = (if max_objects db = 0 then db\<lparr>max_objects := 100\<rparr> else db) in
     if length (objects db) \<ge> max_objects db then db\<lparr>max_objects := 2 * max_objects db\<rparr> else db)"

text \<open>Adding an object to the table writes one slot, which the table must have.\<close>

definition push_object :: "object option \<Rightarrow> db \<Rightarrow> db option" where
  "push_object x db =
    (let db = ensure_new_object db in
     if length (objects db) < max_objects db then Some (db\<lparr>objects := objects db @ [x]\<rparr>) else None)"

definition dbpriv_new_recycled_object :: "db \<Rightarrow> db option" where
  "dbpriv_new_recycled_object db = push_object None db"

text \<open>\<open>db_create_object\<close> leaves the owner as it finds it in the fresh memory, \<open>owner0\<close>.\<close>

definition db_create_object :: "objid \<Rightarrow> db \<Rightarrow> (objid \<times> db) option" where
  "db_create_object owner0 db =
    (let oid = int (length (objects db)) in
     map_option (\<lambda>db. (oid, db)) (push_object (Some
      \<lparr>o_id = oid, o_owner = owner0, o_location = NOTHING, o_contents = NOTHING, o_next = NOTHING,
       o_parent = NOTHING, o_child = NOTHING, o_sibling = NOTHING, o_name = [], o_flags = 0,
       o_verbdefs = [], o_propdefs = [], o_propdefs_max = 0, o_propval = [], o_waif_propdefs = None\<rparr>) db))"

subsection \<open>Attributes\<close>

definition db_object_owner :: "db \<Rightarrow> objid \<Rightarrow> objid option" where
  "db_object_owner db oid = map_option o_owner (dbpriv_find_object db oid)"

definition db_set_object_owner :: "objid \<Rightarrow> objid \<Rightarrow> db \<Rightarrow> db option" where
  "db_set_object_owner oid owner db = modify oid (\<lambda>x. x\<lparr>o_owner := owner\<rparr>) db"

definition db_object_name :: "db \<Rightarrow> objid \<Rightarrow> string option" where
  "db_object_name db oid = map_option o_name (dbpriv_find_object db oid)"

definition db_set_object_name :: "objid \<Rightarrow> string \<Rightarrow> db \<Rightarrow> db option" where
  "db_set_object_name oid name db = modify oid (\<lambda>x. x\<lparr>o_name := name\<rparr>) db"

definition db_object_parent :: "db \<Rightarrow> objid \<Rightarrow> objid option" where
  "db_object_parent db oid = map_option o_parent (dbpriv_find_object db oid)"

definition db_object_location :: "db \<Rightarrow> objid \<Rightarrow> objid option" where
  "db_object_location db oid = map_option o_location (dbpriv_find_object db oid)"

definition db_object_has_flag :: "db \<Rightarrow> objid \<Rightarrow> nat \<Rightarrow> bool option" where
  "db_object_has_flag db oid f = map_option (\<lambda>x. (o_flags x AND push_bit f 1) \<noteq> 0) (dbpriv_find_object db oid)"

definition is_wizard :: "db \<Rightarrow> objid \<Rightarrow> bool" where
  "is_wizard db oid \<longleftrightarrow> db_object_has_flag db oid FLAG_WIZARD = Some True"

definition is_programmer :: "db \<Rightarrow> objid \<Rightarrow> bool" where
  "is_programmer db oid \<longleftrightarrow> db_object_has_flag db oid FLAG_PROGRAMMER = Some True"

definition is_user :: "db \<Rightarrow> objid \<Rightarrow> bool" where
  "is_user db oid \<longleftrightarrow> db_object_has_flag db oid FLAG_USER = Some True"

definition db_object_allows :: "db \<Rightarrow> objid \<Rightarrow> objid \<Rightarrow> nat \<Rightarrow> bool option" where
  "db_object_allows db oid progr f = (do {
     owner \<leftarrow> db_object_owner db oid;
     flag \<leftarrow> db_object_has_flag db oid f;
     Some (progr = owner \<or> is_wizard db progr \<or> flag)
   })"

text \<open>The list of all users is a list of object numbers, so \<open>setadd\<close> and \<open>setremove\<close> cannot panic.\<close>

definition the_list :: "var list res \<Rightarrow> var list option" where
  "the_list r = (case r of Inl _ \<Rightarrow> None | Inr l \<Rightarrow> Some l)"

definition db_set_object_flag :: "objid \<Rightarrow> nat \<Rightarrow> db \<Rightarrow> db option" where
  "db_set_object_flag oid f db = (do {
     db \<leftarrow> modify oid (\<lambda>x. x\<lparr>o_flags := o_flags x OR push_bit f 1\<rparr>) db;
     if f = FLAG_USER
     then map_option (\<lambda>us. db\<lparr>all_users := us\<rparr>) (the_list (setadd (all_users db) (VObj oid)))
     else Some db
   })"

definition db_clear_object_flag :: "objid \<Rightarrow> nat \<Rightarrow> db \<Rightarrow> db option" where
  "db_clear_object_flag oid f db = (do {
     db \<leftarrow> modify oid (\<lambda>x. x\<lparr>o_flags := o_flags x AND (NOT (push_bit f 1))\<rparr>) db;
     if f = FLAG_USER
     then map_option (\<lambda>us. db\<lparr>all_users := us\<rparr>) (the_list (setremove (all_users db) (VObj oid)))
     else Some db
   })"

definition dbpriv_set_all_users :: "var list \<Rightarrow> db \<Rightarrow> db" where
  "dbpriv_set_all_users v db = db\<lparr>all_users := v\<rparr>"

subsection \<open>The two hierarchies\<close>

datatype hierarchy = Children | Contents

fun up :: "hierarchy \<Rightarrow> object \<Rightarrow> objid" where
  "up Children x = o_parent x"
| "up Contents x = o_location x"

fun first :: "hierarchy \<Rightarrow> object \<Rightarrow> objid" where
  "first Children x = o_child x"
| "first Contents x = o_contents x"

fun nxt :: "hierarchy \<Rightarrow> object \<Rightarrow> objid" where
  "nxt Children x = o_sibling x"
| "nxt Contents x = o_next x"

fun set_up :: "hierarchy \<Rightarrow> objid \<Rightarrow> object \<Rightarrow> object" where
  "set_up Children y x = x\<lparr>o_parent := y\<rparr>"
| "set_up Contents y x = x\<lparr>o_location := y\<rparr>"

fun set_first :: "hierarchy \<Rightarrow> objid \<Rightarrow> object \<Rightarrow> object" where
  "set_first Children y x = x\<lparr>o_child := y\<rparr>"
| "set_first Contents y x = x\<lparr>o_contents := y\<rparr>"

fun set_nxt :: "hierarchy \<Rightarrow> objid \<Rightarrow> object \<Rightarrow> object" where
  "set_nxt Children y x = x\<lparr>o_sibling := y\<rparr>"
| "set_nxt Contents y x = x\<lparr>o_next := y\<rparr>"

text \<open>The loops over a list of siblings: \<open>chain\<close> collects the objects it passes. \<open>db_for_all_children\<close> and
  \<open>db_for_all_contents\<close> call a function on them until one returns true.\<close>

partial_function (option) chain :: "hierarchy \<Rightarrow> db \<Rightarrow> objid \<Rightarrow> objid list option" where
  "chain h db c =
    (if c = NOTHING then Some []
     else do {
       x \<leftarrow> dbpriv_find_object db c;
       cs \<leftarrow> chain h db (nxt h x);
       Some (c # cs)
     })"

declare chain.simps [code]

definition listing :: "hierarchy \<Rightarrow> db \<Rightarrow> objid \<Rightarrow> objid list option" where
  "listing h db oid = (do {
     x \<leftarrow> dbpriv_find_object db oid;
     chain h db (first h x)
   })"

definition db_count_children :: "db \<Rightarrow> objid \<Rightarrow> nat option" where
  "db_count_children db oid = map_option length (listing Children db oid)"

definition db_count_contents :: "db \<Rightarrow> objid \<Rightarrow> nat option" where
  "db_count_contents db oid = map_option length (listing Contents db oid)"

fun for_all :: "('s \<Rightarrow> objid \<Rightarrow> bool \<times> 's) \<Rightarrow> 's \<Rightarrow> objid list \<Rightarrow> bool \<times> 's" where
  "for_all func data [] = (False, data)"
| "for_all func data (c # cs) = (case func data c of
     (stop, data) \<Rightarrow> if stop then (True, data) else for_all func data cs)"

definition db_for_all_children :: "db \<Rightarrow> objid \<Rightarrow> ('s \<Rightarrow> objid \<Rightarrow> bool \<times> 's) \<Rightarrow> 's \<Rightarrow> (bool \<times> 's) option" where
  "db_for_all_children db oid func data = map_option (for_all func data) (listing Children db oid)"

definition db_for_all_contents :: "db \<Rightarrow> objid \<Rightarrow> ('s \<Rightarrow> objid \<Rightarrow> bool \<times> 's) \<Rightarrow> 's \<Rightarrow> (bool \<times> 's) option" where
  "db_for_all_contents db oid func data = map_option (for_all func data) (listing Contents db oid)"

text \<open>The macros \<open>LL_REMOVE\<close> and \<open>LL_APPEND\<close>.\<close>

partial_function (option) unlink_after :: "hierarchy \<Rightarrow> objid \<Rightarrow> objid \<Rightarrow> objid \<Rightarrow> db \<Rightarrow> db option" where
  "unlink_after h lid what next_of_what db =
    (if lid = NOTHING then Some db
     else do {
       x \<leftarrow> dbpriv_find_object db lid;
       if nxt h x = what then modify lid (set_nxt h next_of_what) db
       else unlink_after h (nxt h x) what next_of_what db
     })"

declare unlink_after.simps [code]

definition ll_remove :: "hierarchy \<Rightarrow> objid \<Rightarrow> objid \<Rightarrow> db \<Rightarrow> db option" where
  "ll_remove h from what db = (do {
     f \<leftarrow> dbpriv_find_object db from;
     w \<leftarrow> dbpriv_find_object db what;
     db \<leftarrow> (if first h f = what then modify from (set_first h (nxt h w)) db
            else unlink_after h (first h f) what (nxt h w) db);
     modify what (set_nxt h NOTHING) db
   })"

partial_function (option) link_last :: "hierarchy \<Rightarrow> objid \<Rightarrow> objid \<Rightarrow> db \<Rightarrow> db option" where
  "link_last h lid what db = (do {
     x \<leftarrow> dbpriv_find_object db lid;
     if nxt h x \<noteq> NOTHING then link_last h (nxt h x) what db
     else modify lid (set_nxt h what) db
   })"

declare link_last.simps [code]

definition ll_append :: "hierarchy \<Rightarrow> objid \<Rightarrow> objid \<Rightarrow> db \<Rightarrow> db option" where
  "ll_append h to what db = (do {
     t \<leftarrow> dbpriv_find_object db to;
     db \<leftarrow> (if first h t = NOTHING then modify to (set_first h what) db
            else link_last h (first h t) what db);
     modify what (set_nxt h NOTHING) db
   })"

definition db_change_location :: "objid \<Rightarrow> objid \<Rightarrow> db \<Rightarrow> db option" where
  "db_change_location oid location db = (do {
     x \<leftarrow> dbpriv_find_object db oid;
     let old_location = o_location x;
     db \<leftarrow> (if valid db old_location then ll_remove Contents old_location oid db else Some db);
     db \<leftarrow> (if valid db location then ll_append Contents location oid db else Some db);
     modify oid (\<lambda>x. x\<lparr>o_location := location\<rparr>) db
   })"

subsection \<open>Flushing the verb cache, and destroying an object\<close>

definition db_priv_affected_callable_verb_lookup :: "db \<Rightarrow> db" where
  "db_priv_affected_callable_verb_lookup db = (case vc_table db of
     None \<Rightarrow> db
   | Some buckets \<Rightarrow> db\<lparr>db_verb_generation := db_verb_generation db + 1,
                       vc_table := Some (map (\<lambda>_. []) buckets)\<rparr>)"

definition db_destroy_object :: "objid \<Rightarrow> db \<Rightarrow> db res" where
  "db_destroy_object oid db =
    (let db = db_priv_affected_callable_verb_lookup db in
     case dbpriv_find_object db oid of
       None \<Rightarrow> Inl (Panic ''DB_DESTROY_OBJECT: Invalid object!'')
     | Some x \<Rightarrow>
         if o_location x \<noteq> NOTHING \<or> o_contents x \<noteq> NOTHING \<or> o_parent x \<noteq> NOTHING \<or> o_child x \<noteq> NOTHING
         then Inl (Panic ''DB_DESTROY_OBJECT: Not a barren orphan!'')
         else if length (o_propval x) < length (o_propdefs x) then Inl Undefined
         else bind_res (if is_user db oid then setremove (all_users db) (VObj oid) else Inr (all_users db))
                (\<lambda>us. Inr (set_object oid None (db\<lparr>all_users := us\<rparr>))))"

subsection \<open>The table as a map\<close>

abbreviation heap :: "db \<Rightarrow> objid \<Rightarrow> object option" where
  "heap db \<equiv> dbpriv_find_object db"

lemma heap_NOTHING [simp]: "heap db NOTHING = None"
  by (simp add: dbpriv_find_object_def NOTHING_def)

lemma heap_Some_range: "heap db x = Some a \<Longrightarrow> 0 \<le> x \<and> x < int (length (objects db)) \<and> x \<noteq> NOTHING"
  by (auto simp: dbpriv_find_object_def NOTHING_def split: if_splits)

lemma heap_cong: "objects db' = objects db \<Longrightarrow> heap db' = heap db"
  by (intro ext) (simp add: dbpriv_find_object_def)

lemma heap_update [simp]:
  "heap (db\<lparr>max_objects := m\<rparr>) = heap db" "heap (db\<lparr>all_users := us\<rparr>) = heap db"
  "heap (db\<lparr>vc_table := t\<rparr>) = heap db" "heap (db\<lparr>db_verb_generation := n\<rparr>) = heap db"
  "heap (db\<lparr>next_addr := k\<rparr>) = heap db"
  "heap (db_priv_affected_callable_verb_lookup db) = heap db"
  by (rule heap_cong, simp add: db_priv_affected_callable_verb_lookup_def split: option.split)+

lemma heap_set_object:
  assumes "0 \<le> x" "x < int (length (objects db))"
  shows "heap (set_object x v db) = (heap db)(x := v)"
proof
  fix y
  show "heap (set_object x v db) y = ((heap db)(x := v)) y"
    using assms by (cases "y = x") (auto simp: dbpriv_find_object_def set_object_def nat_eq_iff)
qed

definition rest :: "db \<Rightarrow> db" where
  "rest db = db\<lparr>objects := []\<rparr>"

lemma set_object_rest [simp]:
  "rest (set_object x v db) = rest db" "length (objects (set_object x v db)) = length (objects db)"
  by (simp_all add: rest_def set_object_def)

lemma modify_None [simp]: "heap db x = None \<Longrightarrow> modify x f db = None"
  by (simp add: modify_def)

lemma modify_Some:
  assumes "heap db x = Some a"
  shows "modify x f db = Some (set_object x (Some (f a)) db)"
    "heap (set_object x (Some (f a)) db) = (heap db)(x \<mapsto> f a)"
  using assms heap_set_object heap_Some_range [OF assms] by (auto simp: modify_def)

lemma modify_ok:
  assumes "heap db x = Some a"
  shows "\<exists>db'. modify x f db = Some db' \<and> heap db' = (heap db)(x \<mapsto> f a) \<and> rest db' = rest db \<and>
    length (objects db') = length (objects db)"
  using modify_Some [OF assms] by simp

lemma NOTHING_neg: "NOTHING < 0" by (simp add: NOTHING_def)

lemma hierarchy_fields [simp]:
  "up h (set_first h y x) = up h x" "up h (set_nxt h y x) = up h x" "up h (set_up h y x) = y"
  "first h (set_first h y x) = y" "first h (set_nxt h y x) = first h x" "first h (set_up h y x) = first h x"
  "nxt h (set_first h y x) = nxt h x" "nxt h (set_nxt h y x) = y" "nxt h (set_up h y x) = nxt h x"
  by (cases h; simp)+

subsection \<open>Lists of siblings\<close>

fun path :: "hierarchy \<Rightarrow> (objid \<Rightarrow> object option) \<Rightarrow> objid \<Rightarrow> objid list \<Rightarrow> objid \<Rightarrow> bool" where
  "path h f a [] b \<longleftrightarrow> a = b"
| "path h f a (c # cs) b \<longleftrightarrow> a = c \<and> a \<noteq> NOTHING \<and> (\<exists>x. f c = Some x \<and> path h f (nxt h x) cs b)"

lemma path_append: "path h f a (xs @ ys) b \<longleftrightarrow> (\<exists>c. path h f a xs c \<and> path h f c ys b)"
  by (induction xs arbitrary: a) auto

lemma path_frame:
  "\<forall>c \<in> set cs. map_option (nxt h) (f' c) = map_option (nxt h) (f c) \<Longrightarrow> path h f a cs b \<Longrightarrow> path h f' a cs b"
proof (induction cs arbitrary: a)
  case (Cons c cs)
  then obtain x where x: "a = c" "a \<noteq> NOTHING" "f c = Some x" "path h f (nxt h x) cs b" by auto
  with Cons.prems(1) obtain x' where "f' c = Some x'" "nxt h x' = nxt h x" by auto
  with x Cons show ?case by auto
qed simp

lemma path_valid: "path h f a cs b \<Longrightarrow> c \<in> set cs \<Longrightarrow> \<exists>x. f c = Some x"
  by (induction cs arbitrary: a) auto

lemma chain_of_path: "path h (heap db) c cs NOTHING \<Longrightarrow> chain h db c = Some cs"
proof (induction cs arbitrary: c)
  case Nil
  then show ?case by (subst chain.simps) simp
next
  case (Cons d cs)
  then show ?case by (subst chain.simps) auto
qed

lemma path_of_chain: "chain h db c = Some cs \<Longrightarrow> path h (heap db) c cs NOTHING"
proof (rule chain.raw_induct [where P = "\<lambda>h db c cs. path h (heap db) c cs NOTHING"])
  fix f :: "hierarchy \<Rightarrow> db \<Rightarrow> objid \<Rightarrow> objid list option" and h db c r
  assume "\<And>h db c cs. f h db c = Some cs \<Longrightarrow> path h (heap db) c cs NOTHING"
    and "(if c = NOTHING then Some [] else heap db c \<bind> (\<lambda>x. f h db (nxt h x) \<bind> (\<lambda>cs. Some (c # cs)))) = Some r"
  then show "path h (heap db) c r NOTHING"
    by (auto split: if_splits Option.bind_splits)
qed

lemma chain_iff: "chain h db c = Some cs \<longleftrightarrow> path h (heap db) c cs NOTHING"
  using chain_of_path path_of_chain by blast

lemma path_end_unique: "path h f a xs NOTHING \<Longrightarrow> path h f a ys NOTHING \<Longrightarrow> xs = ys"
proof (induction xs arbitrary: a ys)
  case Nil
  then show ?case by (cases ys) auto
next
  case (Cons x xs)
  then show ?case by (cases ys) auto
qed

text \<open>Everything but the links a list operation may change.\<close>

definition core :: "hierarchy \<Rightarrow> object \<Rightarrow> object" where
  "core h x = set_first h 0 (set_nxt h 0 x)"

lemma core_set [simp]: "core h (set_first h y x) = core h x" "core h (set_nxt h y x) = core h x"
  by (cases h; simp add: core_def)+

definition relinked :: "hierarchy \<Rightarrow> db \<Rightarrow> db \<Rightarrow> bool" where
  "relinked h db db' \<longleftrightarrow> rest db' = rest db \<and> length (objects db') = length (objects db) \<and>
    (\<forall>x. map_option (core h) (heap db' x) = map_option (core h) (heap db x))"

lemma relinked_refl [simp]: "relinked h db db"
  by (simp add: relinked_def)

lemma relinked_trans: "relinked h a b \<Longrightarrow> relinked h b c \<Longrightarrow> relinked h a c"
  by (simp add: relinked_def)

lemma modify_link:
  assumes "heap db x = Some a" "core h (g a) = core h a"
  shows "\<exists>db'. modify x g db = Some db' \<and> heap db' = (heap db)(x \<mapsto> g a) \<and> relinked h db db'"
  using modify_ok [OF assms(1), of g] assms by (auto simp: relinked_def)

lemma relinked_valid: "relinked h db db' \<Longrightarrow> heap db x = Some a \<Longrightarrow> \<exists>b. heap db' x = Some b \<and> core h b = core h a"
  by (simp add: relinked_def) (metis map_option_eq_Some option.simps(9))

lemma relinked_None: "relinked h db db' \<Longrightarrow> heap db x = None \<Longrightarrow> heap db' x = None"
  by (simp add: relinked_def) (metis option.map_disc_iff)

lemma unlink_after_spec:
  assumes "path h (heap db) a (us @ u # w # ws) NOTHING" "w \<notin> set us" "w \<noteq> u" "heap db u = Some x"
  shows "unlink_after h a w n db = modify u (set_nxt h n) db"
  using assms
proof (induction us arbitrary: a)
  case Nil
  then have "nxt h x = w" "a = u" "u \<noteq> NOTHING" by auto
  with Nil.prems(4) show ?case by (subst unlink_after.simps) simp
next
  case (Cons v us)
  then obtain y where y: "a = v" "v \<noteq> NOTHING" "heap db v = Some y"
    "path h (heap db) (nxt h y) (us @ u # w # ws) NOTHING" by auto
  have "nxt h y \<noteq> w"
    using y(4) Cons.prems(2,3) by (cases us) auto
  with y Cons show ?case by (subst unlink_after.simps) simp
qed

lemma link_last_spec:
  assumes "path h (heap db) a (us @ [u]) NOTHING"
  shows "link_last h a w db = modify u (set_nxt h w) db"
  using assms
proof (induction us arbitrary: a)
  case Nil
  then show ?case by (subst link_last.simps) auto
next
  case (Cons v us)
  then obtain y where y: "a = v" "heap db v = Some y" "path h (heap db) (nxt h y) (us @ [u]) NOTHING" by auto
  have "nxt h y \<noteq> NOTHING" using y(3) by (cases us) auto
  with y Cons.IH show ?case by (subst link_last.simps) simp
qed

text \<open>All lists of a hierarchy at once: \<open>K p\<close> is the list of \<open>p\<close>.\<close>

definition lists_ok :: "hierarchy \<Rightarrow> db \<Rightarrow> (objid \<Rightarrow> objid list) \<Rightarrow> bool" where
  "lists_ok h db K \<longleftrightarrow>
    (\<forall>p a. heap db p = Some a \<longrightarrow> path h (heap db) (first h a) (K p) NOTHING \<and> distinct (K p)) \<and>
    (\<forall>p q. valid db p \<and> valid db q \<and> p \<noteq> q \<longrightarrow> set (K p) \<inter> set (K q) = {})"

lemma lists_okD:
  "lists_ok h db K \<Longrightarrow> heap db p = Some a \<Longrightarrow> path h (heap db) (first h a) (K p) NOTHING"
  "lists_ok h db K \<Longrightarrow> heap db p = Some a \<Longrightarrow> distinct (K p)"
  by (auto simp: lists_ok_def)

lemma valid_heap: "valid db x \<longleftrightarrow> (\<exists>a. heap db x = Some a)"
  by (auto simp: valid_def)

text \<open>Replacing one list: the new one is read off the changed heap, and nothing changed in the others.\<close>

lemma lists_ok_update:
  assumes "lists_ok h db K" "relinked h db db'" "heap db' p = Some a"
    and "path h (heap db') (first h a) ks NOTHING" "distinct ks"
    and "\<And>q. q \<noteq> p \<Longrightarrow> valid db q \<Longrightarrow> set ks \<inter> set (K q) = {} \<and>
      map_option (first h) (heap db' q) = map_option (first h) (heap db q) \<and>
      (\<forall>c \<in> set (K q). map_option (nxt h) (heap db' c) = map_option (nxt h) (heap db c))"
  shows "lists_ok h db' (K(p := ks))"
proof -
  have v: "valid db' q = valid db q" for q
    using relinked_valid [OF assms(2), of q] relinked_None [OF assms(2), of q]
    by (cases "heap db q") (auto simp: valid_def)
  have others: "path h (heap db') (first h b) (K q) NOTHING \<and> distinct (K q)"
    if "heap db' q = Some b" "q \<noteq> p" for q b
  proof -
    have "valid db q" using that v by (auto simp: valid_def)
    then obtain c where c: "heap db q = Some c" by (auto simp: valid_heap)
    note o = assms(6) [OF that(2) \<open>valid db q\<close>]
    have f: "first h b = first h c" using o that(1) c by simp
    have "path h (heap db) (first h c) (K q) NOTHING \<and> distinct (K q)"
      using assms(1) c unfolding lists_ok_def by blast
    with o f show ?thesis by (metis path_frame)
  qed
  have disj: "set ((K(p := ks)) q) \<inter> set ((K(p := ks)) r) = {}" if "valid db q" "valid db r" "q \<noteq> r" for q r
  proof -
    have "set (K q) \<inter> set (K r) = {}" using assms(1) that by (simp add: lists_ok_def)
    moreover have "r \<noteq> p \<Longrightarrow> set ks \<inter> set (K r) = {}" using assms(6) [of r] that by blast
    moreover have "q \<noteq> p \<Longrightarrow> set (K q) \<inter> set ks = {}" using assms(6) [of q] that by blast
    ultimately show ?thesis using that(3) by (cases "q = p"; cases "r = p") simp_all
  qed
  show ?thesis
    unfolding lists_ok_def v
  proof (intro conjI allI impI)
    fix q b assume "heap db' q = Some b"
    then have "path h (heap db') (first h b) ((K(p := ks)) q) NOTHING \<and> distinct ((K(p := ks)) q)"
      using others assms(3-5) by (cases "q = p") simp_all
    then show "path h (heap db') (first h b) ((K(p := ks)) q) NOTHING" "distinct ((K(p := ks)) q)"
      by blast+
  next
    fix q r assume "valid db q \<and> valid db r \<and> q \<noteq> r"
    then show "set ((K(p := ks)) q) \<inter> set ((K(p := ks)) r) = {}" using disj by blast
  qed
qed

text \<open>Taking an object out of a list.\<close>

lemma ll_remove_spec:
  assumes "lists_ok h db K" "heap db p = Some a" "K p = us @ w # ws"
  shows "\<exists>db'. ll_remove h p w db = Some db' \<and> lists_ok h db' (K(p := us @ ws)) \<and> relinked h db db'"
proof -
  have pth: "path h (heap db) (first h a) (us @ w # ws) NOTHING" and d: "distinct (us @ w # ws)"
    using lists_okD [OF assms(1,2)] assms(3) by simp_all
  obtain x where x: "heap db w = Some x" using path_valid [OF pth, of w] by auto
  have tl: "path h (heap db) (nxt h x) ws NOTHING"
    using pth x by (auto simp: path_append)
  have wne: "w \<noteq> NOTHING" using x by auto
  have old: "\<And>q. q \<noteq> p \<Longrightarrow> valid db q \<Longrightarrow> set (us @ w # ws) \<inter> set (K q) = {}"
    using assms unfolding lists_ok_def valid_heap by metis
  show ?thesis
  proof (cases us rule: rev_cases)
    case Nil
    then have fw: "first h a = w" using pth by simp
    obtain d1 where d1: "modify p (set_first h (nxt h x)) db = Some d1"
      "heap d1 = (heap db)(p \<mapsto> set_first h (nxt h x) a)" "relinked h db d1"
      using modify_link [OF assms(2), of h "set_first h (nxt h x)"] by auto
    obtain b where b: "heap d1 w = Some b" using relinked_valid [OF d1(3) x] by auto
    obtain d2 where d2: "modify w (set_nxt h NOTHING) d1 = Some d2"
      "heap d2 = (heap d1)(w \<mapsto> set_nxt h NOTHING b)" "relinked h d1 d2"
      using modify_link [OF b, of h "set_nxt h NOTHING"] by auto
    have rl: "relinked h db d2" using relinked_trans d1(3) d2(3) by blast
    have nx: "map_option (nxt h) (heap d2 c) = map_option (nxt h) (heap db c)" if "c \<noteq> w" for c
      using that assms(2) by (auto simp: d1(2) d2(2))
    have "\<exists>a'. heap d2 p = Some a' \<and> first h a' = nxt h x"
      using b by (cases "p = w") (auto simp: d1(2) d2(2))
    then obtain a' where a': "heap d2 p = Some a'" "first h a' = nxt h x" by blast
    have "path h (heap d2) (first h a') ws NOTHING"
      unfolding a'(2) by (intro path_frame [OF _ tl] ballI nx) (use d Nil in auto)
    moreover have "map_option (first h) (heap d2 q) = map_option (first h) (heap db q)" if "q \<noteq> p" for q
      using that x b by (auto simp: d1(2) d2(2) split: if_splits)
    moreover have "\<forall>c \<in> set (K q). c \<noteq> w" if "q \<noteq> p" "valid db q" for q
      using old [OF that] by auto
    ultimately have "lists_ok h d2 (K(p := ws))"
      using d old nx Nil by (intro lists_ok_update [OF assms(1) rl a'(1)] conjI ballI) auto
    then show ?thesis
      using d1(1) d2(1) rl assms(2) x fw Nil by (simp add: ll_remove_def)
  next
    case (snoc vs u)
    have fw: "first h a \<noteq> w" using pth d snoc by (cases vs) auto
    obtain y where y: "heap db u = Some y" using path_valid [OF pth, of u] snoc by auto
    have un: "unlink_after h (first h a) w (nxt h x) db = modify u (set_nxt h (nxt h x)) db"
      using pth d snoc y by (intro unlink_after_spec) auto
    obtain d1 where d1: "modify u (set_nxt h (nxt h x)) db = Some d1"
      "heap d1 = (heap db)(u \<mapsto> set_nxt h (nxt h x) y)" "relinked h db d1"
      using modify_link [OF y, of h "set_nxt h (nxt h x)"] by auto
    have uw: "u \<noteq> w" using d snoc by auto
    obtain d2 where d2: "modify w (set_nxt h NOTHING) d1 = Some d2"
      "heap d2 = (heap d1)(w \<mapsto> set_nxt h NOTHING x)" "relinked h d1 d2"
      using modify_link [of d1 w x h "set_nxt h NOTHING"] x uw d1(2) by auto
    have rl: "relinked h db d2" using relinked_trans d1(3) d2(3) by blast
    have nx: "map_option (nxt h) (heap d2 c) = map_option (nxt h) (heap db c)" if "c \<noteq> w" "c \<noteq> u" for c
      using that by (simp add: d1(2) d2(2))
    have fi: "map_option (first h) (heap d2 q) = map_option (first h) (heap db q)" for q
      using x y uw by (auto simp: d1(2) d2(2))
    then obtain a' where a': "heap d2 p = Some a'" "first h a' = first h a"
      using assms(2) by (metis (no_types, lifting) map_option_eq_Some option.simps(9))
    have "path h (heap db) (first h a) vs u"
      using pth snoc by (auto simp: path_append)
    then have "path h (heap d2) (first h a) vs u"
      by (rule path_frame [rotated], intro ballI nx) (use d snoc in auto)
    moreover have "path h (heap d2) (nxt h x) ws NOTHING"
      by (intro path_frame [OF _ tl] ballI nx) (use d snoc in auto)
    moreover have "heap d2 u = Some (set_nxt h (nxt h x) y)" "u \<noteq> NOTHING"
      using uw y by (auto simp: d1(2) d2(2))
    ultimately have "path h (heap d2) (first h a') (us @ ws) NOTHING"
      using snoc a'(2) by (auto simp: path_append)
    moreover have "\<forall>c \<in> set (K q). c \<noteq> w \<and> c \<noteq> u" if "q \<noteq> p" "valid db q" for q
      using old [OF that] snoc by auto
    ultimately have "lists_ok h d2 (K(p := us @ ws))"
      using d old nx fi snoc by (intro lists_ok_update [OF assms(1) rl a'(1)] conjI ballI) auto
    then show ?thesis
      using d1(1) d2(1) rl assms(2) x fw un by (auto simp: ll_remove_def)
  qed
qed

text \<open>Putting an object at the end of a list.\<close>

lemma ll_append_spec:
  assumes "lists_ok h db K" "heap db p = Some a" "heap db w = Some x"
    and "\<And>q. valid db q \<Longrightarrow> w \<notin> set (K q)"
  shows "\<exists>db'. ll_append h p w db = Some db' \<and> lists_ok h db' (K(p := K p @ [w])) \<and> relinked h db db'"
proof -
  have pth: "path h (heap db) (first h a) (K p) NOTHING" and d: "distinct (K p)"
    using lists_okD [OF assms(1,2)] by simp_all
  have wp: "w \<notin> set (K p)" using assms(2,4) by (auto simp: valid_heap)
  have old: "set (K p @ [w]) \<inter> set (K q) = {}" if "q \<noteq> p" "valid db q" for q
    using assms(1,2,4) that by (auto simp: lists_ok_def valid_heap)
  have wne: "w \<noteq> NOTHING" using assms(3) by auto
  show ?thesis
  proof (cases "K p" rule: rev_cases)
    case Nil
    then have fw: "first h a = NOTHING" using pth by simp
    obtain d1 where d1: "modify p (set_first h w) db = Some d1"
      "heap d1 = (heap db)(p \<mapsto> set_first h w a)" "relinked h db d1"
      using modify_link [OF assms(2), of h "set_first h w"] by auto
    obtain b where b: "heap d1 w = Some b" using relinked_valid [OF d1(3) assms(3)] by auto
    obtain d2 where d2: "modify w (set_nxt h NOTHING) d1 = Some d2"
      "heap d2 = (heap d1)(w \<mapsto> set_nxt h NOTHING b)" "relinked h d1 d2"
      using modify_link [OF b, of h "set_nxt h NOTHING"] by auto
    have rl: "relinked h db d2" using relinked_trans d1(3) d2(3) by blast
    have nx: "map_option (nxt h) (heap d2 c) = map_option (nxt h) (heap db c)" if "c \<noteq> w" for c
      using that assms(2) by (auto simp: d1(2) d2(2))
    have "\<exists>a'. heap d2 p = Some a' \<and> first h a' = w"
      using b by (cases "p = w") (auto simp: d1(2) d2(2))
    then obtain a' where a': "heap d2 p = Some a'" "first h a' = w" by blast
    have "path h (heap d2) (first h a') [w] NOTHING"
      using a' wne by (simp add: d2(2))
    moreover have "map_option (first h) (heap d2 q) = map_option (first h) (heap db q)" if "q \<noteq> p" for q
      using that assms(3) b by (auto simp: d1(2) d2(2) split: if_splits)
    moreover have "\<forall>c \<in> set (K q). c \<noteq> w" if "q \<noteq> p" "valid db q" for q
      using old [OF that] by auto
    ultimately have "lists_ok h d2 (K(p := [w]))"
      using old nx Nil by (intro lists_ok_update [OF assms(1) rl a'(1)] conjI ballI) auto
    then show ?thesis
      using d1(1) d2(1) rl assms(2) fw Nil by (simp add: ll_append_def)
  next
    case (snoc us u)
    then have fw: "first h a \<noteq> NOTHING" using pth by (cases us) auto
    obtain y where y: "heap db u = Some y" using path_valid [OF pth, of u] snoc by auto
    have ln: "link_last h (first h a) w db = modify u (set_nxt h w) db"
      using pth snoc by (intro link_last_spec) simp
    obtain d1 where d1: "modify u (set_nxt h w) db = Some d1"
      "heap d1 = (heap db)(u \<mapsto> set_nxt h w y)" "relinked h db d1"
      using modify_link [OF y, of h "set_nxt h w"] by auto
    have uw: "u \<noteq> w" using wp snoc by auto
    obtain d2 where d2: "modify w (set_nxt h NOTHING) d1 = Some d2"
      "heap d2 = (heap d1)(w \<mapsto> set_nxt h NOTHING x)" "relinked h d1 d2"
      using modify_link [of d1 w x h "set_nxt h NOTHING"] assms(3) uw d1(2) by auto
    have rl: "relinked h db d2" using relinked_trans d1(3) d2(3) by blast
    have nx: "map_option (nxt h) (heap d2 c) = map_option (nxt h) (heap db c)" if "c \<noteq> w" "c \<noteq> u" for c
      using that by (simp add: d1(2) d2(2))
    have fi: "map_option (first h) (heap d2 q) = map_option (first h) (heap db q)" for q
      using assms(3) y uw by (auto simp: d1(2) d2(2))
    then obtain a' where a': "heap d2 p = Some a'" "first h a' = first h a"
      using assms(2) by (metis (no_types, lifting) map_option_eq_Some option.simps(9))
    have "path h (heap db) (first h a) us u"
      using pth snoc by (auto simp: path_append)
    then have "path h (heap d2) (first h a) us u"
      by (rule path_frame [rotated], intro ballI nx) (use d wp snoc in auto)
    moreover have "heap d2 u = Some (set_nxt h w y)" "u \<noteq> NOTHING" "heap d2 w = Some (set_nxt h NOTHING x)"
      using uw y by (auto simp: d1(2) d2(2))
    ultimately have "path h (heap d2) (first h a') (K p @ [w]) NOTHING"
      using snoc a'(2) wne by (auto simp: path_append)
    moreover have "\<forall>c \<in> set (K q). c \<noteq> w \<and> c \<noteq> u" if "q \<noteq> p" "valid db q" for q
      using old [OF that] snoc by auto
    ultimately have "lists_ok h d2 (K(p := K p @ [w]))"
      using d wp old nx fi snoc by (intro lists_ok_update [OF assms(1) rl a'(1)] conjI ballI) auto
    then show ?thesis
      using d1(1) d2(1) rl assms(2) fw ln by (auto simp: ll_append_def)
  qed
qed

subsection \<open>Well-formed hierarchies\<close>

definition members :: "hierarchy \<Rightarrow> db \<Rightarrow> objid \<Rightarrow> objid set" where
  "members h db p = {x. \<exists>a. heap db x = Some a \<and> up h a = p}"

definition parents_rel :: "hierarchy \<Rightarrow> db \<Rightarrow> (objid \<times> objid) set" where
  "parents_rel h db = {(x, p). p \<noteq> NOTHING \<and> x \<in> members h db p}"

text \<open>The forest: every object's superior is an object or nothing, the list of an object has exactly its
  inferiors, each once, and no object is above itself.\<close>

definition hier_ok :: "hierarchy \<Rightarrow> db \<Rightarrow> bool" where
  "hier_ok h db \<longleftrightarrow>
    (\<forall>x a. heap db x = Some a \<longrightarrow> up h a = NOTHING \<or> valid db (up h a)) \<and>
    (\<forall>p. valid db p \<longrightarrow> (\<exists>cs. listing h db p = Some cs \<and> distinct cs \<and> set cs = members h db p)) \<and>
    acyclic (parents_rel h db)"

definition K_of :: "hierarchy \<Rightarrow> db \<Rightarrow> objid \<Rightarrow> objid list" where
  "K_of h db p = the (listing h db p)"

lemma hier_lists:
  assumes "hier_ok h db"
  shows "lists_ok h db (K_of h db)" "valid db p \<Longrightarrow> set (K_of h db p) = members h db p"
    "valid db p \<Longrightarrow> listing h db p = Some (K_of h db p)"
proof -
  have l: "\<exists>cs. listing h db p = Some cs \<and> K_of h db p = cs \<and> distinct cs \<and> set cs = members h db p"
    if "valid db p" for p
    using assms that by (auto simp: hier_ok_def K_of_def)
  then show "valid db p \<Longrightarrow> set (K_of h db p) = members h db p"
    "valid db p \<Longrightarrow> listing h db p = Some (K_of h db p)" by fastforce+
  show "lists_ok h db (K_of h db)"
    unfolding lists_ok_def
  proof (intro conjI allI impI)
    fix p a assume a: "heap db p = Some a"
    then have "valid db p" by (simp add: valid_heap)
    with l obtain cs where "listing h db p = Some cs" "K_of h db p = cs" "distinct cs" by blast
    with a show "path h (heap db) (first h a) (K_of h db p) NOTHING" "distinct (K_of h db p)"
      by (simp_all add: listing_def chain_iff)
  next
    fix p q assume "valid db p \<and> valid db q \<and> p \<noteq> q"
    with l show "set (K_of h db p) \<inter> set (K_of h db q) = {}"
      by (fastforce simp: members_def)
  qed
qed

lemma hier_intro:
  assumes "lists_ok h db K" "\<And>p. valid db p \<Longrightarrow> set (K p) = members h db p"
    and "\<And>x a. heap db x = Some a \<Longrightarrow> up h a = NOTHING \<or> valid db (up h a)" "acyclic (parents_rel h db)"
  shows "hier_ok h db" "valid db p \<Longrightarrow> listing h db p = Some (K p)"
proof -
  have l: "listing h db p = Some (K p) \<and> distinct (K p)" if "valid db p" for p
    using that lists_okD [OF assms(1), of p] by (auto simp: valid_heap listing_def chain_iff)
  then show "valid db p \<Longrightarrow> listing h db p = Some (K p)" by blast
  show "hier_ok h db" using l assms unfolding hier_ok_def by blast
qed

text \<open>A hierarchy only depends on its own three links.\<close>

definition links :: "hierarchy \<Rightarrow> object \<Rightarrow> objid \<times> objid \<times> objid" where
  "links h a = (up h a, first h a, nxt h a)"

definition same_links :: "hierarchy \<Rightarrow> db \<Rightarrow> db \<Rightarrow> bool" where
  "same_links h db db' \<longleftrightarrow> (\<forall>y. map_option (links h) (heap db' y) = map_option (links h) (heap db y))"

lemma same_linksD:
  assumes "same_links h db db'" "heap db' y = Some b"
  shows "\<exists>a. heap db y = Some a \<and> up h a = up h b \<and> first h a = first h b \<and> nxt h a = nxt h b"
  using assms by (cases "heap db y") (auto simp: same_links_def links_def dest!: spec [of _ y])

lemma same_links_sym: "same_links h db db' \<Longrightarrow> same_links h db' db"
  by (simp add: same_links_def)

lemma same_links_path: "same_links h db db' \<Longrightarrow> path h (heap db) a cs b \<Longrightarrow> path h (heap db') a cs b"
proof (erule path_frame [rotated], rule ballI)
  fix c assume "same_links h db db'"
  then have "map_option (links h) (heap db' c) = map_option (links h) (heap db c)"
    by (simp add: same_links_def)
  then show "map_option (nxt h) (heap db' c) = map_option (nxt h) (heap db c)"
    by (cases "heap db' c"; cases "heap db c") (simp_all add: links_def)
qed

lemma same_links_listing1:
  assumes "same_links h db db'" "listing h db p = Some cs"
  shows "listing h db' p = Some cs"
proof -
  obtain a where a: "heap db p = Some a" "path h (heap db) (first h a) cs NOTHING"
    using assms(2) by (auto simp: listing_def chain_iff split: Option.bind_splits)
  obtain b where "heap db' p = Some b" "first h b = first h a"
    using same_linksD [OF same_links_sym [OF assms(1)] a(1)] by auto
  with a(2) same_links_path [OF assms(1)] show ?thesis by (auto simp: listing_def chain_iff)
qed

lemma same_links_hier:
  assumes "same_links h db db'"
  shows "hier_ok h db' = hier_ok h db" "listing h db' p = listing h db p"
    "members h db' = members h db" "valid db' = valid db" "parents_rel h db' = parents_rel h db"
proof -
  note s = assms same_links_sym [OF assms]
  show l: "listing h db' p = listing h db p" for p
    using same_links_listing1 [OF s(1), of p] same_links_listing1 [OF s(2), of p]
    by (cases "listing h db p"; cases "listing h db' p") auto
  show m: "members h db' = members h db"
    using same_linksD [OF s(1)] same_linksD [OF s(2)] by (fastforce simp: members_def)
  show v: "valid db' = valid db"
    using same_linksD [OF s(1)] same_linksD [OF s(2)] by (fastforce simp: valid_heap)
  show pr: "parents_rel h db' = parents_rel h db" by (simp add: parents_rel_def m)
  have "(\<forall>x a. heap db' x = Some a \<longrightarrow> up h a = NOTHING \<or> valid db (up h a)) =
    (\<forall>x a. heap db x = Some a \<longrightarrow> up h a = NOTHING \<or> valid db (up h a))"
    using same_linksD [OF s(1)] same_linksD [OF s(2)] by metis
  then show "hier_ok h db' = hier_ok h db" by (simp add: hier_ok_def l m v pr)
qed

lemma hier_up:
  assumes "hier_ok h db" "heap db x = Some a"
  shows "valid db (up h a) \<longleftrightarrow> up h a \<noteq> NOTHING"
  using assms by (auto simp: hier_ok_def valid_def)

lemma core_up: "core h a = core h b \<Longrightarrow> up h a = up h b"
  by (drule arg_cong [where f = "up h"]) (simp add: core_def)

lemma core_set_up: "core h (set_up h y b) = set_up h y (core h b)"
  by (cases h) (simp_all add: core_def)

text \<open>Moving an object from its place in a hierarchy to another.\<close>

lemma relocate:
  assumes ok: "hier_ok h db" and x: "heap db oid = Some x" and new: "new = NOTHING \<or> valid db new"
    and ac: "(new, oid) \<notin> (parents_rel h db)\<^sup>*"
  shows "\<exists>d1 d2 d3. (if up h x \<noteq> NOTHING then ll_remove h (up h x) oid db else Some db) = Some d1 \<and>
    (if new \<noteq> NOTHING then ll_append h new oid d1 else Some d1) = Some d2 \<and>
    modify oid (set_up h new) d2 = Some d3 \<and> relinked h db d1 \<and> hier_ok h d3 \<and>
    (\<forall>p. valid db p \<longrightarrow> listing h d3 p =
       Some (filter (\<lambda>c. c \<noteq> oid) (K_of h db p) @ (if p = new then [oid] else []))) \<and>
    rest d3 = rest db \<and> length (objects d3) = length (objects db) \<and>
    (\<forall>y. map_option (core h) (heap d3 y) =
       (if y = oid then Some (set_up h new (core h x)) else map_option (core h) (heap db y)))"
proof -
  let ?K = "K_of h db" and ?old = "up h x"
  let ?F = "\<lambda>p. filter (\<lambda>c. c \<noteq> oid) (?K p)"
  note L = hier_lists [OF ok]
  have mem: "oid \<in> set (?K p) \<longleftrightarrow> p = ?old" if "valid db p" for p
    using L(2) [OF that] x by (auto simp: members_def)
  have keep: "?F p = ?K p" if "valid db p" "p \<noteq> ?old" for p
    using mem [OF that(1)] that(2) by (metis (mono_tags, lifting) filter_True)
  have "\<exists>d1. (if ?old \<noteq> NOTHING then ll_remove h ?old oid db else Some db) = Some d1 \<and>
    relinked h db d1 \<and> (\<exists>K1. lists_ok h d1 K1 \<and> (\<forall>p. valid db p \<longrightarrow> K1 p = ?F p))"
  proof (cases "?old = NOTHING")
    case True
    then have "?K p = ?F p" if "valid db p" for p
      using keep [OF that] that by (cases "p = NOTHING") (simp_all add: valid_def)
    with True L(1) show ?thesis by (intro exI [of _ db]) auto
  next
    case False
    then have v: "valid db ?old" using hier_up [OF ok x] by simp
    then obtain a where a: "heap db ?old = Some a" by (auto simp: valid_heap)
    have "oid \<in> set (?K ?old)" using mem v by blast
    then obtain us ws where k: "?K ?old = us @ oid # ws" by (meson split_list)
    have "distinct (?K ?old)" using lists_okD(2) [OF L(1) a] .
    then have "filter (\<lambda>c. c \<noteq> oid) us = us" "filter (\<lambda>c. c \<noteq> oid) ws = ws"
      using k by (auto intro!: filter_True)
    then have f: "?F ?old = us @ ws" using k by simp
    obtain d1 where "ll_remove h ?old oid db = Some d1" "lists_ok h d1 (?K(?old := us @ ws))" "relinked h db d1"
      using ll_remove_spec [OF L(1) a k] by blast
    moreover have "\<forall>p. valid db p \<longrightarrow> (?K(?old := us @ ws)) p = ?F p"
      using keep f by auto
    ultimately show ?thesis using False by auto
  qed
  then obtain d1 K1 where d1: "(if ?old \<noteq> NOTHING then ll_remove h ?old oid db else Some db) = Some d1"
    "relinked h db d1" "lists_ok h d1 K1" "\<And>p. valid db p \<Longrightarrow> K1 p = ?F p" by blast
  have v1: "valid d1 p = valid db p" for p
    using relinked_valid [OF d1(2), of p] relinked_None [OF d1(2), of p]
    by (cases "heap db p") (auto simp: valid_def)
  have "\<exists>d2. (if new \<noteq> NOTHING then ll_append h new oid d1 else Some d1) = Some d2 \<and>
    relinked h d1 d2 \<and> lists_ok h d2 (if new \<noteq> NOTHING then K1(new := K1 new @ [oid]) else K1)"
  proof (cases "new = NOTHING")
    case True
    with d1(3) show ?thesis by auto
  next
    case False
    then obtain a where a: "heap d1 new = Some a" using new v1 by (auto simp: valid_heap)
    obtain b where b: "heap d1 oid = Some b" using relinked_valid [OF d1(2) x] by blast
    have "oid \<notin> set (K1 q)" if "valid d1 q" for q using that d1(4) v1 by simp
    from ll_append_spec [OF d1(3) a b this] False show ?thesis by auto
  qed
  then obtain d2 where d2: "(if new \<noteq> NOTHING then ll_append h new oid d1 else Some d1) = Some d2"
    "relinked h d1 d2" "lists_ok h d2 (if new \<noteq> NOTHING then K1(new := K1 new @ [oid]) else K1)" by blast
  let ?K2 = "if new \<noteq> NOTHING then K1(new := K1 new @ [oid]) else K1"
  have rl: "relinked h db d2" using relinked_trans d1(2) d2(2) by blast
  obtain b where b: "heap d2 oid = Some b" "core h b = core h x" using relinked_valid [OF rl x] by blast
  obtain d3 where d3: "modify oid (set_up h new) d2 = Some d3" "heap d3 = (heap d2)(oid \<mapsto> set_up h new b)"
    "rest d3 = rest d2" "length (objects d3) = length (objects d2)"
    using modify_ok [OF b(1)] by blast
  have core3: "map_option (core h) (heap d3 y) =
       (if y = oid then Some (set_up h new (core h x)) else map_option (core h) (heap db y))" for y
    using rl b(2) by (simp add: d3(2) relinked_def core_set_up)
  have v3: "valid d3 p = valid db p" for p
    using core3 [of p] x by (cases "heap d3 p"; cases "heap db p") (auto simp: valid_def split: if_splits)
  have K2: "?K2 p = ?F p @ (if p = new then [oid] else [])" if "valid db p" for p
    using d1(4) that by (auto simp: valid_def)
  have fn: "map_option (first h) (heap d3 y) = map_option (first h) (heap d2 y)"
    "map_option (nxt h) (heap d3 y) = map_option (nxt h) (heap d2 y)" for y
    using b(1) by (auto simp: d3(2))
  have L3: "lists_ok h d3 ?K2"
    unfolding lists_ok_def
  proof (intro conjI allI impI)
    fix p a assume a: "heap d3 p = Some a"
    then obtain a' where a': "heap d2 p = Some a'" "first h a' = first h a"
      using fn(1) [of p] by (cases "heap d2 p") auto
    show "distinct (?K2 p)" by (rule lists_okD(2) [OF d2(3) a'(1)])
    have "path h (heap d2) (first h a) (?K2 p) NOTHING" using lists_okD(1) [OF d2(3) a'(1)] a'(2) by simp
    then show "path h (heap d3) (first h a) (?K2 p) NOTHING"
      by (rule path_frame [rotated]) (simp add: fn(2))
  next
    fix p q assume "valid d3 p \<and> valid d3 q \<and> p \<noteq> q"
    moreover have "valid d2 r" if "valid d3 r" for r using that fn(1) [of r] by (cases "heap d2 r") (auto simp: valid_heap)
    ultimately show "set (?K2 p) \<inter> set (?K2 q) = {}"
      using d2(3) unfolding lists_ok_def by blast
  qed
  have up3: "map_option (up h) (heap d3 y) = (if y = oid then Some new else map_option (up h) (heap db y))" for y
    using core3 [of y] by (cases "heap d3 y"; cases "heap db y") (auto split: if_splits dest!: core_up simp: core_set_up [symmetric])
  have m3: "members h d3 p = members h db p - {oid} \<union> (if p = new then {oid} else {})" for p
  proof -
    have "y \<in> members h d3 p \<longleftrightarrow> map_option (up h) (heap d3 y) = Some p" for y by (auto simp: members_def)
    moreover have "y \<in> members h db p \<longleftrightarrow> map_option (up h) (heap db y) = Some p" for y by (auto simp: members_def)
    ultimately show ?thesis using up3 by (auto split: if_splits)
  qed
  have mem3: "set (?K2 p) = members h d3 p" if "valid d3 p" for p
    using that L(2) [of p] K2 [of p] by (auto simp: m3 v3)
  have up_ok: "up h a = NOTHING \<or> valid d3 (up h a)" if y: "heap d3 y = Some a" for y a
  proof (cases "y = oid")
    case True
    with y up3 [of y] new v3 show ?thesis by auto
  next
    case False
    then obtain b where "heap db y = Some b" "up h b = up h a"
      using up3 [of y] y by (cases "heap db y") auto
    with ok v3 show ?thesis by (metis hier_ok_def)
  qed
  have "parents_rel h d3 \<subseteq> insert (oid, new) (parents_rel h db)"
    by (auto simp: parents_rel_def m3 split: if_splits)
  moreover have "acyclic (insert (oid, new) (parents_rel h db))"
    using ok ac by (simp add: acyclic_insert hier_ok_def)
  ultimately have "acyclic (parents_rel h d3)" by (rule acyclic_subset [rotated])
  note H = hier_intro [OF L3 mem3 up_ok this]
  show ?thesis
    using d1(1,2) d2(1) d3(1,3,4) H rl core3 K2 v3
    by (intro exI [of _ d1] exI [of _ d2] exI [of _ d3]) (auto simp: relinked_def)
qed

lemma core_other: "core h a = core h b \<Longrightarrow> h' \<noteq> h \<Longrightarrow> links h' a = links h' b"
  by (cases h; cases h')
    (auto simp: core_def links_def dest: arg_cong [where f = o_location] arg_cong [where f = o_contents]
      arg_cong [where f = o_next] arg_cong [where f = o_parent] arg_cong [where f = o_child]
      arg_cong [where f = o_sibling])

lemma core_other_up: "h' \<noteq> h \<Longrightarrow> core h a = set_up h n (core h b) \<Longrightarrow> links h' a = links h' b"
proof -
  assume "core h a = set_up h n (core h b)" and h: "h' \<noteq> h"
  then have "core h a = core h (set_up h n b)" by (simp add: core_set_up)
  then have "links h' a = links h' (set_up h n b)" using h by (rule core_other)
  also have "\<dots> = links h' b" using h by (cases h; cases h') (simp_all add: links_def)
  finally show ?thesis .
qed

lemma relocated_cases:
  assumes "map_option (core h) (heap d y) =
       (if y = oid then Some (set_up h new (core h x)) else map_option (core h) (heap db y))"
    and "heap db oid = Some x"
  shows "heap d y = None \<and> heap db y = None \<or> (\<exists>a b. heap d y = Some a \<and> heap db y = Some b \<and>
    (core h a = core h b \<or> core h a = set_up h new (core h b)))"
proof (cases "y = oid")
  case True
  with assms obtain a where "heap d y = Some a" "core h a = set_up h new (core h x)" by auto
  with True assms(2) show ?thesis by blast
next
  case False
  with assms(1) show ?thesis by (cases "heap d y"; cases "heap db y") simp_all
qed

lemma relocated_map:
  assumes "map_option (core h) (heap d y) =
       (if y = oid then Some (set_up h new (core h x)) else map_option (core h) (heap db y))"
    and "heap db oid = Some x"
    and "\<And>a b. core h a = core h b \<Longrightarrow> F a = F b" "\<And>a b. core h a = set_up h new (core h b) \<Longrightarrow> F a = F b"
  shows "map_option F (heap d y) = map_option F (heap db y)"
  using relocated_cases [OF assms(1,2)]
proof (elim disjE exE conjE)
  fix a b assume h: "heap d y = Some a" "heap db y = Some b" "core h a = core h b"
  have "F a = F b" using h(3) by (rule assms(3))
  with h show ?thesis by simp
next
  fix a b assume h: "heap d y = Some a" "heap db y = Some b" "core h a = set_up h new (core h b)"
  have "F a = F b" using h(3) by (rule assms(4))
  with h show ?thesis by simp
qed simp

lemma relocated_other:
  assumes "\<forall>y. map_option (core h) (heap d y) =
       (if y = oid then Some (set_up h new (core h x)) else map_option (core h) (heap db y))"
    and "heap db oid = Some x" "h' \<noteq> h"
  shows "same_links h' db d"
  unfolding same_links_def
  by (intro allI relocated_map [OF assms(1) [THEN spec] assms(2)])
    (erule core_other core_other_up [rotated], rule assms(3))+

subsection \<open>Users\<close>

definition users_ok :: "db \<Rightarrow> bool" where
  "users_ok db \<longleftrightarrow> (\<exists>us. all_users db = map VObj us \<and> distinct us \<and> set us = {x. is_user db x})"

lemma values_ok_objs [simp]: "values_ok (map VObj us)"
  by (induction us) auto

lemma occurs_obj [simp]: "occurs cm (VObj x) (map VObj us) \<longleftrightarrow> x \<in> set us"
  by (induction us) auto

lemma setadd_objs: "setadd (map VObj us) (VObj x) = Inr (map VObj (if x \<in> set us then us else us @ [x]))"
  by (simp add: setadd_spec)

lemma setremove_objs:
  "distinct us \<Longrightarrow> setremove (map VObj us) (VObj x) = Inr (map VObj (filter (\<lambda>y. y \<noteq> x) us))"
proof (cases "x \<in> set us")
  case False
  then have "filter (\<lambda>y. y \<noteq> x) us = us" by (auto intro: filter_True)
  with False show ?thesis using setremove_spec [of "VObj x" "map VObj us"] by simp
next
  case True
  assume d: "distinct us"
  obtain vs w ws where s: "map VObj us = vs @ w # ws" "var_eq False (VObj x) w"
    "setremove (map VObj us) (VObj x) = Inr (vs @ ws)"
    using True setremove_spec [of "VObj x" "map VObj us"] by auto
  then obtain as bs where us: "us = as @ x # bs" "vs = map VObj as" "ws = map VObj bs"
    by (auto simp: map_eq_append_conv)
  then have "filter (\<lambda>y. y \<noteq> x) as = as" "filter (\<lambda>y. y \<noteq> x) bs = bs"
    using d by (auto intro!: filter_True)
  with us s(3) show ?thesis by simp
qed

lemma has_flag_bit: "db_object_has_flag db x f = map_option (\<lambda>a. bit (o_flags a) f) (heap db x)"
  by (simp add: db_object_has_flag_def push_bit_eq_mult and_exp_eq_0_iff_not_bit)

lemma flag_bits:
  fixes flags :: int
  shows "bit (flags OR 2 ^ f) g \<longleftrightarrow> bit flags g \<or> g = f"
    "bit (flags AND (NOT (2 ^ f))) g \<longleftrightarrow> bit flags g \<and> g \<noteq> f"
  by (auto simp: bit_or_iff bit_and_iff bit_not_iff bit_push_bit_iff bit_1_iff bit_exp_iff)

lemma is_user_flag: "is_user db x \<longleftrightarrow> (\<exists>a. heap db x = Some a \<and> bit (o_flags a) FLAG_USER)"
  by (auto simp: is_user_def has_flag_bit)

lemma users_ok_cong:
  "all_users db' = all_users db \<Longrightarrow>
   (\<And>x. map_option (\<lambda>a. bit (o_flags a) FLAG_USER) (heap db' x) = map_option (\<lambda>a. bit (o_flags a) FLAG_USER) (heap db x)) \<Longrightarrow>
   users_ok db' = users_ok db"
  by (simp add: users_ok_def is_user_def has_flag_bit)

lemma core_flags: "core h a = core h b \<Longrightarrow> o_flags a = o_flags b \<and> o_id a = o_id b"
  by (cases h) (auto simp: core_def dest: arg_cong [where f = o_flags] arg_cong [where f = o_id])

lemma core_flags_up: "core h a = set_up h n (core h b) \<Longrightarrow> o_flags a = o_flags b \<and> o_id a = o_id b"
  by (cases h) (auto simp: core_def dest: arg_cong [where f = o_flags] arg_cong [where f = o_id])

subsection \<open>The invariant of the object table\<close>

definition ids_ok :: "db \<Rightarrow> bool" where
  "ids_ok db \<longleftrightarrow> (\<forall>x a. heap db x = Some a \<longrightarrow> o_id a = x) \<and> length (objects db) \<le> max_objects db"

definition objects_ok :: "db \<Rightarrow> bool" where
  "objects_ok db \<longleftrightarrow> ids_ok db \<and> hier_ok Children db \<and> hier_ok Contents db \<and> users_ok db"

lemma objects_okD: "objects_ok db \<Longrightarrow> hier_ok h db"
  by (cases h) (auto simp: objects_ok_def)

lemma relocated_ok:
  assumes "objects_ok db" "heap db oid = Some x" "hier_ok h d" "rest d = rest db"
    "length (objects d) = length (objects db)"
    and c: "\<forall>y. map_option (core h) (heap d y) =
       (if y = oid then Some (set_up h new (core h x)) else map_option (core h) (heap db y))"
  shows "objects_ok d"
proof -
  have fl: "map_option (\<lambda>a. (o_flags a, o_id a)) (heap d y) = map_option (\<lambda>a. (o_flags a, o_id a)) (heap db y)" for y
    by (rule relocated_map [OF c [THEN spec] assms(2)]) (auto dest: core_flags core_flags_up)
  have r: "all_users d = all_users db" "max_objects d = max_objects db"
    using arg_cong [OF assms(4), of all_users] arg_cong [OF assms(4), of max_objects] by (simp_all add: rest_def)
  have "hier_ok h' d" for h'
    using assms(1,3) same_links_hier(1) [OF relocated_other [OF c assms(2)], of h'] objects_okD
    by (cases "h' = h") auto
  moreover have "ids_ok d"
    unfolding ids_ok_def
  proof (intro conjI allI impI)
    fix y a assume "heap d y = Some a"
    with fl [of y] obtain b where "heap db y = Some b" "o_id b = o_id a" by (cases "heap db y") auto
    then show "o_id a = y" using assms(1) by (auto simp: objects_ok_def ids_ok_def)
  next
    show "length (objects d) \<le> max_objects d"
      using assms(1,5) r by (simp add: objects_ok_def ids_ok_def)
  qed
  moreover have "users_ok d = users_ok db"
  proof (rule users_ok_cong [OF r(1)])
    fix y
    show "map_option (\<lambda>a. bit (o_flags a) FLAG_USER) (heap d y) = map_option (\<lambda>a. bit (o_flags a) FLAG_USER) (heap db y)"
      using fl [of y] by (cases "heap d y"; cases "heap db y") auto
  qed
  ultimately show ?thesis using assms(1) by (simp add: objects_ok_def)
qed

text \<open>\<open>db_change_location\<close> is a move in the hierarchy of contents.\<close>

lemma change_location_spec:
  assumes "objects_ok db" "heap db oid = Some x" "loc = NOTHING \<or> valid db loc"
    and "(loc, oid) \<notin> (parents_rel Contents db)\<^sup>*"
  shows "\<exists>d. db_change_location oid loc db = Some d \<and> objects_ok d \<and>
    (\<forall>p. valid db p \<longrightarrow> listing Contents d p =
       Some (filter (\<lambda>c. c \<noteq> oid) (K_of Contents db p) @ (if p = loc then [oid] else []))) \<and>
    rest d = rest db \<and> length (objects d) = length (objects db) \<and>
    (\<forall>y. map_option (core Contents) (heap d y) =
       (if y = oid then Some (core Contents x\<lparr>o_location := loc\<rparr>) else map_option (core Contents) (heap db y)))"
proof -
  note ok = objects_okD [OF assms(1), of Contents]
  obtain d1 d2 d3 where d: "(if o_location x \<noteq> NOTHING then ll_remove Contents (o_location x) oid db else Some db) = Some d1"
    "(if loc \<noteq> NOTHING then ll_append Contents loc oid d1 else Some d1) = Some d2"
    "modify oid (set_up Contents loc) d2 = Some d3" "relinked Contents db d1" "hier_ok Contents d3"
    "\<forall>p. valid db p \<longrightarrow> listing Contents d3 p =
       Some (filter (\<lambda>c. c \<noteq> oid) (K_of Contents db p) @ (if p = loc then [oid] else []))"
    "rest d3 = rest db" "length (objects d3) = length (objects db)"
    "\<forall>y. map_option (core Contents) (heap d3 y) =
       (if y = oid then Some (set_up Contents loc (core Contents x)) else map_option (core Contents) (heap db y))"
    using relocate [OF ok assms(2-4)] by (simp only: up.simps) blast
  have v: "valid db (o_location x) = (o_location x \<noteq> NOTHING)" using hier_up [OF ok assms(2)] by simp
  have l: "valid d1 loc = (loc \<noteq> NOTHING)"
    using assms(3) relinked_valid [OF d(4)] by (auto simp: valid_def)
  have m: "modify oid (\<lambda>x. x\<lparr>o_location := loc\<rparr>) d2 = Some d3"
    using d(3) by (simp add: modify_def)
  have "db_change_location oid loc db = Some d3"
    using d(1,2) v l m assms(2) by (simp add: db_change_location_def)
  moreover have "objects_ok d3" using relocated_ok [OF assms(1,2) d(5,7,8,9)] .
  ultimately show ?thesis using d(6-9) by simp
qed

subsection \<open>Creating and destroying\<close>

definition isolated :: "hierarchy \<Rightarrow> object option \<Rightarrow> bool" where
  "isolated h v \<longleftrightarrow> (\<forall>a. v = Some a \<longrightarrow> up h a = NOTHING \<and> first h a = NOTHING)"

lemma hier_ok_isolated:
  assumes ok: "hier_ok h db" and i: "isolated h (heap db oid)" "isolated h (heap d oid)"
    and same: "\<And>y. y \<noteq> oid \<Longrightarrow> heap d y = heap db y"
  shows "hier_ok h d" "p \<noteq> oid \<Longrightarrow> listing h d p = listing h db p"
proof -
  have m: "members h d p = members h db p" if "p \<noteq> NOTHING" for p
  proof -
    have "(\<exists>a. heap d x = Some a \<and> up h a = p) = (\<exists>a. heap db x = Some a \<and> up h a = p)" for x
      using i same [of x] that by (cases "x = oid") (auto simp: isolated_def)
    then show ?thesis by (simp add: members_def)
  qed
  have l: "listing h d p = listing h db p" if "p \<noteq> oid" for p
  proof (cases "heap db p")
    case None
    then show ?thesis using same [OF that] by (simp add: listing_def)
  next
    case (Some a)
    then have v: "valid db p" by (simp add: valid_heap)
    then obtain cs where cs: "listing h db p = Some cs" "set cs = members h db p"
      using ok by (auto simp: hier_ok_def)
    then have pth: "path h (heap db) (first h a) cs NOTHING" using Some by (simp add: listing_def chain_iff)
    have "oid \<notin> set cs"
      using i(1) v by (auto simp: cs(2) members_def isolated_def valid_def)
    then have "path h (heap d) (first h a) cs NOTHING"
      using same by (intro path_frame [OF _ pth]) (metis)
    then have "listing h d p = Some cs" using same [OF that] Some by (simp add: listing_def chain_iff)
    then show ?thesis using cs(1) by simp
  qed
  then show "p \<noteq> oid \<Longrightarrow> listing h d p = listing h db p" .
  have no: "members h db oid = {}" if "oid \<noteq> NOTHING"
  proof (cases "heap db oid")
    case None
    have "up h a = NOTHING \<or> valid db (up h a)" if "heap db x = Some a" for x a
      using ok that unfolding hier_ok_def by blast
    with None show ?thesis using that by (fastforce simp: members_def valid_def)
  next
    case (Some a)
    then have "listing h db oid = Some []" using i(1) by (simp add: listing_def isolated_def chain_iff)
    then show ?thesis using ok Some by (force simp: hier_ok_def valid_heap)
  qed
  show "hier_ok h d"
    unfolding hier_ok_def
  proof (intro conjI allI impI)
    fix x a assume a: "heap d x = Some a"
    show "up h a = NOTHING \<or> valid d (up h a)"
    proof (cases "x = oid")
      case True
      with a i(2) show ?thesis by (simp add: isolated_def)
    next
      case False
      then have h: "heap db x = Some a" using a same by simp
      with ok have "up h a = NOTHING \<or> valid db (up h a)" by (auto simp: hier_ok_def)
      moreover have "up h a \<noteq> oid" if "up h a \<noteq> NOTHING"
        using no h that by (auto simp: members_def)
      ultimately show ?thesis using same by (auto simp: valid_def)
    qed
  next
    fix p assume v: "valid d p"
    then have pn: "p \<noteq> NOTHING" by (auto simp: valid_def)
    show "\<exists>cs. listing h d p = Some cs \<and> distinct cs \<and> set cs = members h d p"
    proof (cases "p = oid")
      case True
      then have "listing h d p = Some []" using v i(2) by (auto simp: listing_def isolated_def chain_iff valid_heap)
      then show ?thesis using no m True pn by simp
    next
      case False
      then have "valid db p" using v same by (simp add: valid_def)
      with ok m [OF pn] l [OF False] show ?thesis by (simp add: hier_ok_def)
    qed
  next
    have "parents_rel h d = parents_rel h db" using m by (auto simp: parents_rel_def)
    then show "acyclic (parents_rel h d)" using ok by (simp add: hier_ok_def)
  qed
qed

lemma push_object_spec:
  "\<exists>d. push_object v db = Some d \<and> objects d = objects db @ [v] \<and>
    length (objects d) \<le> max_objects d \<and> all_users d = all_users db \<and> vc_table d = vc_table db \<and>
    next_addr d = next_addr db"
  if "length (objects db) \<le> max_objects db"
  using that by (auto simp: push_object_def ensure_new_object_def Let_def)

lemma heap_push:
  "objects d = objects db @ [v] \<Longrightarrow> heap d = (heap db)(int (length (objects db)) := v)"
  by (intro ext) (auto simp: dbpriv_find_object_def nth_append)

definition fresh_object :: "objid \<Rightarrow> objid \<Rightarrow> object" where
  "fresh_object oid owner0 =
    \<lparr>o_id = oid, o_owner = owner0, o_location = NOTHING, o_contents = NOTHING, o_next = NOTHING,
     o_parent = NOTHING, o_child = NOTHING, o_sibling = NOTHING, o_name = [], o_flags = 0,
     o_verbdefs = [], o_propdefs = [], o_propdefs_max = 0, o_propval = [], o_waif_propdefs = None\<rparr>"

lemma heap_at_end: "heap db (int (length (objects db))) = None"
  by (simp add: dbpriv_find_object_def)

lemma create_spec:
  assumes "objects_ok db"
  shows "\<exists>oid d. db_create_object owner0 db = Some (oid, d) \<and> \<not> valid db oid \<and> 0 \<le> oid \<and>
    heap d = (heap db)(oid \<mapsto> fresh_object oid owner0) \<and> objects_ok d \<and>
    vc_table d = vc_table db \<and> next_addr d = next_addr db"
proof -
  let ?oid = "int (length (objects db))"
  have "length (objects db) \<le> max_objects db" using assms by (simp add: objects_ok_def ids_ok_def)
  then obtain d where d: "push_object (Some (fresh_object ?oid owner0)) db = Some d"
    "objects d = objects db @ [Some (fresh_object ?oid owner0)]" "length (objects d) \<le> max_objects d"
    "all_users d = all_users db" "vc_table d = vc_table db" "next_addr d = next_addr db"
    using push_object_spec by blast
  have h: "heap d = (heap db)(?oid \<mapsto> fresh_object ?oid owner0)" using d(2) by (rule heap_push)
  have c: "db_create_object owner0 db = Some (?oid, d)"
    using d(1) by (simp add: db_create_object_def fresh_object_def)
  have "hier_ok g d" for g
    by (rule hier_ok_isolated(1) [OF objects_okD [OF assms], where oid = ?oid])
      (cases g; simp add: h heap_at_end isolated_def fresh_object_def)+
  moreover have "users_ok d"
  proof -
    have "is_user d x = is_user db x" for x
      by (auto simp: is_user_flag h heap_at_end fresh_object_def)
    then show ?thesis using assms d(4) by (simp add: objects_ok_def users_ok_def)
  qed
  moreover have "ids_ok d"
    using assms d(3) by (auto simp: objects_ok_def ids_ok_def h fresh_object_def)
  ultimately have "objects_ok d" by (simp add: objects_ok_def)
  with c h d(5,6) show ?thesis
    by (intro exI [of _ ?oid] exI [of _ d]) (simp add: valid_def heap_at_end)
qed

text \<open>A barren orphan.\<close>

definition barren :: "object \<Rightarrow> bool" where
  "barren a \<longleftrightarrow> o_location a = NOTHING \<and> o_contents a = NOTHING \<and> o_parent a = NOTHING \<and> o_child a = NOTHING"

lemma destroy_spec:
  assumes ok: "objects_ok db" and a: "heap db oid = Some a" and "barren a"
    and "length (o_propdefs a) \<le> length (o_propval a)"
  shows "\<exists>d. db_destroy_object oid db = Inr d \<and> objects_ok d \<and> heap d = (heap db)(oid := None) \<and>
    length (objects d) = length (objects db)"
proof -
  let ?db = "db_priv_affected_callable_verb_lookup db"
  have f: "heap ?db = heap db" "all_users ?db = all_users db" "length (objects ?db) = length (objects db)"
    "max_objects ?db = max_objects db"
    by (simp_all add: db_priv_affected_callable_verb_lookup_def split: option.split)
  obtain us where us: "all_users db = map VObj us" "distinct us" "set us = {x. is_user db x}"
    using ok by (auto simp: objects_ok_def users_ok_def)
  have iu: "is_user ?db oid = is_user db oid" by (simp add: is_user_flag f(1))
  let ?us = "filter (\<lambda>y. y \<noteq> oid) us"
  have "(if is_user ?db oid then setremove (all_users ?db) (VObj oid) else Inr (all_users ?db)) = Inr (map VObj ?us)"
  proof (cases "is_user db oid")
    case False
    then have "?us = us" using us(3) by (auto intro: filter_True)
    with False show ?thesis by (simp add: iu f(2) us(1))
  qed (simp add: iu f(2) us(1,2) setremove_objs)
  then have d: "db_destroy_object oid db = Inr (set_object oid None (?db\<lparr>all_users := map VObj ?us\<rparr>))"
    using assms(3,4) a by (simp add: db_destroy_object_def f(1) barren_def)
  let ?d = "set_object oid None (?db\<lparr>all_users := map VObj ?us\<rparr>)"
  have h: "heap ?d = (heap db)(oid := None)"
    using heap_Some_range [OF a] by (subst heap_set_object) (simp_all add: f)
  have "hier_ok g ?d" for g
    by (rule hier_ok_isolated(1) [OF objects_okD [OF ok], where oid = oid])
      (use assms(3) in \<open>cases g; simp add: h a isolated_def barren_def\<close>)+
  moreover have "users_ok ?d"
  proof -
    have "is_user ?d x = (is_user db x \<and> x \<noteq> oid)" for x by (auto simp: is_user_flag h)
    then have "set ?us = {x. is_user ?d x}" using us(3) by auto
    moreover have "all_users ?d = map VObj ?us" by (simp add: set_object_def)
    moreover have "distinct ?us" using us(2) by simp
    ultimately show ?thesis unfolding users_ok_def by blast
  qed
  moreover have "ids_ok ?d"
    using ok f unfolding objects_ok_def ids_ok_def h by (auto simp: set_object_def)
  ultimately show ?thesis using d h f(3) by (simp add: objects_ok_def)
qed

lemma same_objects_ok:
  assumes ok: "objects_ok db" and "\<And>h. same_links h db d" "users_ok d" "max_objects d = max_objects db"
    "length (objects d) = length (objects db)" and i: "\<And>y. map_option o_id (heap d y) = map_option o_id (heap db y)"
  shows "objects_ok d"
proof -
  have "ids_ok d"
    unfolding ids_ok_def
  proof (intro conjI allI impI)
    fix y a assume "heap d y = Some a"
    with i [of y] obtain b where "heap db y = Some b" "o_id b = o_id a" by (cases "heap db y") auto
    then show "o_id a = y" using ok by (auto simp: objects_ok_def ids_ok_def)
  qed (use assms(4,5) ok in \<open>simp add: objects_ok_def ids_ok_def\<close>)
  then show ?thesis
    using assms(3) ok same_links_hier(1) [OF assms(2)] by (simp add: objects_ok_def)
qed

text \<open>Setting and clearing flags.\<close>

lemma change_flags_ok:
  assumes ok: "objects_ok db" and x: "heap db oid = Some x" and d1: "modify oid (\<lambda>x. x\<lparr>o_flags := F (o_flags x)\<rparr>) db = Some d1"
    and u: "\<exists>us. all_users d = map VObj us \<and> distinct us \<and> set us = {y. is_user d1 y}" "d = d1\<lparr>all_users := ul\<rparr>"
  shows "objects_ok d \<and> heap d = (heap db)(oid \<mapsto> x\<lparr>o_flags := F (o_flags x)\<rparr>)"
proof -
  have h1: "heap d1 = (heap db)(oid \<mapsto> x\<lparr>o_flags := F (o_flags x)\<rparr>)" "rest d1 = rest db"
    "length (objects d1) = length (objects db)"
    using modify_ok [OF x, of "\<lambda>x. x\<lparr>o_flags := F (o_flags x)\<rparr>"] d1 by auto
  have h: "heap d = heap d1" using u(2) by simp
  have "map_option (links g) (heap d y) = map_option (links g) (heap db y)" for g y
    using x by (cases g) (simp_all add: h h1 links_def)
  then have "same_links g db d" for g by (simp add: same_links_def)
  moreover have "users_ok d" using u h by (simp add: users_ok_def is_user_flag)
  moreover have "max_objects d = max_objects db"
    using u(2) arg_cong [OF h1(2), of max_objects] by (simp add: rest_def)
  moreover have "map_option o_id (heap d y) = map_option o_id (heap db y)" for y
    using x by (simp add: h h1)
  ultimately show ?thesis
    using same_objects_ok [OF ok, of d] u(2) h h1 by simp
qed

lemma set_flag_spec:
  assumes ok: "objects_ok db" and x: "heap db oid = Some x"
  shows "\<exists>d. db_set_object_flag oid f db = Some d \<and> objects_ok d \<and>
    heap d = (heap db)(oid \<mapsto> x\<lparr>o_flags := o_flags x OR push_bit f 1\<rparr>)"
proof -
  let ?g = "\<lambda>x. x\<lparr>o_flags := o_flags x OR push_bit f 1\<rparr>"
  obtain d1 where d1: "modify oid ?g db = Some d1" "heap d1 = (heap db)(oid \<mapsto> ?g x)" "rest d1 = rest db"
    using modify_ok [OF x, of ?g] by blast
  obtain us where us: "all_users db = map VObj us" "distinct us" "set us = {x. is_user db x}"
    using ok by (auto simp: objects_ok_def users_ok_def)
  have a: "all_users d1 = map VObj us" using us(1) arg_cong [OF d1(3), of all_users] by (simp add: rest_def)
  have iu: "is_user d1 y = (is_user db y \<or> y = oid \<and> f = FLAG_USER)" for y
    using x by (auto simp: is_user_flag d1(2) flag_bits)
  let ?us = "if f = FLAG_USER then (if oid \<in> set us then us else us @ [oid]) else us"
  let ?d = "d1\<lparr>all_users := map VObj ?us\<rparr>"
  have "db_set_object_flag oid f db = Some ?d"
    using d1(1) a by (auto simp: db_set_object_flag_def setadd_objs the_list_def)
  moreover have "set ?us = {y. is_user d1 y}" "distinct ?us"
    using us(2,3) iu by auto
  ultimately show ?thesis
    using change_flags_ok [OF ok x d1(1) _ refl, of "map VObj ?us"] by fastforce
qed

lemma clear_flag_spec:
  assumes ok: "objects_ok db" and x: "heap db oid = Some x"
  shows "\<exists>d. db_clear_object_flag oid f db = Some d \<and> objects_ok d \<and>
    heap d = (heap db)(oid \<mapsto> x\<lparr>o_flags := o_flags x AND (NOT (push_bit f 1))\<rparr>)"
proof -
  let ?g = "\<lambda>x. x\<lparr>o_flags := o_flags x AND (NOT (push_bit f 1))\<rparr>"
  obtain d1 where d1: "modify oid ?g db = Some d1" "heap d1 = (heap db)(oid \<mapsto> ?g x)" "rest d1 = rest db"
    using modify_ok [OF x, of ?g] by blast
  obtain us where us: "all_users db = map VObj us" "distinct us" "set us = {x. is_user db x}"
    using ok by (auto simp: objects_ok_def users_ok_def)
  have a: "all_users d1 = map VObj us" using us(1) arg_cong [OF d1(3), of all_users] by (simp add: rest_def)
  have iu: "is_user d1 y = (is_user db y \<and> \<not> (y = oid \<and> f = FLAG_USER))" for y
    using x by (auto simp: is_user_flag d1(2) flag_bits)
  let ?us = "if f = FLAG_USER then filter (\<lambda>y. y \<noteq> oid) us else us"
  let ?d = "d1\<lparr>all_users := map VObj ?us\<rparr>"
  have "db_clear_object_flag oid f db = Some ?d"
    using d1(1) a us(2) by (auto simp: db_clear_object_flag_def setremove_objs the_list_def)
  moreover have "set ?us = {y. is_user d1 y}" "distinct ?us"
    using us(2,3) iu by auto
  ultimately show ?thesis
    using change_flags_ok [OF ok x d1(1) _ refl, of "map VObj ?us"] by fastforce
qed

subsection \<open>Properties\<close>

definition empty_db :: db where
  "empty_db = \<lparr>objects = [], max_objects = 0, all_users = [], vc_table = None, db_verb_generation = 0,
     verbcache_hit = 0, verbcache_neg_hit = 0, verbcache_miss = 0, next_addr = 0\<rparr>"

lemma heap_empty [simp]: "heap empty_db x = None"
  by (auto simp: empty_db_def dbpriv_find_object_def)

lemma empty_db_ok: "objects_ok empty_db"
proof -
  have "hier_ok h empty_db" for h
    by (simp add: hier_ok_def valid_def parents_rel_def members_def acyclic_def)
  moreover have "users_ok empty_db"
    unfolding users_ok_def is_user_flag by (intro exI [of _ "[]"]) (simp, simp add: empty_db_def)
  moreover have "ids_ok empty_db"
    unfolding ids_ok_def heap_empty by (simp add: empty_db_def)
  ultimately show ?thesis by (simp add: objects_ok_def)
qed

text \<open>C24: moving an object takes it out of the contents of where it was and puts it at the end of the
  contents of where it goes, whatever its place in the lists, changes nothing else in the database,
  never follows a broken link, and keeps both hierarchies well-formed. The new place is an object
  that is not inside the moved one, or nowhere.\<close>

theorem change_location_moves:
  assumes "objects_ok db" "heap db oid = Some x" "loc = NOTHING \<or> valid db loc"
    and "(loc, oid) \<notin> (parents_rel Contents db)\<^sup>*"
  shows "\<exists>d. db_change_location oid loc db = Some d \<and> objects_ok d \<and>
    db_object_location d oid = Some loc \<and>
    (\<forall>p. valid db p \<longrightarrow> listing Contents d p =
       Some (filter (\<lambda>c. c \<noteq> oid) (the (listing Contents db p)) @ (if p = loc then [oid] else []))) \<and>
    (\<forall>y. y \<noteq> oid \<longrightarrow> map_option (core Contents) (heap d y) = map_option (core Contents) (heap db y))"
proof -
  obtain d where d: "db_change_location oid loc db = Some d" "objects_ok d"
    "\<forall>p. valid db p \<longrightarrow> listing Contents d p =
       Some (filter (\<lambda>c. c \<noteq> oid) (K_of Contents db p) @ (if p = loc then [oid] else []))"
    "\<forall>y. map_option (core Contents) (heap d y) =
       (if y = oid then Some (core Contents x\<lparr>o_location := loc\<rparr>) else map_option (core Contents) (heap db y))"
    using change_location_spec [OF assms] by blast
  obtain b where "heap d oid = Some b" "core Contents b = core Contents x\<lparr>o_location := loc\<rparr>"
    using d(4) by (metis (no_types, lifting) map_option_eq_Some)
  then have "db_object_location d oid = Some loc"
    using core_up [of Contents b "x\<lparr>o_location := loc\<rparr>"] by (simp add: core_def db_object_location_def)
  with d show ?thesis by (auto simp: K_of_def)
qed

theorem change_location_moves_witness:
  "\<exists>a b db d. db_create_object 0 empty_db = Some (a, db) \<and> db_create_object 0 db = Some (b, d) \<and>
     (\<exists>d'. db_change_location a b d = Some d' \<and> db_object_location d' a = Some b)"
proof -
  obtain a db where 1: "db_create_object 0 empty_db = Some (a, db)" "heap db = (heap empty_db)(a \<mapsto> fresh_object a 0)"
    "objects_ok db" using create_spec [OF empty_db_ok, of 0] by blast
  obtain b d where 2: "db_create_object 0 db = Some (b, d)" "\<not> valid db b" "heap d = (heap db)(b \<mapsto> fresh_object b 0)"
    "objects_ok d" using create_spec [OF 1(3), of 0] by blast
  have ab: "a \<noteq> b" using 1(2) 2(2) by (auto simp: valid_def)
  then have x: "heap d a = Some (fresh_object a 0)" "valid d b" using 1(2) 2(3) by (auto simp: valid_def)
  have "parents_rel Contents d = {}"
    by (auto simp: parents_rel_def members_def 1(2) 2(3) fresh_object_def split: if_splits)
  then have "(b, a) \<notin> (parents_rel Contents d)\<^sup>*" using ab by simp
  from change_location_moves [OF 2(4) x(1) disjI2 [OF x(2)] this] 1(1) 2(1) show ?thesis by blast
qed

text \<open>C25: the life of an object: \<open>db_create_object\<close> gives an object of a new number that is nowhere, has
  no parent and is otherwise blank, inside the table whatever its size; destroying it, as any barren
  orphan, makes the number invalid and touches no other object. Both keep the database well-formed.\<close>

theorem object_life_cycle:
  assumes "objects_ok db"
  shows "(\<exists>oid d. db_create_object owner0 db = Some (oid, d) \<and> \<not> valid db oid \<and>
      heap d = (heap db)(oid \<mapsto> fresh_object oid owner0) \<and> objects_ok d \<and>
      (\<exists>d'. db_destroy_object oid d = Inr d' \<and> objects_ok d' \<and> heap d' = heap db)) \<and>
    (\<forall>oid a. heap db oid = Some a \<and> barren a \<and> length (o_propdefs a) = length (o_propval a) \<longrightarrow>
      (\<exists>d'. db_destroy_object oid db = Inr d' \<and> objects_ok d' \<and> heap d' = (heap db)(oid := None))) \<and>
    (\<forall>oid a. heap db oid = Some a \<and> \<not> barren a \<longrightarrow>
      db_destroy_object oid db = Inl (Panic ''DB_DESTROY_OBJECT: Not a barren orphan!''))"
proof (intro conjI allI impI)
  obtain oid d where c: "db_create_object owner0 db = Some (oid, d)" "\<not> valid db oid"
    "heap d = (heap db)(oid \<mapsto> fresh_object oid owner0)" "objects_ok d"
    using create_spec [OF assms] by blast
  have "heap d oid = Some (fresh_object oid owner0)" using c(3) by simp
  from destroy_spec [OF c(4) this] obtain d' where
    "db_destroy_object oid d = Inr d'" "objects_ok d'" "heap d' = (heap d)(oid := None)"
    by (auto simp: fresh_object_def barren_def)
  moreover have "(heap d)(oid := None) = heap db" using c(2,3) by (auto simp: valid_def fun_upd_idem)
  ultimately show "\<exists>oid d. db_create_object owner0 db = Some (oid, d) \<and> \<not> valid db oid \<and>
      heap d = (heap db)(oid \<mapsto> fresh_object oid owner0) \<and> objects_ok d \<and>
      (\<exists>d'. db_destroy_object oid d = Inr d' \<and> objects_ok d' \<and> heap d' = heap db)"
    using c by metis
next
  fix oid a assume "heap db oid = Some a \<and> barren a \<and> length (o_propdefs a) = length (o_propval a)"
  then show "\<exists>d'. db_destroy_object oid db = Inr d' \<and> objects_ok d' \<and> heap d' = (heap db)(oid := None)"
    using destroy_spec [OF assms, of oid a] by auto
next
  fix oid a assume a: "heap db oid = Some a \<and> \<not> barren a"
  have "heap (db_priv_affected_callable_verb_lookup db) = heap db" by simp
  with a show "db_destroy_object oid db = Inl (Panic ''DB_DESTROY_OBJECT: Not a barren orphan!'')"
    by (auto simp: db_destroy_object_def barren_def Let_def)
qed

theorem object_life_cycle_witness:
  "\<exists>oid d. db_create_object 2 empty_db = Some (oid, d) \<and> \<not> valid empty_db oid"
  using object_life_cycle [OF empty_db_ok, of 2] by blast

text \<open>C26: the list of users has exactly the objects with the user flag, each once: setting and clearing
  any flag of any object keeps it so, and changes no other flag and no other object.\<close>

theorem user_list_follows_flags:
  assumes "objects_ok db" "heap db oid = Some x"
  shows "(\<exists>d. db_set_object_flag oid f db = Some d \<and> objects_ok d \<and>
      (\<forall>y g. db_object_has_flag d y g =
        (if y = oid \<and> g = f then Some True else db_object_has_flag db y g)) \<and>
      (\<exists>us. all_users d = map VObj us \<and> distinct us \<and> set us = {y. is_user d y})) \<and>
    (\<exists>d. db_clear_object_flag oid f db = Some d \<and> objects_ok d \<and>
      (\<forall>y g. db_object_has_flag d y g =
        (if y = oid \<and> g = f then Some False else db_object_has_flag db y g)) \<and>
      (\<exists>us. all_users d = map VObj us \<and> distinct us \<and> set us = {y. is_user d y}))"
proof -
  have 1: "\<exists>us. all_users d = map VObj us \<and> distinct us \<and> set us = {y. is_user d y}" if "objects_ok d" for d
    using that by (simp add: objects_ok_def users_ok_def)
  obtain d where d: "db_set_object_flag oid f db = Some d" "objects_ok d"
    "heap d = (heap db)(oid \<mapsto> x\<lparr>o_flags := o_flags x OR push_bit f 1\<rparr>)"
    using set_flag_spec [OF assms] by blast
  obtain e where e: "db_clear_object_flag oid f db = Some e" "objects_ok e"
    "heap e = (heap db)(oid \<mapsto> x\<lparr>o_flags := o_flags x AND (NOT (push_bit f 1))\<rparr>)"
    using clear_flag_spec [OF assms] by blast
  have "db_object_has_flag d y g = (if y = oid \<and> g = f then Some True else db_object_has_flag db y g)" for y g
    using assms(2) by (auto simp: has_flag_bit d(3) flag_bits)
  moreover have "db_object_has_flag e y g = (if y = oid \<and> g = f then Some False else db_object_has_flag db y g)" for y g
    using assms(2) by (auto simp: has_flag_bit e(3) flag_bits)
  ultimately show ?thesis using d(1,2) e(1,2) 1 by blast
qed

theorem user_list_follows_flags_witness:
  "\<exists>oid db d. db_create_object 0 empty_db = Some (oid, db) \<and>
     db_set_object_flag oid FLAG_USER db = Some d \<and> objects_ok d"
proof -
  obtain a db where 1: "db_create_object 0 empty_db = Some (a, db)" "heap db = (heap empty_db)(a \<mapsto> fresh_object a 0)"
    "objects_ok db" using create_spec [OF empty_db_ok, of 0] by blast
  then have "heap db a = Some (fresh_object a 0)" by simp
  from user_list_follows_flags [OF 1(3) this, of FLAG_USER] 1(1) show ?thesis by blast
qed

end
