(* ===== verification/DbProps.thy ===== *)
theory DbProps
  imports DbObjects
begin

text \<open>
  Properties (\<open>db_properties.c\<close>).

  Every object has in \<open>propval\<close> one slot for each property it or an ancestor defines: first those of its
  own definitions, then those of its parent's slots, in the same order. Adding, removing and renaming a definition and
  changing a parent walk down the tree of descendants and edit the slots of each. \<open>tree_walk\<close> is the recursion
  these functions share; a slot index outside the array is \<open>None\<close>.
\<close>

definition PF_READ :: int where "PF_READ = 1"
definition PF_WRITE :: int where "PF_WRITE = 2"
definition PF_CHOWN :: int where "PF_CHOWN = 4"

definition nth_opt :: "'a list \<Rightarrow> nat \<Rightarrow> 'a option" where
  "nth_opt xs n = (if n < length xs then Some (xs ! n) else None)"

definition dbpriv_new_propdef :: "string \<Rightarrow> propdef" where
  "dbpriv_new_propdef name = \<lparr>pd_name = name, pd_hash = str_hash name\<rparr>"

partial_function (option) dbpriv_count_properties :: "db \<Rightarrow> objid \<Rightarrow> nat option" where
  "dbpriv_count_properties db oid = (case dbpriv_find_object db oid of
     None \<Rightarrow> Some 0
   | Some x \<Rightarrow> do {
       n \<leftarrow> dbpriv_count_properties db (o_parent x);
       Some (length (o_propdefs x) + n)
     })"

declare dbpriv_count_properties.simps [code]

definition prop_match :: "string \<Rightarrow> 32 word \<Rightarrow> propdef \<Rightarrow> bool" where
  "prop_match name hash d \<longleftrightarrow> pd_hash d = hash \<and> mystrcasecmp (pd_name d) name = 0"

text \<open>\<open>Inl oid\<close> is the call on an object, \<open>Inr c\<close> the loop over siblings from \<open>c\<close> on.\<close>

partial_function (option) property_defined_below :: "(propdef \<Rightarrow> bool) \<Rightarrow> db \<Rightarrow> objid + objid \<Rightarrow> bool option" where
  "property_defined_below defines db job = (case job of
     Inl oid \<Rightarrow> do {
       x \<leftarrow> dbpriv_find_object db oid;
       if list_ex defines (o_propdefs x) then Some True
       else property_defined_below defines db (Inr (o_child x))
     }
   | Inr c \<Rightarrow>
       if c = NOTHING then Some False
       else do {
         found \<leftarrow> property_defined_below defines db (Inl c);
         if found then Some True
         else do {
           x \<leftarrow> dbpriv_find_object db c;
           property_defined_below defines db (Inr (o_sibling x))
         }
       })"

declare property_defined_below.simps [code]

definition property_defined_at_or_below :: "string \<Rightarrow> 32 word \<Rightarrow> db \<Rightarrow> objid \<Rightarrow> bool option" where
  "property_defined_at_or_below pname phash db oid = property_defined_below (prop_match pname phash) db (Inl oid)"

text \<open>\<open>visit\<close> works on an object and gives what its children need; \<open>arg\<close> makes the argument for a child.\<close>

partial_function (option) tree_walk ::
    "(objid \<Rightarrow> 'a \<Rightarrow> db \<Rightarrow> (db \<times> 'b) option) \<Rightarrow> (db \<Rightarrow> objid \<Rightarrow> 'b \<Rightarrow> 'a option) \<Rightarrow>
     objid \<times> 'a + objid \<times> 'b \<Rightarrow> db \<Rightarrow> db option" where
  "tree_walk visit arg job db = (case job of
     Inl (root, a) \<Rightarrow> do {
       (db, b) \<leftarrow> visit root a db;
       x \<leftarrow> dbpriv_find_object db root;
       tree_walk visit arg (Inr (o_child x, b)) db
     }
   | Inr (c, b) \<Rightarrow>
       if c = NOTHING then Some db
       else do {
         a \<leftarrow> arg db c b;
         db \<leftarrow> tree_walk visit arg (Inl (c, a)) db;
         x \<leftarrow> dbpriv_find_object db c;
         tree_walk visit arg (Inr (o_sibling x, b)) db
       })"

declare tree_walk.simps [code]

subsection \<open>Adding\<close>

definition insert_prop :: "objid \<Rightarrow> nat \<Rightarrow> pval \<Rightarrow> db \<Rightarrow> db option" where
  "insert_prop oid pos pval db = (do {
     nprops \<leftarrow> dbpriv_count_properties db oid;
     x \<leftarrow> dbpriv_find_object db oid;
     let pv = (if (pv_perms pval AND PF_CHOWN) \<noteq> 0 then pval\<lparr>pv_owner := o_owner x\<rparr> else pval);
     if pos < nprops \<and> nprops - 1 \<le> length (o_propval x)
     then modify oid (\<lambda>x. x\<lparr>o_waif_propdefs := None,
       o_propval := take pos (o_propval x) @ pv # take (nprops - pos - 1) (drop pos (o_propval x))\<rparr>) db
     else None
   })"

text \<open>The position in a child is behind the child's own definitions.\<close>

definition child_pos :: "db \<Rightarrow> objid \<Rightarrow> nat \<Rightarrow> nat option" where
  "child_pos db c root_pos = (do {
     x \<leftarrow> dbpriv_find_object db c;
     Some (length (o_propdefs x) + root_pos)
   })"

definition insert_prop_recursively :: "objid \<Rightarrow> nat \<Rightarrow> pval \<Rightarrow> db \<Rightarrow> db option" where
  "insert_prop_recursively root root_pos pv db =
    tree_walk
      (\<lambda>root (pos, pv) db. map_option (\<lambda>db. (db, pos, pv\<lparr>pv_var := VClear\<rparr>)) (insert_prop root pos pv db))
      (\<lambda>db c (pos, pv). map_option (\<lambda>pos. (pos, pv)) (child_pos db c pos))
      (Inl (root, root_pos, pv)) db"

subsection \<open>Looking up\<close>

datatype bi_prop = BP_NAME | BP_OWNER | BP_PROGRAMMER | BP_WIZARD | BP_R | BP_W | BP_F | BP_LOCATION | BP_CONTENTS

text \<open>A handle: no property, a built-in one of an object, or the slot of an object at an index, with
  the definer.\<close>

datatype prop_handle = NoProp | BuiltIn bi_prop objid | Slot objid nat objid

definition ptable :: "(string \<times> bi_prop) list" where
  "ptable = [(''name'', BP_NAME), (''owner'', BP_OWNER), (''programmer'', BP_PROGRAMMER),
    (''wizard'', BP_WIZARD), (''r'', BP_R), (''w'', BP_W), (''f'', BP_F), (''location'', BP_LOCATION),
    (''contents'', BP_CONTENTS)]"

definition int_of_flag :: "bool \<Rightarrow> var" where
  "int_of_flag b = VInt (of_bool b)"

fun get_bi_value :: "db \<Rightarrow> bi_prop \<Rightarrow> objid \<Rightarrow> var option" where
  "get_bi_value db BP_NAME oid = map_option VStr (db_object_name db oid)"
| "get_bi_value db BP_OWNER oid = map_option VObj (db_object_owner db oid)"
| "get_bi_value db BP_PROGRAMMER oid = map_option int_of_flag (db_object_has_flag db oid FLAG_PROGRAMMER)"
| "get_bi_value db BP_WIZARD oid = map_option int_of_flag (db_object_has_flag db oid FLAG_WIZARD)"
| "get_bi_value db BP_R oid = map_option int_of_flag (db_object_has_flag db oid FLAG_READ)"
| "get_bi_value db BP_W oid = map_option int_of_flag (db_object_has_flag db oid FLAG_WRITE)"
| "get_bi_value db BP_F oid = map_option int_of_flag (db_object_has_flag db oid FLAG_FERTILE)"
| "get_bi_value db BP_LOCATION oid = map_option VObj (db_object_location db oid)"
| "get_bi_value db BP_CONTENTS oid = map_option (\<lambda>cs. VList (map VObj cs)) (listing Contents db oid)"

definition find_bi :: "string \<Rightarrow> bi_prop option" where
  "find_bi name = map_option snd
    (find (\<lambda>(s, b). str_hash s = str_hash name \<and> mystrcasecmp name s = 0) ptable)"

text \<open>The index of the first match in a list of definitions.\<close>

fun find_index :: "('a \<Rightarrow> bool) \<Rightarrow> 'a list \<Rightarrow> nat option" where
  "find_index P [] = None"
| "find_index P (x # xs) = (if P x then Some 0 else map_option Suc (find_index P xs))"

text \<open>The walk up the parents, \<open>n\<close> counting the definitions passed.\<close>

partial_function (option) find_slot :: "db \<Rightarrow> string \<Rightarrow> 32 word \<Rightarrow> objid \<Rightarrow> nat \<Rightarrow> (objid \<times> nat) option option" where
  "find_slot db name hash oid n = (case dbpriv_find_object db oid of
     None \<Rightarrow> Some None
   | Some x \<Rightarrow>
       (case find_index (prop_match name hash) (o_propdefs x) of
          Some i \<Rightarrow> Some (Some (o_id x, n + i))
        | None \<Rightarrow> find_slot db name hash (o_parent x) (n + length (o_propdefs x))))"

declare find_slot.simps [code]

text \<open>The value of a slot; while it is clear, that of the same slot in the parent.\<close>

partial_function (option) slot_value :: "db \<Rightarrow> objid \<Rightarrow> nat \<Rightarrow> var option" where
  "slot_value db oid n = (do {
     x \<leftarrow> dbpriv_find_object db oid;
     p \<leftarrow> nth_opt (o_propval x) n;
     if pv_var p = VClear
     then (if n < length (o_propdefs x) then None
           else slot_value db (o_parent x) (n - length (o_propdefs x)))
     else Some (pv_var p)
   })"

declare slot_value.simps [code]

definition db_find_property :: "db \<Rightarrow> objid \<Rightarrow> string \<Rightarrow> bool \<Rightarrow> (prop_handle \<times> var option) option" where
  "db_find_property db oid name want_value = (case find_bi name of
     Some b \<Rightarrow>
       if want_value then map_option (\<lambda>v. (BuiltIn b oid, Some v)) (get_bi_value db b oid)
       else Some (BuiltIn b oid, None)
   | None \<Rightarrow> do {
       r \<leftarrow> find_slot db name (str_hash name) oid 0;
       case r of
         None \<Rightarrow> Some (NoProp, None)
       | Some (definer, n) \<Rightarrow>
           if want_value then map_option (\<lambda>v. (Slot oid n definer, Some v)) (slot_value db oid n)
           else Some (Slot oid n definer, None)
     })"

definition handle_of :: "(prop_handle \<times> var option) option \<Rightarrow> prop_handle option" where
  "handle_of r = map_option fst r"

definition the_slot :: "db \<Rightarrow> objid \<Rightarrow> nat \<Rightarrow> pval option" where
  "the_slot db oid n = (do {
     x \<leftarrow> dbpriv_find_object db oid;
     nth_opt (o_propval x) n
   })"

definition set_slot :: "objid \<Rightarrow> nat \<Rightarrow> (pval \<Rightarrow> pval) \<Rightarrow> db \<Rightarrow> db option" where
  "set_slot oid n f db = (do {
     p \<leftarrow> the_slot db oid n;
     modify oid (\<lambda>x. x\<lparr>o_propval := (o_propval x)[n := f p]\<rparr>) db
   })"

fun db_property_value :: "db \<Rightarrow> prop_handle \<Rightarrow> var option" where
  "db_property_value db (BuiltIn b oid) = get_bi_value db b oid"
| "db_property_value db (Slot oid n _) = map_option pv_var (the_slot db oid n)"
| "db_property_value db NoProp = None"

definition bi_flag :: "bi_prop \<Rightarrow> nat" where
  "bi_flag b = (case b of BP_PROGRAMMER \<Rightarrow> FLAG_PROGRAMMER | BP_WIZARD \<Rightarrow> FLAG_WIZARD | BP_R \<Rightarrow> FLAG_READ
     | BP_W \<Rightarrow> FLAG_WRITE | BP_F \<Rightarrow> FLAG_FERTILE | _ \<Rightarrow> 0)"

definition complain :: "db res" where
  "complain = Inl (Panic ''Inappropriate value in DB_SET_PROPERTY_VALUE!'')"

fun db_set_property_value :: "prop_handle \<Rightarrow> var \<Rightarrow> db \<Rightarrow> db res" where
  "db_set_property_value (Slot oid n _) v db = of_option (set_slot oid n (\<lambda>p. p\<lparr>pv_var := v\<rparr>) db)"
| "db_set_property_value (BuiltIn b oid) v db =
     (if b = BP_NAME then (case v of VStr s \<Rightarrow> of_option (db_set_object_name oid s db) | _ \<Rightarrow> complain)
      else if b = BP_OWNER then (case v of VObj u \<Rightarrow> of_option (db_set_object_owner oid u db) | _ \<Rightarrow> complain)
      else if b = BP_LOCATION \<or> b = BP_CONTENTS then complain
      else of_option (if is_true v then db_set_object_flag oid (bi_flag b) db
                      else db_clear_object_flag oid (bi_flag b) db))"
| "db_set_property_value NoProp v db = Inl Undefined"

fun db_property_owner :: "db \<Rightarrow> prop_handle \<Rightarrow> objid res" where
  "db_property_owner db (BuiltIn b oid) = Inl (Panic ''Built-in property in DB_PROPERTY_OWNER!'')"
| "db_property_owner db (Slot oid n _) = of_option (map_option pv_owner (the_slot db oid n))"
| "db_property_owner db NoProp = Inl Undefined"

fun db_set_property_owner :: "prop_handle \<Rightarrow> objid \<Rightarrow> db \<Rightarrow> db res" where
  "db_set_property_owner (BuiltIn b _) u db = Inl (Panic ''Built-in property in DB_SET_PROPERTY_OWNER!'')"
| "db_set_property_owner (Slot oid n _) u db = of_option (set_slot oid n (\<lambda>p. p\<lparr>pv_owner := u\<rparr>) db)"
| "db_set_property_owner NoProp u db = Inl Undefined"

fun db_property_flags :: "db \<Rightarrow> prop_handle \<Rightarrow> int res" where
  "db_property_flags db (BuiltIn b oid) = Inl (Panic ''Built-in property in DB_PROPERTY_FLAGS!'')"
| "db_property_flags db (Slot oid n _) = of_option (map_option pv_perms (the_slot db oid n))"
| "db_property_flags db NoProp = Inl Undefined"

fun db_set_property_flags :: "prop_handle \<Rightarrow> int \<Rightarrow> db \<Rightarrow> db res" where
  "db_set_property_flags (BuiltIn b _) fl db = Inl (Panic ''Built-in property in DB_SET_PROPERTY_FLAGS!'')"
| "db_set_property_flags (Slot oid n _) fl db = of_option (set_slot oid n (\<lambda>p. p\<lparr>pv_perms := fl\<rparr>) db)"
| "db_set_property_flags NoProp fl db = Inl Undefined"

definition db_property_allows :: "db \<Rightarrow> prop_handle \<Rightarrow> objid \<Rightarrow> int \<Rightarrow> bool res" where
  "db_property_allows db h progr flag =
    bind_res (db_property_flags db h) (\<lambda>fl.
    if (fl AND flag) \<noteq> 0 then Inr True
    else bind_res (db_property_owner db h) (\<lambda>u. Inr (progr = u \<or> is_wizard db progr)))"

subsection \<open>Changing the definitions\<close>

definition db_add_propdef :: "objid \<Rightarrow> string \<Rightarrow> var \<Rightarrow> objid \<Rightarrow> int \<Rightarrow> db \<Rightarrow> (bool \<times> db) option" where
  "db_add_propdef oid pname value owner flags db = (do {
     h \<leftarrow> handle_of (db_find_property db oid pname False);
     defined \<leftarrow> (if h \<noteq> NoProp then Some True
                else property_defined_at_or_below pname (str_hash pname) db oid);
     if defined then Some (False, db)
     else do {
       x \<leftarrow> dbpriv_find_object db oid;
       let mx = (if length (o_propdefs x) = o_propdefs_max x
                 then (if o_propdefs_max x = 0 then 8 else 2 * o_propdefs_max x) else o_propdefs_max x);
       db \<leftarrow> (if length (o_propdefs x) < mx
             then modify oid (\<lambda>x. x\<lparr>o_propdefs_max := mx,
                    o_propdefs := o_propdefs x @ [dbpriv_new_propdef pname]\<rparr>) db
             else None);
       db \<leftarrow> insert_prop_recursively oid (length (o_propdefs x))
               \<lparr>pv_var = value, pv_owner = owner, pv_perms = flags\<rparr> db;
       Some (True, db)
     }
   })"

text \<open>\<open>waif_rename_propdef\<close> of \<open>waif.c\<close> on the layout of waifs cached in a class; names are compared by
  address there, and a name is shared by the layouts that have it. A missing name is a panic.\<close>

definition is_waif_prop :: "string \<Rightarrow> bool" where
  "is_waif_prop name \<longleftrightarrow> name \<noteq> [] \<and> hd name = CHR '':''"

fun rename_first :: "string \<Rightarrow> string \<Rightarrow> propdef list \<Rightarrow> propdef list option" where
  "rename_first old new [] = None"
| "rename_first old new (d # ds) =
     (if pd_name d = old then Some (dbpriv_new_propdef new # ds)
      else map_option (\<lambda>ds. d # ds) (rename_first old new ds))"

definition waif_rename_propdef :: "string \<Rightarrow> string \<Rightarrow> propdef list \<Rightarrow> propdef list option option" where
  "waif_rename_propdef old new wpd =
    (if is_waif_prop old \<and> is_waif_prop new then map_option Some (rename_first old new wpd) else Some None)"

definition rename_visit :: "string \<Rightarrow> string \<Rightarrow> objid \<Rightarrow> db \<Rightarrow> db option" where
  "rename_visit old new root db = (do {
     x \<leftarrow> dbpriv_find_object db root;
     case o_waif_propdefs x of
       None \<Rightarrow> Some db
     | Some wpd \<Rightarrow> do {
         wpd \<leftarrow> waif_rename_propdef old new wpd;
         modify root (\<lambda>x. x\<lparr>o_waif_propdefs := wpd\<rparr>) db
       }
   })"

definition rename_prop_recursively :: "objid \<Rightarrow> string \<Rightarrow> string \<Rightarrow> db \<Rightarrow> db option" where
  "rename_prop_recursively root old new db =
    tree_walk (\<lambda>root (_::unit) db. map_option (\<lambda>db. (db, ())) (rename_visit old new root db))
      (\<lambda>db c _. Some ()) (Inl (root, ())) db"

definition db_rename_propdef :: "objid \<Rightarrow> string \<Rightarrow> string \<Rightarrow> db \<Rightarrow> (bool \<times> db) option" where
  "db_rename_propdef oid old new db = (do {
     x \<leftarrow> dbpriv_find_object db oid;
     case find_index (prop_match old (str_hash old)) (o_propdefs x) of
       None \<Rightarrow> Some (False, db)
     | Some i \<Rightarrow> do {
         clash \<leftarrow> (if mystrcasecmp old new \<noteq> 0 then do {
                    h \<leftarrow> handle_of (db_find_property db oid new False);
                    if h \<noteq> NoProp then Some True
                    else property_defined_at_or_below new (str_hash new) db oid
                  } else Some False);
         if clash then Some (False, db)
         else do {
           db \<leftarrow> rename_prop_recursively oid (pd_name (o_propdefs x ! i)) new db;
           db \<leftarrow> modify oid (\<lambda>x. x\<lparr>o_propdefs := (o_propdefs x)[i := dbpriv_new_propdef new]\<rparr>) db;
           Some (True, db)
         }
       }
   })"

definition remove_prop :: "objid \<Rightarrow> nat \<Rightarrow> db \<Rightarrow> db option" where
  "remove_prop oid pos db = (do {
     x \<leftarrow> dbpriv_find_object db oid;
     nprops \<leftarrow> dbpriv_count_properties db oid;
     if pos \<le> nprops \<and> nprops + 1 \<le> length (o_propval x)
     then modify oid (\<lambda>x. x\<lparr>o_waif_propdefs := None,
       o_propval := take pos (o_propval x) @ take (nprops - pos) (drop (pos + 1) (o_propval x))\<rparr>) db
     else None
   })"

definition remove_prop_recursively :: "objid \<Rightarrow> nat \<Rightarrow> db \<Rightarrow> db option" where
  "remove_prop_recursively root root_pos db =
    tree_walk (\<lambda>root pos db. map_option (\<lambda>db. (db, pos)) (remove_prop root pos db))
      (\<lambda>db c pos. child_pos db c pos) (Inl (root, root_pos)) db"

definition db_delete_propdef :: "objid \<Rightarrow> string \<Rightarrow> db \<Rightarrow> (bool \<times> db) option" where
  "db_delete_propdef oid pname db = (do {
     x \<leftarrow> dbpriv_find_object db oid;
     case find_index (prop_match pname (str_hash pname)) (o_propdefs x) of
       None \<Rightarrow> Some (False, db)
     | Some i \<Rightarrow> do {
         let mx = o_propdefs_max x;
         let mx' = (if mx > 8 \<and> length (o_propdefs x) \<le> (mx * 3) div 8 then mx div 2 else mx);
         db \<leftarrow> (if length (o_propdefs x) - 1 \<le> mx'
               then modify oid (\<lambda>x. x\<lparr>o_propdefs_max := mx',
                      o_propdefs := take i (o_propdefs x) @ drop (i + 1) (o_propdefs x)\<rparr>) db
               else None);
         db \<leftarrow> remove_prop_recursively oid i db;
         Some (True, db)
       }
   })"

definition db_count_propdefs :: "db \<Rightarrow> objid \<Rightarrow> nat option" where
  "db_count_propdefs db oid = map_option (length \<circ> o_propdefs) (dbpriv_find_object db oid)"

fun for_all_names :: "('s \<Rightarrow> string \<Rightarrow> bool \<times> 's) \<Rightarrow> 's \<Rightarrow> propdef list \<Rightarrow> bool \<times> 's" where
  "for_all_names func data [] = (False, data)"
| "for_all_names func data (d # ds) = (case func data (pd_name d) of
     (stop, data) \<Rightarrow> if stop then (True, data) else for_all_names func data ds)"

definition db_for_all_propdefs :: "db \<Rightarrow> objid \<Rightarrow> ('s \<Rightarrow> string \<Rightarrow> bool \<times> 's) \<Rightarrow> 's \<Rightarrow> (bool \<times> 's) option" where
  "db_for_all_propdefs db oid func data =
    map_option (\<lambda>x. for_all_names func data (o_propdefs x)) (dbpriv_find_object db oid)"

subsection \<open>Changing parents\<close>

text \<open>\<open>new_slots\<close> are the slots from the new ancestors, clear, with the owner's slots owned by the
  object itself.\<close>

definition new_slot :: "object \<Rightarrow> pval \<Rightarrow> pval" where
  "new_slot me pv = pv\<lparr>pv_var := VClear,
     pv_owner := (if (pv_perms pv AND PF_CHOWN) \<noteq> 0 then o_owner me else pv_owner pv)\<rparr>"

definition fix_slots :: "nat \<Rightarrow> nat \<Rightarrow> nat \<Rightarrow> objid \<Rightarrow> nat \<Rightarrow> db \<Rightarrow> (db \<times> nat) option" where
  "fix_slots old new common oid parent_local db = (do {
     me \<leftarrow> dbpriv_find_object db oid;
     let local = parent_local + length (o_propdefs me);
     inherited \<leftarrow> (if new = 0 then Some []
        else do {
          parent \<leftarrow> dbpriv_find_object db (o_parent me);
          if parent_local + new \<le> length (o_propval parent)
          then Some (map (new_slot me) (take new (drop parent_local (o_propval parent)))) else None
        });
     if local + old + common \<le> length (o_propval me)
     then map_option (\<lambda>db. (db, local)) (modify oid (\<lambda>me. me\<lparr>o_waif_propdefs := None,
       o_propval := take local (o_propval me) @ inherited @ take common (drop (local + old) (o_propval me))\<rparr>) db)
     else None
   })"

definition fix_props :: "objid \<Rightarrow> nat \<Rightarrow> nat \<Rightarrow> nat \<Rightarrow> nat \<Rightarrow> db \<Rightarrow> db option" where
  "fix_props oid parent_local old new common db =
    tree_walk (fix_slots old new common) (\<lambda>db c local. Some local) (Inl (oid, parent_local)) db"

fun none_below :: "propdef list \<Rightarrow> db \<Rightarrow> objid \<Rightarrow> bool option" where
  "none_below [] db oid = Some True"
| "none_below (d # ds) db oid = (do {
     b \<leftarrow> property_defined_at_or_below (pd_name d) (pd_hash d) db oid;
     if b then Some False else none_below ds db oid
   })"

partial_function (option) dbpriv_check_properties_for_chparent :: "db \<Rightarrow> objid \<Rightarrow> objid \<Rightarrow> bool option" where
  "dbpriv_check_properties_for_chparent db oid new_parent = (case dbpriv_find_object db new_parent of
     None \<Rightarrow> Some True
   | Some x \<Rightarrow> do {
       ok \<leftarrow> none_below (o_propdefs x) db oid;
       if ok then dbpriv_check_properties_for_chparent db oid (o_parent x) else Some False
     })"

declare dbpriv_check_properties_for_chparent.simps [code]

partial_function (option) on_the_way_up :: "db \<Rightarrow> objid \<Rightarrow> objid \<Rightarrow> bool option" where
  "on_the_way_up db o1 o2 =
    (if o2 = NOTHING then Some False
     else if o1 = o2 then Some True
     else do {
       p \<leftarrow> db_object_parent db o2;
       on_the_way_up db o1 p
     })"

declare on_the_way_up.simps [code]

partial_function (option) common_ancestor :: "db \<Rightarrow> objid \<Rightarrow> objid \<Rightarrow> objid option" where
  "common_ancestor db o1 old_parent =
    (if o1 = NOTHING then Some NOTHING
     else do {
       found \<leftarrow> on_the_way_up db o1 old_parent;
       if found then Some o1
       else do {
         p \<leftarrow> db_object_parent db o1;
         common_ancestor db p old_parent
       }
     })"

declare common_ancestor.simps [code]

definition dbpriv_fix_properties_after_chparent :: "objid \<Rightarrow> objid \<Rightarrow> db \<Rightarrow> db option" where
  "dbpriv_fix_properties_after_chparent oid old_parent db = (do {
     new_parent \<leftarrow> db_object_parent db oid;
     common \<leftarrow> common_ancestor db new_parent old_parent;
     common_props \<leftarrow> (if common \<noteq> NOTHING then dbpriv_count_properties db common else Some 0);
     old_props \<leftarrow> dbpriv_count_properties db old_parent;
     new_props \<leftarrow> dbpriv_count_properties db new_parent;
     if common_props \<le> old_props \<and> common_props \<le> new_props
     then fix_props oid 0 (old_props - common_props) (new_props - common_props) common_props db
     else None
   })"

subsection \<open>Walking the tree\<close>

abbreviation kids_rel :: "db \<Rightarrow> (objid \<times> objid) set" where
  "kids_rel db \<equiv> parents_rel Children db"

definition descendants :: "db \<Rightarrow> objid \<Rightarrow> objid set" where
  "descendants db x = {y. (y, x) \<in> (kids_rel db)\<^sup>*}"

lemma kids_rel_iff: "(c, p) \<in> kids_rel db \<longleftrightarrow> p \<noteq> NOTHING \<and> (\<exists>a. heap db c = Some a \<and> o_parent a = p)"
  by (auto simp: parents_rel_def members_def)

lemma kids_rel_finite: "hier_ok Children db \<Longrightarrow> finite (kids_rel db)"
proof (rule finite_subset)
  assume ok: "hier_ok Children db"
  show "kids_rel db \<subseteq> {0..<int (length (objects db))} \<times> {0..<int (length (objects db))}"
  proof
    fix e assume "e \<in> kids_rel db"
    then obtain c p a where e: "e = (c, p)" "heap db c = Some a" "o_parent a = p" "p \<noteq> NOTHING"
      by (cases e) (auto simp: kids_rel_iff)
    with ok have "valid db p" by (force simp: hier_ok_def)
    with e heap_Some_range [of db] show "e \<in> {0..<int (length (objects db))} \<times> {0..<int (length (objects db))}"
      by (auto simp: valid_heap)
  qed
qed simp

lemma kids_rel_wf:
  assumes "hier_ok Children db"
  shows "wf (kids_rel db)" "wf ((kids_rel db)\<inverse>)"
  using kids_rel_finite [OF assms] assms
  by (auto simp: hier_ok_def intro: finite_acyclic_wf finite_acyclic_wf_converse)

lemma kids_rel_single: "single_valued (kids_rel db)"
  by (auto simp: single_valued_def kids_rel_iff)

lemma siblings_apart:
  assumes "hier_ok Children db" "(k, x) \<in> kids_rel db" "(l, x) \<in> kids_rel db" "k \<noteq> l"
  shows "descendants db k \<inter> descendants db l = {}"
proof (rule ccontr)
  assume "descendants db k \<inter> descendants db l \<noteq> {}"
  then obtain y where "(y, k) \<in> (kids_rel db)\<^sup>*" "(y, l) \<in> (kids_rel db)\<^sup>*" by (auto simp: descendants_def)
  then have "(k, l) \<in> (kids_rel db)\<^sup>* \<or> (l, k) \<in> (kids_rel db)\<^sup>*"
    by (rule single_valued_confluent [OF kids_rel_single])
  moreover have "False" if kl: "(k, l) \<in> (kids_rel db)\<^sup>*" "(k, x) \<in> kids_rel db" "(l, x) \<in> kids_rel db" "k \<noteq> l" for k l
  proof -
    obtain z where "(k, z) \<in> kids_rel db" "(z, l) \<in> (kids_rel db)\<^sup>*"
      using kl(1,4) by (auto elim: converse_rtranclE)
    moreover have "z = x" using calculation(1) kl(2) by (auto simp: kids_rel_iff)
    ultimately have "(x, x) \<in> (kids_rel db)\<^sup>+" using kl(3) by (auto intro: rtrancl_into_trancl1)
    then show False using assms(1) by (auto simp: hier_ok_def acyclic_def)
  qed
  ultimately show False using assms(2-4) by blast
qed

lemma descendants_unfold:
  "descendants db x = insert x (\<Union>k \<in> {k. (k, x) \<in> kids_rel db}. descendants db k)"
proof -
  have "(y, x) \<in> (kids_rel db)\<^sup>* \<longleftrightarrow> y = x \<or> (\<exists>k. (y, k) \<in> (kids_rel db)\<^sup>* \<and> (k, x) \<in> kids_rel db)" for y
    by (metis rtrancl.simps)
  then show ?thesis by (auto simp: descendants_def)
qed

lemma descendants_not_above:
  "hier_ok Children db \<Longrightarrow> (k, x) \<in> kids_rel db \<Longrightarrow> x \<notin> descendants db k"
  by (auto simp: hier_ok_def acyclic_def descendants_def dest: rtrancl_into_trancl2)

lemma descendants_trans: "y \<in> descendants db x \<Longrightarrow> z \<in> descendants db y \<Longrightarrow> z \<in> descendants db x"
  by (auto simp: descendants_def)

lemma descendants_self [simp]: "x \<in> descendants db x"
  by (simp add: descendants_def)

text \<open>The state of a walk: the objects of \<open>S\<close> have been replaced by what \<open>eo\<close> says, the others are as
  at the beginning.\<close>

definition walked :: "(objid \<Rightarrow> object option) \<Rightarrow> db \<Rightarrow> objid \<Rightarrow> objid set \<Rightarrow> db \<Rightarrow> bool" where
  "walked eo db root S d \<longleftrightarrow> S \<subseteq> descendants db root \<and> rest d = rest db \<and>
    length (objects d) = length (objects db) \<and> heap d = (\<lambda>y. if y \<in> S then eo y else heap db y)"

lemma walked_empty: "walked eo db root {} db"
  by (simp add: walked_def)

lemma modify_walked:
  assumes "walked eo db root S d" "x \<in> descendants db root" "heap d x = Some a" "eo x = Some (f a)"
  shows "\<exists>d'. modify x f d = Some d' \<and> walked eo db root (insert x S) d'"
  using modify_ok [OF assms(3), of f] assms by (fastforce simp: walked_def fun_eq_iff)

lemma walk_siblings:
  assumes ok: "hier_ok Children db"
    and eo: "\<And>y. map_option (links Children) (eo y) = map_option (links Children) (heap db y)"
    and arg: "\<And>c S d. (c, x) \<in> kids_rel db \<Longrightarrow> walked eo db root S d \<Longrightarrow> arg d c (eb x) = Some (ea c)"
    and sub: "\<And>c S d. (c, x) \<in> kids_rel db \<Longrightarrow> walked eo db root S d \<Longrightarrow> descendants db c \<inter> S = {} \<Longrightarrow> x \<in> S \<Longrightarrow>
      \<exists>d'. tree_walk visit arg (Inl (c, ea c)) d = Some d' \<and> walked eo db root (S \<union> descendants db c) d'"
    and "path Children (heap db) c cs NOTHING" "distinct cs" "\<forall>k \<in> set cs. (k, x) \<in> kids_rel db"
    and "walked eo db root S d" "\<forall>k \<in> set cs. descendants db k \<inter> S = {}" "x \<in> S"
  shows "\<exists>d'. tree_walk visit arg (Inr (c, eb x)) d = Some d' \<and>
    walked eo db root (S \<union> (\<Union>k \<in> set cs. descendants db k)) d'"
  using assms(5-)
proof (induction cs arbitrary: c S d)
  case Nil
  then show ?case by (subst tree_walk.simps) simp
next
  case (Cons k cs)
  then obtain a where a: "c = k" "k \<noteq> NOTHING" "heap db k = Some a" "path Children (heap db) (o_sibling a) cs NOTHING"
    by auto
  have kx: "(k, x) \<in> kids_rel db" using Cons.prems by simp
  obtain d1 where d1: "tree_walk visit arg (Inl (k, ea k)) d = Some d1"
    "walked eo db root (S \<union> descendants db k) d1"
    using sub [OF kx Cons.prems(4)] Cons.prems(5,6) by auto
  obtain b where b: "heap d1 k = Some b" "o_sibling b = o_sibling a"
  proof -
    have "heap d1 k = eo k" using d1(2) by (simp add: walked_def)
    then show thesis using that eo [of k] a(3) by (cases "eo k") (auto simp: links_def)
  qed
  have "\<forall>l \<in> set cs. descendants db l \<inter> (S \<union> descendants db k) = {}"
  proof
    fix l assume l: "l \<in> set cs"
    then have "k \<noteq> l" "(l, x) \<in> kids_rel db" using Cons.prems by auto
    with siblings_apart [OF ok kx] l Cons.prems(5) show "descendants db l \<inter> (S \<union> descendants db k) = {}" by auto
  qed
  with Cons.IH [OF a(4) _ _ d1(2)] Cons.prems obtain d2 where d2:
    "tree_walk visit arg (Inr (o_sibling a, eb x)) d1 = Some d2"
    "walked eo db root (S \<union> descendants db k \<union> (\<Union>k \<in> set cs. descendants db k)) d2" by auto
  have "tree_walk visit arg (Inr (c, eb x)) d = Some d2"
    using a(1,2) arg [OF kx Cons.prems(4)] d1(1) b d2(1) by (subst tree_walk.simps) simp
  with d2(2) show ?case by (auto simp: Un_assoc)
qed

text \<open>Every descendant is visited once, with the argument \<open>ea\<close> says, after its parent and before its
  children.\<close>

lemma tree_walk_rule:
  assumes ok: "hier_ok Children db"
    and eo: "\<And>y. map_option (links Children) (eo y) = map_option (links Children) (heap db y)"
    and visit: "\<And>x S d. x \<in> descendants db root \<Longrightarrow> valid db x \<Longrightarrow> walked eo db root S d \<Longrightarrow> x \<notin> S \<Longrightarrow>
       x = root \<or> (\<exists>p. (x, p) \<in> kids_rel db \<and> p \<in> S) \<Longrightarrow>
       \<exists>d'. visit x (ea x) d = Some (d', eb x) \<and> walked eo db root (insert x S) d'"
    and arg: "\<And>x c S d. x \<in> descendants db root \<Longrightarrow> (c, x) \<in> kids_rel db \<Longrightarrow> walked eo db root S d \<Longrightarrow>
       arg d c (eb x) = Some (ea c)"
    and "valid db root"
  shows "\<exists>d. tree_walk visit arg (Inl (root, ea root)) db = Some d \<and> walked eo db root (descendants db root) d"
proof -
  have "\<exists>d'. tree_walk visit arg (Inl (x, ea x)) d = Some d' \<and> walked eo db root (S \<union> descendants db x) d'"
    if "x \<in> descendants db root" "valid db x" "walked eo db root S d" "descendants db x \<inter> S = {}"
      "x = root \<or> (\<exists>p. (x, p) \<in> kids_rel db \<and> p \<in> S)" for x S d
    using kids_rel_wf(1) [OF ok] that
  proof (induction x arbitrary: S d rule: wf_induct_rule)
    case (less x)
    have "x \<notin> S" using less.prems(4) descendants_self [of x db] by blast
    then obtain d1 where d1: "visit x (ea x) d = Some (d1, eb x)" "walked eo db root (insert x S) d1"
      using visit less.prems by blast
    obtain a where a: "heap db x = Some a" using less.prems(2) by (auto simp: valid_heap)
    obtain b where b: "heap d1 x = Some b" "o_child b = o_child a"
    proof -
      have "heap d1 x = eo x" using d1(2) by (simp add: walked_def)
      then show thesis using that eo [of x] a by (cases "eo x") (auto simp: links_def)
    qed
    obtain cs where cs: "path Children (heap db) (o_child a) cs NOTHING" "distinct cs" "set cs = members Children db x"
      using ok less.prems(2) a unfolding hier_ok_def listing_def by (fastforce simp: chain_iff)
    have xn: "x \<noteq> NOTHING" using a by auto
    then have kids: "set cs = {k. (k, x) \<in> kids_rel db}" using cs(3) by (simp add: parents_rel_def)
    have "\<exists>d'. tree_walk visit arg (Inr (o_child a, eb x)) d1 = Some d' \<and>
      walked eo db root (insert x S \<union> (\<Union>k \<in> set cs. descendants db k)) d'"
    proof (rule walk_siblings [OF ok eo _ _ cs(1,2) _ d1(2)])
      fix c S d assume "(c, x) \<in> kids_rel db" "walked eo db root S d"
      then show "arg d c (eb x) = Some (ea c)" using arg less.prems(1) by blast
    next
      fix c S d assume c: "(c, x) \<in> kids_rel db" "walked eo db root S d" "descendants db c \<inter> S = {}" "x \<in> S"
      have "c \<in> descendants db x" using c(1) by (auto simp: descendants_def)
      then have "c \<in> descendants db root" using less.prems(1) descendants_trans by blast
      moreover have "valid db c" using c(1) by (auto simp: kids_rel_iff valid_heap)
      ultimately show "\<exists>d'. tree_walk visit arg (Inl (c, ea c)) d = Some d' \<and>
          walked eo db root (S \<union> descendants db c) d'"
        using less.IH [OF c(1) _ _ c(2,3)] c(1,4) by blast
    next
      show "\<forall>k\<in>set cs. (k, x) \<in> kids_rel db" using kids by blast
    next
      show "\<forall>k\<in>set cs. descendants db k \<inter> insert x S = {}"
      proof
        fix k assume "k \<in> set cs"
        then have k: "(k, x) \<in> kids_rel db" using kids by blast
        then have "descendants db k \<subseteq> descendants db x" by (auto simp: descendants_def)
        with less.prems(4) descendants_not_above [OF ok k] show "descendants db k \<inter> insert x S = {}" by auto
      qed
    qed simp
    then obtain d2 where d2: "tree_walk visit arg (Inr (o_child a, eb x)) d1 = Some d2"
      "walked eo db root (insert x S \<union> (\<Union>k \<in> set cs. descendants db k)) d2" by blast
    have "tree_walk visit arg (Inl (x, ea x)) d = Some d2"
      using d1(1) b d2(1) by (subst tree_walk.simps) simp
    moreover have "insert x S \<union> (\<Union>k \<in> set cs. descendants db k) = S \<union> descendants db x"
      using kids by (subst (2) descendants_unfold) auto
    ultimately show ?case using d2(2) by auto
  qed
  from this [of root "{}" db] assms(5) walked_empty show ?thesis by simp
qed

subsection \<open>The slots of an object\<close>

text \<open>The definitions an object has slots for, with their definers, in the order of the slots.\<close>

partial_function (option) slot_defs :: "db \<Rightarrow> objid \<Rightarrow> (objid \<times> propdef) list option" where
  "slot_defs db oid = (case dbpriv_find_object db oid of
     None \<Rightarrow> Some []
   | Some x \<Rightarrow> do {
       ds \<leftarrow> slot_defs db (o_parent x);
       Some (map (Pair oid) (o_propdefs x) @ ds)
     })"

declare slot_defs.simps [code]

definition slots :: "db \<Rightarrow> objid \<Rightarrow> (objid \<times> propdef) list" where
  "slots db oid = the (slot_defs db oid)"

definition own :: "db \<Rightarrow> objid \<Rightarrow> (objid \<times> propdef) list" where
  "own db x = (case heap db x of None \<Rightarrow> [] | Some a \<Rightarrow> map (Pair x) (o_propdefs a))"

definition parent_of :: "db \<Rightarrow> objid \<Rightarrow> objid" where
  "parent_of db x = (case heap db x of None \<Rightarrow> NOTHING | Some a \<Rightarrow> o_parent a)"

lemma kids_rel_parent: "(c, p) \<in> kids_rel db \<longleftrightarrow> valid db c \<and> p \<noteq> NOTHING \<and> p = parent_of db c"
  by (auto simp: kids_rel_iff parent_of_def valid_heap)

text \<open>Induction up the parents.\<close>

lemma up_induct [consumes 1, case_names invalid valid]:
  assumes "hier_ok Children db"
    and "\<And>x. heap db x = None \<Longrightarrow> P x"
    and "\<And>x a. heap db x = Some a \<Longrightarrow> P (o_parent a) \<Longrightarrow> P x"
  shows "P x"
  using kids_rel_wf(2) [OF assms(1)]
proof (induction x rule: wf_induct_rule)
  case (less x)
  show ?case
  proof (cases "heap db x")
    case (Some a)
    show ?thesis
    proof (cases "o_parent a = NOTHING")
      case True
      then show ?thesis using assms(3) [OF Some] assms(2) [of NOTHING] by simp
    next
      case False
      then have "(o_parent a, x) \<in> (kids_rel db)\<inverse>" using Some by (simp add: kids_rel_iff)
      then show ?thesis using assms(3) [OF Some] less.IH by blast
    qed
  qed (rule assms(2))
qed

lemma slot_defs_total: "hier_ok Children db \<Longrightarrow> \<exists>ds. slot_defs db x = Some ds"
proof (induction x rule: up_induct)
  case (invalid x)
  then show ?case by (subst slot_defs.simps) simp
next
  case (valid x a)
  then show ?case by (subst slot_defs.simps) auto
qed

lemma slots_invalid [simp]: "heap db x = None \<Longrightarrow> slots db x = []"
  by (simp add: slots_def slot_defs.simps)

lemma slots_valid:
  "hier_ok Children db \<Longrightarrow> heap db x = Some a \<Longrightarrow> slots db x = map (Pair x) (o_propdefs a) @ slots db (o_parent a)"
  using slot_defs_total [of db "o_parent a"] by (auto simp: slots_def slot_defs.simps [of db x])

lemma count_slots:
  assumes ok: "hier_ok Children db"
  shows "dbpriv_count_properties db x = Some (length (slots db x))"
  using ok
proof (induction x rule: up_induct)
  case (invalid x)
  then show ?case by (subst dbpriv_count_properties.simps) simp
next
  case (valid x a)
  then show ?case by (subst dbpriv_count_properties.simps) (simp add: slots_valid [OF ok valid(1)])
qed

definition defs_and_parent :: "object \<Rightarrow> objid \<times> propdef list" where
  "defs_and_parent a = (o_parent a, o_propdefs a)"

lemma slots_cong:
  assumes "hier_ok Children db" "hier_ok Children d"
    and "\<And>y. map_option defs_and_parent (heap d y) = map_option defs_and_parent (heap db y)"
  shows "slots d x = slots db x"
  using assms(1)
proof (induction x rule: up_induct)
  case (invalid x)
  then have "heap d x = None" using assms(3) [of x] by simp
  with invalid show ?case by simp
next
  case (valid x a)
  then obtain b where b: "heap d x = Some b" "o_parent b = o_parent a" "o_propdefs b = o_propdefs a"
    using assms(3) [of x] by (auto simp: defs_and_parent_def)
  with valid show ?case by (simp add: slots_valid [OF assms(1)] slots_valid [OF assms(2)])
qed

text \<open>The slots of an ancestor are a suffix.\<close>

lemma slots_above:
  assumes "hier_ok Children db" "x \<in> descendants db r"
  shows "\<exists>ds. slots db x = ds @ slots db r"
proof -
  have "(x, r) \<in> (kids_rel db)\<^sup>*" using assms(2) by (simp add: descendants_def)
  then show ?thesis
  proof (induction rule: converse_rtrancl_induct)
    case (step y z)
    then obtain a where "heap db y = Some a" "o_parent a = z" by (auto simp: kids_rel_iff)
    with step.IH show ?case by (auto simp: slots_valid [OF assms(1)])
  qed simp
qed

text \<open>How many slots come before those of an ancestor.\<close>

definition below :: "db \<Rightarrow> objid \<Rightarrow> objid \<Rightarrow> nat" where
  "below db r x = length (slots db x) - length (slots db r)"

lemma below_self [simp]: "below db r r = 0"
  by (simp add: below_def)

lemma below_child:
  assumes "hier_ok Children db" "x \<in> descendants db r" "(c, x) \<in> kids_rel db" "heap db c = Some a"
  shows "below db r c = length (o_propdefs a) + below db r x"
proof -
  have "length (slots db r) \<le> length (slots db x)" using slots_above [OF assms(1,2)] by auto
  then show ?thesis using assms(3,4) slots_valid [OF assms(1,4)] by (auto simp: below_def kids_rel_iff)
qed

subsection \<open>The invariant of properties\<close>

definition key :: "objid \<times> propdef \<Rightarrow> objid \<times> int list" where
  "key s = (fst s, fold_case (pd_name (snd s)))"

definition names_of :: "(objid \<times> propdef) list \<Rightarrow> int list list" where
  "names_of ds = map (\<lambda>s. fold_case (pd_name (snd s))) ds"

definition propdef_ok :: "propdef \<Rightarrow> bool" where
  "propdef_ok d \<longleftrightarrow> pd_hash d = str_hash (pd_name d) \<and> find_bi (pd_name d) = None \<and> c_string (pd_name d)"

definition obj_props_ok :: "db \<Rightarrow> objid \<Rightarrow> object \<Rightarrow> bool" where
  "obj_props_ok db x a \<longleftrightarrow>
    length (o_propval a) = length (slots db x) \<and> distinct (names_of (slots db x)) \<and>
    (\<forall>d \<in> set (o_propdefs a). propdef_ok d) \<and> length (o_propdefs a) \<le> o_propdefs_max a \<and>
    (\<forall>n < length (o_propdefs a). pv_var (o_propval a ! n) \<noteq> VClear)"

definition props_ok :: "db \<Rightarrow> bool" where
  "props_ok db \<longleftrightarrow> objects_ok db \<and> (\<forall>x a. heap db x = Some a \<longrightarrow> obj_props_ok db x a)"

text \<open>The properties of an object as a map: from the definer and the name, up to case, to the slot.\<close>

definition prop_map :: "db \<Rightarrow> objid \<Rightarrow> objid \<times> int list \<Rightarrow> pval option" where
  "prop_map db x = (case heap db x of None \<Rightarrow> Map.empty
     | Some a \<Rightarrow> map_of (zip (map key (slots db x)) (o_propval a)))"

lemma props_okD:
  "props_ok db \<Longrightarrow> objects_ok db" "props_ok db \<Longrightarrow> hier_ok h db"
  "props_ok db \<Longrightarrow> heap db x = Some a \<Longrightarrow> obj_props_ok db x a"
  by (auto simp: props_ok_def objects_okD)

lemma slots_propdef_ok: "props_ok db \<Longrightarrow> (y, d) \<in> set (slots db x) \<Longrightarrow> propdef_ok d \<and> (\<exists>a. heap db y = Some a \<and> d \<in> set (o_propdefs a))"
proof -
  assume ok: "props_ok db"
  have "\<forall>(y, d) \<in> set (slots db x). propdef_ok d \<and> (\<exists>a. heap db y = Some a \<and> d \<in> set (o_propdefs a))"
    using props_okD(2) [OF ok, of Children]
  proof (induction x rule: up_induct)
    case (valid x a)
    then show ?case
      using props_okD(3) [OF ok valid(1)] slots_valid [OF props_okD(2) [OF ok] valid(1)]
      by (auto simp: obj_props_ok_def)
  qed simp
  then show "(y, d) \<in> set (slots db x) \<Longrightarrow> propdef_ok d \<and> (\<exists>a. heap db y = Some a \<and> d \<in> set (o_propdefs a))" by blast
qed

lemma distinct_keys: "distinct (names_of ds) \<Longrightarrow> distinct (map key ds)"
proof -
  have "names_of ds = map snd (map key ds)" by (simp add: names_of_def key_def)
  then show "distinct (names_of ds) \<Longrightarrow> distinct (map key ds)" by (metis distinct_map)
qed

lemma prop_map_nth:
  assumes "props_ok db" "heap db x = Some a" "n < length (slots db x)"
  shows "prop_map db x (key (slots db x ! n)) = Some (o_propval a ! n)"
proof -
  have o: "obj_props_ok db x a" by (rule props_okD(3) [OF assms(1,2)])
  then have "distinct (map key (slots db x))" by (auto simp: obj_props_ok_def distinct_keys)
  then show ?thesis
    using o assms(2,3) map_of_zip_nth [of "map key (slots db x)" "o_propval a" n]
    by (simp add: prop_map_def obj_props_ok_def)
qed

lemma prop_map_None:
  assumes "props_ok db" "heap db x = Some a"
  shows "prop_map db x k = None \<longleftrightarrow> k \<notin> key ` set (slots db x)"
  using props_okD(3) [OF assms] assms(2)
  by (auto simp: prop_map_def obj_props_ok_def map_of_zip_is_None)

subsection \<open>What looking up finds\<close>

lemma find_index_append:
  "find_index P (xs @ ys) =
    (case find_index P xs of Some i \<Rightarrow> Some i
     | None \<Rightarrow> (case find_index P ys of None \<Rightarrow> None | Some i \<Rightarrow> Some (length xs + i)))"
  by (induction xs) (auto split: option.splits)

lemma find_index_map: "find_index P (map f xs) = find_index (P \<circ> f) xs"
  by (induction xs) auto

lemma find_index_Some: "find_index P xs = Some i \<Longrightarrow> i < length xs \<and> P (xs ! i) \<and> (\<forall>j < i. \<not> P (xs ! j))"
  by (induction xs arbitrary: i) (auto split: if_splits simp: less_Suc_eq_0_disj)

lemma find_index_None: "find_index P xs = None \<longleftrightarrow> (\<forall>x \<in> set xs. \<not> P x)"
  by (induction xs) auto

lemma find_index_cong: "(\<And>x. x \<in> set xs \<Longrightarrow> P x = Q x) \<Longrightarrow> find_index P xs = find_index Q xs"
  by (induction xs) auto

lemma find_slot_spec:
  assumes ok: "props_ok db"
  shows "find_slot db name hash x n =
    Some (map_option (\<lambda>i. (fst (slots db x ! i), n + i)) (find_index (\<lambda>s. prop_match name hash (snd s)) (slots db x)))"
  using props_okD(2) [OF ok, of Children]
proof (induction x arbitrary: n rule: up_induct)
  case (invalid x)
  then show ?case by (subst find_slot.simps) simp
next
  case (valid x a)
  let ?P = "\<lambda>s. prop_match name hash (snd s)"
  have s: "slots db x = map (Pair x) (o_propdefs a) @ slots db (o_parent a)"
    by (rule slots_valid [OF props_okD(2) [OF ok] valid(1)])
  have id: "o_id a = x" using props_okD(1) [OF ok] valid(1) by (simp add: objects_ok_def ids_ok_def)
  have f: "find_index ?P (map (Pair x) (o_propdefs a)) = find_index (prop_match name hash) (o_propdefs a)"
    by (simp add: find_index_map o_def)
  show ?case
  proof (cases "find_index (prop_match name hash) (o_propdefs a)")
    case (Some i)
    then have "i < length (o_propdefs a)" using find_index_Some by fast
    with Some valid(1) show ?thesis
      by (subst find_slot.simps) (simp add: s find_index_append f id nth_append)
  next
    case None
    with valid show ?thesis
      by (subst find_slot.simps, cases "find_index ?P (slots db (o_parent a))")
        (simp_all add: s find_index_append f nth_append)
  qed
qed

lemma prop_match_fold:
  assumes "propdef_ok d" "c_string name"
  shows "prop_match name (str_hash name) d \<longleftrightarrow> fold_case (pd_name d) = fold_case name"
  using hash_and_compare [of "pd_name d" name] assms by (simp add: prop_match_def propdef_ok_def)

lemma find_slot_name:
  assumes ok: "props_ok db" and "c_string name"
  shows "find_slot db name (str_hash name) x 0 =
    Some (map_option (\<lambda>i. (fst (slots db x ! i), i))
      (find_index (\<lambda>s. fold_case (pd_name (snd s)) = fold_case name) (slots db x)))"
proof -
  have "find_index (\<lambda>s. prop_match name (str_hash name) (snd s)) (slots db x) =
      find_index (\<lambda>s. fold_case (pd_name (snd s)) = fold_case name) (slots db x)"
    using slots_propdef_ok [OF ok, of _ _ x] prop_match_fold [OF _ assms(2)]
    by (intro find_index_cong) fastforce
  then show ?thesis by (simp add: find_slot_spec [OF ok])
qed

text \<open>Inheritance: the value of a property is its own unless clear, and the parent's if clear.\<close>

inductive inherits :: "db \<Rightarrow> objid \<times> int list \<Rightarrow> objid \<Rightarrow> var \<Rightarrow> bool" for db k where
  set_here: "prop_map db x k = Some p \<Longrightarrow> pv_var p \<noteq> VClear \<Longrightarrow> inherits db k x (pv_var p)"
| clear_here: "prop_map db x k = Some p \<Longrightarrow> pv_var p = VClear \<Longrightarrow> inherits db k (parent_of db x) v \<Longrightarrow>
    inherits db k x v"

inductive_cases inheritsE: "inherits db k x v"

lemma inherits_det: "inherits db k x v \<Longrightarrow> inherits db k x w \<Longrightarrow> v = w"
proof (induction arbitrary: w rule: inherits.induct)
  case (set_here x p)
  from set_here(3) show ?case
  proof (rule inheritsE)
    fix p' assume "w = pv_var p'" "prop_map db x k = Some p'"
    with set_here(1) show "pv_var p = w" by simp
  next
    fix p' assume "prop_map db x k = Some p'" "pv_var p' = VClear"
    with set_here(1,2) show "pv_var p = w" by simp
  qed
next
  case (clear_here x p v)
  from clear_here(5) show ?case
  proof (rule inheritsE)
    fix p' assume "prop_map db x k = Some p'" "pv_var p' \<noteq> VClear"
    with clear_here(1,2) show "v = w" by simp
  next
    assume "inherits db k (parent_of db x) w"
    then show "v = w" by (rule clear_here.IH)
  qed
qed

lemma slot_value_spec:
  assumes ok: "props_ok db"
  shows "n < length (slots db x) \<Longrightarrow> \<exists>v. slot_value db x n = Some v \<and> v \<noteq> VClear \<and> inherits db (key (slots db x ! n)) x v"
  using props_okD(2) [OF ok, of Children]
proof (induction x arbitrary: n rule: up_induct)
  case (invalid x)
  then show ?case by simp
next
  case (valid x a)
  note o = props_okD(3) [OF ok valid(1)]
  have s: "slots db x = map (Pair x) (o_propdefs a) @ slots db (o_parent a)"
    by (rule slots_valid [OF props_okD(2) [OF ok] valid(1)])
  have nth: "nth_opt (o_propval a) n = Some (o_propval a ! n)"
    using valid.prems o by (simp add: nth_opt_def obj_props_ok_def)
  have m: "prop_map db x (key (slots db x ! n)) = Some (o_propval a ! n)"
    by (rule prop_map_nth [OF ok valid(1) valid.prems])
  show ?case
  proof (cases "pv_var (o_propval a ! n) = VClear")
    case False
    then show ?thesis
      using valid(1) nth inherits.set_here [OF m] by (subst slot_value.simps) simp
  next
    case True
    then have n: "\<not> n < length (o_propdefs a)" using o by (auto simp: obj_props_ok_def)
    then have "n - length (o_propdefs a) < length (slots db (o_parent a))"
      and k: "slots db x ! n = slots db (o_parent a) ! (n - length (o_propdefs a))"
      using valid.prems s by (auto simp: nth_append)
    then obtain v where v: "slot_value db (o_parent a) (n - length (o_propdefs a)) = Some v" "v \<noteq> VClear"
      "inherits db (key (slots db x ! n)) (o_parent a) v" using valid.IH by auto
    have "parent_of db x = o_parent a" using valid(1) by (simp add: parent_of_def)
    then have "inherits db (key (slots db x ! n)) x v" using inherits.clear_here [OF m True] v(3) by simp
    then show ?thesis
      using valid(1) nth True n v by (subst slot_value.simps) simp
  qed
qed

lemma defined_below_siblings:
  assumes "\<And>k. k \<in> set cs \<Longrightarrow> property_defined_below P db (Inl k) = Some (Q k)"
    and "path Children (heap db) c cs NOTHING"
  shows "property_defined_below P db (Inr c) = Some (\<exists>k \<in> set cs. Q k)"
  using assms
proof (induction cs arbitrary: c)
  case Nil
  then show ?case by (subst property_defined_below.simps) simp
next
  case (Cons k cs)
  then obtain a where a: "c = k" "k \<noteq> NOTHING" "heap db k = Some a" "path Children (heap db) (o_sibling a) cs NOTHING" by auto
  have "property_defined_below P db (Inr (o_sibling a)) = Some (\<exists>k \<in> set cs. Q k)"
    using Cons.IH [OF _ a(4)] Cons.prems(1) by simp
  with a Cons.prems(1) [of k] show ?case by (subst property_defined_below.simps) simp
qed

lemma defined_below_spec:
  assumes ok: "hier_ok Children db"
  shows "valid db x \<Longrightarrow> property_defined_below P db (Inl x) =
    Some (\<exists>y \<in> descendants db x. \<exists>a. heap db y = Some a \<and> list_ex P (o_propdefs a))"
  using kids_rel_wf(1) [OF ok]
proof (induction x rule: wf_induct_rule)
  case (less x)
  let ?Q = "\<lambda>x. \<exists>y \<in> descendants db x. \<exists>a. heap db y = Some a \<and> list_ex P (o_propdefs a)"
  obtain a where a: "heap db x = Some a" using less.prems by (auto simp: valid_heap)
  obtain cs where cs: "path Children (heap db) (o_child a) cs NOTHING" "set cs = members Children db x"
    using ok less.prems a unfolding hier_ok_def listing_def by (fastforce simp: chain_iff)
  have kids: "set cs = {k. (k, x) \<in> kids_rel db}" using cs(2) a by (auto simp: parents_rel_def)
  have "property_defined_below P db (Inr (o_child a)) = Some (\<exists>k \<in> set cs. ?Q k)"
  proof (rule defined_below_siblings [OF _ cs(1)])
    fix k assume "k \<in> set cs"
    then have "(k, x) \<in> kids_rel db" using kids by blast
    moreover from this have "valid db k" by (simp add: kids_rel_parent)
    ultimately show "property_defined_below P db (Inl k) = Some (?Q k)" by (rule less.IH)
  qed
  moreover have "?Q x \<longleftrightarrow> list_ex P (o_propdefs a) \<or> (\<exists>k \<in> set cs. ?Q k)"
    using a kids by (subst descendants_unfold) auto
  ultimately show ?case using a by (subst property_defined_below.simps) simp
qed

end
