(* ===== verification/DbPropEdits.thy ===== *)
theory DbPropEdits
  imports DbProps
begin

text \<open>
  What the functions that change property definitions do to all objects at once: the invariant of the
  slots is kept and the maps of properties change as the operation says, for the object and all its
  descendants, and for no other.
\<close>

subsection \<open>Changes that leave all but properties alone\<close>

definition base :: "object \<Rightarrow> object" where
  "base a = a\<lparr>o_propdefs := [], o_propdefs_max := 0, o_propval := [], o_waif_propdefs := None\<rparr>"

definition same_base :: "db \<Rightarrow> db \<Rightarrow> bool" where
  "same_base db d \<longleftrightarrow> rest d = rest db \<and> length (objects d) = length (objects db) \<and>
    (\<forall>y. map_option base (heap d y) = map_option base (heap db y))"

lemma same_base_refl [simp]: "same_base db db"
  by (simp add: same_base_def)

lemma same_base_trans: "same_base a b \<Longrightarrow> same_base b c \<Longrightarrow> same_base a c"
  by (simp add: same_base_def)

lemma base_fields:
  "links h (base a) = links h a" "o_flags (base a) = o_flags a" "o_id (base a) = o_id a"
  "o_parent (base a) = o_parent a" "o_owner (base a) = o_owner a" "o_child (base a) = o_child a"
  "o_sibling (base a) = o_sibling a" "o_verbdefs (base a) = o_verbdefs a"
  by (simp_all add: base_def, cases h, simp_all add: links_def)

lemma baseD:
  assumes "base a = base b"
  shows "links h a = links h b" "o_flags a = o_flags b" "o_id a = o_id b" "o_parent a = o_parent b"
    "o_owner a = o_owner b" "o_child a = o_child b" "o_sibling a = o_sibling b"
    "o_verbdefs a = o_verbdefs b"
  by (metis assms base_fields)+

lemma same_base_heap: "same_base db d \<Longrightarrow> heap db y = Some a \<Longrightarrow> \<exists>b. heap d y = Some b \<and> base b = base a"
  by (cases "heap d y") (auto simp: same_base_def dest!: spec [of _ y])

lemma same_base_heap': "same_base db d \<Longrightarrow> heap d y = Some b \<Longrightarrow> \<exists>a. heap db y = Some a \<and> base b = base a"
  by (cases "heap db y") (auto simp: same_base_def dest!: spec [of _ y])

lemma same_base_map:
  assumes "same_base db d" "\<And>a b. base a = base b \<Longrightarrow> F a = F b"
  shows "map_option F (heap d y) = map_option F (heap db y)"
proof (cases "heap db y")
  case None
  then show ?thesis using assms(1) by (cases "heap d y") (auto simp: same_base_def dest!: spec [of _ y])
next
  case (Some a)
  obtain b where b: "heap d y = Some b" "base b = base a" using same_base_heap [OF assms(1) Some] by blast
  have "F b = F a" using b(2) by (rule assms(2))
  with Some b(1) show ?thesis by simp
qed

lemma same_base_links: "same_base db d \<Longrightarrow> same_links h db d"
  unfolding same_links_def using same_base_map [of db d "links h"] baseD(1) by blast

lemma same_base_ok:
  assumes "objects_ok db" "same_base db d"
  shows "objects_ok d"
proof -
  have rd: "rest d = rest db" using assms(2) by (simp add: same_base_def)
  have r: "all_users d = all_users db" "max_objects d = max_objects db" "length (objects d) = length (objects db)"
    using arg_cong [OF rd, of all_users] arg_cong [OF rd, of max_objects] assms(2)
    by (simp_all add: rest_def same_base_def)
  have "users_ok d = users_ok db"
    by (rule users_ok_cong [OF r(1)], rule same_base_map [OF assms(2)], drule baseD(2), simp)
  then have "users_ok d" using assms(1) by (simp add: objects_ok_def)
  then show ?thesis
    by (rule same_objects_ok [OF assms(1) same_base_links [OF assms(2)] _ r(2,3)
          same_base_map [OF assms(2) baseD(3)]])
qed

lemma same_base_kids: "same_base db d \<Longrightarrow> kids_rel d = kids_rel db"
  using same_links_hier(5) [OF same_base_links] by blast

lemma same_base_descendants: "same_base db d \<Longrightarrow> descendants d = descendants db"
  by (simp add: descendants_def same_base_kids fun_eq_iff)

lemma modify_same_base:
  assumes "heap db x = Some a" "base (f a) = base a"
  shows "\<exists>d. modify x f db = Some d \<and> heap d = (heap db)(x \<mapsto> f a) \<and> same_base db d"
  using modify_ok [OF assms(1), of f] assms by (auto simp: same_base_def)

text \<open>A walk that edits each descendant by \<open>f\<close>.\<close>

lemma walk_edit:
  assumes ok: "hier_ok Children db" and v: "valid db root"
    and f: "\<And>y a. base (f y a) = base a" "\<And>y a. o_propdefs (f y a) = o_propdefs a"
    and visit: "\<And>y d a. y \<in> descendants db root \<Longrightarrow> heap db y = Some a \<Longrightarrow> heap d y = Some a \<Longrightarrow>
       same_base db d \<Longrightarrow> slots d = slots db \<Longrightarrow>
       (\<And>p. (y, p) \<in> kids_rel db \<Longrightarrow> heap d p = (if y = root then heap db p else map_option (f p) (heap db p))) \<Longrightarrow>
       visit y (ea y) d = map_option (\<lambda>d. (d, eb y)) (modify y (f y) d)"
    and arg: "\<And>x c d. x \<in> descendants db root \<Longrightarrow> (c, x) \<in> kids_rel db \<Longrightarrow> same_base db d \<Longrightarrow>
       (\<forall>y. map_option o_propdefs (heap d y) = map_option o_propdefs (heap db y)) \<Longrightarrow>
       arg d c (eb x) = Some (ea c)"
  shows "\<exists>d. tree_walk visit arg (Inl (root, ea root)) db = Some d \<and> same_base db d \<and> slots d = slots db \<and>
    heap d = (\<lambda>y. if y \<in> descendants db root then map_option (f y) (heap db y) else heap db y)"
proof -
  let ?eo = "\<lambda>y. map_option (f y) (heap db y)"
  have sb: "same_base db d" if "walked ?eo db root S d" for S d
    using that f(1) by (auto simp: walked_def same_base_def option.map_comp o_def)
  have pd: "map_option o_propdefs (heap d y) = map_option o_propdefs (heap db y)" if "walked ?eo db root S d" for S d y
    using that f(2) by (auto simp: walked_def option.map_comp o_def)
  have sl: "slots d = slots db" if w: "walked ?eo db root S d" for S d
  proof
    fix y
    have "map_option defs_and_parent (heap d z) = map_option defs_and_parent (heap db z)" for z
    proof (cases "heap db z")
      case None
      then show ?thesis using w by (auto simp: walked_def)
    next
      case (Some a)
      then obtain b where b: "heap d z = Some b" "base b = base a" using same_base_heap [OF sb [OF w]] by blast
      then have "o_propdefs b = o_propdefs a" using pd [OF w, of z] Some by simp
      with b Some show ?thesis by (simp add: defs_and_parent_def baseD(4) [OF b(2)])
    qed
    moreover have "hier_ok Children d" using ok same_links_hier(1) [OF same_base_links [OF sb [OF w]]] by simp
    ultimately show "slots d y = slots db y" using ok by (intro slots_cong)
  qed
  have "\<exists>d. tree_walk visit arg (Inl (root, ea root)) db = Some d \<and> walked ?eo db root (descendants db root) d"
  proof (rule tree_walk_rule [OF ok _ _ _ v])
    show "map_option (links Children) (?eo y) = map_option (links Children) (heap db y)" for y
      using baseD(1) [OF f(1)] by (simp add: option.map_comp o_def)
  next
    fix x S d assume h: "x \<in> descendants db root" "valid db x" "walked ?eo db root S d" "x \<notin> S"
      "x = root \<or> (\<exists>p. (x, p) \<in> kids_rel db \<and> p \<in> S)"
    obtain a where a: "heap db x = Some a" using h(2) by (auto simp: valid_heap)
    have dx: "heap d x = Some a" using h(3,4) a by (simp add: walked_def)
    have "heap d p = (if x = root then heap db p else map_option (f p) (heap db p))" if "(x, p) \<in> kids_rel db" for p
    proof (cases "x = root")
      case True
      then have "p \<notin> descendants db root"
        using that ok unfolding hier_ok_def acyclic_def descendants_def by (auto dest: rtrancl_into_trancl2)
      then show ?thesis using h(3) True by (auto simp: walked_def)
    next
      case False
      then obtain p' where "(x, p') \<in> kids_rel db" "p' \<in> S" using h(5) by blast
      then have "p \<in> S" using that by (auto simp: kids_rel_iff)
      then show ?thesis using h(3) False by (simp add: walked_def)
    qed
    from visit [OF h(1) a dx sb [OF h(3)] sl [OF h(3)] this]
    have "visit x (ea x) d = map_option (\<lambda>d. (d, eb x)) (modify x (f x) d)" .
    moreover obtain d' where "modify x (f x) d = Some d'" "walked ?eo db root (insert x S) d'"
      using modify_walked [OF h(3,1) dx, of "f x"] a by auto
    ultimately show "\<exists>d'. visit x (ea x) d = Some (d', eb x) \<and> walked ?eo db root (insert x S) d'" by simp
  next
    fix x c S d assume "x \<in> descendants db root" "(c, x) \<in> kids_rel db" "walked ?eo db root S d"
    then show "arg d c (eb x) = Some (ea c)" using arg sb pd by blast
  qed
  then show ?thesis using sb sl unfolding walked_def by blast
qed

subsection \<open>Slots after a change of definitions\<close>

lemma descendants_child: "(y, p) \<in> kids_rel db \<Longrightarrow> p \<in> descendants db r \<Longrightarrow> y \<in> descendants db r"
  by (auto simp: descendants_def)

lemma slots_edit:
  assumes ok: "hier_ok Children db" and a: "heap db oid = Some a"
    and h: "heap d = (heap db)(oid \<mapsto> a')" and sb: "same_base db d" and b: "base a' = base a"
  shows "y \<notin> descendants db oid \<Longrightarrow> slots d y = slots db y"
    "y \<in> descendants db oid \<Longrightarrow> slots d y =
      take (below db oid y) (slots db y) @ map (Pair oid) (o_propdefs a') @ slots db (o_parent a)"
proof -
  have okd: "hier_ok Children d" using same_links_hier(1) [OF same_base_links [OF sb]] ok by simp
  show out: "y \<notin> descendants db oid \<Longrightarrow> slots d y = slots db y" for y
    using ok
  proof (induction y rule: up_induct)
    case (invalid x)
    then have "heap d x = None" using h a by auto
    with invalid show ?case by simp
  next
    case (valid x c)
    then have x: "x \<noteq> oid" by auto
    then have dx: "heap d x = Some c" using valid(1) h by simp
    have "slots d (o_parent c) = slots db (o_parent c)"
    proof (cases "o_parent c = NOTHING")
      case False
      then have "(x, o_parent c) \<in> kids_rel db" using valid(1) by (simp add: kids_rel_iff)
      then show ?thesis using valid descendants_child by blast
    qed simp
    then show ?case by (simp add: slots_valid [OF ok valid(1)] slots_valid [OF okd dx])
  qed
  have par: "slots d (o_parent a) = slots db (o_parent a)"
  proof (cases "o_parent a = NOTHING")
    case False
    then have "(oid, o_parent a) \<in> kids_rel db" using a by (simp add: kids_rel_iff)
    then have "o_parent a \<notin> descendants db oid" by (rule descendants_not_above [OF ok])
    then show ?thesis by (rule out)
  qed simp
  have d0: "heap d oid = Some a'" using h by simp
  show "y \<in> descendants db oid \<Longrightarrow> slots d y =
      take (below db oid y) (slots db y) @ map (Pair oid) (o_propdefs a') @ slots db (o_parent a)"
  proof -
    assume "y \<in> descendants db oid"
    then have "(y, oid) \<in> (kids_rel db)\<^sup>*" by (simp add: descendants_def)
    then show ?thesis
    proof (induction rule: converse_rtrancl_induct)
      case base
      then show ?case using slots_valid [OF okd d0] par baseD(4) [OF b] by simp
    next
      case (step y z)
      then obtain c where c: "heap db y = Some c" "o_parent c = z" by (auto simp: kids_rel_iff)
      have zd: "z \<in> descendants db oid" using step.hyps(2) by (simp add: descendants_def)
      have "y \<noteq> oid" using descendants_not_above [OF ok step.hyps(1)] zd
          step.hyps ok by (auto simp: hier_ok_def acyclic_def dest: rtrancl_into_trancl2)
      then have dy: "heap d y = Some c" using c(1) h by simp
      have "below db oid y = length (o_propdefs c) + below db oid z"
        by (rule below_child [OF ok zd step.hyps(1) c(1)])
      then show ?case
        using step.IH c(2) by (simp add: slots_valid [OF ok c(1)] slots_valid [OF okd dy])
    qed
  qed
qed

lemma slots_split:
  assumes "hier_ok Children db" "heap db oid = Some a" "y \<in> descendants db oid"
  shows "slots db y = take (below db oid y) (slots db y) @ map (Pair oid) (o_propdefs a) @ slots db (o_parent a)"
    "below db oid y + length (slots db oid) = length (slots db y)"
  using slots_above [OF assms(1,3)] slots_valid [OF assms(1,2)] by (auto simp: below_def)

lemma names_of_simps [simp]:
  "names_of [] = []" "names_of (s # ds) = fold_case (pd_name (snd s)) # names_of ds"
  "names_of (xs @ ys) = names_of xs @ names_of ys"
  by (simp_all add: names_of_def)

lemma set_names_of: "n \<in> set (names_of ds) \<longleftrightarrow> (\<exists>y d. (y, d) \<in> set ds \<and> fold_case (pd_name d) = n)"
  by (force simp: names_of_def)

lemma map_of_middle: "k \<notin> fst ` set A \<Longrightarrow> map_of (A @ (k, v) # B) = (map_of (A @ B))(k \<mapsto> v)"
  by (induction A) (auto simp: fun_upd_twist)

lemma map_of_insert:
  assumes "length ks = length vs" "n \<le> length ks" "k \<notin> set ks"
  shows "map_of (zip (take n ks @ k # drop n ks) (take n vs @ v # drop n vs)) = (map_of (zip ks vs))(k \<mapsto> v)"
proof -
  have "zip (take n ks @ k # drop n ks) (take n vs @ v # drop n vs)
      = zip (take n ks) (take n vs) @ (k, v) # zip (drop n ks) (drop n vs)"
    using assms by simp
  moreover have "zip ks vs = zip (take n ks) (take n vs) @ zip (drop n ks) (drop n vs)"
    using assms(1,2) zip_append [of "take n ks" "take n vs" "drop n ks" "drop n vs"] by simp
  moreover have "k \<notin> fst ` set (zip (take n ks) (take n vs))"
  proof
    assume "k \<in> fst ` set (zip (take n ks) (take n vs))"
    then obtain b where "(k, b) \<in> set (zip (take n ks) (take n vs))" by auto
    then have "k \<in> set (take n ks)" by (rule set_zip_leftD)
    then show False using assms(3) in_set_takeD by fast
  qed
  ultimately show ?thesis by (metis map_of_middle)
qed

subsection \<open>Adding a definition\<close>

definition chown :: "object \<Rightarrow> pval \<Rightarrow> pval" where
  "chown a pv = (if (pv_perms pv AND PF_CHOWN) \<noteq> 0 then pv\<lparr>pv_owner := o_owner a\<rparr> else pv)"

definition added_slot :: "objid \<Rightarrow> pval \<Rightarrow> objid \<Rightarrow> object \<Rightarrow> pval" where
  "added_slot oid pv y a = chown a (if y = oid then pv else pv\<lparr>pv_var := VClear\<rparr>)"

text \<open>The names in use around an object: built in, defined above it, or defined below it.\<close>

definition name_taken :: "db \<Rightarrow> objid \<Rightarrow> string \<Rightarrow> bool" where
  "name_taken db oid name \<longleftrightarrow> find_bi name \<noteq> None \<or> fold_case name \<in> set (names_of (slots db oid)) \<or>
    (\<exists>y \<in> descendants db oid. \<exists>a. heap db y = Some a \<and> (\<exists>d \<in> set (o_propdefs a). fold_case (pd_name d) = fold_case name))"

lemma name_check:
  assumes ok: "props_ok db" and v: "valid db oid" and c: "c_string name"
  shows "\<exists>h. handle_of (db_find_property db oid name False) = Some h \<and>
    (if h \<noteq> NoProp then Some True else property_defined_at_or_below name (str_hash name) db oid)
      = Some (name_taken db oid name)"
proof -
  let ?P = "prop_match name (str_hash name)"
  have "property_defined_at_or_below name (str_hash name) db oid =
      Some (\<exists>y \<in> descendants db oid. \<exists>a. heap db y = Some a \<and> list_ex ?P (o_propdefs a))"
    using defined_below_spec [OF props_okD(2) [OF ok] v] by (simp add: property_defined_at_or_below_def)
  moreover have l: "list_ex ?P (o_propdefs a) = (\<exists>d \<in> set (o_propdefs a). fold_case (pd_name d) = fold_case name)"
    if "heap db y = Some a" for y a
    using props_okD(3) [OF ok that] prop_match_fold [OF _ c] by (fastforce simp: obj_props_ok_def list_ex_iff)
  ultimately have b: "property_defined_at_or_below name (str_hash name) db oid =
      Some (\<exists>y \<in> descendants db oid. \<exists>a. heap db y = Some a \<and> (\<exists>d \<in> set (o_propdefs a). fold_case (pd_name d) = fold_case name))"
    by (simp only: l cong: conj_cong)
  show ?thesis
  proof (cases "find_bi name")
    case (Some bi)
    then show ?thesis by (simp add: db_find_property_def handle_of_def name_taken_def)
  next
    case None
    have n: "(\<exists>s \<in> set (slots db oid). fold_case (pd_name (snd s)) = fold_case name) \<longleftrightarrow> fold_case name \<in> set (names_of (slots db oid))"
      unfolding names_of_def set_map by force
    show ?thesis
    proof (cases "find_index (\<lambda>s. fold_case (pd_name (snd s)) = fold_case name) (slots db oid)")
      case None
      then have "fold_case name \<notin> set (names_of (slots db oid))" using n by (simp add: find_index_None)
      then show ?thesis
        using None \<open>find_bi name = None\<close> b find_slot_name [OF ok c, of oid]
        by (simp add: db_find_property_def handle_of_def name_taken_def)
    next
      case (Some i)
      then have "fold_case name \<in> set (names_of (slots db oid))"
        using n find_index_Some [OF Some] nth_mem by metis
      then show ?thesis
        using Some \<open>find_bi name = None\<close> find_slot_name [OF ok c, of oid]
        by (simp add: db_find_property_def handle_of_def name_taken_def)
    qed
  qed
qed

lemma prop_map_zip:
  "heap db y = Some a \<Longrightarrow> prop_map db y = map_of (zip (map key (slots db y)) (o_propval a))"
  by (simp add: prop_map_def)

lemma take_exact: "length xs = n \<Longrightarrow> take (n - k) (drop k xs) = drop k xs"
  by simp

lemma below_split:
  assumes "hier_ok Children db" "heap db oid = Some a" "y \<in> descendants db oid" "(z, q) \<in> set (take (below db oid y) (slots db y))"
  shows "z \<in> descendants db oid" "z \<noteq> oid" "\<exists>c. heap db z = Some c \<and> q \<in> set (o_propdefs c)"
proof -
  have "(y, oid) \<in> (kids_rel db)\<^sup>*" using assms(3) by (simp add: descendants_def)
  then have "z \<in> descendants db oid \<and> z \<noteq> oid \<and> (\<exists>c. heap db z = Some c \<and> q \<in> set (o_propdefs c))"
    using assms(4)
  proof (induction rule: converse_rtrancl_induct)
    case (step y w)
    then obtain c where c: "heap db y = Some c" "o_parent c = w" by (auto simp: kids_rel_iff)
    have w: "w \<in> descendants db oid" using step.hyps(2) by (simp add: descendants_def)
    have "y \<noteq> oid" using w step.hyps assms(1)
      by (auto simp: hier_ok_def acyclic_def dest: rtrancl_into_trancl2)
    moreover have "y \<in> descendants db oid" using descendants_child [OF step.hyps(1) w] .
    moreover have "slots db y = map (Pair y) (o_propdefs c) @ slots db w"
      using slots_valid [OF assms(1) c(1)] c(2) by simp
    moreover have "below db oid y = length (o_propdefs c) + below db oid w"
      by (rule below_child [OF assms(1) w step.hyps(1) c(1)])
    ultimately show ?case using step.IH step.prems c(1) by auto
  qed simp
  then show "z \<in> descendants db oid" "z \<noteq> oid" "\<exists>c. heap db z = Some c \<and> q \<in> set (o_propdefs c)" by blast+
qed

lemma strict_descendant: "hier_ok Children db \<Longrightarrow> (e, x) \<in> kids_rel db \<Longrightarrow> x \<in> descendants db oid \<Longrightarrow> e \<noteq> oid"
  by (auto simp: hier_ok_def acyclic_def descendants_def dest: rtrancl_into_trancl2)

text \<open>The position of a slot of the object \<open>oid\<close>, the \<open>i\<close>-th of its own, in a descendant \<open>y\<close>.\<close>

abbreviation slot_pos :: "db \<Rightarrow> objid \<Rightarrow> nat \<Rightarrow> objid \<Rightarrow> nat" where
  "slot_pos db oid i y \<equiv> below db oid y + i"

lemma slots_around:
  assumes "hier_ok Children db" "heap db oid = Some a" "y \<in> descendants db oid" "i \<le> length (o_propdefs a)"
  shows "take (slot_pos db oid i y) (slots db y) = take (below db oid y) (slots db y) @ map (Pair oid) (take i (o_propdefs a))"
    "drop (slot_pos db oid i y) (slots db y) = map (Pair oid) (drop i (o_propdefs a)) @ slots db (o_parent a)"
    "slot_pos db oid i y \<le> length (slots db y)"
proof -
  let ?A = "take (below db oid y) (slots db y)"
  have s: "slots db y = ?A @ map (Pair oid) (o_propdefs a) @ slots db (o_parent a)"
    by (rule slots_split(1) [OF assms(1-3)])
  have l: "length ?A = below db oid y" using slots_split(2) [OF assms(1-3)] by simp
  show "slot_pos db oid i y \<le> length (slots db y)" using arg_cong [OF s, of length] l assms(4) by simp
  have "take (slot_pos db oid i y) (slots db y) = take (slot_pos db oid i y) (?A @ map (Pair oid) (o_propdefs a) @ slots db (o_parent a))"
    using s by simp
  also have "\<dots> = ?A @ map (Pair oid) (take i (o_propdefs a))" using l assms(4) by (simp add: take_map)
  finally show "take (slot_pos db oid i y) (slots db y) = ?A @ map (Pair oid) (take i (o_propdefs a))" .
  have "drop (slot_pos db oid i y) (slots db y) = drop (slot_pos db oid i y) (?A @ map (Pair oid) (o_propdefs a) @ slots db (o_parent a))"
    using s by simp
  also have "\<dots> = map (Pair oid) (drop i (o_propdefs a)) @ slots db (o_parent a)" using l assms(4) by (simp add: drop_map)
  finally show "drop (slot_pos db oid i y) (slots db y) = map (Pair oid) (drop i (o_propdefs a)) @ slots db (o_parent a)" .
qed

lemma child_slot_pos:
  assumes "hier_ok Children db" "x \<in> descendants db oid" "(e, x) \<in> kids_rel db"
    and "map_option o_propdefs (heap d e) = map_option o_propdefs (heap db e)"
  shows "child_pos d e (slot_pos db oid i x) = Some (slot_pos db oid i e)"
proof -
  obtain z where z: "heap db e = Some z" using assms(3) by (auto simp: kids_rel_iff)
  then obtain w where "heap d e = Some w" "o_propdefs w = o_propdefs z" using assms(4) by auto
  then show ?thesis using below_child [OF assms(1-3) z] by (simp add: child_pos_def)
qed

text \<open>The walk of \<open>insert_prop_recursively\<close>, over a database \<open>d1\<close> in which the object already has the
  new definition.\<close>

lemma insert_walk:
  assumes H: "hier_ok Children db" and lens: "\<And>y z. heap db y = Some z \<Longrightarrow> length (o_propval z) = length (slots db y)"
    and a: "heap db oid = Some a" and h1: "heap d1 = (heap db)(oid \<mapsto> a')" "same_base db d1"
    and pv1: "o_propval a' = o_propval a" and i: "i \<le> length (o_propdefs a)"
    and sl: "\<And>y. y \<in> descendants db oid \<Longrightarrow> length (slots d1 y) = Suc (length (slots db y))"
  shows "\<exists>d. insert_prop_recursively oid i pv d1 = Some d \<and> same_base db d \<and> slots d = slots d1 \<and>
    heap d = (\<lambda>y. if y \<in> descendants db oid then map_option (\<lambda>x. x\<lparr>o_waif_propdefs := None,
      o_propval := take (slot_pos db oid i y) (o_propval x) @ added_slot oid pv y x #
        drop (slot_pos db oid i y) (o_propval x)\<rparr>) (heap d1 y) else heap d1 y)"
proof -
  let ?k = "slot_pos db oid i" and ?D = "descendants db oid"
  let ?f = "\<lambda>y x. x\<lparr>o_waif_propdefs := None,
      o_propval := take (?k y) (o_propval x) @ added_slot oid pv y x # drop (?k y) (o_propval x)\<rparr>"
  let ?ea = "\<lambda>y. (?k y, if y = oid then pv else pv\<lparr>pv_var := VClear\<rparr>)"
  let ?eb = "\<lambda>y. (?k y, pv\<lparr>pv_var := VClear\<rparr>)"
  let ?visit = "\<lambda>root (pos, pv) db. map_option (\<lambda>db. (db, pos, pv\<lparr>pv_var := VClear\<rparr>)) (insert_prop root pos pv db)"
  let ?arg = "\<lambda>db c (pos, pv). map_option (\<lambda>pos. (pos, pv)) (child_pos db c pos)"
  have D: "descendants d1 = descendants db" "kids_rel d1 = kids_rel db"
    using same_base_descendants [OF h1(2)] same_base_kids [OF h1(2)] .
  have H1: "hier_ok Children d1" using same_links_hier(1) [OF same_base_links [OF h1(2)]] H by simp
  have "\<exists>d. tree_walk ?visit ?arg (Inl (oid, ?ea oid)) d1 = Some d \<and> same_base d1 d \<and> slots d = slots d1 \<and>
    heap d = (\<lambda>y. if y \<in> descendants d1 oid then map_option (?f y) (heap d1 y) else heap d1 y)"
  proof (rule walk_edit [OF H1, where ea = ?ea and eb = ?eb])
    show "valid d1 oid" using h1 by (simp add: valid_def)
    show "base (?f y x) = base x" "o_propdefs (?f y x) = o_propdefs x" for y x by (simp_all add: base_def)
  next
    fix y d x assume y: "y \<in> descendants d1 oid" "heap d1 y = Some x" "heap d y = Some x" "same_base d1 d"
      "slots d = slots d1"
    have hd: "hier_ok Children d" using same_links_hier(1) [OF same_base_links [OF y(4)]] H1 by simp
    have yD: "y \<in> ?D" using y(1) D by simp
    obtain z where z: "heap db y = Some z" using same_base_heap' [OF h1(2) y(2)] by blast
    have pl: "length (o_propval x) = length (slots db y)"
      using lens [OF z] y(2) z a pv1 by (auto simp: h1(1) split: if_splits)
    have n: "dbpriv_count_properties d y = Some (Suc (length (slots db y)))"
      using count_slots [OF hd, of y] y(5) sl [OF yD] by simp
    have "insert_prop y (?k y) (snd (?ea y)) d = modify y (?f y) d"
      using slots_around(3) [OF H a yD i] y(3) pl
      by (simp add: insert_prop_def n added_slot_def chown_def modify_def Let_def)
    then show "?visit y (?ea y) d = map_option (\<lambda>d. (d, ?eb y)) (modify y (?f y) d)"
      by (cases "y = oid") (simp_all add: option.map_comp o_def)
  next
    fix x e d assume x: "x \<in> descendants d1 oid" "(e, x) \<in> kids_rel d1" "same_base d1 d"
      "\<forall>y. map_option o_propdefs (heap d y) = map_option o_propdefs (heap d1 y)"
    have xD: "x \<in> ?D" and ex: "(e, x) \<in> kids_rel db" using x D by simp_all
    have ne: "e \<noteq> oid" by (rule strict_descendant [OF H ex xD])
    then have "map_option o_propdefs (heap d e) = map_option o_propdefs (heap db e)" using x(4) h1 by simp
    from child_slot_pos [OF H xD ex this] ne show "?arg d e (?eb x) = Some (?ea e)" by simp
  qed
  then obtain d where d: "tree_walk ?visit ?arg (Inl (oid, ?ea oid)) d1 = Some d" "same_base d1 d" "slots d = slots d1"
    "heap d = (\<lambda>y. if y \<in> ?D then map_option (?f y) (heap d1 y) else heap d1 y)"
    using D by auto
  have "insert_prop_recursively oid i pv d1 = Some d"
    using d(1) by (simp add: insert_prop_recursively_def)
  with d(3,4) same_base_trans [OF h1(2) d(2)] show ?thesis by blast
qed

lemma own_below:
  assumes H: "hier_ok Children db" and y: "y \<in> descendants db oid" "y \<noteq> oid" and x: "heap db y = Some x"
  shows "length (o_propdefs x) \<le> below db oid y"
proof -
  from y obtain p where p: "(y, p) \<in> kids_rel db" "(p, oid) \<in> (kids_rel db)\<^sup>*"
    unfolding descendants_def by (auto elim: converse_rtranclE)
  then have "p \<in> descendants db oid" by (simp add: descendants_def)
  from below_child [OF H this p(1) x] show ?thesis by simp
qed

lemma fresh_name:
  assumes ok: "props_ok db" and a: "heap db oid = Some a" and n: "\<not> name_taken db oid name"
    and y: "y \<in> descendants db oid"
  shows "fold_case name \<notin> set (names_of (slots db y))"
proof
  assume "fold_case name \<in> set (names_of (slots db y))"
  moreover have "slots db y = take (below db oid y) (slots db y) @ slots db oid"
    using slots_split(1) [OF props_okD(2) [OF ok] a y] slots_valid [OF props_okD(2) [OF ok] a] by simp
  ultimately have "fold_case name \<in> set (names_of (take (below db oid y) (slots db y))) \<or>
      fold_case name \<in> set (names_of (slots db oid))"
    by (metis Un_iff names_of_simps(3) set_append)
  then obtain z q where "(z, q) \<in> set (take (below db oid y) (slots db y))" "fold_case (pd_name q) = fold_case name"
    using n by (auto simp: name_taken_def set_names_of)
  with below_split [OF props_okD(2) [OF ok] a y this(1)] n show False
    unfolding name_taken_def by blast
qed

lemma names_insert: "n \<notin> set (names_of (take k S @ drop k S)) \<Longrightarrow> distinct (names_of S) \<Longrightarrow> fold_case (pd_name (snd s)) = n \<Longrightarrow>
  distinct (names_of (take k S @ s # drop k S))"
proof -
  assume a: "n \<notin> set (names_of (take k S @ drop k S))" "distinct (names_of S)" "fold_case (pd_name (snd s)) = n"
  have "distinct (names_of (take k S @ drop k S))" using a(2) by simp
  then have "distinct (names_of (take k S) @ names_of (drop k S))" by (simp only: names_of_simps)
  moreover have "n \<notin> set (names_of (take k S)) \<union> set (names_of (drop k S))" using a(1) unfolding names_of_simps set_append .
  ultimately show ?thesis using a(3) by auto
qed

text \<open>Inserting a slot for a new definition keeps the invariant of an object.\<close>

lemma obj_insert:
  assumes ok: "obj_props_ok db y x" and s: "slots d y = take k (slots db y) @ (oid, new) # drop k (slots db y)"
    and k: "k \<le> length (slots db y)" and b: "o_propval b = take k (o_propval x) @ v # drop k (o_propval x)"
    and f: "fold_case (pd_name new) \<notin> set (names_of (slots db y))"
    and defs: "(o_propdefs b = o_propdefs x \<and> o_propdefs_max b = o_propdefs_max x \<and> length (o_propdefs x) \<le> k) \<or>
      (o_propdefs b = o_propdefs x @ [new] \<and> length (o_propdefs x) < o_propdefs_max b \<and> k = length (o_propdefs x) \<and>
       pv_var v \<noteq> VClear \<and> propdef_ok new)"
  shows "obj_props_ok d y b" "map_of (zip (map key (slots d y)) (o_propval b)) =
    (map_of (zip (map key (slots db y)) (o_propval x)))(key (oid, new) \<mapsto> v)"
proof -
  have l: "length (o_propval x) = length (slots db y)" using ok by (simp add: obj_props_ok_def)
  have "fold_case (pd_name new) \<notin> set (names_of (take k (slots db y) @ drop k (slots db y)))" using f by simp
  from names_insert [OF this, of "(oid, new)"] ok
  have "distinct (names_of (slots d y))" by (simp add: s obj_props_ok_def)
  moreover have "pv_var (o_propval b ! n) \<noteq> VClear" if "n < length (o_propdefs b)" for n
  proof (cases "n < length (o_propdefs x)")
    case True
    then have "n < k" using defs by auto
    then have "o_propval b ! n = o_propval x ! n" using k l by (simp add: b nth_append)
    with True ok show ?thesis by (simp add: obj_props_ok_def)
  next
    case False
    then have "n = k" "pv_var v \<noteq> VClear" using that defs by auto
    then show ?thesis using k l by (simp add: b nth_append)
  qed
  ultimately show "obj_props_ok d y b" using ok l k defs by (auto simp: obj_props_ok_def b s)
  have "key (oid, new) \<notin> set (map key (slots db y))"
    using f by (auto simp: key_def names_of_def)
  then show "map_of (zip (map key (slots d y)) (o_propval b)) =
    (map_of (zip (map key (slots db y)) (o_propval x)))(key (oid, new) \<mapsto> v)"
    using map_of_insert [of "map key (slots db y)" "o_propval x" k "key (oid, new)" v] k l by (simp add: s b take_map drop_map)
qed

lemma edited_ok:
  assumes ok: "props_ok db" and sb: "same_base db d"
    and step: "\<And>y x b. heap db y = Some x \<Longrightarrow> heap d y = Some b \<Longrightarrow> obj_props_ok d y b \<and> prop_map d y = m y x"
  shows "props_ok d \<and> (\<forall>y x. heap db y = Some x \<longrightarrow> prop_map d y = m y x)"
proof
  show "props_ok d"
    unfolding props_ok_def
  proof (intro conjI allI impI)
    show "objects_ok d" by (rule same_base_ok [OF props_okD(1) [OF ok] sb])
    fix y b assume b: "heap d y = Some b"
    then obtain x where "heap db y = Some x" using same_base_heap' [OF sb] by blast
    from step [OF this b] show "obj_props_ok d y b" by blast
  qed
  show "\<forall>y x. heap db y = Some x \<longrightarrow> prop_map d y = m y x"
    using same_base_heap [OF sb] step by blast
qed


lemma add_propdef_spec:
  assumes ok: "props_ok db" and a: "heap db oid = Some a" and c: "c_string name" and v: "pv_var pv \<noteq> VClear"
    and n: "\<not> name_taken db oid name"
  shows "\<exists>d. db_add_propdef oid name (pv_var pv) (pv_owner pv) (pv_perms pv) db = Some (True, d) \<and> props_ok d \<and> same_base db d \<and>
    (\<forall>y x. heap db y = Some x \<longrightarrow> prop_map d y = (if y \<in> descendants db oid
       then (prop_map db y)((oid, fold_case name) \<mapsto> added_slot oid pv y x) else prop_map db y))"
proof -
  note H = props_okD(2) [OF ok]
  let ?ps = "o_propdefs a" and ?new = "dbpriv_new_propdef name" and ?D = "descendants db oid"
  let ?mx = "if length ?ps = o_propdefs_max a then (if o_propdefs_max a = 0 then 8 else 2 * o_propdefs_max a) else o_propdefs_max a"
  let ?g = "\<lambda>x. x\<lparr>o_propdefs_max := ?mx, o_propdefs := o_propdefs x @ [?new]\<rparr>"
  let ?k = "slot_pos db oid (length ?ps)"
  have oa: "obj_props_ok db oid a" by (rule props_okD(3) [OF ok a])
  have mx: "length ?ps < ?mx" using oa by (auto simp: obj_props_ok_def)
  have bi: "find_bi name = None" using n by (simp add: name_taken_def)
  have new: "propdef_ok ?new" using bi c by (simp add: propdef_ok_def dbpriv_new_propdef_def)
  obtain d1 where d1: "modify oid ?g db = Some d1" "heap d1 = (heap db)(oid \<mapsto> ?g a)" "same_base db d1"
    using modify_same_base [OF a, of ?g] by (auto simp: base_def)
  have bg: "base (?g a) = base a" by (simp add: base_def)
  have sl: "slots d1 y = take (?k y) (slots db y) @ (oid, ?new) # drop (?k y) (slots db y)" if "y \<in> ?D" for y
    using slots_edit(2) [OF H a d1(2,3) bg that] slots_around [OF H a that, of "length ?ps"] by simp
  have kl: "?k y \<le> length (slots db y)" if "y \<in> ?D" for y by (rule slots_around(3) [OF H a that]) simp
  have lens: "length (o_propval z) = length (slots db y)" if "heap db y = Some z" for y z
    using props_okD(3) [OF ok that] by (simp add: obj_props_ok_def)
  have "length (slots d1 y) = Suc (length (slots db y))" if "y \<in> ?D" for y
    using sl [OF that] kl [OF that] by simp
  from insert_walk [OF H lens a d1(2,3) _ le_refl this, of pv]
  obtain d where d: "insert_prop_recursively oid (length ?ps) pv d1 = Some d" "same_base db d" "slots d = slots d1"
    "heap d = (\<lambda>y. if y \<in> ?D then map_option (\<lambda>x. x\<lparr>o_waif_propdefs := None,
      o_propval := take (?k y) (o_propval x) @ added_slot oid pv y x # drop (?k y) (o_propval x)\<rparr>) (heap d1 y) else heap d1 y)"
    by auto
  have run: "db_add_propdef oid name (pv_var pv) (pv_owner pv) (pv_perms pv) db = Some (True, d)"
  proof -
    have "valid db oid" using a by (simp add: valid_heap)
    from name_check [OF ok this c] n obtain h where h: "handle_of (db_find_property db oid name False) = Some h"
      "(if h \<noteq> NoProp then Some True else property_defined_at_or_below name (str_hash name) db oid) = Some False" by auto
    moreover have "\<lparr>pv_var = pv_var pv, pv_owner = pv_owner pv, pv_perms = pv_perms pv\<rparr> = pv" by (cases pv) simp
    then have "insert_prop_recursively oid (length ?ps) \<lparr>pv_var = pv_var pv, pv_owner = pv_owner pv, pv_perms = pv_perms pv\<rparr> d1 = Some d"
      using d(1) by (rule ssubst)
    ultimately show ?thesis using a d1(1) mx by (simp add: db_add_propdef_def Let_def)
  qed
  have step: "obj_props_ok d y b \<and> prop_map d y = (if y \<in> ?D
       then (prop_map db y)((oid, fold_case name) \<mapsto> added_slot oid pv y x) else prop_map db y)"
    if x: "heap db y = Some x" and b: "heap d y = Some b" for y x b
  proof (cases "y \<in> ?D")
    case False
    then have "y \<noteq> oid" by auto
    then have "b = x" using x b False d(4) d1(2) by simp
    moreover have "slots d y = slots db y" using slots_edit(1) [OF H a d1(2,3) bg False] d(3) by simp
    ultimately show ?thesis using False x b props_okD(3) [OF ok x] by (simp add: prop_map_def obj_props_ok_def)
  next
    case True
    have s: "slots d y = take (?k y) (slots db y) @ (oid, ?new) # drop (?k y) (slots db y)" using sl [OF True] d(3) by simp
    have f: "fold_case (pd_name ?new) \<notin> set (names_of (slots db y))"
      using fresh_name [OF ok a n True] by (simp add: dbpriv_new_propdef_def)
    have pv: "o_propval b = take (?k y) (o_propval x) @ added_slot oid pv y x # drop (?k y) (o_propval x)"
    proof (cases "y = oid")
      case True
      then show ?thesis using x b d(4) d1(2) a by (auto simp: added_slot_def chown_def)
    next
      case False
      then show ?thesis using x b d(4) d1(2) True by auto
    qed
    have "(o_propdefs b = o_propdefs x \<and> o_propdefs_max b = o_propdefs_max x \<and> length (o_propdefs x) \<le> ?k y) \<or>
      (o_propdefs b = o_propdefs x @ [?new] \<and> length (o_propdefs x) < o_propdefs_max b \<and> ?k y = length (o_propdefs x) \<and>
       pv_var (added_slot oid pv y x) \<noteq> VClear \<and> propdef_ok ?new)"
    proof (cases "y = oid")
      case True
      then show ?thesis using x b d(4) d1(2) a v new mx by (auto simp: added_slot_def chown_def)
    next
      case False
      then show ?thesis using x b d(4) d1(2) True own_below [OF H True False x] by auto
    qed
    from obj_insert [OF props_okD(3) [OF ok x] s kl [OF True] pv f this]
    show ?thesis using True x b by (simp add: prop_map_def key_def dbpriv_new_propdef_def)
  qed
  have "props_ok d \<and> (\<forall>y x. heap db y = Some x \<longrightarrow> prop_map d y = (if y \<in> ?D
       then (prop_map db y)((oid, fold_case name) \<mapsto> added_slot oid pv y x) else prop_map db y))"
    by (rule edited_ok [OF ok d(2)]) (rule step)
  with run d(2) show ?thesis by blast
qed

lemma add_propdef_refused:
  assumes ok: "props_ok db" and v: "valid db oid" and c: "c_string name" and n: "name_taken db oid name"
  shows "db_add_propdef oid name value owner flags db = Some (False, db)"
  using name_check [OF ok v c] n by (auto simp: db_add_propdef_def)

subsection \<open>Deleting a definition\<close>

lemma remove_walk:
  assumes H: "hier_ok Children db" and lens: "\<And>y z. heap db y = Some z \<Longrightarrow> length (o_propval z) = length (slots db y)"
    and a: "heap db oid = Some a" and h1: "heap d1 = (heap db)(oid \<mapsto> a')" "same_base db d1"
    and pv1: "o_propval a' = o_propval a" and i: "i < length (o_propdefs a)"
    and sl: "\<And>y. y \<in> descendants db oid \<Longrightarrow> Suc (length (slots d1 y)) = length (slots db y)"
  shows "\<exists>d. remove_prop_recursively oid i d1 = Some d \<and> same_base db d \<and> slots d = slots d1 \<and>
    heap d = (\<lambda>y. if y \<in> descendants db oid then map_option (\<lambda>x. x\<lparr>o_waif_propdefs := None,
      o_propval := take (slot_pos db oid i y) (o_propval x) @ drop (Suc (slot_pos db oid i y)) (o_propval x)\<rparr>) (heap d1 y)
      else heap d1 y)"
proof -
  let ?k = "slot_pos db oid i" and ?D = "descendants db oid"
  let ?f = "\<lambda>y x. x\<lparr>o_waif_propdefs := None, o_propval := take (?k y) (o_propval x) @ drop (Suc (?k y)) (o_propval x)\<rparr>"
  let ?visit = "\<lambda>root pos db. map_option (\<lambda>db. (db, pos)) (remove_prop root pos db)"
  let ?arg = "\<lambda>db c pos. child_pos db c pos"
  have D: "descendants d1 = descendants db" "kids_rel d1 = kids_rel db"
    using same_base_descendants [OF h1(2)] same_base_kids [OF h1(2)] .
  have H1: "hier_ok Children d1" using same_links_hier(1) [OF same_base_links [OF h1(2)]] H by simp
  have "\<exists>d. tree_walk ?visit ?arg (Inl (oid, ?k oid)) d1 = Some d \<and> same_base d1 d \<and> slots d = slots d1 \<and>
    heap d = (\<lambda>y. if y \<in> descendants d1 oid then map_option (?f y) (heap d1 y) else heap d1 y)"
  proof (rule walk_edit [OF H1, where ea = ?k and eb = ?k])
    show "valid d1 oid" using h1 by (simp add: valid_def)
    show "base (?f y x) = base x" "o_propdefs (?f y x) = o_propdefs x" for y x by (simp_all add: base_def)
  next
    fix y d x assume y: "y \<in> descendants d1 oid" "heap d1 y = Some x" "heap d y = Some x" "same_base d1 d"
      "slots d = slots d1"
    have hd: "hier_ok Children d" using same_links_hier(1) [OF same_base_links [OF y(4)]] H1 by simp
    have yD: "y \<in> ?D" using y(1) D by simp
    obtain z where z: "heap db y = Some z" using same_base_heap' [OF h1(2) y(2)] by blast
    have pl: "length (o_propval x) = length (slots db y)"
      using lens [OF z] y(2) z a pv1 by (auto simp: h1(1) split: if_splits)
    have n: "dbpriv_count_properties d y = Some (length (slots d1 y))"
      using count_slots [OF hd, of y] y(5) by simp
    have "length (slots db y) = below db oid y + length (o_propdefs a) + length (slots db (o_parent a))"
      using slots_split(2) [OF H a yD] slots_valid [OF H a] by simp
    then have "remove_prop y (?k y) d = modify y (?f y) d"
      using y(3) pl sl [OF yD] i by (simp add: remove_prop_def n modify_def)
    then show "?visit y (?k y) d = map_option (\<lambda>d. (d, ?k y)) (modify y (?f y) d)" by simp
  next
    fix x e d assume x: "x \<in> descendants d1 oid" "(e, x) \<in> kids_rel d1" "same_base d1 d"
      "\<forall>y. map_option o_propdefs (heap d y) = map_option o_propdefs (heap d1 y)"
    have xD: "x \<in> ?D" and ex: "(e, x) \<in> kids_rel db" using x D by simp_all
    have ne: "e \<noteq> oid" by (rule strict_descendant [OF H ex xD])
    then have "map_option o_propdefs (heap d e) = map_option o_propdefs (heap db e)" using x(4) h1 by simp
    from child_slot_pos [OF H xD ex this] show "?arg d e (?k x) = Some (?k e)" .
  qed
  then obtain d where d: "tree_walk ?visit ?arg (Inl (oid, ?k oid)) d1 = Some d" "same_base d1 d" "slots d = slots d1"
    "heap d = (\<lambda>y. if y \<in> ?D then map_option (?f y) (heap d1 y) else heap d1 y)"
    using D by auto
  have "remove_prop_recursively oid i d1 = Some d"
    using d(1) by (simp add: remove_prop_recursively_def)
  with d(3,4) same_base_trans [OF h1(2) d(2)] show ?thesis by blast
qed

lemma map_of_delete:
  assumes "length ks = length vs" "n < length ks" "distinct ks"
  shows "map_of (zip (take n ks @ drop (Suc n) ks) (take n vs @ drop (Suc n) vs)) = (map_of (zip ks vs))(ks ! n := None)"
proof -
  let ?ks = "take n ks @ drop (Suc n) ks" and ?vs = "take n vs @ drop (Suc n) vs"
  have k: "ks = take n ks @ ks ! n # drop (Suc n) ks" and v: "vs = take n vs @ vs ! n # drop (Suc n) vs"
    using assms(1,2) by (simp_all add: id_take_nth_drop [symmetric])
  have s: "take n ?ks @ ks ! n # drop n ?ks = ks" "take n ?vs @ vs ! n # drop n ?vs = vs"
    using assms(1,2) k v by simp_all
  have "distinct (take n ks @ ks ! n # drop (Suc n) ks)" using assms(3) k by metis
  then have nk: "ks ! n \<notin> set ?ks" by auto
  have "map_of (zip ks vs) = (map_of (zip ?ks ?vs))(ks ! n \<mapsto> vs ! n)"
    using map_of_insert [of ?ks ?vs n "ks ! n" "vs ! n"] assms(1,2) nk unfolding s by simp
  moreover have "map_of (zip ?ks ?vs) (ks ! n) = None"
    using nk assms(1,2) by (subst map_of_zip_is_None) auto
  ultimately show ?thesis by (simp add: fun_upd_idem)
qed

lemma obj_delete:
  assumes ok: "obj_props_ok db y x" and s: "slots d y = take k (slots db y) @ drop (Suc k) (slots db y)"
    and k: "k < length (slots db y)" and b: "o_propval b = take k (o_propval x) @ drop (Suc k) (o_propval x)"
    and defs: "(o_propdefs b = o_propdefs x \<and> o_propdefs_max b = o_propdefs_max x \<and> length (o_propdefs x) \<le> k) \<or>
      (o_propdefs b = take k (o_propdefs x) @ drop (Suc k) (o_propdefs x) \<and> length (o_propdefs x) - 1 \<le> o_propdefs_max b \<and>
       k < length (o_propdefs x))"
  shows "obj_props_ok d y b" "map_of (zip (map key (slots d y)) (o_propval b)) =
    (map_of (zip (map key (slots db y)) (o_propval x)))(key (slots db y ! k) := None)"
proof -
  have l: "length (o_propval x) = length (slots db y)" using ok by (simp add: obj_props_ok_def)
  have ds: "distinct (names_of (slots db y))" using ok by (simp add: obj_props_ok_def)
  have sp: "slots db y = take k (slots db y) @ slots db y ! k # drop (Suc k) (slots db y)"
    by (rule id_take_nth_drop [OF k])
  have "distinct (names_of (take k (slots db y) @ slots db y ! k # drop (Suc k) (slots db y)))" using ds sp by metis
  then have "distinct (names_of (slots d y))" by (simp add: s)
  moreover have "pv_var (o_propval b ! n) \<noteq> VClear" if "n < length (o_propdefs b)" for n
  proof (cases "n < k")
    case True
    then have "o_propval b ! n = o_propval x ! n" using k l by (simp add: b nth_append)
    moreover have "n < length (o_propdefs x)" using that defs True by auto
    ultimately show ?thesis using ok by (simp add: obj_props_ok_def)
  next
    case False
    then have "o_propval b ! n = o_propval x ! Suc n" "Suc n < length (o_propdefs x)" using that defs k l
      by (auto simp: b nth_append)
    then show ?thesis using ok by (simp add: obj_props_ok_def)
  qed
  moreover have "set (o_propdefs b) \<subseteq> set (o_propdefs x)" using defs by (auto dest: in_set_takeD in_set_dropD)
  ultimately show "obj_props_ok d y b" using ok l k defs by (auto simp: obj_props_ok_def b s)
  show "map_of (zip (map key (slots d y)) (o_propval b)) =
    (map_of (zip (map key (slots db y)) (o_propval x)))(key (slots db y ! k) := None)"
    using map_of_delete [of "map key (slots db y)" "o_propval x" k] k l distinct_keys [OF ds]
    by (simp add: s b take_map drop_map)
qed

lemma own_name_index:
  assumes ok: "props_ok db" and a: "heap db oid = Some a" and c: "c_string name"
  shows "find_index (prop_match name (str_hash name)) (o_propdefs a) =
    find_index (\<lambda>p. fold_case (pd_name p) = fold_case name) (o_propdefs a)"
  using props_okD(3) [OF ok a] prop_match_fold [OF _ c] by (intro find_index_cong) (simp add: obj_props_ok_def)

lemma delete_propdef_spec:
  assumes ok: "props_ok db" and a: "heap db oid = Some a" and c: "c_string name"
    and n: "find_index (\<lambda>p. fold_case (pd_name p) = fold_case name) (o_propdefs a) = Some i"
  shows "\<exists>d. db_delete_propdef oid name db = Some (True, d) \<and> props_ok d \<and> same_base db d \<and>
    (\<forall>y x. heap db y = Some x \<longrightarrow> prop_map d y = (if y \<in> descendants db oid
       then (prop_map db y)((oid, fold_case name) := None) else prop_map db y))"
proof -
  note H = props_okD(2) [OF ok]
  let ?ps = "o_propdefs a" and ?D = "descendants db oid" and ?k = "slot_pos db oid i"
  let ?mx = "if o_propdefs_max a > 8 \<and> length ?ps \<le> (o_propdefs_max a * 3) div 8 then o_propdefs_max a div 2 else o_propdefs_max a"
  let ?g = "\<lambda>x. x\<lparr>o_propdefs_max := ?mx, o_propdefs := take i ?ps @ drop (i + 1) ?ps\<rparr>"
  have i: "i < length ?ps" "fold_case (pd_name (?ps ! i)) = fold_case name" using find_index_Some [OF n] by auto
  have oa: "obj_props_ok db oid a" by (rule props_okD(3) [OF ok a])
  have mx: "length ?ps - 1 \<le> ?mx" using oa by (auto simp: obj_props_ok_def)
  have bg: "base (?g a) = base a" by (simp add: base_def)
  obtain d1 where d1: "modify oid ?g db = Some d1" "heap d1 = (heap db)(oid \<mapsto> ?g a)" "same_base db d1"
    using modify_same_base [OF a, of ?g] bg by blast
  have kl: "?k y < length (slots db y)" and ke: "slots db y ! ?k y = (oid, ?ps ! i)"
    and sl: "slots d1 y = take (?k y) (slots db y) @ drop (Suc (?k y)) (slots db y)" if y: "y \<in> ?D" for y
  proof -
    note sp = slots_split [OF H a y] slots_valid [OF H a]
    show l: "?k y < length (slots db y)" using sp(2,3) i by simp
    have "(take (below db oid y) (slots db y) @ map (Pair oid) ?ps @ slots db (o_parent a)) ! ?k y = (oid, ?ps ! i)"
      using i l by (simp add: nth_append)
    then show "slots db y ! ?k y = (oid, ?ps ! i)" using sp(1) by simp
    show "slots d1 y = take (?k y) (slots db y) @ drop (Suc (?k y)) (slots db y)"
      using slots_edit(2) [OF H a d1(2,3) bg y] slots_around(1) [OF H a y, of i] slots_around(2) [OF H a y, of "Suc i"] i(1) by simp
  qed
  have lens: "length (o_propval z) = length (slots db y)" if "heap db y = Some z" for y z
    using props_okD(3) [OF ok that] by (simp add: obj_props_ok_def)
  have "Suc (length (slots d1 y)) = length (slots db y)" if "y \<in> ?D" for y
    using sl [OF that] kl [OF that] by simp
  from remove_walk [OF H lens a d1(2,3) _ i(1) this]
  obtain d where d: "remove_prop_recursively oid i d1 = Some d" "same_base db d" "slots d = slots d1"
    "heap d = (\<lambda>y. if y \<in> ?D then map_option (\<lambda>x. x\<lparr>o_waif_propdefs := None,
      o_propval := take (?k y) (o_propval x) @ drop (Suc (?k y)) (o_propval x)\<rparr>) (heap d1 y) else heap d1 y)"
    by auto
  have "modify oid (\<lambda>x. x\<lparr>o_propdefs_max := ?mx, o_propdefs := take i (o_propdefs x) @ drop (i + 1) (o_propdefs x)\<rparr>) db = Some d1"
    using d1(1) a by (simp add: modify_def)
  then have run: "db_delete_propdef oid name db = Some (True, d)"
    using a d(1) n mx own_name_index [OF ok a c] by (simp add: db_delete_propdef_def Let_def)
  have step: "obj_props_ok d y b \<and> prop_map d y = (if y \<in> ?D
       then (prop_map db y)((oid, fold_case name) := None) else prop_map db y)"
    if x: "heap db y = Some x" and b: "heap d y = Some b" for y x b
  proof (cases "y \<in> ?D")
    case False
    then have "y \<noteq> oid" by auto
    then have "b = x" using x b False d(4) d1(2) by simp
    moreover have "slots d y = slots db y" using slots_edit(1) [OF H a d1(2,3) bg False] d(3) by simp
    ultimately show ?thesis using False x b props_okD(3) [OF ok x] by (simp add: prop_map_def obj_props_ok_def)
  next
    case True
    have s: "slots d y = take (?k y) (slots db y) @ drop (Suc (?k y)) (slots db y)" using sl [OF True] d(3) by simp
    have pv: "o_propval b = take (?k y) (o_propval x) @ drop (Suc (?k y)) (o_propval x)"
      using x b d(4) d1(2) a True by (cases "y = oid") auto
    have "(o_propdefs b = o_propdefs x \<and> o_propdefs_max b = o_propdefs_max x \<and> length (o_propdefs x) \<le> ?k y) \<or>
      (o_propdefs b = take (?k y) (o_propdefs x) @ drop (Suc (?k y)) (o_propdefs x) \<and> length (o_propdefs x) - 1 \<le> o_propdefs_max b \<and>
       ?k y < length (o_propdefs x))"
    proof (cases "y = oid")
      case True
      then show ?thesis using x b d(4) d1(2) a mx i by auto
    next
      case False
      then show ?thesis using x b d(4) d1(2) True own_below [OF H True False x] by auto
    qed
    from obj_delete [OF props_okD(3) [OF ok x] s kl [OF True] pv this]
    show ?thesis using True x b ke [OF True] i(2) by (simp add: prop_map_def key_def)
  qed
  have "props_ok d \<and> (\<forall>y x. heap db y = Some x \<longrightarrow> prop_map d y = (if y \<in> ?D
       then (prop_map db y)((oid, fold_case name) := None) else prop_map db y))"
    by (rule edited_ok [OF ok d(2)]) (rule step)
  with run d(2) show ?thesis by blast
qed

lemma delete_propdef_refused:
  assumes ok: "props_ok db" and a: "heap db oid = Some a" and c: "c_string name"
    and n: "find_index (\<lambda>p. fold_case (pd_name p) = fold_case name) (o_propdefs a) = None"
  shows "db_delete_propdef oid name db = Some (False, db)"
  using n a own_name_index [OF ok a c] by (simp add: db_delete_propdef_def)

subsection \<open>What the operations promise\<close>

lemma slots_definer:
  assumes "hier_ok Children db"
  shows "(z, d) \<in> set (slots db x) \<Longrightarrow> x \<in> descendants db z"
  using assms
proof (induction x rule: up_induct)
  case (valid x a)
  then consider "z = x" | "x \<noteq> z" "(z, d) \<in> set (slots db (o_parent a))"
    by (auto simp: slots_valid [OF assms valid(1)])
  then show ?case
  proof cases
    case 2
    then have "o_parent a \<noteq> NOTHING" by auto
    then have "(x, o_parent a) \<in> kids_rel db" using valid(1) by (simp add: kids_rel_iff)
    then show ?thesis using valid(2) 2 descendants_child by blast
  qed simp
qed simp

lemma created_props_ok:
  assumes ok: "props_ok db" and okd: "objects_ok d" and v: "\<not> valid db oid"
    and h: "heap d = (heap db)(oid \<mapsto> fresh_object oid u)"
  shows "props_ok d"
proof -
  note H = props_okD(2) [OF ok] and Hd = objects_okD(1) [OF okd]
  have n: "heap db oid = None" using v by (simp add: valid_heap)
  have s: "slots d y = slots db y" for y
    using Hd
  proof (induction y rule: up_induct)
    case (invalid y)
    then have "heap db y = None" using h by (auto split: if_splits)
    with invalid show ?case by simp
  next
    case (valid y a)
    show ?case
    proof (cases "y = oid")
      case True
      then have "o_propdefs a = []" "o_parent a = NOTHING" using valid(1) h by (auto simp: fresh_object_def)
      then have "slots d y = []" by (simp add: slots_valid [OF Hd valid(1)])
      then show ?thesis using True n by simp
    next
      case False
      then have "heap db y = Some a" using valid(1) h by simp
      then show ?thesis using valid by (simp add: slots_valid [OF Hd valid(1)] slots_valid [OF H])
    qed
  qed
  have "obj_props_ok d y a" if "heap d y = Some a" for y a
  proof (cases "y = oid")
    case True
    then show ?thesis using that h n by (auto simp: obj_props_ok_def fresh_object_def s names_of_def)
  next
    case False
    then have "heap db y = Some a" using that h by simp
    from props_okD(3) [OF ok this] show ?thesis by (simp add: obj_props_ok_def s)
  qed
  with okd show ?thesis by (simp add: props_ok_def)
qed

lemma added_inherited:
  assumes H: "hier_ok Children db" and sb: "same_base db d" and a: "heap db oid = Some a"
    and m: "\<forall>y x. heap db y = Some x \<longrightarrow> prop_map d y = (if y \<in> descendants db oid
       then (prop_map db y)((oid, n) \<mapsto> added_slot oid pv y x) else prop_map db y)"
    and v: "pv_var pv \<noteq> VClear" and y: "y \<in> descendants db oid"
  shows "inherits d (oid, n) y (pv_var pv)"
proof -
  have "(y, oid) \<in> (kids_rel db)\<^sup>*" using y by (simp add: descendants_def)
  then show ?thesis
  proof (induction rule: converse_rtrancl_induct)
    case base
    have p: "prop_map d oid (oid, n) = Some (added_slot oid pv oid a)" using m a by simp
    have "pv_var (added_slot oid pv oid a) = pv_var pv" by (simp add: added_slot_def chown_def)
    then show ?case using inherits.set_here [OF p] v by simp
  next
    case (step y z)
    then obtain x where x: "heap db y = Some x" "o_parent x = z" "z \<noteq> NOTHING" by (auto simp: kids_rel_iff)
    have zd: "z \<in> descendants db oid" using step.hyps(2) by (simp add: descendants_def)
    have ne: "y \<noteq> oid" by (rule strict_descendant [OF H step.hyps(1) zd])
    have yd: "y \<in> descendants db oid" by (rule descendants_child [OF step.hyps(1) zd])
    have p: "prop_map d y (oid, n) = Some (added_slot oid pv y x)" using m x(1) yd by simp
    have c: "pv_var (added_slot oid pv y x) = VClear" using ne by (simp add: added_slot_def chown_def)
    have "(y, z) \<in> kids_rel d" using same_base_kids [OF sb] step.hyps(1) by simp
    then have "parent_of d y = z" by (simp add: kids_rel_parent)
    then show ?case using inherits.clear_here [OF p c] step.IH by simp
  qed
qed

lemma empty_props_ok: "props_ok empty_db"
  by (simp add: props_ok_def empty_db_ok)

lemma one_object:
  "\<exists>oid d. db_create_object 2 empty_db = Some (oid, d) \<and> props_ok d \<and> heap d = [oid \<mapsto> fresh_object oid 2]"
proof -
  obtain oid d where d: "db_create_object 2 empty_db = Some (oid, d)" "\<not> valid empty_db oid"
    "heap d = (heap empty_db)(oid \<mapsto> fresh_object oid 2)" "objects_ok d"
    using create_spec [OF empty_db_ok] by blast
  have "heap empty_db = Map.empty" by (simp add: fun_eq_iff)
  with d created_props_ok [OF empty_props_ok d(4,2,3)] show ?thesis by auto
qed

lemma one_object_slots:
  assumes "props_ok d" "heap d = [oid \<mapsto> fresh_object oid u]"
  shows "slots d y = []"
proof (cases "y = oid")
  case True
  have h: "heap d oid = Some (fresh_object oid u)" using assms(2) by simp
  have "slots d NOTHING = []" by simp
  then show ?thesis using slots_valid [OF props_okD(2) [OF assms(1)] h] True by (simp add: fresh_object_def)
next
  case False
  then show ?thesis using assms(2) by simp
qed

lemma foo_name: "c_string ''foo''" "find_bi ''foo'' = None"
  by (simp add: c_string_def, code_simp)

text \<open>C27: looking a property up by name finds the definition of that name, up to case, of the object or an ancestor
  of it, and with it the value the object inherits: the slot of the nearest object on the way up to the
  definer that is not clear. That value is unique. Where no such definition exists, the answer is that
  there is no property.\<close>

theorem property_lookup:
  assumes ok: "props_ok db" and "valid db oid" "c_string name" "find_bi name = None"
  shows "(if fold_case name \<in> set (names_of (slots db oid)) then
      \<exists>n definer v. db_find_property db oid name True = Some (Slot oid n definer, Some v) \<and>
        db_find_property db oid name False = Some (Slot oid n definer, None) \<and>
        oid \<in> descendants db definer \<and>
        (\<exists>a. heap db definer = Some a \<and> (\<exists>d \<in> set (o_propdefs a). fold_case (pd_name d) = fold_case name)) \<and>
        map_option Some (prop_map db oid (definer, fold_case name)) = Some (the_slot db oid n) \<and>
        v \<noteq> VClear \<and> (\<forall>w. inherits db (definer, fold_case name) oid w \<longleftrightarrow> w = v)
    else db_find_property db oid name b = Some (NoProp, None))"
proof (cases "find_index (\<lambda>s. fold_case (pd_name (snd s)) = fold_case name) (slots db oid)")
  case None
  then have "fold_case name \<notin> set (names_of (slots db oid))" by (auto simp: find_index_None names_of_def)
  with None show ?thesis using assms(4) find_slot_name [OF ok assms(3), of oid] by (simp add: db_find_property_def)
next
  case (Some i)
  obtain z p where zp: "slots db oid ! i = (z, p)" by fastforce
  have i: "i < length (slots db oid)" "fold_case (pd_name p) = fold_case name" using find_index_Some [OF Some] zp by auto
  have mem: "(z, p) \<in> set (slots db oid)" using i(1) zp nth_mem by metis
  obtain v where v: "slot_value db oid i = Some v" "v \<noteq> VClear" "inherits db (z, fold_case name) oid v"
    using slot_value_spec [OF ok i(1)] zp i(2) by (auto simp: key_def)
  obtain a where a: "heap db oid = Some a" using assms(2) by (auto simp: valid_heap)
  have "prop_map db oid (z, fold_case name) = Some (o_propval a ! i)"
    using prop_map_nth [OF ok a i(1)] zp i(2) by (simp add: key_def)
  moreover have "the_slot db oid i = Some (o_propval a ! i)"
    using a i(1) props_okD(3) [OF ok a] by (simp add: the_slot_def nth_opt_def obj_props_ok_def)
  ultimately have m: "map_option Some (prop_map db oid (z, fold_case name)) = Some (the_slot db oid i)" by simp
  have u: "\<forall>w. inherits db (z, fold_case name) oid w \<longleftrightarrow> w = v" using v(3) inherits_det by metis
  have def_: "\<exists>a. heap db z = Some a \<and> (\<exists>d \<in> set (o_propdefs a). fold_case (pd_name d) = fold_case name)"
    using slots_propdef_ok [OF ok mem] i(2) by blast
  have "fold_case name \<in> set (names_of (slots db oid))" using mem i(2) by (auto simp: set_names_of)
  moreover have f: "find_slot db name (str_hash name) oid 0 = Some (Some (z, i))"
    using find_slot_name [OF ok assms(3), of oid] Some zp by simp
  have "db_find_property db oid name True = Some (Slot oid i z, Some v)"
    "db_find_property db oid name False = Some (Slot oid i z, None)"
    using assms(4) f v(1) by (simp_all add: db_find_property_def)
  ultimately show ?thesis
    using m u v(2) def_ slots_definer [OF props_okD(2) [OF ok] mem] by auto
qed

theorem property_lookup_witness:
  "\<exists>oid d. db_create_object 2 empty_db = Some (oid, d) \<and> db_find_property d oid ''foo'' True = Some (NoProp, None)"
proof -
  obtain oid d where d: "db_create_object 2 empty_db = Some (oid, d)" "props_ok d" "heap d = [oid \<mapsto> fresh_object oid 2]"
    using one_object by blast
  have "valid d oid" using d(3) by (simp add: valid_heap)
  from property_lookup [OF d(2) this foo_name, of True] one_object_slots [OF d(2,3)] d(1) show ?thesis by auto
qed

text \<open>C28: adding a property is refused exactly when the name is built in or in use above or below the object. Otherwise
  every object of the database keeps its properties, the object and each of its descendants gains the
  new one, owned as its flags say, and all of them inherit its value; the slots of every object remain
  those of the definitions it has and inherits.\<close>

theorem property_added:
  assumes "props_ok db" "heap db oid = Some a" "c_string name" "value \<noteq> VClear"
  shows "if name_taken db oid name then db_add_propdef oid name value owner flags db = Some (False, db)
    else \<exists>d. db_add_propdef oid name value owner flags db = Some (True, d) \<and> props_ok d \<and> same_base db d \<and>
      (\<forall>y x. heap db y = Some x \<longrightarrow> prop_map d y = (if y \<in> descendants db oid
        then (prop_map db y)((oid, fold_case name) \<mapsto> added_slot oid \<lparr>pv_var = value, pv_owner = owner, pv_perms = flags\<rparr> y x)
        else prop_map db y)) \<and>
      (\<forall>y \<in> descendants db oid. inherits d (oid, fold_case name) y value)"
proof (cases "name_taken db oid name")
  case True
  have "valid db oid" using assms(2) by (simp add: valid_heap)
  from add_propdef_refused [OF assms(1) this assms(3) True] True show ?thesis by simp
next
  case False
  let ?pv = "\<lparr>pv_var = value, pv_owner = owner, pv_perms = flags\<rparr>"
  have "pv_var ?pv \<noteq> VClear" using assms(4) by simp
  from add_propdef_spec [OF assms(1-3) this False] obtain d where
    d: "db_add_propdef oid name value owner flags db = Some (True, d)" "props_ok d" "same_base db d"
      "\<forall>y x. heap db y = Some x \<longrightarrow> prop_map d y = (if y \<in> descendants db oid
        then (prop_map db y)((oid, fold_case name) \<mapsto> added_slot oid ?pv y x) else prop_map db y)" by auto
  have "\<forall>y \<in> descendants db oid. inherits d (oid, fold_case name) y value"
    using added_inherited [OF props_okD(2) [OF assms(1)] d(3) assms(2) d(4)] assms(4) by simp
  with d False show ?thesis by auto
qed

lemma one_object_fresh:
  assumes "heap d = [oid \<mapsto> fresh_object oid u]" "props_ok d" "find_bi name = None"
  shows "\<not> name_taken d oid name"
  using assms one_object_slots [OF assms(2,1)]
  by (auto simp: name_taken_def fresh_object_def split: if_splits)

theorem property_added_witness:
  "\<exists>oid d e. db_create_object 2 empty_db = Some (oid, d) \<and> db_add_propdef oid ''foo'' (VInt 7) 2 5 d = Some (True, e) \<and>
    inherits e (oid, fold_case ''foo'') oid (VInt 7)"
proof -
  obtain oid d where d: "db_create_object 2 empty_db = Some (oid, d)" "props_ok d" "heap d = [oid \<mapsto> fresh_object oid 2]"
    using one_object by blast
  have h: "heap d oid = Some (fresh_object oid 2)" using d(3) by simp
  have v: "VInt 7 \<noteq> VClear" by simp
  from property_added [OF d(2) h foo_name(1) v, of 2 5] one_object_fresh [OF d(3,2) foo_name(2)] d(1) show ?thesis
    using descendants_self [of oid d] by auto
qed

text \<open>C29: deleting a property takes the definition's slot out of the object and of every descendant and leaves all other
  properties of all objects; a name the object itself does not define is refused.\<close>

theorem property_deleted:
  assumes "props_ok db" "heap db oid = Some a" "c_string name"
  shows "if \<exists>d \<in> set (o_propdefs a). fold_case (pd_name d) = fold_case name
    then \<exists>d. db_delete_propdef oid name db = Some (True, d) \<and> props_ok d \<and> same_base db d \<and>
      (\<forall>y. valid db y \<longrightarrow> prop_map d y = (if y \<in> descendants db oid
        then (prop_map db y)((oid, fold_case name) := None) else prop_map db y))
    else db_delete_propdef oid name db = Some (False, db)"
proof (cases "find_index (\<lambda>p. fold_case (pd_name p) = fold_case name) (o_propdefs a)")
  case None
  then show ?thesis using delete_propdef_refused [OF assms None] by (auto simp: find_index_None)
next
  case (Some i)
  then have "\<exists>d \<in> set (o_propdefs a). fold_case (pd_name d) = fold_case name"
    using find_index_Some [OF Some] nth_mem by metis
  moreover obtain d where "db_delete_propdef oid name db = Some (True, d)" "props_ok d" "same_base db d"
      "\<forall>y x. heap db y = Some x \<longrightarrow> prop_map d y = (if y \<in> descendants db oid
       then (prop_map db y)((oid, fold_case name) := None) else prop_map db y)"
    using delete_propdef_spec [OF assms Some] by blast
  ultimately show ?thesis by (auto simp: valid_heap)
qed

theorem property_deleted_witness:
  "\<exists>oid d e f. db_create_object 2 empty_db = Some (oid, d) \<and> db_add_propdef oid ''foo'' (VInt 7) 2 5 d = Some (True, e) \<and>
    db_delete_propdef oid ''foo'' e = Some (True, f) \<and> prop_map f oid = prop_map d oid"
proof -
  obtain oid d where d: "db_create_object 2 empty_db = Some (oid, d)" "props_ok d" "heap d = [oid \<mapsto> fresh_object oid 2]"
    using one_object by blast
  let ?pv = "\<lparr>pv_var = VInt 7, pv_owner = 2, pv_perms = 5\<rparr>"
  have h: "heap d oid = Some (fresh_object oid 2)" using d(3) by simp
  have v: "pv_var ?pv \<noteq> VClear" by simp
  from add_propdef_spec [OF d(2) h foo_name(1) v one_object_fresh [OF d(3,2) foo_name(2)]]
  obtain e where e: "db_add_propdef oid ''foo'' (VInt 7) 2 5 d = Some (True, e)" "props_ok e" "same_base d e"
    "prop_map e oid = (prop_map d oid)((oid, fold_case ''foo'') \<mapsto> added_slot oid ?pv oid (fresh_object oid 2))"
    using h by fastforce
  obtain a where a: "heap e oid = Some a" using same_base_heap [OF e(3) h] by blast
  have "prop_map e oid (oid, fold_case ''foo'') \<noteq> None" using e(4) by simp
  then obtain p where "(oid, p) \<in> set (slots e oid)" "fold_case (pd_name p) = fold_case ''foo''"
    using prop_map_None [OF e(2) a] by (auto simp: key_def)
  then have "\<exists>p \<in> set (o_propdefs a). fold_case (pd_name p) = fold_case ''foo''"
    using slots_propdef_ok [OF e(2), of oid p oid] a by (metis option.inject)
  with property_deleted [OF e(2) a foo_name(1)] obtain f where
    f: "db_delete_propdef oid ''foo'' e = Some (True, f)"
      "\<forall>y. valid e y \<longrightarrow> prop_map f y = (if y \<in> descendants e oid
        then (prop_map e y)((oid, fold_case ''foo'') := None) else prop_map e y)" by auto
  have "valid e oid" using a by (simp add: valid_heap)
  then have "prop_map f oid = (prop_map d oid)((oid, fold_case ''foo'') := None)" using f(2) e(4) by simp
  moreover have "prop_map d oid = Map.empty" using one_object_slots [OF d(2,3), of oid] h by (simp add: prop_map_def)
  ultimately have "prop_map f oid = prop_map d oid" by simp
  with d(1) e(1) f(1) show ?thesis by blast
qed

end
