(* ===== verification/DbHierarchy.thy ===== *)
theory DbHierarchy
  imports DbPropEdits
begin

text \<open>
  Changing parents, renumbering and sizes of objects (the rest of \<open>db_objects.c\<close>).

  \<open>db_change_parent\<close> moves an object in the hierarchy of children and then rebuilds the slots of all its
  descendants: their slots for their own part of the tree and for the ancestors old and new parent have in
  common stay, those for the other old ancestors go and those for the other new ones come in, clear.
\<close>

subsection \<open>Operations\<close>

definition db_change_parent :: "objid \<Rightarrow> objid \<Rightarrow> db \<Rightarrow> (bool \<times> db) option" where
  "db_change_parent oid parent db = (do {
     ok \<leftarrow> dbpriv_check_properties_for_chparent db oid parent;
     if \<not> ok then Some (False, db)
     else do {
       x \<leftarrow> dbpriv_find_object db oid;
       let db = (if o_child x = NOTHING \<and> o_verbdefs x = [] then db
                 else db_priv_affected_callable_verb_lookup db);
       let old_parent = o_parent x;
       db \<leftarrow> (if old_parent \<noteq> NOTHING then ll_remove Children old_parent oid db else Some db);
       db \<leftarrow> (if parent \<noteq> NOTHING then ll_append Children parent oid db else Some db);
       db \<leftarrow> modify oid (\<lambda>x. x\<lparr>o_parent := parent\<rparr>) db;
       db \<leftarrow> dbpriv_fix_properties_after_chparent oid old_parent db;
       Some (True, db)
     }
   })"

text \<open>Renumbering: the links to the object under its old number are redirected, in its superior's list
  and in all its inferiors.\<close>

definition not_listed :: "hierarchy \<Rightarrow> fault" where
  "not_listed h = Panic (case h of Children \<Rightarrow> ''Object not in parent'' @ [CHR 0x27] @ ''s children list''
     | Contents \<Rightarrow> ''Object not in location'' @ [CHR 0x27] @ ''s contents list'')"

partial_function (option) redirect_after :: "hierarchy \<Rightarrow> objid \<Rightarrow> objid \<Rightarrow> objid \<Rightarrow> db \<Rightarrow> db res option" where
  "redirect_after h lid old new db =
    (if lid = NOTHING then Some (Inl (not_listed h))
     else do {
       x \<leftarrow> dbpriv_find_object db lid;
       if nxt h x = old then map_option Inr (modify lid (set_nxt h new) db)
       else redirect_after h (nxt h x) old new db
     })"

declare redirect_after.simps [code]

definition flatten :: "'a res option \<Rightarrow> 'a res" where
  "flatten r = (case r of None \<Rightarrow> Inl Undefined | Some x \<Rightarrow> x)"

definition redirect :: "hierarchy \<Rightarrow> objid \<Rightarrow> objid \<Rightarrow> objid \<Rightarrow> db \<Rightarrow> db res" where
  "redirect h from old new db = (case dbpriv_find_object db from of
     None \<Rightarrow> Inl Undefined
   | Some f \<Rightarrow>
       if first h f = old then of_option (modify from (set_first h new) db)
       else flatten (redirect_after h (first h f) old new db))"

partial_function (option) adopt :: "hierarchy \<Rightarrow> objid \<Rightarrow> objid \<Rightarrow> db \<Rightarrow> db option" where
  "adopt h c new db =
    (if c = NOTHING then Some db
     else do {
       db \<leftarrow> modify c (set_up h new) db;
       x \<leftarrow> dbpriv_find_object db c;
       adopt h (nxt h x) new db
     })"

declare adopt.simps [code]

definition fix_hierarchy :: "hierarchy \<Rightarrow> objid \<Rightarrow> objid \<Rightarrow> db \<Rightarrow> db res" where
  "fix_hierarchy h old new db = (case dbpriv_find_object db new of
     None \<Rightarrow> Inl Undefined
   | Some x \<Rightarrow>
       bind_res (if up h x \<noteq> NOTHING then redirect h (up h x) old new db else Inr db) (\<lambda>db.
       bind_res (of_option (dbpriv_find_object db new)) (\<lambda>x.
       of_option (adopt h (first h x) new db))))"

fun replace_user :: "objid \<Rightarrow> objid \<Rightarrow> var list \<Rightarrow> var list res" where
  "replace_user old new [] = Inr []"
| "replace_user old new (v # us) = (case v of
     VObj x \<Rightarrow> if x = old then Inr (VObj new # us)
               else bind_res (replace_user old new us) (\<lambda>us. Inr (VObj x # us))
   | _ \<Rightarrow> Inl Undefined)"

definition new_owner :: "objid \<Rightarrow> objid \<Rightarrow> objid \<Rightarrow> objid" where
  "new_owner old new u = (if u = new then NOTHING else if u = old then new else u)"

definition fix_owners :: "objid \<Rightarrow> objid \<Rightarrow> nat \<Rightarrow> object \<Rightarrow> object" where
  "fix_owners old new count x = x\<lparr>o_owner := new_owner old new (o_owner x),
     o_verbdefs := map (\<lambda>v. v\<lparr>v_owner := new_owner old new (v_owner v)\<rparr>) (o_verbdefs x),
     o_propval := map (\<lambda>p. p\<lparr>pv_owner := new_owner old new (pv_owner p)\<rparr>) (take count (o_propval x)) @
       drop count (o_propval x)\<rparr>"

fun fix_all_owners :: "objid \<Rightarrow> objid \<Rightarrow> objid list \<Rightarrow> db \<Rightarrow> db option" where
  "fix_all_owners old new [] db = Some db"
| "fix_all_owners old new (oid # oids) db = (case dbpriv_find_object db oid of
     None \<Rightarrow> fix_all_owners old new oids db
   | Some x \<Rightarrow> do {
       count \<leftarrow> dbpriv_count_properties db oid;
       if count \<le> length (o_propval x) then do {
         db \<leftarrow> modify oid (fix_owners old new count) db;
         fix_all_owners old new oids db
       } else None
     })"

definition db_renumber_object :: "objid \<Rightarrow> db \<Rightarrow> (objid \<times> db) res" where
  "db_renumber_object old db =
    (let db = db_priv_affected_callable_verb_lookup db in
     if int (length (objects db)) < old then Inl Undefined
     else case find_index (\<lambda>x. x = None) (take (nat old) (objects db)) of
       None \<Rightarrow> Inr (old, db)
     | Some n \<Rightarrow>
         (let new = int n in
          bind_res (of_option (dbpriv_find_object db old)) (\<lambda>x.
          bind_res (fix_hierarchy Children old new
            (set_object old None (set_object new (Some (x\<lparr>o_id := new\<rparr>)) db))) (\<lambda>db.
          bind_res (fix_hierarchy Contents old new db) (\<lambda>db.
          bind_res (if is_user db new then replace_user old new (all_users db) else Inr (all_users db)) (\<lambda>us.
          bind_res (of_option (fix_all_owners old new (map int [0..<length (objects db)]) (db\<lparr>all_users := us\<rparr>))) (\<lambda>db.
          Inr (new, db))))))))"

text \<open>The sizes of the structures of \<open>db_private.h\<close> on the target.\<close>

definition sizeof_Object :: int where "sizeof_Object = 120"
definition sizeof_Verbdef :: int where "sizeof_Verbdef = 40"
definition sizeof_Propdef :: int where "sizeof_Propdef = 16"
definition sizeof_Pval :: int where "sizeof_Pval = 32"

definition db_object_bytes :: "(nat \<Rightarrow> int) \<Rightarrow> db \<Rightarrow> objid \<Rightarrow> int option" where
  "db_object_bytes waif_bytes db oid = (do {
     x \<leftarrow> dbpriv_find_object db oid;
     len \<leftarrow> dbpriv_count_properties db oid;
     if len \<le> length (o_propval x) then
       Some (sizeof_Object + sizeof_pointer + int (length (o_name x)) + 1 +
         sum_list (map (\<lambda>v. sizeof_Verbdef + int (length (v_name v)) + 1 +
           (case v_program v of None \<Rightarrow> 0 | Some p \<Rightarrow> program_bytes waif_bytes p)) (o_verbdefs x)) +
         sizeof_Propdef * int (length (o_propdefs x)) +
         sum_list (map (\<lambda>d. int (length (pd_name d)) + 1) (o_propdefs x)) +
         (sizeof_Pval - sizeof_Var) * int len +
         sum_list (map (\<lambda>p. value_bytes waif_bytes (pv_var p)) (take len (o_propval x))))
     else None
   })"

subsection \<open>Ancestors\<close>

lemma above_nothing: "(NOTHING, z) \<in> (kids_rel db)\<^sup>* \<longleftrightarrow> z = NOTHING"
proof
  assume "(NOTHING, z) \<in> (kids_rel db)\<^sup>*"
  then show "z = NOTHING" by (cases rule: converse_rtranclE) (auto simp: kids_rel_iff)
qed simp

lemma above_parent:
  "heap db x = Some a \<Longrightarrow> x \<noteq> z \<Longrightarrow> z \<noteq> NOTHING \<Longrightarrow>
    (x, z) \<in> (kids_rel db)\<^sup>* \<longleftrightarrow> (o_parent a, z) \<in> (kids_rel db)\<^sup>*"
proof
  assume a: "heap db x = Some a" "x \<noteq> z" "(x, z) \<in> (kids_rel db)\<^sup>*"
  from a(3) show "(o_parent a, z) \<in> (kids_rel db)\<^sup>*"
    using a(1,2) by (cases rule: converse_rtranclE) (auto simp: kids_rel_iff)
next
  assume a: "heap db x = Some a" "z \<noteq> NOTHING" "(o_parent a, z) \<in> (kids_rel db)\<^sup>*"
  then have "o_parent a \<noteq> NOTHING" using above_nothing by metis
  then have "(x, o_parent a) \<in> kids_rel db" using a(1) by (simp add: kids_rel_iff)
  with a(3) show "(x, z) \<in> (kids_rel db)\<^sup>*" by simp
qed

lemma on_the_way_up_spec:
  assumes ok: "hier_ok Children db" and o: "o1 \<noteq> NOTHING"
  shows "o2 = NOTHING \<or> valid db o2 \<Longrightarrow> on_the_way_up db o1 o2 = Some ((o2, o1) \<in> (kids_rel db)\<^sup>*)"
  using ok
proof (induction o2 rule: up_induct)
  case (invalid x)
  then have x: "x = NOTHING" by (simp add: valid_def)
  with o have "(x, o1) \<notin> (kids_rel db)\<^sup>*" by (simp add: above_nothing)
  with x show ?case by (subst on_the_way_up.simps) simp
next
  case (valid x a)
  have p: "o_parent a = NOTHING \<or> valid db (o_parent a)" using ok valid(1) by (force simp: hier_ok_def)
  have xn: "x \<noteq> NOTHING" using valid(1) by auto
  show ?case
  proof (cases "o1 = x")
    case False
    then have "(x, o1) \<in> (kids_rel db)\<^sup>* \<longleftrightarrow> (o_parent a, o1) \<in> (kids_rel db)\<^sup>*"
      using above_parent [OF valid(1) _ o] by simp
    then show ?thesis using False xn valid(1) valid(2) [OF p]
      by (subst on_the_way_up.simps) (simp add: db_object_parent_def)
  next
    case True
    then show ?thesis using xn by (subst on_the_way_up.simps) simp
  qed
qed

text \<open>The common ancestor is the nearest one.\<close>

lemma common_ancestor_spec:
  assumes ok: "hier_ok Children db" and o: "old = NOTHING \<or> valid db old"
  shows "o1 = NOTHING \<or> valid db o1 \<Longrightarrow> \<exists>c. common_ancestor db o1 old = Some c \<and>
    (c = NOTHING \<or> (o1, c) \<in> (kids_rel db)\<^sup>* \<and> (old, c) \<in> (kids_rel db)\<^sup>* \<and> valid db c) \<and>
    (\<forall>z. z \<noteq> NOTHING \<and> (o1, z) \<in> (kids_rel db)\<^sup>* \<and> (old, z) \<in> (kids_rel db)\<^sup>* \<longrightarrow> (c, z) \<in> (kids_rel db)\<^sup>*)"
  using ok
proof (induction o1 rule: up_induct)
  case (invalid x)
  then have x: "x = NOTHING" by (simp add: valid_def)
  with x show ?case by (subst common_ancestor.simps) (simp add: above_nothing)
next
  case (valid x a)
  have xn: "x \<noteq> NOTHING" using valid(1) by auto
  note w = on_the_way_up_spec [OF ok xn o]
  show ?case
  proof (cases "(old, x) \<in> (kids_rel db)\<^sup>*")
    case True
    have "valid db x" using valid(1) by (simp add: valid_heap)
    with True w xn show ?thesis by (subst common_ancestor.simps) auto
  next
    case False
    have p: "o_parent a = NOTHING \<or> valid db (o_parent a)" using ok valid(1) by (force simp: hier_ok_def)
    obtain c where c: "common_ancestor db (o_parent a) old = Some c"
      "c = NOTHING \<or> (o_parent a, c) \<in> (kids_rel db)\<^sup>* \<and> (old, c) \<in> (kids_rel db)\<^sup>* \<and> valid db c"
      "\<forall>z. z \<noteq> NOTHING \<and> (o_parent a, z) \<in> (kids_rel db)\<^sup>* \<and> (old, z) \<in> (kids_rel db)\<^sup>* \<longrightarrow> (c, z) \<in> (kids_rel db)\<^sup>*"
      using valid(2) [OF p] by blast
    have "common_ancestor db x old = Some c"
      using xn w False c(1) valid(1) by (subst common_ancestor.simps) (simp add: db_object_parent_def)
    moreover have "(x, z) \<in> (kids_rel db)\<^sup>* \<longleftrightarrow> (o_parent a, z) \<in> (kids_rel db)\<^sup>*"
      if "z \<noteq> NOTHING" "(old, z) \<in> (kids_rel db)\<^sup>*" for z
      using above_parent [OF valid(1) _ that(1)] that(2) False by metis
    ultimately show ?thesis using c(2,3) by blast
  qed
qed


subsection \<open>Rebuilding the slots\<close>

definition clashes :: "db \<Rightarrow> objid \<Rightarrow> propdef \<Rightarrow> bool" where
  "clashes db oid p \<longleftrightarrow> (\<exists>y \<in> descendants db oid. \<exists>a. heap db y = Some a \<and>
     (\<exists>q \<in> set (o_propdefs a). fold_case (pd_name q) = fold_case (pd_name p)))"

lemma check_spec:
  assumes ok: "props_ok db" and v: "valid db oid"
  shows "dbpriv_check_properties_for_chparent db oid new =
    Some (\<forall>s \<in> set (slots db new). \<not> clashes db oid (snd s))"
proof -
  note H = props_okD(2) [OF ok, of Children]
  let ?B = "clashes db oid"
  have b: "property_defined_at_or_below (pd_name p) (pd_hash p) db oid = Some (?B p)" if p: "propdef_ok p" for p
  proof -
    have "list_ex (prop_match (pd_name p) (pd_hash p)) (o_propdefs a) =
        (\<exists>q \<in> set (o_propdefs a). fold_case (pd_name q) = fold_case (pd_name p))" if "heap db y = Some a" for y a
    proof -
      have "pd_hash p = str_hash (pd_name p)" "c_string (pd_name p)" using p by (simp_all add: propdef_ok_def)
      then show ?thesis
        using props_okD(3) [OF ok that] prop_match_fold [of _ "pd_name p"]
        by (simp add: obj_props_ok_def list_ex_iff)
    qed
    then show ?thesis
      using defined_below_spec [OF H v] unfolding property_defined_at_or_below_def clashes_def by (simp cong: conj_cong)
  qed
  have n: "none_below ps db oid = Some (\<forall>p \<in> set ps. \<not> ?B p)" if "\<forall>p \<in> set ps. propdef_ok p" for ps
    using that by (induction ps) (simp_all add: b)
  show ?thesis
    using H
  proof (induction new rule: up_induct)
    case (invalid x)
    then show ?case by (subst dbpriv_check_properties_for_chparent.simps) simp
  next
    case (valid x a)
    have "\<forall>p \<in> set (o_propdefs a). propdef_ok p" using props_okD(3) [OF ok valid(1)] by (simp add: obj_props_ok_def)
    with valid n have "dbpriv_check_properties_for_chparent db oid x =
        Some ((\<forall>p \<in> set (o_propdefs a). \<not> ?B p) \<and> (\<forall>s \<in> set (slots db (o_parent a)). \<not> ?B (snd s)))"
      by (subst dbpriv_check_properties_for_chparent.simps) auto
    also have "((\<forall>p \<in> set (o_propdefs a). \<not> ?B p) \<and> (\<forall>s \<in> set (slots db (o_parent a)). \<not> ?B (snd s))) =
        (\<forall>s \<in> set (slots db x). \<not> ?B (snd s))"
      unfolding slots_valid [OF H valid(1)] by (simp add: ball_Un)
    finally show ?case .
  qed
qed

text \<open>A descendant after the change: \<open>l\<close> slots of its own part of the tree, then those of the new
  ancestors, then the \<open>common\<close> ones.\<close>

definition rebuilt :: "nat \<Rightarrow> nat \<Rightarrow> nat \<Rightarrow> pval list \<Rightarrow> object \<Rightarrow> object" where
  "rebuilt old common l ps a = a\<lparr>o_waif_propdefs := None,
     o_propval := take l (o_propval a) @ map (new_slot a) ps @ take common (drop (l + old) (o_propval a))\<rparr>"

lemma new_slot_twice [simp]: "new_slot a (new_slot b p) = new_slot a p"
  by (simp add: new_slot_def)

text \<open>The slots of the part of the tree below and with \<open>oid\<close>.\<close>

definition local_slots :: "db \<Rightarrow> objid \<Rightarrow> objid \<Rightarrow> nat" where
  "local_slots db oid y = below db oid y + length (own db oid)"

lemma own_simp: "heap db y = Some a \<Longrightarrow> own db y = map (Pair y) (o_propdefs a)"
  by (simp add: own_def)

lemma fix_props_walk:
  assumes H: "hier_ok Children db" and a: "heap db oid = Some a"
    and lens: "\<And>y z. y \<in> descendants db oid \<Longrightarrow> heap db y = Some z \<Longrightarrow> length (o_propval z) = local_slots db oid y + old + common"
    and ps: "ps = (if new = 0 then [] else take new (o_propval p))"
    and p: "new \<noteq> 0 \<Longrightarrow> heap db (o_parent a) = Some p \<and> new \<le> length (o_propval p)"
  shows "\<exists>d. fix_props oid 0 old new common db = Some d \<and> same_base db d \<and> slots d = slots db \<and>
    heap d = (\<lambda>y. if y \<in> descendants db oid then map_option (rebuilt old common (local_slots db oid y) ps) (heap db y) else heap db y)"
proof -
  let ?L = "local_slots db oid" and ?D = "descendants db oid"
  let ?f = "\<lambda>y. rebuilt old common (?L y) ps"
  let ?ea = "\<lambda>y. ?L y - length (own db y)"
  let ?arg = "\<lambda>db (c::objid) (local::nat). Some local"
  have lp: "length ps = new" using ps p by simp
  have child: "?L e = length (own db e) + ?L x" if ex: "x \<in> ?D" "(e, x) \<in> kids_rel db" for x e
  proof -
    obtain z where "heap db e = Some z" using ex(2) by (auto simp: kids_rel_iff)
    then show ?thesis using below_child [OF H ex] by (simp add: local_slots_def own_simp)
  qed
  have root: "?L oid = length (own db oid)" "?ea oid = 0" by (simp_all add: local_slots_def)
  have ge: "length (own db y) \<le> ?L y" if y: "y \<in> ?D" for y
  proof (cases "y = oid")
    case False
    then obtain x where "(y, x) \<in> kids_rel db" "(x, oid) \<in> (kids_rel db)\<^sup>*"
      using y unfolding descendants_def by (auto elim: converse_rtranclE)
    then show ?thesis using child [of x y] by (simp add: descendants_def)
  qed (simp add: local_slots_def)
  have "\<exists>d. tree_walk (fix_slots old new common) ?arg (Inl (oid, ?ea oid)) db = Some d \<and> same_base db d \<and> slots d = slots db \<and>
    heap d = (\<lambda>y. if y \<in> ?D then map_option (?f y) (heap db y) else heap db y)"
  proof (rule walk_edit [OF H, where ea = ?ea and eb = ?L])
    show "valid db oid" using a by (simp add: valid_heap)
    show "base (?f y x) = base x" "o_propdefs (?f y x) = o_propdefs x" for y x by (simp_all add: rebuilt_def base_def)
  next
    fix y d x assume y: "y \<in> ?D" "heap db y = Some x" "heap d y = Some x" "same_base db d" "slots d = slots db"
      and up: "\<And>q. (y, q) \<in> kids_rel db \<Longrightarrow> heap d q = (if y = oid then heap db q else map_option (?f q) (heap db q))"
    have loc: "?ea y + length (o_propdefs x) = ?L y" using ge [OF y(1)] own_simp [OF y(2)] by simp
    have inh: "(if new = 0 then Some [] else do {
          parent \<leftarrow> heap d (o_parent x);
          if ?ea y + new \<le> length (o_propval parent)
          then Some (map (new_slot x) (take new (drop (?ea y) (o_propval parent)))) else None
        }) = Some (map (new_slot x) ps)"
    proof (cases "new = 0")
      case False
      show ?thesis
      proof (cases "y = oid")
        case True
        with p [OF False] y(2) a have "heap db (o_parent x) = Some p" "new \<le> length (o_propval p)" by auto
        moreover have "(y, o_parent x) \<in> kids_rel db" using calculation(1) y(2) by (auto simp: kids_rel_iff)
        ultimately show ?thesis using up True False root ps by simp
      next
        case ne: False
        then obtain w where w: "(y, w) \<in> kids_rel db" "(w, oid) \<in> (kids_rel db)\<^sup>*"
          using y(1) unfolding descendants_def by (auto elim: converse_rtranclE)
        then have wD: "w \<in> ?D" by (simp add: descendants_def)
        have wp: "o_parent x = w" using w(1) y(2) by (auto simp: kids_rel_iff)
        have "valid db w" using H y(2) wp w(1) by (fastforce simp: hier_ok_def kids_rel_iff)
        then obtain z where z: "heap db w = Some z" by (auto simp: valid_heap)
        have "?ea y = ?L w" using child [OF wD w(1)] by simp
        moreover have "length (take (?L w) (o_propval z)) = ?L w" using lens [OF wD z] by simp
        ultimately show ?thesis using False ne up [OF w(1)] z lp wp by (simp add: rebuilt_def)
      qed
    qed (simp add: ps)
    have "fix_slots old new common y (?ea y) d = map_option (\<lambda>d. (d, ?L y)) (modify y (?f y) d)"
      using y(3) loc lens [OF y(1,2)] inh
      by (simp add: fix_slots_def modify_def rebuilt_def Let_def)
    then show "fix_slots old new common y (?ea y) d = map_option (\<lambda>d. (d, ?L y)) (modify y (?f y) d)" .
  next
    fix x e d assume x: "x \<in> ?D" "(e, x) \<in> kids_rel db"
    show "?arg d e (?L x) = Some (?ea e)" using child [OF x] by simp
  qed
  then show ?thesis using root(2) by (simp add: fix_props_def)
qed

subsection \<open>The database with the new parent\<close>

text \<open>\<open>e\<close> is \<open>db\<close> with the object \<open>oid\<close> under the parent \<open>new\<close>, all else but the lists of children as before.\<close>

definition reparented :: "db \<Rightarrow> objid \<Rightarrow> objid \<Rightarrow> db \<Rightarrow> bool" where
  "reparented db oid new e \<longleftrightarrow> (\<forall>y. map_option (core Children) (heap e y) =
     (if y = oid then map_option (\<lambda>x. set_up Children new (core Children x)) (heap db y)
      else map_option (core Children) (heap db y)))"

definition props_part :: "object \<Rightarrow> nat \<times> propdef list \<times> pval list \<times> objid" where
  "props_part a = (o_propdefs_max a, o_propdefs a, o_propval a, o_owner a)"

definition id_verbs :: "object \<Rightarrow> objid \<times> verbdef list" where
  "id_verbs a = (o_id a, o_verbdefs a)"

lemma core_props: "core Children a = core Children b \<Longrightarrow> props_part a = props_part b \<and> o_parent a = o_parent b \<and> id_verbs a = id_verbs b"
  by (cases a, cases b) (simp add: core_def props_part_def id_verbs_def)

lemma core_props_up:
  "core Children a = set_up Children n (core Children b) \<Longrightarrow> props_part a = props_part b \<and> o_parent a = n \<and> id_verbs a = id_verbs b"
  by (cases a, cases b) (simp add: core_def props_part_def id_verbs_def)

lemma reparentedD:
  assumes "reparented db oid new e" "heap db y = Some b"
  shows "\<exists>c. heap e y = Some c \<and> props_part c = props_part b \<and> o_parent c = (if y = oid then new else o_parent b) \<and> id_verbs c = id_verbs b"
proof (cases "y = oid")
  case True
  with assms obtain c where c: "heap e y = Some c" "core Children c = set_up Children new (core Children b)"
    by (auto simp: reparented_def dest!: spec [of _ y])
  show ?thesis using c(1) core_props_up [OF c(2)] True by simp
next
  case False
  with assms obtain c where c: "heap e y = Some c" "core Children c = core Children b"
    by (auto simp: reparented_def dest!: spec [of _ y])
  show ?thesis using c(1) core_props [OF c(2)] False by simp
qed

lemma reparented_None: "reparented db oid new e \<Longrightarrow> heap db y = None \<Longrightarrow> heap e y = None"
  by (auto simp: reparented_def dest!: spec [of _ y] split: if_splits)

lemma reparented_kids:
  assumes "reparented db oid new e" "valid db oid"
  shows "(y, p) \<in> kids_rel e \<longleftrightarrow> (if y = oid then p = new \<and> p \<noteq> NOTHING else (y, p) \<in> kids_rel db)"
proof (cases "heap db y")
  case None
  then show ?thesis using reparented_None [OF assms(1) None] assms(2) by (auto simp: kids_rel_iff valid_heap)
next
  case (Some b)
  then show ?thesis using reparentedD [OF assms(1) Some] by (auto simp: kids_rel_iff)
qed

lemma rtrancl_cut: "(\<And>y z. y \<noteq> c \<Longrightarrow> (y, z) \<in> R \<Longrightarrow> (y, z) \<in> S) \<Longrightarrow> (y, c) \<in> R\<^sup>* \<Longrightarrow> (y, c) \<in> S\<^sup>*"
proof (erule converse_rtrancl_induct)
  fix y z assume "\<And>y z. y \<noteq> c \<Longrightarrow> (y, z) \<in> R \<Longrightarrow> (y, z) \<in> S" "(y, z) \<in> R" "(z, c) \<in> S\<^sup>*"
  then show "(y, c) \<in> S\<^sup>*" by (cases "y = c") (auto intro: converse_rtrancl_into_rtrancl)
qed simp

lemma reparented_descendants:
  assumes "reparented db oid new e" "valid db oid"
  shows "descendants e oid = descendants db oid"
  unfolding descendants_def
  using rtrancl_cut [of oid "kids_rel e" "kids_rel db"] rtrancl_cut [of oid "kids_rel db" "kids_rel e"]
    reparented_kids [OF assms] by (auto simp del: kids_rel_iff)

lemma reparented_slots_out:
  assumes "reparented db oid new e" "valid db oid" and ok: "hier_ok Children db" and oke: "hier_ok Children e"
  shows "y \<notin> descendants db oid \<Longrightarrow> slots e y = slots db y"
  using ok
proof (induction y rule: up_induct)
  case (invalid x)
  with reparented_None [OF assms(1)] show ?case by simp
next
  case (valid x b)
  then have x: "x \<noteq> oid" by auto
  obtain c where c: "heap e x = Some c" "o_propdefs c = o_propdefs b" "o_parent c = o_parent b"
    using reparentedD [OF assms(1) valid(1)] x by (auto simp: props_part_def)
  have "slots e (o_parent b) = slots db (o_parent b)"
  proof (cases "o_parent b = NOTHING")
    case False
    then have "(x, o_parent b) \<in> kids_rel db" using valid(1) by (simp add: kids_rel_iff)
    then show ?thesis using valid(2,3) descendants_child by blast
  qed simp
  then show ?case using c by (simp add: slots_valid [OF ok valid(1)] slots_valid [OF oke c(1)])
qed

lemma local_child:
  assumes "hier_ok Children db" "x \<in> descendants db oid" "(c, x) \<in> kids_rel db" "heap db c = Some a"
  shows "local_slots db oid c = length (o_propdefs a) + local_slots db oid x"
  using below_child [OF assms] by (simp add: local_slots_def)

lemma reparented_slots_in:
  assumes "reparented db oid new e" "valid db oid" and ok: "hier_ok Children db" and oke: "hier_ok Children e"
    and new: "new \<notin> descendants db oid" and y: "y \<in> descendants db oid"
  shows "slots e y = take (local_slots db oid y) (slots db y) @ slots db new" "local_slots e oid y = local_slots db oid y"
proof -
  have "(y, oid) \<in> (kids_rel db)\<^sup>*" using y by (simp add: descendants_def)
  then have "slots e y = take (local_slots db oid y) (slots db y) @ slots db new \<and> local_slots e oid y = local_slots db oid y"
  proof (induction rule: converse_rtrancl_induct)
    case base
    obtain a where a: "heap db oid = Some a" using assms(2) by (auto simp: valid_heap)
    obtain c where c: "heap e oid = Some c" "o_propdefs c = o_propdefs a" "o_parent c = new"
      using reparentedD [OF assms(1) a] by (auto simp: props_part_def)
    have "slots e new = slots db new" by (rule reparented_slots_out [OF assms(1,2) ok oke new])
    then show ?case using a c
      by (simp add: slots_valid [OF ok a] slots_valid [OF oke c(1)] local_slots_def own_simp)
  next
    case (step y z)
    have zD: "z \<in> descendants db oid" using step.hyps(2) by (simp add: descendants_def)
    have ne: "y \<noteq> oid" by (rule strict_descendant [OF ok step.hyps(1) zD])
    obtain b where b: "heap db y = Some b" "o_parent b = z" using step.hyps(1) by (auto simp: kids_rel_iff)
    obtain c where c: "heap e y = Some c" "o_propdefs c = o_propdefs b" "o_parent c = z"
      using reparentedD [OF assms(1) b(1)] ne b(2) by (auto simp: props_part_def)
    have "(y, z) \<in> kids_rel e" using reparented_kids [OF assms(1,2)] ne step.hyps(1) by simp
    moreover have "z \<in> descendants e oid" using zD reparented_descendants [OF assms(1,2)] by simp
    ultimately have "local_slots e oid y = length (o_propdefs b) + local_slots e oid z"
      using local_child [OF oke _ _ c(1)] c(2) by simp
    moreover have "local_slots db oid y = length (o_propdefs b) + local_slots db oid z"
      by (rule local_child [OF ok zD step.hyps(1) b(1)])
    ultimately show ?case using step.IH b c by (simp add: slots_valid [OF ok b(1)] slots_valid [OF oke c(1)])
  qed
  then show "slots e y = take (local_slots db oid y) (slots db y) @ slots db new" "local_slots e oid y = local_slots db oid y"
    by blast+
qed

lemma local_split:
  assumes "hier_ok Children db" "heap db oid = Some a" "y \<in> descendants db oid"
  shows "slots db y = take (local_slots db oid y) (slots db y) @ slots db (o_parent a)"
    "local_slots db oid y + length (slots db (o_parent a)) = length (slots db y)"
proof -
  have t: "take (local_slots db oid y) (slots db y) = take (below db oid y) (slots db y) @ map (Pair oid) (o_propdefs a)"
    using slots_around(1) [OF assms le_refl] by (simp add: local_slots_def own_simp [OF assms(2)])
  then show "slots db y = take (local_slots db oid y) (slots db y) @ slots db (o_parent a)"
    using slots_split(1) [OF assms] by (metis append_assoc)
  show "local_slots db oid y + length (slots db (o_parent a)) = length (slots db y)"
    using slots_split(2) [OF assms] slots_valid [OF assms(1,2)]
    by (simp add: local_slots_def own_simp [OF assms(2)])
qed

lemma local_definers:
  assumes "hier_ok Children db" "heap db oid = Some a" "y \<in> descendants db oid" "(z, q) \<in> set (take (local_slots db oid y) (slots db y))"
  shows "z \<in> descendants db oid" "\<exists>c. heap db z = Some c \<and> q \<in> set (o_propdefs c)"
proof -
  have "take (local_slots db oid y) (slots db y) = take (below db oid y) (slots db y) @ map (Pair oid) (o_propdefs a)"
    using slots_around(1) [OF assms(1-3) le_refl] by (simp add: local_slots_def own_simp [OF assms(2)])
  with assms(4) consider "(z, q) \<in> set (take (below db oid y) (slots db y))" | "z = oid" "q \<in> set (o_propdefs a)" by auto
  then have "z \<in> descendants db oid \<and> (\<exists>c. heap db z = Some c \<and> q \<in> set (o_propdefs c))"
    by cases (use below_split [OF assms(1-3)] assms(2) in auto)
  then show "z \<in> descendants db oid" "\<exists>c. heap db z = Some c \<and> q \<in> set (o_propdefs c)" by blast+
qed


subsection \<open>What a change of parent does to properties\<close>

lemma definer_in:
  assumes "hier_ok Children db" "(x, z) \<in> (kids_rel db)\<^sup>*" "heap db z = Some c" "p \<in> set (o_propdefs c)"
  shows "(z, p) \<in> set (slots db x)"
proof -
  have "x \<in> descendants db z" using assms(2) by (simp add: descendants_def)
  then obtain ds where "slots db x = ds @ slots db z" using slots_above [OF assms(1)] by blast
  then show ?thesis using slots_valid [OF assms(1,3)] assms(4) by simp
qed

text \<open>The slots of the old and the new parent, split at the common ancestor: what they share is below it.\<close>

lemma split_at_common:
  assumes ok: "props_ok db" and c: "c = NOTHING \<or> (new, c) \<in> (kids_rel db)\<^sup>* \<and> (old, c) \<in> (kids_rel db)\<^sup>* \<and> valid db c"
    and near: "\<forall>z. z \<noteq> NOTHING \<and> (new, z) \<in> (kids_rel db)\<^sup>* \<and> (old, z) \<in> (kids_rel db)\<^sup>* \<longrightarrow> (c, z) \<in> (kids_rel db)\<^sup>*"
  shows "\<exists>N O'. slots db new = N @ slots db c \<and> slots db old = O' @ slots db c"
    "key s \<in> key ` set (slots db new) \<Longrightarrow> key s \<in> key ` set (slots db old) \<Longrightarrow> key s \<in> key ` set (slots db c)"
proof -
  note H = props_okD(2) [OF ok, of Children]
  show "\<exists>N O'. slots db new = N @ slots db c \<and> slots db old = O' @ slots db c"
  proof (cases "c = NOTHING")
    case False
    then have "new \<in> descendants db c" "old \<in> descendants db c" using c by (simp_all add: descendants_def)
    then show ?thesis using slots_above [OF H] by blast
  qed simp
  assume "key s \<in> key ` set (slots db new)" "key s \<in> key ` set (slots db old)"
  then obtain z p q where zp: "(z, p) \<in> set (slots db new)" "(z, q) \<in> set (slots db old)" "key s = key (z, p)" by (auto simp: key_def)
  obtain b where b: "heap db z = Some b" "p \<in> set (o_propdefs b)" using slots_propdef_ok [OF ok zp(1)] by blast
  have "z \<noteq> NOTHING" using b(1) by auto
  moreover have "(new, z) \<in> (kids_rel db)\<^sup>*" "(old, z) \<in> (kids_rel db)\<^sup>*"
    using slots_definer [OF H zp(1)] slots_definer [OF H zp(2)] by (simp_all add: descendants_def)
  ultimately have "(c, z) \<in> (kids_rel db)\<^sup>*" using near by blast
  from definer_in [OF H this b] zp(3) show "key s \<in> key ` set (slots db c)" by auto
qed

text \<open>The map of a rebuilt object.\<close>

lemma map_of_zip_append:
  "length ks = length vs \<Longrightarrow> map_of (zip (ks @ ks') (vs @ vs')) = map_of (zip ks' vs') ++ map_of (zip ks vs)"
  by simp

lemma map_of_zip_map: "map_of (zip ks (map f vs)) k = map_option f (map_of (zip ks vs) k)"
  by (induction ks vs rule: list_induct2') auto

lemma rebuilt_map:
  assumes l: "length lv = length L" "length ov = length O'" "length cv = length C" "length nv = length N" "length cv' = length C"
    and d: "distinct (L @ O' @ C)" "distinct (N @ C)" and x: "set L \<inter> set (N @ C) = {}" "set O' \<inter> set N \<subseteq> set C"
  shows "map_of (zip (L @ N @ C) (lv @ map f nv @ cv)) k =
    (if k \<in> set (N @ C) then (case map_of (zip (L @ O' @ C) (lv @ ov @ cv)) k of Some p \<Rightarrow> Some p
       | None \<Rightarrow> map_option f (map_of (zip (N @ C) (nv @ cv')) k))
     else if k \<in> set L then map_of (zip (L @ O' @ C) (lv @ ov @ cv)) k else None)"
proof -
  let ?m = "\<lambda>ks vs. map_of (zip ks vs)"
  have a: "?m (L @ N @ C) (lv @ map f nv @ cv) k = (?m C cv ++ ?m N (map f nv) ++ ?m L lv) k"
    "?m (L @ O' @ C) (lv @ ov @ cv) k = (?m C cv ++ ?m O' ov ++ ?m L lv) k"
    "?m (N @ C) (nv @ cv') k = (?m C cv' ++ ?m N nv) k"
    using l by (simp_all add: map_add_assoc)
  have n: "?m ks vs k = None \<longleftrightarrow> k \<notin> set ks" if "length vs = length ks" for ks and vs :: "'v list"
    using that by (simp add: map_of_zip_is_None)
  have nn: "?m N (map f nv) k = None \<longleftrightarrow> k \<notin> set N" using l(4) by (simp add: map_of_zip_is_None)
  consider "k \<in> set L" | "k \<in> set C" | "k \<in> set N" "k \<notin> set C" | "k \<notin> set L" "k \<notin> set C" "k \<notin> set N" by blast
  then show ?thesis
  proof cases
    case 1
    then have "k \<notin> set N" "k \<notin> set C" "k \<notin> set O'" using d x by auto
    then show ?thesis using 1 unfolding a by (auto simp: map_add_def n l nn split: option.splits)
  next
    case 2
    then have "k \<notin> set L" "k \<notin> set N" "k \<notin> set O'" using d x by auto
    then have "?m L lv k = None" "?m N nv k = None" "?m O' ov k = None" "?m N (map f nv) k = None" "?m C cv k \<noteq> None"
      using 2 by (simp_all add: n l nn)
    then show ?thesis using 2 unfolding a by (auto simp: map_add_def)
  next
    case 3
    then have "k \<notin> set L" "k \<notin> set O'" using x by auto
    then have "?m L lv k = None" "?m C cv k = None" "?m C cv' k = None" "?m O' ov k = None" "?m N nv k \<noteq> None"
      using 3 by (simp_all add: n l)
    then show ?thesis using 3 unfolding a by (auto simp: map_add_def map_of_zip_map)
  next
    case 4
    then have "?m L lv k = None" "?m C cv k = None" "?m N (map f nv) k = None" by (simp_all add: n l nn)
    then show ?thesis using 4 unfolding a by (simp add: map_add_def)
  qed
qed

lemma reparented_above:
  assumes "reparented db oid new e" "valid db oid" "x \<notin> descendants db oid"
  shows "(x, z) \<in> (kids_rel e)\<^sup>* \<longleftrightarrow> (x, z) \<in> (kids_rel db)\<^sup>*"
proof -
  have up: "(x, w) \<in> kids_rel db \<Longrightarrow> x \<notin> descendants db oid \<Longrightarrow> w \<notin> descendants db oid" for x w
    using descendants_child by blast
  have eq: "(x, w) \<in> kids_rel e \<longleftrightarrow> (x, w) \<in> kids_rel db" if "x \<notin> descendants db oid" for x w
  proof -
    have "x \<noteq> oid" using that by auto
    then show ?thesis using reparented_kids [OF assms(1,2)] by simp
  qed
  have "(x, z) \<in> (kids_rel e)\<^sup>* \<Longrightarrow> x \<notin> descendants db oid \<longrightarrow> (x, z) \<in> (kids_rel db)\<^sup>*"
    by (erule converse_rtrancl_induct) (use eq up in \<open>auto intro: converse_rtrancl_into_rtrancl\<close>)
  moreover have "(x, z) \<in> (kids_rel db)\<^sup>* \<Longrightarrow> x \<notin> descendants db oid \<longrightarrow> (x, z) \<in> (kids_rel e)\<^sup>*"
    by (erule converse_rtrancl_induct) (use eq up in \<open>auto intro: converse_rtrancl_into_rtrancl\<close>)
  ultimately show ?thesis using assms(3) by blast
qed

lemma above_outside: "x \<notin> descendants db oid \<Longrightarrow> (x, z) \<in> (kids_rel db)\<^sup>* \<Longrightarrow> z \<notin> descendants db oid"
  unfolding descendants_def mem_Collect_eq by (metis rtrancl_trans)

text \<open>Rebuilding after the move finds the split of both parents' slots.\<close>

lemma fix_after_spec:
  assumes ok: "props_ok db" and a: "heap db oid = Some a" and new: "new = NOTHING \<or> valid db new"
    and nd: "new \<notin> descendants db oid" and r: "reparented db oid new e" and He: "hier_ok Children e"
  shows "\<exists>N O' C d ps. slots db new = N @ C \<and> slots db (o_parent a) = O' @ C \<and>
    key ` set O' \<inter> key ` set N \<subseteq> key ` set C \<and>
    dbpriv_fix_properties_after_chparent oid (o_parent a) e = Some d \<and> same_base e d \<and> slots d = slots e \<and>
    (\<forall>b. heap db new = Some b \<longrightarrow> ps = take (length N) (o_propval b)) \<and> (new = NOTHING \<longrightarrow> ps = []) \<and>
    heap d = (\<lambda>y. if y \<in> descendants db oid
      then map_option (rebuilt (length O') (length C) (local_slots db oid y) ps) (heap e y) else heap e y)"
proof -
  note H = props_okD(2) [OF ok, of Children]
  have v: "valid db oid" using a by (simp add: valid_heap)
  have oidn: "oid \<noteq> NOTHING" using a by auto
  have old: "o_parent a = NOTHING \<or> valid db (o_parent a)" using H a by (force simp: hier_ok_def)
  have od: "o_parent a \<notin> descendants db oid"
  proof (cases "o_parent a = NOTHING")
    case True
    then show ?thesis using oidn above_nothing by (simp add: descendants_def)
  next
    case False
    then have "(oid, o_parent a) \<in> kids_rel db" using a by (simp add: kids_rel_iff)
    then show ?thesis by (rule descendants_not_above [OF H])
  qed
  have ve: "valid e y = valid db y" for y
    using reparentedD [OF r, of y] reparented_None [OF r, of y] by (cases "heap db y") (auto simp: valid_def)
  obtain c where c: "common_ancestor e new (o_parent a) = Some c"
    "c = NOTHING \<or> (new, c) \<in> (kids_rel e)\<^sup>* \<and> (o_parent a, c) \<in> (kids_rel e)\<^sup>* \<and> valid e c"
    "\<forall>z. z \<noteq> NOTHING \<and> (new, z) \<in> (kids_rel e)\<^sup>* \<and> (o_parent a, z) \<in> (kids_rel e)\<^sup>* \<longrightarrow> (c, z) \<in> (kids_rel e)\<^sup>*"
    using common_ancestor_spec [OF He, of "o_parent a" new] old new ve by auto
  note ab = reparented_above [OF r v nd] reparented_above [OF r v od]
  have cd: "c \<notin> descendants db oid"
    using c(2) above_outside [OF nd] ab oidn above_nothing by (cases "c = NOTHING") (auto simp: descendants_def)
  have c2: "c = NOTHING \<or> (new, c) \<in> (kids_rel db)\<^sup>* \<and> (o_parent a, c) \<in> (kids_rel db)\<^sup>* \<and> valid db c"
    using c(2) ab ve by simp
  have c3: "\<forall>z. z \<noteq> NOTHING \<and> (new, z) \<in> (kids_rel db)\<^sup>* \<and> (o_parent a, z) \<in> (kids_rel db)\<^sup>* \<longrightarrow> (c, z) \<in> (kids_rel db)\<^sup>*"
    using c(3) ab reparented_above [OF r v cd] by simp
  obtain N O' where NO: "slots db new = N @ slots db c" "slots db (o_parent a) = O' @ slots db c"
    using split_at_common(1) [OF ok c2 c3] by blast
  have x: "key ` set O' \<inter> key ` set N \<subseteq> key ` set (slots db c)"
  proof
    fix k assume k: "k \<in> key ` set O' \<inter> key ` set N"
    then obtain s where "k = key s" by blast
    with k NO split_at_common(2) [OF ok c2 c3, of s] show "k \<in> key ` set (slots db c)" by auto
  qed
  let ?C = "slots db c"
  obtain b where b: "heap e oid = Some b" "o_parent b = new" using reparentedD [OF r a] by auto
  have cnt: "dbpriv_count_properties e y = Some (length (slots db y))" if "y \<notin> descendants db oid" for y
    using count_slots [OF He, of y] reparented_slots_out [OF r v H He that] by simp
  have D: "descendants e oid = descendants db oid" by (rule reparented_descendants [OF r v])
  define ps where "ps = (if length N = 0 then [] else take (length N) (case heap e new of None \<Rightarrow> [] | Some p \<Rightarrow> o_propval p))"
  have pv: "\<exists>p'. heap e y = Some p' \<and> o_propval p' = o_propval p" if "heap db y = Some p" for y p
    using reparentedD [OF r that] by (auto simp: props_part_def)
  have lens: "length (o_propval z) = local_slots e oid y + length O' + length ?C" if y: "y \<in> descendants e oid" "heap e y = Some z" for y z
  proof -
    obtain w where w: "heap db y = Some w" using ve [of y] y(2) by (auto simp: valid_heap)
    have "length (o_propval z) = length (slots db y)"
      using pv [OF w] y(2) props_okD(3) [OF ok w] by (auto simp: obj_props_ok_def)
    then show ?thesis
      using local_split(2) [OF H a, of y] reparented_slots_in(2) [OF r v H He nd, of y] y(1) D NO(2) by simp
  qed
  have p: "heap e (o_parent b) = Some (the (heap e new)) \<and> length N \<le> length (o_propval (the (heap e new)))" if "length N \<noteq> 0"
  proof -
    have "new \<noteq> NOTHING" using that NO(1) by auto
    then obtain w where w: "heap db new = Some w" using new by (auto simp: valid_heap)
    then show ?thesis using pv [OF w] props_okD(3) [OF ok w] NO(1) b(2) by (auto simp: obj_props_ok_def)
  qed
  have "ps = (if length N = 0 then [] else take (length N) (o_propval (the (heap e new))))"
    using p b(2) by (cases "heap e new") (auto simp: ps_def)
  from fix_props_walk [OF He b(1) lens this p]
  obtain d where d: "fix_props oid 0 (length O') (length N) (length ?C) e = Some d" "same_base e d" "slots d = slots e"
    "heap d = (\<lambda>y. if y \<in> descendants e oid then map_option (rebuilt (length O') (length ?C) (local_slots e oid y) ps) (heap e y) else heap e y)"
    by blast
  have "dbpriv_fix_properties_after_chparent oid (o_parent a) e = Some d"
    using c(1) b d(1) NO cnt [OF nd] cnt [OF od] cnt [OF cd]
    by (cases "c = NOTHING") (simp_all add: dbpriv_fix_properties_after_chparent_def db_object_parent_def)
  moreover have "heap d = (\<lambda>y. if y \<in> descendants db oid then map_option (rebuilt (length O') (length ?C) (local_slots db oid y) ps) (heap e y) else heap e y)"
    using d(4) D reparented_slots_in(2) [OF r v H He nd] by auto
  moreover have "\<forall>b. heap db new = Some b \<longrightarrow> ps = take (length N) (o_propval b)" using pv by (fastforce simp: ps_def)
  moreover have "new = NOTHING \<longrightarrow> ps = []" using NO(1) by (auto simp: ps_def)
  ultimately show ?thesis using NO x d(2,3) by blast
qed


definition after_chparent :: "db \<Rightarrow> objid \<Rightarrow> objid \<Rightarrow> objid \<Rightarrow> object \<Rightarrow> objid \<times> int list \<Rightarrow> pval option" where
  "after_chparent db oid new y b k =
    (if k \<in> key ` set (slots db new) then (case prop_map db y k of Some p \<Rightarrow> Some p
       | None \<Rightarrow> map_option (new_slot b) (prop_map db new k))
     else if fst k \<in> descendants db oid then prop_map db y k else None)"

lemma new_slot_part: "props_part a = props_part b \<Longrightarrow> new_slot a = new_slot b"
  by (simp add: props_part_def new_slot_def fun_eq_iff)

lemma if_agree:
  "(b \<Longrightarrow> d) \<Longrightarrow> (d \<Longrightarrow> \<not> b \<Longrightarrow> y = None) \<Longrightarrow>
    (if a then x else if b then y else None) = (if a then x else if d then y else None)"
  by auto

lemma rebuilt_obj:
  assumes ok: "props_ok db" and a: "heap db oid = Some a" and nd: "new \<notin> descendants db oid" and vn: "new = NOTHING \<or> valid db new"
    and free: "\<forall>s \<in> set (slots db new). \<not> clashes db oid (snd s)"
    and NO: "slots db new = N @ C" "slots db (o_parent a) = O' @ C" and x: "key ` set O' \<inter> key ` set N \<subseteq> key ` set C"
    and ps: "\<forall>b. heap db new = Some b \<longrightarrow> ps = take (length N) (o_propval b)" "new = NOTHING \<longrightarrow> ps = []"
    and y: "y \<in> descendants db oid" "heap db y = Some b" and c: "props_part c = props_part b"
    and sd: "slots d y = take (local_slots db oid y) (slots db y) @ slots db new"
    and hd: "heap d y = Some (rebuilt (length O') (length C) (local_slots db oid y) ps c)"
  shows "obj_props_ok d y (rebuilt (length O') (length C) (local_slots db oid y) ps c) \<and>
    prop_map d y = after_chparent db oid new y b"
proof -
  note H = props_okD(2) [OF ok, of Children] and ob = props_okD(3) [OF ok y(2)]
  let ?l = "local_slots db oid y" and ?pv = "o_propval b" and ?S = "slots db y"
  let ?L = "take ?l ?S" and ?lv = "take ?l (o_propval b)" and ?cv = "drop (?l + length O') (o_propval b)"
  have c': "o_propval c = ?pv" "o_propdefs c = o_propdefs b" "o_propdefs_max c = o_propdefs_max b"
    using c by (simp_all add: props_part_def)
  have S: "?S = ?L @ O' @ C" "?l + length O' + length C = length ?S"
    using local_split [OF H a y(1)] NO(2) by auto
  have lpv: "length ?pv = length ?S" using ob by (simp add: obj_props_ok_def)
  have lens: "length ?lv = length (map key ?L)" "length (take (length O') (drop ?l ?pv)) = length (map key O')"
    "length ?cv = length (map key C)" using lpv S(2) by simp_all
  have pv: "?pv = ?lv @ take (length O') (drop ?l ?pv) @ ?cv"
    using append_take_drop_id [of ?l ?pv] append_take_drop_id [of "length O'" "drop ?l ?pv"] by (simp add: add.commute)
  have nv: "\<exists>cv'. length ps = length (map key N) \<and> length cv' = length (map key C) \<and>
      (\<forall>k. map_of (zip (map key N @ map key C) (ps @ cv')) k = prop_map db new k) \<and> distinct (names_of (slots db new))"
  proof (cases "new = NOTHING")
    case True
    then show ?thesis using NO(1) ps(2) by (simp add: prop_map_def names_of_def)
  next
    case False
    then obtain w where w: "heap db new = Some w" using vn by (auto simp: valid_heap)
    have o: "length (o_propval w) = length N + length C" "distinct (names_of (slots db new))"
      using props_okD(3) [OF ok w] NO(1) by (simp_all add: obj_props_ok_def)
    have "ps @ drop (length N) (o_propval w) = o_propval w" using ps(1) w by simp
    then show ?thesis using o ps(1) w NO(1) by (intro exI [of _ "drop (length N) (o_propval w)"]) (simp add: prop_map_def)
  qed
  then obtain cv' where cv': "length ps = length (map key N)" "length cv' = length (map key C)"
    "\<And>k. map_of (zip (map key N @ map key C) (ps @ cv')) k = prop_map db new k" "distinct (names_of (slots db new))" by blast
  have dS: "distinct (names_of (?L @ O' @ C))" using ob S(1) by (metis obj_props_ok_def)
  have dk: "distinct (map key ?L @ map key O' @ map key C)" "distinct (map key N @ map key C)"
    using distinct_keys [OF dS] distinct_keys [OF cv'(4)] NO(1) by simp_all
  have LD: "fst s \<in> descendants db oid" if "s \<in> set ?L" for s
    using local_definers(1) [OF H a y(1), of "fst s" "snd s"] that by simp
  have ND: "fst s \<notin> descendants db oid" if "s \<in> set (slots db new)" for s
  proof -
    have "new \<in> descendants db (fst s)" using slots_definer [OF H, of "fst s" "snd s"] that by simp
    then show ?thesis using above_outside [OF nd] by (simp add: descendants_def)
  qed
  have apart: "set (map key ?L) \<inter> set (map key N @ map key C) = {}"
  proof -
    have "fst k \<in> descendants db oid" if "k \<in> set (map key ?L)" for k using that LD by (auto simp: key_def)
    moreover have "fst k \<notin> descendants db oid" if kN: "k \<in> set (map key N @ map key C)" for k
    proof -
      obtain s where "s \<in> set (slots db new)" "k = key s" using kN NO(1) by auto
      then show ?thesis using ND [of s] by (simp add: key_def)
    qed
    ultimately show ?thesis by blast
  qed
  let ?r = "rebuilt (length O') (length C) ?l ps c"
  have rv: "o_propval ?r = ?lv @ map (new_slot b) ps @ ?cv"
    using lens(3) new_slot_part [OF c] by (simp add: rebuilt_def c')
  have sl: "map key (slots d y) = map key ?L @ map key N @ map key C" using sd NO(1) by simp
  have "prop_map d y k = after_chparent db oid new y b k" for k
  proof -
    have "prop_map d y k = map_of (zip (map key ?L @ map key N @ map key C) (?lv @ map (new_slot b) ps @ ?cv)) k"
      using hd sl rv by (simp add: prop_map_def)
    also have "\<dots> = (if k \<in> set (map key N @ map key C) then
         (case map_of (zip (map key ?L @ map key O' @ map key C) (?lv @ take (length O') (drop ?l ?pv) @ ?cv)) k of Some p \<Rightarrow> Some p
          | None \<Rightarrow> map_option (new_slot b) (map_of (zip (map key N @ map key C) (ps @ cv')) k))
       else if k \<in> set (map key ?L) then map_of (zip (map key ?L @ map key O' @ map key C) (?lv @ take (length O') (drop ?l ?pv) @ ?cv)) k
       else None)"
      by (rule rebuilt_map [OF lens cv'(1,2) dk apart]) (use x in auto)
    also have "map_of (zip (map key ?L @ map key O' @ map key C) (?lv @ take (length O') (drop ?l ?pv) @ ?cv)) k = prop_map db y k"
    proof -
      have "map key ?S = map key ?L @ map key O' @ map key C" using S(1) by (metis map_append)
      then show ?thesis using pv y(2) by (simp add: prop_map_def)
    qed
    also have "(if k \<in> set (map key N @ map key C) then (case prop_map db y k of Some p \<Rightarrow> Some p
          | None \<Rightarrow> map_option (new_slot b) (map_of (zip (map key N @ map key C) (ps @ cv')) k))
       else if k \<in> set (map key ?L) then prop_map db y k else None) = after_chparent db oid new y b k"
    proof -
      have "prop_map db y k = None" if "fst k \<in> descendants db oid" "k \<notin> set (map key ?L)"
      proof -
        have "k \<notin> key ` set ?S"
        proof
          assume "k \<in> key ` set ?S"
          then obtain s where s: "s \<in> set ?S" "k = key s" by blast
          then have "s \<in> set (?L @ O' @ C)" using S(1) by metis
          then have "s \<in> set (slots db (o_parent a))" using that(2) s(2) NO(2) by auto
          then have "o_parent a \<in> descendants db (fst s)" using slots_definer [OF H, of "fst s" "snd s"] by simp
          then have "o_parent a \<in> descendants db oid" using that(1) s(2) descendants_trans by (auto simp: key_def)
          moreover from this have "(oid, o_parent a) \<in> kids_rel db"
            using a above_nothing [of oid db] by (auto simp: kids_rel_iff descendants_def)
          ultimately show False using descendants_not_above [OF H] by blast
        qed
        then show ?thesis using prop_map_None [OF ok y(2)] by blast
      qed
      moreover have "fst k \<in> descendants db oid" if "k \<in> set (map key ?L)" using that LD by (auto simp: key_def)
      moreover have kN: "k \<in> key ` set (slots db new) \<longleftrightarrow> k \<in> set (map key N @ map key C)" using NO(1) by auto
      ultimately show ?thesis unfolding after_chparent_def kN cv'(3) by (intro if_agree)
    qed
    finally show ?thesis .
  qed
  moreover have "obj_props_ok d y ?r"
  proof -
    have "set (names_of ?L) \<inter> set (names_of (slots db new)) = {}"
    proof (rule ccontr)
      assume "\<not> ?thesis"
      then obtain s t where st: "s \<in> set ?L" "t \<in> set (slots db new)" "fold_case (pd_name (snd s)) = fold_case (pd_name (snd t))"
        unfolding names_of_def by auto
      obtain e where "heap db (fst s) = Some e" "snd s \<in> set (o_propdefs e)"
        using local_definers(2) [OF H a y(1), of "fst s" "snd s"] st(1) by auto
      then have "clashes db oid (snd t)" using LD [OF st(1)] st(3) unfolding clashes_def by blast
      then show False using free st(2) by blast
    qed
    then have "distinct (names_of (slots d y))" using dS cv'(4) sd by simp
    moreover have "length (o_propval ?r) = length (slots d y)" using rv lens cv'(1) sd NO(1) by simp
    moreover have "pv_var (o_propval ?r ! n) \<noteq> VClear" if n: "n < length (o_propdefs b)" for n
    proof -
      have "length (o_propdefs b) \<le> ?l"
      proof (cases "y = oid")
        case True
        then show ?thesis using y(2) by (simp add: local_slots_def own_simp)
      next
        case False
        then show ?thesis using own_below [OF H y(1) _ y(2)] by (simp add: local_slots_def)
      qed
      then have "o_propval ?r ! n = ?pv ! n" using n lens(1) S(2) lpv unfolding rv by (simp add: nth_append)
      then show ?thesis using ob n by (simp add: obj_props_ok_def)
    qed
    moreover have "o_propdefs ?r = o_propdefs b" "o_propdefs_max ?r = o_propdefs_max b" using c' by (simp_all add: rebuilt_def)
    ultimately show ?thesis using ob by (simp add: obj_props_ok_def)
  qed
  ultimately show ?thesis by (simp add: fun_eq_iff)
qed


text \<open>Only the verb cache may differ before the move.\<close>

lemma same_heap_ok:
  assumes "props_ok db" "heap e = heap db" "all_users e = all_users db" "max_objects e = max_objects db"
    "length (objects e) = length (objects db)"
  shows "props_ok e" "slots e = slots db" "descendants e = descendants db" "prop_map e = prop_map db"
    "K_of h e = K_of h db" "valid e = valid db"
proof -
  have l: "same_links h db e" for h by (simp add: same_links_def assms(2))
  have "users_ok e = users_ok db" by (rule users_ok_cong) (simp_all add: assms)
  then have "users_ok e" using assms(1) by (simp add: props_ok_def objects_ok_def)
  then have o: "objects_ok e"
    by (intro same_objects_ok [OF props_okD(1) [OF assms(1)] l _ assms(4,5)]) (simp_all add: assms(2))
  show s: "slots e = slots db"
    by (rule ext, rule slots_cong [OF props_okD(2) [OF assms(1)] objects_okD [OF o]]) (simp add: assms(2))
  show "props_ok e" using o assms(1,2) by (simp add: props_ok_def obj_props_ok_def s)
  show "descendants e = descendants db" using same_links_hier(5) [OF l] by (simp add: descendants_def fun_eq_iff)
  show "prop_map e = prop_map db" unfolding prop_map_def fun_eq_iff s assms(2) by simp
  show "K_of h e = K_of h db" using same_links_hier(2) [OF l] by (simp add: K_of_def fun_eq_iff)
  show "valid e = valid db" using same_links_hier(4) [OF l] .
qed

lemma chparent_spec:
  assumes ok: "props_ok db" and a: "heap db oid = Some a" and vn: "new = NOTHING \<or> valid db new"
    and nd: "new \<notin> descendants db oid"
    and free: "\<forall>s \<in> set (slots db new). \<not> clashes db oid (snd s)"
  shows "\<exists>d. db_change_parent oid new db = Some (True, d) \<and> props_ok d \<and>
    rest d = rest (if o_child a = NOTHING \<and> o_verbdefs a = [] then db else db_priv_affected_callable_verb_lookup db) \<and>
    (\<forall>y. heap db y = None \<longrightarrow> heap d y = None) \<and>
    (\<forall>p. valid db p \<longrightarrow> listing Children d p =
       Some (filter (\<lambda>c. c \<noteq> oid) (K_of Children db p) @ (if p = new then [oid] else []))) \<and>
    (\<forall>y b. heap db y = Some b \<longrightarrow> parent_of d y = (if y = oid then new else o_parent b) \<and>
       (\<exists>g. heap d y = Some g \<and> o_id g = o_id b \<and> o_verbdefs g = o_verbdefs b) \<and>
       prop_map d y = (if y \<in> descendants db oid then after_chparent db oid new y b else prop_map db y))"
proof -
  define db0 where "db0 = (if o_child a = NOTHING \<and> o_verbdefs a = [] then db else db_priv_affected_callable_verb_lookup db)"
  have h0: "heap db0 = heap db" "all_users db0 = all_users db" "max_objects db0 = max_objects db"
    "length (objects db0) = length (objects db)"
    by (simp_all add: db0_def, simp_all add: db_priv_affected_callable_verb_lookup_def split: option.split)
  note E = same_heap_ok [OF ok h0]
  have v: "valid db oid" using a by (simp add: valid_heap)
  have x: "heap db0 oid = Some a" and new0: "new = NOTHING \<or> valid db0 new" using a vn h0(1) E(6) by simp_all
  have nd0: "new \<notin> descendants db0 oid" using nd E(3) by simp
  then have "(new, oid) \<notin> (kids_rel db0)\<^sup>*" by (simp add: descendants_def)
  with relocate [OF props_okD(2) [OF E(1), of Children] x new0]
  obtain d1 d2 e where d: "(if o_parent a \<noteq> NOTHING then ll_remove Children (o_parent a) oid db0 else Some db0) = Some d1"
    "(if new \<noteq> NOTHING then ll_append Children new oid d1 else Some d1) = Some d2"
    "modify oid (set_up Children new) d2 = Some e" "hier_ok Children e"
    "\<forall>p. valid db0 p \<longrightarrow> listing Children e p =
       Some (filter (\<lambda>c. c \<noteq> oid) (K_of Children db0 p) @ (if p = new then [oid] else []))"
    "rest e = rest db0" "length (objects e) = length (objects db0)"
    "\<forall>y. map_option (core Children) (heap e y) =
       (if y = oid then Some (set_up Children new (core Children a)) else map_option (core Children) (heap db0 y))"
    by (simp only: up.simps) blast
  have r: "reparented db0 oid new e" using d(8) x by (simp add: reparented_def)
  have oe: "objects_ok e" by (rule relocated_ok [OF props_okD(1) [OF E(1)] x d(4,6,7,8)])
  obtain N O' C f ps where f: "slots db0 new = N @ C" "slots db0 (o_parent a) = O' @ C"
    "key ` set O' \<inter> key ` set N \<subseteq> key ` set C"
    "dbpriv_fix_properties_after_chparent oid (o_parent a) e = Some f" "same_base e f" "slots f = slots e"
    "\<forall>b. heap db0 new = Some b \<longrightarrow> ps = take (length N) (o_propval b)" "new = NOTHING \<longrightarrow> ps = []"
    "heap f = (\<lambda>y. if y \<in> descendants db0 oid
      then map_option (rebuilt (length O') (length C) (local_slots db0 oid y) ps) (heap e y) else heap e y)"
    using fix_after_spec [OF E(1) x new0 nd0 r d(4)] by blast
  note H0 = props_okD(2) [OF E(1), of Children]
  have v0: "valid db0 oid" using v E(6) by simp
  have free0: "\<forall>s \<in> set (slots db0 new). \<not> clashes db0 oid (snd s)"
    using free E(2,3) h0(1) by (simp add: clashes_def)
  have step: "obj_props_ok f y b' \<and> prop_map f y = (if y \<in> descendants db0 oid then after_chparent db0 oid new y b else prop_map db0 y)"
    if b: "heap db0 y = Some b" and b': "heap f y = Some b'" for y b b'
  proof -
    obtain c where c: "heap e y = Some c" "props_part c = props_part b" using reparentedD [OF r b] by blast
    show ?thesis
    proof (cases "y \<in> descendants db0 oid")
      case True
      have "slots f y = take (local_slots db0 oid y) (slots db0 y) @ slots db0 new"
        using reparented_slots_in(1) [OF r v0 H0 d(4) nd0 True] f(6) by simp
      moreover have fy: "heap f y = Some (rebuilt (length O') (length C) (local_slots db0 oid y) ps c)" using f(9) c(1) True by simp
      ultimately show ?thesis
        using rebuilt_obj [OF E(1) x nd0 new0 free0 f(1,2,3,7,8) True b c(2)] True b' by simp
    next
      case False
      have "slots f y = slots db0 y" using reparented_slots_out [OF r v0 H0 d(4) False] f(6) by simp
      moreover have "b' = c" using f(9) c(1) b' False by simp
      ultimately show ?thesis
        using False b b' c(2) props_okD(3) [OF E(1) b] by (simp add: props_part_def obj_props_ok_def prop_map_def)
    qed
  qed
  have bk: "\<exists>b. heap db0 y = Some b" if "heap f y = Some b'" for y b'
    using same_base_heap' [OF f(5) that] reparented_None [OF r, of y] by (cases "heap db0 y") auto
  have forth: "\<exists>b'. heap f y = Some b' \<and> o_parent b' = (if y = oid then new else o_parent b) \<and>
      o_id b' = o_id b \<and> o_verbdefs b' = o_verbdefs b" if yb: "heap db0 y = Some b" for y b
  proof -
    obtain c where c: "heap e y = Some c" "o_parent c = (if y = oid then new else o_parent b)" "id_verbs c = id_verbs b"
      using reparentedD [OF r yb] by blast
    obtain g where g: "heap f y = Some g" "base g = base c" using same_base_heap [OF f(5) c(1)] by blast
    show ?thesis using c(2,3) g(1) baseD(3,4,8) [OF g(2)] by (simp add: id_verbs_def)
  qed
  have "props_ok f"
    unfolding props_ok_def using same_base_ok [OF oe f(5)] step bk by blast
  moreover have "db_change_parent oid new db = Some (True, f)"
  proof -
    have m: "modify oid (\<lambda>x. x\<lparr>o_parent := new\<rparr>) d2 = Some e" using d(3) by (simp add: modify_def)
    show ?thesis
      using check_spec [OF ok v, of new] free a d(1,2) m f(4) unfolding db0_def
      by (simp add: db_change_parent_def Let_def)
  qed
  moreover have "listing Children f p = listing Children e p" for p
    using same_links_hier(2) [OF same_base_links [OF f(5)]] .
  moreover have "parent_of f y = (if y = oid then new else o_parent b) \<and>
      (\<exists>g. heap f y = Some g \<and> o_id g = o_id b \<and> o_verbdefs g = o_verbdefs b) \<and>
      prop_map f y = (if y \<in> descendants db oid then after_chparent db oid new y b else prop_map db y)"
    if yb: "heap db y = Some b" for y b
  proof -
    have ac: "after_chparent db0 oid new y b = after_chparent db oid new y b"
      unfolding after_chparent_def fun_eq_iff E(2-4) by simp
    have y0: "heap db0 y = Some b" using yb h0(1) by simp
    obtain g where g: "heap f y = Some g" "o_parent g = (if y = oid then new else o_parent b)"
      "o_id g = o_id b" "o_verbdefs g = o_verbdefs b" using forth [OF y0] by blast
    then show ?thesis using step [OF y0 g(1)] unfolding ac E(3,4) by (simp add: parent_of_def)
  qed
  moreover have "\<forall>y. heap db y = None \<longrightarrow> heap f y = None"
  proof (intro allI impI)
    fix y assume "heap db y = None"
    then show "heap f y = None" using bk [of y] h0(1) by (cases "heap f y") auto
  qed
  moreover have "rest f = rest db0" using f(5) d(6) by (simp add: same_base_def)
  ultimately show ?thesis using d(5) [unfolded E(5,6)] unfolding db0_def by (intro exI [of _ f]) simp
qed

text \<open>C30: a change of parent is refused exactly when a property of the new ancestors has the name of one defined
  on the object or below it. Otherwise the object moves to the end of the new parent's children, every
  object keeps its own slots and those of ancestors it keeps, the slots of lost ancestors go, and the slots of new
  ancestors come in clear, with the new parent's flags and owned as these say; objects outside the
  moved tree keep all properties, and the database stays well-formed.\<close>

theorem change_parent_properties:
  assumes ok: "props_ok db" and a: "heap db oid = Some a" and vn: "new = NOTHING \<or> valid db new"
    and nd: "new \<notin> descendants db oid"
  shows "if \<exists>s \<in> set (slots db new). clashes db oid (snd s) then db_change_parent oid new db = Some (False, db)
    else \<exists>d. db_change_parent oid new db = Some (True, d) \<and> props_ok d \<and>
      (\<forall>p. valid db p \<longrightarrow> listing Children d p =
         Some (filter (\<lambda>c. c \<noteq> oid) (K_of Children db p) @ (if p = new then [oid] else []))) \<and>
      (\<forall>y b. heap db y = Some b \<longrightarrow> parent_of d y = (if y = oid then new else o_parent b) \<and>
         prop_map d y = (if y \<in> descendants db oid then after_chparent db oid new y b else prop_map db y))"
proof (cases "\<exists>s \<in> set (slots db new). clashes db oid (snd s)")
  case True
  have "valid db oid" using a by (simp add: valid_heap)
  from check_spec [OF ok this, of new] True have "dbpriv_check_properties_for_chparent db oid new = Some False" by simp
  then show ?thesis using True by (simp add: db_change_parent_def)
next
  case False
  then have "\<forall>s \<in> set (slots db new). \<not> clashes db oid (snd s)" by blast
  from chparent_spec [OF ok a vn nd this] False show ?thesis by (simp only: if_False) blast
qed

text \<open>Two objects, a property on the first, and the second becoming its child.\<close>

lemma two_objects:
  "\<exists>p c d. p \<noteq> c \<and> props_ok d \<and> valid d p \<and> (\<exists>a. heap d c = Some a \<and> o_parent a = NOTHING \<and> o_propdefs a = []) \<and>
    c \<noteq> NOTHING \<and> p \<noteq> NOTHING \<and> descendants d c = {c} \<and> slots d c = [] \<and> inherits d (p, fold_case ''foo'') p (VInt 7)"
proof -
  obtain p d where d: "db_create_object 2 empty_db = Some (p, d)" "props_ok d" "heap d = [p \<mapsto> fresh_object p 2]"
    using one_object by blast
  have h: "heap d p = Some (fresh_object p 2)" using d(3) by simp
  obtain c e where e: "db_create_object 2 d = Some (c, e)" "\<not> valid d c" "heap e = (heap d)(c \<mapsto> fresh_object c 2)" "objects_ok e"
    using create_spec [OF props_okD(1) [OF d(2)]] by blast
  have pe: "props_ok e" by (rule created_props_ok [OF d(2) e(4,2,3)])
  have pc: "p \<noteq> c" using e(2) h by (auto simp: valid_heap)
  have hp: "heap e p = Some (fresh_object p 2)" "heap e c = Some (fresh_object c 2)" using e(3) h pc by simp_all
  have iso: "kids_rel e = {}" using e(3) d(3) by (auto simp: kids_rel_iff fresh_object_def split: if_splits)
  have de: "descendants e y = {y}" for y by (simp add: descendants_def iso)
  have sl: "slots e y = []" for y
  proof (cases "heap e y")
    case (Some b)
    then have "b = fresh_object y 2" using e(3) d(3) by (auto split: if_splits)
    then show ?thesis using slots_valid [OF props_okD(2) [OF pe] Some] by (simp add: fresh_object_def)
  qed simp
  have nt: "\<not> name_taken e p ''foo''"
    using foo_name(2) hp(1) by (simp add: name_taken_def sl de fresh_object_def)
  let ?pv = "\<lparr>pv_var = VInt 7, pv_owner = 2, pv_perms = 5\<rparr>"
  have v7: "pv_var ?pv \<noteq> VClear" by simp
  from add_propdef_spec [OF pe hp(1) foo_name(1) v7 nt] obtain f where f: "props_ok f" "same_base e f"
    "\<forall>y x. heap e y = Some x \<longrightarrow> prop_map f y = (if y \<in> descendants e p
       then (prop_map e y)((p, fold_case ''foo'') \<mapsto> added_slot p ?pv y x) else prop_map e y)" by blast
  have i: "inherits f (p, fold_case ''foo'') p (VInt 7)"
    using added_inherited [OF props_okD(2) [OF pe] f(2) hp(1) f(3) v7, of p] by simp
  obtain b where b: "heap f c = Some b" "base b = base (fresh_object c 2)" using same_base_heap [OF f(2) hp(2)] by blast
  have pb: "o_parent b = NOTHING" using baseD(4) [OF b(2)] by (simp add: fresh_object_def)
  have df: "descendants f c = {c}" using same_base_descendants [OF f(2)] de by simp
  have "prop_map f c = Map.empty" using f(3) hp(2) pc by (simp add: de prop_map_def sl)
  then have "key ` set (slots f c) = {}" using prop_map_None [OF f(1) b(1)] by (auto simp: set_eq_iff)
  then have sf: "slots f c = []" by simp
  then have "o_propdefs b = []" using slots_valid [OF props_okD(2) [OF f(1)] b(1)] by simp
  moreover have "valid f p" using same_base_heap [OF f(2) hp(1)] by (auto simp: valid_heap)
  moreover have "c \<noteq> NOTHING" "p \<noteq> NOTHING" using hp by auto
  ultimately show ?thesis using pc f(1) b(1) pb df sf i by blast
qed

theorem change_parent_properties_witness:
  "\<exists>p c d e. p \<noteq> c \<and> db_change_parent c p d = Some (True, e) \<and> props_ok e \<and> parent_of e c = p \<and>
    prop_map d c (p, fold_case ''foo'') = None \<and> (\<exists>v. prop_map e c (p, fold_case ''foo'') = Some v \<and> pv_var v = VClear)"
proof -
  obtain p c d a where d: "p \<noteq> c" "props_ok d" "valid d p" "heap d c = Some a" "o_propdefs a = []" "descendants d c = {c}"
    "slots d c = []" "inherits d (p, fold_case ''foo'') p (VInt 7)"
    using two_objects by blast
  have nd: "p \<notin> descendants d c" using d(1,6) by simp
  have nc: "\<not> clashes d c q" for q using d(4,5,6) by (simp add: clashes_def)
  obtain v where v: "prop_map d p (p, fold_case ''foo'') = Some v" using d(8) by (auto elim: inheritsE)
  obtain b where "heap d p = Some b" using d(3) by (auto simp: valid_heap)
  then have k: "(p, fold_case ''foo'') \<in> key ` set (slots d p)"
    using prop_map_None [OF d(2), of p b "(p, fold_case ''foo'')"] v by simp
  have m: "prop_map d c = Map.empty" using d(4,7) by (simp add: prop_map_def)
  from change_parent_properties [OF d(2,4) _ nd] d(3) nc obtain e where e: "db_change_parent c p d = Some (True, e)" "props_ok e"
    "parent_of e c = p" "prop_map e c = after_chparent d c p c a"
    using d(4,6) by fastforce
  have "prop_map e c (p, fold_case ''foo'') = Some (new_slot a v)" using e(4) k m v by (simp add: after_chparent_def)
  then show ?thesis using d(1) e(1-3) m by (intro exI conjI) (auto simp: new_slot_def)
qed

end
