(* ===== verification/Words.thy ===== *)
theory Words
  imports Strings
begin

text \<open>
  Splitting a command into words (the first half of \<open>parse_cmd.c\<close>).

  The code works in place: it writes the words over the buffer it reads, never ahead of the place it
  reads from. A word ends at a space outside double quotes; quotes are dropped, and a backslash makes
  the next character, if there is one, part of the word.
\<close>

fun read_word :: "bool \<Rightarrow> string \<Rightarrow> string \<times> string" where
  "read_word in_quotes [] = ([], [])"
| "read_word in_quotes (c # s) =
    (if \<not> in_quotes \<and> c = CHR '' '' then ([], c # s)
     else if c = CHR 0x22 then read_word (\<not> in_quotes) s
     else if c = CHR 0x5c then
       (case s of [] \<Rightarrow> ([], [])
        | d # s' \<Rightarrow> (case read_word in_quotes s' of (w, r) \<Rightarrow> (d # w, r)))
     else (case read_word in_quotes s of (w, r) \<Rightarrow> (c # w, r)))"

definition skip_spaces :: "string \<Rightarrow> string" where
  "skip_spaces s = dropWhile (\<lambda>c. c = CHR '' '') s"

declare read_word.simps [simp del]

lemma cons_word [simp]: "(case p of (w, r) \<Rightarrow> (c # w, r)) = (c # fst p, snd p)"
  by (cases p) simp

lemma read_word_simps [simp]:
  "read_word q [] = ([], [])"
  "read_word False (CHR '' '' # s) = ([], CHR '' '' # s)"
  "read_word q (CHR 0x22 # s) = read_word (\<not> q) s"
  "read_word q [CHR 0x5c] = ([], [])"
  "read_word q (CHR 0x5c # d # s) = (d # fst (read_word q s), snd (read_word q s))"
  by (simp_all add: read_word.simps)

lemma read_word_char:
  "q \<or> c \<noteq> CHR '' '' \<Longrightarrow> c \<noteq> CHR 0x22 \<Longrightarrow> c \<noteq> CHR 0x5c \<Longrightarrow>
    read_word q (c # s) = (c # fst (read_word q s), snd (read_word q s))"
  by (subst read_word.simps) auto

text \<open>How the first character of a word is read.\<close>

lemma char_cases [case_names space quote escape plain]:
  assumes "\<not> q \<and> c = CHR '' '' \<Longrightarrow> P" "c = CHR 0x22 \<Longrightarrow> P" "c = CHR 0x5c \<Longrightarrow> P"
    "q \<or> c \<noteq> CHR '' '' \<Longrightarrow> c \<noteq> CHR 0x22 \<Longrightarrow> c \<noteq> CHR 0x5c \<Longrightarrow> P"
  shows P
  using assms by blast

lemma read_word_shorter: "length (snd (read_word q s)) \<le> length s"
proof (induction s arbitrary: q rule: length_induct)
  case (1 s)
  show ?case
  proof (cases s)
    case (Cons c t)
    have IH: "length (snd (read_word q' u)) \<le> length u" if "length u < length s" for q' u using 1 that by blast
    have le: "length (snd (read_word q' t)) \<le> Suc (length t)" for q' using IH [of t q'] Cons by simp
    show ?thesis
    proof (cases q c rule: char_cases)
      case escape
      show ?thesis
      proof (cases t)
        case (Cons d u)
        have "length (snd (read_word q u)) \<le> length u" using IH [of u q] Cons \<open>s = c # t\<close> by simp
        then show ?thesis using escape Cons \<open>s = c # t\<close> by simp
      qed (use escape Cons in simp)
    qed (use Cons le in \<open>auto simp: read_word_char\<close>)
  qed simp
qed

lemma skip_spaces_shorter: "length (skip_spaces s) \<le> length s"
  by (simp add: skip_spaces_def length_dropWhile_le)

lemma read_word_progress: "c \<noteq> CHR '' '' \<Longrightarrow> length (snd (read_word False (c # s))) \<le> length s"
proof -
  assume c: "c \<noteq> CHR '' ''"
  show ?thesis
  proof (cases False c rule: char_cases)
    case escape
    show ?thesis
    proof (cases s)
      case (Cons d u)
      then show ?thesis using escape read_word_shorter [of False u] by simp
    qed (use escape in simp)
  qed (use c read_word_shorter [of _ s] in \<open>auto simp: read_word_char\<close>)
qed

text \<open>The loop over the words, entered behind the spaces.\<close>

function words_from :: "string \<Rightarrow> string list" where
  "words_from [] = []"
| "words_from (c # s) =
    (if c = CHR '' '' then []
     else fst (read_word False (c # s)) # words_from (skip_spaces (snd (read_word False (c # s)))))"
  by pat_completeness auto

termination
proof (relation "measure length")
  fix c :: char and s
  assume "c \<noteq> CHR '' ''"
  then have "length (skip_spaces (snd (read_word False (c # s)))) \<le> length s"
    using skip_spaces_shorter [of "snd (read_word False (c # s))"] read_word_progress [of c s] by linarith
  then show "(skip_spaces (snd (read_word False (c # s))), c # s) \<in> measure length" by simp
qed simp

definition parse_into_words :: "string \<Rightarrow> string list" where
  "parse_into_words input = words_from (skip_spaces input)"

fun build_string :: "string list \<Rightarrow> string" where
  "build_string [] = []"
| "build_string [w] = w"
| "build_string (w # ws) = w @ CHR '' '' # build_string ws"

subsection \<open>Quoting\<close>

text \<open>Any words come back from their quoted form.\<close>

definition quote_word :: "string \<Rightarrow> string" where
  "quote_word w = CHR 0x22 # concat (map (\<lambda>c. if c = CHR 0x22 \<or> c = CHR 0x5c then [CHR 0x5c, c] else [c]) w) @ [CHR 0x22]"

lemma read_quoted:
  "read_word True (concat (map (\<lambda>c. if c = CHR 0x22 \<or> c = CHR 0x5c then [CHR 0x5c, c] else [c]) w) @ CHR 0x22 # s) =
    (w @ fst (read_word False s), snd (read_word False s))"
  by (induction w) (simp_all add: read_word_char)

lemma read_quote_word: "s = [] \<or> hd s = CHR '' '' \<Longrightarrow> read_word False (quote_word w @ s) = (w, s)"
  using read_quoted [of w s] by (cases s) (auto simp: quote_word_def)

lemma skip_quote_word [simp]: "skip_spaces (quote_word w @ s) = quote_word w @ s"
  by (simp add: skip_spaces_def quote_word_def)

lemma words_step: "s \<noteq> [] \<Longrightarrow> hd s \<noteq> CHR '' '' \<Longrightarrow>
  words_from s = fst (read_word False s) # words_from (skip_spaces (snd (read_word False s)))"
  by (cases s) auto

lemma words_quoted: "words_from (build_string (map quote_word ws)) = ws"
proof (induction ws rule: build_string.induct)
  case (2 w)
  have "quote_word w \<noteq> []" "hd (quote_word w) \<noteq> CHR '' ''" by (simp_all add: quote_word_def)
  from words_step [OF this] show ?case using read_quote_word [of "[]" w] by (simp add: skip_spaces_def)
next
  case (3 w v vs)
  let ?r = "build_string (map quote_word (v # vs))"
  let ?s = "quote_word w @ CHR '' '' # ?r"
  have r: "read_word False ?s = (w, CHR '' '' # ?r)" by (rule read_quote_word) simp
  have "skip_spaces (CHR '' '' # ?r) = ?r"
    by (cases vs) (simp_all add: skip_spaces_def quote_word_def)
  moreover have "?s \<noteq> []" "hd ?s \<noteq> CHR '' ''" by (simp_all add: quote_word_def)
  from words_step [OF this] have "words_from ?s = w # words_from (skip_spaces (CHR '' '' # ?r))" using r by simp
  ultimately show ?case using "3.IH" by simp
qed simp

end
