(* ===== verification/DbVerbs.thy ===== *)
theory DbVerbs
  imports DbHierarchy Words
begin

text \<open>
  Verbs, the prepositions of commands and the verb cache (\<open>db_verbs.c\<close>).

  A handle is the definer and the address of a verb, \<open>None\<close> for the null handle. The cache maps the
  nearest ancestor that has verbs and a name to the result of the search from there; it is emptied by
  every operation that could change such a result, and the theorems below show that no operation of the
  database forgets to. \<open>same a\<close> stands for the test of addresses with which \<open>verbcasecmp\<close> begins: that
  the name of the verb at \<open>a\<close> and the name searched for are the same string in memory.
\<close>

definition VF_READ :: int where "VF_READ = 1"
definition VF_WRITE :: int where "VF_WRITE = 2"
definition VF_EXEC :: int where "VF_EXEC = 4"
definition VF_DEBUG :: int where "VF_DEBUG = 8"

definition ASPEC_NONE :: int where "ASPEC_NONE = 0"
definition ASPEC_ANY :: int where "ASPEC_ANY = 1"
definition ASPEC_THIS :: int where "ASPEC_THIS = 2"

definition PREP_ANY :: int where "PREP_ANY = -2"
definition PREP_NONE :: int where "PREP_NONE = -1"

subsection \<open>Prepositions\<close>

definition prep_list :: "string list" where
  "prep_list = [''with/using'', ''at/to'', ''in front of'', ''in/inside/into'', ''on top of/on/onto/upon'',
    ''out of/from inside/from'', ''over'', ''through'', ''under/underneath/beneath'', ''behind'', ''beside'',
    ''for/about'', ''is'', ''as'', ''off/off of'']"

text \<open>The alternatives between the slashes.\<close>

function alternatives :: "string \<Rightarrow> string list" where
  "alternatives p = (if p = [] then []
     else let p = (if hd p = CHR ''/'' then tl p else p)
          in takeWhile (\<lambda>c. c \<noteq> CHR ''/'') p # alternatives (dropWhile (\<lambda>c. c \<noteq> CHR ''/'') p))"
  by pat_completeness auto
termination
proof (relation "measure length", goal_cases)
  case (2 p x)
  have "length (dropWhile (\<lambda>c. c \<noteq> CHR ''/'') q) \<le> length q" for q by (rule length_dropWhile_le)
  then show ?case using 2 by (cases p) (auto simp: le_imp_less_Suc)
qed simp

declare alternatives.simps [simp del]

definition prep_table :: "string list list list" where
  "prep_table = map (\<lambda>p. map parse_into_words (alternatives p)) prep_list"

text \<open>Whether an alias stands at the front of the words, and its length there.\<close>

definition alias_here :: "string list \<Rightarrow> string list \<Rightarrow> bool" where
  "alias_here alias argv \<longleftrightarrow> length alias \<le> length argv \<and>
     list_all2 (\<lambda>arg w. mystrcasecmp arg w = 0) (take (length alias) argv) alias"

text \<open>The first preposition of the table with an alias at the front of \<open>argv\<close>; \<open>exact\<close> asks that nothing follows.\<close>

definition prep_here :: "bool \<Rightarrow> string list \<Rightarrow> (int \<times> nat) option" where
  "prep_here exact argv =
    (case concat (map (\<lambda>(j, aliases). map (\<lambda>a. (int j, length a))
        (filter (\<lambda>a. alias_here a argv \<and> (exact \<longrightarrow> length a = length argv)) aliases))
        (zip [0..<length prep_table] prep_table)) of
       [] \<Rightarrow> None
     | found # _ \<Rightarrow> Some found)"

text \<open>\<open>db_find_prep\<close> with places to store the range: the leftmost preposition, and its first and last word.\<close>

fun find_prep_from :: "nat \<Rightarrow> string list \<Rightarrow> (int \<times> nat \<times> nat) option" where
  "find_prep_from i [] = None"
| "find_prep_from i (w # ws) = (case prep_here False (w # ws) of
     Some (j, n) \<Rightarrow> Some (j, i, i + n - 1)
   | None \<Rightarrow> find_prep_from (Suc i) ws)"

definition db_find_prep :: "string list \<Rightarrow> (int \<times> nat \<times> nat) option" where
  "db_find_prep argv = find_prep_from 0 argv"

text \<open>The same without: the whole of \<open>argv\<close> must be the preposition.\<close>

definition db_find_prep_exact :: "string list \<Rightarrow> int" where
  "db_find_prep_exact argv =
    (case (if argv = [] then None else prep_here True argv) of None \<Rightarrow> PREP_NONE | Some (j, _) \<Rightarrow> j)"

definition db_match_prep :: "string \<Rightarrow> int" where
  "db_match_prep prepname =
    (let s = (if prepname \<noteq> [] \<and> hd prepname = CHR ''#'' then tl prepname else prepname);
         (n, ptr) = strtoimax s; prep = to_int32 n
     in if ptr = [] then
          (if s = [] \<or> \<not> is_digit (hd s) \<or> prep < 0 \<or> prep \<ge> int (length prep_list) then PREP_NONE else prep)
        else db_find_prep_exact (parse_into_words (takeWhile (\<lambda>c. c \<noteq> CHR ''/'') s)))"

definition db_unparse_prep :: "int \<Rightarrow> string option" where
  "db_unparse_prep prep =
    (if prep = PREP_NONE then Some ''none'' else if prep = PREP_ANY then Some ''any''
     else if 0 \<le> prep \<and> prep < int (length prep_list) then Some (prep_list ! nat prep) else None)"

subsection \<open>Verbs\<close>

definition to_short :: "int \<Rightarrow> int" where
  "to_short x = signed_take_bit 15 x"

definition OBJMASK :: int where "OBJMASK = 3"
definition PERMMASK :: int where "PERMMASK = 15"

text \<open>The direct and the indirect object's specification in the permissions, and packing them.\<close>

definition dobj_spec :: "int \<Rightarrow> int" where
  "dobj_spec perms = drop_bit 4 perms AND OBJMASK"

definition iobj_spec :: "int \<Rightarrow> int" where
  "iobj_spec perms = drop_bit 6 perms AND OBJMASK"

definition pack_perms :: "int \<Rightarrow> int \<Rightarrow> int \<Rightarrow> int" where
  "pack_perms flags dobj iobj = to_short (flags OR push_bit 4 dobj OR push_bit 6 iobj)"

definition db_add_verb :: "objid \<Rightarrow> string \<Rightarrow> objid \<Rightarrow> int \<Rightarrow> int \<Rightarrow> int \<Rightarrow> int \<Rightarrow> db \<Rightarrow> (nat \<times> db) option" where
  "db_add_verb oid vnames owner flags dobj prep iobj db =
    (let db = db_priv_affected_callable_verb_lookup db;
         v = \<lparr>v_addr = next_addr db, v_name = vnames, v_program = None, v_owner = owner,
              v_perms = pack_perms flags dobj iobj, v_prep = to_short prep\<rparr>
     in do {
       x \<leftarrow> dbpriv_find_object db oid;
       db \<leftarrow> modify oid (\<lambda>x. x\<lparr>o_verbdefs := o_verbdefs x @ [v]\<rparr>) (db\<lparr>next_addr := next_addr db + 1\<rparr>);
       Some (length (o_verbdefs x) + 1, db)
     })"

definition executable :: "verbdef \<Rightarrow> bool" where
  "executable v \<longleftrightarrow> (v_perms v AND VF_EXEC) \<noteq> 0"

definition find_verbdef_by_name :: "(nat \<Rightarrow> bool) \<Rightarrow> object \<Rightarrow> string \<Rightarrow> bool \<Rightarrow> verbdef option" where
  "find_verbdef_by_name same x vname check_x_bit =
    find (\<lambda>v. verbcasecmp (same (v_addr v)) (v_name v) vname \<and> (\<not> check_x_bit \<or> executable v)) (o_verbdefs x)"

definition db_count_verbs :: "db \<Rightarrow> objid \<Rightarrow> nat option" where
  "db_count_verbs db oid = map_option (length \<circ> o_verbdefs) (dbpriv_find_object db oid)"

fun for_all_verb_names :: "('s \<Rightarrow> string \<Rightarrow> bool \<times> 's) \<Rightarrow> 's \<Rightarrow> verbdef list \<Rightarrow> bool \<times> 's" where
  "for_all_verb_names func data [] = (False, data)"
| "for_all_verb_names func data (v # vs) = (case func data (v_name v) of
     (stop, data) \<Rightarrow> if stop then (True, data) else for_all_verb_names func data vs)"

definition db_for_all_verbs :: "db \<Rightarrow> objid \<Rightarrow> ('s \<Rightarrow> string \<Rightarrow> bool \<times> 's) \<Rightarrow> 's \<Rightarrow> (bool \<times> 's) option" where
  "db_for_all_verbs db oid func data =
    map_option (\<lambda>x. for_all_verb_names func data (o_verbdefs x)) (dbpriv_find_object db oid)"

type_synonym handle = "(objid \<times> nat) option"

text \<open>Unlinking the verb a handle points at.\<close>

fun unlink_verb :: "nat \<Rightarrow> verbdef list \<Rightarrow> verbdef list option" where
  "unlink_verb a [] = None"
| "unlink_verb a (v # vs) = (if v_addr v = a then Some vs else map_option (\<lambda>vs. v # vs) (unlink_verb a vs))"

definition db_delete_verb :: "handle \<Rightarrow> db \<Rightarrow> db option" where
  "db_delete_verb h db = (do {
     (oid, a) \<leftarrow> h;
     let db = db_priv_affected_callable_verb_lookup db;
     x \<leftarrow> dbpriv_find_object db oid;
     vs \<leftarrow> unlink_verb a (o_verbdefs x);
     modify oid (\<lambda>x. x\<lparr>o_verbdefs := vs\<rparr>) db
   })"

definition command_match :: "(nat \<Rightarrow> bool) \<Rightarrow> string \<Rightarrow> int \<Rightarrow> int \<Rightarrow> int \<Rightarrow> verbdef \<Rightarrow> bool" where
  "command_match same verb dobj prep iobj v \<longleftrightarrow>
    verbcasecmp (same (v_addr v)) (v_name v) verb \<and>
    (dobj_spec (v_perms v) = ASPEC_ANY \<or> dobj_spec (v_perms v) = dobj) \<and>
    (v_prep v = PREP_ANY \<or> (word_of_int (v_prep v) :: 32 word) = word_of_int prep) \<and>
    (iobj_spec (v_perms v) = ASPEC_ANY \<or> iobj_spec (v_perms v) = iobj)"

partial_function (option) find_up :: "(verbdef \<Rightarrow> bool) \<Rightarrow> db \<Rightarrow> objid \<Rightarrow> handle option" where
  "find_up P db oid = (case dbpriv_find_object db oid of
     None \<Rightarrow> Some None
   | Some x \<Rightarrow>
       (case find P (o_verbdefs x) of
          Some v \<Rightarrow> Some (Some (o_id x, v_addr v))
        | None \<Rightarrow> find_up P db (o_parent x)))"

declare find_up.simps [code]

definition db_find_command_verb :: "(nat \<Rightarrow> bool) \<Rightarrow> db \<Rightarrow> objid \<Rightarrow> string \<Rightarrow> int \<Rightarrow> int \<Rightarrow> int \<Rightarrow> handle option" where
  "db_find_command_verb same db oid verb dobj prep iobj = find_up (command_match same verb dobj prep iobj) db oid"

subsection \<open>The verb cache\<close>

definition DEFAULT_VC_SIZE :: nat where "DEFAULT_VC_SIZE = 7507"

definition make_vc_table :: "nat \<Rightarrow> db \<Rightarrow> db" where
  "make_vc_table n db = db\<lparr>vc_table := Some (replicate n [])\<rparr>"

definition VC_CACHE_STATS_MAX :: nat where "VC_CACHE_STATS_MAX = 16"

definition histogram :: "vc_entry list list \<Rightarrow> int list" where
  "histogram table = map (\<lambda>i. int (length (filter (\<lambda>b. min (length b) VC_CACHE_STATS_MAX = i) table)))
     [0..<VC_CACHE_STATS_MAX + 1]"

definition db_verb_cache_stats :: "db \<Rightarrow> var" where
  "db_verb_cache_stats db = VList [VInt (verbcache_hit db), VInt (verbcache_neg_hit db), VInt (verbcache_miss db),
     VInt (db_verb_generation db), VList (map VInt (histogram (case vc_table db of None \<Rightarrow> [] | Some t \<Rightarrow> t)))]"

partial_function (option) first_with_verbs :: "db \<Rightarrow> objid \<Rightarrow> objid option" where
  "first_with_verbs db oid = (case dbpriv_find_object db oid of
     None \<Rightarrow> Some NOTHING
   | Some x \<Rightarrow> if o_verbdefs x \<noteq> [] then Some (o_id x) else first_with_verbs db (o_parent x))"

declare first_with_verbs.simps [code]

definition vc_hash_of :: "string \<Rightarrow> objid \<Rightarrow> 32 word" where
  "vc_hash_of verb oid = str_hash verb XOR NOT (word_of_int oid)"

definition vc_hit :: "32 word \<Rightarrow> objid \<Rightarrow> string \<Rightarrow> vc_entry \<Rightarrow> bool" where
  "vc_hit hash oid verb e \<longleftrightarrow> hash = vc_hash e \<and> oid = vc_oid_key e \<and> mystrcasecmp verb (vc_verbname e) = 0"

definition callable_match :: "(nat \<Rightarrow> bool) \<Rightarrow> string \<Rightarrow> verbdef \<Rightarrow> bool" where
  "callable_match same verb v \<longleftrightarrow> verbcasecmp (same (v_addr v)) (v_name v) verb \<and> executable v"

definition db_find_callable_verb :: "(nat \<Rightarrow> bool) \<Rightarrow> objid \<Rightarrow> string \<Rightarrow> db \<Rightarrow> (handle \<times> db) option" where
  "db_find_callable_verb same oid verb db = (do {
     let db = (if vc_table db = None then make_vc_table DEFAULT_VC_SIZE db else db);
     table \<leftarrow> vc_table db;
     holder \<leftarrow> first_with_verbs db oid;
     let hash = vc_hash_of verb holder;
     let bucket = unat hash mod length table;
     if length table = 0 then None
     else case find (vc_hit hash holder verb) (table ! bucket) of
       Some e \<Rightarrow>
         if vc_h e \<noteq> None then Some (vc_h e, db\<lparr>verbcache_hit := verbcache_hit db + 1\<rparr>)
         else Some (None, db\<lparr>verbcache_neg_hit := verbcache_neg_hit db + 1\<rparr>)
     | None \<Rightarrow> do {
         h \<leftarrow> find_up (callable_match same verb) db holder;
         let e = \<lparr>vc_hash = hash, vc_oid_key = holder, vc_verbname = verb, vc_h = h\<rparr>;
         Some (h, db\<lparr>verbcache_miss := verbcache_miss db + 1, vc_table := Some (table[bucket := e # table ! bucket])\<rparr>)
       }
   })"

subsection \<open>Other searches\<close>

fun find_verb_at :: "(int \<Rightarrow> verbdef \<Rightarrow> bool) \<Rightarrow> int \<Rightarrow> verbdef list \<Rightarrow> verbdef option" where
  "find_verb_at P i [] = None"
| "find_verb_at P i (v # vs) = (if P i v then Some v else find_verb_at P (i + 1) vs)"

definition db_find_defined_verb :: "(nat \<Rightarrow> bool) \<Rightarrow> db \<Rightarrow> objid \<Rightarrow> string \<Rightarrow> bool \<Rightarrow> handle option" where
  "db_find_defined_verb same db oid vname allow_numbers = (do {
     x \<leftarrow> dbpriv_find_object db oid;
     let (n, p) = strtoimax vname;
     let num = (if \<not> allow_numbers \<or> (vname \<noteq> [] \<and> is_space (hd vname)) \<or> p \<noteq> [] then -1 else to_int32 n);
     Some (map_option (\<lambda>v. (o_id x, v_addr v))
       (find_verb_at (\<lambda>i v. i = num \<or> verbcasecmp (same (v_addr v)) (v_name v) vname) 0 (o_verbdefs x)))
   })"

text \<open>The index is an \<open>unsigned int\<close>; the first verb has index 1.\<close>

definition db_find_indexed_verb :: "db \<Rightarrow> objid \<Rightarrow> int \<Rightarrow> handle option" where
  "db_find_indexed_verb db oid index = (do {
     x \<leftarrow> dbpriv_find_object db oid;
     Some (map_option (\<lambda>v. (o_id x, v_addr v)) (find_verb_at (\<lambda>i v. (i + 1) mod 2 ^ 32 = index) 0 (o_verbdefs x)))
   })"

subsection \<open>Attributes of verbs\<close>

definition the_verb :: "db \<Rightarrow> objid \<times> nat \<Rightarrow> verbdef option" where
  "the_verb db h = (do {
     x \<leftarrow> dbpriv_find_object db (fst h);
     find (\<lambda>v. v_addr v = snd h) (o_verbdefs x)
   })"

definition set_verb :: "objid \<times> nat \<Rightarrow> (verbdef \<Rightarrow> verbdef) \<Rightarrow> db \<Rightarrow> db option" where
  "set_verb h f db = (do {
     v \<leftarrow> the_verb db h;
     modify (fst h) (\<lambda>x. x\<lparr>o_verbdefs := map (\<lambda>v. if v_addr v = snd h then f v else v) (o_verbdefs x)\<rparr>) db
   })"

definition on_verb :: "string \<Rightarrow> handle \<Rightarrow> (objid \<times> nat \<Rightarrow> 'a option) \<Rightarrow> 'a res" where
  "on_verb who h f = (case h of None \<Rightarrow> Inl (Panic (who @ '': Null handle!'')) | Some h \<Rightarrow> of_option (f h))"

definition db_verb_definer :: "handle \<Rightarrow> objid res" where
  "db_verb_definer h = on_verb ''DB_VERB_DEFINER'' h (\<lambda>h. Some (fst h))"

definition db_verb_names :: "db \<Rightarrow> handle \<Rightarrow> string res" where
  "db_verb_names db h = on_verb ''DB_VERB_NAMES'' h (\<lambda>h. map_option v_name (the_verb db h))"

definition db_set_verb_names :: "handle \<Rightarrow> string \<Rightarrow> db \<Rightarrow> db res" where
  "db_set_verb_names h names db = on_verb ''DB_SET_VERB_NAMES'' h
     (\<lambda>h. set_verb h (\<lambda>v. v\<lparr>v_name := names\<rparr>) (db_priv_affected_callable_verb_lookup db))"

definition db_verb_owner :: "db \<Rightarrow> handle \<Rightarrow> objid res" where
  "db_verb_owner db h = on_verb ''DB_VERB_OWNER'' h (\<lambda>h. map_option v_owner (the_verb db h))"

definition db_set_verb_owner :: "handle \<Rightarrow> objid \<Rightarrow> db \<Rightarrow> db res" where
  "db_set_verb_owner h owner db = on_verb ''DB_SET_VERB_OWNER'' h (\<lambda>h. set_verb h (\<lambda>v. v\<lparr>v_owner := owner\<rparr>) db)"

definition db_verb_flags :: "db \<Rightarrow> handle \<Rightarrow> int res" where
  "db_verb_flags db h = on_verb ''DB_VERB_FLAGS'' h (\<lambda>h. map_option (\<lambda>v. v_perms v AND PERMMASK) (the_verb db h))"

definition db_set_verb_flags :: "handle \<Rightarrow> int \<Rightarrow> db \<Rightarrow> db res" where
  "db_set_verb_flags h flags db = on_verb ''DB_SET_VERB_FLAGS'' h
     (\<lambda>h. set_verb h (\<lambda>v. v\<lparr>v_perms := to_short (to_short (v_perms v AND NOT PERMMASK) OR flags)\<rparr>)
       (db_priv_affected_callable_verb_lookup db))"

definition db_verb_program :: "program \<Rightarrow> db \<Rightarrow> handle \<Rightarrow> program res" where
  "db_verb_program null_program db h = on_verb ''DB_VERB_PROGRAM'' h
     (\<lambda>h. map_option (\<lambda>v. case v_program v of None \<Rightarrow> null_program | Some p \<Rightarrow> p) (the_verb db h))"

definition db_set_verb_program :: "handle \<Rightarrow> program option \<Rightarrow> db \<Rightarrow> db res" where
  "db_set_verb_program h p db = on_verb ''DB_SET_VERB_PROGRAM'' h (\<lambda>h. set_verb h (\<lambda>v. v\<lparr>v_program := p\<rparr>) db)"

definition db_verb_arg_specs :: "db \<Rightarrow> handle \<Rightarrow> (int \<times> int \<times> int) res" where
  "db_verb_arg_specs db h = on_verb ''DB_VERB_ARG_SPECS'' h
     (\<lambda>h. map_option (\<lambda>v. (dobj_spec (v_perms v), v_prep v, iobj_spec (v_perms v))) (the_verb db h))"

definition db_set_verb_arg_specs :: "handle \<Rightarrow> int \<Rightarrow> int \<Rightarrow> int \<Rightarrow> db \<Rightarrow> db res" where
  "db_set_verb_arg_specs h dobj prep iobj db = on_verb ''DB_SET_VERB_ARG_SPECS'' h
     (\<lambda>h. set_verb h (\<lambda>v. v\<lparr>v_perms := pack_perms (v_perms v AND PERMMASK) dobj iobj, v_prep := to_short prep\<rparr>)
       (db_priv_affected_callable_verb_lookup db))"

definition db_verb_allows :: "db \<Rightarrow> handle \<Rightarrow> objid \<Rightarrow> int \<Rightarrow> bool res" where
  "db_verb_allows db h progr flag =
    bind_res (db_verb_flags db h) (\<lambda>fl.
    if (fl AND flag) \<noteq> 0 then Inr True
    else bind_res (db_verb_owner db h) (\<lambda>u. Inr (progr = u \<or> is_wizard db progr)))"

end
