(* ===== verification/VerbCache.thy ===== *)
theory VerbCache
  imports DbVerbs
begin

text \<open>
  The verb cache is transparent: in a database whose cache entries are right, a search through the
  cache gives what a search up the parents would, and every operation that changes the database keeps the
  entries right, by flushing the cache or because it cannot affect a search.
\<close>

subsection \<open>Searching up the parents\<close>

definition vpart :: "object \<Rightarrow> objid \<times> objid \<times> (nat \<times> string \<times> int) list" where
  "vpart a = (o_id a, o_parent a, map (\<lambda>v. (v_addr v, v_name v, v_perms v)) (o_verbdefs a))"

lemma find_vpart:
  assumes "map (\<lambda>v. (v_addr v, v_name v, v_perms v)) vs = map (\<lambda>v. (v_addr v, v_name v, v_perms v)) ws"
  shows "map_option v_addr (find (callable_match same verb) vs) = map_option v_addr (find (callable_match same verb) ws)"
  using assms
proof (induction vs arbitrary: ws)
  case (Cons v vs)
  then obtain w us where w: "ws = w # us" "v_addr v = v_addr w" "v_name v = v_name w" "v_perms v = v_perms w"
    "map (\<lambda>v. (v_addr v, v_name v, v_perms v)) vs = map (\<lambda>v. (v_addr v, v_name v, v_perms v)) us"
    by (cases ws) auto
  with Cons.IH [OF w(5)] show ?case by (simp add: callable_match_def executable_def)
qed simp

lemma find_up_total: "hier_ok Children db \<Longrightarrow> \<exists>h. find_up P db x = Some h"
proof (induction x rule: up_induct)
  case (invalid x)
  then show ?case by (subst find_up.simps) simp
next
  case (valid x a)
  then show ?case by (subst find_up.simps) (auto split: option.split)
qed

text \<open>The result of a search only depends on the parents and verbs met on the way.\<close>

lemma find_up_frame:
  assumes ok: "hier_ok Children db" and X: "NOTHING \<in> X" "\<And>y a. y \<in> X \<Longrightarrow> heap db y = Some a \<Longrightarrow> o_parent a \<in> X"
    and same: "\<And>y. y \<in> X \<Longrightarrow> map_option vpart (heap d y) = map_option vpart (heap db y)"
  shows "x \<in> X \<Longrightarrow> find_up (callable_match sm verb) d x = find_up (callable_match sm verb) db x"
  using ok
proof (induction x rule: up_induct)
  case (invalid x)
  then have "heap d x = None" using same [of x] by simp
  with invalid show ?case by (simp add: find_up.simps)
next
  case (valid x a)
  then obtain b where b: "heap d x = Some b" "vpart b = vpart a" using same [of x] by auto
  then have v: "o_id b = o_id a" "o_parent b = o_parent a"
    "map_option v_addr (find (callable_match sm verb) (o_verbdefs b)) = map_option v_addr (find (callable_match sm verb) (o_verbdefs a))"
    using find_vpart [of "o_verbdefs b" "o_verbdefs a"] by (auto simp: vpart_def)
  have IH: "find_up (callable_match sm verb) d (o_parent a) = find_up (callable_match sm verb) db (o_parent a)"
    using valid.IH X(2) [OF valid.prems valid(1)] .
  show ?case
    using v IH valid(1) b(1)
    by (cases "find (callable_match sm verb) (o_verbdefs a)"; cases "find (callable_match sm verb) (o_verbdefs b)")
      (simp_all add: find_up.simps [of _ _ x])
qed

lemma find_up_cong:
  assumes ok: "hier_ok Children db" and "\<And>y a v. heap db y = Some a \<Longrightarrow> v \<in> set (o_verbdefs a) \<Longrightarrow> P v = Q v"
  shows "find_up P db x = find_up Q db x"
  using ok
proof (induction x rule: up_induct)
  case (invalid x)
  then show ?case by (simp add: find_up.simps)
next
  case (valid x a)
  have "find P (o_verbdefs a) = find Q (o_verbdefs a)" using assms(2) [OF valid(1)] by (intro find_cong) auto
  with valid show ?case by (simp add: find_up.simps [of _ _ x] split: option.split)
qed

lemma first_with_verbs_spec:
  assumes ok: "hier_ok Children db" and ids: "ids_ok db"
  shows "\<exists>k. first_with_verbs db x = Some k \<and> find_up P db x = find_up P db k \<and>
    (k = NOTHING \<or> (\<exists>a. heap db k = Some a \<and> o_verbdefs a \<noteq> []))"
  using ok
proof (induction x rule: up_induct)
  case (invalid x)
  then show ?case by (auto simp: first_with_verbs.simps find_up.simps)
next
  case (valid x a)
  show ?case
  proof (cases "o_verbdefs a = []")
    case True
    with valid show ?thesis by (auto simp: first_with_verbs.simps [of _ x] find_up.simps [of _ _ x])
  next
    case False
    have "o_id a = x" using ids valid(1) by (simp add: ids_ok_def)
    with False valid(1) show ?thesis by (auto simp: first_with_verbs.simps [of _ x])
  qed
qed

subsection \<open>The invariant of the verb cache\<close>

abbreviation by_name :: "string \<Rightarrow> verbdef \<Rightarrow> bool" where
  "by_name verb \<equiv> callable_match (\<lambda>_. False) verb"

definition entry_ok :: "db \<Rightarrow> vc_entry \<Rightarrow> bool" where
  "entry_ok db e \<longleftrightarrow> c_string (vc_verbname e) \<and>
    find_up (by_name (vc_verbname e)) db (vc_oid_key e) = Some (vc_h e) \<and>
    (vc_oid_key e = NOTHING \<or> (\<exists>a. heap db (vc_oid_key e) = Some a \<and> o_verbdefs a \<noteq> []))"

definition cache_ok :: "db \<Rightarrow> bool" where
  "cache_ok db \<longleftrightarrow> (case vc_table db of None \<Rightarrow> True
     | Some t \<Rightarrow> t \<noteq> [] \<and> (\<forall>b \<in> set t. \<forall>e \<in> set b. entry_ok db e))"

definition names_ok :: "db \<Rightarrow> bool" where
  "names_ok db \<longleftrightarrow> (\<forall>y a. heap db y = Some a \<longrightarrow> (\<forall>v \<in> set (o_verbdefs a). c_string (v_name v)))"

definition verbs_ok :: "db \<Rightarrow> bool" where
  "verbs_ok db \<longleftrightarrow> objects_ok db \<and> names_ok db \<and> cache_ok db"

text \<open>A coincidence of addresses is harmless when the names match anyway.\<close>

definition harmless :: "(nat \<Rightarrow> bool) \<Rightarrow> db \<Rightarrow> string \<Rightarrow> bool" where
  "harmless same db verb \<longleftrightarrow> (\<forall>y a. heap db y = Some a \<longrightarrow>
     (\<forall>v \<in> set (o_verbdefs a). same (v_addr v) \<longrightarrow> verbcasecmp False (v_name v) verb))"

lemma verbs_okD: "verbs_ok db \<Longrightarrow> objects_ok db" "verbs_ok db \<Longrightarrow> hier_ok h db" "verbs_ok db \<Longrightarrow> ids_ok db"
  by (auto simp: verbs_ok_def objects_okD, simp add: objects_ok_def)

lemma match_fold:
  assumes "c_string n" "c_string v" "c_string w" "fold_case v = fold_case w"
  shows "match_aliases n v = match_aliases n w"
  using assms by (simp add: match_aliases_spec alias_matches_def)

lemma search_fold:
  assumes "verbs_ok db" "c_string v" "c_string w" "fold_case v = fold_case w"
  shows "find_up (by_name v) db x = find_up (by_name w) db x"
proof (rule find_up_cong [OF verbs_okD(2) [OF assms(1)]])
  fix y a u assume "heap db y = Some a" "u \<in> set (o_verbdefs a)"
  then have "c_string (v_name u)" using assms(1) by (auto simp: verbs_ok_def names_ok_def)
  then show "by_name v u = by_name w u"
    using match_fold [OF _ assms(2-4)] by (simp add: callable_match_def verbcasecmp_def)
qed

lemma search_harmless:
  assumes "verbs_ok db" "harmless same db verb"
  shows "find_up (callable_match same verb) db x = find_up (by_name verb) db x"
  using assms(2) by (intro find_up_cong [OF verbs_okD(2) [OF assms(1)]])
    (auto simp: callable_match_def verbcasecmp_def harmless_def)

text \<open>The statistics and the table are all that a search changes.\<close>

lemma heap_counters [simp]:
  "heap (db\<lparr>verbcache_hit := i\<rparr>) = heap db" "heap (db\<lparr>verbcache_neg_hit := i\<rparr>) = heap db"
  "heap (db\<lparr>verbcache_miss := i\<rparr>) = heap db"
  by (rule heap_cong, simp)+

lemma verbs_ok_heap:
  assumes "verbs_ok db" "heap d = heap db" "all_users d = all_users db" "max_objects d = max_objects db"
    "length (objects d) = length (objects db)" "cache_ok d"
  shows "verbs_ok d"
proof -
  have l: "same_links h db d" for h by (simp add: same_links_def assms(2))
  have "users_ok d = users_ok db" by (rule users_ok_cong) (simp_all add: assms(2,3))
  then have "users_ok d" using assms(1) by (simp add: verbs_ok_def objects_ok_def)
  then have "objects_ok d"
    by (intro same_objects_ok [OF verbs_okD(1) [OF assms(1)] l _ assms(4,5)]) (simp_all add: assms(2))
  then show ?thesis using assms(1,2,6) by (simp add: verbs_ok_def names_ok_def)
qed

lemma entry_ok_heap: "hier_ok Children db \<Longrightarrow> heap d = heap db \<Longrightarrow> entry_ok d e = entry_ok db e"
  unfolding entry_ok_def using find_up_frame [of db UNIV d] by simp

lemma cache_ok_table:
  assumes "hier_ok Children db" "heap d = heap db" "vc_table d = Some t" "t \<noteq> []" "\<forall>b \<in> set t. \<forall>e \<in> set b. entry_ok db e"
  shows "cache_ok d"
  using assms(3-5) entry_ok_heap [OF assms(1,2)] by (simp add: cache_ok_def)

lemma callable_spec:
  assumes ok: "verbs_ok db" and c: "c_string verb" and hl: "harmless same db verb"
  shows "\<exists>h d. db_find_callable_verb same oid verb db = Some (h, d) \<and> find_up (by_name verb) db oid = Some h \<and>
    verbs_ok d \<and> heap d = heap db"
proof -
  note H = verbs_okD(2) [OF ok, of Children]
  define db1 where "db1 = (if vc_table db = None then make_vc_table DEFAULT_VC_SIZE db else db)"
  have h1: "heap db1 = heap db" "all_users db1 = all_users db" "max_objects db1 = max_objects db"
    "length (objects db1) = length (objects db)"
    by (simp_all add: db1_def make_vc_table_def)
  obtain t where t: "vc_table db1 = Some t" "t \<noteq> []" "\<forall>b \<in> set t. \<forall>e \<in> set b. entry_ok db e"
    using ok by (cases "vc_table db") (auto simp: db1_def make_vc_table_def DEFAULT_VC_SIZE_def verbs_ok_def cache_ok_def)
  have en: "entry_ok d e = entry_ok db e" if "heap d = heap db" for d e by (rule entry_ok_heap [OF H that])
  have ok1: "verbs_ok db1"
    by (rule verbs_ok_heap [OF ok h1]) (use t en [OF h1(1)] in \<open>simp add: cache_ok_def\<close>)
  have hl1: "harmless same db1 verb" using hl by (simp add: harmless_def h1(1))
  have up1: "find_up P db1 x = find_up P db x" if "P = by_name v" for P v x
    using find_up_frame [OF H, of UNIV db1 x] that by (simp add: h1(1))
  obtain k where k: "first_with_verbs db1 oid = Some k" "find_up (by_name verb) db1 oid = find_up (by_name verb) db1 k"
    "k = NOTHING \<or> (\<exists>a. heap db1 k = Some a \<and> o_verbdefs a \<noteq> [])"
    using first_with_verbs_spec [OF verbs_okD(2,3) [OF ok1]] by blast
  let ?hash = "vc_hash_of verb k" and ?b = "unat (vc_hash_of verb k) mod length t"
  have b: "?b < length t" using t(2) by simp
  show ?thesis
  proof (cases "find (vc_hit ?hash k verb) (t ! ?b)")
    case (Some e)
    then have e: "e \<in> set (t ! ?b)" "vc_hit ?hash k verb e" by (auto simp: find_Some_iff)
    then have eo: "entry_ok db e" using t(3) b nth_mem by blast
    have "fold_case verb = fold_case (vc_verbname e)"
      using e(2) eo c mystrcasecmp_0 by (auto simp: vc_hit_def entry_ok_def)
    then have h: "find_up (by_name verb) db oid = Some (vc_h e)"
      using eo e(2) search_fold [OF ok c, of "vc_verbname e" k] k(2) up1 by (simp add: entry_ok_def vc_hit_def)
    let ?d = "if vc_h e \<noteq> None then db1\<lparr>verbcache_hit := verbcache_hit db1 + 1\<rparr>
      else db1\<lparr>verbcache_neg_hit := verbcache_neg_hit db1 + 1\<rparr>"
    have hd: "heap ?d = heap db" using h1(1) by simp
    have "cache_ok ?d" by (rule cache_ok_table [OF H hd _ t(2,3)]) (simp add: t(1))
    then have "verbs_ok ?d"
      by (intro verbs_ok_heap [OF ok hd]) (simp_all add: h1)
    moreover have "db_find_callable_verb same oid verb db = Some (vc_h e, ?d)"
      using t k(1) Some by (cases "vc_h e") (simp_all add: db_find_callable_verb_def db1_def [symmetric] Let_def)
    ultimately show ?thesis using h hd by blast
  next
    case None
    obtain h where h: "find_up (by_name verb) db1 k = Some h" using find_up_total [OF verbs_okD(2) [OF ok1]] by blast
    let ?e = "\<lparr>vc_hash = ?hash, vc_oid_key = k, vc_verbname = verb, vc_h = h\<rparr>"
    let ?d = "db1\<lparr>verbcache_miss := verbcache_miss db1 + 1, vc_table := Some (t[?b := ?e # t ! ?b])\<rparr>"
    have hd: "heap ?d = heap db" using h1(1) by simp
    have "entry_ok db ?e" using h k(3) c up1 h1(1) by (simp add: entry_ok_def)
    moreover have "\<forall>e \<in> set (t ! ?b). entry_ok db e" using t(3) nth_mem [OF b] by blast
    ultimately have "\<forall>b \<in> set (t[?b := ?e # t ! ?b]). \<forall>e \<in> set b. entry_ok db e"
      using t(3) by (auto dest!: set_update_subset_insert [THEN subsetD])
    then have "cache_ok ?d" by (intro cache_ok_table [OF H hd]) (simp_all add: t(2))
    then have "verbs_ok ?d" by (intro verbs_ok_heap [OF ok hd]) (simp_all add: h1)
    moreover have "db_find_callable_verb same oid verb db = Some (h, ?d)"
      using t(1,2) k(1) None h search_harmless [OF ok1 hl1]
      by (simp add: db_find_callable_verb_def db1_def [symmetric] Let_def)
    moreover have "find_up (by_name verb) db oid = Some h" using h k(2) up1 by simp
    ultimately show ?thesis using hd by blast
  qed
qed

end
