(* ===== verification/Database.thy ===== *)
theory Database
  imports VerbCache
begin

text \<open>
  The database layer as a whole: one transition relation for all its operations, the invariant that they
  all keep, and the transparency of the verb cache in every database they can lead to.
\<close>

subsection \<open>Operations that cannot affect a search\<close>

lemma verbs_kept:
  assumes ok: "verbs_ok db" and okd: "objects_ok d" "names_ok d" and t: "vc_table d = vc_table db"
    and X: "NOTHING \<in> X" "\<And>y a. y \<in> X \<Longrightarrow> heap db y = Some a \<Longrightarrow> o_parent a \<in> X"
      "\<And>y a. heap db y = Some a \<Longrightarrow> o_verbdefs a \<noteq> [] \<Longrightarrow> y \<in> X"
    and same: "\<And>y. y \<in> X \<Longrightarrow> map_option vpart (heap d y) = map_option vpart (heap db y)"
  shows "verbs_ok d"
proof -
  have "entry_ok d e" if e: "entry_ok db e" for e
  proof -
    have k: "vc_oid_key e \<in> X" using e X(1,3) by (auto simp: entry_ok_def)
    have "find_up (by_name (vc_verbname e)) d (vc_oid_key e) = find_up (by_name (vc_verbname e)) db (vc_oid_key e)"
      by (rule find_up_frame [OF verbs_okD(2) [OF ok] X(1,2) same k])
    moreover have "\<exists>b. heap d (vc_oid_key e) = Some b \<and> o_verbdefs b \<noteq> []"
      if a: "heap db (vc_oid_key e) = Some a" "o_verbdefs a \<noteq> []" for a
    proof -
      obtain b where b: "heap d (vc_oid_key e) = Some b" "vpart b = vpart a" using same [OF k] a(1) by auto
      have "length (o_verbdefs x) = length (snd (snd (vpart x)))" for x by (simp add: vpart_def)
      then have "length (o_verbdefs b) = length (o_verbdefs a)" using b(2) by metis
      then show ?thesis using b(1) a(2) by auto
    qed
    ultimately show ?thesis using e by (auto simp: entry_ok_def)
  qed
  then show ?thesis using assms(1-4) by (auto simp: verbs_ok_def cache_ok_def split: option.splits)
qed

lemmas verbs_kept_all = verbs_kept [where X = UNIV, simplified]

lemma map_option_factor:
  "map_option f x = map_option f y \<Longrightarrow> (\<And>a b. f a = f b \<Longrightarrow> g a = g b) \<Longrightarrow> map_option g x = map_option g y"
proof -
  assume a: "map_option f x = map_option f y" "\<And>a b. f a = f b \<Longrightarrow> g a = g b"
  show ?thesis
  proof (cases x)
    case (Some b)
    with a(1) obtain c where c: "y = Some c" "f b = f c" by (cases y) auto
    from c(2) have "g b = g c" by (rule a(2))
    with Some c(1) show ?thesis by simp
  qed (use a(1) in simp)
qed

lemma names_ok_map:
  assumes "names_ok db" "\<And>y. map_option (\<lambda>a. map v_name (o_verbdefs a)) (heap d y) = map_option (\<lambda>a. map v_name (o_verbdefs a)) (heap db y)"
  shows "names_ok d"
  unfolding names_ok_def
proof (intro allI impI ballI)
  fix y b v assume b: "heap d y = Some b" "v \<in> set (o_verbdefs b)"
  then obtain a where a: "heap db y = Some a" "map v_name (o_verbdefs b) = map v_name (o_verbdefs a)"
    using assms(2) [of y] by (cases "heap db y") auto
  have "v_name v \<in> set (map v_name (o_verbdefs a))" using b(2) a(2) by (metis image_eqI set_map)
  then show "c_string (v_name v)" using assms(1) a(1) by (auto simp: names_ok_def)
qed

lemma vpart_names: "vpart a = vpart b \<Longrightarrow> map v_name (o_verbdefs a) = map v_name (o_verbdefs b)"
proof -
  have "map v_name (o_verbdefs x) = map (fst \<circ> snd) (snd (snd (vpart x)))" for x by (simp add: vpart_def)
  then show "vpart a = vpart b \<Longrightarrow> ?thesis" by simp
qed

lemma vpart_kept:
  assumes "verbs_ok db" "objects_ok d" "vc_table d = vc_table db"
    and same: "\<And>y. map_option vpart (heap d y) = map_option vpart (heap db y)"
  shows "verbs_ok d"
proof (rule verbs_kept_all [OF assms(1,2) _ assms(3) same])
  show "names_ok d"
  proof (rule names_ok_map)
    show "names_ok db" using assms(1) by (simp add: verbs_ok_def)
    fix y show "map_option (\<lambda>a. map v_name (o_verbdefs a)) (heap d y) = map_option (\<lambda>a. map v_name (o_verbdefs a)) (heap db y)"
      by (rule map_option_factor [OF same vpart_names])
  qed
qed

text \<open>The cache after a flush has no entries.\<close>

definition flushed :: "vc_entry list list option \<Rightarrow> vc_entry list list option" where
  "flushed = map_option (map (\<lambda>_. []))"

lemma flush_table: "vc_table (db_priv_affected_callable_verb_lookup db) = flushed (vc_table db)"
  by (simp add: db_priv_affected_callable_verb_lookup_def flushed_def split: option.split)

lemma flushed_ok:
  assumes "verbs_ok db" "objects_ok d" "names_ok d" "vc_table d = flushed (vc_table db)"
  shows "verbs_ok d"
  using assms by (auto simp: verbs_ok_def cache_ok_def flushed_def split: option.splits)

subsection \<open>Each operation\<close>

lemma rest_table: "rest d = rest db \<Longrightarrow> vc_table d = vc_table db"
proof -
  assume "rest d = rest db"
  then have "vc_table (rest d) = vc_table (rest db)" by (rule arg_cong)
  then show ?thesis by (simp add: rest_def)
qed

lemma same_base_verbs:
  assumes "verbs_ok db" "same_base db d"
  shows "verbs_ok d"
proof (rule vpart_kept [OF assms(1) same_base_ok [OF verbs_okD(1) [OF assms(1)] assms(2)]])
  show "vc_table d = vc_table db" using assms(2) rest_table [of d db] unfolding same_base_def by blast
  fix y show "map_option vpart (heap d y) = map_option vpart (heap db y)"
  proof (rule same_base_map [OF assms(2)])
    fix a b :: object
    have "vpart (base x) = vpart x" for x by (simp add: vpart_def base_def)
    then show "base a = base b \<Longrightarrow> vpart a = vpart b" by metis
  qed
qed

lemma modify_verbs:
  assumes ok: "verbs_ok db" and a: "heap db oid = Some a" and d: "modify oid f db = Some d" and okd: "objects_ok d"
    and v: "vpart (f a) = vpart a"
  shows "verbs_ok d"
proof -
  obtain d' where "modify oid f db = Some d'" "heap d' = (heap db)(oid \<mapsto> f a)" "rest d' = rest db"
    using modify_ok [OF a, of f] by blast
  then have h: "heap d = (heap db)(oid \<mapsto> f a)" "rest d = rest db" using d by simp_all
  show ?thesis
    by (rule vpart_kept [OF ok okd rest_table [OF h(2)]]) (use a v in \<open>simp add: h(1)\<close>)
qed

text \<open>A change of an object that leaves its links, flags and number alone.\<close>

definition shell :: "object \<Rightarrow> object" where
  "shell a = a\<lparr>o_verbdefs := [], o_owner := 0, o_name := [], o_propval := []\<rparr>"

lemma shell_fields: "links h (shell a) = links h a" "o_flags (shell a) = o_flags a" "o_id (shell a) = o_id a"
  by (simp_all add: shell_def, cases h, simp_all add: links_def)

lemma shellD: "shell a = shell b \<Longrightarrow> links h a = links h b \<and> o_flags a = o_flags b \<and> o_id a = o_id b"
  by (metis shell_fields)

lemma shell_ok:
  assumes ok: "objects_ok db" and a: "heap db oid = Some a" and h: "heap d = (heap db)(oid \<mapsto> b)" and s: "shell b = shell a"
    and r: "all_users d = all_users db" "max_objects d = max_objects db" "length (objects d) = length (objects db)"
  shows "objects_ok d"
proof -
  note S = shellD [OF s]
  have l: "same_links g db d" for g using a S [of g] by (auto simp: same_links_def h)
  have "users_ok d = users_ok db" by (rule users_ok_cong [OF r(1)]) (use a S [of Children] in \<open>simp add: h\<close>)
  then have "users_ok d" using ok by (simp add: objects_ok_def)
  then show ?thesis by (intro same_objects_ok [OF ok l _ r(2,3)]) (use a S [of Children] in \<open>simp_all add: h\<close>)
qed

lemma flush_fields [simp]:
  "all_users (db_priv_affected_callable_verb_lookup db) = all_users db"
  "max_objects (db_priv_affected_callable_verb_lookup db) = max_objects db"
  "objects (db_priv_affected_callable_verb_lookup db) = objects db"
  "next_addr (db_priv_affected_callable_verb_lookup db) = next_addr db"
  by (simp_all add: db_priv_affected_callable_verb_lookup_def split: option.split)

text \<open>An operation that flushes and then changes the verbs of one object.\<close>

lemma flush_modify_verbs:
  assumes ok: "verbs_ok db" and e: "heap e = heap db" "all_users e = all_users db" "max_objects e = max_objects db"
      "length (objects e) = length (objects db)" "vc_table e = flushed (vc_table db)"
    and d: "modify oid f e = Some d" and f: "\<And>a. heap db oid = Some a \<Longrightarrow> shell (f a) = shell a"
      "\<And>a. heap db oid = Some a \<Longrightarrow> \<forall>v \<in> set (o_verbdefs (f a)). c_string (v_name v)"
  shows "verbs_ok d"
proof -
  obtain a where a: "heap e oid = Some a" using d by (cases "heap e oid") auto
  obtain d' where "modify oid f e = Some d'" "heap d' = (heap e)(oid \<mapsto> f a)" "rest d' = rest e" "length (objects d') = length (objects e)"
    using modify_ok [OF a, of f] by blast
  then have h: "heap d = (heap db)(oid \<mapsto> f a)" "rest d = rest e" "length (objects d) = length (objects db)"
    using d e by simp_all
  have r: "all_users d = all_users db" "max_objects d = max_objects db" "vc_table d = flushed (vc_table db)"
    using arg_cong [OF h(2), of all_users] arg_cong [OF h(2), of max_objects] arg_cong [OF h(2), of vc_table] e
    by (simp_all add: rest_def)
  have a': "heap db oid = Some a" using a e(1) by simp
  have "objects_ok d" by (rule shell_ok [OF verbs_okD(1) [OF ok] a' h(1) f(1) [OF a'] r(1,2) h(3)])
  moreover have "names_ok d" using ok f(2) [OF a'] by (simp add: verbs_ok_def names_ok_def h(1))
  ultimately show ?thesis using flushed_ok [OF ok _ _ r(3)] by blast
qed

lemma set_verb_modify:
  assumes "set_verb h f db = Some d"
  shows "modify (fst h) (\<lambda>x. x\<lparr>o_verbdefs := map (\<lambda>v. if v_addr v = snd h then f v else v) (o_verbdefs x)\<rparr>) db = Some d"
  using assms by (auto simp: set_verb_def split: Option.bind_splits)

lemma set_verb_ok:
  assumes ok: "verbs_ok db" and "set_verb h f db = Some d"
    and f: "\<And>v. v_addr (f v) = v_addr v \<and> v_name (f v) = v_name v \<and> v_perms (f v) = v_perms v"
  shows "verbs_ok d"
proof -
  let ?g = "\<lambda>x. x\<lparr>o_verbdefs := map (\<lambda>v. if v_addr v = snd h then f v else v) (o_verbdefs x)\<rparr>"
  have m: "modify (fst h) ?g db = Some d" by (rule set_verb_modify [OF assms(2)])
  then obtain a where a: "heap db (fst h) = Some a" by (cases "heap db (fst h)") auto
  obtain d' where d': "modify (fst h) ?g db = Some d'" "heap d' = (heap db)(fst h \<mapsto> ?g a)" "rest d' = rest db" "length (objects d') = length (objects db)"
    using modify_ok [OF a, of ?g] by blast
  have r: "all_users d' = all_users db" "max_objects d' = max_objects db"
    using arg_cong [OF d'(3), of all_users] arg_cong [OF d'(3), of max_objects] by (simp_all add: rest_def)
  have "objects_ok d'"
    by (rule shell_ok [OF verbs_okD(1) [OF ok] a d'(2) _ r d'(4)]) (simp add: shell_def)
  then show ?thesis
    using modify_verbs [OF ok a d'(1)] m d'(1) f by (simp add: vpart_def)
qed

lemma set_verb_flushed_ok:
  assumes ok: "verbs_ok db" and "set_verb h f (db_priv_affected_callable_verb_lookup db) = Some d"
    and f: "\<And>v. c_string (v_name v) \<Longrightarrow> c_string (v_name (f v))"
  shows "verbs_ok d"
proof (rule flush_modify_verbs [OF ok _ _ _ _ flush_table set_verb_modify [OF assms(2)]])
  fix a assume "heap db (fst h) = Some a"
  then have "\<forall>v \<in> set (o_verbdefs a). c_string (v_name v)" using ok by (auto simp: verbs_ok_def names_ok_def)
  then show "\<forall>v \<in> set (o_verbdefs (a\<lparr>o_verbdefs := map (\<lambda>v. if v_addr v = snd h then f v else v) (o_verbdefs a)\<rparr>)). c_string (v_name v)"
    using f by auto
qed (simp_all add: shell_def)

subsection \<open>Properties are not affected either\<close>

definition ppart :: "object \<Rightarrow> objid \<times> propdef list \<times> nat \<times> pval list" where
  "ppart a = (o_parent a, o_propdefs a, o_propdefs_max a, o_propval a)"

lemma ppart_kept:
  assumes ok: "props_ok db" and okd: "objects_ok d"
    and same: "\<And>y. map_option ppart (heap d y) = map_option ppart (heap db y)"
  shows "props_ok d"
proof -
  have s: "slots d y = slots db y" for y
    by (rule slots_cong [OF props_okD(2) [OF ok] objects_okD [OF okd] map_option_factor [OF same]])
      (simp add: ppart_def defs_and_parent_def)
  have "obj_props_ok d y b" if yb: "heap d y = Some b" for y b
  proof -
    obtain a where a: "heap db y = Some a" "ppart b = ppart a" using same [of y] yb by (cases "heap db y") auto
    then show ?thesis using props_okD(3) [OF ok a(1)] by (simp add: obj_props_ok_def s ppart_def)
  qed
  with okd show ?thesis by (simp add: props_ok_def)
qed

lemma destroyed_props_ok:
  assumes ok: "props_ok db" and okd: "objects_ok d" and a: "heap db oid = Some a" "o_child a = NOTHING"
    and h: "heap d = (heap db)(oid := None)"
  shows "props_ok d"
proof -
  note H = props_okD(2) [OF ok, of Children] and Hd = objects_okD [OF okd, of Children]
  have "listing Children db oid = Some []" using a by (simp add: listing_def chain.simps)
  moreover have "valid db oid" using a by (simp add: valid_heap)
  ultimately have "members Children db oid = {}" using H by (auto simp: hier_ok_def)
  then have leaf: "o_parent b \<noteq> oid" if "heap db y = Some b" for y b using that by (auto simp: members_def)
  have s: "slots d y = slots db y" if "y \<noteq> oid" for y
    using Hd that
  proof (induction y rule: up_induct)
    case (invalid y)
    then have "heap db y = None" using h by (auto split: if_splits)
    with invalid show ?case by simp
  next
    case (valid y b)
    then have b: "heap db y = Some b" using h by (auto split: if_splits)
    with valid leaf [OF b] show ?case by (simp add: slots_valid [OF Hd valid(1)] slots_valid [OF H b])
  qed
  have "obj_props_ok d y b" if "heap d y = Some b" for y b
  proof -
    have "y \<noteq> oid" "heap db y = Some b" using that h by (auto split: if_splits)
    then show ?thesis using props_okD(3) [OF ok] s by (simp add: obj_props_ok_def)
  qed
  with okd show ?thesis by (simp add: props_ok_def)
qed

lemma core_contents: "core Contents a = core Contents b \<Longrightarrow> ppart a = ppart b \<and> vpart a = vpart b"
  by (cases a, cases b) (simp add: core_def ppart_def vpart_def)

lemma core_contents_up: "core Contents a = set_up Contents n (core Contents b) \<Longrightarrow> ppart a = ppart b \<and> vpart a = vpart b"
  by (cases a, cases b) (simp add: core_def ppart_def vpart_def)

subsection \<open>All databases the operations lead to\<close>

text \<open>One rule for each operation of the layer, with what its callers check before.\<close>

inductive db_step :: "db \<Rightarrow> db \<Rightarrow> bool" where
  create: "db_create_object u db = Some (oid, d) \<Longrightarrow> db_step db d"
| destroy: "db_destroy_object oid db = Inr d \<Longrightarrow> db_step db d"
| move: "valid db oid \<Longrightarrow> loc = NOTHING \<or> valid db loc \<Longrightarrow> (loc, oid) \<notin> (parents_rel Contents db)\<^sup>* \<Longrightarrow>
    db_change_location oid loc db = Some d \<Longrightarrow> db_step db d"
| chparent: "valid db oid \<Longrightarrow> new = NOTHING \<or> valid db new \<Longrightarrow> new \<notin> descendants db oid \<Longrightarrow>
    db_change_parent oid new db = Some (b, d) \<Longrightarrow> db_step db d"
| set_flag: "db_set_object_flag oid f db = Some d \<Longrightarrow> db_step db d"
| clear_flag: "db_clear_object_flag oid f db = Some d \<Longrightarrow> db_step db d"
| set_owner: "db_set_object_owner oid u db = Some d \<Longrightarrow> db_step db d"
| set_name: "db_set_object_name oid s db = Some d \<Longrightarrow> db_step db d"
| add_prop: "valid db oid \<Longrightarrow> c_string name \<Longrightarrow> v \<noteq> VClear \<Longrightarrow> db_add_propdef oid name v u fl db = Some (b, d) \<Longrightarrow> db_step db d"
| delete_prop: "valid db oid \<Longrightarrow> c_string name \<Longrightarrow> db_delete_propdef oid name db = Some (b, d) \<Longrightarrow> db_step db d"
| set_value: "v \<noteq> VClear \<Longrightarrow> db_set_property_value (Slot oid n definer) v db = Inr d \<Longrightarrow> db_step db d"
| set_prop_owner: "db_set_property_owner (Slot oid n definer) u db = Inr d \<Longrightarrow> db_step db d"
| set_prop_flags: "db_set_property_flags (Slot oid n definer) fl db = Inr d \<Longrightarrow> db_step db d"
| add_verb: "c_string names \<Longrightarrow> db_add_verb oid names u fl dobj prep iobj db = Some (n, d) \<Longrightarrow> db_step db d"
| delete_verb: "db_delete_verb h db = Some d \<Longrightarrow> db_step db d"
| set_verb_names: "c_string names \<Longrightarrow> db_set_verb_names h names db = Inr d \<Longrightarrow> db_step db d"
| set_verb_owner: "db_set_verb_owner h u db = Inr d \<Longrightarrow> db_step db d"
| set_verb_flags: "db_set_verb_flags h fl db = Inr d \<Longrightarrow> db_step db d"
| set_verb_program: "db_set_verb_program h p db = Inr d \<Longrightarrow> db_step db d"
| set_verb_arg_specs: "db_set_verb_arg_specs h dobj prep iobj db = Inr d \<Longrightarrow> db_step db d"
| call: "c_string verb \<Longrightarrow> harmless same db verb \<Longrightarrow> db_find_callable_verb same oid verb db = Some (h, d) \<Longrightarrow> db_step db d"

definition db_ok :: "db \<Rightarrow> bool" where
  "db_ok db \<longleftrightarrow> props_ok db \<and> verbs_ok db"

lemma db_okD: "db_ok db \<Longrightarrow> props_ok db" "db_ok db \<Longrightarrow> verbs_ok db" "db_ok db \<Longrightarrow> objects_ok db"
  by (auto simp: db_ok_def props_okD)

lemma parts_kept:
  assumes "db_ok db" "objects_ok d" "vc_table d = vc_table db"
    and "\<And>y. map_option (\<lambda>a. (ppart a, vpart a)) (heap d y) = map_option (\<lambda>a. (ppart a, vpart a)) (heap db y)"
  shows "db_ok d"
proof -
  have "map_option ppart (heap d y) = map_option ppart (heap db y)" "map_option vpart (heap d y) = map_option vpart (heap db y)" for y
    by (rule map_option_factor [OF assms(4)], simp)+
  then show ?thesis
    using ppart_kept [OF db_okD(1) [OF assms(1)] assms(2)] vpart_kept [OF db_okD(2) [OF assms(1)] assms(2,3)]
    by (simp add: db_ok_def)
qed

lemma create_db_ok:
  assumes ok: "db_ok db" and c: "db_create_object u db = Some (oid, d)"
  shows "db_ok d"
proof -
  have d: "\<not> valid db oid" "heap d = (heap db)(oid \<mapsto> fresh_object oid u)" "objects_ok d" "vc_table d = vc_table db"
    using create_spec [OF db_okD(3) [OF ok], of u] c by auto
  have "props_ok d" by (rule created_props_ok [OF db_okD(1) [OF ok] d(3,1,2)])
  moreover have "verbs_ok d"
  proof (rule verbs_kept [where X = "- {oid}", OF db_okD(2) [OF ok] d(3) _ d(4)])
    show "names_ok d" using db_okD(2) [OF ok] by (auto simp: verbs_ok_def names_ok_def d(2) fresh_object_def)
    show "NOTHING \<in> - {oid}" using d(2) heap_NOTHING [of d] by auto
    fix y a assume y: "heap db y = Some a"
    have "o_parent a = NOTHING \<or> valid db (o_parent a)" using objects_okD [OF db_okD(3) [OF ok], of Children] y by (force simp: hier_ok_def)
    moreover have "NOTHING \<noteq> oid" using d(2) heap_NOTHING [of d] by auto
    ultimately show "o_parent a \<in> - {oid}" using d(1) by auto
    show "y \<in> - {oid}" using y d(1) by (auto simp: valid_heap)
  qed (simp add: d(2))
  ultimately show ?thesis by (simp add: db_ok_def)
qed

lemma destroy_db_ok:
  assumes ok: "db_ok db" and c: "db_destroy_object oid db = Inr d"
  shows "db_ok d"
proof -
  obtain a where a: "heap db oid = Some a" "barren a" "length (o_propdefs a) \<le> length (o_propval a)"
    using c by (auto simp: db_destroy_object_def barren_def Let_def split: option.splits if_splits)
  have d: "objects_ok d" "heap d = (heap db)(oid := None)"
    using destroy_spec [OF db_okD(3) [OF ok] a] c by auto
  have "vc_table d = flushed (vc_table db)"
    using c flush_table [of db] by (auto simp: db_destroy_object_def Let_def set_object_def bind_res_Inr split: option.splits if_splits)
  moreover have "names_ok d" using db_okD(2) [OF ok] by (auto simp: verbs_ok_def names_ok_def d(2) split: if_splits)
  ultimately have "verbs_ok d" using flushed_ok [OF db_okD(2) [OF ok] d(1)] by blast
  moreover have "props_ok d"
    by (rule destroyed_props_ok [OF db_okD(1) [OF ok] d(1) a(1) _ d(2)]) (use a(2) in \<open>simp add: barren_def\<close>)
  ultimately show ?thesis by (simp add: db_ok_def)
qed

lemma move_db_ok:
  assumes ok: "db_ok db" and "valid db oid" "loc = NOTHING \<or> valid db loc" "(loc, oid) \<notin> (parents_rel Contents db)\<^sup>*"
    and c: "db_change_location oid loc db = Some d"
  shows "db_ok d"
proof -
  obtain x where x: "heap db oid = Some x" using assms(2) by (auto simp: valid_heap)
  have d: "objects_ok d" "rest d = rest db" "\<forall>y. map_option (core Contents) (heap d y) =
       (if y = oid then Some (set_up Contents loc (core Contents x)) else map_option (core Contents) (heap db y))"
    using change_location_spec [OF db_okD(3) [OF ok] x assms(3,4)] c by auto
  show ?thesis
  proof (rule parts_kept [OF ok d(1) rest_table [OF d(2)]])
    fix y show "map_option (\<lambda>a. (ppart a, vpart a)) (heap d y) = map_option (\<lambda>a. (ppart a, vpart a)) (heap db y)"
      by (rule relocated_map [OF d(3) [THEN spec] x]) (drule core_contents core_contents_up, simp)+
  qed
qed

lemma chparent_db_ok:
  assumes ok: "db_ok db" and "valid db oid" "new = NOTHING \<or> valid db new" "new \<notin> descendants db oid"
    and c: "db_change_parent oid new db = Some (b, d)"
  shows "db_ok d"
proof (cases "\<forall>s \<in> set (slots db new). \<not> clashes db oid (snd s)")
  case False
  then have "dbpriv_check_properties_for_chparent db oid new = Some False"
    using check_spec [OF db_okD(1) [OF ok] assms(2), of new] by simp
  then show ?thesis using c ok by (simp add: db_change_parent_def)
next
  case True
  obtain a where a: "heap db oid = Some a" using assms(2) by (auto simp: valid_heap)
  have d: "props_ok d"
    "rest d = rest (if o_child a = NOTHING \<and> o_verbdefs a = [] then db else db_priv_affected_callable_verb_lookup db)"
    "\<forall>y. heap db y = None \<longrightarrow> heap d y = None"
    "\<forall>y b. heap db y = Some b \<longrightarrow> parent_of d y = (if y = oid then new else o_parent b) \<and>
       (\<exists>g. heap d y = Some g \<and> o_id g = o_id b \<and> o_verbdefs g = o_verbdefs b)"
    using chparent_spec [OF db_okD(1) [OF ok] a assms(3,4) True] c by auto
  have od: "objects_ok d" using d(1) by (rule props_okD)
  have g: "\<exists>g. heap d y = Some g \<and> o_id g = o_id b \<and> o_verbdefs g = o_verbdefs b \<and> o_parent g = (if y = oid then new else o_parent b)"
    if yb: "heap db y = Some b" for y b
  proof -
    have "parent_of d y = (if y = oid then new else o_parent b)"
      "\<exists>g. heap d y = Some g \<and> o_id g = o_id b \<and> o_verbdefs g = o_verbdefs b" using d(4) yb by blast+
    then show ?thesis by (auto simp: parent_of_def)
  qed
  have "names_ok d"
  proof (rule names_ok_map)
    show "names_ok db" using db_okD(2) [OF ok] by (simp add: verbs_ok_def)
    fix y show "map_option (\<lambda>a. map v_name (o_verbdefs a)) (heap d y) = map_option (\<lambda>a. map v_name (o_verbdefs a)) (heap db y)"
      using g [of y] d(3) by (cases "heap db y") auto
  qed
  have "verbs_ok d"
  proof (cases "o_child a = NOTHING \<and> o_verbdefs a = []")
    case False
    then have "vc_table d = flushed (vc_table db)"
      using d(2) rest_table [of d "db_priv_affected_callable_verb_lookup db"] by (auto simp: flush_table)
    then show ?thesis using flushed_ok [OF db_okD(2) [OF ok] od \<open>names_ok d\<close>] by blast
  next
    case True
    have leaf: "o_parent b \<noteq> oid" if "heap db y = Some b" for y b
    proof -
      have "listing Children db oid = Some []" using a True by (simp add: listing_def chain.simps)
      then have "members Children db oid = {}"
        using objects_okD [OF db_okD(3) [OF ok], of Children] assms(2) by (auto simp: hier_ok_def)
      then show ?thesis using that by (auto simp: members_def)
    qed
    have t: "vc_table d = vc_table db" using d(2) True rest_table [of d db] by simp
    show ?thesis
    proof (rule verbs_kept [where X = "- {oid}", OF db_okD(2) [OF ok] od \<open>names_ok d\<close> t])
      show "NOTHING \<in> - {oid}" using a heap_NOTHING [of db] by auto
      fix y b assume y: "heap db y = Some b"
      show "o_parent b \<in> - {oid}" using leaf [OF y] by simp
      assume "o_verbdefs b \<noteq> []"
      then show "y \<in> - {oid}" using True a y by auto
    next
      fix y assume "y \<in> - {oid}"
      then show "map_option vpart (heap d y) = map_option vpart (heap db y)"
        using g [of y] d(3) by (cases "heap db y") (auto simp: vpart_def)
    qed
  qed
  with d(1) show ?thesis by (simp add: db_ok_def)
qed

lemma flag_db_ok:
  assumes ok: "db_ok db" and d: "db_set_object_flag oid f db = Some d \<or> db_clear_object_flag oid f db = Some d"
  shows "db_ok d"
proof -
  obtain x where x: "heap db oid = Some x"
    using d by (cases "heap db oid") (auto simp: db_set_object_flag_def db_clear_object_flag_def)
  obtain fl where fl: "objects_ok d" "heap d = (heap db)(oid \<mapsto> x\<lparr>o_flags := fl\<rparr>)"
    using set_flag_spec [OF db_okD(3) [OF ok] x, of f] clear_flag_spec [OF db_okD(3) [OF ok] x, of f] d by fastforce
  have "vc_table d = vc_table db"
    using d x by (auto simp: db_set_object_flag_def db_clear_object_flag_def modify_def set_object_def the_list_def split: if_splits sum.splits)
  then show ?thesis by (rule parts_kept [OF ok fl(1)]) (use x in \<open>simp add: fl(2) ppart_def vpart_def\<close>)
qed

lemma modify_db_ok:
  assumes ok: "db_ok db" and d: "modify oid f db = Some d" and f: "\<And>a. heap db oid = Some a \<Longrightarrow> shell (f a) = shell a \<and>
      ppart (f a) = ppart a \<and> vpart (f a) = vpart a"
  shows "db_ok d"
proof -
  obtain a where a: "heap db oid = Some a" using d by (cases "heap db oid") auto
  obtain d' where "modify oid f db = Some d'" "heap d' = (heap db)(oid \<mapsto> f a)" "rest d' = rest db" "length (objects d') = length (objects db)"
    using modify_ok [OF a, of f] by blast
  then have h: "heap d = (heap db)(oid \<mapsto> f a)" "rest d = rest db" "length (objects d) = length (objects db)" using d by simp_all
  have r: "all_users d = all_users db" "max_objects d = max_objects db"
    using arg_cong [OF h(2), of all_users] arg_cong [OF h(2), of max_objects] by (simp_all add: rest_def)
  have "objects_ok d" by (rule shell_ok [OF db_okD(3) [OF ok] a h(1) _ r h(3)]) (use f [OF a] in simp)
  then show ?thesis by (rule parts_kept [OF ok _ rest_table [OF h(2)]]) (use a f [OF a] in \<open>simp add: h(1)\<close>)
qed

lemma set_slot_db_ok:
  assumes ok: "db_ok db" and d: "set_slot oid n f db = Some d"
    and f: "\<And>p. pv_var p \<noteq> VClear \<Longrightarrow> pv_var (f p) \<noteq> VClear"
  shows "db_ok d"
proof -
  obtain p a where a: "heap db oid = Some a" "nth_opt (o_propval a) n = Some p"
    "modify oid (\<lambda>x. x\<lparr>o_propval := (o_propval x)[n := f p]\<rparr>) db = Some d"
    using d by (auto simp: set_slot_def the_slot_def split: Option.bind_splits)
  then have n: "n < length (o_propval a)" "p = o_propval a ! n" by (auto simp: nth_opt_def split: if_splits)
  let ?g = "\<lambda>x. x\<lparr>o_propval := (o_propval x)[n := f p]\<rparr>"
  obtain d' where "modify oid ?g db = Some d'" "heap d' = (heap db)(oid \<mapsto> ?g a)" "rest d' = rest db" "length (objects d') = length (objects db)"
    using modify_ok [OF a(1), of ?g] by blast
  then have h: "heap d = (heap db)(oid \<mapsto> ?g a)" "rest d = rest db" "length (objects d) = length (objects db)" using a(3) by simp_all
  have sb: "same_base db d"
  proof -
    have "base (?g a) = base a" by (simp add: base_def)
    then show ?thesis using a(1) h by (auto simp: same_base_def)
  qed
  have od: "objects_ok d" by (rule same_base_ok [OF db_okD(3) [OF ok] sb])
  have s: "slots d y = slots db y" for y
    by (rule slots_cong [OF objects_okD [OF db_okD(3) [OF ok]] objects_okD [OF od]])
      (use a(1) in \<open>simp add: h(1) defs_and_parent_def\<close>)
  have "obj_props_ok d y b" if "heap d y = Some b" for y b
  proof (cases "y = oid")
    case True
    then have "b = ?g a" using that h(1) by simp
    moreover have "pv_var ((o_propval a)[n := f p] ! m) \<noteq> VClear" if "m < length (o_propdefs a)" for m
      using props_okD(3) [OF db_okD(1) [OF ok] a(1)] that f n
      by (cases "m = n") (auto simp: obj_props_ok_def)
    ultimately show ?thesis using props_okD(3) [OF db_okD(1) [OF ok] a(1)] True by (simp add: obj_props_ok_def s)
  next
    case False
    then show ?thesis using that h(1) props_okD(3) [OF db_okD(1) [OF ok]] by (simp add: obj_props_ok_def s)
  qed
  then have "props_ok d" using od by (simp add: props_ok_def)
  then show ?thesis using same_base_verbs [OF db_okD(2) [OF ok] sb] by (simp add: db_ok_def)
qed

lemma flush_modify_db_ok:
  assumes ok: "db_ok db" and e: "heap e = heap db" "all_users e = all_users db" "max_objects e = max_objects db"
      "length (objects e) = length (objects db)" "vc_table e = flushed (vc_table db)"
    and d: "modify oid f e = Some d" and f: "\<And>a. heap db oid = Some a \<Longrightarrow> shell (f a) = shell a \<and> ppart (f a) = ppart a"
      "\<And>a. heap db oid = Some a \<Longrightarrow> \<forall>v \<in> set (o_verbdefs (f a)). c_string (v_name v)"
  shows "db_ok d"
proof -
  have v: "verbs_ok d" by (rule flush_modify_verbs [OF db_okD(2) [OF ok] e d]) (use f in auto)
  obtain a where a: "heap e oid = Some a" using d by (cases "heap e oid") auto
  obtain d' where "modify oid f e = Some d'" "heap d' = (heap e)(oid \<mapsto> f a)" using modify_ok [OF a, of f] by blast
  then have "heap d = (heap db)(oid \<mapsto> f a)" using d e(1) by simp
  then have "map_option ppart (heap d y) = map_option ppart (heap db y)" for y using f(1) [of a] a e(1) by simp
  from ppart_kept [OF db_okD(1) [OF ok] verbs_okD(1) [OF v] this] v show ?thesis by (simp add: db_ok_def)
qed

lemma set_verb_db_ok:
  assumes ok: "db_ok db" and d: "set_verb h f db = Some d"
    and f: "\<And>v. v_addr (f v) = v_addr v \<and> v_name (f v) = v_name v \<and> v_perms (f v) = v_perms v"
  shows "db_ok d"
  by (rule modify_db_ok [OF ok set_verb_modify [OF d]]) (use f in \<open>simp add: shell_def ppart_def vpart_def\<close>)

lemma set_verb_flushed_db_ok:
  assumes ok: "db_ok db" and d: "set_verb h f (db_priv_affected_callable_verb_lookup db) = Some d"
    and f: "\<And>v. c_string (v_name v) \<Longrightarrow> c_string (v_name (f v))"
  shows "db_ok d"
proof (rule flush_modify_db_ok [OF ok _ _ _ _ flush_table set_verb_modify [OF d]])
  fix a assume "heap db (fst h) = Some a"
  then have "\<forall>v \<in> set (o_verbdefs a). c_string (v_name v)" using db_okD(2) [OF ok] by (auto simp: verbs_ok_def names_ok_def)
  then show "\<forall>v \<in> set (o_verbdefs (a\<lparr>o_verbdefs := map (\<lambda>v. if v_addr v = snd h then f v else v) (o_verbdefs a)\<rparr>)). c_string (v_name v)"
    using f by auto
qed (simp_all add: shell_def ppart_def)

lemma on_verb_Inr: "on_verb who h f = Inr d \<Longrightarrow> \<exists>g. h = Some g \<and> f g = Some d"
  by (auto simp: on_verb_def split: option.splits)


lemma unlink_verb_subset: "unlink_verb a vs = Some ws \<Longrightarrow> set ws \<subseteq> set vs"
  by (induction vs arbitrary: ws) (auto split: if_splits)

lemma delete_verb_db_ok:
  assumes ok: "db_ok db" and d: "db_delete_verb h db = Some d"
  shows "db_ok d"
proof -
  let ?db = "db_priv_affected_callable_verb_lookup db"
  obtain oid a x vs where h: "h = Some (oid, a)" "heap db oid = Some x" "unlink_verb a (o_verbdefs x) = Some vs"
    "modify oid (\<lambda>x. x\<lparr>o_verbdefs := vs\<rparr>) ?db = Some d"
    using d by (auto simp: db_delete_verb_def split: Option.bind_splits)
  show ?thesis
  proof (rule flush_modify_db_ok [OF ok _ _ _ _ flush_table h(4)])
    fix b assume "heap db oid = Some b"
    then show "\<forall>v \<in> set (o_verbdefs (b\<lparr>o_verbdefs := vs\<rparr>)). c_string (v_name v)"
      using db_okD(2) [OF ok] h(2) unlink_verb_subset [OF h(3)] by (fastforce simp: verbs_ok_def names_ok_def)
  qed (simp_all add: shell_def ppart_def)
qed

lemma add_verb_db_ok:
  assumes ok: "db_ok db" and c: "c_string names" and d: "db_add_verb oid names u fl dobj prep iobj db = Some (n, d)"
  shows "db_ok d"
proof -
  let ?db = "db_priv_affected_callable_verb_lookup db"
  let ?e = "?db\<lparr>next_addr := next_addr ?db + 1\<rparr>"
  let ?v = "\<lparr>v_addr = next_addr ?db, v_name = names, v_program = None, v_owner = u,
    v_perms = pack_perms fl dobj iobj, v_prep = to_short prep\<rparr>"
  have m: "modify oid (\<lambda>x. x\<lparr>o_verbdefs := o_verbdefs x @ [?v]\<rparr>) ?e = Some d"
    using d by (auto simp: db_add_verb_def Let_def split: Option.bind_splits)
  have t: "vc_table ?e = flushed (vc_table db)" using flush_table by simp
  show ?thesis
  proof (rule flush_modify_db_ok [OF ok _ _ _ _ t m])
    fix b assume "heap db oid = Some b"
    then show "\<forall>w \<in> set (o_verbdefs (b\<lparr>o_verbdefs := o_verbdefs b @ [?v]\<rparr>)). c_string (v_name w)"
      using db_okD(2) [OF ok] c by (auto simp: verbs_ok_def names_ok_def)
  qed (simp_all add: shell_def ppart_def)
qed

lemma prop_step_ok:
  assumes ok: "db_ok db" and p: "props_ok d" "same_base db d"
  shows "db_ok d"
  using same_base_verbs [OF db_okD(2) [OF ok] p(2)] p(1) by (simp add: db_ok_def)

lemma add_prop_db_ok:
  assumes ok: "db_ok db" and v: "valid db oid" "c_string name" "v \<noteq> VClear"
    and d: "db_add_propdef oid name v u fl db = Some (b, d)"
  shows "db_ok d"
proof (cases "name_taken db oid name")
  case True
  then show ?thesis using add_propdef_refused [OF db_okD(1) [OF ok] v(1,2) True] d ok by simp
next
  case False
  obtain a where a: "heap db oid = Some a" using v(1) by (auto simp: valid_heap)
  have "pv_var \<lparr>pv_var = v, pv_owner = u, pv_perms = fl\<rparr> \<noteq> VClear" using v(3) by simp
  from add_propdef_spec [OF db_okD(1) [OF ok] a v(2) this False] d have "props_ok d" "same_base db d" by auto
  then show ?thesis by (rule prop_step_ok [OF ok])
qed

lemma delete_prop_db_ok:
  assumes ok: "db_ok db" and v: "valid db oid" "c_string name" and d: "db_delete_propdef oid name db = Some (b, d)"
  shows "db_ok d"
proof -
  obtain a where a: "heap db oid = Some a" using v(1) by (auto simp: valid_heap)
  show ?thesis
  proof (cases "find_index (\<lambda>p. fold_case (pd_name p) = fold_case name) (o_propdefs a)")
    case None
    then show ?thesis using delete_propdef_refused [OF db_okD(1) [OF ok] a v(2)] d ok by simp
  next
    case (Some i)
    from delete_propdef_spec [OF db_okD(1) [OF ok] a v(2) Some] d have "props_ok d" "same_base db d" by auto
    then show ?thesis by (rule prop_step_ok [OF ok])
  qed
qed

lemma call_db_ok:
  assumes ok: "db_ok db" and "c_string verb" "harmless same db verb" "db_find_callable_verb same oid verb db = Some (h, d)"
  shows "db_ok d"
proof -
  have d: "verbs_ok d" "heap d = heap db" using callable_spec [OF db_okD(2) [OF ok] assms(2,3), of oid] assms(4) by auto
  then have "props_ok d" by (intro ppart_kept [OF db_okD(1) [OF ok] verbs_okD(1) [OF d(1)]]) simp
  with d(1) show ?thesis by (simp add: db_ok_def)
qed

lemma step_ok: "db_step db d \<Longrightarrow> db_ok db \<Longrightarrow> db_ok d"
proof (induction rule: db_step.induct)
  case (set_owner oid u db d)
  then show ?case using modify_db_ok [of db oid "\<lambda>x. x\<lparr>o_owner := u\<rparr>" d]
    by (simp add: db_set_object_owner_def shell_def ppart_def vpart_def)
next
  case (set_name oid s db d)
  then show ?case using modify_db_ok [of db oid "\<lambda>x. x\<lparr>o_name := s\<rparr>" d]
    by (simp add: db_set_object_name_def shell_def ppart_def vpart_def)
next
  case (set_value v oid n definer db d)
  then show ?case using set_slot_db_ok [of db oid n "\<lambda>p. p\<lparr>pv_var := v\<rparr>" d] by simp
next
  case (set_prop_owner oid n definer u db d)
  then show ?case using set_slot_db_ok [of db oid n "\<lambda>p. p\<lparr>pv_owner := u\<rparr>" d] by simp
next
  case (set_prop_flags oid n definer fl db d)
  then show ?case using set_slot_db_ok [of db oid n "\<lambda>p. p\<lparr>pv_perms := fl\<rparr>" d] by simp
next
  case (set_verb_names names h db d)
  then obtain g where "set_verb g (\<lambda>v. v\<lparr>v_name := names\<rparr>) (db_priv_affected_callable_verb_lookup db) = Some d"
    by (auto simp: db_set_verb_names_def dest: on_verb_Inr)
  from set_verb_flushed_db_ok [OF set_verb_names(3) this] set_verb_names(1) show ?case by simp
next
  case (set_verb_owner h u db d)
  then obtain g where "set_verb g (\<lambda>v. v\<lparr>v_owner := u\<rparr>) db = Some d"
    by (auto simp: db_set_verb_owner_def dest: on_verb_Inr)
  from set_verb_db_ok [OF set_verb_owner(2) this] show ?case by simp
next
  case (set_verb_flags h fl db d)
  then obtain g where "set_verb g (\<lambda>v. v\<lparr>v_perms := to_short (to_short (v_perms v AND NOT PERMMASK) OR fl)\<rparr>)
      (db_priv_affected_callable_verb_lookup db) = Some d"
    by (auto simp: db_set_verb_flags_def dest: on_verb_Inr)
  from set_verb_flushed_db_ok [OF set_verb_flags(2) this] show ?case by simp
next
  case (set_verb_program h p db d)
  then obtain g where "set_verb g (\<lambda>v. v\<lparr>v_program := p\<rparr>) db = Some d"
    by (auto simp: db_set_verb_program_def dest: on_verb_Inr)
  from set_verb_db_ok [OF set_verb_program(2) this] show ?case by simp
next
  case (set_verb_arg_specs h dobj prep iobj db d)
  then obtain g where "set_verb g (\<lambda>v. v\<lparr>v_perms := pack_perms (v_perms v AND PERMMASK) dobj iobj, v_prep := to_short prep\<rparr>)
      (db_priv_affected_callable_verb_lookup db) = Some d"
    by (auto simp: db_set_verb_arg_specs_def dest: on_verb_Inr)
  from set_verb_flushed_db_ok [OF set_verb_arg_specs(2) this] show ?case by simp
next
  case (create u db oid d)
  show ?case by (rule create_db_ok [OF create(2,1)])
next
  case (destroy oid db d)
  show ?case by (rule destroy_db_ok [OF destroy(2,1)])
next
  case (move db oid loc d)
  show ?case by (rule move_db_ok [OF move(5,1-4)])
next
  case (chparent db oid new b d)
  show ?case by (rule chparent_db_ok [OF chparent(5,1-4)])
next
  case (set_flag oid f db d)
  show ?case by (rule flag_db_ok [OF set_flag(2)], rule disjI1, rule set_flag(1))
next
  case (clear_flag oid f db d)
  show ?case by (rule flag_db_ok [OF clear_flag(2)], rule disjI2, rule clear_flag(1))
next
  case (add_prop db oid name v u fl b d)
  show ?case by (rule add_prop_db_ok [OF add_prop(5,1-4)])
next
  case (delete_prop db oid name b d)
  show ?case by (rule delete_prop_db_ok [OF delete_prop(4,1-3)])
next
  case (add_verb names oid u fl dobj prep iobj db n d)
  show ?case by (rule add_verb_db_ok [OF add_verb(3,1,2)])
next
  case (delete_verb h db d)
  show ?case by (rule delete_verb_db_ok [OF delete_verb(2,1)])
next
  case (call verb same db oid h d)
  show ?case by (rule call_db_ok [OF call(4,1-3)])
qed

lemma empty_db_all_ok: "db_ok empty_db"
proof -
  have "names_ok empty_db" "cache_ok empty_db" by (simp_all add: names_ok_def cache_ok_def) (simp add: empty_db_def)
  then have "verbs_ok empty_db" by (simp add: verbs_ok_def empty_db_ok)
  then show ?thesis by (simp add: db_ok_def empty_props_ok)
qed

lemma steps_ok: "db_step\<^sup>*\<^sup>* db d \<Longrightarrow> db_ok db \<Longrightarrow> db_ok d"
  by (induction rule: rtranclp_induct) (auto intro: step_ok)




text \<open>Searches in a database, each through the cache the ones before have left.\<close>

definition cstr :: "string \<Rightarrow> string" where
  "cstr s = takeWhile (\<lambda>c. c \<noteq> CHR 0x00) s"

lemma c_string_cstr [simp]: "c_string (cstr s)" "c_string s \<Longrightarrow> cstr s = s"
  by (auto simp: cstr_def c_string_def dest: set_takeWhileD)

definition search :: "db \<Rightarrow> objid \<times> string \<Rightarrow> handle" where
  "search db q = the (find_up (by_name (cstr (snd q))) db (fst q))"

definition cached_search :: "objid \<times> string \<Rightarrow> db \<Rightarrow> (handle \<times> db) option" where
  "cached_search q db = db_find_callable_verb (\<lambda>_. False) (fst q) (cstr (snd q)) db"

definition searchable :: "db \<Rightarrow> db \<Rightarrow> bool" where
  "searchable db0 db \<longleftrightarrow> verbs_ok db \<and> heap db = heap db0"

lemma cached_search_good:
  assumes "searchable db0 db"
  shows "\<exists>d. cached_search q db = Some (search db0 q, d) \<and> searchable db0 d"
proof -
  have db: "verbs_ok db" "heap db = heap db0" using assms by (simp_all add: searchable_def)
  have "harmless (\<lambda>_. False) db (cstr (snd q))" by (simp add: harmless_def)
  from callable_spec [OF db(1) c_string_cstr(1) this, of "fst q"] obtain h d where
    d: "cached_search q db = Some (h, d)" "find_up (by_name (cstr (snd q))) db (fst q) = Some h" "verbs_ok d" "heap d = heap db"
    by (auto simp: cached_search_def)
  have "find_up (by_name (cstr (snd q))) db0 (fst q) = find_up (by_name (cstr (snd q))) db (fst q)"
    using find_up_frame [OF verbs_okD(2) [OF db(1)], of UNIV db0] db(2) by simp
  then have "search db0 q = h" using d(2) by (simp add: search_def)
  with d db(2) show ?thesis by (auto simp: searchable_def)
qed

interpretation verb_cache: memo "searchable db0" cached_search "search db0" for db0
  by unfold_locales (rule cached_search_good)



end
