(* ===== verification/Commands.thy ===== *)
theory Commands
  imports Database
begin

text \<open>
  Parsing a command (\<open>parse_cmd.c\<close>) and finding the objects it names (\<open>match.c\<close>).

  \<open>db_find_prep\<close> finds the leftmost preposition; the words before it name the direct object, the words
  behind it the indirect one. Objects are searched by name and aliases in what the player carries and
  in the player's location.
\<close>

subsection \<open>Matching objects\<close>

text \<open>The names of an object: its own, and those of its aliases that are strings.\<close>

definition aliases :: "db \<Rightarrow> objid \<Rightarrow> var list option" where
  "aliases db oid = (case db_find_property db oid ''aliases'' True of
     None \<Rightarrow> None
   | Some (h, v) \<Rightarrow> (case v of Some (VList l) \<Rightarrow> if h = NoProp then Some [] else Some l | _ \<Rightarrow> Some []))"

definition names_of_object :: "db \<Rightarrow> objid \<Rightarrow> string list option" where
  "names_of_object db oid = (do {
     l \<leftarrow> aliases db oid;
     name \<leftarrow> db_object_name db oid;
     Some (name # concat (map (\<lambda>v. case v of VStr s \<Rightarrow> [s] | _ \<Rightarrow> []) l))
   })"

record match_data =
  exact :: objid
  partial :: objid

text \<open>The loop of \<open>match_proc\<close> over the names; true when the exact match is ambiguous.\<close>

fun match_names :: "string \<Rightarrow> objid \<Rightarrow> string list \<Rightarrow> match_data \<Rightarrow> bool \<times> match_data" where
  "match_names name oid [] d = (False, d)"
| "match_names name oid (n # ns) d =
    (if mystrncasecmp n name (length name) = 0 then
       (if length n \<le> length name then
          (if exact d = NOTHING \<or> exact d = oid then match_names name oid ns (d\<lparr>exact := oid\<rparr>)
           else (True, d))
        else if partial d = FAILED_MATCH \<or> partial d = oid then match_names name oid ns (d\<lparr>partial := oid\<rparr>)
        else match_names name oid ns (d\<lparr>partial := AMBIGUOUS\<rparr>))
     else match_names name oid ns d)"

fun match_all :: "db \<Rightarrow> string \<Rightarrow> objid list \<Rightarrow> match_data \<Rightarrow> (bool \<times> match_data) option" where
  "match_all db name [] d = Some (False, d)"
| "match_all db name (oid # oids) d = (do {
     ns \<leftarrow> names_of_object db oid;
     let (stop, d) = match_names name oid ns d;
     if stop then Some (True, d) else match_all db name oids d
   })"

definition match_in :: "db \<Rightarrow> string \<Rightarrow> objid \<Rightarrow> match_data \<Rightarrow> (bool \<times> match_data) option" where
  "match_in db name oid d =
    (if valid db oid then do { cs \<leftarrow> listing Contents db oid; match_all db name cs d } else Some (False, d))"

definition match_contents :: "db \<Rightarrow> objid \<Rightarrow> string \<Rightarrow> objid option" where
  "match_contents db player name =
    (if \<not> valid db player then Some FAILED_MATCH
     else do {
       loc \<leftarrow> db_object_location db player;
       (stop, d) \<leftarrow> match_in db name player \<lparr>exact = NOTHING, partial = FAILED_MATCH\<rparr>;
       (stop, d) \<leftarrow> (if stop then Some (True, d) else match_in db name loc d);
       Some (if stop then AMBIGUOUS else if exact d \<noteq> NOTHING then exact d else partial d)
     })"

definition match_object :: "db \<Rightarrow> objid \<Rightarrow> string \<Rightarrow> objid option" where
  "match_object db player name =
    (if name = [] then Some NOTHING
     else if hd name = CHR ''#'' then
       (case strtoimax (tl name) of (r, p) \<Rightarrow> Some (if p \<noteq> [] \<or> \<not> valid db r then FAILED_MATCH else r))
     else if \<not> valid db player then Some FAILED_MATCH
     else if mystrcasecmp name ''me'' = 0 then Some player
     else if mystrcasecmp name ''here'' = 0 then db_object_location db player
     else match_contents db player name)"

subsection \<open>Parsing\<close>

definition parse_into_wordlist :: "string \<Rightarrow> var" where
  "parse_into_wordlist command = VList (map VStr (parse_into_words command))"

record parsed_command =
  pc_verb :: string
  pc_argstr :: string
  pc_args :: "var list"
  pc_dobjstr :: string
  pc_dobj :: objid
  pc_prepstr :: string
  pc_prep :: int
  pc_iobjstr :: string
  pc_iobj :: objid

text \<open>Skipping the verb in the text of the command.\<close>

fun skip_verb :: "bool \<Rightarrow> string \<Rightarrow> string" where
  "skip_verb in_quotes [] = []"
| "skip_verb in_quotes (c # s) =
    (if \<not> in_quotes \<and> c = CHR '' '' then c # s
     else if c = CHR 0x22 then skip_verb (\<not> in_quotes) s
     else if c = CHR 0x5c \<and> s \<noteq> [] then skip_verb in_quotes (tl s)
     else skip_verb in_quotes s)"

text \<open>The buffer that is split into words, and the argument string: a quote, a colon or a semicolon at the
  beginning stands for a verb.\<close>

definition command_buffer :: "string \<Rightarrow> string \<times> string" where
  "command_buffer command =
    (let command = skip_spaces command; c = peek command;
         special = (if c = 34 then Some ''say'' else if c = 58 then Some ''emote''
                    else if c = 59 then Some ''eval'' else None)
     in case special of
          Some verb \<Rightarrow> (verb @ '' '' @ tl command, tl command)
        | None \<Rightarrow> (command, skip_spaces (skip_verb False command)))"

definition slice :: "nat \<Rightarrow> nat \<Rightarrow> 'a list \<Rightarrow> 'a list" where
  "slice start n xs = take n (drop start xs)"

text \<open>The result is \<open>None\<close> in the inner option for an empty command. Positions count the verb as word 0.\<close>

definition parse_command :: "db \<Rightarrow> string \<Rightarrow> objid \<Rightarrow> parsed_command option option" where
  "parse_command db command user =
    (let (buf, argstr) = command_buffer command;
         argv = parse_into_words buf; argc = length argv
     in if argc = 0 then Some None
        else
          (let found = (if argc > 1 then db_find_prep (tl argv) else None);
               prep = (case found of None \<Rightarrow> PREP_NONE | Some (j, _, _) \<Rightarrow> j);
               pstart = (case found of None \<Rightarrow> argc | Some (_, i, _) \<Rightarrow> i + 1);
               pend = (case found of None \<Rightarrow> argc | Some (_, _, i) \<Rightarrow> i + 1);
               prepstr = (if prep \<noteq> PREP_NONE then build_string (slice pstart (pend - pstart + 1) argv) else []);
               iobjstr = (if prep \<noteq> PREP_NONE then build_string (slice (pend + 1) (argc - (pend + 1)) argv) else []);
               dlen = pstart - 1;
               dobjstr = (if dlen = 0 then [] else build_string (slice 1 dlen argv))
           in do {
             iobj \<leftarrow> (if prep \<noteq> PREP_NONE then match_object db user iobjstr else Some NOTHING);
             dobj \<leftarrow> (if dlen = 0 then Some NOTHING else match_object db user dobjstr);
             Some (Some \<lparr>pc_verb = hd argv, pc_argstr = argstr, pc_args = map VStr (tl argv),
               pc_dobjstr = dobjstr, pc_dobj = dobj, pc_prepstr = prepstr, pc_prep = prep,
               pc_iobjstr = iobjstr, pc_iobj = iobj\<rparr>)
           }))"

subsection \<open>What a preposition is\<close>

lemma prep_table_words: "list_all (\<lambda>aliases. list_all (\<lambda>a. a \<noteq> []) aliases) prep_table" "length prep_table = 15"
  by code_simp+

lemma prep_here_Some:
  assumes "prep_here ex argv = Some (j, n)"
  shows "\<exists>a. 0 \<le> j \<and> nat j < length prep_table \<and> a \<in> set (prep_table ! nat j) \<and> length a = n \<and> alias_here a argv \<and> 0 < n \<and> n \<le> length argv"
proof -
  let ?L = "concat (map (\<lambda>(j, aliases). map (\<lambda>a. (int j, length a))
        (filter (\<lambda>a. alias_here a argv \<and> (ex \<longrightarrow> length a = length argv)) aliases))
        (zip [0..<length prep_table] prep_table))"
  have "(j, n) \<in> set ?L" using assms unfolding prep_here_def by (cases ?L) (simp_all only: list.case option.inject, simp_all)
  then obtain i as a where a: "(i, as) \<in> set (zip [0..<length prep_table] prep_table)" "j = int i" "n = length a"
    "a \<in> set as" "alias_here a argv" by auto
  from a(1) have i: "i < length prep_table" "as = prep_table ! i" by (auto simp: in_set_zip)
  have "a \<noteq> []" using prep_table_words(1) i a(4) nth_mem [OF i(1)] by (auto simp: list_all_iff)
  then show ?thesis using a i by (auto simp: alias_here_def)
qed

lemma find_prep_from_spec:
  "find_prep_from i ws = (case find_index (\<lambda>k. prep_here False (drop k ws) \<noteq> None) [0..<length ws] of
     None \<Rightarrow> None
   | Some k \<Rightarrow> (case prep_here False (drop k ws) of None \<Rightarrow> None | Some (j, n) \<Rightarrow> Some (j, i + k, i + k + n - 1)))"
proof (induction ws arbitrary: i)
  case (Cons w ws)
  have u: "[0..<length (w # ws)] = 0 # map Suc [0..<length ws]" by (simp add: map_Suc_upt upt_conv_Cons del: upt_Suc)
  have f: "find_index (\<lambda>k. prep_here False (drop k (w # ws)) \<noteq> None) (map Suc [0..<length ws]) =
      find_index (\<lambda>k. prep_here False (drop k ws) \<noteq> None) [0..<length ws]"
    by (simp add: find_index_map o_def)
  show ?case
  proof (cases "prep_here False (w # ws)")
    case (Some r)
    then show ?thesis unfolding u by (cases r) simp
  next
    case None
    then show ?thesis
      using Cons.IH [of "Suc i"] unfolding u
      by (cases "find_index (\<lambda>k. prep_here False (drop k ws) \<noteq> None) [0..<length ws]") (simp_all add: f del: not_None_eq split: option.split)
  qed
qed simp

lemma find_prep_spec:
  "case db_find_prep ws of
     None \<Rightarrow> \<forall>k < length ws. prep_here False (drop k ws) = None
   | Some (j, i, l) \<Rightarrow> i \<le> l \<and> l < length ws \<and> prep_here False (drop i ws) = Some (j, l + 1 - i) \<and>
       (\<forall>k < i. prep_here False (drop k ws) = None)"
proof (cases "find_index (\<lambda>k. prep_here False (drop k ws) \<noteq> None) [0..<length ws]")
  case None
  then have "\<forall>k < length ws. prep_here False (drop k ws) = None" by (simp add: find_index_None del: not_None_eq)
  with None show ?thesis by (simp add: db_find_prep_def find_prep_from_spec)
next
  case (Some k)
  from find_index_Some [OF this] have fk: "k < length ws" "prep_here False (drop k ws) \<noteq> None"
    "\<forall>i < k. prep_here False (drop i ws) = None" by (auto simp del: not_None_eq)
  then obtain j n where k: "k < length ws" "prep_here False (drop k ws) = Some (j, n)"
    "\<forall>i < k. prep_here False (drop i ws) = None" by fastforce
  from prep_here_Some [OF k(2)] have "0 < n" "n \<le> length ws - k" by auto
  then have "k \<le> k + n - Suc 0 \<and> k + n - Suc 0 < length ws" "k + n - Suc 0 + 1 - k = n" using k(1) by linarith+
  with Some k show ?thesis by (simp add: db_find_prep_def find_prep_from_spec)
qed

subsection \<open>Objects that match\<close>

definition exactly :: "string \<Rightarrow> string list \<Rightarrow> bool" where
  "exactly name ns \<longleftrightarrow> (\<exists>n \<in> set ns. fold_case n = fold_case name)"

definition partly :: "string \<Rightarrow> string list \<Rightarrow> bool" where
  "partly name ns \<longleftrightarrow> (\<exists>n \<in> set ns. strict_prefix (fold_case name) (fold_case n))"

text \<open>What a set of candidates stands for.\<close>

definition the_match :: "objid \<Rightarrow> objid set \<Rightarrow> objid \<Rightarrow> bool" where
  "the_match none S r \<longleftrightarrow> (S = {} \<and> r = none) \<or> S = {r} \<or> ((\<exists>x \<in> S. \<exists>y \<in> S. x \<noteq> y) \<and> r = AMBIGUOUS)"

lemma prefix_take: "length xs \<le> length ys \<Longrightarrow> prefix xs ys \<longleftrightarrow> take (length xs) ys = xs"
  by (metis append_take_drop_id prefixE append_eq_conv_conj prefixI)

lemma match_name:
  assumes "c_string n" "c_string name" "mystrncasecmp n name (length name) = 0"
  shows "length n \<le> length name \<longleftrightarrow> fold_case n = fold_case name"
    "\<not> length n \<le> length name \<longleftrightarrow> strict_prefix (fold_case name) (fold_case n)"
proof -
  have t: "take (length name) (fold_case n) = fold_case name"
    using assms mystrncasecmp_0 [OF assms(1,2)] by simp
  then have p: "prefix (fold_case name) (fold_case n)" by (metis take_is_prefix)
  show 1: "length n \<le> length name \<longleftrightarrow> fold_case n = fold_case name"
    using t by (metis length_map nle_le take_all)
  with p show "\<not> length n \<le> length name \<longleftrightarrow> strict_prefix (fold_case name) (fold_case n)"
    by (auto simp: strict_prefix_def)
qed

lemma no_match_name:
  assumes "c_string n" "c_string name" "mystrncasecmp n name (length name) \<noteq> 0"
  shows "fold_case n \<noteq> fold_case name" "\<not> strict_prefix (fold_case name) (fold_case n)"
proof -
  have "take (length name) (fold_case n) \<noteq> fold_case name"
    using assms mystrncasecmp_0 [OF assms(1,2)] by simp
  then have "\<not> prefix (fold_case name) (fold_case n)" by (auto elim!: prefixE)
  then show "fold_case n \<noteq> fold_case name" "\<not> strict_prefix (fold_case name) (fold_case n)" by (auto simp: strict_prefix_def)
qed

definition real_ids :: "objid set \<Rightarrow> bool" where
  "real_ids S \<longleftrightarrow> NOTHING \<notin> S \<and> AMBIGUOUS \<notin> S \<and> FAILED_MATCH \<notin> S"

text \<open>The state after some candidates: the exact matches are at most one object, the partial ones are summed up.\<close>

definition match_state :: "objid set \<Rightarrow> objid set \<Rightarrow> match_data \<Rightarrow> bool" where
  "match_state E P d \<longleftrightarrow> (E = {} \<and> exact d = NOTHING \<or> E = {exact d}) \<and> the_match FAILED_MATCH P (partial d)"

lemma the_match_insert:
  assumes "the_match FAILED_MATCH P r" "real_ids (insert oid P)"
  shows "the_match FAILED_MATCH (insert oid P) (if r = FAILED_MATCH \<or> r = oid then oid else AMBIGUOUS)"
  using assms by (auto simp: the_match_def real_ids_def AMBIGUOUS_def FAILED_MATCH_def)

lemma match_names_spec:
  assumes "\<forall>n \<in> set ns. c_string n" "c_string name" "match_state E P d" "real_ids (insert oid (E \<union> P))"
  shows "case match_names name oid ns d of (stop, d') \<Rightarrow>
    if stop then exactly name ns \<and> (\<exists>x \<in> E. x \<noteq> oid)
    else match_state (if exactly name ns then insert oid E else E) (if partly name ns then insert oid P else P) d'"
  using assms
proof (induction ns arbitrary: E P d)
  case Nil
  then show ?case by (simp add: exactly_def partly_def)
next
  case (Cons n ns)
  have c: "c_string n" using Cons.prems(1) by simp
  note IH = Cons.IH [OF _ Cons.prems(2)]
  show ?case
  proof (cases "mystrncasecmp n name (length name) = 0")
    case False
    then have "exactly name (n # ns) = exactly name ns" "partly name (n # ns) = partly name ns"
      using no_match_name [OF c Cons.prems(2) False] by (auto simp: exactly_def partly_def)
    then show ?thesis using IH [OF _ Cons.prems(3,4)] Cons.prems(1) False
      by (cases "match_names name oid ns d") (auto split: if_splits)
  next
    case True
    note m = match_name [OF c Cons.prems(2) True]
    show ?thesis
    proof (cases "length n \<le> length name")
      case le: True
      then have e: "exactly name (n # ns)" "partly name (n # ns) = partly name ns"
        using m by (auto simp: exactly_def partly_def)
      show ?thesis
      proof (cases "exact d = NOTHING \<or> exact d = oid")
        case True
        then have E: "E = {} \<or> E = {oid}" using Cons.prems(3,4) by (auto simp: match_state_def real_ids_def)
        have "match_state {oid} P (d\<lparr>exact := oid\<rparr>)" using Cons.prems(3) by (simp add: match_state_def)
        from IH [OF _ this] Cons.prems(1,4) have "case match_names name oid ns (d\<lparr>exact := oid\<rparr>) of (stop, d') \<Rightarrow>
          if stop then exactly name ns \<and> (\<exists>x \<in> {oid}. x \<noteq> oid)
          else match_state (if exactly name ns then insert oid {oid} else {oid}) (if partly name ns then insert oid P else P) d'"
          by (auto simp: real_ids_def)
        with E show ?thesis
          using e \<open>mystrncasecmp n name (length name) = 0\<close> le True
          by (elim disjE; cases "match_names name oid ns (d\<lparr>exact := oid\<rparr>)") (auto split: if_splits)
      next
        case False
        then have "exact d \<in> E" "exact d \<noteq> oid" using Cons.prems(3) by (auto simp: match_state_def)
        then show ?thesis using e \<open>mystrncasecmp n name (length name) = 0\<close> le False by auto
      qed
    next
      case gt: False
      then have e: "exactly name (n # ns) = exactly name ns" "partly name (n # ns)"
        using m by (auto simp: exactly_def partly_def)
      let ?d = "d\<lparr>partial := if partial d = FAILED_MATCH \<or> partial d = oid then oid else AMBIGUOUS\<rparr>"
      have "match_state E (insert oid P) ?d"
        using Cons.prems(3,4) the_match_insert [of P "partial d" oid] by (simp add: match_state_def real_ids_def)
      from IH [OF _ this] Cons.prems(1,4) show ?thesis
        using e \<open>mystrncasecmp n name (length name) = 0\<close> gt by (auto split: if_splits)
    qed
  qed
qed

definition names_in :: "db \<Rightarrow> objid \<Rightarrow> string list" where
  "names_in db oid = the (names_of_object db oid)"

lemma find_property_total:
  assumes ok: "props_ok db" and "valid db oid" and c: "c_string name" and b: "find_bi name = None"
  shows "\<exists>r. db_find_property db oid name True = Some r"
proof (cases "find_index (\<lambda>s. fold_case (pd_name (snd s)) = fold_case name) (slots db oid)")
  case None
  then show ?thesis using b find_slot_name [OF ok c, of oid] by (simp add: db_find_property_def)
next
  case (Some i)
  then have "i < length (slots db oid)" using find_index_Some by blast
  from slot_value_spec [OF ok this] Some show ?thesis
    using b find_slot_name [OF ok c, of oid] by (auto simp: db_find_property_def)
qed

lemma names_total: "props_ok db \<Longrightarrow> valid db oid \<Longrightarrow> names_of_object db oid = Some (names_in db oid)"
proof -
  assume a: "props_ok db" "valid db oid"
  have "c_string ''aliases''" "find_bi ''aliases'' = None" by (simp add: c_string_def, code_simp)
  from find_property_total [OF a this] obtain h v where "db_find_property db oid ''aliases'' True = Some (h, v)" by auto
  then have "aliases db oid \<noteq> None" by (auto simp: aliases_def split: option.split var.split)
  then have "names_of_object db oid \<noteq> None"
    using a(2) by (auto simp: names_of_object_def db_object_name_def valid_heap)
  then show ?thesis by (auto simp: names_in_def)
qed

abbreviation exact_in :: "db \<Rightarrow> string \<Rightarrow> objid list \<Rightarrow> objid set" where
  "exact_in db name cs \<equiv> {x \<in> set cs. exactly name (names_in db x)}"

abbreviation partial_in :: "db \<Rightarrow> string \<Rightarrow> objid list \<Rightarrow> objid set" where
  "partial_in db name cs \<equiv> {x \<in> set cs. partly name (names_in db x)}"

definition two :: "objid set \<Rightarrow> bool" where
  "two S \<longleftrightarrow> (\<exists>x \<in> S. \<exists>y \<in> S. x \<noteq> y)"

lemma two_mono: "two S \<Longrightarrow> S \<subseteq> T \<Longrightarrow> two T"
  by (auto simp: two_def)

lemma match_all_spec:
  assumes ok: "props_ok db" and c: "c_string name"
    and cs: "\<forall>x \<in> set cs. valid db x \<and> (\<forall>n \<in> set (names_in db x). c_string n)"
    and "match_state E P d" "real_ids (set cs \<union> E \<union> P)"
  shows "\<exists>stop d'. match_all db name cs d = Some (stop, d') \<and>
    (if stop then two (E \<union> exact_in db name cs) else match_state (E \<union> exact_in db name cs) (P \<union> partial_in db name cs) d')"
  using assms(3-5)
proof (induction cs arbitrary: E P d)
  case Nil
  then show ?case by (intro exI [of _ False] exI [of _ d]) simp
next
  case (Cons x cs)
  let ?ns = "names_in db x"
  let ?E = "if exactly name ?ns then insert x E else E" and ?P = "if partly name ?ns then insert x P else P"
  have n: "names_of_object db x = Some ?ns" using names_total [OF ok] Cons.prems(1) by simp
  have rx: "real_ids (insert x (E \<union> P))" using Cons.prems(3) by (auto simp: real_ids_def)
  obtain stop d1 where d1: "match_names name x ?ns d = (stop, d1)" by fastforce
  have m: "if stop then exactly name ?ns \<and> (\<exists>y \<in> E. y \<noteq> x) else match_state ?E ?P d1"
    using match_names_spec [OF _ c Cons.prems(2) rx, of ?ns] Cons.prems(1) d1 by simp
  show ?case
  proof (cases stop)
    case True
    with m have "two (E \<union> exact_in db name (x # cs))" by (auto simp: two_def)
    then show ?thesis using n d1 True by (intro exI [of _ True] exI [of _ d1]) simp
  next
    case False
    with m have "match_state ?E ?P d1" by simp
    moreover have "real_ids (set cs \<union> ?E \<union> ?P)" using Cons.prems(3) by (auto simp: real_ids_def)
    ultimately obtain stop' d' where d': "match_all db name cs d1 = Some (stop', d')"
      "if stop' then two (?E \<union> exact_in db name cs) else match_state (?E \<union> exact_in db name cs) (?P \<union> partial_in db name cs) d'"
      using Cons.IH [of ?E ?P d1] Cons.prems(1) by auto
    have u: "?E \<union> exact_in db name cs = E \<union> exact_in db name (x # cs)" "?P \<union> partial_in db name cs = P \<union> partial_in db name (x # cs)"
      by auto
    have "match_all db name (x # cs) d = Some (stop', d')" using n d1 False d'(1) by simp
    with d'(2) show ?thesis unfolding u by blast
  qed
qed

text \<open>The things in reach of a player: what it carries and what is in its location.\<close>

definition in_reach :: "db \<Rightarrow> objid \<Rightarrow> objid list" where
  "in_reach db player = K_of Contents db player @
    (case heap db player of None \<Rightarrow> [] | Some a \<Rightarrow> if valid db (o_location a) then K_of Contents db (o_location a) else [])"

lemma real_valid: "(\<And>x. x \<in> S \<Longrightarrow> valid db x) \<Longrightarrow> real_ids S"
proof -
  assume v: "\<And>x. x \<in> S \<Longrightarrow> valid db x"
  have "0 \<le> x" if "x \<in> S" for x using v [OF that] heap_Some_range by (auto simp: valid_heap)
  then show ?thesis by (force simp: real_ids_def special_objids)
qed

lemma real_neq: "real_ids S \<Longrightarrow> x \<in> S \<Longrightarrow> x \<noteq> NOTHING"
  by (auto simp: real_ids_def)

lemma match_contents_spec:
  assumes ok: "props_ok db" and v: "valid db player" and c: "c_string name"
    and names: "\<forall>x \<in> set (in_reach db player). \<forall>n \<in> set (names_in db x). c_string n"
  shows "\<exists>r. match_contents db player name = Some r \<and>
    (let E = exact_in db name (in_reach db player) in
     if E = {} then the_match FAILED_MATCH (partial_in db name (in_reach db player)) r else the_match FAILED_MATCH E r)"
proof -
  note H = objects_okD [OF props_okD(1) [OF ok], of Contents]
  obtain a where a: "heap db player = Some a" using v by (auto simp: valid_heap)
  let ?loc = "o_location a" and ?c1 = "K_of Contents db player"
  let ?c2 = "if valid db ?loc then K_of Contents db ?loc else []"
  have r: "in_reach db player = ?c1 @ ?c2" using a by (simp add: in_reach_def)
  have kv: "valid db x" if "x \<in> set (K_of Contents db p)" "valid db p" for x p
    using that hier_lists(2) [OF H that(2)] by (auto simp: members_def valid_heap)
  have v1: "\<forall>x \<in> set ?c1. valid db x" and v2: "\<forall>x \<in> set ?c2. valid db x" using kv v by auto
  let ?d = "\<lparr>exact = NOTHING, partial = FAILED_MATCH\<rparr>"
  have s0: "match_state {} {} ?d" by (simp add: match_state_def the_match_def)
  obtain s1 d1 where d1: "match_in db name player ?d = Some (s1, d1)"
    "if s1 then two (exact_in db name ?c1) else match_state (exact_in db name ?c1) (partial_in db name ?c1) d1"
  proof -
    have x: "\<exists>stop d'. match_all db name ?c1 ?d = Some (stop, d') \<and>
      (if stop then two ({} \<union> exact_in db name ?c1) else match_state ({} \<union> exact_in db name ?c1) ({} \<union> partial_in db name ?c1) d')"
      by (rule match_all_spec [OF ok c _ s0]) (use v1 names r real_valid [of "set ?c1" db] in auto)
    have "match_in db name player ?d = match_all db name ?c1 ?d" using v hier_lists(3) [OF H v] by (simp add: match_in_def)
    moreover from x obtain s f where "match_all db name ?c1 ?d = Some (s, f)"
      "if s then two (exact_in db name ?c1) else match_state (exact_in db name ?c1) (partial_in db name ?c1) f"
      unfolding Un_empty_left by blast
    ultimately show thesis by (intro that [of s f]) (simp_all only:)
  qed
  let ?E = "exact_in db name (?c1 @ ?c2)" and ?P = "partial_in db name (?c1 @ ?c2)"
  have e: "?E = exact_in db name ?c1 \<union> exact_in db name ?c2" "?P = partial_in db name ?c1 \<union> partial_in db name ?c2" by auto
  have loc: "db_object_location db player = Some ?loc" using a by (simp add: db_object_location_def)
  have re: "real_ids ?E"
  proof (rule real_valid)
    fix x assume "x \<in> ?E"
    then have "x \<in> set ?c1 \<or> x \<in> set ?c2" by (simp only: mem_Collect_eq set_append Un_iff)
    then show "valid db x" using v1 v2 by blast
  qed
  have amb: "\<exists>r. match_contents db player name = Some r \<and> (let E = ?E in if E = {} then the_match FAILED_MATCH ?P r else the_match FAILED_MATCH E r)"
    if "match_contents db player name = Some AMBIGUOUS" "two ?E"
    using that by (auto simp: Let_def two_def the_match_def)
  show ?thesis
  proof (cases s1)
    case True
    then have "two ?E" using d1(2) two_mono [of "exact_in db name ?c1" ?E] by (auto simp: e)
    moreover have "match_contents db player name = Some AMBIGUOUS" using v loc d1(1) True by (simp add: match_contents_def)
    ultimately show ?thesis unfolding r using amb by blast
  next
    case False
    then have s1: "match_state (exact_in db name ?c1) (partial_in db name ?c1) d1" using d1(2) by simp
    obtain s2 d2 where d2: "match_in db name ?loc d1 = Some (s2, d2)"
      "if s2 then two ?E else match_state ?E ?P d2"
    proof (cases "valid db ?loc")
      case True
      have x: "\<exists>stop d'. match_all db name ?c2 d1 = Some (stop, d') \<and>
        (if stop then two (exact_in db name ?c1 \<union> exact_in db name ?c2)
         else match_state (exact_in db name ?c1 \<union> exact_in db name ?c2) (partial_in db name ?c1 \<union> partial_in db name ?c2) d')"
      proof (rule match_all_spec [OF ok c _ s1])
        show "\<forall>x \<in> set ?c2. valid db x \<and> (\<forall>n \<in> set (names_in db x). c_string n)" using v2 names r by auto
        show "real_ids (set ?c2 \<union> exact_in db name ?c1 \<union> partial_in db name ?c1)"
          by (rule real_valid [of _ db]) (use v1 v2 in blast)
      qed
      have "match_in db name ?loc d1 = match_all db name ?c2 d1" using True hier_lists(3) [OF H True] by (simp add: match_in_def)
      moreover from x obtain s f where "match_all db name ?c2 d1 = Some (s, f)"
        "if s then two ?E else match_state ?E ?P f"
        unfolding e by blast
      ultimately show thesis by (intro that [of s f]) (simp_all only:)
    next
      case False
      then show thesis using that s1 e by (simp add: match_in_def)
    qed
    show ?thesis
    proof (cases s2)
      case True
      then have "two ?E" using d2(2) by simp
      moreover have "match_contents db player name = Some AMBIGUOUS"
        using v loc d1(1) False d2(1) True by (simp add: match_contents_def)
      ultimately show ?thesis unfolding r using amb by blast
    next
      case s2: False
      then have m: "match_state ?E ?P d2" using d2(2) by simp
      have res: "match_contents db player name = Some (if exact d2 \<noteq> NOTHING then exact d2 else partial d2)"
        using v loc d1(1) False d2(1) s2 by (simp add: match_contents_def)
      show ?thesis
      proof (cases "?E = {}")
        case True
        then have "exact d2 = NOTHING" using m unfolding match_state_def by blast
        then have "match_contents db player name = Some (partial d2)" using res by simp
        with True m show ?thesis unfolding r Let_def match_state_def if_P [OF True] by blast
      next
        case False
        then have eq: "?E = {exact d2}" using m unfolding match_state_def by blast
        have "exact d2 \<in> ?E" unfolding eq by (rule singletonI)
        then have "exact d2 \<noteq> NOTHING" using re real_neq by blast
        then have "match_contents db player name = Some (exact d2)" using res by simp
        moreover have "the_match FAILED_MATCH ?E (exact d2)" unfolding the_match_def using eq by (intro disjI2 disjI1)
        ultimately show ?thesis unfolding r Let_def if_not_P [OF False] by blast
      qed
    qed
  qed
qed


subsection \<open>Properties\<close>

text \<open>C33: words survive quoting: any words, with spaces, quotes and backslashes in them, written between double
  quotes with a backslash before each quote and backslash, come back from \<open>parse_into_words\<close> unchanged.\<close>

theorem words_roundtrip:
  "parse_into_words (build_string (map quote_word ws)) = ws"
proof -
  have "skip_spaces (build_string (map quote_word ws)) = build_string (map quote_word ws)"
    by (cases ws rule: build_string.cases) (simp_all add: skip_spaces_def quote_word_def)
  then show ?thesis using words_quoted [of ws] by (simp add: parse_into_words_def)
qed

text \<open>C34: a name that is not a number or a pronoun is looked up among the things the player carries and those
  in the player's location: if any has the name or alias exactly (up to case), the one that has, or the
  answer that it is ambiguous if there are several; otherwise the same among those of which a name or alias begins with
  it; and failure if there is none. Numbers, the empty name, and the two pronouns stand for themselves.\<close>

theorem match_object_finds:
  assumes "props_ok db" "valid db player" "c_string name"
    and "\<forall>x \<in> set (in_reach db player). \<forall>n \<in> set (names_in db x). c_string n"
  shows "\<exists>r. match_object db player name = Some r \<and>
    (if name = [] then r = NOTHING
     else if hd name = CHR ''#'' then r = (case strtoimax (tl name) of (n, p) \<Rightarrow> if p = [] \<and> valid db n then n else FAILED_MATCH)
     else if fold_case name = fold_case ''me'' then r = player
     else if fold_case name = fold_case ''here'' then Some r = db_object_location db player
     else let E = exact_in db name (in_reach db player) in
       if E = {} then the_match FAILED_MATCH (partial_in db name (in_reach db player)) r else the_match FAILED_MATCH E r)"
proof -
  have c: "c_string ''me''" "c_string ''here''" by (simp_all add: c_string_def)
  note cmp = mystrcasecmp_0 [OF assms(3) c(1)] mystrcasecmp_0 [OF assms(3) c(2)]
  show ?thesis
  proof (cases "name = [] \<or> hd name = CHR ''#''")
    case True
    then show ?thesis by (cases "strtoimax (tl name)") (auto simp: match_object_def)
  next
    case False
    obtain a where "heap db player = Some a" using assms(2) by (auto simp: valid_heap)
    then obtain l where l: "db_object_location db player = Some l" by (simp add: db_object_location_def)
    show ?thesis
    proof (cases "fold_case name = fold_case ''me'' \<or> fold_case name = fold_case ''here''")
      case True
      then show ?thesis using False assms(2) l cmp by (auto simp: match_object_def simp del: list.map)
    next
      case no: False
      obtain r where "match_contents db player name = Some r"
        "let E = exact_in db name (in_reach db player) in
         if E = {} then the_match FAILED_MATCH (partial_in db name (in_reach db player)) r else the_match FAILED_MATCH E r"
        using match_contents_spec [OF assms] by blast
      moreover have "match_object db player name = match_contents db player name"
        using False assms(2) no cmp by (simp add: match_object_def)
      ultimately show ?thesis using False no by simp
    qed
  qed
qed

theorem match_object_finds_witness:
  "\<exists>oid d. db_create_object 2 empty_db = Some (oid, d) \<and> match_object d oid ''foo'' = Some FAILED_MATCH \<and> match_object d oid ''ME'' = Some oid"
proof -
  obtain oid d where d: "db_create_object 2 empty_db = Some (oid, d)" "props_ok d" "heap d = [oid \<mapsto> fresh_object oid 2]"
    using one_object by blast
  have v: "valid d oid" using d(3) by (simp add: valid_heap)
  have "listing Contents d oid = Some []" using d(3) by (simp add: listing_def fresh_object_def chain.simps)
  moreover have "\<not> valid d NOTHING" by (simp add: valid_def)
  ultimately have r: "in_reach d oid = []" using d(3) by (simp add: in_reach_def K_of_def fresh_object_def)
  have m: "fold_case ''foo'' \<noteq> fold_case ''me''" "fold_case ''foo'' \<noteq> fold_case ''here''" "fold_case ''ME'' = fold_case ''me''"
    by code_simp+
  have c: "c_string ''foo''" "c_string ''ME''" by (simp_all add: c_string_def)
  have nr: "\<forall>x \<in> set (in_reach d oid). \<forall>n \<in> set (names_in d x). c_string n" by (simp add: r)
  have "match_object d oid ''foo'' = Some FAILED_MATCH"
    using match_object_finds [OF d(2) v c(1) nr] m(1,2) r by (simp add: the_match_def del: list.map)
  moreover have "match_object d oid ''ME'' = Some oid"
    using match_object_finds [OF d(2) v c(2) nr] m(3) by (simp del: list.map)
  ultimately show ?thesis using d(1) by blast
qed

lemma slice_parts:
  "slice (Suc (length ds)) (length ps) (v # ds @ ps @ us) = ps"
  "slice (Suc (length ds + length ps)) (length us) (v # ds @ ps @ us) = us"
  "slice (Suc 0) (length ds) (v # ds @ ps @ us) = ds"
  by (simp_all add: slice_def)

lemma find_prep_or_empty: "(if length (v # ws) > 1 then db_find_prep ws else None) = db_find_prep ws"
  by (cases ws) (simp_all add: db_find_prep_def)

definition command_groups :: "db \<Rightarrow> string \<Rightarrow> objid \<Rightarrow> parsed_command \<Rightarrow> bool" where
  "command_groups db command user pc \<longleftrightarrow>
    (\<exists>ds ps us. parse_into_words (fst (command_buffer command)) = pc_verb pc # ds @ ps @ us \<and>
    pc_args pc = map VStr (ds @ ps @ us) \<and> pc_argstr pc = snd (command_buffer command) \<and>
    pc_dobjstr pc = build_string ds \<and> pc_prepstr pc = build_string ps \<and> pc_iobjstr pc = build_string us \<and>
    (if pc_prep pc = PREP_NONE then ps = [] \<and> us = [] else ps \<noteq> [] \<and> prep_here False (ps @ us) = Some (pc_prep pc, length ps)) \<and>
    (\<forall>k < length ds. prep_here False (drop k (ds @ ps @ us)) = None) \<and>
    Some (pc_dobj pc) = (if ds = [] then Some NOTHING else match_object db user (build_string ds)) \<and>
    Some (pc_iobj pc) = (if pc_prep pc = PREP_NONE then Some NOTHING else match_object db user (build_string us)))"

lemma command_without_prep:
  assumes "parse_command db command user = Some (Some pc)" "command_buffer command = (buf, argstr)"
    "parse_into_words buf = v # ws" "db_find_prep ws = None"
  shows "command_groups db command user pc"
proof -
  have None: "db_find_prep ws = None" and b: "command_buffer command = (buf, argstr)" and w: "parse_into_words buf = v # ws"
    by (rule assms)+
  obtain dobj where d: "(if ws = [] then Some NOTHING else match_object db user (build_string ws)) = Some dobj"
    "pc = \<lparr>pc_verb = v, pc_argstr = argstr, pc_args = map VStr ws, pc_dobjstr = build_string ws, pc_dobj = dobj,
      pc_prepstr = [], pc_prep = PREP_NONE, pc_iobjstr = [], pc_iobj = NOTHING\<rparr>"
    using assms(1) find_prep_or_empty [of v ws] None slice_parts(3) [where ds=ws and ps="[]" and us="[]" and v=v]
    by (cases ws) (auto simp: parse_command_def b w Let_def split: Option.bind_splits)
  have "\<forall>k < length ws. prep_here False (drop k ws) = None" using find_prep_spec [of ws] None by simp
  with d b w show ?thesis unfolding command_groups_def by (intro exI [of _ ws] exI [of _ "[]"]) simp
qed

lemma command_with_prep:
  assumes "parse_command db command user = Some (Some pc)" "command_buffer command = (buf, argstr)"
    "parse_into_words buf = v # ws" "db_find_prep ws = Some (j, i, l)"
  shows "command_groups db command user pc"
proof -
  have Some: "db_find_prep ws = Some (j, i, l)" and b: "command_buffer command = (buf, argstr)" and w: "parse_into_words buf = v # ws"
    by (rule assms)+
  have s: "i \<le> l" "l < length ws" "prep_here False (drop i ws) = Some (j, l + 1 - i)"
    "\<forall>k < i. prep_here False (drop k ws) = None"
    using find_prep_spec [of ws] Some by simp_all
  define ds ps us where "ds = take i ws" and "ps = take (l + 1 - i) (drop i ws)" and "us = drop (l + 1) ws"
  have "drop i ws = ps @ us"
    using s(1) append_take_drop_id [of "l + 1 - i" "drop i ws"] by (simp add: ps_def us_def add.commute)
  then have ws: "ws = ds @ ps @ us" using append_take_drop_id [of i ws] by (simp add: ds_def)
  have len: "length ds = i" "length ps = l + 1 - i" "length us = length ws - (l + 1)"
    using s(1,2) by (simp_all add: ds_def ps_def us_def)
  have jn: "j \<noteq> PREP_NONE" using prep_here_Some [OF s(3)] by (auto simp: PREP_NONE_def)
  have sl: "slice (i + 1) (l + 1 - (i + 1) + 1) (v # ws) = ps" "slice (l + 1 + 1) (length (v # ws) - (l + 1 + 1)) (v # ws) = us"
    "slice 1 (i + 1 - 1) (v # ws) = ds"
    using slice_parts(1) [where ds=ds and ps=ps and v=v and us=us] slice_parts(2) [where ds=ds and ps=ps and v=v and us=us]
      slice_parts(3) [where ds=ds and ps=ps and v=v and us=us] s(1,2) len by (simp_all add: ws [symmetric] Suc_diff_le)
  obtain dobj iobj where d: "(if ds = [] then Some NOTHING else match_object db user (build_string ds)) = Some dobj"
    "match_object db user (build_string us) = Some iobj"
    "pc = \<lparr>pc_verb = v, pc_argstr = argstr, pc_args = map VStr ws, pc_dobjstr = build_string ds, pc_dobj = dobj,
      pc_prepstr = build_string ps, pc_prep = j, pc_iobjstr = build_string us, pc_iobj = iobj\<rparr>"
  proof -
    have e: "i = 0 \<longleftrightarrow> ds = []" using len(1) by auto
    have "ws \<noteq> []" using s(2) by auto
    then have "parse_command db command user = (do {
        iobj \<leftarrow> match_object db user (build_string us);
        dobj \<leftarrow> (if ds = [] then Some NOTHING else match_object db user (build_string ds));
        Some (Some \<lparr>pc_verb = v, pc_argstr = argstr, pc_args = map VStr ws, pc_dobjstr = (if ds = [] then [] else build_string ds), pc_dobj = dobj,
      pc_prepstr = build_string ps, pc_prep = j, pc_iobjstr = build_string us, pc_iobj = iobj\<rparr>)
      })"
      using sl jn Some e by (simp add: parse_command_def b w Let_def)
    then show thesis using assms(1) that by (cases "ds = []") (auto split: Option.bind_splits)
  qed
  have "prep_here False (ps @ us) = Some (j, length ps)" "ps \<noteq> []"
    using s(1,3) len(2) \<open>drop i ws = ps @ us\<close> by auto
  with d s(4) b w ws len(1) jn show ?thesis unfolding command_groups_def by (intro exI [of _ ds] exI [of _ ps] exI [of _ us]) simp
qed

text \<open>C35: a command is its verb and three groups of words: those before the leftmost preposition, which
  name the direct object, the preposition, and the rest, which names the indirect object; without a
  preposition all words belong to the direct object. The texts of the result are these groups, and the objects
  are what \<open>match_object\<close> finds for them.\<close>

theorem command_parsed:
  assumes "parse_command db command user = Some (Some pc)"
  shows "\<exists>ds ps us. parse_into_words (fst (command_buffer command)) = pc_verb pc # ds @ ps @ us \<and>
    pc_args pc = map VStr (ds @ ps @ us) \<and> pc_argstr pc = snd (command_buffer command) \<and>
    pc_dobjstr pc = build_string ds \<and> pc_prepstr pc = build_string ps \<and> pc_iobjstr pc = build_string us \<and>
    (if pc_prep pc = PREP_NONE then ps = [] \<and> us = [] else ps \<noteq> [] \<and> prep_here False (ps @ us) = Some (pc_prep pc, length ps)) \<and>
    (\<forall>k < length ds. prep_here False (drop k (ds @ ps @ us)) = None) \<and>
    Some (pc_dobj pc) = (if ds = [] then Some NOTHING else match_object db user (build_string ds)) \<and>
    Some (pc_iobj pc) = (if pc_prep pc = PREP_NONE then Some NOTHING else match_object db user (build_string us))"
proof -
  obtain buf argstr where b: "command_buffer command = (buf, argstr)" by fastforce
  obtain v ws where w: "parse_into_words buf = v # ws"
    using assms b by (cases "parse_into_words buf") (auto simp: parse_command_def Let_def)
  have "command_groups db command user pc"
    using command_without_prep [OF assms b w] command_with_prep [OF assms b w] by (cases "db_find_prep ws") auto
  then show ?thesis by (simp only: command_groups_def)
qed

theorem command_parsed_witness:
  "\<exists>pc ds ps us. parse_command empty_db ''put foo in box'' 7 = Some (Some pc) \<and>
    [''put'', ''foo'', ''in'', ''box''] = pc_verb pc # ds @ ps @ us \<and> ps \<noteq> [] \<and> pc_iobjstr pc = build_string us"
proof -
  have m: "match_object empty_db 7 ''foo'' = Some FAILED_MATCH" "match_object empty_db 7 ''box'' = Some FAILED_MATCH"
    by (auto simp: match_object_def valid_def)
  have b: "command_buffer ''put foo in box'' = (''put foo in box'', ''foo in box'')"
    and w: "parse_into_words ''put foo in box'' = [''put'', ''foo'', ''in'', ''box'']"
    and p: "db_find_prep [''foo'', ''in'', ''box''] = Some (3, 1, 1)" by code_simp+
  obtain pc where pc: "parse_command empty_db ''put foo in box'' 7 = Some (Some pc)" "pc_prep pc = 3"
    using w p m by (auto simp: parse_command_def b Let_def slice_def PREP_NONE_def)
  have "pc_prep pc \<noteq> PREP_NONE" using pc(2) by (simp add: PREP_NONE_def)
  with command_parsed [OF pc(1)] w b pc(1) show ?thesis by auto
qed

end
