(* ===== verification/Ast.thy ===== *)
theory Ast
  imports Program
begin

text \<open>
  Syntax trees (\<open>ast.h\<close>). The linked lists of the C structures are lists, a null pointer to an expression is
  \<open>None\<close>, and the fields that the code generator uses for its own labels are part of its state instead. An id
  is the slot of a variable; statements without one have -1.
\<close>

datatype arg_kind = ARG_NORMAL | ARG_SPLICE

datatype scatter_kind = SCAT_REQUIRED | SCAT_OPTIONAL | SCAT_REST

datatype binary_kind = EXPR_PROP | EXPR_INDEX
  | EXPR_PLUS | EXPR_MINUS | EXPR_TIMES | EXPR_DIVIDE | EXPR_MOD | EXPR_EXP
  | EXPR_AND | EXPR_OR
  | EXPR_EQ | EXPR_NE | EXPR_LT | EXPR_LE | EXPR_GT | EXPR_GE
  | EXPR_IN | EXPR_ASGN

datatype expr =
    EXPR_VAR var
  | EXPR_ID nat
  | EXPR_BINARY binary_kind expr expr
  | EXPR_NEGATE expr
  | EXPR_NOT expr
  | EXPR_VERB expr expr "arg list"
  | EXPR_RANGE expr expr expr
  | EXPR_CALL nat "arg list"
  | EXPR_LIST "arg list"
  | EXPR_COND expr expr expr
  | EXPR_CATCH expr "arg list" "expr option"
  | EXPR_LENGTH
  | EXPR_SCATTER "scatter list"
and arg = Arg arg_kind expr
and scatter = Scatter scatter_kind nat "expr option"

datatype stmt =
    STMT_COND "cond_arm list" "stmt list"
  | STMT_LIST int expr "stmt list"
  | STMT_RANGE int expr expr "stmt list"
  | STMT_WHILE int expr "stmt list"
  | STMT_FORK int expr "stmt list"
  | STMT_EXPR expr
  | STMT_RETURN "expr option"
  | STMT_TRY_EXCEPT "stmt list" "except_arm list"
  | STMT_TRY_FINALLY "stmt list" "stmt list"
  | STMT_BREAK int
  | STMT_CONTINUE int
and cond_arm = Cond_Arm expr "stmt list"
and except_arm = Except_Arm int "arg list" "stmt list"

end
