(* ===== verification/Opcodes.thy ===== *)
theory Opcodes
  imports Ast
begin

text \<open>
  The instructions of the virtual machine (\<open>opcode.h\<close>). The enumeration of the source gives an instruction its
  number by its position; the instructions for the first 32 variables and for small integers are ranges of
  numbers, here constructors with an argument.
\<close>

datatype opcode =
    OP_IF | OP_WHILE | OP_EIF | OP_FORK | OP_FORK_WITH_ID | OP_FOR_LIST | OP_FOR_RANGE
  | OP_INDEXSET | OP_PUSH_GET_PROP | OP_GET_PROP | OP_CALL_VERB | OP_PUT_PROP
  | OP_BI_FUNC_CALL | OP_IF_QUES | OP_REF | OP_RANGE_REF
  | OP_MAKE_SINGLETON_LIST | OP_CHECK_LIST_FOR_SPLICE
  | OP_MULT | OP_DIV | OP_MOD | OP_ADD | OP_MINUS
  | OP_EQ | OP_NE | OP_LT | OP_LE | OP_GT | OP_GE | OP_IN
  | OP_AND | OP_OR | OP_UNARY_MINUS | OP_NOT
  | OP_PUT nat | OP_G_PUT | OP_PUSH nat | OP_G_PUSH
  | OP_IMM | OP_MAKE_EMPTY_LIST | OP_LIST_ADD_TAIL | OP_LIST_APPEND
  | OP_PUSH_REF | OP_PUT_TEMP | OP_PUSH_TEMP
  | OP_JUMP | OP_RETURN | OP_RETURN0 | OP_DONE | OP_POP
  | OP_EXTENDED
  | OPTIM_NUM int

datatype extended_opcode =
    EOP_RANGESET | EOP_LENGTH
  | EOP_PUSH_LABEL | EOP_END_CATCH | EOP_END_EXCEPT | EOP_END_FINALLY | EOP_CONTINUE
  | EOP_CATCH | EOP_TRY_EXCEPT | EOP_TRY_FINALLY
  | EOP_WHILE_ID | EOP_EXIT | EOP_EXIT_ID | EOP_SCATTER | EOP_EXP

definition NUM_READY_VARS :: nat where "NUM_READY_VARS = 32"
definition OPTIM_NUM_START :: nat where "OPTIM_NUM_START = 113"
definition OPTIM_NUM_LOW :: int where "OPTIM_NUM_LOW = -10"
definition Last_Opcode :: nat where "Last_Opcode = 255"

definition OPTIM_NUM_HI :: int where
  "OPTIM_NUM_HI = int Last_Opcode - int OPTIM_NUM_START + OPTIM_NUM_LOW"

definition in_optim_num_range :: "int \<Rightarrow> bool" where
  "in_optim_num_range i \<longleftrightarrow> OPTIM_NUM_LOW \<le> i \<and> i \<le> OPTIM_NUM_HI"

lemmas opcode_consts = NUM_READY_VARS_def OPTIM_NUM_START_def OPTIM_NUM_LOW_def Last_Opcode_def OPTIM_NUM_HI_def

text \<open>The instructions before the range for the first assignments, and those between the ranges.\<close>

definition ops_before_put :: "opcode list" where
  "ops_before_put = [OP_IF, OP_WHILE, OP_EIF, OP_FORK, OP_FORK_WITH_ID, OP_FOR_LIST, OP_FOR_RANGE,
    OP_INDEXSET, OP_PUSH_GET_PROP, OP_GET_PROP, OP_CALL_VERB, OP_PUT_PROP,
    OP_BI_FUNC_CALL, OP_IF_QUES, OP_REF, OP_RANGE_REF,
    OP_MAKE_SINGLETON_LIST, OP_CHECK_LIST_FOR_SPLICE,
    OP_MULT, OP_DIV, OP_MOD, OP_ADD, OP_MINUS,
    OP_EQ, OP_NE, OP_LT, OP_LE, OP_GT, OP_GE, OP_IN,
    OP_AND, OP_OR, OP_UNARY_MINUS, OP_NOT]"

definition ops_after_push :: "opcode list" where
  "ops_after_push = [OP_IMM, OP_MAKE_EMPTY_LIST, OP_LIST_ADD_TAIL, OP_LIST_APPEND,
    OP_PUSH_REF, OP_PUT_TEMP, OP_PUSH_TEMP,
    OP_JUMP, OP_RETURN, OP_RETURN0, OP_DONE, OP_POP, OP_EXTENDED]"

definition all_ops :: "opcode list" where
  "all_ops = ops_before_put @ map OP_PUT [0..<NUM_READY_VARS] @ [OP_G_PUT] @ map OP_PUSH [0..<NUM_READY_VARS] @ [OP_G_PUSH] @
    ops_after_push @ map OPTIM_NUM [OPTIM_NUM_LOW..OPTIM_NUM_HI]"

definition all_eops :: "extended_opcode list" where
  "all_eops = [EOP_RANGESET, EOP_LENGTH, EOP_PUSH_LABEL, EOP_END_CATCH, EOP_END_EXCEPT, EOP_END_FINALLY,
    EOP_CONTINUE, EOP_CATCH, EOP_TRY_EXCEPT, EOP_TRY_FINALLY, EOP_WHILE_ID, EOP_EXIT, EOP_EXIT_ID,
    EOP_SCATTER, EOP_EXP]"

text \<open>The number of an instruction and the instruction of a number.\<close>

fun index_of :: "'a \<Rightarrow> 'a list \<Rightarrow> nat" where
  "index_of x [] = 0"
| "index_of x (y # ys) = (if x = y then 0 else Suc (index_of x ys))"

definition op_number :: "opcode \<Rightarrow> nat" where
  "op_number op = index_of op all_ops"

definition opcode_of :: "nat \<Rightarrow> opcode option" where
  "opcode_of n = (if n < length all_ops then Some (all_ops ! n) else None)"

definition eop_number :: "extended_opcode \<Rightarrow> nat" where
  "eop_number op = index_of op all_eops"

definition eop_of :: "nat \<Rightarrow> extended_opcode option" where
  "eop_of n = (if n < length all_eops then Some (all_eops ! n) else None)"

text \<open>Whether an instruction costs a tick.\<close>

definition count_tick :: "opcode \<Rightarrow> bool" where
  "count_tick op \<longleftrightarrow> op_number op \<le> op_number OP_G_PUT"

definition count_eop_tick :: "extended_opcode \<Rightarrow> bool" where
  "count_eop_tick op \<longleftrightarrow> eop_number EOP_CATCH \<le> eop_number op"

subsection \<open>Numbering\<close>

lemma index_of_nth: "distinct xs \<Longrightarrow> i < length xs \<Longrightarrow> index_of (xs ! i) xs = i"
proof (induction xs arbitrary: i)
  case (Cons x xs)
  then show ?case by (cases i) (auto simp: nth_mem)
qed simp

lemma nth_index_of: "x \<in> set xs \<Longrightarrow> index_of x xs < length xs \<and> xs ! index_of x xs = x"
  by (induction xs) auto

lemma all_ops_length: "length all_ops = 256"
  by code_simp

lemma all_ops_distinct: "distinct all_ops"
  by (auto simp: all_ops_def ops_before_put_def ops_after_push_def distinct_map inj_on_def)

definition real_op :: "opcode \<Rightarrow> bool" where
  "real_op op \<longleftrightarrow> (case op of OP_PUT n \<Rightarrow> n < NUM_READY_VARS | OP_PUSH n \<Rightarrow> n < NUM_READY_VARS
    | OPTIM_NUM i \<Rightarrow> in_optim_num_range i | _ \<Rightarrow> True)"

lemma real_op_all: "real_op op \<longleftrightarrow> op \<in> set all_ops"
  by (cases op) (auto simp: real_op_def all_ops_def ops_before_put_def ops_after_push_def in_optim_num_range_def)

lemma op_number_bound: "real_op op \<Longrightarrow> op_number op < 256"
  using nth_index_of [of op all_ops] by (simp add: real_op_all op_number_def all_ops_length)

lemma opcode_of_number [simp]: "real_op op \<Longrightarrow> opcode_of (op_number op) = Some op"
  using nth_index_of [of op all_ops] by (simp add: real_op_all op_number_def opcode_of_def)

lemma eop_number_bound: "eop_number op < 15"
  by (cases op) (simp_all add: eop_number_def all_eops_def)

lemma eop_of_number [simp]: "eop_of (eop_number op) = Some op"
  by (cases op) (simp_all add: eop_number_def all_eops_def eop_of_def)

end
