(* ===== verification/Activations.thy ===== *)
theory Activations
  imports Opcodes Commands
begin

text \<open>
  The state of the virtual machine (\<open>execute.h\<close>, the first part of \<open>execute.c\<close>, \<open>eval_env.c\<close>): activations with
  their run-time stacks, calling verbs, and unwinding the stack of activations on returns, errors and exits.

  The stack of activations and every run-time stack have their top first. Pushing on a full run-time stack, popping
  an empty one and reading code or variables out of range are memory errors in C, for which nothing is checked
  there; they are \<open>None\<close> here, as are the panics of the interpreter and unwinding that never ends. The parts of the
  server that the interpreter calls are the fields of the record \<open>server\<close>; they may change the machine and a
  state of their own, \<open>world\<close>.
\<close>

subsection \<open>Activations\<close>

record activation =
  a_prog :: program
  a_env :: "var list"
  a_stack :: "var list"
  a_stack_size :: nat
  a_pc :: nat
  a_error_pc :: nat
  a_bi_func_pc :: nat
  a_bi_func_id :: nat
  a_bi_func_data :: nat
  a_temp :: var
  a_THISOBJ :: var
  a_thisobj :: objid
  a_player :: objid
  a_progr :: objid
  a_vloc :: objid
  a_verb :: string
  a_verbname :: string
  a_debug :: bool

record 'w vm =
  activ_stack :: "activation list"
  max_stack_size :: nat
  root_activ_vector :: int
  ticks_remaining :: int
  task_timed_out :: bool
  handler_info :: "(string \<times> var) option"
  database :: db
  world :: 'w

text \<open>The last field says where built-in functions may be entered again: number, place and data.\<close>

type_synonym resumptions = "(nat \<times> nat \<times> nat) set"

record 'w server =
  sv_floats :: fp_ops
  sv_null_program :: program
  sv_same_name :: "string \<Rightarrow> nat \<Rightarrow> bool" \<comment> \<open>is the name of a verb this very string?\<close>
  sv_find_line_number :: "program \<Rightarrow> int \<Rightarrow> nat \<Rightarrow> int"
  sv_name_func_by_num :: "nat \<Rightarrow> string"
  sv_call_bi_func :: "nat \<Rightarrow> var \<Rightarrow> nat \<Rightarrow> objid \<Rightarrow> nat \<Rightarrow> 'w vm \<Rightarrow> (package \<times> 'w vm) option"
  sv_suspend_proc :: "nat \<Rightarrow> 'w vm \<Rightarrow> (error \<times> 'w vm) option"
  sv_enqueue_forked_task2 :: "nat \<Rightarrow> float64 \<Rightarrow> int \<Rightarrow> 'w vm \<Rightarrow> (error \<times> 'w vm) option"
  sv_union_double :: "var \<Rightarrow> float64" \<comment> \<open>the bits of a value of another type, read as a double\<close>
  sv_waif_class :: "'w \<Rightarrow> nat \<Rightarrow> objid"
  sv_waif_get_prop :: "nat \<Rightarrow> string \<Rightarrow> objid \<Rightarrow> 'w vm \<Rightarrow> (error \<times> var \<times> 'w vm) option"
  sv_waif_put_prop :: "nat \<Rightarrow> string \<Rightarrow> var \<Rightarrow> objid \<Rightarrow> 'w vm \<Rightarrow> (error \<times> 'w vm) option"
  sv_resumable :: resumptions

definition ok :: "'a res \<Rightarrow> 'a option" where
  "ok r = (case r of Inl _ \<Rightarrow> None | Inr x \<Rightarrow> Some x)"

lemma ok_simps [simp]: "ok (Inl e) = None" "ok (Inr x) = Some x"
  by (simp_all add: ok_def)

subsection \<open>The run-time stack\<close>

definition push :: "var \<Rightarrow> activation \<Rightarrow> activation option" where
  "push v a = (if length (a_stack a) < a_stack_size a then Some (a\<lparr>a_stack := v # a_stack a\<rparr>) else None)"

definition pop :: "activation \<Rightarrow> (var \<times> activation) option" where
  "pop a = (case a_stack a of [] \<Rightarrow> None | v # st \<Rightarrow> Some (v, a\<lparr>a_stack := st\<rparr>))"

definition top_value :: "activation \<Rightarrow> var option" where
  "top_value a = (case a_stack a of [] \<Rightarrow> None | v # st \<Rightarrow> Some v)"

definition next_top_value :: "activation \<Rightarrow> var option" where
  "next_top_value a = (case a_stack a of v # w # st \<Rightarrow> Some w | _ \<Rightarrow> None)"

subsection \<open>The run-time environment\<close>

definition SLOT_NUM :: nat where "SLOT_NUM = 0"
definition SLOT_OBJ :: nat where "SLOT_OBJ = 1"
definition SLOT_STR :: nat where "SLOT_STR = 2"
definition SLOT_LIST :: nat where "SLOT_LIST = 3"
definition SLOT_ERR :: nat where "SLOT_ERR = 4"
definition SLOT_PLAYER :: nat where "SLOT_PLAYER = 5"
definition SLOT_THIS :: nat where "SLOT_THIS = 6"
definition SLOT_CALLER :: nat where "SLOT_CALLER = 7"
definition SLOT_VERB :: nat where "SLOT_VERB = 8"
definition SLOT_ARGS :: nat where "SLOT_ARGS = 9"
definition SLOT_ARGSTR :: nat where "SLOT_ARGSTR = 10"
definition SLOT_DOBJ :: nat where "SLOT_DOBJ = 11"
definition SLOT_DOBJSTR :: nat where "SLOT_DOBJSTR = 12"
definition SLOT_PREPSTR :: nat where "SLOT_PREPSTR = 13"
definition SLOT_IOBJ :: nat where "SLOT_IOBJ = 14"
definition SLOT_IOBJSTR :: nat where "SLOT_IOBJSTR = 15"
definition SLOT_INT :: nat where "SLOT_INT = 16"
definition SLOT_FLOAT :: nat where "SLOT_FLOAT = 17"

lemmas slot_defs = SLOT_NUM_def SLOT_OBJ_def SLOT_STR_def SLOT_LIST_def SLOT_ERR_def SLOT_PLAYER_def SLOT_THIS_def
  SLOT_CALLER_def SLOT_VERB_def SLOT_ARGS_def SLOT_ARGSTR_def SLOT_DOBJ_def SLOT_DOBJSTR_def SLOT_PREPSTR_def
  SLOT_IOBJ_def SLOT_IOBJSTR_def SLOT_INT_def SLOT_FLOAT_def

text \<open>The versions of the language: the first two have no floating-point numbers.\<close>

definition DBV_Float :: nat where "DBV_Float = 3"

definition new_rt_env :: "nat \<Rightarrow> var list" where
  "new_rt_env n = replicate n VNone"

definition set_env :: "nat \<Rightarrow> var \<Rightarrow> var list \<Rightarrow> var list option" where
  "set_env slot v env = (if slot < length env then Some (env[slot := v]) else None)"

definition get_env :: "nat \<Rightarrow> var list \<Rightarrow> var option" where
  "get_env slot env = (if slot < length env then Some (env ! slot) else None)"

fun set_all :: "(nat \<times> var) list \<Rightarrow> var list \<Rightarrow> var list option" where
  "set_all [] env = Some env"
| "set_all ((slot, v) # svs) env = (do { env \<leftarrow> set_env slot v env; set_all svs env })"

definition fill_in_rt_consts :: "nat \<Rightarrow> var list \<Rightarrow> var list option" where
  "fill_in_rt_consts version env =
    set_all ([(SLOT_ERR, VInt 3), (SLOT_NUM, VInt 0), (SLOT_STR, VInt 2), (SLOT_OBJ, VInt 1), (SLOT_LIST, VInt 4)] @
      (if DBV_Float \<le> version then [(SLOT_INT, VInt 0), (SLOT_FLOAT, VInt 9)] else [])) env"

subsection \<open>Handlers\<close>

datatype finally_reason = FIN_FALL_THRU | FIN_RAISE | FIN_UNCAUGHT | FIN_RETURN | FIN_ABORT | FIN_EXIT

fun reason_number :: "finally_reason \<Rightarrow> int" where
  "reason_number FIN_FALL_THRU = 0"
| "reason_number FIN_RAISE = 1"
| "reason_number FIN_UNCAUGHT = 2"
| "reason_number FIN_RETURN = 3"
| "reason_number FIN_ABORT = 4"
| "reason_number FIN_EXIT = 5"

partial_function (option) isa_up :: "db \<Rightarrow> objid \<Rightarrow> objid \<Rightarrow> bool option" where
  "isa_up db what targ =
    (if valid db what then
       if what = targ then Some True
       else (case db_object_parent db what of None \<Rightarrow> None | Some p \<Rightarrow> isa_up db p targ)
     else Some False)"

declare isa_up.simps [code]

definition isa :: "(nat \<Rightarrow> objid) \<Rightarrow> db \<Rightarrow> var \<Rightarrow> var \<Rightarrow> bool option" where
  "isa waif_class db ob parent = (case parent of
     VObj targ \<Rightarrow> (case ob of
         VObj what \<Rightarrow> isa_up db what targ
       | VWaif w \<Rightarrow> isa_up db (waif_class w) targ
       | _ \<Rightarrow> Some False)
   | _ \<Rightarrow> Some False)"

fun ishandled :: "(nat \<Rightarrow> objid) \<Rightarrow> db \<Rightarrow> var \<Rightarrow> var list \<Rightarrow> bool option" where
  "ishandled wc db lhs [] = Some False"
| "ishandled wc db lhs (v # vs) = (do {
     e \<leftarrow> ok (equality lhs v False);
     i \<leftarrow> (if e then Some True else isa wc db lhs v);
     if i then Some True else ishandled wc db lhs vs
   })"

text \<open>Does the code at one place of a handler apply? A place that is no list applies to every error.\<close>

definition codes_apply :: "(nat \<Rightarrow> objid) \<Rightarrow> db \<Rightarrow> var \<Rightarrow> var \<Rightarrow> bool option" where
  "codes_apply wc db c v = (case v of VList vs \<Rightarrow> ishandled wc db c vs | _ \<Rightarrow> Some True)"

text \<open>The slots below a marker, lowest first: codes and handler in turn. The result is the first handler that
  applies.\<close>

fun first_handler :: "(nat \<Rightarrow> objid) \<Rightarrow> db \<Rightarrow> var \<Rightarrow> var list \<Rightarrow> var option option" where
  "first_handler wc db c (codes # pc # vs) = (do {
     applies \<leftarrow> codes_apply wc db c codes;
     if applies then Some (Some pc)
     else first_handler wc db c vs
   })"
| "first_handler wc db c _ = Some None"

text \<open>Popping the slots of one activation down to \<open>goal\<close> slots: the result is the new stack and program counter
  when a handler is found.\<close>

function unwind_slots :: "(nat \<Rightarrow> objid) \<Rightarrow> db \<Rightarrow> finally_reason \<Rightarrow> var \<Rightarrow> var \<Rightarrow> nat \<Rightarrow> var list
    \<Rightarrow> (var list \<times> nat option) option" where
  "unwind_slots wc db why c value goal st =
    (if length st \<le> goal then Some (st, None)
     else (case st of
         [] \<Rightarrow> Some (st, None)
       | v # st \<Rightarrow>
         (case v of
           VFinally n \<Rightarrow>
             if why \<noteq> FIN_ABORT then Some (value # VInt (reason_number why) # st, Some (nat n))
             else unwind_slots wc db why c value goal st
         | VCatch n \<Rightarrow>
             if why = FIN_RAISE then
               (if length st < 2 * nat n then None
                else do {
                  h \<leftarrow> first_handler wc db c (rev (take (2 * nat n) st));
                  case h of
                    Some (VInt pc) \<Rightarrow> Some (value # drop (2 * nat n) st, Some (nat pc))
                  | Some _ \<Rightarrow> None
                  | None \<Rightarrow> unwind_slots wc db why c value goal (drop (2 * nat n) st)
                })
             else unwind_slots wc db why c value goal st
         | _ \<Rightarrow> unwind_slots wc db why c value goal st)))"
  by pat_completeness auto
termination by (relation "measure (\<lambda>(wc, db, why, c, value, goal, st). length st)") (auto split: option.splits)

declare unwind_slots.simps [simp del]

text \<open>One activation: true when it goes on.\<close>

definition unwind_activation :: "(nat \<Rightarrow> objid) \<Rightarrow> db \<Rightarrow> finally_reason \<Rightarrow> var \<Rightarrow> activation \<Rightarrow> (bool \<times> activation) option" where
  "unwind_activation wc db why value a = (do {
     c \<leftarrow> (if why = FIN_RAISE then (case value of VList (c # _) \<Rightarrow> Some c | _ \<Rightarrow> None) else Some (VInt 0));
     exit \<leftarrow> (if why = FIN_EXIT then (case value of VList (VInt n # VInt l # _) \<Rightarrow> Some (nat n, nat l) | _ \<Rightarrow> None) else Some (0, 0));
     (st, h) \<leftarrow> unwind_slots wc db why c value (fst exit) (a_stack a);
     case h of
       Some pc \<Rightarrow> if length st \<le> a_stack_size a then Some (True, a\<lparr>a_stack := st, a_pc := pc\<rparr>) else None
     | None \<Rightarrow> Some (if why = FIN_EXIT then (True, a\<lparr>a_stack := st, a_pc := snd exit\<rparr>) else (False, a\<lparr>a_stack := st\<rparr>))
   })"

function handles :: "(nat \<Rightarrow> objid) \<Rightarrow> db \<Rightarrow> var \<Rightarrow> var list \<Rightarrow> bool option" where
  "handles wc db c [] = Some False"
| "handles wc db c (v # st) = (case v of
     VCatch n \<Rightarrow>
       if length st < 2 * nat n then None
       else do {
         h \<leftarrow> first_handler wc db c (rev (take (2 * nat n) st));
         if h \<noteq> None then Some True else handles wc db c (drop (2 * nat n) st)
       }
   | _ \<Rightarrow> handles wc db c st)"
  by pat_completeness auto
termination by (relation "measure (\<lambda>(wc, db, c, st). length st)") auto

text \<open>\<open>find_handler_activ\<close>: how many activations are above the hottest one with a handler.\<close>

fun find_handler_activ :: "(nat \<Rightarrow> objid) \<Rightarrow> db \<Rightarrow> var \<Rightarrow> activation list \<Rightarrow> nat option option" where
  "find_handler_activ wc db c [] = Some None"
| "find_handler_activ wc db c (a # as) = (do {
     h \<leftarrow> handles wc db c (a_stack a);
     if h then Some (Some 0) else map_option (map_option Suc) (find_handler_activ wc db c as)
   })"

end
