(* ===== verification/Unwinding.thy ===== *)
theory Unwinding
  imports Activations
begin

text \<open>
  Calls, errors and returns (\<open>execute.c\<close>): \<open>call_verb2\<close>, the lists that describe the stack of activations, and
  \<open>unwind_stack\<close> with \<open>raise_error\<close> and \<open>abort_task\<close>.
\<close>

subsection \<open>The stack as a value\<close>

text \<open>The activations of the slice have the hottest one first; the number of an activation is that of the ones below
  it, and the bottom one may run a forked vector.\<close>

definition line_number :: "'w server \<Rightarrow> int \<Rightarrow> nat \<Rightarrow> activation \<Rightarrow> int" where
  "line_number S root i a = sv_find_line_number S (a_prog a) (if i = 0 then root else MAIN_VECTOR) (a_error_pc a)"

definition frame_entry :: "'w server \<Rightarrow> int \<Rightarrow> bool \<Rightarrow> nat \<Rightarrow> activation \<Rightarrow> var" where
  "frame_entry S root lines i a = VList ([a_THISOBJ a, VStr (a_verb a), VObj (a_progr a), VObj (a_vloc a), VObj (a_player a)] @
     (if lines then [VInt (line_number S root i a)] else []))"

definition bi_func_entry :: "'w server \<Rightarrow> bool \<Rightarrow> activation \<Rightarrow> var" where
  "bi_func_entry S lines a = VList ([VObj NOTHING, VStr (sv_name_func_by_num S (a_bi_func_id a)), VObj NOTHING, VObj NOTHING,
     VObj (a_player a)] @ (if lines then [VInt (int (a_bi_func_pc a))] else []))"

fun stack_entries :: "'w server \<Rightarrow> nat \<Rightarrow> int \<Rightarrow> bool \<Rightarrow> bool \<Rightarrow> activation list \<Rightarrow> nat \<Rightarrow> var list" where
  "stack_entries S start root lines include [] i = []"
| "stack_entries S start root lines include (a # as) i =
    (if include then [frame_entry S root lines i a] else []) @
    (if i \<noteq> start \<and> a_bi_func_pc a \<noteq> 0 then [bi_func_entry S lines a] else []) @
    (if i \<le> start then [] else stack_entries S start root lines True as (i - 1))"

text \<open>From the activation numbered \<open>length as - 1\<close>, the first of the list, down to \<open>start\<close>.\<close>

definition make_stack_list :: "'w server \<Rightarrow> activation list \<Rightarrow> nat \<Rightarrow> bool \<Rightarrow> int \<Rightarrow> bool \<Rightarrow> var" where
  "make_stack_list S as start include_end root lines = VList (stack_entries S start root lines include_end as (length as - 1))"

fun backtrace_from :: "'w server \<Rightarrow> string \<Rightarrow> int \<Rightarrow> bool \<Rightarrow> activation list \<Rightarrow> nat \<Rightarrow> string list" where
  "backtrace_from S msg root hottest [] t = []"
| "backtrace_from S msg root hottest (a # as) t =
    ((if hottest then [] else ''... called from '') @
     ''#'' @ show_num (a_vloc a) @ '':'' @ a_verbname a @
     (if a_vloc a \<noteq> a_thisobj a then '' (this == #'' @ show_num (a_thisobj a) @ '')'' else []) @
     '', line '' @ show_num (line_number S root t a) @
     (if hottest then '':  '' @ msg else [])) #
    (if 0 < t \<and> a_bi_func_pc a \<noteq> 0
     then [''... called from built-in function '' @ sv_name_func_by_num S (a_bi_func_id a) @ ''()''] else []) @
    backtrace_from S msg root False as (t - 1)"

definition error_backtrace_list :: "'w server \<Rightarrow> string \<Rightarrow> 'w vm \<Rightarrow> var" where
  "error_backtrace_list S msg vm =
    VList (map VStr (backtrace_from S msg (root_activ_vector vm) True (activ_stack vm) (length (activ_stack vm) - 1) @
      [''(End of traceback)'']))"

definition save_handler_info :: "string \<Rightarrow> var \<Rightarrow> 'w vm \<Rightarrow> 'w vm" where
  "save_handler_info vname args vm = vm\<lparr>handler_info := Some (vname, args)\<rparr>"

subsection \<open>Changing the top activation\<close>

definition push_top :: "var \<Rightarrow> 'w vm \<Rightarrow> 'w vm option" where
  "push_top v vm = (case activ_stack vm of
     [] \<Rightarrow> None
   | a # as \<Rightarrow> map_option (\<lambda>a. vm\<lparr>activ_stack := a # as\<rparr>) (push v a))"

definition set_bi_func :: "nat \<Rightarrow> nat \<Rightarrow> nat \<Rightarrow> 'w vm \<Rightarrow> 'w vm option" where
  "set_bi_func func pc data vm = (case activ_stack vm of
     [] \<Rightarrow> None
   | a # as \<Rightarrow> Some (vm\<lparr>activ_stack := a\<lparr>a_bi_func_id := func, a_bi_func_pc := pc, a_bi_func_data := data\<rparr> # as\<rparr>))"

definition suspend_task :: "'w server \<Rightarrow> nat \<Rightarrow> 'w vm \<Rightarrow> (error \<times> 'w vm) option" where
  "suspend_task S susp vm = sv_suspend_proc S susp vm"

subsection \<open>Calling a verb\<close>

definition room_for_activation :: "'w vm \<Rightarrow> bool" where
  "room_for_activation vm \<longleftrightarrow> length (activ_stack vm) < max_stack_size vm"

definition WAIF_VERB_PREFIX :: char where "WAIF_VERB_PREFIX = CHR '':''"

text \<open>The environment of the callee: constants, its own object, and what the caller passes on.\<close>

definition callee_env :: "db \<Rightarrow> program \<Rightarrow> activation \<Rightarrow> var \<Rightarrow> string \<Rightarrow> var list \<Rightarrow> var list option" where
  "callee_env db p c THISOBJ vname args = (do {
     env \<leftarrow> fill_in_rt_consts (prog_version p) (new_rt_env (length (var_names p)));
     env \<leftarrow> set_all [(SLOT_THIS, THISOBJ), (SLOT_CALLER, a_THISOBJ c)] env;
     argstr \<leftarrow> get_env SLOT_ARGSTR (a_env c);
     dobj \<leftarrow> get_env SLOT_DOBJ (a_env c);
     dobjstr \<leftarrow> get_env SLOT_DOBJSTR (a_env c);
     prepstr \<leftarrow> get_env SLOT_PREPSTR (a_env c);
     iobj \<leftarrow> get_env SLOT_IOBJ (a_env c);
     iobjstr \<leftarrow> get_env SLOT_IOBJSTR (a_env c);
     player \<leftarrow> get_env SLOT_PLAYER (a_env c);
     env \<leftarrow> set_all [(SLOT_ARGSTR, argstr), (SLOT_DOBJ, dobj), (SLOT_DOBJSTR, dobjstr), (SLOT_PREPSTR, prepstr),
       (SLOT_IOBJ, iobj), (SLOT_IOBJSTR, iobjstr)] env;
     set_all [(SLOT_PLAYER, if is_wizard db (a_progr c) \<and> type_of player = TYPE_OBJ then player else VObj (a_player c)),
       (SLOT_VERB, VStr (if vname \<noteq> [] \<and> hd vname = WAIF_VERB_PREFIX then tl vname else vname)),
       (SLOT_ARGS, VList args)] env
   })"

definition callee :: "db \<Rightarrow> program \<Rightarrow> activation \<Rightarrow> handle \<Rightarrow> objid \<Rightarrow> var \<Rightarrow> string \<Rightarrow> var list \<Rightarrow> activation option" where
  "callee db p c h thisobj THISOBJ vname args = (do {
     owner \<leftarrow> ok (db_verb_owner db h);
     definer \<leftarrow> ok (db_verb_definer h);
     names \<leftarrow> ok (db_verb_names db h);
     flags \<leftarrow> ok (db_verb_flags db h);
     env \<leftarrow> callee_env db p c THISOBJ vname args;
     player \<leftarrow> (case env ! SLOT_PLAYER of VObj player \<Rightarrow> Some player | _ \<Rightarrow> None);
     Some \<lparr>a_prog = p, a_env = env, a_stack = [], a_stack_size = max_stack (main_vector p), a_pc = 0, a_error_pc = 0,
       a_bi_func_pc = 0, a_bi_func_id = 0, a_bi_func_data = 0, a_temp = VNone, a_THISOBJ = THISOBJ, a_thisobj = thisobj,
       a_player = player, a_progr = owner, a_vloc = definer, a_verb = vname, a_verbname = names,
       a_debug = ((flags AND VF_DEBUG) \<noteq> 0)\<rparr>
   })"

definition call_verb2 :: "'w server \<Rightarrow> objid \<Rightarrow> string \<Rightarrow> var \<Rightarrow> var list \<Rightarrow> bool \<Rightarrow> 'w vm \<Rightarrow> (error \<times> 'w vm) option" where
  "call_verb2 S thisobj vname THISOBJ args do_pass vm = (case activ_stack vm of
     [] \<Rightarrow> None
   | c # as \<Rightarrow>
     (do {
       place \<leftarrow> (if do_pass then (if \<not> valid (database vm) (a_vloc c) then Some NOTHING else db_object_parent (database vm) (a_vloc c))
                 else Some thisobj);
       if \<not> valid (database vm) place then Some (E_INVIND, vm)
       else do {
         (h, db) \<leftarrow> db_find_callable_verb (sv_same_name S vname) place vname (database vm);
         let vm = vm\<lparr>database := db\<rparr>;
         if h = None then Some (E_VERBNF, vm)
         else if \<not> room_for_activation vm then Some (E_MAXREC, vm)
         else do {
           p \<leftarrow> ok (db_verb_program (sv_null_program S) db h);
           a \<leftarrow> callee db p c h thisobj THISOBJ vname args;
           Some (E_NONE, vm\<lparr>activ_stack := a # c # as\<rparr>)
         }
       }
     }))"

definition call_verb :: "'w server \<Rightarrow> objid \<Rightarrow> string \<Rightarrow> var list \<Rightarrow> bool \<Rightarrow> 'w vm \<Rightarrow> (error \<times> 'w vm) option" where
  "call_verb S thisobj vname args do_pass vm = call_verb2 S thisobj vname (VObj thisobj) args do_pass vm"

subsection \<open>Unwinding\<close>

datatype outcome = OUTCOME_DONE | OUTCOME_ABORTED | OUTCOME_BLOCKED

text \<open>What raising an error unwinds with: the tuple for the handler, or nothing when there is none; then the
  description of the error is kept for the handler verb of the database.\<close>

definition raise_prepare :: "'w server \<Rightarrow> var \<Rightarrow> string \<Rightarrow> var \<Rightarrow> 'w vm \<Rightarrow> (finally_reason \<times> var \<times> 'w vm) option" where
  "raise_prepare S c msg value vm = (do {
     h \<leftarrow> find_handler_activ (sv_waif_class S (world vm)) (database vm) c (activ_stack vm);
     case h of
       Some n \<Rightarrow> Some (FIN_RAISE, VList [c, VStr msg, value,
         make_stack_list S (activ_stack vm) (length (activ_stack vm) - 1 - n) True (root_activ_vector vm) True], vm)
     | None \<Rightarrow> Some (FIN_UNCAUGHT, VInt 0, save_handler_info ''handle_uncaught_error''
         (VList [c, VStr msg, value, make_stack_list S (activ_stack vm) 0 True (root_activ_vector vm) True,
           error_backtrace_list S msg vm]) vm)
   })"

text \<open>A built-in function that is unwound gets zero, and whatever it answers is thrown away.\<close>

partial_function (option) squelch_bi_func :: "'w server \<Rightarrow> nat \<Rightarrow> nat \<Rightarrow> objid \<Rightarrow> nat \<Rightarrow> 'w vm \<Rightarrow> 'w vm option" where
  "squelch_bi_func S func pc progr data vm = (do {
     (p, vm) \<leftarrow> sv_call_bi_func S func (VInt 0) pc progr data vm;
     case p of
       BI_CALL pc data \<Rightarrow>
         (if activ_stack vm = [] then None
          else let vm = vm\<lparr>activ_stack := tl (activ_stack vm)\<rparr>
               in if pc \<noteq> 0 then squelch_bi_func S func pc progr data vm else Some vm)
     | _ \<Rightarrow> Some vm
   })"

declare squelch_bi_func.simps [code]


text \<open>The result is the outcome when the whole stack is unwound, and \<open>None\<close> when the interpreter goes on.\<close>

partial_function (option) unwind_stack ::
    "'w server \<Rightarrow> finally_reason \<Rightarrow> var \<Rightarrow> 'w vm \<Rightarrow> (outcome option \<times> 'w vm) option" where
  "unwind_stack S why value vm = (case activ_stack vm of
     [] \<Rightarrow> None
   | a # as \<Rightarrow>
     (do {
       (goes_on, a) \<leftarrow> unwind_activation (sv_waif_class S (world vm)) (database vm) why value a;
       if goes_on then Some (None, vm\<lparr>activ_stack := a # as\<rparr>)
       else if as = [] then Some (Some (if why = FIN_RETURN then OUTCOME_DONE else OUTCOME_ABORTED), vm\<lparr>activ_stack := [a]\<rparr>)
       else
         (let vm = vm\<lparr>activ_stack := as\<rparr>; func = a_bi_func_id a in
          if a_bi_func_pc a \<noteq> 0 then
            (if why = FIN_RETURN then (do {
               (p, vm) \<leftarrow> sv_call_bi_func S func value (a_bi_func_pc a) (a_progr (hd as)) (a_bi_func_data a) vm;
               case p of
                 BI_RETURN v \<Rightarrow> map_option (\<lambda>vm. (None, vm)) (push_top v vm)
               | BI_RAISE c msg v \<Rightarrow>
                   if activ_stack vm \<noteq> [] \<and> a_debug (hd (activ_stack vm)) then (do {
                     (why, value, vm) \<leftarrow> raise_prepare S c msg v vm;
                     unwind_stack S why value vm
                   })
                   else map_option (\<lambda>vm. (None, vm)) (push_top c vm)
               | BI_SUSPEND susp \<Rightarrow> do {
                   (e, vm) \<leftarrow> suspend_task S susp vm;
                   if e = E_NONE then Some (Some OUTCOME_BLOCKED, vm) else unwind_stack S FIN_RAISE (VErr e) vm
                 }
               | BI_CALL pc data \<Rightarrow> map_option (\<lambda>vm. (None, vm)) (set_bi_func func pc data vm)
               | BI_KILL \<Rightarrow> unwind_stack S FIN_ABORT (VInt 0) vm
             })
             else (do {
               vm \<leftarrow> squelch_bi_func S func (a_bi_func_pc a) (a_progr a) (a_bi_func_data a) vm;
               unwind_stack S why value vm
             }))
          else if why = FIN_RETURN then map_option (\<lambda>vm. (None, vm)) (push_top value vm)
          else unwind_stack S why value vm)
     }))"

declare unwind_stack.simps [code]

definition raise_error :: "'w server \<Rightarrow> var \<Rightarrow> string \<Rightarrow> var \<Rightarrow> 'w vm \<Rightarrow> (outcome option \<times> 'w vm) option" where
  "raise_error S c msg value vm = (do {
     (why, value, vm) \<leftarrow> raise_prepare S c msg value vm;
     unwind_stack S why value vm
   })"

definition abort_task :: "'w server \<Rightarrow> bool \<Rightarrow> 'w vm \<Rightarrow> 'w vm option" where
  "abort_task S is_ticks vm =
    (let msg = (if is_ticks then ''Task ran out of ticks'' else ''Task ran out of seconds'');
         value = VList [VStr (if is_ticks then ''ticks'' else ''seconds''),
           make_stack_list S (activ_stack vm) 0 True (root_activ_vector vm) True, error_backtrace_list S msg vm]
     in map_option snd (unwind_stack S FIN_ABORT (VInt 0) (save_handler_info ''handle_task_timeout'' value vm)))"

end
