(* ===== verification/Interp.thy ===== *)
theory Interp
  imports Unwinding
begin

text \<open>
  The instructions (\<open>run\<close> in \<open>execute.c\<close>). Every case of the interpreter loop is a definition here; the program counter of
  the activation is already behind the instruction. Most instructions only work on their activation, and answer
  with its next state or with an error: then the machine raises it if the verb has its debug bit, and otherwise
  goes on with the state that is given.
\<close>

datatype effect = Next activation | Error error activation "activation option"

definition push_error :: "error \<Rightarrow> activation \<Rightarrow> effect option" where
  "push_error e a = Some (Error e a (push (VErr e) a))"

definition push_next :: "var \<Rightarrow> activation \<Rightarrow> effect option" where
  "push_next v a = map_option Next (push v a)"

subsection \<open>Reading code\<close>

definition byte_at :: "8 word list \<Rightarrow> nat \<Rightarrow> nat option" where
  "byte_at v i = (if i < length v then Some (unat (v ! i)) else None)"

definition read_bytes :: "8 word list \<Rightarrow> nat \<Rightarrow> nat \<Rightarrow> nat option" where
  "read_bytes v pc n =
    (if n = 1 then byte_at v pc
     else if n = 2 then (do { b1 \<leftarrow> byte_at v pc; b0 \<leftarrow> byte_at v (pc + 1); Some (b1 * 2 ^ 8 + b0) })
     else (do {
       b3 \<leftarrow> byte_at v pc; b2 \<leftarrow> byte_at v (pc + 1); b1 \<leftarrow> byte_at v (pc + 2); b0 \<leftarrow> byte_at v (pc + 3);
       Some (b3 * 2 ^ 24 + b2 * 2 ^ 16 + b1 * 2 ^ 8 + b0)
     }))"

definition operand :: "nat \<Rightarrow> bytecodes \<Rightarrow> activation \<Rightarrow> (nat \<times> activation) option" where
  "operand n bc a = map_option (\<lambda>x. (x, a\<lparr>a_pc := a_pc a + n\<rparr>)) (read_bytes (vector bc) (a_pc a) n)"

definition skip_bytes :: "nat \<Rightarrow> activation \<Rightarrow> activation" where
  "skip_bytes n a = a\<lparr>a_pc := a_pc a + n\<rparr>"

definition jump :: "nat \<Rightarrow> activation \<Rightarrow> activation" where
  "jump lab a = a\<lparr>a_pc := lab\<rparr>"

definition put_var :: "nat \<Rightarrow> var \<Rightarrow> activation \<Rightarrow> activation option" where
  "put_var slot v a = map_option (\<lambda>env. a\<lparr>a_env := env\<rparr>) (set_env slot v (a_env a))"

definition set_top :: "var \<Rightarrow> activation \<Rightarrow> activation" where
  "set_top v a = a\<lparr>a_stack := (a_stack a)[0 := v]\<rparr>"

definition set_next_top :: "var \<Rightarrow> activation \<Rightarrow> activation" where
  "set_next_top v a = a\<lparr>a_stack := (a_stack a)[1 := v]\<rparr>"

subsection \<open>Control\<close>

definition do_test :: "bytecodes \<Rightarrow> activation \<Rightarrow> effect option" where
  "do_test bc a = (do {
     (cond, a) \<leftarrow> pop a;
     if \<not> is_true cond then (do { (lab, a) \<leftarrow> operand (numbytes_label bc) bc a; Some (Next (jump lab a)) })
     else Some (Next (skip_bytes (numbytes_label bc) a))
   })"

definition do_jump :: "bytecodes \<Rightarrow> activation \<Rightarrow> effect option" where
  "do_jump bc a = (do { (lab, a) \<leftarrow> operand (numbytes_label bc) bc a; Some (Next (jump lab a)) })"

definition leave_loop :: "nat \<Rightarrow> activation \<Rightarrow> activation option" where
  "leave_loop lab a = (do { (_, a) \<leftarrow> pop a; (_, a) \<leftarrow> pop a; Some (jump lab a) })"

definition for_list :: "bytecodes \<Rightarrow> activation \<Rightarrow> effect option" where
  "for_list bc a = (do {
     (slot, a) \<leftarrow> operand (numbytes_var_name bc) bc a;
     (lab, a) \<leftarrow> operand (numbytes_label bc) bc a;
     count \<leftarrow> top_value a;
     l \<leftarrow> next_top_value a;
     case l of
       VList vs \<Rightarrow>
         (case count of
            VInt n \<Rightarrow>
              if n > int (length vs) then map_option Next (leave_loop lab a)
              else if n < 1 then None
              else (do {
                a \<leftarrow> put_var slot (vs ! nat (n - 1)) a;
                Some (Next (set_top (VInt (to_num (n + 1))) a))
              })
          | _ \<Rightarrow> None)
     | _ \<Rightarrow> Some (Error E_TYPE a (leave_loop lab a))
   })"

text \<open>The bounds of a range: two integers or two objects.\<close>

definition range_bounds :: "var \<Rightarrow> var \<Rightarrow> ((int \<Rightarrow> var) \<times> int \<times> int) option" where
  "range_bounds from to = (case (from, to) of
     (VInt m, VInt n) \<Rightarrow> Some (VInt, m, n)
   | (VObj m, VObj n) \<Rightarrow> Some (VObj, m, n)
   | _ \<Rightarrow> None)"

definition for_range :: "bytecodes \<Rightarrow> activation \<Rightarrow> effect option" where
  "for_range bc a = (do {
     (slot, a) \<leftarrow> operand (numbytes_var_name bc) bc a;
     (lab, a) \<leftarrow> operand (numbytes_label bc) bc a;
     to \<leftarrow> top_value a;
     from \<leftarrow> next_top_value a;
     case range_bounds from to of
       None \<Rightarrow> Some (Error E_TYPE a (leave_loop lab a))
     | Some (mk, m, n) \<Rightarrow>
         if m > n then map_option Next (leave_loop lab a)
         else (do {
           a \<leftarrow> put_var slot from a;
           Some (Next (if m < num_max then set_next_top (mk (m + 1)) a else set_top (mk (to_num (n - 1))) a))
         })
   })"

subsection \<open>Values and variables\<close>

definition do_pop :: "activation \<Rightarrow> effect option" where
  "do_pop a = map_option (\<lambda>(_, a). Next a) (pop a)"

text \<open>A literal that the next instruction would pop again is skipped together with it.\<close>

definition imm :: "bytecodes \<Rightarrow> activation \<Rightarrow> effect option" where
  "imm bc a = (do {
     b \<leftarrow> byte_at (vector bc) (a_pc a + numbytes_literal bc);
     if b = op_number OP_POP then Some (Next (skip_bytes (numbytes_literal bc + 1) a))
     else (do {
       (slot, a) \<leftarrow> operand (numbytes_literal bc) bc a;
       v \<leftarrow> nth_opt (literals (a_prog a)) slot;
       push_next v a
     })
   })"

definition push_var :: "nat \<Rightarrow> activation \<Rightarrow> effect option" where
  "push_var slot a = (do {
     v \<leftarrow> get_env slot (a_env a);
     if v = VNone then push_error E_VARNF a else push_next v a
   })"

definition g_push :: "bytecodes \<Rightarrow> activation \<Rightarrow> effect option" where
  "g_push bc a = (do { (slot, a) \<leftarrow> operand (numbytes_var_name bc) bc a; push_var slot a })"

definition g_put :: "bytecodes \<Rightarrow> activation \<Rightarrow> effect option" where
  "g_put bc a = (do {
     (slot, a) \<leftarrow> operand (numbytes_var_name bc) bc a;
     v \<leftarrow> top_value a;
     map_option Next (put_var slot v a)
   })"

text \<open>An assignment whose value the next instruction would pop takes it from the stack itself.\<close>

definition put_ready :: "nat \<Rightarrow> bytecodes \<Rightarrow> activation \<Rightarrow> effect option" where
  "put_ready slot bc a = (do {
     b \<leftarrow> byte_at (vector bc) (a_pc a);
     v \<leftarrow> top_value a;
     a \<leftarrow> put_var slot v a;
     if b = op_number OP_POP then (do { (_, a) \<leftarrow> pop a; Some (Next (skip_bytes 1 a)) }) else Some (Next a)
   })"

definition put_temp :: "activation \<Rightarrow> effect option" where
  "put_temp a = map_option (\<lambda>v. Next (a\<lparr>a_temp := v\<rparr>)) (top_value a)"

definition push_temp :: "activation \<Rightarrow> effect option" where
  "push_temp a = map_option (\<lambda>a. Next (a\<lparr>a_temp := VNone\<rparr>)) (push (a_temp a) a)"

subsection \<open>Lists\<close>

definition list_add_tail :: "activation \<Rightarrow> effect option" where
  "list_add_tail a = (do {
     (tail, a) \<leftarrow> pop a;
     (l, a) \<leftarrow> pop a;
     case l of
       VList vs \<Rightarrow> (do { r \<leftarrow> ok (listappend vs tail); push_next (VList r) a })
     | _ \<Rightarrow> push_error E_TYPE a
   })"

definition list_append :: "activation \<Rightarrow> effect option" where
  "list_append a = (do {
     (tail, a) \<leftarrow> pop a;
     (l, a) \<leftarrow> pop a;
     case (l, tail) of
       (VList vs, VList ws) \<Rightarrow> push_next (VList (listconcat vs ws)) a
     | _ \<Rightarrow> push_error E_TYPE a
   })"

definition make_singleton_list :: "activation \<Rightarrow> effect option" where
  "make_singleton_list a = (do { (v, a) \<leftarrow> pop a; push_next (VList [v]) a })"

definition check_list_for_splice :: "activation \<Rightarrow> effect option" where
  "check_list_for_splice a = (do {
     v \<leftarrow> top_value a;
     if type_of v \<noteq> TYPE_LIST then (do { (_, a) \<leftarrow> pop a; push_error E_TYPE a }) else Some (Next a)
   })"

text \<open>Positions that have passed the checks are at most the length of a list or string, which is an \<open>int\<close>.\<close>

definition plain_indexset :: "var \<Rightarrow> var \<Rightarrow> var \<Rightarrow> activation \<Rightarrow> effect option" where
  "plain_indexset l i value a = (case (l, i) of
     (VList vs, VInt n) \<Rightarrow>
       if n < 1 \<or> n > int (length vs) then push_error E_RANGE a
       else (do { r \<leftarrow> ok (listset vs value n); push_next (VList r) a })
   | (VStr s, VInt n) \<Rightarrow>
       (case value of
          VStr t \<Rightarrow>
            if n < 1 \<or> n > to_int32 (strlen_utf s) then push_error E_RANGE a
            else if strlen_utf t \<noteq> 1 then push_error E_INVARG a
            else push_next (VStr (strrangeset s n n t)) a
        | _ \<Rightarrow> push_error E_TYPE a)
   | _ \<Rightarrow> push_error E_TYPE a)"

definition plain_ref :: "var \<Rightarrow> var \<Rightarrow> activation \<Rightarrow> effect option" where
  "plain_ref l i a = (case (l, i) of
     (VList vs, VInt n) \<Rightarrow>
       if n \<le> 0 \<or> n > int (length vs) then push_error E_RANGE a else push_next (vs ! nat (n - 1)) a
   | (VStr s, VInt n) \<Rightarrow>
       if n \<le> 0 \<or> n > to_int32 (strlen_utf s) then push_error E_RANGE a else push_next (VStr (strget s n)) a
   | _ \<Rightarrow> push_error E_TYPE a)"

definition push_ref :: "activation \<Rightarrow> effect option" where
  "push_ref a = (do {
     i \<leftarrow> top_value a;
     l \<leftarrow> next_top_value a;
     case (l, i) of
       (VList vs, VInt n) \<Rightarrow> if n \<le> 0 \<or> n > int (length vs) then push_error E_RANGE a else push_next (vs ! nat (n - 1)) a
     | _ \<Rightarrow> push_error E_TYPE a
   })"

text \<open>The bounds are compared with all their bits, and then passed on as 32-bit integers.\<close>

definition range_ref :: "activation \<Rightarrow> effect option" where
  "range_ref a = (do {
     (to, a) \<leftarrow> pop a;
     (from, a) \<leftarrow> pop a;
     (b, a) \<leftarrow> pop a;
     case (b, from, to) of
       (VList vs, VInt m, VInt n) \<Rightarrow>
         if m \<le> n \<and> (m \<le> 0 \<or> m > int (length vs) \<or> n \<le> 0 \<or> n > int (length vs)) then push_error E_RANGE a
         else (do { r \<leftarrow> ok (sublist vs (to_int32 m) (to_int32 n)); push_next (VList r) a })
     | (VStr s, VInt m, VInt n) \<Rightarrow>
         if m \<le> n \<and> (m \<le> 0 \<or> m > strlen_utf s \<or> n \<le> 0 \<or> n > strlen_utf s) then push_error E_RANGE a
         else push_next (VStr (substr s (to_int32 m) (to_int32 n))) a
     | _ \<Rightarrow> push_error E_TYPE a
   })"

definition rangeset_check :: "int \<Rightarrow> int \<Rightarrow> int \<Rightarrow> bool" where
  "rangeset_check end from to \<longleftrightarrow> from > to_int32 (end + 1) \<or> to < 0"

text \<open>Here the length of a string is that of its bytes.\<close>

definition rangeset :: "activation \<Rightarrow> effect option" where
  "rangeset a = (do {
     (value, a) \<leftarrow> pop a;
     (to, a) \<leftarrow> pop a;
     (from, a) \<leftarrow> pop a;
     (b, a) \<leftarrow> pop a;
     case (b, from, to, value) of
       (VList vs, VInt m, VInt n, VList ws) \<Rightarrow>
         if rangeset_check (to_int32 (int (length vs))) (to_int32 m) (to_int32 n) then push_error E_RANGE a
         else (do { r \<leftarrow> ok (listrangeset vs (to_int32 m) (to_int32 n) ws); push_next (VList r) a })
     | (VStr s, VInt m, VInt n, VStr t) \<Rightarrow>
         if rangeset_check (to_int32 (int (length s))) (to_int32 m) (to_int32 n) then push_error E_RANGE a
         else push_next (VStr (strrangeset s (to_int32 m) (to_int32 n) t)) a
     | _ \<Rightarrow> push_error E_TYPE a
   })"

definition length_op :: "bytecodes \<Rightarrow> activation \<Rightarrow> effect option" where
  "length_op bc a = (do {
     (i, a) \<leftarrow> operand (numbytes_stack bc) bc a;
     item \<leftarrow> nth_opt (List.rev (a_stack a)) i;
     case item of
       VStr s \<Rightarrow> push_next (VInt (strlen_utf s)) a
     | VList vs \<Rightarrow> push_next (VInt (int (length vs))) a
     | _ \<Rightarrow> push_error E_TYPE a
   })"


subsection \<open>Operators\<close>

definition of_bool_var :: "bool \<Rightarrow> var" where
  "of_bool_var b = VInt (of_bool b)"

definition push_answer :: "var \<Rightarrow> activation \<Rightarrow> effect option" where
  "push_answer v a = (case v of VErr e \<Rightarrow> push_error e a | _ \<Rightarrow> push_next v a)"

definition is_number :: "var \<Rightarrow> bool" where
  "is_number v \<longleftrightarrow> type_of v = TYPE_INT \<or> type_of v = TYPE_FLOAT"

definition equal_op :: "bool \<Rightarrow> activation \<Rightarrow> effect option" where
  "equal_op eq a = (do {
     (rhs, a) \<leftarrow> pop a;
     (lhs, a) \<leftarrow> pop a;
     e \<leftarrow> ok (equality rhs lhs False);
     push_next (of_bool_var (if eq then e else \<not> e)) a
   })"

definition finish_comparison :: "opcode \<Rightarrow> int \<Rightarrow> var" where
  "finish_comparison op c = of_bool_var
    (if op = OP_LT then c < 0 else if op = OP_LE then c \<le> 0 else if op = OP_GT then c > 0 else c \<ge> 0)"

definition compare_op :: "opcode \<Rightarrow> activation \<Rightarrow> effect option" where
  "compare_op op a = (do {
     (rhs, a) \<leftarrow> pop a;
     (lhs, a) \<leftarrow> pop a;
     if is_number lhs \<and> is_number rhs then (do {
       ans \<leftarrow> ok (compare_numbers lhs rhs);
       case ans of
         VErr e \<Rightarrow> push_error e a
       | VInt c \<Rightarrow> push_next (finish_comparison op c) a
       | _ \<Rightarrow> None
     })
     else if type_of rhs \<noteq> type_of lhs \<or> type_of rhs = TYPE_LIST then push_error E_TYPE a
     else push_next (finish_comparison op (case (lhs, rhs) of
         (VObj x, VObj y) \<Rightarrow> compare_integers x y
       | (VErr x, VErr y) \<Rightarrow> error_code x - error_code y
       | (VStr x, VStr y) \<Rightarrow> mystrcasecmp x y
       | _ \<Rightarrow> 0)) a
   })"

definition in_op :: "activation \<Rightarrow> effect option" where
  "in_op a = (do {
     (rhs, a) \<leftarrow> pop a;
     (lhs, a) \<leftarrow> pop a;
     case rhs of
       VList vs \<Rightarrow> (do { i \<leftarrow> ok (ismember lhs vs False); push_next (VInt i) a })
     | VStr s \<Rightarrow> (case lhs of VStr t \<Rightarrow> push_next (VInt (strindex s t False)) a | _ \<Rightarrow> push_error E_TYPE a)
     | _ \<Rightarrow> push_error E_TYPE a
   })"

definition arith_op :: "fp_ops \<Rightarrow> opcode \<Rightarrow> activation \<Rightarrow> effect option" where
  "arith_op F op a = (do {
     (rhs, a) \<leftarrow> pop a;
     (lhs, a) \<leftarrow> pop a;
     if is_number lhs \<and> is_number rhs then (do {
       ans \<leftarrow> ok ((if op = OP_MULT then do_multiply F else if op = OP_MINUS then do_subtract F
                  else if op = OP_DIV then do_divide F else do_modulus F) lhs rhs);
       push_answer ans a
     })
     else push_error E_TYPE a
   })"

definition add_op :: "fp_ops \<Rightarrow> activation \<Rightarrow> effect option" where
  "add_op F a = (do {
     (rhs, a) \<leftarrow> pop a;
     (lhs, a) \<leftarrow> pop a;
     if is_number lhs \<and> is_number rhs then (do { ans \<leftarrow> ok (do_add F lhs rhs); push_answer ans a })
     else (case (lhs, rhs) of
         (VStr s, VStr t) \<Rightarrow> push_next (VStr (s @ t)) a
       | _ \<Rightarrow> push_error E_TYPE a)
   })"

definition and_or :: "bool \<Rightarrow> bytecodes \<Rightarrow> activation \<Rightarrow> effect option" where
  "and_or is_and bc a = (do {
     (lab, a) \<leftarrow> operand (numbytes_label bc) bc a;
     lhs \<leftarrow> top_value a;
     if (if is_and then \<not> is_true lhs else is_true lhs) then Some (Next (jump lab a)) else do_pop a
   })"

definition not_op :: "activation \<Rightarrow> effect option" where
  "not_op a = (do { (v, a) \<leftarrow> pop a; push_next (of_bool_var (\<not> is_true v)) a })"

definition unary_minus :: "fp_ops \<Rightarrow> activation \<Rightarrow> effect option" where
  "unary_minus F a = (do {
     (v, a) \<leftarrow> pop a;
     case v of
       VInt n \<Rightarrow> push_next (VInt (to_num (- n))) a
     | VFloat d \<Rightarrow> push_next (VFloat (f_neg F d)) a
     | _ \<Rightarrow> push_error E_TYPE a
   })"

definition exp_op :: "fp_ops \<Rightarrow> activation \<Rightarrow> effect option" where
  "exp_op F a = (do {
     (rhs, a) \<leftarrow> pop a;
     (lhs, a) \<leftarrow> pop a;
     push_answer (do_power F lhs rhs) a
   })"

subsection \<open>Scattering assignment\<close>

text \<open>The targets: the offset into the list, the optional targets that still get a value, and the label of the
  first default expression that is needed.\<close>

fun scatter_loop :: "bytecodes \<Rightarrow> var list \<Rightarrow> int \<Rightarrow> int \<Rightarrow> nat \<Rightarrow> int \<Rightarrow> int \<Rightarrow> int \<Rightarrow> nat \<Rightarrow> activation
    \<Rightarrow> (nat \<times> activation) option" where
  "scatter_loop bc vs rpos nrest 0 i offset nopt_avail wh a = Some (wh, a)"
| "scatter_loop bc vs rpos nrest (Suc n) i offset nopt_avail wh a = (do {
     (slot, a) \<leftarrow> operand (numbytes_var_name bc) bc a;
     (label, a) \<leftarrow> operand (numbytes_label bc) bc a;
     if i = rpos then (do {
       r \<leftarrow> ok (sublist vs i (i + nrest - 1));
       a \<leftarrow> put_var slot (VList r) a;
       scatter_loop bc vs rpos nrest n (i + 1) (offset + nrest - 1) nopt_avail wh a
     })
     else if label = 0 \<or> nopt_avail > 0 then (do {
       v \<leftarrow> (if 1 \<le> i + offset then nth_opt vs (nat (i + offset - 1)) else None);
       a \<leftarrow> put_var slot v a;
       scatter_loop bc vs rpos nrest n (i + 1) offset (if label = 0 then nopt_avail else nopt_avail - 1) wh a
     })
     else scatter_loop bc vs rpos nrest n (i + 1) (offset - 1) nopt_avail (if wh = 0 \<and> label \<noteq> 1 then label else wh) a
   })"

definition scatter_op :: "bytecodes \<Rightarrow> activation \<Rightarrow> effect option" where
  "scatter_op bc a = (do {
     (nargs, a) \<leftarrow> operand 1 bc a;
     (nreq, a) \<leftarrow> operand 1 bc a;
     (rpos, a) \<leftarrow> operand 1 bc a;
     let have_rest = (rpos \<le> nargs);
     l \<leftarrow> top_value a;
     let e = (case l of
         VList vs \<Rightarrow> if length vs < nreq \<or> (\<not> have_rest \<and> length vs > nargs) then E_ARGS else E_NONE
       | _ \<Rightarrow> E_TYPE);
     if e \<noteq> E_NONE then (do {
       (_, a) \<leftarrow> pop a;
       Some (Error e a (do {
         a \<leftarrow> push (VErr e) a;
         let a = skip_bytes (nargs * (numbytes_var_name bc + numbytes_label bc)) a;
         (lab, a) \<leftarrow> operand (numbytes_label bc) bc a;
         Some (jump lab a)
       }))
     })
     else (do {
       vs \<leftarrow> (case l of VList vs \<Rightarrow> Some vs | _ \<Rightarrow> None);
       let nrest = (if have_rest \<and> nargs \<le> length vs then int (length vs) - int nargs + 1 else 0);
       (wh, a) \<leftarrow> scatter_loop bc vs (int rpos) nrest nargs 1 0 (int (length vs) - int nreq) 0 a;
       (lab, a) \<leftarrow> operand (numbytes_label bc) bc a;
       Some (Next (jump (if wh = 0 then lab else wh) a))
     })
   })"

subsection \<open>Exception handling\<close>

definition push_label :: "bytecodes \<Rightarrow> activation \<Rightarrow> effect option" where
  "push_label bc a = (do { (lab, a) \<leftarrow> operand (numbytes_label bc) bc a; push_next (VInt (int lab)) a })"

definition try_finally :: "bytecodes \<Rightarrow> activation \<Rightarrow> effect option" where
  "try_finally bc a = (do { (lab, a) \<leftarrow> operand (numbytes_label bc) bc a; push_next (VFinally (int lab)) a })"

definition catch_op :: "activation \<Rightarrow> effect option" where
  "catch_op a = push_next (VCatch 1) a"

definition try_except :: "bytecodes \<Rightarrow> activation \<Rightarrow> effect option" where
  "try_except bc a = (do { (n, a) \<leftarrow> operand 1 bc a; push_next (VCatch (int n)) a })"

fun pop_handlers :: "nat \<Rightarrow> activation \<Rightarrow> activation option" where
  "pop_handlers 0 a = Some a"
| "pop_handlers (Suc n) a = (do { (_, a) \<leftarrow> pop a; (_, a) \<leftarrow> pop a; pop_handlers n a })"

text \<open>The marker of \<open>END_CATCH\<close> lies below the value of the expression.\<close>

definition end_except :: "bool \<Rightarrow> bytecodes \<Rightarrow> activation \<Rightarrow> effect option" where
  "end_except is_catch bc a = (do {
     (v, a) \<leftarrow> (if is_catch then pop a else Some (VNone, a));
     (marker, a) \<leftarrow> pop a;
     a \<leftarrow> (case marker of VCatch n \<Rightarrow> pop_handlers (nat n) a | _ \<Rightarrow> None);
     a \<leftarrow> (if is_catch then push v a else Some a);
     do_jump bc a
   })"

definition end_finally :: "activation \<Rightarrow> effect option" where
  "end_finally a = (do {
     (marker, a) \<leftarrow> pop a;
     a \<leftarrow> (case marker of VFinally _ \<Rightarrow> push (VInt (reason_number FIN_FALL_THRU)) a | _ \<Rightarrow> None);
     push_next (VInt 0) a
   })"

definition while_id :: "bytecodes \<Rightarrow> activation \<Rightarrow> effect option" where
  "while_id bc a = (do {
     (slot, a) \<leftarrow> operand (numbytes_var_name bc) bc a;
     v \<leftarrow> top_value a;
     a \<leftarrow> put_var slot v a;
     do_test bc a
   })"

end
