(* ===== verification/Run.thy ===== *)
theory Run
  imports Interp
begin

text \<open>
  The interpreter loop (\<open>run\<close> in \<open>execute.c\<close>): the instructions that touch more than their activation, one step of the
  loop, and the functions of the language that \<open>execute.c\<close> implements.
\<close>

datatype 'w result = Running "'w vm" | Stopped outcome "var option" "'w vm"

definition with_top :: "activation \<Rightarrow> 'w vm \<Rightarrow> 'w vm" where
  "with_top a vm = vm\<lparr>activ_stack := a # tl (activ_stack vm)\<rparr>"

text \<open>Raising an error in a verb with the debug bit; the interpreter stops when no handler is left. \<open>k\<close> is what happens
  without the debug bit.\<close>

definition raise_package :: "'w server \<Rightarrow> var \<Rightarrow> string \<Rightarrow> var \<Rightarrow> 'w vm \<Rightarrow> 'w result option" where
  "raise_package S c msg value vm = (do {
     (stop, vm) \<leftarrow> raise_error S c msg value vm;
     Some (if stop = None then Running vm else Stopped OUTCOME_ABORTED None vm)
   })"

definition do_raise :: "'w server \<Rightarrow> error \<Rightarrow> activation \<Rightarrow> activation option \<Rightarrow> 'w vm \<Rightarrow> 'w result option" where
  "do_raise S e a k vm =
    (if a_debug a then raise_package S (VErr e) (unparse_error e) (VInt 0) (with_top a vm)
     else map_option (\<lambda>a. Running (with_top a vm)) k)"

definition run_effect :: "'w server \<Rightarrow> 'w vm \<Rightarrow> effect \<Rightarrow> 'w result option" where
  "run_effect S vm eff = (case eff of
     Next a \<Rightarrow> Some (Running (with_top a vm))
   | Error e a k \<Rightarrow> do_raise S e a k vm)"

definition simple :: "'w server \<Rightarrow> 'w vm \<Rightarrow> effect option \<Rightarrow> 'w result option" where
  "simple S vm eff = (do { eff \<leftarrow> eff; run_effect S vm eff })"

definition push_error_vm :: "'w server \<Rightarrow> error \<Rightarrow> 'w vm \<Rightarrow> 'w result option" where
  "push_error_vm S e vm = (case activ_stack vm of [] \<Rightarrow> None | a # _ \<Rightarrow> do_raise S e a (push (VErr e) a) vm)"

subsection \<open>Indexing waifs\<close>

text \<open>A waif is indexed by a verb of its class, if a wizard owns the class.\<close>

definition waif_call :: "'w server \<Rightarrow> string \<Rightarrow> nat \<Rightarrow> var list \<Rightarrow> 'w vm \<Rightarrow> 'w result option" where
  "waif_call S verb w args vm = (do {
     let waifclass = sv_waif_class S (world vm) w;
     owner \<leftarrow> (if valid (database vm) waifclass then db_object_owner (database vm) waifclass else Some NOTHING);
     (e, vm) \<leftarrow>
       (if \<not> valid (database vm) waifclass then Some (E_INVIND, vm)
        else if \<not> is_wizard (database vm) owner then Some (E_TYPE, vm)
        else (do {
          (e, vm) \<leftarrow> call_verb2 S waifclass verb (VWaif w) args False vm;
          Some (if e = E_VERBNF then E_TYPE else e, vm)
        }));
     if e = E_NONE then Some (Running vm) else push_error_vm S e vm
   })"

definition WAIF_INDEX_VERB :: string where "WAIF_INDEX_VERB = '':_index''"
definition WAIF_INDEXSET_VERB :: string where "WAIF_INDEXSET_VERB = '':_set_index''"

definition indexset :: "'w server \<Rightarrow> activation \<Rightarrow> 'w vm \<Rightarrow> 'w result option" where
  "indexset S a vm = (do {
     (value, a) \<leftarrow> pop a;
     (i, a) \<leftarrow> pop a;
     (l, a) \<leftarrow> pop a;
     case l of
       VWaif w \<Rightarrow> waif_call S WAIF_INDEXSET_VERB w [i, value] (with_top a vm)
     | _ \<Rightarrow> simple S vm (plain_indexset l i value a)
   })"

definition ref_op :: "'w server \<Rightarrow> activation \<Rightarrow> 'w vm \<Rightarrow> 'w result option" where
  "ref_op S a vm = (do {
     (i, a) \<leftarrow> pop a;
     (l, a) \<leftarrow> pop a;
     case l of
       VWaif w \<Rightarrow> waif_call S WAIF_INDEX_VERB w [i] (with_top a vm)
     | _ \<Rightarrow> simple S vm (plain_ref l i a)
   })"

subsection \<open>Properties\<close>

text \<open>Reading a property. Built-in properties are not protected in this configuration.\<close>

definition read_property :: "db \<Rightarrow> objid \<Rightarrow> objid \<Rightarrow> string \<Rightarrow> (error + var) option" where
  "read_property db progr oid name =
    (if \<not> valid db oid then Some (Inl E_INVIND)
     else (do {
       (h, v) \<leftarrow> db_find_property db oid name True;
       case h of
         NoProp \<Rightarrow> Some (Inl E_PROPNF)
       | BuiltIn b x \<Rightarrow> map_option Inr v
       | Slot x n d \<Rightarrow> (do {
           allowed \<leftarrow> ok (db_property_allows db h progr PF_READ);
           if allowed then map_option Inr v else Some (Inl E_PERM)
         })
     }))"

definition property_value :: "'w server \<Rightarrow> var \<Rightarrow> var \<Rightarrow> activation \<Rightarrow> 'w vm \<Rightarrow> 'w result option" where
  "property_value S obj name a vm = (case (obj, name) of
     (VWaif w, VStr s) \<Rightarrow> (do {
       (e, v, vm) \<leftarrow> sv_waif_get_prop S w s (a_progr a) (with_top a vm);
       if e = E_NONE then map_option Running (push_top v vm) else push_error_vm S e vm
     })
   | (VObj oid, VStr s) \<Rightarrow> (do {
       r \<leftarrow> read_property (database vm) (a_progr a) oid s;
       case r of
         Inl e \<Rightarrow> simple S vm (push_error e a)
       | Inr v \<Rightarrow> simple S vm (push_next v a)
     })
   | _ \<Rightarrow> simple S vm (push_error E_TYPE a))"

definition get_prop :: "'w server \<Rightarrow> activation \<Rightarrow> 'w vm \<Rightarrow> 'w result option" where
  "get_prop S a vm = (do {
     (name, a) \<leftarrow> pop a;
     (obj, a) \<leftarrow> pop a;
     property_value S obj name a vm
   })"

definition push_get_prop :: "'w server \<Rightarrow> activation \<Rightarrow> 'w vm \<Rightarrow> 'w result option" where
  "push_get_prop S a vm = (do {
     name \<leftarrow> top_value a;
     obj \<leftarrow> next_top_value a;
     property_value S obj name a vm
   })"

text \<open>What a programmer may assign to.\<close>

definition put_allowed :: "db \<Rightarrow> objid \<Rightarrow> objid \<Rightarrow> prop_handle \<Rightarrow> var \<Rightarrow> error option" where
  "put_allowed db progr oid h rhs = (case h of
     NoProp \<Rightarrow> Some E_PROPNF
   | Slot x n d \<Rightarrow> map_option (\<lambda>allowed. if allowed then E_NONE else E_PERM) (ok (db_property_allows db h progr PF_WRITE))
   | BuiltIn b x \<Rightarrow> (do {
       owner \<leftarrow> db_object_owner db oid;
       Some
        (if b = BP_NAME then
           (if type_of rhs \<noteq> TYPE_STR then E_TYPE
            else if \<not> is_wizard db progr \<and> (is_user db oid \<or> progr \<noteq> owner) then E_PERM else E_NONE)
         else if b = BP_OWNER then
           (if type_of rhs \<noteq> TYPE_OBJ then E_TYPE else if \<not> is_wizard db progr then E_PERM else E_NONE)
         else if b = BP_PROGRAMMER \<or> b = BP_WIZARD then (if \<not> is_wizard db progr then E_PERM else E_NONE)
         else if b = BP_LOCATION \<or> b = BP_CONTENTS then E_PERM
         else if progr \<noteq> owner \<and> \<not> is_wizard db progr then E_PERM else E_NONE)
     }))"

definition put_prop :: "'w server \<Rightarrow> activation \<Rightarrow> 'w vm \<Rightarrow> 'w result option" where
  "put_prop S a vm = (do {
     (rhs, a) \<leftarrow> pop a;
     (name, a) \<leftarrow> pop a;
     (obj, a) \<leftarrow> pop a;
     case (obj, name) of
       (VWaif w, VStr s) \<Rightarrow> (do {
         (e, vm) \<leftarrow> sv_waif_put_prop S w s rhs (a_progr a) (with_top a vm);
         if e = E_NONE then map_option Running (push_top rhs vm) else push_error_vm S e vm
       })
     | (VObj oid, VStr s) \<Rightarrow>
         if \<not> valid (database vm) oid then simple S vm (push_error E_INVIND a)
         else (do {
           (h, v) \<leftarrow> db_find_property (database vm) oid s False;
           e \<leftarrow> put_allowed (database vm) (a_progr a) oid h rhs;
           if e = E_NONE then (do {
             db \<leftarrow> ok (db_set_property_value h rhs (database vm));
             simple S (vm\<lparr>database := db\<rparr>) (push_next rhs a)
           })
           else simple S vm (push_error e a)
         })
     | _ \<Rightarrow> simple S vm (push_error E_TYPE a)
   })"

subsection \<open>Forks, calls and returns\<close>

text \<open>Without the debug bit a delay that is no number does not stop the fork: the code reads the union as a
  floating-point number, whatever it holds.\<close>

definition fork_delay :: "'w server \<Rightarrow> var \<Rightarrow> float64" where
  "fork_delay S time = (case time of VInt n \<Rightarrow> f_of_num (sv_floats S) n | VFloat d \<Rightarrow> d | _ \<Rightarrow> sv_union_double S time)"

definition fork_op :: "'w server \<Rightarrow> bool \<Rightarrow> bytecodes \<Rightarrow> activation \<Rightarrow> 'w vm \<Rightarrow> 'w result option" where
  "fork_op S with_id bc a vm = (do {
     (time, a) \<leftarrow> pop a;
     (f_index, a) \<leftarrow> operand (numbytes_fork bc) bc a;
     (slot, a) \<leftarrow> (if with_id then operand (numbytes_var_name bc) bc a else Some (0, a));
     if \<not> is_number time \<and> a_debug a then do_raise S E_TYPE a None vm
     else if fl_lt (fork_delay S time) 0 then do_raise S E_INVARG a (Some a) vm
     else (do {
       (e, vm) \<leftarrow> sv_enqueue_forked_task2 S f_index (fork_delay S time) (if with_id then int slot else -1) (with_top a vm);
       if e = E_NONE then Some (Running vm)
       else (case activ_stack vm of [] \<Rightarrow> None | a # _ \<Rightarrow> do_raise S e a (Some a) vm)
     })
   })"

text \<open>The object a verb is called on, its class, and the name to look for.\<close>

definition call_target :: "'w server \<Rightarrow> 'w \<Rightarrow> var \<Rightarrow> var \<Rightarrow> var \<Rightarrow> error + (objid \<times> string \<times> var list)" where
  "call_target S wld obj verb args = (case (verb, args) of
     (VStr s, VList vs) \<Rightarrow> (case obj of
         VWaif w \<Rightarrow> Inr (sv_waif_class S wld w, WAIF_VERB_PREFIX # s, vs)
       | VObj oid \<Rightarrow> if s \<noteq> [] \<and> hd s = WAIF_VERB_PREFIX then Inl E_VERBNF else Inr (oid, s, vs)
       | _ \<Rightarrow> Inl E_TYPE)
   | _ \<Rightarrow> Inl E_TYPE)"

definition call_verb_op :: "'w server \<Rightarrow> activation \<Rightarrow> 'w vm \<Rightarrow> 'w result option" where
  "call_verb_op S a vm = (do {
     (args, a) \<leftarrow> pop a;
     (verb, a) \<leftarrow> pop a;
     (obj, a) \<leftarrow> pop a;
     let vm = with_top a vm;
     (e, vm) \<leftarrow> (case call_target S (world vm) obj verb args of
         Inl e \<Rightarrow> Some (e, vm)
       | Inr (oid, name, vs) \<Rightarrow>
           if \<not> valid (database vm) oid then Some (E_INVIND, vm) else call_verb2 S oid name obj vs False vm);
     if e = E_NONE then Some (Running vm) else push_error_vm S e vm
   })"

definition return_op :: "'w server \<Rightarrow> bool \<Rightarrow> activation \<Rightarrow> 'w vm \<Rightarrow> 'w result option" where
  "return_op S with_value a vm = (do {
     (v, a) \<leftarrow> (if with_value then pop a else Some (VInt 0, a));
     (stop, vm) \<leftarrow> unwind_stack S FIN_RETURN v (with_top a vm);
     Some (case stop of
         None \<Rightarrow> Running vm
       | Some out \<Rightarrow> Stopped out (if out = OUTCOME_DONE then Some v else None) vm)
   })"

definition bi_func_call :: "'w server \<Rightarrow> bytecodes \<Rightarrow> activation \<Rightarrow> 'w vm \<Rightarrow> 'w result option" where
  "bi_func_call S bc a vm = (do {
     (func, a) \<leftarrow> operand 1 bc a;
     (args, a) \<leftarrow> pop a;
     if type_of args \<noteq> TYPE_LIST then simple S vm (push_error E_TYPE a)
     else (do {
       (p, vm) \<leftarrow> sv_call_bi_func S func args 1 (a_progr a) 0 (with_top a vm);
       case p of
         BI_RETURN v \<Rightarrow> map_option Running (push_top v vm)
       | BI_RAISE c msg v \<Rightarrow>
           if activ_stack vm \<noteq> [] \<and> a_debug (hd (activ_stack vm)) then raise_package S c msg v vm
           else map_option Running (push_top c vm)
       | BI_CALL pc data \<Rightarrow> map_option Running (set_bi_func func pc data vm)
       | BI_SUSPEND susp \<Rightarrow> (do {
           (e, vm) \<leftarrow> suspend_task S susp vm;
           if e = E_NONE then Some (Stopped OUTCOME_BLOCKED None vm) else push_error_vm S e vm
         })
       | BI_KILL \<Rightarrow> map_option (\<lambda>(_, vm). Stopped OUTCOME_ABORTED None vm) (unwind_stack S FIN_ABORT (VInt 0) vm)
     })
   })"

text \<open>Going on with what a \<open>finally\<close> clause interrupted. When that returns from the last activation, the value is
  not stored in the result of the task.\<close>

definition reason_of :: "int \<Rightarrow> finally_reason option" where
  "reason_of n = (if n = 1 then Some FIN_RAISE else if n = 2 then Some FIN_UNCAUGHT else if n = 3 then Some FIN_RETURN
     else if n = 5 then Some FIN_EXIT else None)"

definition continue_op :: "'w server \<Rightarrow> activation \<Rightarrow> 'w vm \<Rightarrow> 'w result option" where
  "continue_op S a vm = (do {
     (v, a) \<leftarrow> pop a;
     (why, a) \<leftarrow> pop a;
     n \<leftarrow> (case why of VInt n \<Rightarrow> Some n | _ \<Rightarrow> None);
     if n = reason_number FIN_FALL_THRU then Some (Running (with_top a vm))
     else (do {
       why \<leftarrow> reason_of n;
       (stop, vm) \<leftarrow> unwind_stack S why v (with_top a vm);
       Some (case stop of None \<Rightarrow> Running vm | Some out \<Rightarrow> Stopped out None vm)
     })
   })"

definition exit_op :: "'w server \<Rightarrow> bytecodes \<Rightarrow> activation \<Rightarrow> 'w vm \<Rightarrow> 'w result option" where
  "exit_op S bc a vm = (do {
     (depth, a) \<leftarrow> operand (numbytes_stack bc) bc a;
     (lab, a) \<leftarrow> operand (numbytes_label bc) bc a;
     (_, vm) \<leftarrow> unwind_stack S FIN_EXIT (VList [VInt (int depth), VInt (int lab)]) (with_top a vm);
     Some (Running vm)
   })"

subsection \<open>One step\<close>

definition current_vector :: "'w vm \<Rightarrow> bytecodes option" where
  "current_vector vm = (case activ_stack vm of
     [] \<Rightarrow> None
   | a # as \<Rightarrow>
       if as \<noteq> [] \<or> root_activ_vector vm = MAIN_VECTOR then Some (main_vector (a_prog a))
       else nth_opt (fork_vectors (a_prog a)) (nat (root_activ_vector vm)))"

definition extended :: "'w server \<Rightarrow> bytecodes \<Rightarrow> extended_opcode \<Rightarrow> activation \<Rightarrow> 'w vm \<Rightarrow> 'w result option" where
  "extended S bc eop a vm = (case eop of
     EOP_RANGESET \<Rightarrow> simple S vm (rangeset a)
   | EOP_LENGTH \<Rightarrow> simple S vm (length_op bc a)
   | EOP_EXP \<Rightarrow> simple S vm (exp_op (sv_floats S) a)
   | EOP_SCATTER \<Rightarrow> simple S vm (scatter_op bc a)
   | EOP_PUSH_LABEL \<Rightarrow> simple S vm (push_label bc a)
   | EOP_TRY_FINALLY \<Rightarrow> simple S vm (try_finally bc a)
   | EOP_CATCH \<Rightarrow> simple S vm (catch_op a)
   | EOP_TRY_EXCEPT \<Rightarrow> simple S vm (try_except bc a)
   | EOP_END_CATCH \<Rightarrow> simple S vm (end_except True bc a)
   | EOP_END_EXCEPT \<Rightarrow> simple S vm (end_except False bc a)
   | EOP_END_FINALLY \<Rightarrow> simple S vm (end_finally a)
   | EOP_CONTINUE \<Rightarrow> continue_op S a vm
   | EOP_WHILE_ID \<Rightarrow> simple S vm (while_id bc a)
   | EOP_EXIT_ID \<Rightarrow> exit_op S bc (skip_bytes (numbytes_var_name bc) a) vm
   | EOP_EXIT \<Rightarrow> exit_op S bc a vm)"

definition execute :: "'w server \<Rightarrow> bytecodes \<Rightarrow> opcode \<Rightarrow> activation \<Rightarrow> 'w vm \<Rightarrow> 'w result option" where
  "execute S bc op a vm = (case op of
     OP_IF_QUES \<Rightarrow> simple S vm (do_test bc a)
   | OP_IF \<Rightarrow> simple S vm (do_test bc a)
   | OP_WHILE \<Rightarrow> simple S vm (do_test bc a)
   | OP_EIF \<Rightarrow> simple S vm (do_test bc a)
   | OP_JUMP \<Rightarrow> simple S vm (do_jump bc a)
   | OP_FOR_LIST \<Rightarrow> simple S vm (for_list bc a)
   | OP_FOR_RANGE \<Rightarrow> simple S vm (for_range bc a)
   | OP_POP \<Rightarrow> simple S vm (do_pop a)
   | OP_IMM \<Rightarrow> simple S vm (imm bc a)
   | OP_MAKE_EMPTY_LIST \<Rightarrow> simple S vm (push_next (VList []) a)
   | OP_LIST_ADD_TAIL \<Rightarrow> simple S vm (list_add_tail a)
   | OP_LIST_APPEND \<Rightarrow> simple S vm (list_append a)
   | OP_INDEXSET \<Rightarrow> indexset S a vm
   | OP_MAKE_SINGLETON_LIST \<Rightarrow> simple S vm (make_singleton_list a)
   | OP_CHECK_LIST_FOR_SPLICE \<Rightarrow> simple S vm (check_list_for_splice a)
   | OP_PUT_TEMP \<Rightarrow> simple S vm (put_temp a)
   | OP_PUSH_TEMP \<Rightarrow> simple S vm (push_temp a)
   | OP_EQ \<Rightarrow> simple S vm (equal_op True a)
   | OP_NE \<Rightarrow> simple S vm (equal_op False a)
   | OP_GT \<Rightarrow> simple S vm (compare_op op a)
   | OP_LT \<Rightarrow> simple S vm (compare_op op a)
   | OP_GE \<Rightarrow> simple S vm (compare_op op a)
   | OP_LE \<Rightarrow> simple S vm (compare_op op a)
   | OP_IN \<Rightarrow> simple S vm (in_op a)
   | OP_MULT \<Rightarrow> simple S vm (arith_op (sv_floats S) op a)
   | OP_MINUS \<Rightarrow> simple S vm (arith_op (sv_floats S) op a)
   | OP_DIV \<Rightarrow> simple S vm (arith_op (sv_floats S) op a)
   | OP_MOD \<Rightarrow> simple S vm (arith_op (sv_floats S) op a)
   | OP_ADD \<Rightarrow> simple S vm (add_op (sv_floats S) a)
   | OP_AND \<Rightarrow> simple S vm (and_or True bc a)
   | OP_OR \<Rightarrow> simple S vm (and_or False bc a)
   | OP_NOT \<Rightarrow> simple S vm (not_op a)
   | OP_UNARY_MINUS \<Rightarrow> simple S vm (unary_minus (sv_floats S) a)
   | OP_REF \<Rightarrow> ref_op S a vm
   | OP_PUSH_REF \<Rightarrow> simple S vm (push_ref a)
   | OP_RANGE_REF \<Rightarrow> simple S vm (range_ref a)
   | OP_G_PUT \<Rightarrow> simple S vm (g_put bc a)
   | OP_G_PUSH \<Rightarrow> simple S vm (g_push bc a)
   | OP_GET_PROP \<Rightarrow> get_prop S a vm
   | OP_PUSH_GET_PROP \<Rightarrow> push_get_prop S a vm
   | OP_PUT_PROP \<Rightarrow> put_prop S a vm
   | OP_FORK \<Rightarrow> fork_op S False bc a vm
   | OP_FORK_WITH_ID \<Rightarrow> fork_op S True bc a vm
   | OP_CALL_VERB \<Rightarrow> call_verb_op S a vm
   | OP_RETURN \<Rightarrow> return_op S True a vm
   | OP_RETURN0 \<Rightarrow> return_op S False a vm
   | OP_DONE \<Rightarrow> return_op S False a vm
   | OP_BI_FUNC_CALL \<Rightarrow> bi_func_call S bc a vm
   | OP_EXTENDED \<Rightarrow> (do {
       b \<leftarrow> byte_at (vector bc) (a_pc a);
       eop \<leftarrow> eop_of b;
       extended S bc eop (skip_bytes 1 a)
         (if count_eop_tick eop then vm\<lparr>ticks_remaining := to_int32 (ticks_remaining vm - 1)\<rparr> else vm)
     })
   | OP_PUSH slot \<Rightarrow> simple S vm (push_var slot a)
   | OP_PUT slot \<Rightarrow> simple S vm (put_ready slot bc a)
   | OPTIM_NUM n \<Rightarrow> simple S vm (push_next (VInt n) a))"

text \<open>One round of the loop. Only the instructions that cost a tick look at the limits of the task.\<close>

definition step :: "'w server \<Rightarrow> 'w vm \<Rightarrow> 'w result option" where
  "step S vm = (do {
     bc \<leftarrow> current_vector vm;
     b \<leftarrow> byte_at (vector bc) (a_pc (hd (activ_stack vm)));
     op \<leftarrow> opcode_of b;
     let a = (hd (activ_stack vm))\<lparr>a_pc := a_pc (hd (activ_stack vm)) + 1, a_error_pc := a_pc (hd (activ_stack vm))\<rparr>;
     let t = to_int32 (ticks_remaining vm - 1);
     let vm = with_top a (if count_tick op then vm\<lparr>ticks_remaining := t\<rparr> else vm);
     if count_tick op \<and> (t \<le> 0 \<or> task_timed_out vm)
     then map_option (Stopped OUTCOME_ABORTED None) (abort_task S (t \<le> 0) vm)
     else execute S bc op a vm
   })"

text \<open>The loop, for at most \<open>n\<close> rounds, and the start of it.\<close>

fun run_steps :: "nat \<Rightarrow> 'w server \<Rightarrow> 'w vm \<Rightarrow> 'w result option" where
  "run_steps 0 S vm = Some (Running vm)"
| "run_steps (Suc n) S vm = (do {
     r \<leftarrow> step S vm;
     case r of Running vm \<Rightarrow> run_steps n S vm | Stopped out v vm \<Rightarrow> Some r
   })"

definition start_run :: "'w server \<Rightarrow> error option \<Rightarrow> 'w vm \<Rightarrow> 'w result option" where
  "start_run S resumption_error vm = (case resumption_error of
     None \<Rightarrow> Some (Running vm)
   | Some e \<Rightarrow> (case activ_stack vm of
         [] \<Rightarrow> None
       | a # as \<Rightarrow> push_error_vm S e (with_top (a\<lparr>a_error_pc := a_pc a\<rparr>) vm)))"

end
