(* ===== verification/TaskStart.thy ===== *)
theory TaskStart
  imports Run
begin

text \<open>
  Starting and resuming tasks, and the functions of the language in \<open>execute.c\<close>. A task begins with one activation
  whose environment is filled in from the command or from the server; \<open>eval\<close> pushes a second one.
\<close>

subsection \<open>Limits\<close>

definition DEFAULT_MAX_STACK_DEPTH :: int where "DEFAULT_MAX_STACK_DEPTH = 100"

text \<open>The option of the server can only raise the limit.\<close>

definition current_max_stack_size :: "int \<Rightarrow> nat" where
  "current_max_stack_size option_value = nat (if option_value < DEFAULT_MAX_STACK_DEPTH then DEFAULT_MAX_STACK_DEPTH else option_value)"

definition setup_task_execution_limits :: "int \<Rightarrow> 'w vm \<Rightarrow> 'w vm" where
  "setup_task_execution_limits ticks vm = vm\<lparr>task_timed_out := False, ticks_remaining := (if ticks < 100 then 100 else ticks)\<rparr>"

subsection \<open>New tasks\<close>

text \<open>\<open>do_task\<close>: the root activation starts at the beginning of its vector.\<close>

definition do_task :: "program \<Rightarrow> int \<Rightarrow> int \<Rightarrow> activation \<Rightarrow> 'w vm \<Rightarrow> 'w vm option" where
  "do_task p which_vector ticks a vm = (do {
     bc \<leftarrow> (if which_vector = MAIN_VECTOR then Some (main_vector p) else nth_opt (fork_vectors p) (nat which_vector));
     Some (setup_task_execution_limits ticks (vm\<lparr>root_activ_vector := which_vector, handler_info := None,
       activ_stack := [a\<lparr>a_prog := p, a_stack := [], a_stack_size := max_stack bc, a_pc := 0, a_error_pc := 0,
         a_bi_func_pc := 0, a_temp := VNone\<rparr>]\<rparr>))
   })"

definition root_activation :: "program \<Rightarrow> var list \<Rightarrow> objid \<Rightarrow> objid \<Rightarrow> objid \<Rightarrow> objid \<Rightarrow> string \<Rightarrow> string \<Rightarrow> bool \<Rightarrow> activation" where
  "root_activation p env thisobj player progr vloc verb verbname debug =
    \<lparr>a_prog = p, a_env = env, a_stack = [], a_stack_size = 0, a_pc = 0, a_error_pc = 0, a_bi_func_pc = 0,
     a_bi_func_id = 0, a_bi_func_data = 0, a_temp = VNone, a_THISOBJ = VObj thisobj, a_thisobj = thisobj,
     a_player = player, a_progr = progr, a_vloc = vloc, a_verb = verb, a_verbname = verbname, a_debug = debug\<rparr>"

text \<open>The environment of a root activation, and of code for \<open>eval\<close>.\<close>

definition root_env :: "program \<Rightarrow> objid \<Rightarrow> objid \<Rightarrow> objid \<Rightarrow> objid \<Rightarrow> objid \<Rightarrow> string \<Rightarrow> string \<Rightarrow> string \<Rightarrow> string \<Rightarrow> string \<Rightarrow>
    var list \<Rightarrow> var list option" where
  "root_env p player callr thisobj dobj iobj dobjstr iobjstr argstr prepstr verb args = (do {
     env \<leftarrow> fill_in_rt_consts (prog_version p) (new_rt_env (length (var_names p)));
     set_all [(SLOT_PLAYER, VObj player), (SLOT_CALLER, VObj callr), (SLOT_THIS, VObj thisobj), (SLOT_DOBJ, VObj dobj),
       (SLOT_IOBJ, VObj iobj), (SLOT_DOBJSTR, VStr dobjstr), (SLOT_IOBJSTR, VStr iobjstr), (SLOT_ARGSTR, VStr argstr),
       (SLOT_PREPSTR, VStr prepstr), (SLOT_VERB, VStr verb), (SLOT_ARGS, VList args)] env
   })"

definition do_server_program_task ::
    "objid \<Rightarrow> string \<Rightarrow> var list \<Rightarrow> objid \<Rightarrow> string \<Rightarrow> program \<Rightarrow> objid \<Rightarrow> bool \<Rightarrow> objid \<Rightarrow> string \<Rightarrow> int \<Rightarrow> int \<Rightarrow> 'w vm \<Rightarrow> 'w vm option" where
  "do_server_program_task thisobj verb args vloc verbname p progr debug player argstr max_depth ticks vm = (do {
     env \<leftarrow> root_env p player (-1) thisobj NOTHING NOTHING [] [] argstr [] verb args;
     do_task p MAIN_VECTOR ticks (root_activation p env thisobj player progr vloc verb verbname debug)
       (vm\<lparr>max_stack_size := current_max_stack_size max_depth\<rparr>)
   })"

definition do_server_verb_task ::
    "'w server \<Rightarrow> objid \<Rightarrow> string \<Rightarrow> var list \<Rightarrow> handle \<Rightarrow> objid \<Rightarrow> string \<Rightarrow> int \<Rightarrow> int \<Rightarrow> 'w vm \<Rightarrow> 'w vm option" where
  "do_server_verb_task S thisobj verb args h player argstr max_depth ticks vm = (do {
     definer \<leftarrow> ok (db_verb_definer h);
     names \<leftarrow> ok (db_verb_names (database vm) h);
     p \<leftarrow> ok (db_verb_program (sv_null_program S) (database vm) h);
     owner \<leftarrow> ok (db_verb_owner (database vm) h);
     flags \<leftarrow> ok (db_verb_flags (database vm) h);
     do_server_program_task thisobj verb args definer names p owner ((flags AND VF_DEBUG) \<noteq> 0) player argstr max_depth ticks vm
   })"

definition do_input_task :: "'w server \<Rightarrow> objid \<Rightarrow> parsed_command \<Rightarrow> objid \<Rightarrow> handle \<Rightarrow> int \<Rightarrow> int \<Rightarrow> 'w vm \<Rightarrow> 'w vm option" where
  "do_input_task S user pc thisobj h max_depth ticks vm = (do {
     p \<leftarrow> ok (db_verb_program (sv_null_program S) (database vm) h);
     owner \<leftarrow> ok (db_verb_owner (database vm) h);
     definer \<leftarrow> ok (db_verb_definer h);
     names \<leftarrow> ok (db_verb_names (database vm) h);
     flags \<leftarrow> ok (db_verb_flags (database vm) h);
     env \<leftarrow> root_env p user user thisobj (pc_dobj pc) (pc_iobj pc) (pc_dobjstr pc) (pc_iobjstr pc) (pc_argstr pc)
       (pc_prepstr pc) (pc_verb pc) (pc_args pc);
     do_task p MAIN_VECTOR ticks
       (root_activation p env thisobj user owner definer (pc_verb pc) names ((flags AND VF_DEBUG) \<noteq> 0))
       (vm\<lparr>max_stack_size := current_max_stack_size max_depth\<rparr>)
   })"

definition do_forked_task :: "program \<Rightarrow> var list \<Rightarrow> activation \<Rightarrow> int \<Rightarrow> int \<Rightarrow> int \<Rightarrow> 'w vm \<Rightarrow> 'w vm option" where
  "do_forked_task p env a f_id max_depth ticks vm =
    do_task p f_id ticks (a\<lparr>a_env := env\<rparr>) (vm\<lparr>max_stack_size := current_max_stack_size max_depth\<rparr>)"

text \<open>Resuming: the value of the call that suspended the task is pushed, or an error is raised there.\<close>

definition resume_from_previous_vm :: "'w server \<Rightarrow> int \<Rightarrow> var \<Rightarrow> 'w vm \<Rightarrow> 'w result option" where
  "resume_from_previous_vm S ticks v vm =
    (let vm = setup_task_execution_limits ticks (vm\<lparr>handler_info := None\<rparr>)
     in case v of VErr e \<Rightarrow> start_run S (Some e) vm | _ \<Rightarrow> (do { vm \<leftarrow> push_top v vm; start_run S None vm }))"

definition setup_activ_for_eval :: "program \<Rightarrow> 'w vm \<Rightarrow> (bool \<times> 'w vm) option" where
  "setup_activ_for_eval p vm = (case activ_stack vm of
     [] \<Rightarrow> None
   | c # as \<Rightarrow>
       if \<not> room_for_activation vm then Some (False, vm)
       else (do {
         env \<leftarrow> root_env p (a_player c) (a_thisobj c) NOTHING NOTHING NOTHING [] [] [] [] [] [];
         Some (True, vm\<lparr>activ_stack :=
           (root_activation p env NOTHING (a_player c) (a_progr c) NOTHING [] ''Input to EVAL'' True)
             \<lparr>a_stack_size := max_stack (main_vector p)\<rparr> # c # as\<rparr>)
       }))"

subsection \<open>Functions of the language\<close>

definition zero_value :: var where "zero_value = VInt 0"

definition bf_raise :: "(float64 \<Rightarrow> string) \<Rightarrow> var list \<Rightarrow> package option" where
  "bf_raise fmt args = (case args of
     c # rst \<Rightarrow> (case rst of
         [] \<Rightarrow> map_option (\<lambda>msg. BI_RAISE c msg zero_value) (ok (value2str fmt c))
       | VStr msg # vs \<Rightarrow> Some (BI_RAISE c msg (case vs of [] \<Rightarrow> zero_value | v # _ \<Rightarrow> v))
       | _ \<Rightarrow> None)
   | _ \<Rightarrow> None)"

definition bf_pass :: "'w server \<Rightarrow> var list \<Rightarrow> 'w vm \<Rightarrow> (package \<times> 'w vm) option" where
  "bf_pass S args vm = (case activ_stack vm of
     [] \<Rightarrow> None
   | a # _ \<Rightarrow> (do {
       (e, vm) \<leftarrow> call_verb2 S (a_thisobj a) (a_verb a) (a_THISOBJ a) args True vm;
       Some (if e = E_NONE then BI_CALL 0 0 else make_error_pack e, vm)
     }))"

definition bf_set_task_perms :: "objid \<Rightarrow> objid \<Rightarrow> 'w vm \<Rightarrow> (package \<times> 'w vm) option" where
  "bf_set_task_perms oid progr vm =
    (if progr \<noteq> oid \<and> \<not> is_wizard (database vm) progr then Some (make_error_pack E_PERM, vm)
     else (case activ_stack vm of
         [] \<Rightarrow> None
       | a # as \<Rightarrow> Some (no_var_pack, vm\<lparr>activ_stack := a\<lparr>a_progr := oid\<rparr> # as\<rparr>)))"

definition bf_caller_perms :: "'w vm \<Rightarrow> package" where
  "bf_caller_perms vm = make_var_pack (VObj (case activ_stack vm of _ # c # _ \<Rightarrow> a_progr c | _ \<Rightarrow> NOTHING))"

definition bf_callers :: "'w server \<Rightarrow> var list \<Rightarrow> 'w vm \<Rightarrow> package" where
  "bf_callers S args vm =
    make_var_pack (make_stack_list S (activ_stack vm) 0 False (root_activ_vector vm)
      (case args of [] \<Rightarrow> False | v # _ \<Rightarrow> is_true v))"

definition bf_ticks_left :: "'w vm \<Rightarrow> package" where
  "bf_ticks_left vm = make_var_pack (VInt (ticks_remaining vm))"

definition caller_object :: "'w vm \<Rightarrow> objid option" where
  "caller_object vm = (case activ_stack vm of [] \<Rightarrow> None | a # _ \<Rightarrow> Some (a_thisobj a))"

end
