(* ===== verification/CodeGen.thy ===== *)
theory CodeGen
  imports Opcodes "HOL-Library.Monad_Syntax"
begin

text \<open>
  The code generator (\<open>code_gen.c\<close>).

  Code is generated in two passes. The first walks the syntax tree and emits bytes; where an operand stands whose
  size is not known yet, it leaves one placeholder byte and a fixup. The second chooses the sizes and replaces
  every placeholder by the value of its fixup; labels move by the size of all operands before their target.

  The growing arrays are lists, the counts of their elements the lengths. A label that several jumps share is a
  chain of fixups through \<open>f_next\<close>. Results are options: \<open>None\<close> where the code panics (the tree has a part that the
  parser never builds there), reads outside an array or overruns the vector.
\<close>

subsection \<open>State\<close>

datatype fixup_kind = FIXUP_LITERAL | FIXUP_FORK | FIXUP_LABEL | FIXUP_VAR_REF | FIXUP_STACK

record fixup =
  f_kind :: fixup_kind
  f_pc :: nat
  f_value :: nat
  prev_literals :: nat
  prev_forks :: nat
  prev_var_refs :: nat
  prev_labels :: nat
  prev_stacks :: nat
  f_next :: "nat option"

record gstate =
  total_var_refs :: nat
  g_literals :: "var list"
  g_fork_vectors :: "bytecodes list"

record loop =
  loop_id :: int
  top_label :: fixup
  top_stack :: nat
  bottom_label :: "nat option"
  bottom_stack :: nat

text \<open>\<open>loops\<close> has the innermost loop first; \<open>saved_stack\<close> is \<open>None\<close> for \<open>UINT_MAX\<close>.\<close>

record cstate =
  max_literal :: nat
  max_fork :: nat
  max_var_ref :: nat
  num_literals :: nat
  num_forks :: nat
  num_var_refs :: nat
  num_labels :: nat
  num_stacks :: nat
  fixups :: "fixup list"
  bytes :: "8 word list"
  cur_stack :: nat
  cs_max_stack :: nat
  saved_stack :: "nat option"
  loops :: "loop list"
  gstate :: gstate

abbreviation num_bytes :: "cstate \<Rightarrow> nat" where
  "num_bytes s \<equiv> length (bytes s)"

definition init_gstate :: gstate where
  "init_gstate = \<lparr>total_var_refs = 0, g_literals = [], g_fork_vectors = []\<rparr>"

definition init_state :: "gstate \<Rightarrow> cstate" where
  "init_state gs = \<lparr>max_literal = 0, max_fork = 0, max_var_ref = 0, num_literals = 0, num_forks = 0,
    num_var_refs = 0, num_labels = 0, num_stacks = 0, fixups = [], bytes = [], cur_stack = 0, cs_max_stack = 0,
    saved_stack = None, loops = [], gstate = gs\<rparr>"

definition emit_byte :: "nat \<Rightarrow> cstate \<Rightarrow> cstate" where
  "emit_byte b s = s\<lparr>bytes := bytes s @ [word_of_nat b]\<rparr>"

definition emit_op :: "opcode \<Rightarrow> cstate \<Rightarrow> cstate" where
  "emit_op op = emit_byte (op_number op)"

definition emit_extended_byte :: "extended_opcode \<Rightarrow> cstate \<Rightarrow> cstate" where
  "emit_extended_byte b s = emit_byte (eop_number b) (emit_op OP_EXTENDED s)"

subsection \<open>Fixups\<close>

definition add_known_fixup :: "fixup \<Rightarrow> cstate \<Rightarrow> nat \<times> cstate" where
  "add_known_fixup f s =
    (length (fixups s), emit_byte 0 (s\<lparr>fixups := fixups s @ [f\<lparr>f_pc := num_bytes s\<rparr>]\<rparr>))"

definition counted_fixup :: "fixup_kind \<Rightarrow> nat \<Rightarrow> nat option \<Rightarrow> cstate \<Rightarrow> fixup" where
  "counted_fixup kind value nxt s = \<lparr>f_kind = kind, f_pc = 0, f_value = value,
    prev_literals = num_literals s, prev_forks = num_forks s, prev_var_refs = num_var_refs s,
    prev_labels = num_labels s, prev_stacks = num_stacks s, f_next = nxt\<rparr>"

definition add_linked_fixup :: "fixup_kind \<Rightarrow> nat \<Rightarrow> nat option \<Rightarrow> cstate \<Rightarrow> nat \<times> cstate" where
  "add_linked_fixup kind value nxt s = add_known_fixup (counted_fixup kind value nxt s) s"

definition add_fixup :: "fixup_kind \<Rightarrow> nat \<Rightarrow> cstate \<Rightarrow> cstate" where
  "add_fixup kind value s = snd (add_linked_fixup kind value None s)"

text \<open>Literals are shared when they have the same type and are equal, with case.\<close>

fun find_literal :: "var \<Rightarrow> var list \<Rightarrow> nat option" where
  "find_literal v [] = Some 0"
| "find_literal v (l # ls) =
    (if type_of v = type_of l
     then (case equality v l True of
       Inl _ \<Rightarrow> None
     | Inr eq \<Rightarrow> if eq then Some 0 else map_option Suc (find_literal v ls))
     else map_option Suc (find_literal v ls))"

definition add_literal :: "var \<Rightarrow> cstate \<Rightarrow> cstate option" where
  "add_literal v s = (do {
     let ls = g_literals (gstate s);
     i \<leftarrow> find_literal v ls;
     let s = (if i = length ls then s\<lparr>gstate := (gstate s)\<lparr>g_literals := ls @ [v]\<rparr>\<rparr> else s);
     let s = add_fixup FIXUP_LITERAL i s;
     Some (s\<lparr>num_literals := num_literals s + 1, max_literal := max i (max_literal s)\<rparr>)
   })"

definition add_fork :: "bytecodes \<Rightarrow> cstate \<Rightarrow> cstate" where
  "add_fork b s =
    (let i = length (g_fork_vectors (gstate s));
         s = s\<lparr>gstate := (gstate s)\<lparr>g_fork_vectors := g_fork_vectors (gstate s) @ [b]\<rparr>\<rparr>;
         s = add_fixup FIXUP_FORK i s
     in s\<lparr>num_forks := num_forks s + 1, max_fork := max i (max_fork s)\<rparr>)"

definition add_var_ref :: "nat \<Rightarrow> cstate \<Rightarrow> cstate" where
  "add_var_ref slot s =
    (let s = add_fixup FIXUP_VAR_REF slot s
     in s\<lparr>num_var_refs := num_var_refs s + 1, max_var_ref := max slot (max_var_ref s),
          gstate := (gstate s)\<lparr>total_var_refs := total_var_refs (gstate s) + 1\<rparr>\<rparr>)"

definition add_linked_label :: "nat option \<Rightarrow> cstate \<Rightarrow> nat \<times> cstate" where
  "add_linked_label nxt s =
    (let (label, s) = add_linked_fixup FIXUP_LABEL 0 nxt s in (label, s\<lparr>num_labels := num_labels s + 1\<rparr>))"

definition add_label :: "cstate \<Rightarrow> nat \<times> cstate" where
  "add_label s = add_linked_label None s"

definition add_known_label :: "fixup \<Rightarrow> cstate \<Rightarrow> cstate" where
  "add_known_label f s = (let (_, s) = add_known_fixup f s in s\<lparr>num_labels := num_labels s + 1\<rparr>)"

definition add_pseudo_label :: "nat \<Rightarrow> cstate \<Rightarrow> cstate" where
  "add_pseudo_label value s =
    (let (_, s) = add_known_fixup \<lparr>f_kind = FIXUP_LABEL, f_pc = 0, f_value = value, prev_literals = 0, prev_forks = 0,
       prev_var_refs = 0, prev_labels = 0, prev_stacks = 0, f_next = None\<rparr> s
     in s\<lparr>num_labels := num_labels s + 1\<rparr>)"

definition capture_label :: "cstate \<Rightarrow> fixup" where
  "capture_label s = counted_fixup FIXUP_LABEL (num_bytes s) None s"

text \<open>The loop over a chain of labels. Every link is made to a fixup that exists already, so a chain leads to ever
  smaller indices.\<close>

definition set_label :: "cstate \<Rightarrow> fixup \<Rightarrow> fixup" where
  "set_label s f = f\<lparr>f_value := num_bytes s, prev_literals := num_literals s, prev_forks := num_forks s,
     prev_var_refs := num_var_refs s, prev_labels := num_labels s, prev_stacks := num_stacks s\<rparr>"

function define_chain :: "nat \<Rightarrow> cstate \<Rightarrow> cstate option" where
  "define_chain label s =
    (if label < length (fixups s) then
       (let f = fixups s ! label; s' = s\<lparr>fixups := (fixups s)[label := set_label s f]\<rparr>
        in case f_next f of
             None \<Rightarrow> Some s'
           | Some nxt \<Rightarrow> if nxt < label then define_chain nxt s' else None)
     else None)"
  by pat_completeness auto
termination by (relation "measure fst") auto

declare define_chain.simps [simp del]

definition define_label :: "nat option \<Rightarrow> cstate \<Rightarrow> cstate option" where
  "define_label label s = (case label of None \<Rightarrow> Some s | Some l \<Rightarrow> define_chain l s)"

definition add_stack_ref :: "nat \<Rightarrow> cstate \<Rightarrow> cstate" where
  "add_stack_ref index s = add_fixup FIXUP_STACK index s"

subsection \<open>Stack depth and loops\<close>

text \<open>The generator never pops more than it has pushed, so the truncated subtraction is the unsigned one.\<close>

definition push_stack :: "nat \<Rightarrow> cstate \<Rightarrow> cstate" where
  "push_stack n s = s\<lparr>cur_stack := cur_stack s + n, cs_max_stack := max (cur_stack s + n) (cs_max_stack s)\<rparr>"

definition pop_stack :: "nat \<Rightarrow> cstate \<Rightarrow> cstate" where
  "pop_stack n s = s\<lparr>cur_stack := cur_stack s - n\<rparr>"

definition save_stack_top :: "cstate \<Rightarrow> nat option \<times> cstate" where
  "save_stack_top s = (saved_stack s, s\<lparr>saved_stack := Some (cur_stack s - 1)\<rparr>)"

definition restore_stack_top :: "nat option \<Rightarrow> cstate \<Rightarrow> cstate" where
  "restore_stack_top old s = s\<lparr>saved_stack := old\<rparr>"

definition enter_loop :: "int \<Rightarrow> fixup \<Rightarrow> nat \<Rightarrow> nat option \<Rightarrow> nat \<Rightarrow> cstate \<Rightarrow> cstate" where
  "enter_loop i tlabel tstack bottom bstack s = s\<lparr>loops :=
    \<lparr>loop_id = i, top_label = tlabel, top_stack = tstack, bottom_label = bottom, bottom_stack = bstack\<rparr> # loops s\<rparr>"

definition exit_loop :: "cstate \<Rightarrow> (nat option \<times> cstate) option" where
  "exit_loop s = (case loops s of [] \<Rightarrow> None | l # ls \<Rightarrow> Some (bottom_label l, s\<lparr>loops := ls\<rparr>))"

text \<open>The instructions for variables: one byte for the first slots, an operand for the others.\<close>

definition emit_push :: "nat \<Rightarrow> cstate \<Rightarrow> cstate" where
  "emit_push slot s = (if NUM_READY_VARS \<le> slot then add_var_ref slot (emit_op OP_G_PUSH s) else emit_op (OP_PUSH slot) s)"

definition emit_put :: "nat \<Rightarrow> cstate \<Rightarrow> cstate" where
  "emit_put slot s = (if NUM_READY_VARS \<le> slot then add_var_ref slot (emit_op OP_G_PUT s) else emit_op (OP_PUT slot) s)"


subsection \<open>Expressions\<close>

definition binary_op :: "binary_kind \<Rightarrow> opcode option" where
  "binary_op k = (case k of
     EXPR_EQ \<Rightarrow> Some OP_EQ | EXPR_NE \<Rightarrow> Some OP_NE | EXPR_GE \<Rightarrow> Some OP_GE | EXPR_GT \<Rightarrow> Some OP_GT
   | EXPR_LE \<Rightarrow> Some OP_LE | EXPR_LT \<Rightarrow> Some OP_LT | EXPR_IN \<Rightarrow> Some OP_IN
   | EXPR_PLUS \<Rightarrow> Some OP_ADD | EXPR_MINUS \<Rightarrow> Some OP_MINUS | EXPR_TIMES \<Rightarrow> Some OP_MULT
   | EXPR_DIVIDE \<Rightarrow> Some OP_DIV | EXPR_MOD \<Rightarrow> Some OP_MOD | EXPR_PROP \<Rightarrow> Some OP_GET_PROP
   | _ \<Rightarrow> None)"

text \<open>The counts of the targets of a scattering assignment: all, the required ones, and the position of the one
  that takes the rest.\<close>

fun scatter_rest :: "nat \<Rightarrow> scatter list \<Rightarrow> nat option" where
  "scatter_rest nargs [] = None"
| "scatter_rest nargs (Scatter k _ _ # sc) =
    (case scatter_rest (nargs + 1) sc of
       Some r \<Rightarrow> Some r
     | None \<Rightarrow> if k = SCAT_REST then Some (nargs + 1) else None)"

definition scatter_counts :: "scatter list \<Rightarrow> nat \<times> nat \<times> nat" where
  "scatter_counts sc =
    (let nargs = length sc;
         nreq = length (filter (\<lambda>x. case x of Scatter k _ _ \<Rightarrow> k = SCAT_REQUIRED) sc);
         rest = (case scatter_rest 0 sc of None \<Rightarrow> nargs + 1 | Some r \<Rightarrow> r)
     in (nargs, nreq, rest))"

text \<open>The operands of the targets; the result lists the labels of the default expressions.\<close>

fun scatter_targets :: "scatter list \<Rightarrow> cstate \<Rightarrow> nat option list \<times> cstate" where
  "scatter_targets [] s = ([], s)"
| "scatter_targets (Scatter k i e # sc) s =
    (let s = add_var_ref i s;
         (l, s) = (if k \<noteq> SCAT_OPTIONAL then (None, add_pseudo_label 0 s)
                   else case e of None \<Rightarrow> (None, add_pseudo_label 1 s)
                        | Some _ \<Rightarrow> (let (l, s) = add_label s in (Some l, s)));
         (ls, s) = scatter_targets sc s
     in (l # ls, s))"

text \<open>Storing through an lvalue, from the inside out.\<close>

fun put_lvalue :: "expr \<Rightarrow> cstate \<Rightarrow> cstate option" where
  "put_lvalue (EXPR_RANGE e from to) s = put_lvalue e (pop_stack 3 (emit_extended_byte EOP_RANGESET s))"
| "put_lvalue (EXPR_BINARY EXPR_INDEX lhs rhs) s = put_lvalue lhs (pop_stack 2 (emit_op OP_INDEXSET s))"
| "put_lvalue (EXPR_ID i) s = Some (emit_put i s)"
| "put_lvalue (EXPR_BINARY EXPR_PROP lhs rhs) s = Some (pop_stack 2 (emit_op OP_PUT_PROP s))"
| "put_lvalue _ s = None"

fun is_indexed :: "expr \<Rightarrow> bool" where
  "is_indexed (EXPR_RANGE e from to) = True"
| "is_indexed (EXPR_BINARY EXPR_INDEX lhs rhs) = True"
| "is_indexed _ = False"

definition push_number :: "int \<Rightarrow> cstate \<Rightarrow> cstate" where
  "push_number n s = push_stack 1 (emit_op (OPTIM_NUM n) s)"

text \<open>Arguments: the first element makes the list, the others extend it.\<close>

fun generate_expr :: "expr \<Rightarrow> cstate \<Rightarrow> cstate option"
  and generate_args :: "arg list \<Rightarrow> bool \<Rightarrow> cstate \<Rightarrow> cstate option"
  and push_lvalue :: "expr \<Rightarrow> bool \<Rightarrow> cstate \<Rightarrow> cstate option"
  and generate_codes :: "arg list \<Rightarrow> cstate \<Rightarrow> cstate option"
  and scatter_defaults :: "scatter list \<Rightarrow> nat option list \<Rightarrow> cstate \<Rightarrow> cstate option"
where
  "generate_args [] first s = (if first then Some (push_stack 1 (emit_op OP_MAKE_EMPTY_LIST s)) else Some s)"
| "generate_args (Arg k e # args) first s = (do {
     s \<leftarrow> generate_expr e s;
     let s = emit_op (if k = ARG_NORMAL then (if first then OP_MAKE_SINGLETON_LIST else OP_LIST_ADD_TAIL)
                      else (if first then OP_CHECK_LIST_FOR_SPLICE else OP_LIST_APPEND)) s;
     let s = pop_stack (if first then 0 else 1) s;
     generate_args args False s
   })"
| "generate_codes codes s = (if codes = [] then Some (push_number 0 s) else generate_args codes True s)"
| "push_lvalue (EXPR_RANGE e from to) indexed_above s = (do {
     s \<leftarrow> push_lvalue e True s;
     let (old, s) = save_stack_top s;
     s \<leftarrow> generate_expr from s;
     s \<leftarrow> generate_expr to s;
     Some (restore_stack_top old s)
   })"
| "push_lvalue (EXPR_BINARY EXPR_INDEX lhs rhs) indexed_above s = (do {
     s \<leftarrow> push_lvalue lhs True s;
     let (old, s) = save_stack_top s;
     s \<leftarrow> generate_expr rhs s;
     let s = restore_stack_top old s;
     Some (if indexed_above then push_stack 1 (emit_op OP_PUSH_REF s) else s)
   })"
| "push_lvalue (EXPR_ID i) indexed_above s =
    Some (if indexed_above then push_stack 1 (emit_push i s) else s)"
| "push_lvalue (EXPR_BINARY EXPR_PROP lhs rhs) indexed_above s = (do {
     s \<leftarrow> generate_expr lhs s;
     s \<leftarrow> generate_expr rhs s;
     Some (if indexed_above then push_stack 1 (emit_op OP_PUSH_GET_PROP s) else s)
   })"
| "push_lvalue _ indexed_above s = None"
| "scatter_defaults (Scatter k i (Some e) # sc) (Some l # ls) s = (do {
     s \<leftarrow> define_label (Some l) s;
     s \<leftarrow> generate_expr e s;
     let s = emit_put i s;
     let s = pop_stack 1 (emit_op OP_POP s);
     scatter_defaults sc ls s
   })"
| "scatter_defaults (_ # sc) (_ # ls) s = scatter_defaults sc ls s"
| "scatter_defaults _ _ s = Some s"
| "generate_expr (EXPR_VAR v) s =
    (case v of
       VInt n \<Rightarrow> if in_optim_num_range n then Some (push_number n s)
                 else map_option (push_stack 1) (add_literal v (emit_op OP_IMM s))
     | _ \<Rightarrow> map_option (push_stack 1) (add_literal v (emit_op OP_IMM s)))"
| "generate_expr (EXPR_ID i) s = Some (push_stack 1 (emit_push i s))"
| "generate_expr (EXPR_NEGATE e) s = map_option (emit_op OP_UNARY_MINUS) (generate_expr e s)"
| "generate_expr (EXPR_NOT e) s = map_option (emit_op OP_NOT) (generate_expr e s)"
| "generate_expr (EXPR_BINARY k lhs rhs) s =
    (if k = EXPR_AND \<or> k = EXPR_OR then (do {
       s \<leftarrow> generate_expr lhs s;
       let s = emit_op (if k = EXPR_AND then OP_AND else OP_OR) s;
       let (end_label, s) = add_label s;
       let s = pop_stack 1 s;
       s \<leftarrow> generate_expr rhs s;
       define_label (Some end_label) s
     })
     else if k = EXPR_EXP then (do {
       s \<leftarrow> generate_expr lhs s;
       s \<leftarrow> generate_expr rhs s;
       Some (pop_stack 1 (emit_extended_byte EOP_EXP s))
     })
     else if k = EXPR_INDEX then (do {
       s \<leftarrow> generate_expr lhs s;
       let (old, s) = save_stack_top s;
       s \<leftarrow> generate_expr rhs s;
       let s = restore_stack_top old s;
       Some (pop_stack 1 (emit_op OP_REF s))
     })
     else if k = EXPR_ASGN then
       (case lhs of
          EXPR_SCATTER sc \<Rightarrow> (do {
            s \<leftarrow> generate_expr rhs s;
            let (nargs, nreq, rest) = scatter_counts sc;
            let s = emit_byte rest (emit_byte nreq (emit_byte nargs (emit_extended_byte EOP_SCATTER s)));
            let (ls, s) = scatter_targets sc s;
            let (done, s) = add_label s;
            s \<leftarrow> scatter_defaults sc ls s;
            define_label (Some done) s
          })
        | _ \<Rightarrow> (do {
            s \<leftarrow> push_lvalue lhs False s;
            s \<leftarrow> generate_expr rhs s;
            s \<leftarrow> put_lvalue lhs (if is_indexed lhs then emit_op OP_PUT_TEMP s else s);
            Some (if is_indexed lhs then emit_op OP_PUSH_TEMP (emit_op OP_POP s) else s)
          }))
     else (do {
       s \<leftarrow> generate_expr lhs s;
       s \<leftarrow> generate_expr rhs s;
       op \<leftarrow> binary_op k;
       Some (pop_stack 1 (emit_op op s))
     }))"
| "generate_expr (EXPR_RANGE e from to) s = (do {
     s \<leftarrow> generate_expr e s;
     let (old, s) = save_stack_top s;
     s \<leftarrow> generate_expr from s;
     s \<leftarrow> generate_expr to s;
     let s = restore_stack_top old s;
     Some (pop_stack 2 (emit_op OP_RANGE_REF s))
   })"
| "generate_expr EXPR_LENGTH s =
    (case saved_stack s of
       None \<Rightarrow> None
     | Some saved \<Rightarrow> Some (push_stack 1 (add_stack_ref saved (emit_extended_byte EOP_LENGTH s))))"
| "generate_expr (EXPR_LIST args) s = generate_args args True s"
| "generate_expr (EXPR_CALL func args) s = (do {
     s \<leftarrow> generate_args args True s;
     Some (emit_byte func (emit_op OP_BI_FUNC_CALL s))
   })"
| "generate_expr (EXPR_VERB obj verb args) s = (do {
     s \<leftarrow> generate_expr obj s;
     s \<leftarrow> generate_expr verb s;
     s \<leftarrow> generate_args args True s;
     Some (pop_stack 2 (emit_op OP_CALL_VERB s))
   })"
| "generate_expr (EXPR_COND c e1 e2) s = (do {
     s \<leftarrow> generate_expr c s;
     let (else_label, s) = add_label (emit_op OP_IF_QUES s);
     let s = pop_stack 1 s;
     s \<leftarrow> generate_expr e1 s;
     let (end_label, s) = add_label (emit_op OP_JUMP s);
     let s = pop_stack 1 s;
     s \<leftarrow> define_label (Some else_label) s;
     s \<leftarrow> generate_expr e2 s;
     define_label (Some end_label) s
   })"
| "generate_expr (EXPR_CATCH e codes except) s = (do {
     s \<leftarrow> generate_codes codes s;
     let (handler_label, s) = add_label (emit_extended_byte EOP_PUSH_LABEL s);
     let s = push_stack 1 s;
     let s = push_stack 1 (emit_extended_byte EOP_CATCH s);
     s \<leftarrow> generate_expr e s;
     let (end_label, s) = add_label (emit_extended_byte EOP_END_CATCH s);
     let s = pop_stack 3 s;
     s \<leftarrow> define_label (Some handler_label) s;
     s \<leftarrow> (case except of
         Some x \<Rightarrow> generate_expr x (pop_stack 1 (emit_op OP_POP s))
       | None \<Rightarrow> Some (emit_op OP_REF (emit_op (OPTIM_NUM 1) s)));
     define_label (Some end_label) s
   })"
| "generate_expr (EXPR_SCATTER sc) s = None"


subsection \<open>The second pass\<close>

definition ref_size :: "nat \<Rightarrow> nat" where
  "ref_size rmax = (if rmax \<le> 256 then 1 else if rmax \<le> 256 * 256 then 2 else 4)"

record sizes =
  literal_size :: nat
  fork_size :: nat
  var_size :: nat
  label_size :: nat
  stack_size :: nat

definition chosen_sizes :: "cstate \<Rightarrow> sizes" where
  "chosen_sizes s =
    (let l = ref_size (max (max_literal s) (length (g_literals (gstate s))));
         f = ref_size (max (max_fork s) (length (g_fork_vectors (gstate s))));
         v = ref_size (max (max_var_ref s) (total_var_refs (gstate s)));
         n = num_bytes s + (l - 1) * num_literals s + (f - 1) * num_forks s + (v - 1) * num_var_refs s
     in \<lparr>literal_size = l, fork_size = f, var_size = v,
          label_size = (if n \<le> 256 then 1 else if n + num_labels s \<le> 256 * 256 then 2 else 4),
          stack_size = ref_size (cs_max_stack s)\<rparr>)"

text \<open>The size of the vector that is allocated.\<close>

definition allocated_size :: "cstate \<Rightarrow> nat" where
  "allocated_size s =
    (let z = chosen_sizes s
     in num_bytes s + (literal_size z - 1) * num_literals s + (fork_size z - 1) * num_forks s +
        (var_size z - 1) * num_var_refs s + (label_size z - 1) * num_labels s)"

definition fixup_size :: "sizes \<Rightarrow> fixup_kind \<Rightarrow> nat" where
  "fixup_size z k = (case k of FIXUP_LITERAL \<Rightarrow> literal_size z | FIXUP_FORK \<Rightarrow> fork_size z
     | FIXUP_VAR_REF \<Rightarrow> var_size z | FIXUP_STACK \<Rightarrow> stack_size z | FIXUP_LABEL \<Rightarrow> label_size z)"

definition fixup_result :: "sizes \<Rightarrow> fixup \<Rightarrow> nat" where
  "fixup_result z f =
    (if f_kind f = FIXUP_LABEL
     then f_value f + prev_literals f * (literal_size z - 1) + prev_forks f * (fork_size z - 1) +
       prev_var_refs f * (var_size z - 1) + prev_labels f * (label_size z - 1) + prev_stacks f * (stack_size z - 1)
     else f_value f)"

definition operand_bytes :: "nat \<Rightarrow> nat \<Rightarrow> 8 word list" where
  "operand_bytes n v =
    (if n = 4 then [word_of_nat (v div 2 ^ 24), word_of_nat (v div 2 ^ 16), word_of_nat (v div 2 ^ 8), word_of_nat v]
     else if n = 2 then [word_of_nat (v div 2 ^ 8), word_of_nat v]
     else [word_of_nat v])"

fun relocate :: "sizes \<Rightarrow> nat \<Rightarrow> 8 word list \<Rightarrow> fixup list \<Rightarrow> 8 word list" where
  "relocate z i [] fs = []"
| "relocate z i (b # bs) [] = b # relocate z (i + 1) bs []"
| "relocate z i (b # bs) (f # fs) =
    (if f_pc f = i then operand_bytes (fixup_size z (f_kind f)) (fixup_result z f) @ relocate z (i + 1) bs fs
     else b # relocate z (i + 1) bs (f # fs))"

text \<open>The bytes are written without checks: a result longer than the allocated vector overruns it.\<close>

definition assemble :: "cstate \<Rightarrow> bytecodes option" where
  "assemble s =
    (let z = chosen_sizes s; v = relocate z 0 (bytes s) (fixups s)
     in if cur_stack s = 0 \<and> saved_stack s = None \<and> length v \<le> allocated_size s
        then Some \<lparr>numbytes_label = label_size z, numbytes_literal = literal_size z, numbytes_fork = fork_size z,
          numbytes_var_name = var_size z, numbytes_stack = stack_size z, vector = v, max_stack = cs_max_stack s\<rparr>
        else None)"

subsection \<open>Statements\<close>

text \<open>The codes and handler labels of a \<open>try\<close> statement.\<close>

fun except_labels :: "except_arm list \<Rightarrow> cstate \<Rightarrow> (nat list \<times> cstate) option" where
  "except_labels [] s = Some ([], s)"
| "except_labels (Except_Arm i codes body # ex) s = (do {
     s \<leftarrow> generate_codes codes s;
     let (l, s) = add_label (emit_extended_byte EOP_PUSH_LABEL s);
     let s = push_stack 1 s;
     (ls, s) \<leftarrow> except_labels ex s;
     Some (l # ls, s)
   })"

text \<open>Leaving a loop: the innermost one, or the one with the given id.\<close>

fun find_loop :: "int \<Rightarrow> loop list \<Rightarrow> nat option" where
  "find_loop i [] = None"
| "find_loop i (l # ls) = (if loop_id l = i then Some 0 else map_option Suc (find_loop i ls))"

definition exit_target :: "int \<Rightarrow> cstate \<Rightarrow> (nat \<times> cstate) option" where
  "exit_target i s =
    (if i = -1 then (if loops s = [] then None else Some (0, emit_extended_byte EOP_EXIT s))
     else (do {
       k \<leftarrow> find_loop i (loops s);
       Some (k, add_var_ref (nat i) (emit_extended_byte EOP_EXIT_ID s))
     }))"

definition generate_continue :: "int \<Rightarrow> cstate \<Rightarrow> cstate option" where
  "generate_continue i s = (do {
     (k, s) \<leftarrow> exit_target i s;
     let l = loops s ! k;
     Some (add_known_label (top_label l) (add_stack_ref (top_stack l) s))
   })"

definition generate_break :: "int \<Rightarrow> cstate \<Rightarrow> cstate option" where
  "generate_break i s = (do {
     (k, s) \<leftarrow> exit_target i s;
     let l = loops s ! k;
     let (label, s) = add_linked_label (bottom_label l) (add_stack_ref (bottom_stack l) s);
     Some (s\<lparr>loops := (loops s)[k := l\<lparr>bottom_label := Some label\<rparr>]\<rparr>)
   })"

text \<open>The end of a loop: jump to its top, and define the label of everything that leaves it.\<close>

definition close_loop :: "fixup \<Rightarrow> cstate \<Rightarrow> cstate option" where
  "close_loop top_l s = (do {
     (end_label, s) \<leftarrow> exit_loop s;
     define_label end_label (add_known_label top_l (emit_op OP_JUMP s))
   })"

fun generate_stmt :: "stmt \<Rightarrow> cstate \<Rightarrow> cstate option"
  and generate_stmts :: "stmt list \<Rightarrow> cstate \<Rightarrow> cstate option"
  and generate_arms :: "cond_arm list \<Rightarrow> opcode \<Rightarrow> nat option \<Rightarrow> cstate \<Rightarrow> (nat option \<times> cstate) option"
  and generate_handlers :: "except_arm list \<Rightarrow> nat list \<Rightarrow> nat option \<Rightarrow> cstate \<Rightarrow> (nat option \<times> cstate) option"
where
  "generate_stmts [] s = Some s"
| "generate_stmts (st # sts) s = (do { s \<leftarrow> generate_stmt st s; generate_stmts sts s })"
| "generate_arms [] if_op end_label s = Some (end_label, s)"
| "generate_arms (Cond_Arm c body # arms) if_op end_label s = (do {
     s \<leftarrow> generate_expr c s;
     let (else_label, s) = add_label (emit_op if_op s);
     let s = pop_stack 1 s;
     s \<leftarrow> generate_stmts body s;
     let (end_label, s) = add_linked_label end_label (emit_op OP_JUMP s);
     s \<leftarrow> define_label (Some else_label) s;
     generate_arms arms OP_EIF (Some end_label) s
   })"
| "generate_handlers (Except_Arm i codes body # ex) (l # ls) end_label s = (do {
     s \<leftarrow> define_label (Some l) s;
     let s = push_stack 1 s;
     let s = (if 0 \<le> i then emit_put (nat i) s else s);
     let s = pop_stack 1 (emit_op OP_POP s);
     s \<leftarrow> generate_stmts body s;
     if ex = [] then Some (end_label, s)
     else (do {
       let (end_label, s) = add_linked_label end_label (emit_op OP_JUMP s);
       generate_handlers ex ls (Some end_label) s
     })
   })"
| "generate_handlers _ _ end_label s = Some (end_label, s)"
| "generate_stmt (STMT_COND arms otherwise) s = (do {
     (end_label, s) \<leftarrow> generate_arms arms OP_IF None s;
     s \<leftarrow> generate_stmts otherwise s;
     define_label end_label s
   })"
| "generate_stmt (STMT_LIST i e body) s = (do {
     s \<leftarrow> generate_expr e s;
     let s = push_number 1 s;
     let loop_top = capture_label s;
     let s = add_var_ref (nat i) (emit_op OP_FOR_LIST s);
     let (end_label, s) = add_label s;
     let s = enter_loop i loop_top (cur_stack s) (Some end_label) (cur_stack s - 2) s;
     s \<leftarrow> generate_stmts body s;
     s \<leftarrow> close_loop loop_top s;
     Some (pop_stack 2 s)
   })"
| "generate_stmt (STMT_RANGE i from to body) s = (do {
     s \<leftarrow> generate_expr from s;
     s \<leftarrow> generate_expr to s;
     let loop_top = capture_label s;
     let s = add_var_ref (nat i) (emit_op OP_FOR_RANGE s);
     let (end_label, s) = add_label s;
     let s = enter_loop i loop_top (cur_stack s) (Some end_label) (cur_stack s - 2) s;
     s \<leftarrow> generate_stmts body s;
     s \<leftarrow> close_loop loop_top s;
     Some (pop_stack 2 s)
   })"
| "generate_stmt (STMT_WHILE i c body) s = (do {
     let loop_top = capture_label s;
     s \<leftarrow> generate_expr c s;
     let s = (if i = -1 then emit_op OP_WHILE s else add_var_ref (nat i) (emit_extended_byte EOP_WHILE_ID s));
     let (end_label, s) = add_label s;
     let s = pop_stack 1 s;
     let s = enter_loop i loop_top (cur_stack s) (Some end_label) (cur_stack s) s;
     s \<leftarrow> generate_stmts body s;
     close_loop loop_top s
   })"
| "generate_stmt (STMT_FORK i time body) s = (do {
     s \<leftarrow> generate_expr time s;
     let s = emit_op (if 0 \<le> i then OP_FORK_WITH_ID else OP_FORK) s;
     fs \<leftarrow> generate_stmts body (init_state (gstate s));
     let fs = emit_op OP_DONE fs;
     b \<leftarrow> assemble fs;
     let s = add_fork b (s\<lparr>gstate := gstate fs\<rparr>);
     let s = (if 0 \<le> i then add_var_ref (nat i) s else s);
     Some (pop_stack 1 s)
   })"
| "generate_stmt (STMT_EXPR e) s = map_option (\<lambda>s. pop_stack 1 (emit_op OP_POP s)) (generate_expr e s)"
| "generate_stmt (STMT_RETURN e) s = (case e of
     Some e \<Rightarrow> map_option (\<lambda>s. pop_stack 1 (emit_op OP_RETURN s)) (generate_expr e s)
   | None \<Rightarrow> Some (emit_op OP_RETURN0 s))"
| "generate_stmt (STMT_TRY_EXCEPT body ex) s = (do {
     (ls, s) \<leftarrow> except_labels ex s;
     let s = push_stack 1 (emit_byte (length ex) (emit_extended_byte EOP_TRY_EXCEPT s));
     s \<leftarrow> generate_stmts body s;
     let (end_label, s) = add_label (emit_extended_byte EOP_END_EXCEPT s);
     let s = pop_stack (2 * length ex + 1) s;
     (end_label, s) \<leftarrow> generate_handlers ex ls (Some end_label) s;
     define_label end_label s
   })"
| "generate_stmt (STMT_TRY_FINALLY body handler) s = (do {
     let (handler_label, s) = add_label (emit_extended_byte EOP_TRY_FINALLY s);
     let s = push_stack 1 s;
     s \<leftarrow> generate_stmts body s;
     let s = pop_stack 1 (emit_extended_byte EOP_END_FINALLY s);
     s \<leftarrow> define_label (Some handler_label) s;
     let s = push_stack 2 s;
     s \<leftarrow> generate_stmts handler s;
     Some (pop_stack 2 (emit_extended_byte EOP_CONTINUE s))
   })"
| "generate_stmt (STMT_BREAK i) s = generate_break i s"
| "generate_stmt (STMT_CONTINUE i) s = generate_continue i s"

definition stmt_to_code :: "stmt list \<Rightarrow> gstate \<Rightarrow> (bytecodes \<times> gstate) option" where
  "stmt_to_code body gs = (do {
     s \<leftarrow> generate_stmts body (init_state gs);
     let s = emit_op OP_DONE s;
     b \<leftarrow> assemble s;
     Some (b, gstate s)
   })"

text \<open>The parser sets the names of the variables and the first line afterwards.\<close>

definition generate_code :: "stmt list \<Rightarrow> nat \<Rightarrow> program option" where
  "generate_code body version = (do {
     (b, gs) \<leftarrow> stmt_to_code body init_gstate;
     Some \<lparr>prog_version = version, first_lineno = 1, main_vector = b, literals = g_literals gs,
       fork_vectors = g_fork_vectors gs, var_names = [], cached_lineno = 1, cached_lineno_pc = 0,
       cached_lineno_vec = MAIN_VECTOR\<rparr>
   })"

end
