(* ===== verification/Typing.thy ===== *)
theory Typing
  imports TaskStart CodeGen "HOL-Library.Sublist"
begin

text \<open>
  Types for compiled code. A typing gives every instruction of a vector the shape of the run-time stack before it
  and whether the temporary register holds a value. \<open>transfer\<close> is the verifier: from the type before an instruction it
  computes the types behind it, or refuses. Code is well-typed when the type at every instruction is what
  the instructions that lead there produce.
\<close>

subsection \<open>Slots\<close>

text \<open>What a slot of the stack holds: a value of the language; the position in the list of a \<open>for\<close> loop; the
  address of a handler; the markers of \<open>try\<close>; and, in a \<open>finally\<close> clause, what to do at its end, which takes two
  places: the value on top of the reason.\<close>

datatype slot = KVal | KCount | KPc nat | KCatch nat | KFinally nat | KCont

fun width :: "slot \<Rightarrow> nat" where
  "width KCont = 2"
| "width _ = 1"

definition depth :: "slot list \<Rightarrow> nat" where
  "depth ts = sum_list (map width ts)"

type_synonym ftype = "bool \<times> slot list"
type_synonym typing = "nat \<Rightarrow> ftype option"

text \<open>Control may go to \<open>pc\<close> with this type. A handler is entered without a value in the register.\<close>

definition arrives :: "typing \<Rightarrow> nat \<Rightarrow> ftype \<Rightarrow> bool" where
  "arrives T pc ty = (case T pc of None \<Rightarrow> False | Some (t, ts) \<Rightarrow> ts = snd ty \<and> (t \<longrightarrow> fst ty))"

text \<open>The handlers below a marker, and the part of the stack that is left with \<open>d\<close> values.\<close>

fun pairs :: "nat \<Rightarrow> slot list \<Rightarrow> (nat list \<times> slot list) option" where
  "pairs 0 ts = Some ([], ts)"
| "pairs (Suc n) (KPc l # KVal # ts) = map_option (\<lambda>(ls, us). (l # ls, us)) (pairs n ts)"
| "pairs (Suc n) _ = None"

fun cut_at :: "nat \<Rightarrow> slot list \<Rightarrow> slot list option" where
  "cut_at d [] = (if d = 0 then Some [] else None)"
| "cut_at d (k # ts) = (if depth (k # ts) = d then Some (k # ts) else cut_at d ts)"

fun val_at :: "nat \<Rightarrow> slot list \<Rightarrow> bool" where
  "val_at d [] = False"
| "val_at d (k # ts) = (if depth ts = d then k = KVal else val_at d ts)"

text \<open>The handlers of all markers are reached with the stack below them.\<close>

fun shape :: "typing \<Rightarrow> slot list \<Rightarrow> bool" where
  "shape T [] = True"
| "shape T (k # ts) = (shape T ts \<and>
    (case k of
       KCatch n \<Rightarrow> (case pairs n ts of
           None \<Rightarrow> False
         | Some (ls, us) \<Rightarrow> \<forall>l \<in> set ls. arrives T l (False, KVal # us))
     | KFinally l \<Rightarrow> arrives T l (False, KCont # ts)
     | _ \<Rightarrow> True))"

subsection \<open>Instructions\<close>

text \<open>Instructions that only take values from the stack and leave values there: how many.\<close>

definition plain :: "opcode \<Rightarrow> (nat \<times> nat) option" where
  "plain op = (case op of
     OP_POP \<Rightarrow> Some (1, 0)
   | OP_MAKE_EMPTY_LIST \<Rightarrow> Some (0, 1)
   | OP_LIST_ADD_TAIL \<Rightarrow> Some (2, 1)
   | OP_LIST_APPEND \<Rightarrow> Some (2, 1)
   | OP_INDEXSET \<Rightarrow> Some (3, 1)
   | OP_MAKE_SINGLETON_LIST \<Rightarrow> Some (1, 1)
   | OP_CHECK_LIST_FOR_SPLICE \<Rightarrow> Some (1, 1)
   | OP_EQ \<Rightarrow> Some (2, 1) | OP_NE \<Rightarrow> Some (2, 1) | OP_GT \<Rightarrow> Some (2, 1)
   | OP_LT \<Rightarrow> Some (2, 1) | OP_GE \<Rightarrow> Some (2, 1) | OP_LE \<Rightarrow> Some (2, 1) | OP_IN \<Rightarrow> Some (2, 1)
   | OP_MULT \<Rightarrow> Some (2, 1) | OP_MINUS \<Rightarrow> Some (2, 1) | OP_DIV \<Rightarrow> Some (2, 1)
   | OP_MOD \<Rightarrow> Some (2, 1) | OP_ADD \<Rightarrow> Some (2, 1)
   | OP_NOT \<Rightarrow> Some (1, 1) | OP_UNARY_MINUS \<Rightarrow> Some (1, 1)
   | OP_REF \<Rightarrow> Some (2, 1) | OP_PUSH_REF \<Rightarrow> Some (2, 3) | OP_RANGE_REF \<Rightarrow> Some (3, 1)
   | OP_GET_PROP \<Rightarrow> Some (2, 1) | OP_PUSH_GET_PROP \<Rightarrow> Some (2, 3) | OP_PUT_PROP \<Rightarrow> Some (3, 1)
   | OP_CALL_VERB \<Rightarrow> Some (3, 1)
   | OPTIM_NUM n \<Rightarrow> Some (0, 1)
   | _ \<Rightarrow> None)"

definition plain_eop :: "extended_opcode \<Rightarrow> (nat \<times> nat) option" where
  "plain_eop op = (case op of EOP_RANGESET \<Rightarrow> Some (4, 1) | EOP_EXP \<Rightarrow> Some (2, 1) | _ \<Rightarrow> None)"

definition swap_vals :: "nat \<times> nat \<Rightarrow> slot list \<Rightarrow> slot list option" where
  "swap_vals nm ts = (if take (fst nm) ts = replicate (fst nm) KVal
     then Some (replicate (snd nm) KVal @ drop (fst nm) ts) else None)"

text \<open>Operands: their value and the place behind them.\<close>

definition rd :: "bytecodes \<Rightarrow> nat \<Rightarrow> nat \<Rightarrow> (nat \<times> nat) option" where
  "rd bc n pc = map_option (\<lambda>x. (x, pc + n)) (read_bytes (vector bc) pc n)"

abbreviation rd_label :: "bytecodes \<Rightarrow> nat \<Rightarrow> (nat \<times> nat) option" where
  "rd_label bc \<equiv> rd bc (numbytes_label bc)"

definition rd_below :: "nat \<Rightarrow> bytecodes \<Rightarrow> nat \<Rightarrow> nat \<Rightarrow> (nat \<times> nat) option" where
  "rd_below bound bc n pc = (do { (x, pc) \<leftarrow> rd bc n pc; if x < bound then Some (x, pc) else None })"

abbreviation rd_slot :: "program \<Rightarrow> bytecodes \<Rightarrow> nat \<Rightarrow> (nat \<times> nat) option" where
  "rd_slot p bc \<equiv> rd_below (length (var_names p)) bc (numbytes_var_name bc)"

text \<open>The targets of a scattering assignment: the places of their labels, and the end.\<close>

fun rd_targets :: "program \<Rightarrow> bytecodes \<Rightarrow> nat \<Rightarrow> nat \<Rightarrow> (nat list \<times> nat) option" where
  "rd_targets p bc 0 pc = Some ([], pc)"
| "rd_targets p bc (Suc n) pc = (do {
     (_, pc) \<leftarrow> rd_slot p bc pc;
     (l, pc) \<leftarrow> rd_label bc pc;
     (ls, pc) \<leftarrow> rd_targets p bc n pc;
     Some (l # ls, pc)
   })"

text \<open>The required targets are those with the label zero, but for the one that takes the rest.\<close>

definition required :: "nat \<Rightarrow> nat list \<Rightarrow> nat" where
  "required rpos ls = length (filter (\<lambda>(i, l). l = 0 \<and> i \<noteq> rpos) (enumerate 1 ls))"

definition rest_ok :: "nat \<Rightarrow> nat list \<Rightarrow> bool" where
  "rest_ok rpos ls \<longleftrightarrow> 1 \<le> rpos \<and> (rpos \<le> length ls \<longrightarrow> ls ! (rpos - 1) = 0)"

definition go :: "bool \<Rightarrow> slot list \<Rightarrow> nat \<Rightarrow> nat \<times> ftype" where
  "go t ts pc = (pc, (t, ts))"

text \<open>The types behind an extended instruction; \<open>pc\<close> is the place behind its number.\<close>

definition transfer_eop :: "program \<Rightarrow> bytecodes \<Rightarrow> extended_opcode \<Rightarrow> nat \<Rightarrow> bool \<Rightarrow> slot list \<Rightarrow> (nat \<times> ftype) list option" where
  "transfer_eop p bc op pc t ts = (case op of
     EOP_LENGTH \<Rightarrow> (do {
       (i, pc) \<leftarrow> rd bc (numbytes_stack bc) pc;
       if val_at i ts then Some [go t (KVal # ts) pc] else None
     })
   | EOP_SCATTER \<Rightarrow> (do {
       (nargs, pc) \<leftarrow> rd bc 1 pc;
       (nreq, pc) \<leftarrow> rd bc 1 pc;
       (rpos, pc) \<leftarrow> rd bc 1 pc;
       (ls, pc) \<leftarrow> rd_targets p bc nargs pc;
       (done, pc) \<leftarrow> rd_label bc pc;
       if ts \<noteq> [] \<and> hd ts = KVal \<and> nreq = required rpos ls \<and> rest_ok rpos ls
       then Some (map (go t ts) (filter (\<lambda>l. 1 < l) ls @ [done])) else None
     })
   | EOP_PUSH_LABEL \<Rightarrow> (do { (l, pc) \<leftarrow> rd_label bc pc; Some [go t (KPc l # ts) pc] })
   | EOP_TRY_FINALLY \<Rightarrow> (do { (l, pc) \<leftarrow> rd_label bc pc; Some [go t (KFinally l # ts) pc] })
   | EOP_CATCH \<Rightarrow> Some [go t (KCatch 1 # ts) pc]
   | EOP_TRY_EXCEPT \<Rightarrow> (do { (n, pc) \<leftarrow> rd bc 1 pc; Some [go t (KCatch n # ts) pc] })
   | EOP_END_CATCH \<Rightarrow> (case ts of
       KVal # KCatch n # us \<Rightarrow> (do {
         (ls, us) \<leftarrow> pairs n us;
         (l, pc) \<leftarrow> rd_label bc pc;
         Some [go t (KVal # us) l]
       })
     | _ \<Rightarrow> None)
   | EOP_END_EXCEPT \<Rightarrow> (case ts of
       KCatch n # us \<Rightarrow> (do {
         (ls, us) \<leftarrow> pairs n us;
         (l, pc) \<leftarrow> rd_label bc pc;
         Some [go t us l]
       })
     | _ \<Rightarrow> None)
   | EOP_END_FINALLY \<Rightarrow> (case ts of KFinally l # us \<Rightarrow> Some [go t (KCont # us) pc] | _ \<Rightarrow> None)
   | EOP_CONTINUE \<Rightarrow> (case ts of KCont # us \<Rightarrow> Some [go t us pc] | _ \<Rightarrow> None)
   | EOP_WHILE_ID \<Rightarrow> (case ts of
       KVal # us \<Rightarrow> (do {
         (_, pc) \<leftarrow> rd_slot p bc pc;
         (l, pc) \<leftarrow> rd_label bc pc;
         Some [go t us l, go t us pc]
       })
     | _ \<Rightarrow> None)
   | EOP_EXIT_ID \<Rightarrow> (do {
       (d, pc) \<leftarrow> rd bc (numbytes_stack bc) (pc + numbytes_var_name bc);
       (l, pc) \<leftarrow> rd_label bc pc;
       us \<leftarrow> cut_at d ts;
       Some [go False us l]
     })
   | EOP_EXIT \<Rightarrow> (do {
       (d, pc) \<leftarrow> rd bc (numbytes_stack bc) pc;
       (l, pc) \<leftarrow> rd_label bc pc;
       us \<leftarrow> cut_at d ts;
       Some [go False us l]
     })
   | _ \<Rightarrow> (do { nm \<leftarrow> plain_eop op; us \<leftarrow> swap_vals nm ts; Some [go t us pc] }))"

definition transfer_op :: "program \<Rightarrow> bytecodes \<Rightarrow> opcode \<Rightarrow> nat \<Rightarrow> bool \<Rightarrow> slot list \<Rightarrow> (nat \<times> ftype) list option" where
  "transfer_op p bc op pc t ts =
    (let test = (case ts of
         KVal # us \<Rightarrow> (do { (l, pc) \<leftarrow> rd_label bc pc; Some [go t us l, go t us pc] })
       | _ \<Rightarrow> None);
       both = (case ts of
         KVal # us \<Rightarrow> (do { (l, pc) \<leftarrow> rd_label bc pc; Some [go t ts l, go t us pc] })
       | _ \<Rightarrow> None);
       put = (\<lambda>pc. case ts of KVal # us \<Rightarrow> Some [go t ts pc] | _ \<Rightarrow> None);
       loop = (do {
         (_, pc) \<leftarrow> rd_slot p bc pc;
         (l, pc) \<leftarrow> rd_label bc pc;
         Some [go t (drop 2 ts) l, go t ts pc]
       })
     in case op of
       OP_IF \<Rightarrow> test | OP_WHILE \<Rightarrow> test | OP_EIF \<Rightarrow> test | OP_IF_QUES \<Rightarrow> test
     | OP_AND \<Rightarrow> both | OP_OR \<Rightarrow> both
     | OP_JUMP \<Rightarrow> (do { (l, pc) \<leftarrow> rd_label bc pc; Some [go t ts l] })
     | OP_FOR_LIST \<Rightarrow> if take 2 ts = [KCount, KVal] then loop else None
     | OP_FOR_RANGE \<Rightarrow> if take 2 ts = [KVal, KVal] then loop else None
     | OP_IMM \<Rightarrow> (do {
         (_, pc) \<leftarrow> rd_below (length (literals p)) bc (numbytes_literal bc) pc;
         _ \<leftarrow> byte_at (vector bc) pc;
         Some [go t (KVal # ts) pc]
       })
     | OP_PUT_TEMP \<Rightarrow> (case ts of KVal # us \<Rightarrow> Some [go True ts pc] | _ \<Rightarrow> None)
     | OP_PUSH_TEMP \<Rightarrow> if t then Some [go False (KVal # ts) pc] else None
     | OP_G_PUT \<Rightarrow> (do { (_, pc) \<leftarrow> rd_slot p bc pc; put pc })
     | OP_G_PUSH \<Rightarrow> (do { (_, pc) \<leftarrow> rd_slot p bc pc; Some [go t (KVal # ts) pc] })
     | OP_PUSH i \<Rightarrow> if i < length (var_names p) then Some [go t (KVal # ts) pc] else None
     | OP_PUT i \<Rightarrow> if i < length (var_names p) then (do { _ \<leftarrow> byte_at (vector bc) pc; put pc }) else None
     | OP_FORK \<Rightarrow> (do {
         (_, pc) \<leftarrow> rd_below (length (fork_vectors p)) bc (numbytes_fork bc) pc;
         us \<leftarrow> swap_vals (1, 0) ts;
         Some [go t us pc]
       })
     | OP_FORK_WITH_ID \<Rightarrow> (do {
         (_, pc) \<leftarrow> rd_below (length (fork_vectors p)) bc (numbytes_fork bc) pc;
         (_, pc) \<leftarrow> rd_slot p bc pc;
         us \<leftarrow> swap_vals (1, 0) ts;
         Some [go t us pc]
       })
     | OP_RETURN \<Rightarrow> (case ts of KVal # us \<Rightarrow> Some [] | _ \<Rightarrow> None)
     | OP_RETURN0 \<Rightarrow> Some []
     | OP_DONE \<Rightarrow> Some []
     | OP_BI_FUNC_CALL \<Rightarrow> (do { (_, pc) \<leftarrow> rd bc 1 pc; us \<leftarrow> swap_vals (1, 1) ts; Some [go t us pc] })
     | OP_EXTENDED \<Rightarrow> (do {
         b \<leftarrow> byte_at (vector bc) pc;
         eop \<leftarrow> eop_of b;
         transfer_eop p bc eop (pc + 1) t ts
       })
     | _ \<Rightarrow> (do { nm \<leftarrow> plain op; us \<leftarrow> swap_vals nm ts; Some [go t us pc] }))"

definition transfer :: "program \<Rightarrow> bytecodes \<Rightarrow> nat \<Rightarrow> bool \<Rightarrow> slot list \<Rightarrow> (nat \<times> ftype) list option" where
  "transfer p bc pc t ts = (do {
     b \<leftarrow> byte_at (vector bc) pc;
     op \<leftarrow> opcode_of b;
     transfer_op p bc op (pc + 1) t ts
   })"

subsection \<open>Well-typed code\<close>

text \<open>A number that is at least one can also start the count of a loop over a list.\<close>

definition counts :: "bytecodes \<Rightarrow> nat \<Rightarrow> bool" where
  "counts bc pc \<longleftrightarrow> (case byte_at (vector bc) pc of None \<Rightarrow> False
     | Some b \<Rightarrow> (case opcode_of b of Some (OPTIM_NUM n) \<Rightarrow> 1 \<le> n | _ \<Rightarrow> False))"

definition instr_ok :: "program \<Rightarrow> bytecodes \<Rightarrow> typing \<Rightarrow> nat \<Rightarrow> bool \<Rightarrow> slot list \<Rightarrow> bool" where
  "instr_ok p bc T pc t ts \<longleftrightarrow> depth ts \<le> max_stack bc \<and> shape T ts \<and>
    (case transfer p bc pc t ts of None \<Rightarrow> False
     | Some ss \<Rightarrow> (\<forall>(l, ty) \<in> set ss. arrives T l ty) \<or> (counts bc pc \<and> arrives T (pc + 1) (t, KCount # ts)))"

definition wt :: "program \<Rightarrow> bytecodes \<Rightarrow> typing \<Rightarrow> bool" where
  "wt p bc T \<longleftrightarrow> T 0 = Some (False, []) \<and> (\<forall>pc t ts. T pc = Some (t, ts) \<longrightarrow> instr_ok p bc T pc t ts)"

text \<open>The same for a typing that is a list, which can be checked.\<close>

definition check :: "program \<Rightarrow> bytecodes \<Rightarrow> (nat \<times> ftype) list \<Rightarrow> bool" where
  "check p bc xs \<longleftrightarrow> map_of xs 0 = Some (False, []) \<and>
    list_all (\<lambda>(pc, t, ts). instr_ok p bc (map_of xs) pc t ts) xs"

lemma check_wt: "check p bc xs \<Longrightarrow> wt p bc (map_of xs)"
  by (fastforce simp: check_def wt_def list_all_iff dest: map_of_SomeD)

definition least_vars :: "program \<Rightarrow> nat" where
  "least_vars p = (if DBV_Float \<le> prog_version p then 18 else 16)"

definition program_ok :: "program \<Rightarrow> bool" where
  "program_ok p \<longleftrightarrow> (\<forall>v \<in> set (literals p). user_value v) \<and> least_vars p \<le> length (var_names p) \<and>
    (\<forall>bc \<in> insert (main_vector p) (set (fork_vectors p)). \<exists>T. wt p bc T)"

end
