(* ===== verification/Frames.thy ===== *)
theory Frames
  imports Typing
begin

text \<open>
  Activations that conform to the types of their code. A frame \<open>runs\<close> when its stack has the type of the instruction
  it stands at, \<open>waits\<close> when it has that type but for the value of the call it made, and is
  \<open>raisable\<close> when errors can be raised in it, which only needs the handlers on its stack.
\<close>

subsection \<open>Stacks\<close>

definition exit_ok :: "typing \<Rightarrow> slot list \<Rightarrow> nat \<Rightarrow> nat \<Rightarrow> bool" where
  "exit_ok T ts d l \<longleftrightarrow> (case cut_at d ts of None \<Rightarrow> False | Some us \<Rightarrow> arrives T l (False, us))"

text \<open>The value that goes with a reason. An exit carries the depth and the address of its target.\<close>

definition exit_value :: "typing \<Rightarrow> slot list \<Rightarrow> var \<Rightarrow> bool" where
  "exit_value T ts v \<longleftrightarrow> (\<exists>d l vs. v = VList (VInt (int d) # VInt (int l) # vs) \<and> exit_ok T ts d l)"

definition raise_value :: "var \<Rightarrow> bool" where
  "raise_value v \<longleftrightarrow> (case v of VList (c # vs) \<Rightarrow> True | _ \<Rightarrow> False)"

definition reason_ok :: "typing \<Rightarrow> slot list \<Rightarrow> finally_reason \<Rightarrow> var \<Rightarrow> bool" where
  "reason_ok T ts why v \<longleftrightarrow> user_value v \<and>
    (why = FIN_RAISE \<longrightarrow> raise_value v) \<and> (why = FIN_EXIT \<longrightarrow> exit_value T ts v)"

definition cont_ok :: "typing \<Rightarrow> slot list \<Rightarrow> int \<Rightarrow> var \<Rightarrow> bool" where
  "cont_ok T ts r v \<longleftrightarrow>
    list_ex (\<lambda>why. r = reason_number why \<and> reason_ok T ts why v) [FIN_FALL_THRU, FIN_RAISE, FIN_UNCAUGHT, FIN_RETURN, FIN_EXIT]"

fun fits :: "slot \<Rightarrow> var \<Rightarrow> bool" where
  "fits KVal v = user_value v"
| "fits KCount v = (case v of VInt n \<Rightarrow> 1 \<le> n | _ \<Rightarrow> False)"
| "fits (KPc l) v = (v = VInt (int l))"
| "fits (KCatch n) v = (v = VCatch (int n))"
| "fits (KFinally l) v = (v = VFinally (int l))"
| "fits KCont v = False"

fun conf :: "typing \<Rightarrow> slot list \<Rightarrow> var list \<Rightarrow> bool" where
  "conf T [] vs = (vs = [])"
| "conf T (k # ts) vs =
    (if k = KCont then (case vs of v # VInt r # ws \<Rightarrow> cont_ok T ts r v \<and> conf T ts ws | _ \<Rightarrow> False)
     else (case vs of [] \<Rightarrow> False | v # ws \<Rightarrow> fits k v \<and> conf T ts ws))"

declare conf.simps(2) [simp del]

lemma conf_val [simp]: "conf T (KVal # ts) vs \<longleftrightarrow> (\<exists>v ws. vs = v # ws \<and> user_value v \<and> conf T ts ws)"
  by (cases vs) (auto simp: conf.simps)

lemma conf_count [simp]: "conf T (KCount # ts) vs \<longleftrightarrow> (\<exists>n ws. vs = VInt n # ws \<and> 1 \<le> n \<and> conf T ts ws)"
  by (cases vs) (auto simp: conf.simps split: var.splits)

lemma conf_pc [simp]: "conf T (KPc l # ts) vs \<longleftrightarrow> (\<exists>ws. vs = VInt (int l) # ws \<and> conf T ts ws)"
  by (cases vs) (auto simp: conf.simps)

lemma conf_catch [simp]: "conf T (KCatch n # ts) vs \<longleftrightarrow> (\<exists>ws. vs = VCatch (int n) # ws \<and> conf T ts ws)"
  by (cases vs) (auto simp: conf.simps)

lemma conf_finally [simp]: "conf T (KFinally l # ts) vs \<longleftrightarrow> (\<exists>ws. vs = VFinally (int l) # ws \<and> conf T ts ws)"
  by (cases vs) (auto simp: conf.simps)

lemma conf_cont [simp]: "conf T (KCont # ts) vs \<longleftrightarrow> (\<exists>v r ws. vs = v # VInt r # ws \<and> cont_ok T ts r v \<and> conf T ts ws)"
  by (auto simp: conf.simps split: list.splits var.splits)

lemma depth_simps [simp]: "depth [] = 0" "depth (k # ts) = width k + depth ts" "depth (ts @ us) = depth ts + depth us"
  "depth (replicate n KVal) = n"
  by (simp_all add: depth_def sum_list_replicate)

lemma width_pos: "0 < width k"
  by (cases k) auto

lemma conf_length: "conf T ts vs \<Longrightarrow> length vs = depth ts"
proof (induction ts arbitrary: vs)
  case (Cons k ts)
  then show ?case by (cases k) auto
qed simp

lemma conf_tail: "conf T (k # ts) vs \<Longrightarrow> width k \<le> length vs \<and> conf T ts (drop (width k) vs)"
  by (cases k) auto

lemma conf_split: "conf T (k # ts) vs \<Longrightarrow> \<exists>vs0 ws. vs = vs0 @ ws \<and> length vs0 = width k \<and> conf T ts ws"
  by (rule exI [of _ "take (width k) vs"], rule exI [of _ "drop (width k) vs"]) (use conf_tail in auto)

lemma conf_vals: "conf T (replicate n KVal @ ts) vs \<longleftrightarrow>
    (\<exists>us ws. vs = us @ ws \<and> length us = n \<and> (\<forall>v \<in> set us. user_value v) \<and> conf T ts ws)"
proof (induction n arbitrary: vs)
  case (Suc n)
  show ?case
    by (auto simp: Suc length_Suc_conv) (metis append_Cons length_Cons list.set_intros(1) set_ConsD)+
qed simp

lemma shape_vals [simp]: "shape T (replicate n KVal @ ts) = shape T ts"
  by (induction n) auto

lemma shape_drop: "shape T ts \<Longrightarrow> shape T (drop n ts)"
proof (induction ts arbitrary: n)
  case (Cons k ts)
  then show ?case by (cases n) auto
qed simp

lemma arrivesD: "arrives T pc (t, ts) \<Longrightarrow> \<exists>t'. T pc = Some (t', ts) \<and> (t' \<longrightarrow> t)"
  by (auto simp: arrives_def split: option.splits)

subsection \<open>Cutting stacks\<close>

lemma cut_at_SomeD: "cut_at d ts = Some us \<Longrightarrow> suffix us ts \<and> depth us = d"
  by (induction ts) (auto split: if_splits simp: suffix_Cons)

lemma cut_at_conf:
  assumes "cut_at d ts = Some us" "conf T ts vs"
  shows "d \<le> length vs \<and> conf T us (drop (length vs - d) vs)"
  using assms
proof (induction ts arbitrary: vs)
  case Nil
  then show ?case by (auto split: if_splits)
next
  case (Cons k ts)
  show ?case
  proof (cases "depth (k # ts) = d")
    case True
    then show ?thesis using Cons.prems conf_length [OF Cons.prems(2)] by auto
  next
    case False
    with Cons.prems have c: "cut_at d ts = Some us" by auto
    obtain vs0 ws where vs: "vs = vs0 @ ws" "length vs0 = width k" "conf T ts ws"
      using conf_split [OF Cons.prems(2)] by blast
    have IH: "d \<le> length ws" "conf T us (drop (length ws - d) ws)" using Cons.IH [OF c vs(3)] by auto
    then show ?thesis using vs by (simp add: Suc_diff_le)
  qed
qed

lemma cut_at_shape: "cut_at d ts = Some us \<Longrightarrow> shape T ts \<Longrightarrow> shape T us"
  by (auto dest!: cut_at_SomeD simp: suffix_def) (metis append_eq_conv_conj shape_drop)

lemma val_at_conf:
  assumes "val_at i ts" "conf T ts vs"
  shows "\<exists>v. nth_opt (List.rev vs) i = Some v \<and> user_value v"
  using assms
proof (induction ts arbitrary: vs)
  case (Cons k ts)
  show ?case
  proof (cases "depth ts = i")
    case True
    with Cons.prems obtain v ws where v: "vs = v # ws" "user_value v" "conf T ts ws" by auto
    then show ?thesis using conf_length [OF v(3)] True by (simp add: nth_opt_def nth_append)
  next
    case False
    with Cons.prems have "val_at i ts" by auto
    moreover obtain vs0 ws where vs: "vs = vs0 @ ws" "conf T ts ws"
      using conf_split [OF Cons.prems(2)] by blast
    ultimately obtain v where "nth_opt (List.rev ws) i = Some v" "user_value v" using Cons.IH by blast
    then show ?thesis using vs(1) by (auto simp: nth_opt_def nth_append split: if_splits)
  qed
qed simp

lemma pairs_conf:
  assumes "pairs n ts = Some (ls, us)" "conf T ts vs"
  shows "2 * n \<le> length vs \<and> length ls = n \<and> conf T us (drop (2 * n) vs)"
  using assms
proof (induction n ts arbitrary: vs ls rule: pairs.induct)
  case (2 n l ts)
  then obtain ls' where ls': "pairs n ts = Some (ls', us)" "ls = l # ls'" by (auto split: option.splits prod.splits)
  obtain v ws where vs: "vs = VInt (int l) # v # ws" "conf T ts ws" using 2(3) by auto
  show ?case using "2.IH" [OF ls'(1) vs(2)] vs ls' by auto
qed auto

lemma pairs_depth: "pairs n ts = Some (ls, us) \<Longrightarrow> depth ts = 2 * n + depth us"
  by (induction n ts arbitrary: ls rule: pairs.induct) auto

lemma pairs_shape: "pairs n ts = Some (ls, us) \<Longrightarrow> shape T ts \<Longrightarrow> shape T us"
  by (induction n ts arbitrary: ls rule: pairs.induct) auto

subsection \<open>Frames\<close>

text \<open>The places at which a built-in function goes on when the verb it has called returns: its number, the place, and its
  data. A frame that no function has called has the place zero.\<close>

definition resumable :: "resumptions \<Rightarrow> nat \<Rightarrow> nat \<Rightarrow> nat \<Rightarrow> bool" where
  "resumable RS f pc data \<longleftrightarrow> pc = 0 \<or> (f, pc, data) \<in> RS"

lemma resumable_zero [simp]: "resumable RS f 0 data"
  by (simp add: resumable_def)

definition env_ok :: "var list \<Rightarrow> bool" where
  "env_ok env \<longleftrightarrow> (\<forall>v \<in> set env. v = VNone \<or> user_value v)"

definition sound :: "resumptions \<Rightarrow> program \<Rightarrow> bytecodes \<Rightarrow> typing \<Rightarrow> activation \<Rightarrow> bool" where
  "sound RS pr bc T a \<longleftrightarrow> a_prog a = pr \<and> program_ok pr \<and> wt pr bc T \<and> resumable RS (a_bi_func_id a) (a_bi_func_pc a) (a_bi_func_data a) \<and>
    length (a_env a) = length (var_names pr) \<and> env_ok (a_env a) \<and> a_stack_size a = max_stack bc \<and>
    user_value (a_THISOBJ a) \<and> c_string (a_verb a) \<and> c_string (a_verbname a)"

definition has_type :: "typing \<Rightarrow> activation \<Rightarrow> ftype \<Rightarrow> bool" where
  "has_type T a ty \<longleftrightarrow> conf T (snd ty) (a_stack a) \<and> (fst ty \<longrightarrow> user_value (a_temp a))"

definition runs :: "typing \<Rightarrow> activation \<Rightarrow> bool" where
  "runs T a \<longleftrightarrow> (case T (a_pc a) of None \<Rightarrow> False | Some ty \<Rightarrow> has_type T a ty)"

definition waits :: "typing \<Rightarrow> activation \<Rightarrow> bool" where
  "waits T a \<longleftrightarrow> (case T (a_pc a) of None \<Rightarrow> False
    | Some (t, ts) \<Rightarrow> ts \<noteq> [] \<and> hd ts = KVal \<and> has_type T a (t, tl ts))"

lemma waitsD: "waits T a \<Longrightarrow> \<exists>t ts. T (a_pc a) = Some (t, KVal # ts) \<and> conf T ts (a_stack a) \<and> (t \<longrightarrow> user_value (a_temp a))"
  by (cases "T (a_pc a)") (auto simp: waits_def has_type_def neq_Nil_conv)

lemma waitsI: "arrives T (a_pc a) (t, KVal # ts) \<Longrightarrow> conf T ts (a_stack a) \<Longrightarrow> (t \<Longrightarrow> user_value (a_temp a)) \<Longrightarrow> waits T a"
  by (auto simp: waits_def has_type_def arrives_def split: option.splits)

definition raisable :: "bytecodes \<Rightarrow> typing \<Rightarrow> activation \<Rightarrow> bool" where
  "raisable bc T a \<longleftrightarrow> (\<exists>ts. shape T ts \<and> depth ts \<le> max_stack bc \<and> conf T ts (a_stack a))"

lemma runsI: "arrives T (a_pc a) (t, ts) \<Longrightarrow> conf T ts (a_stack a) \<Longrightarrow> (t \<Longrightarrow> user_value (a_temp a)) \<Longrightarrow> runs T a"
  by (auto simp: runs_def has_type_def dest!: arrivesD)

lemma wt_instr: "wt p bc T \<Longrightarrow> T pc = Some (t, ts) \<Longrightarrow> instr_ok p bc T pc t ts"
  by (auto simp: wt_def)

lemma wt_shape: "wt p bc T \<Longrightarrow> T pc = Some (t, ts) \<Longrightarrow> shape T ts \<and> depth ts \<le> max_stack bc"
  using wt_instr by (auto simp: instr_ok_def)

lemma wt_arrives: "wt p bc T \<Longrightarrow> arrives T pc (t, ts) \<Longrightarrow> shape T ts \<and> depth ts \<le> max_stack bc"
  using wt_shape by (auto dest!: arrivesD)

lemma sound_wt: "sound RS pr bc T a \<Longrightarrow> wt pr bc T"
  by (simp add: sound_def)

lemma sound_size: "sound RS pr bc T a \<Longrightarrow> a_stack_size a = max_stack bc"
  by (simp add: sound_def)

lemma runs_raisable: "sound RS pr bc T a \<Longrightarrow> runs T a \<Longrightarrow> raisable bc T a"
  by (auto simp: runs_def raisable_def sound_def has_type_def split: option.splits dest: wt_shape)

lemma waits_raisable:
  assumes "sound RS pr bc T a" "waits T a"
  shows "raisable bc T a"
proof -
  from assms(2) obtain t ts where T: "T (a_pc a) = Some (t, KVal # ts)" "conf T ts (a_stack a)"
    using waitsD by blast
  have "shape T (KVal # ts)" "depth (KVal # ts) \<le> max_stack bc"
    using wt_shape [OF sound_wt [OF assms(1)] T(1)] sound_size [OF assms(1)] by auto
  with T show ?thesis unfolding raisable_def by auto
qed

lemma waits_push:
  assumes "sound RS pr bc T a" "waits T a" "user_value v"
  shows "\<exists>b. push v a = Some b \<and> b = a\<lparr>a_stack := v # a_stack a\<rparr> \<and> sound RS pr bc T b \<and> runs T b"
proof -
  from assms(2) obtain t ts where T: "T (a_pc a) = Some (t, KVal # ts)" "conf T ts (a_stack a)" "t \<longrightarrow> user_value (a_temp a)"
    using waitsD by blast
  have "depth (KVal # ts) \<le> a_stack_size a"
    using wt_shape [OF sound_wt [OF assms(1)] T(1)] sound_size [OF assms(1)] by auto
  then show ?thesis using T assms conf_length [OF T(2)]
    by (auto simp: push_def runs_def has_type_def sound_def)
qed

text \<open>What an instruction may answer.\<close>

definition effect_ok :: "resumptions \<Rightarrow> program \<Rightarrow> bytecodes \<Rightarrow> typing \<Rightarrow> effect option \<Rightarrow> bool" where
  "effect_ok RS pr bc T eff \<longleftrightarrow> (case eff of
     None \<Rightarrow> False
   | Some (Next a) \<Rightarrow> sound RS pr bc T a \<and> runs T a
   | Some (Error e a k) \<Rightarrow> sound RS pr bc T a \<and> raisable bc T a \<and>
       (case k of None \<Rightarrow> False | Some b \<Rightarrow> sound RS pr bc T b \<and> runs T b))"

lemma effect_ok_simps [simp]:
  "\<not> effect_ok RS pr bc T None"
  "effect_ok RS pr bc T (Some (Next a)) \<longleftrightarrow> sound RS pr bc T a \<and> runs T a"
  "effect_ok RS pr bc T (Some (Error e a k)) \<longleftrightarrow> sound RS pr bc T a \<and> raisable bc T a \<and>
     (\<exists>b. k = Some b \<and> sound RS pr bc T b \<and> runs T b)"
  by (auto simp: effect_ok_def split: option.splits)

lemma sound_upd [simp]:
  "sound RS pr bc T (a\<lparr>a_stack := st\<rparr>) = sound RS pr bc T a"
  "sound RS pr bc T (a\<lparr>a_pc := pc\<rparr>) = sound RS pr bc T a"
  "sound RS pr bc T (a\<lparr>a_error_pc := pc\<rparr>) = sound RS pr bc T a"
  "sound RS pr bc T (a\<lparr>a_temp := v\<rparr>) = sound RS pr bc T a"
  "sound RS pr bc T (a\<lparr>a_progr := u\<rparr>) = sound RS pr bc T a"
  by (simp_all add: sound_def)

lemma sound_bi_func: "sound RS pr bc T a \<Longrightarrow> resumable RS f k d \<Longrightarrow>
    sound RS pr bc T (a\<lparr>a_bi_func_id := f, a_bi_func_pc := k, a_bi_func_data := d\<rparr>)"
  by (simp add: sound_def)

end
