(* ===== verification/PlainSafety.thy ===== *)
theory PlainSafety
  imports Frames
begin

text \<open>
  Safety of the instructions that take values from the stack and leave values there.
\<close>

subsection \<open>Values stay values\<close>

lemma user_sublist: "\<forall>v \<in> set vs. user_value v \<Longrightarrow> sublist vs m n = Inr r \<Longrightarrow> \<forall>v \<in> set r. user_value v"
  by (auto simp: sublist_def split: if_splits dest!: in_set_takeD in_set_dropD)

lemma user_listrangeset: "\<forall>v \<in> set vs. user_value v \<Longrightarrow> \<forall>v \<in> set ws. user_value v \<Longrightarrow>
    listrangeset vs m n ws = Inr r \<Longrightarrow> \<forall>v \<in> set r. user_value v"
  by (auto simp: listrangeset_def Let_def split: if_splits dest!: in_set_takeD in_set_dropD)

lemma user_listset: "\<forall>v \<in> set vs. user_value v \<Longrightarrow> user_value v \<Longrightarrow> listset vs v n = Inr r \<Longrightarrow> \<forall>v \<in> set r. user_value v"
  by (auto simp: listset_def split: if_splits dest!: set_update_subset_insert [THEN subsetD])

lemma c_string_parts [simp]:
  "c_string s \<Longrightarrow> c_string (substr s m n)"
  "c_string s \<Longrightarrow> c_string (strget s n)"
  "c_string s \<Longrightarrow> c_string t \<Longrightarrow> c_string (strrangeset s m n t)"
  by (simp_all add: substr_def strget_def strrangeset_def Let_def)

lemma user_of_bool [simp]: "user_value (of_bool_var b)"
  by (simp add: of_bool_var_def)

lemma equality_total: "user_value a \<Longrightarrow> user_value b \<Longrightarrow> ok (equality a b cm) \<noteq> None"
  by (simp add: equality_var_eq(1))

lemma ismember_total: "user_value v \<Longrightarrow> \<forall>v \<in> set vs. user_value v \<Longrightarrow> \<exists>i. ismember_from k v vs cm = Inr i"
  by (induction vs arbitrary: k) (auto simp: equality_var_eq(1))

subsection \<open>What a plain instruction answers\<close>

text \<open>\<open>m\<close> values on the rest of the stack, or an error that leaves one fewer and is pushed without the debug bit.\<close>

definition answers :: "nat \<Rightarrow> activation \<Rightarrow> var list \<Rightarrow> effect option \<Rightarrow> bool" where
  "answers m a ws eff \<longleftrightarrow>
    (\<exists>vs. length vs = m \<and> (\<forall>v \<in> set vs. user_value v) \<and> eff = Some (Next (a\<lparr>a_stack := vs @ ws\<rparr>))) \<or>
    (\<exists>e rs. Suc (length rs) = m \<and> (\<forall>v \<in> set rs. user_value v) \<and> eff = push_error e (a\<lparr>a_stack := rs @ ws\<rparr>))"

lemma answers_push [simp]:
  "user_value v \<Longrightarrow> length ws < a_stack_size a \<Longrightarrow> answers (Suc 0) a ws (push_next v (a\<lparr>a_stack := ws\<rparr>))"
  unfolding answers_def by (intro disjI1 exI [of _ "[v]"]) (simp add: push_next_def push_def)

lemma answers_error [simp]: "answers (Suc 0) a ws (push_error e (a\<lparr>a_stack := ws\<rparr>))"
  by (auto simp: answers_def)

lemma same_stack: "a_stack a = st \<Longrightarrow> a\<lparr>a_stack := st\<rparr> = a"
  by auto

lemma answers_push3 [simp]:
  "user_value u \<Longrightarrow> user_value v \<Longrightarrow> user_value w \<Longrightarrow> length ws + 2 < a_stack_size a \<Longrightarrow> a_stack a = v # w # ws \<Longrightarrow>
    answers 3 a ws (push_next u a)"
  unfolding answers_def by (intro disjI1 exI [of _ "[u, v, w]"]) (simp add: push_next_def push_def)

lemma answers_error3 [simp]:
  "user_value v \<Longrightarrow> user_value w \<Longrightarrow> a_stack a = v # w # ws \<Longrightarrow> answers 3 a ws (push_error e a)"
  unfolding answers_def by (intro disjI2 exI [of _ e] exI [of _ "[v, w]"]) (simp add: same_stack)

lemma answers_answer [simp]: "(case v of VErr e \<Rightarrow> True | _ \<Rightarrow> user_value v) \<Longrightarrow> length ws < a_stack_size a \<Longrightarrow>
    answers (Suc 0) a ws (push_answer v (a\<lparr>a_stack := ws\<rparr>))"
  by (cases v) (auto simp: push_answer_def)

lemma stack_simps [simp]:
  "a_stack a = v # ws \<Longrightarrow> pop a = Some (v, a\<lparr>a_stack := ws\<rparr>)"
  "a_stack a = v # ws \<Longrightarrow> top_value a = Some v"
  "a_stack a = v # w # ws \<Longrightarrow> next_top_value a = Some w"
  by (simp_all add: pop_def top_value_def next_top_value_def)

text \<open>A frame at an instruction, whose program counter is already behind the number.\<close>

definition ready :: "resumptions \<Rightarrow> program \<Rightarrow> bytecodes \<Rightarrow> typing \<Rightarrow> activation \<Rightarrow> bool \<Rightarrow> slot list \<Rightarrow> bool" where
  "ready RS pr bc T a t ts \<longleftrightarrow> sound RS pr bc T a \<and> conf T ts (a_stack a) \<and> (t \<longrightarrow> user_value (a_temp a)) \<and>
    shape T ts \<and> depth ts \<le> max_stack bc"

lemma readyD:
  assumes "ready RS pr bc T a t ts"
  shows "sound RS pr bc T a" "conf T ts (a_stack a)" "t \<Longrightarrow> user_value (a_temp a)" "shape T ts" "depth ts \<le> max_stack bc"
    "a_stack_size a = max_stack bc" "length (a_stack a) = depth ts"
  using assms conf_length [of T ts "a_stack a"] by (auto simp: ready_def sound_def)

lemma push_runs:
  assumes "sound RS pr bc T a" "conf T ts (a_stack a)" "t \<Longrightarrow> user_value (a_temp a)" "arrives T (a_pc a) (t, KVal # ts)" "user_value v"
  shows "\<exists>b. push v a = Some b \<and> sound RS pr bc T b \<and> runs T b"
proof -
  have "length (a_stack a) < a_stack_size a"
    using wt_arrives [OF sound_wt [OF assms(1)] assms(4)] conf_length [OF assms(2)] sound_size [OF assms(1)] by auto
  then show ?thesis using assms
    by (auto simp: push_def intro!: runsI [of T _ t "KVal # ts"])
qed

lemma plain_safe:
  assumes r: "ready RS pr bc T a t ts" and sw: "swap_vals (n, m) ts = Some us" and ar: "arrives T (a_pc a) (t, us)"
    and ans: "\<And>vs ws. a_stack a = vs @ ws \<Longrightarrow> length vs = n \<Longrightarrow> \<forall>v \<in> set vs. user_value v \<Longrightarrow> length ws + m \<le> a_stack_size a \<Longrightarrow>
      answers m a ws eff"
  shows "effect_ok RS pr bc T eff"
proof -
  note R = readyD [OF r]
  have ts: "ts = replicate n KVal @ drop n ts" and us: "us = replicate m KVal @ drop n ts"
    using sw by (auto simp: swap_vals_def split: if_splits) (metis append_take_drop_id)
  define rs where "rs = drop n ts"
  have "conf T (replicate n KVal @ rs) (a_stack a)" using R(2) ts by (simp add: rs_def)
  then obtain vs ws where v: "a_stack a = vs @ ws" "length vs = n" "\<forall>v \<in> set vs. user_value v" "conf T rs ws"
    by (auto simp: conf_vals)
  have b: "shape T us" "depth us \<le> max_stack bc" using wt_arrives [OF sound_wt [OF R(1)] ar] by auto
  have len: "length ws + m \<le> a_stack_size a" using b(2) us conf_length [OF v(4)] R(6) by (simp add: rs_def)
  from ans [OF v(1-3) len] consider
    xs where "length xs = m" "\<forall>v \<in> set xs. user_value v" "eff = Some (Next (a\<lparr>a_stack := xs @ ws\<rparr>))" |
    e xs where "Suc (length xs) = m" "\<forall>v \<in> set xs. user_value v" "eff = push_error e (a\<lparr>a_stack := xs @ ws\<rparr>)"
    by (auto simp: answers_def)
  then show ?thesis
  proof cases
    case 1
    then have "conf T us (xs @ ws)" using v(4) us by (auto simp: conf_vals rs_def)
    with 1 show ?thesis using R(1,3) ar by (auto intro!: runsI [of T _ t us])
  next
    case 2
    then have c: "conf T (replicate (length xs) KVal @ rs) (xs @ ws)" using v(4) by (auto simp: conf_vals)
    have us': "us = KVal # replicate (length xs) KVal @ rs" using us 2(1) by (auto simp: rs_def)
    have "raisable bc T (a\<lparr>a_stack := xs @ ws\<rparr>)"
      unfolding raisable_def using c b us' by (intro exI [of _ "replicate (length xs) KVal @ rs"]) auto
    moreover obtain b where "push (VErr e) (a\<lparr>a_stack := xs @ ws\<rparr>) = Some b" "sound RS pr bc T b" "runs T b"
      using push_runs [of RS pr bc T "a\<lparr>a_stack := xs @ ws\<rparr>" "replicate (length xs) KVal @ rs" t "VErr e"] R(1,3) c ar us' by auto
    ultimately show ?thesis using 2 R(1) by (auto simp: push_error_def)
  qed
qed

subsection \<open>The instructions\<close>

text \<open>Lists fit into memory, so that their length is an \<open>int\<close>, and one more too.\<close>

fun small_value :: "var \<Rightarrow> bool" where
  "small_value (VList vs) = (int (length vs) < 2 ^ 31 - 1 \<and> (\<forall>v \<in> set vs. small_value v))"
| "small_value (VStr s) = (int (length s) < 2 ^ 31 - 1)"
| "small_value _ = True"

definition fits_memory :: "var list \<Rightarrow> bool" where
  "fits_memory st \<longleftrightarrow> list_all small_value st"

text \<open>The two instructions of this version that end in a memory error or a trap of the processor: a range whose
  bounds are not the ones that were checked, once they have lost their high halves, and the one quotient that is no 64-bit
  integer.\<close>

definition bad_range :: "var list \<Rightarrow> bool" where
  "bad_range st \<longleftrightarrow> (case st of
     VInt n # VInt m # VList vs # ws \<Rightarrow> n < m \<and> to_int32 m \<le> to_int32 n \<and>
       \<not> (1 \<le> to_int32 m \<and> to_int32 n \<le> int (length vs))
   | _ \<Rightarrow> False)"

definition bad_quotient :: "var list \<Rightarrow> bool" where
  "bad_quotient st \<longleftrightarrow> (case st of VInt n # VInt m # ws \<Rightarrow> m = num_min \<and> n = -1 | _ \<Rightarrow> False)"

definition traps :: "opcode \<Rightarrow> var list \<Rightarrow> bool" where
  "traps op st \<longleftrightarrow> (op = OP_RANGE_REF \<and> bad_range st) \<or> ((op = OP_DIV \<or> op = OP_MOD) \<and> bad_quotient st)"

text \<open>Each with the values it needs on the stack.\<close>

lemma equal_op_answers:
  "a_stack a = v # w # ws \<Longrightarrow> user_value v \<Longrightarrow> user_value w \<Longrightarrow> length ws < a_stack_size a \<Longrightarrow> answers (Suc 0) a ws (equal_op eq a)"
  by (simp add: equal_op_def equality_var_eq(1))

lemma numbers_compare:
  "is_number v \<Longrightarrow> is_number w \<Longrightarrow> compare_numbers v w = Inr (VErr E_TYPE) \<or> (\<exists>c. compare_numbers v w = Inr (VInt c))"
  by (cases v; cases w) (auto simp: is_number_def)

lemma user_comparison [simp]: "user_value (finish_comparison op c)"
  by (simp add: finish_comparison_def)

lemma compare_op_answers:
  assumes "a_stack a = v # w # ws" "length ws < a_stack_size a"
  shows "answers (Suc 0) a ws (compare_op op a)"
proof (cases "is_number w \<and> is_number v")
  case True
  with numbers_compare [of w v] show ?thesis using assms by (auto simp: compare_op_def simp del: compare_numbers.simps)
next
  case False
  then show ?thesis using assms by (auto simp: compare_op_def simp del: compare_numbers.simps)
qed

lemma in_op_answers:
  assumes "a_stack a = v # w # ws" "user_value v" "user_value w" "length ws < a_stack_size a"
  shows "answers (Suc 0) a ws (in_op a)"
proof (cases v)
  case (VList vs)
  then obtain i where "ismember w vs False = Inr i" using ismember_total [of w vs 1 False] assms(2,3) by (auto simp: ismember_def)
  with VList assms show ?thesis by (simp add: in_op_def)
next
  case (VStr s)
  then show ?thesis using assms by (cases w) (simp_all add: in_op_def)
qed (use assms in \<open>simp_all add: in_op_def\<close>)

text \<open>Arithmetic never has another result than a number or an error.\<close>

definition number_or_error :: "var \<Rightarrow> bool" where
  "number_or_error v \<longleftrightarrow> (case v of VInt n \<Rightarrow> True | VFloat d \<Rightarrow> True | VErr e \<Rightarrow> True | _ \<Rightarrow> False)"

lemma answers_number [simp]: "number_or_error v \<Longrightarrow> length ws < a_stack_size a \<Longrightarrow> answers (Suc 0) a ws (push_answer v (a\<lparr>a_stack := ws\<rparr>))"
  by (cases v) (simp_all add: number_or_error_def)

lemma number_float [simp]: "number_or_error (float_result d)"
  by (simp add: float_result_def number_or_error_def)

lemma number_simps [simp]: "number_or_error (VInt n)" "number_or_error (VErr e)" "number_or_error (VFloat d)"
  by (simp_all add: number_or_error_def)

lemma simple_binary_number: "is_number v \<Longrightarrow> is_number w \<Longrightarrow> \<exists>r. simple_binary i f v w = Inr r \<and> number_or_error r"
  by (cases v; cases w) (simp_all add: simple_binary_def is_number_def)

lemma division_number:
  "is_number v \<Longrightarrow> is_number w \<Longrightarrow> \<not> (v = VInt num_min \<and> w = VInt (-1)) \<Longrightarrow> \<exists>r. division_op i f v w = Inr r \<and> number_or_error r"
  by (cases v; cases w) (auto simp: division_op_def is_number_def)

lemma power_number: "number_or_error (do_power F v w)"
  by (cases v; cases w) (simp_all add: do_power_def Let_def split: prod.splits)

lemma arith_op_answers:
  assumes "a_stack a = v # w # ws" "length ws < a_stack_size a" "\<not> traps op (a_stack a)" "op \<in> {OP_MULT, OP_MINUS, OP_DIV, OP_MOD}"
  shows "answers (Suc 0) a ws (arith_op F op a)"
proof (cases "is_number w \<and> is_number v")
  case True
  have nd: "\<not> (w = VInt num_min \<and> v = VInt (-1))" if "op = OP_DIV \<or> op = OP_MOD"
    using assms(1,3) that by (auto simp: traps_def bad_quotient_def)
  obtain r where "number_or_error r"
    "(if op = OP_MULT then do_multiply F else if op = OP_MINUS then do_subtract F
      else if op = OP_DIV then do_divide F else do_modulus F) w v = Inr r"
    using simple_binary_number [of w v] division_number [of w v] True nd assms(4)
    by (auto simp: do_multiply_def do_subtract_def do_divide_def do_modulus_def) blast+
  with True assms(1,2) show ?thesis by (simp add: arith_op_def)
next
  case False
  then show ?thesis using assms(1,2) by (auto simp: arith_op_def)
qed

lemma add_op_answers:
  assumes "a_stack a = v # w # ws" "length ws < a_stack_size a" "user_value v" "user_value w"
  shows "answers (Suc 0) a ws (add_op F a)"
proof (cases "is_number w \<and> is_number v")
  case True
  then obtain r where "number_or_error r" "do_add F w v = Inr r" using simple_binary_number [of w v] by (auto simp: do_add_def)
  with True assms show ?thesis by (simp add: add_op_def)
next
  case False
  show ?thesis
  proof (cases "\<exists>s t. w = VStr s \<and> v = VStr t")
    case True
    then show ?thesis using assms by (auto simp: add_op_def is_number_def)
  next
    case False': False
    then have "add_op F a = push_error E_TYPE (a\<lparr>a_stack := ws\<rparr>)"
      using False assms(1) by (cases w; cases v) (auto simp: add_op_def is_number_def)
    then show ?thesis by simp
  qed
qed

lemma exp_op_answers: "a_stack a = v # w # ws \<Longrightarrow> length ws < a_stack_size a \<Longrightarrow> answers (Suc 0) a ws (exp_op F a)"
  by (simp add: exp_op_def power_number)

lemma not_op_answers: "a_stack a = v # ws \<Longrightarrow> length ws < a_stack_size a \<Longrightarrow> answers (Suc 0) a ws (not_op a)"
  by (simp add: not_op_def)

lemma unary_minus_answers: "a_stack a = v # ws \<Longrightarrow> length ws < a_stack_size a \<Longrightarrow> answers (Suc 0) a ws (unary_minus F a)"
  by (cases v) (simp_all add: unary_minus_def)

lemma list_add_tail_answers:
  "a_stack a = v # w # ws \<Longrightarrow> user_value v \<Longrightarrow> user_value w \<Longrightarrow> length ws < a_stack_size a \<Longrightarrow> answers (Suc 0) a ws (list_add_tail a)"
  by (cases w) (simp_all add: list_add_tail_def)

lemma list_append_answers:
  "a_stack a = v # w # ws \<Longrightarrow> user_value v \<Longrightarrow> user_value w \<Longrightarrow> length ws < a_stack_size a \<Longrightarrow> answers (Suc 0) a ws (list_append a)"
  by (cases w; cases v) (auto simp: list_append_def listconcat_def intro!: answers_push)

lemma singleton_answers:
  "a_stack a = v # ws \<Longrightarrow> user_value v \<Longrightarrow> length ws < a_stack_size a \<Longrightarrow> answers (Suc 0) a ws (make_singleton_list a)"
  by (simp add: make_singleton_list_def)

lemma check_list_answers:
  "a_stack a = v # ws \<Longrightarrow> user_value v \<Longrightarrow> answers (Suc 0) a ws (check_list_for_splice a)"
  unfolding check_list_for_splice_def
  by (simp add: answers_def) (auto intro!: exI [of _ "[v]"] simp: same_stack)

lemma plain_ref_answers:
  assumes "user_value l" "length ws < a_stack_size a"
  shows "answers (Suc 0) a ws (plain_ref l i (a\<lparr>a_stack := ws\<rparr>))"
proof (cases i)
  case (VInt n)
  show ?thesis
  proof (cases l)
    case (VList vs)
    show ?thesis
    proof (cases "n \<le> 0 \<or> n > int (length vs)")
      case False
      then have "user_value (vs ! nat (n - 1))" using assms(1) VList by (auto intro!: nth_mem)
      then show ?thesis using False VInt VList assms by (auto simp: plain_ref_def)
    qed (use VInt VList in \<open>simp add: plain_ref_def\<close>)
  qed (use VInt assms in \<open>simp_all add: plain_ref_def\<close>)
qed (cases l; simp add: plain_ref_def)+

lemma push_ref_answers:
  assumes "a_stack a = v # w # ws" "user_value v" "user_value w" "length ws + 2 < a_stack_size a"
  shows "answers 3 a ws (push_ref a)"
proof (cases v)
  case (VInt n)
  show ?thesis
  proof (cases w)
    case (VList vs)
    show ?thesis
    proof (cases "n \<le> 0 \<or> n > int (length vs)")
      case False
      then have "user_value (vs ! nat (n - 1))" using assms(3) VList by (auto intro!: nth_mem)
      from answers_push3 [OF this assms(2,3,4,1)] show ?thesis using False VInt VList assms(1) by (auto simp: push_ref_def)
    qed (use VInt VList assms(1) answers_error3 [OF assms(2,3,1)] in \<open>simp add: push_ref_def\<close>)
  qed (use VInt assms(1) answers_error3 [OF assms(2,3,1)] in \<open>simp_all add: push_ref_def\<close>)
qed (use assms(1) answers_error3 [OF assms(2,3,1)] in \<open>cases w; simp add: push_ref_def\<close>)+

lemma plain_indexset_answers:
  assumes "user_value l" "user_value x" "length ws < a_stack_size a"
  shows "answers (Suc 0) a ws (plain_indexset l i x (a\<lparr>a_stack := ws\<rparr>))"
proof (cases i)
  case (VInt n)
  show ?thesis
  proof (cases l)
    case (VList vs)
    show ?thesis
    proof (cases "n < 1 \<or> n > int (length vs)")
      case False
      then have r: "listset vs x n = Inr (vs[nat (n - 1) := x])" by (simp add: listset_def)
      have "\<forall>v \<in> set (vs[nat (n - 1) := x]). user_value v"
        using user_listset [OF _ assms(2) r] assms(1) VList by simp
      then show ?thesis using False VInt VList assms r by (auto simp: plain_indexset_def)
    qed (use VInt VList in \<open>simp add: plain_indexset_def\<close>)
  next
    case (VStr s)
    then show ?thesis using VInt assms by (cases x) (simp_all add: plain_indexset_def)
  qed (use VInt assms in \<open>simp_all add: plain_indexset_def\<close>)
qed (cases l; simp add: plain_indexset_def)+

lemma range_ref_answers:
  assumes "a_stack a = n # m # l # ws" "user_value l" "length ws < a_stack_size a" "\<not> bad_range (a_stack a)" "fits_memory (a_stack a)"
  shows "answers (Suc 0) a ws (range_ref a)"
proof (cases "\<exists>i j. m = VInt i \<and> n = VInt j")
  case True
  then obtain i j where ij: "m = VInt i" "n = VInt j" by blast
  show ?thesis
  proof (cases l)
    case (VList vs)
    show ?thesis
    proof (cases "i \<le> j \<and> (i \<le> 0 \<or> i > int (length vs) \<or> j \<le> 0 \<or> j > int (length vs))")
      case False
      have len: "int (length vs) < 2 ^ 31 - 1" using assms(1,5) VList by (simp add: fits_memory_def)
      have "\<exists>r. sublist vs (to_int32 i) (to_int32 j) = Inr r"
      proof (cases "i \<le> j")
        case True
        with False have "1 \<le> i" "j \<le> int (length vs)" by auto
        with True len have "to_int32 i = i" "to_int32 j = j" by (auto intro!: to_int32_id simp: is_int32_def)
        with \<open>1 \<le> i\<close> \<open>j \<le> int (length vs)\<close> show ?thesis by (simp add: sublist_def)
      next
        case False
        then show ?thesis using assms(1,4) ij VList by (auto simp: bad_range_def sublist_def)
      qed
      then obtain r where r: "sublist vs (to_int32 i) (to_int32 j) = Inr r" by blast
      then have "\<forall>v \<in> set r. user_value v" using user_sublist [OF _ r] assms(2) VList by simp
      with r False ij VList assms(1,3) show ?thesis by (auto simp: range_ref_def intro!: answers_push)
    qed (use ij VList assms(1) in \<open>simp add: range_ref_def\<close>)
  qed (use ij assms(1-3) in \<open>simp_all add: range_ref_def\<close>)
next
  case False
  then have "range_ref a = push_error E_TYPE (a\<lparr>a_stack := ws\<rparr>)"
    using assms(1) by (cases m; cases n; cases l) (auto simp: range_ref_def)
  then show ?thesis by simp
qed

lemma rangeset_answers:
  assumes "a_stack a = x # n # m # l # ws" "user_value l" "user_value x" "length ws < a_stack_size a" "fits_memory (a_stack a)"
  shows "answers (Suc 0) a ws (rangeset a)"
proof -
  consider i j vs xs where "m = VInt i" "n = VInt j" "l = VList vs" "x = VList xs"
    | i j s t where "m = VInt i" "n = VInt j" "l = VStr s" "x = VStr t"
    | "rangeset a = push_error E_TYPE (a\<lparr>a_stack := ws\<rparr>)"
  proof -
    have "(\<exists>i j. m = VInt i \<and> n = VInt j \<and> ((\<exists>vs xs. l = VList vs \<and> x = VList xs) \<or> (\<exists>s t. l = VStr s \<and> x = VStr t)))
      \<or> rangeset a = push_error E_TYPE (a\<lparr>a_stack := ws\<rparr>)"
    proof (cases "\<exists>i j. m = VInt i \<and> n = VInt j")
      case True
      then show ?thesis using assms(1) by (cases l; cases x) (auto simp: rangeset_def)
    next
      case False
      then show ?thesis using assms(1) by (cases l; cases m; cases n) (auto simp: rangeset_def)
    qed
    then show thesis using that by blast
  qed
  then show ?thesis
  proof cases
    case 1
    show ?thesis
    proof (cases "rangeset_check (to_int32 (int (length vs))) (to_int32 i) (to_int32 j)")
      case False
      have len: "int (length vs) < 2 ^ 31 - 1" using assms(1,5) 1 by (simp add: fits_memory_def)
      then have "to_int32 (int (length vs)) = int (length vs)" "to_int32 (int (length vs) + 1) = int (length vs) + 1"
        by (auto intro!: to_int32_id simp: is_int32_def)
      with False have "to_int32 i \<le> int (length vs) + 1" "0 \<le> to_int32 j" by (auto simp: rangeset_check_def)
      then have "\<exists>r. listrangeset vs (to_int32 i) (to_int32 j) xs = Inr r" by (simp add: listrangeset_def Let_def)
      then obtain r where r: "listrangeset vs (to_int32 i) (to_int32 j) xs = Inr r" by blast
      have "\<forall>v \<in> set r. user_value v" using user_listrangeset [OF _ _ r] assms(2,3) 1 by simp
      with r False 1 assms(1,4) show ?thesis by (auto simp: rangeset_def intro!: answers_push)
    qed (use 1 assms(1) in \<open>simp add: rangeset_def\<close>)
  next
    case 2
    then show ?thesis using assms(1-4) by (simp add: rangeset_def)
  qed simp
qed

end
