(* ===== verification/ControlSafety.thy ===== *)
theory ControlSafety
  imports PlainSafety
begin

text \<open>
  Safety of the other instructions that only work on their activation: tests, jumps and loops, variables and
  literals, scattering assignment, and the markers of handlers.
\<close>

definition leads :: "typing \<Rightarrow> (nat \<times> ftype) list \<Rightarrow> bool" where
  "leads T ss \<longleftrightarrow> (\<forall>(l, ty) \<in> set ss. arrives T l ty)"

lemma leads_simps [simp]:
  "leads T []" "leads T (go t ts l # ss) \<longleftrightarrow> arrives T l (t, ts) \<and> leads T ss" "leads T (ss @ rs) \<longleftrightarrow> leads T ss \<and> leads T rs"
  by (auto simp: leads_def go_def)

lemma operand_rd: "rd bc n (a_pc a) = Some (x, pc) \<Longrightarrow> operand n bc a = Some (x, a\<lparr>a_pc := pc\<rparr>)"
  by (auto simp: rd_def operand_def)

lemma rd_pc: "rd bc n pc = Some (x, pc') \<Longrightarrow> pc' = pc + n"
  by (auto simp: rd_def)

lemma rd_belowD: "rd_below b bc n pc = Some (x, pc') \<Longrightarrow> rd bc n pc = Some (x, pc') \<and> x < b"
  by (auto simp: rd_below_def Option.bind_eq_Some_conv split: if_splits)

lemma operand_below: "rd_below b bc n (a_pc a) = Some (x, pc) \<Longrightarrow> operand n bc a = Some (x, a\<lparr>a_pc := pc\<rparr>) \<and> x < b"
  by (auto dest!: rd_belowD operand_rd)

lemma jump_runs:
  "conf T ts (a_stack a) \<Longrightarrow> (t \<Longrightarrow> user_value (a_temp a)) \<Longrightarrow> arrives T l (t, ts) \<Longrightarrow> runs T (jump l a)"
  by (auto simp: jump_def intro: runsI)

lemma sound_jump [simp]: "sound RS pr bc T (jump l a) = sound RS pr bc T a" "sound RS pr bc T (skip_bytes n a) = sound RS pr bc T a"
  by (simp_all add: jump_def skip_bytes_def)

lemma push_next_safe:
  assumes "sound RS pr bc T a" "conf T ts (a_stack a)" "t \<Longrightarrow> user_value (a_temp a)" "arrives T (a_pc a) (t, k # ts)"
    and k: "fits k v" "k \<noteq> KCont"
  shows "effect_ok RS pr bc T (push_next v a)"
proof -
  have "length (a_stack a) < a_stack_size a"
    using wt_arrives [OF sound_wt [OF assms(1)] assms(4)] conf_length [OF assms(2)] sound_size [OF assms(1)] width_pos [of k] by auto
  moreover have "conf T (k # ts) (v # a_stack a)" using k assms(2) by (simp add: conf.simps)
  ultimately show ?thesis using assms(1,3,4) by (auto simp: push_next_def push_def intro!: runsI [of T _ t "k # ts"])
qed

lemma push_error_safe:
  assumes "sound RS pr bc T a" "conf T ts (a_stack a)" "t \<Longrightarrow> user_value (a_temp a)" "arrives T (a_pc a) (t, KVal # ts)"
  shows "effect_ok RS pr bc T (push_error e a)"
proof -
  have "shape T (KVal # ts)" "depth (KVal # ts) \<le> max_stack bc" using wt_arrives [OF sound_wt [OF assms(1)] assms(4)] by auto
  then have "raisable bc T a" using assms(2) unfolding raisable_def by (intro exI [of _ ts]) auto
  with push_runs [OF assms] show ?thesis using assms(1) by (auto simp: push_error_def)
qed

lemma put_var_safe:
  assumes "sound RS pr bc T a" "slot < length (a_env a)" "user_value v"
  shows "\<exists>b. put_var slot v a = Some b \<and> sound RS pr bc T b \<and> a_stack b = a_stack a \<and> a_pc b = a_pc a \<and> a_temp b = a_temp a \<and>
    a_prog b = a_prog a \<and> length (a_env b) = length (a_env a)"
proof -
  have "env_ok ((a_env a)[slot := v])" using assms
    by (auto simp: env_ok_def sound_def dest!: set_update_subset_insert [THEN subsetD])
  then show ?thesis using assms by (auto simp: put_var_def set_env_def sound_def)
qed

lemma sound_slots: "sound RS pr bc T a \<Longrightarrow> length (var_names (a_prog a)) = length (a_env a)"
  by (simp add: sound_def)

subsection \<open>Tests and jumps\<close>

lemma do_test_safe:
  assumes r: "ready RS pr bc T a t (KVal # ts)" and l: "rd_label bc (a_pc a) = Some (l, pc)"
    and ar: "arrives T l (t, ts)" "arrives T pc (t, ts)"
  shows "effect_ok RS pr bc T (do_test bc a)"
proof -
  note R = readyD [OF r]
  obtain v ws where v: "a_stack a = v # ws" "conf T ts ws" using R(2) by auto
  show ?thesis using R(1,3) v ar operand_rd [of bc "numbytes_label bc" "a\<lparr>a_stack := ws\<rparr>" l pc] l rd_pc [OF l]
    by (auto simp: do_test_def skip_bytes_def jump_def intro!: runsI [of T _ t ts])
qed

lemma do_jump_safe:
  assumes "sound RS pr bc T a" "conf T ts (a_stack a)" "t \<Longrightarrow> user_value (a_temp a)" and l: "rd_label bc (a_pc a) = Some (l, pc)"
    and "arrives T l (t, ts)"
  shows "effect_ok RS pr bc T (do_jump bc a)"
  using assms operand_rd [OF l] by (auto simp: do_jump_def intro!: jump_runs [of T ts _ t])

lemma and_or_safe:
  assumes r: "ready RS pr bc T a t (KVal # ts)" and l: "rd_label bc (a_pc a) = Some (l, pc)"
    and ar: "arrives T l (t, KVal # ts)" "arrives T pc (t, ts)"
  shows "effect_ok RS pr bc T (and_or both bc a)"
proof -
  note R = readyD [OF r]
  obtain v ws where v: "a_stack a = v # ws" "conf T ts ws" "user_value v" using R(2) by auto
  have "runs T (jump l (a\<lparr>a_pc := pc\<rparr>))" using R(3) v ar by (intro jump_runs [of T "KVal # ts" _ t]) auto
  moreover have "runs T (a\<lparr>a_pc := pc, a_stack := ws\<rparr>)" using R(3) v ar by (intro runsI [of T _ t ts]) auto
  ultimately show ?thesis using R(1) v operand_rd [OF l]
    by (simp add: and_or_def do_pop_def pop_def top_value_def)
qed

lemma while_id_safe:
  assumes r: "ready RS pr bc T a t (KVal # ts)" and s: "rd_slot (a_prog a) bc (a_pc a) = Some (slot, pc')"
    and l: "rd_label bc pc' = Some (l, pc)" and ar: "arrives T l (t, ts)" "arrives T pc (t, ts)"
  shows "effect_ok RS pr bc T (while_id bc a)"
proof -
  note R = readyD [OF r]
  obtain v ws where v: "a_stack a = v # ws" "conf T ts ws" "user_value v" using R(2) by auto
  have o: "operand (numbytes_var_name bc) bc a = Some (slot, a\<lparr>a_pc := pc'\<rparr>)" "slot < length (a_env a)"
    using operand_below [OF s] sound_slots [OF R(1)] by auto
  obtain b where b: "put_var slot v (a\<lparr>a_pc := pc'\<rparr>) = Some b" "sound RS pr bc T b" "a_stack b = a_stack a" "a_pc b = pc'" "a_temp b = a_temp a"
    using put_var_safe [of RS pr bc T "a\<lparr>a_pc := pc'\<rparr>" slot v] R(1) o(2) v(3) by auto
  have "ready RS pr bc T b t (KVal # ts)" using r b by (simp add: ready_def)
  from do_test_safe [OF this, of l pc] l b(4) ar have "effect_ok RS pr bc T (do_test bc b)" by simp
  then show ?thesis using o(1) v(1) b(1) by (simp add: while_id_def top_value_def)
qed

subsection \<open>Loops\<close>

lemma leave_loop_safe:
  assumes "sound RS pr bc T a" "a_stack a = v # w # ws" "conf T ts ws" "t \<Longrightarrow> user_value (a_temp a)" "arrives T l (t, ts)"
  shows "\<exists>b. leave_loop l a = Some b \<and> sound RS pr bc T b \<and> runs T b"
  using assms by (auto simp: leave_loop_def intro!: jump_runs [of T ts _ t])

lemma raisable_here: "ready RS pr bc T a t ts \<Longrightarrow> raisable bc T a"
  by (auto simp: ready_def raisable_def)

lemma for_list_safe:
  assumes r: "ready RS pr bc T a t ts" and ts: "take 2 ts = [KCount, KVal]"
    and s: "rd_slot (a_prog a) bc (a_pc a) = Some (slot, pc')" and l: "rd_label bc pc' = Some (l, pc)"
    and ar: "arrives T l (t, drop 2 ts)" "arrives T pc (t, ts)" and fm: "fits_memory (a_stack a)"
  shows "effect_ok RS pr bc T (for_list bc a)"
proof -
  note R = readyD [OF r]
  obtain us where us: "ts = KCount # KVal # us" using ts by (metis append_Cons append_Nil append_take_drop_id)
  obtain n v ws where v: "a_stack a = VInt n # v # ws" "conf T us ws" "user_value v" "1 \<le> n" using R(2) us by auto
  let ?b = "a\<lparr>a_pc := pc\<rparr>"
  have o: "operand (numbytes_var_name bc) bc a = Some (slot, a\<lparr>a_pc := pc'\<rparr>)" "slot < length (a_env a)"
    "operand (numbytes_label bc) bc (a\<lparr>a_pc := pc'\<rparr>) = Some (l, ?b)"
    using operand_below [OF s] sound_slots [OF R(1)] operand_rd [of bc "numbytes_label bc" "a\<lparr>a_pc := pc'\<rparr>" l pc] l by auto
  obtain c where c: "leave_loop l ?b = Some c" "sound RS pr bc T c" "runs T c"
    using leave_loop_safe [of RS pr bc T ?b _ _ ws us t l] R(1,3) v ar(1) us by auto
  have rb: "raisable bc T ?b" using raisable_here [OF r] by (simp add: raisable_def)
  show ?thesis
  proof (cases v)
    case (VList vs)
    show ?thesis
    proof (cases "n > int (length vs)")
      case True
      then show ?thesis using o v(1) VList c by (simp add: for_list_def)
    next
      case False
      then have user: "user_value (vs ! nat (n - 1))" using v(3,4) VList by (auto intro!: nth_mem)
      obtain d where d: "put_var slot (vs ! nat (n - 1)) ?b = Some d" "sound RS pr bc T d" "a_stack d = a_stack a" "a_pc d = pc" "a_temp d = a_temp a"
        using put_var_safe [of RS pr bc T ?b slot, OF _ _ user] R(1) o(2) by auto
      have "int (length vs) < 2 ^ 31 - 1" using fm v(1) VList by (simp add: fits_memory_def)
      with False v(4) have "to_num (n + 1) = n + 1" by (auto intro!: to_num_id simp: is_num_def num_min_def num_max_def)
      then have "runs T (set_top (VInt (to_num (n + 1))) d)"
        using d v R(3) ar(2) us by (auto simp: set_top_def intro!: runsI [of T _ t ts])
      then show ?thesis using o v(1,4) VList False d by (simp add: for_list_def) (simp add: set_top_def)
    qed
  qed (use o(1,3) v(1) c rb R(1) in \<open>simp_all add: for_list_def\<close>)
qed

lemma for_range_safe:
  assumes r: "ready RS pr bc T a t ts" and ts: "take 2 ts = [KVal, KVal]"
    and s: "rd_slot (a_prog a) bc (a_pc a) = Some (slot, pc')" and l: "rd_label bc pc' = Some (l, pc)"
    and ar: "arrives T l (t, drop 2 ts)" "arrives T pc (t, ts)"
  shows "effect_ok RS pr bc T (for_range bc a)"
proof -
  note R = readyD [OF r]
  obtain us where us: "ts = KVal # KVal # us" using ts by (metis append_Cons append_Nil append_take_drop_id)
  obtain n m ws where v: "a_stack a = n # m # ws" "conf T us ws" "user_value n" "user_value m" using R(2) us by auto
  let ?b = "a\<lparr>a_pc := pc\<rparr>"
  have o: "operand (numbytes_var_name bc) bc a = Some (slot, a\<lparr>a_pc := pc'\<rparr>)" "slot < length (a_env a)"
    "operand (numbytes_label bc) bc (a\<lparr>a_pc := pc'\<rparr>) = Some (l, ?b)"
    using operand_below [OF s] sound_slots [OF R(1)] operand_rd [of bc "numbytes_label bc" "a\<lparr>a_pc := pc'\<rparr>" l pc] l by auto
  obtain c where c: "leave_loop l ?b = Some c" "sound RS pr bc T c" "runs T c"
    using leave_loop_safe [of RS pr bc T ?b _ _ ws us t l] R(1,3) v ar(1) us by auto
  have rb: "raisable bc T ?b" using raisable_here [OF r] by (simp add: raisable_def)
  show ?thesis
  proof (cases "range_bounds m n")
    case None
    then show ?thesis using o(1,3) v(1) c rb R(1) by (simp add: for_range_def)
  next
    case (Some b)
    then obtain mk i j where b: "b = (mk, i, j)" "mk = VInt \<or> mk = VObj"
      by (auto simp: range_bounds_def split: var.splits)
    show ?thesis
    proof (cases "i > j")
      case True
      then show ?thesis using o v(1) c Some b by (simp add: for_range_def)
    next
      case False
      obtain d where d: "put_var slot m ?b = Some d" "sound RS pr bc T d" "a_stack d = a_stack a" "a_pc d = pc" "a_temp d = a_temp a"
        using put_var_safe [of RS pr bc T ?b slot, OF _ _ v(4)] R(1) o(2) by auto
      have "runs T (set_top (mk x) d)" "runs T (set_next_top (mk x) d)" "sound RS pr bc T (set_top (mk x) d)" "sound RS pr bc T (set_next_top (mk x) d)" for x
        using d v R(3) ar(2) us b(2) by (auto simp: set_top_def set_next_top_def intro!: runsI [of T _ t ts])
      then show ?thesis using o v(1) Some b False d by (simp add: for_range_def)
    qed
  qed
qed

subsection \<open>Variables and literals\<close>

lemma push_var_safe:
  assumes r: "ready RS pr bc T a t ts" and "slot < length (a_env a)" "arrives T (a_pc a) (t, KVal # ts)"
  shows "effect_ok RS pr bc T (push_var slot a)"
proof -
  note R = readyD [OF r]
  have v: "get_env slot (a_env a) = Some (a_env a ! slot)" "a_env a ! slot \<noteq> VNone \<Longrightarrow> user_value (a_env a ! slot)"
    using assms(2) R(1) by (auto simp: get_env_def sound_def env_ok_def)
  show ?thesis
  proof (cases "a_env a ! slot = VNone")
    case True
    then show ?thesis using v push_error_safe [OF R(1,2) _ assms(3)] R(3) by (simp add: push_var_def)
  next
    case False
    then show ?thesis using v push_next_safe [OF R(1,2) _ assms(3)] R(3) by (simp add: push_var_def)
  qed
qed

lemma ready_pc [simp]: "ready RS pr bc T (a\<lparr>a_pc := pc\<rparr>) t ts = ready RS pr bc T a t ts"
  by (simp add: ready_def)

lemma g_push_safe:
  assumes r: "ready RS pr bc T a t ts" and s: "rd_slot (a_prog a) bc (a_pc a) = Some (slot, pc)" and "arrives T pc (t, KVal # ts)"
  shows "effect_ok RS pr bc T (g_push bc a)"
  using push_var_safe [of RS pr bc T "a\<lparr>a_pc := pc\<rparr>" t ts slot] assms operand_below [OF s] sound_slots [OF readyD(1) [OF r]]
  by (simp add: g_push_def)

lemma g_put_safe:
  assumes r: "ready RS pr bc T a t (KVal # ts)" and s: "rd_slot (a_prog a) bc (a_pc a) = Some (slot, pc)" and "arrives T pc (t, KVal # ts)"
  shows "effect_ok RS pr bc T (g_put bc a)"
proof -
  note R = readyD [OF r]
  obtain v ws where v: "a_stack a = v # ws" "conf T ts ws" "user_value v" using R(2) by auto
  obtain b where "put_var slot v (a\<lparr>a_pc := pc\<rparr>) = Some b" "sound RS pr bc T b" "a_stack b = a_stack a" "a_pc b = pc" "a_temp b = a_temp a"
    using put_var_safe [of RS pr bc T "a\<lparr>a_pc := pc\<rparr>" slot v] R(1) operand_below [OF s] sound_slots [OF R(1)] v(3) by auto
  then show ?thesis using operand_below [OF s] v R(3) assms(3)
    by (auto simp: g_put_def top_value_def intro!: runsI [of T _ t "KVal # ts"])
qed

text \<open>When the next instruction is a \<open>POP\<close>, the place behind it has the type without the value.\<close>

lemma after_pop:
  assumes "wt p bc T" "arrives T pc (t, KVal # ts)" "byte_at (vector bc) pc = Some b" "b = op_number OP_POP"
  shows "arrives T (pc + 1) (t, ts)"
proof -
  obtain t' where t': "T pc = Some (t', KVal # ts)" "t' \<longrightarrow> t" using arrivesD [OF assms(2)] by blast
  have "opcode_of b = Some OP_POP" using assms(4) by (simp add: real_op_def)
  then have "transfer p bc pc t' (KVal # ts) = Some [go t' ts (pc + 1)]"
    using assms(3) by (simp add: transfer_def transfer_op_def plain_def swap_vals_def)
  then have "arrives T (pc + 1) (t', ts)" using wt_instr [OF assms(1) t'(1)] assms(3) \<open>opcode_of b = Some OP_POP\<close>
    by (simp add: instr_ok_def go_def counts_def)
  with t'(2) show ?thesis by (auto simp: arrives_def split: option.splits)
qed

lemma put_ready_safe:
  assumes r: "ready RS pr bc T a t (KVal # ts)" and s: "slot < length (a_env a)" "byte_at (vector bc) (a_pc a) \<noteq> None"
    and ar: "arrives T (a_pc a) (t, KVal # ts)"
  shows "effect_ok RS pr bc T (put_ready slot bc a)"
proof -
  note R = readyD [OF r]
  obtain v ws where v: "a_stack a = v # ws" "conf T ts ws" "user_value v" using R(2) by auto
  obtain x where x: "byte_at (vector bc) (a_pc a) = Some x" using s(2) by blast
  obtain b where b: "put_var slot v a = Some b" "sound RS pr bc T b" "a_stack b = a_stack a" "a_pc b = a_pc a" "a_temp b = a_temp a"
    using put_var_safe [OF R(1) s(1) v(3)] by auto
  show ?thesis
  proof (cases "x = op_number OP_POP")
    case True
    with after_pop [OF sound_wt [OF R(1)] ar x True] b v R(3) x show ?thesis
      by (auto simp: put_ready_def skip_bytes_def top_value_def intro!: runsI [of T _ t ts])
  next
    case False
    with b v R(3) x ar show ?thesis
      by (auto simp: put_ready_def top_value_def intro!: runsI [of T _ t "KVal # ts"])
  qed
qed

lemma imm_safe:
  assumes r: "ready RS pr bc T a t ts" and s: "rd_below (length (literals (a_prog a))) bc (numbytes_literal bc) (a_pc a) = Some (i, pc)"
    and x: "byte_at (vector bc) pc = Some x" and ar: "arrives T pc (t, KVal # ts)"
  shows "effect_ok RS pr bc T (imm bc a)"
proof -
  note R = readyD [OF r]
  have pc: "pc = a_pc a + numbytes_literal bc" using rd_belowD [OF s] rd_pc by blast
  show ?thesis
  proof (cases "x = op_number OP_POP")
    case True
    from after_pop [OF sound_wt [OF R(1)] ar x True] True x pc R(1-3) show ?thesis
      by (auto simp: imm_def skip_bytes_def intro!: runsI [of T _ t ts])
  next
    case False
    have v: "user_value (literals (a_prog a) ! i)" using operand_below [OF s] R(1) by (auto simp: sound_def program_ok_def)
    have "effect_ok RS pr bc T (push_next (literals (a_prog a) ! i) (a\<lparr>a_pc := pc\<rparr>))"
      using push_next_safe [of RS pr bc T "a\<lparr>a_pc := pc\<rparr>" ts t KVal] R(1-3) ar v by auto
    then show ?thesis using operand_below [OF s] x pc False by (simp add: imm_def nth_opt_def)
  qed
qed

lemma put_temp_safe:
  assumes r: "ready RS pr bc T a t (KVal # ts)" and ar: "arrives T (a_pc a) (True, KVal # ts)"
  shows "effect_ok RS pr bc T (put_temp a)"
  using readyD [OF r] ar by (auto simp: put_temp_def top_value_def intro!: runsI [of T _ True "KVal # ts"])

lemma push_temp_safe:
  assumes r: "ready RS pr bc T a True ts" and ar: "arrives T (a_pc a) (False, KVal # ts)"
  shows "effect_ok RS pr bc T (push_temp a)"
proof -
  note R = readyD [OF r]
  obtain b where "push (a_temp a) a = Some b" "sound RS pr bc T b" "runs T b"
    using push_runs [OF R(1,2) _ ar] R(3) by auto
  moreover from this have "runs T (b\<lparr>a_temp := VNone\<rparr>)"
    using ar R(2,3) by (auto simp: push_def split: if_splits intro!: runsI [of T _ False "KVal # ts"])
  ultimately show ?thesis by (simp add: push_temp_def)
qed

lemma length_op_safe:
  assumes r: "ready RS pr bc T a t ts" and i: "rd bc (numbytes_stack bc) (a_pc a) = Some (i, pc)" "val_at i ts"
    and ar: "arrives T pc (t, KVal # ts)"
  shows "effect_ok RS pr bc T (length_op bc a)"
proof -
  note R = readyD [OF r]
  let ?b = "a\<lparr>a_pc := pc\<rparr>"
  obtain v where v: "nth_opt (List.rev (a_stack a)) i = Some v" using val_at_conf [OF i(2) R(2)] by blast
  have "effect_ok RS pr bc T (push_error e ?b)" "effect_ok RS pr bc T (push_next (VInt n) ?b)" for e n
    using push_error_safe [of RS pr bc T ?b ts t] push_next_safe [of RS pr bc T ?b ts t KVal] R(1-3) ar by auto
  then show ?thesis using operand_rd [OF i(1)] v by (cases v) (simp_all add: length_op_def)
qed

end
