(* ===== verification/HandlerSafety.thy ===== *)
theory HandlerSafety
  imports ControlSafety
begin

text \<open>
  Safety of scattering assignment and of the instructions that set up and take away handlers.
\<close>

subsection \<open>Scattering assignment\<close>

text \<open>The targets from number \<open>i\<close> on: how many are required, and how many optional.\<close>

fun req_from :: "nat \<Rightarrow> nat \<Rightarrow> nat list \<Rightarrow> nat" where
  "req_from rpos i [] = 0"
| "req_from rpos i (l # ls) = (if l = 0 \<and> i \<noteq> rpos then 1 else 0) + req_from rpos (i + 1) ls"

fun opt_from :: "nat \<Rightarrow> nat \<Rightarrow> nat list \<Rightarrow> nat" where
  "opt_from rpos i [] = 0"
| "opt_from rpos i (l # ls) = (if l \<noteq> 0 \<and> i \<noteq> rpos then 1 else 0) + opt_from rpos (i + 1) ls"

lemma required_from: "length (filter (\<lambda>(i, l). l = 0 \<and> i \<noteq> rpos) (enumerate i ls)) = req_from rpos i ls"
  by (induction ls arbitrary: i) auto

lemma req_opt_from:
  "req_from rpos i ls + opt_from rpos i ls + (if i \<le> rpos \<and> rpos < i + length ls then 1 else 0) = length ls"
proof (induction ls arbitrary: i)
  case (Cons l ls)
  show ?case using Cons.IH [of "i + 1"] by (auto split: if_splits)
qed simp

lemma rd_targets_pc: "rd_targets p bc n pc = Some (ls, pc') \<Longrightarrow>
    pc' = pc + n * (numbytes_var_name bc + numbytes_label bc) \<and> length ls = n"
proof (induction n arbitrary: pc ls)
  case (Suc n)
  then obtain slot pc1 l pc2 ls' where o: "rd_slot p bc pc = Some (slot, pc1)" "rd_label bc pc1 = Some (l, pc2)"
    "rd_targets p bc n pc2 = Some (ls', pc')" "ls = l # ls'"
    by (auto simp: Option.bind_eq_Some_conv)
  have "pc1 = pc + numbytes_var_name bc" "pc2 = pc1 + numbytes_label bc"
    using rd_pc rd_belowD [OF o(1)] o(2) by blast+
  with Suc.IH [OF o(3)] o(4) show ?case by simp
qed simp

text \<open>Before target \<open>i\<close>, \<open>i + offset - 1\<close> elements have been used, and the elements that are left are
  enough for the targets that are left.\<close>

definition enough :: "var list \<Rightarrow> nat \<Rightarrow> int \<Rightarrow> nat \<Rightarrow> nat list \<Rightarrow> int \<Rightarrow> int \<Rightarrow> bool" where
  "enough vs rpos nrest i ls offset nopt \<longleftrightarrow> 1 \<le> int i + offset \<and> 0 \<le> nopt \<and>
    int (length vs) - (int i + offset - 1) = int (req_from rpos i ls) + nopt - (if rpos < i then nrest else 0) \<and>
    (0 < nrest \<longrightarrow> nopt = int (opt_from rpos i ls) + nrest) \<and> 0 \<le> nrest"

lemma scatter_loop_safe:
  assumes "sound RS pr bc T a" "rd_targets (a_prog a) bc n (a_pc a) = Some (ls, pc)" "\<forall>v \<in> set vs. user_value v"
    and "enough vs rpos nrest i ls offset nopt" "1 \<le> i"
    and "i \<le> rpos \<and> rpos < i + n \<Longrightarrow> ls ! (rpos - i) = 0 \<and> (0 < nrest \<longrightarrow> int rpos + nrest - 1 \<le> int (length vs))"
  shows "\<exists>wh' b. scatter_loop bc vs (int rpos) nrest n (int i) offset nopt wh a = Some (wh', b) \<and>
    sound RS pr bc T b \<and> a_pc b = pc \<and> a_stack b = a_stack a \<and> a_temp b = a_temp a \<and> a_prog b = a_prog a \<and>
    (wh' = wh \<or> (wh' \<in> set ls \<and> 1 < wh'))"
  using assms
proof (induction n arbitrary: a ls i offset nopt wh)
  case 0
  then show ?case by simp
next
  case (Suc n)
  obtain slot pc1 l pc2 ls' where o: "rd_slot (a_prog a) bc (a_pc a) = Some (slot, pc1)" "rd_label bc pc1 = Some (l, pc2)"
    "rd_targets (a_prog a) bc n pc2 = Some (ls', pc)" "ls = l # ls'"
    using Suc.prems(2) by (auto simp: Option.bind_eq_Some_conv)
  let ?a = "a\<lparr>a_pc := pc2\<rparr>"
  have op: "operand (numbytes_var_name bc) bc a = Some (slot, a\<lparr>a_pc := pc1\<rparr>)" "slot < length (a_env a)"
    "operand (numbytes_label bc) bc (a\<lparr>a_pc := pc1\<rparr>) = Some (l, ?a)"
    using operand_below [OF o(1)] sound_slots [OF Suc.prems(1)] operand_rd [of bc "numbytes_label bc" "a\<lparr>a_pc := pc1\<rparr>" l pc2] o(2)
    by auto
  have put: "\<exists>b. put_var slot v ?a = Some b \<and> sound RS pr bc T b \<and> a_stack b = a_stack a \<and> a_pc b = pc2 \<and> a_temp b = a_temp a \<and>
    a_prog b = a_prog a" if "user_value v" for v
    using put_var_safe [of RS pr bc T ?a slot v] Suc.prems(1) op(2) that by auto
  have later: "(0 < nrest \<longrightarrow> int rpos + nrest - 1 \<le> int (length vs)) \<and> ls' ! (rpos - Suc i) = 0" if "Suc i \<le> rpos \<and> rpos < Suc i + n"
    using Suc.prems(6) that o(4) by (auto simp: nth_Cons')
  have step: "\<exists>wh' b'. scatter_loop bc vs (int rpos) nrest n (int (Suc i)) off nop w b = Some (wh', b') \<and>
      sound RS pr bc T b' \<and> a_pc b' = pc \<and> a_stack b' = a_stack a \<and> a_temp b' = a_temp a \<and> a_prog b' = a_prog a \<and>
      (wh' = w \<or> (wh' \<in> set ls' \<and> 1 < wh'))"
    if "sound RS pr bc T b" "a_pc b = pc2" "a_stack b = a_stack a" "a_temp b = a_temp a" "a_prog b = a_prog a"
      "enough vs rpos nrest (Suc i) ls' off nop" for b off nop w
    using Suc.IH [of b ls' "Suc i" off nop w] that o(3) Suc.prems(3) later by auto
  consider (rest) "i = rpos" | (read) "i \<noteq> rpos" "l = 0 \<or> nopt > 0" | (skip) "i \<noteq> rpos" "l \<noteq> 0" "nopt \<le> 0" by fastforce
  then show ?case
  proof cases
    case rest
    then have b: "l = 0" "0 < nrest \<longrightarrow> int rpos + nrest - 1 \<le> int (length vs)" using Suc.prems(6) o(4) by auto
    then have "\<exists>r. sublist vs (int i) (int i + nrest - 1) = Inr r" using rest Suc.prems(5) by (simp add: sublist_def)
    then obtain r where r: "sublist vs (int i) (int i + nrest - 1) = Inr r" by blast
    from put [of "VList r"] user_sublist [OF Suc.prems(3) r]
    obtain b where b: "put_var slot (VList r) ?a = Some b" "sound RS pr bc T b" "a_stack b = a_stack a" "a_pc b = pc2"
      "a_temp b = a_temp a" "a_prog b = a_prog a" by auto
    have "enough vs rpos nrest (Suc i) ls' (offset + nrest - 1) nopt"
      using Suc.prems(4) rest o(4) by (auto simp: enough_def)
    from step [OF b(2,4,3,5,6) this, of wh] op b(1) r rest o(4) show ?thesis by (auto simp: algebra_simps)
  next
    case read
    have bound: "int i + offset \<le> int (length vs)" "1 \<le> int i + offset"
      using Suc.prems(4) read o(4) by (auto simp: enough_def split: if_splits)
    then have "nth_opt vs (nat (int i + offset - 1)) = Some (vs ! nat (int i + offset - 1))"
      "user_value (vs ! nat (int i + offset - 1))"
      using Suc.prems(3) by (auto simp: nth_opt_def intro!: nth_mem)
    moreover from put [OF this(2)] obtain b where b: "put_var slot (vs ! nat (int i + offset - 1)) ?a = Some b"
      "sound RS pr bc T b" "a_stack b = a_stack a" "a_pc b = pc2" "a_temp b = a_temp a" "a_prog b = a_prog a" by auto
    have "enough vs rpos nrest (Suc i) ls' offset (if l = 0 then nopt else nopt - 1)"
      using Suc.prems(4) read o(4) by (auto simp: enough_def split: if_splits)
    from step [OF b(2,4,3,5,6) this, of wh] op b(1) bound read o(4) calculation show ?thesis by (auto simp: algebra_simps)
  next
    case skip
    have "enough vs rpos nrest (Suc i) ls' (offset - 1) nopt"
      using Suc.prems(4) skip o(4) by (auto simp: enough_def split: if_splits)
    from step [of ?a, OF _ _ _ _ _ this, of "if wh = 0 \<and> l \<noteq> 1 then l else wh"] op skip o(4) Suc.prems(1)
    show ?thesis by (auto simp: algebra_simps)
  qed
qed

lemma leads_map: "leads T (map (go t ts) ls) \<longleftrightarrow> (\<forall>l \<in> set ls. arrives T l (t, ts))"
  by (auto simp: leads_def go_def)

lemma scatter_op_safe:
  assumes r: "ready RS pr bc T a t (KVal # ts)"
    and o: "rd bc 1 (a_pc a) = Some (nargs, pc1)" "rd bc 1 pc1 = Some (nreq, pc2)" "rd bc 1 pc2 = Some (rpos, pc3)"
      "rd_targets (a_prog a) bc nargs pc3 = Some (ls, pc4)" "rd_label bc pc4 = Some (end, pc5)"
    and n: "nreq = required rpos ls" "rest_ok rpos ls"
    and ar: "\<forall>l \<in> set ls. 1 < l \<longrightarrow> arrives T l (t, KVal # ts)" "arrives T end (t, KVal # ts)"
  shows "effect_ok RS pr bc T (scatter_op bc a)"
proof -
  note R = readyD [OF r]
  obtain v ws where v: "a_stack a = v # ws" "user_value v" "conf T ts ws" using R(2) by auto
  let ?a = "a\<lparr>a_pc := pc3\<rparr>"
  have op: "operand 1 bc a = Some (nargs, a\<lparr>a_pc := pc1\<rparr>)" "operand 1 bc (a\<lparr>a_pc := pc1\<rparr>) = Some (nreq, a\<lparr>a_pc := pc2\<rparr>)"
    "operand 1 bc (a\<lparr>a_pc := pc2\<rparr>) = Some (rpos, ?a)"
    using operand_rd [OF o(1)] operand_rd [of bc 1 "a\<lparr>a_pc := pc1\<rparr>"] operand_rd [of bc 1 "a\<lparr>a_pc := pc2\<rparr>"] o(2,3) by auto
  have len: "length ls = nargs" "pc4 = pc3 + nargs * (numbytes_var_name bc + numbytes_label bc)" using rd_targets_pc [OF o(4)] by auto
  have err: "effect_ok RS pr bc T (Some (Error e (a\<lparr>a_pc := pc3, a_stack := ws\<rparr>) (do {
         a \<leftarrow> push (VErr e) (a\<lparr>a_pc := pc3, a_stack := ws\<rparr>);
         let a = skip_bytes (nargs * (numbytes_var_name bc + numbytes_label bc)) a;
         (lab, a) \<leftarrow> operand (numbytes_label bc) bc a;
         Some (jump lab a)
       })))" for e
  proof -
    have sz: "length ws < a_stack_size a" using R(5,6) conf_length [OF v(3)] by simp
    let ?b = "a\<lparr>a_stack := VErr e # ws, a_pc := pc4\<rparr>"
    have "operand (numbytes_label bc) bc ?b = Some (end, ?b\<lparr>a_pc := pc5\<rparr>)" using operand_rd [of bc "numbytes_label bc" ?b] o(5) by simp
    moreover have "runs T (jump end (?b\<lparr>a_pc := pc5\<rparr>))" using v(3) R(3) ar(2) by (intro jump_runs [of T "KVal # ts" _ t]) auto
    moreover have "raisable bc T (a\<lparr>a_pc := pc3, a_stack := ws\<rparr>)"
      unfolding raisable_def using v(3) R(4,5) by (intro exI [of _ ts]) auto
    ultimately show ?thesis using sz R(1) len(2) by (simp add: push_def skip_bytes_def)
  qed
  show ?thesis
  proof (cases v)
    case (VList vs)
    show ?thesis
    proof (cases "length vs < nreq \<or> (\<not> rpos \<le> nargs \<and> length vs > nargs)")
      case True
      then show ?thesis using op v(1) VList err [of E_ARGS] by (simp add: scatter_op_def)
    next
      case False
      define nrest where "nrest = (if rpos \<le> nargs \<and> nargs \<le> length vs then int (length vs) - int nargs + 1 else 0)"
      have cnt: "req_from rpos 1 ls = nreq" "nreq + opt_from rpos 1 ls + (if rpos \<le> nargs then 1 else 0) = nargs"
        using req_opt_from [of rpos 1 ls] n len(1) required_from [of rpos 1 ls] by (auto simp: required_def rest_ok_def)
      have en: "enough vs rpos nrest 1 ls 0 (int (length vs) - int nreq)"
        using cnt False n(2) by (auto simp: enough_def nrest_def rest_ok_def)
      have rr: "ls ! (rpos - 1) = 0 \<and> (0 < nrest \<longrightarrow> int rpos + nrest - 1 \<le> int (length vs))" if "1 \<le> rpos \<and> rpos < 1 + nargs"
        using that n(2) len(1) by (auto simp: rest_ok_def nrest_def)
      obtain wh b where b: "scatter_loop bc vs (int rpos) nrest nargs 1 0 (int (length vs) - int nreq) 0 ?a = Some (wh, b)"
        "sound RS pr bc T b" "a_pc b = pc4" "a_stack b = a_stack a" "a_temp b = a_temp a" "wh = 0 \<or> (wh \<in> set ls \<and> 1 < wh)"
        using scatter_loop_safe [of RS pr bc T ?a nargs ls pc4 vs rpos nrest 1 0 "int (length vs) - int nreq" 0] R(1) o(4) v(2) VList en rr
        by auto
      have "operand (numbytes_label bc) bc b = Some (end, b\<lparr>a_pc := pc5\<rparr>)" using operand_rd [of bc "numbytes_label bc" b] o(5) b(3) by simp
      moreover have "runs T (jump (if wh = 0 then end else wh) (b\<lparr>a_pc := pc5\<rparr>))"
        using v b R(3) ar by (intro jump_runs [of T "KVal # ts" _ t]) auto
      ultimately show ?thesis using op v(1) VList False b(1,2) unfolding nrest_def
        by (auto simp: scatter_op_def Let_def)
    qed
  qed (use op v(1) err [of E_TYPE] in \<open>simp_all add: scatter_op_def\<close>)
qed

subsection \<open>Handlers\<close>

lemma push_label_safe:
  assumes "ready RS pr bc T a t ts" "rd_label bc (a_pc a) = Some (l, pc)" "arrives T pc (t, KPc l # ts)"
  shows "effect_ok RS pr bc T (push_label bc a)"
  using push_next_safe [of RS pr bc T "a\<lparr>a_pc := pc\<rparr>" ts t "KPc l"] readyD [OF assms(1)] operand_rd [OF assms(2)] assms(3)
  by (simp add: push_label_def)

lemma try_finally_safe:
  assumes "ready RS pr bc T a t ts" "rd_label bc (a_pc a) = Some (l, pc)" "arrives T pc (t, KFinally l # ts)"
  shows "effect_ok RS pr bc T (try_finally bc a)"
  using push_next_safe [of RS pr bc T "a\<lparr>a_pc := pc\<rparr>" ts t "KFinally l"] readyD [OF assms(1)] operand_rd [OF assms(2)] assms(3)
  by (simp add: try_finally_def)

lemma catch_op_safe:
  assumes "ready RS pr bc T a t ts" "arrives T (a_pc a) (t, KCatch 1 # ts)"
  shows "effect_ok RS pr bc T (catch_op a)"
  using push_next_safe [of RS pr bc T a ts t "KCatch 1"] readyD [OF assms(1)] assms(2) by (simp add: catch_op_def)

lemma try_except_safe:
  assumes "ready RS pr bc T a t ts" "rd bc 1 (a_pc a) = Some (n, pc)" "arrives T pc (t, KCatch n # ts)"
  shows "effect_ok RS pr bc T (try_except bc a)"
  using push_next_safe [of RS pr bc T "a\<lparr>a_pc := pc\<rparr>" ts t "KCatch n"] readyD [OF assms(1)] operand_rd [OF assms(2)] assms(3)
  by (simp add: try_except_def)

lemma pop_handlers_drop:
  "2 * n \<le> length (a_stack a) \<Longrightarrow> pop_handlers n a = Some (a\<lparr>a_stack := drop (2 * n) (a_stack a)\<rparr>)"
proof (induction n arbitrary: a)
  case (Suc n)
  then obtain v w ws where v: "a_stack a = v # w # ws"
    by (cases "a_stack a") (auto simp: Suc_le_length_iff)
  with Suc.IH [of "a\<lparr>a_stack := ws\<rparr>"] Suc.prems show ?case by simp
qed simp

lemma end_except_safe:
  assumes r: "ready RS pr bc T a t (KCatch n # ts)" and p: "pairs n ts = Some (ls, us)"
    and l: "rd_label bc (a_pc a) = Some (l, pc)" and ar: "arrives T l (t, us)"
  shows "effect_ok RS pr bc T (end_except False bc a)"
proof -
  note R = readyD [OF r]
  obtain ws where v: "a_stack a = VCatch (int n) # ws" "conf T ts ws" using R(2) by auto
  have c: "2 * n \<le> length ws" "conf T us (drop (2 * n) ws)" using pairs_conf [OF p v(2)] by auto
  let ?b = "a\<lparr>a_stack := drop (2 * n) ws\<rparr>"
  have "effect_ok RS pr bc T (do_jump bc ?b)" using do_jump_safe [of RS pr bc T ?b us t l pc] R(1,3) c(2) l ar by simp
  then show ?thesis using v(1) pop_handlers_drop [of n "a\<lparr>a_stack := ws\<rparr>"] c(1) by (simp add: end_except_def)
qed

lemma end_catch_safe:
  assumes r: "ready RS pr bc T a t (KVal # KCatch n # ts)" and p: "pairs n ts = Some (ls, us)"
    and l: "rd_label bc (a_pc a) = Some (l, pc)" and ar: "arrives T l (t, KVal # us)"
  shows "effect_ok RS pr bc T (end_except True bc a)"
proof -
  note R = readyD [OF r]
  obtain x ws where v: "a_stack a = x # VCatch (int n) # ws" "user_value x" "conf T ts ws" using R(2) by auto
  have c: "2 * n \<le> length ws" "conf T us (drop (2 * n) ws)" using pairs_conf [OF p v(3)] by auto
  let ?b = "a\<lparr>a_stack := x # drop (2 * n) ws\<rparr>"
  have "effect_ok RS pr bc T (do_jump bc ?b)" using do_jump_safe [of RS pr bc T ?b "KVal # us" t l pc] R(1,3) v(2) c(2) l ar by simp
  moreover have "length (drop (2 * n) ws) < a_stack_size a" using R(5,6) conf_length [OF v(3)] by simp
  ultimately show ?thesis using v(1) pop_handlers_drop [of n "a\<lparr>a_stack := ws\<rparr>"] c(1)
    by (simp add: end_except_def push_def)
qed

lemma end_finally_safe:
  assumes r: "ready RS pr bc T a t (KFinally l # ts)" and ar: "arrives T (a_pc a) (t, KCont # ts)"
  shows "effect_ok RS pr bc T (end_finally a)"
proof -
  note R = readyD [OF r]
  obtain ws where v: "a_stack a = VFinally (int l) # ws" "conf T ts ws" using R(2) by auto
  have "depth (KCont # ts) \<le> a_stack_size a" using wt_arrives [OF sound_wt [OF R(1)] ar] R(6) by simp
  then have sz: "length ws + 1 < a_stack_size a" using conf_length [OF v(2)] by simp
  have "cont_ok T ts 0 (VInt 0)" by (simp add: cont_ok_def reason_ok_def)
  then have "conf T (KCont # ts) (VInt 0 # VInt 0 # ws)" using v(2) by auto
  then show ?thesis using v(1) sz R(1,3) ar
    by (auto simp: end_finally_def push_def push_next_def intro!: runsI [of T _ t "KCont # ts"])
qed

end
