(* ===== verification/UnwindSafety.thy ===== *)
theory UnwindSafety
  imports HandlerSafety
begin

text \<open>
  Unwinding is safe: whatever is unwound through well-typed activations ends in a handler with the stack its
  code expects, or leaves the activation.
\<close>

subsection \<open>Which handlers apply\<close>

lemma isa_up_total: "hier_ok Children db \<Longrightarrow> \<exists>b. isa_up db x y = Some b"
proof (induction x rule: up_induct)
  case (invalid x)
  then show ?case by (subst isa_up.simps) (auto simp: valid_heap intro: exI [of _ False])
next
  case (valid x a)
  then show ?case by (subst isa_up.simps) (auto simp: valid_heap db_object_parent_def)
qed

lemma isa_total: "hier_ok Children db \<Longrightarrow> \<exists>b. isa wc db v w = Some b"
  using isa_up_total by (auto simp: isa_def intro: exI [of _ False] split: var.split)

lemma ishandled_total:
  "hier_ok Children db \<Longrightarrow> user_value c \<Longrightarrow> \<forall>v \<in> set vs. user_value v \<Longrightarrow> \<exists>b. ishandled wc db c vs = Some b"
proof (induction vs)
  case (Cons v vs)
  obtain b where "isa wc db c v = Some b" using isa_total [OF Cons.prems(1)] by blast
  with Cons show ?case by (auto simp: equality_var_eq(1))
qed (auto intro: exI [of _ False])

lemma codes_apply_total:
  "hier_ok Children db \<Longrightarrow> user_value c \<Longrightarrow> user_value v \<Longrightarrow> \<exists>b. codes_apply wc db c v = Some b"
  using ishandled_total by (cases v) (auto simp: codes_apply_def)

lemma first_handler_append:
  "even (length xs) \<Longrightarrow> first_handler wc db c (xs @ ys) =
    (case first_handler wc db c xs of None \<Rightarrow> None | Some None \<Rightarrow> first_handler wc db c ys | Some (Some h) \<Rightarrow> Some (Some h))"
  by (induction wc db c xs rule: first_handler.induct) (auto split: bind_splits)

lemma first_handler_pairs:
  assumes "hier_ok Children db" "user_value c" "pairs n ts = Some (ls, us)" "conf T ts st"
  shows "\<exists>h. first_handler wc db c (List.rev (take (2 * n) st)) = Some h \<and> (\<forall>v. h = Some v \<longrightarrow> (\<exists>l \<in> set ls. v = VInt (int l)))"
  using assms(3,4)
proof (induction n ts arbitrary: ls st rule: pairs.induct)
  case (2 n l ts)
  then obtain ls' where ls': "pairs n ts = Some (ls', us)" "ls = l # ls'" by (auto split: option.splits prod.splits)
  obtain v ws where st: "st = VInt (int l) # v # ws" "user_value v" "conf T ts ws" using 2(3) by auto
  obtain h where h: "first_handler wc db c (List.rev (take (2 * n) ws)) = Some h" "\<forall>v. h = Some v \<longrightarrow> (\<exists>l \<in> set ls'. v = VInt (int l))"
    using "2.IH" [OF ls'(1) st(3)] by blast
  have len: "2 * n \<le> length ws" using pairs_conf [OF ls'(1) st(3)] by simp
  obtain b where "codes_apply wc db c v = Some b" using codes_apply_total [OF assms(1,2) st(2)] by blast
  then show ?case using h st ls'(2) len by (cases h) (auto simp: first_handler_append min_def)
qed auto

lemma pairs_length: "pairs n ts = Some (ls, us) \<Longrightarrow> length us \<le> length ts"
  by (induction n ts arbitrary: ls rule: pairs.induct) fastforce+

subsection \<open>One activation\<close>

definition value_ok :: "finally_reason \<Rightarrow> var \<Rightarrow> bool" where
  "value_ok why v \<longleftrightarrow> user_value v \<and> (why = FIN_RAISE \<longrightarrow> raise_value v)"

text \<open>An exit may not be the reason why later activations are unwound, since it stays in its own.\<close>

lemma cut_at_tail: "cut_at d (k # ts) = Some us \<Longrightarrow> d < depth (k # ts) \<Longrightarrow> cut_at d ts = Some us"
  by auto

lemma cont_okI: "value_ok why v \<Longrightarrow> why \<noteq> FIN_ABORT \<Longrightarrow> (why = FIN_EXIT \<Longrightarrow> exit_value T ts v) \<Longrightarrow> cont_ok T ts (reason_number why) v"
  by (cases why) (auto simp: cont_ok_def reason_ok_def value_ok_def)

lemma unwind_pop:
  assumes "goal < length (x # ws)" "type_of x = TYPE_FINALLY \<Longrightarrow> why = FIN_ABORT" "type_of x = TYPE_CATCH \<Longrightarrow> why \<noteq> FIN_RAISE"
  shows "unwind_slots wc db why c v goal (x # ws) = unwind_slots wc db why c v goal ws"
  using assms by (subst unwind_slots.simps) (cases x; auto)

lemma user_type: "user_value x \<Longrightarrow> type_of x \<noteq> TYPE_FINALLY \<and> type_of x \<noteq> TYPE_CATCH"
  by (cases x) auto

text \<open>The target of an exit, and the number of values to keep.\<close>

definition goal_ok :: "typing \<Rightarrow> slot list \<Rightarrow> finally_reason \<Rightarrow> var \<Rightarrow> nat \<Rightarrow> bool" where
  "goal_ok T ts why v goal \<longleftrightarrow>
    (if why = FIN_EXIT then \<exists>l vs. v = VList (VInt (int goal) # VInt (int l) # vs) \<and> exit_ok T ts goal l else goal = 0)"

lemma goal_tail: "goal_ok T (k # ts) why v goal \<Longrightarrow> goal < depth (k # ts) \<Longrightarrow> goal_ok T ts why v goal"
  by (auto simp: goal_ok_def exit_ok_def split: if_splits)

lemma goal_depth: "goal_ok T ts why v goal \<Longrightarrow> conf T ts st \<Longrightarrow> goal \<le> length st"
  using cut_at_conf by (auto simp: goal_ok_def exit_ok_def split: if_splits option.splits)

lemma goal_exit: "goal_ok T ts FIN_EXIT v goal \<Longrightarrow> exit_value T ts v"
  by (auto simp: goal_ok_def exit_value_def)

definition unwound :: "typing \<Rightarrow> var list \<Rightarrow> nat \<Rightarrow> (var list \<times> nat option) option \<Rightarrow> bool" where
  "unwound T st goal r \<longleftrightarrow> (\<exists>st' h. r = Some (st', h) \<and>
    (case h of None \<Rightarrow> st' = drop (length st - goal) st
     | Some pc \<Rightarrow> \<exists>ts. arrives T pc (False, ts) \<and> conf T ts st'))"

lemma unwound_tail: "unwound T ws goal r \<Longrightarrow> goal \<le> length ws \<Longrightarrow> st = xs @ ws \<Longrightarrow> unwound T st goal r"
  by (auto simp: unwound_def Suc_diff_le split: option.splits)

lemma unwind_slots_safe:
  assumes db: "hier_ok Children db" and c: "why = FIN_RAISE \<Longrightarrow> user_value c" and v: "value_ok why v"
    and "shape T ts" "conf T ts st" "goal_ok T ts why v goal"
  shows "unwound T st goal (unwind_slots wc db why c v goal st)"
  using assms(4-)
proof (induction ts arbitrary: st rule: length_induct)
  case (1 ts)
  note prems = "1.prems"
  have IH: "unwound T ws goal (unwind_slots wc db why c v goal ws)"
    if "length us < length ts" "shape T us" "conf T us ws" "goal_ok T us why v goal" for us ws
    using "1.IH" that by blast
  show ?case
  proof (cases "length st \<le> goal")
    case True
    then show ?thesis by (auto simp: unwound_def unwind_slots.simps [of _ _ _ _ _ _ st])
  next
    case False
    then obtain k us where ts: "ts = k # us" using prems(2) by (cases ts) auto
    have shape: "shape T us" using prems(1) ts by simp
    have deep: "goal < depth (k # us)" using False conf_length [OF prems(2)] ts by simp
    have g: "goal_ok T us why v goal" using goal_tail prems(3) deep ts by blast
    have pop: ?thesis if st: "st = x # ws" "conf T us ws"
      and x: "type_of x = TYPE_FINALLY \<Longrightarrow> why = FIN_ABORT" "type_of x = TYPE_CATCH \<Longrightarrow> why \<noteq> FIN_RAISE" for x ws
    proof -
      have "unwound T ws goal (unwind_slots wc db why c v goal ws)" using IH [OF _ shape st(2) g] ts by simp
      then show ?thesis using unwind_pop [of goal x ws why] x False st goal_depth [OF g st(2)]
        by (auto intro: unwound_tail [of T ws goal _ _ "[x]"])
    qed
    show ?thesis
    proof (cases k)
      case KVal
      then show ?thesis using prems(2) ts pop user_type by auto
    next
      case KCount
      then show ?thesis using prems(2) ts pop by auto
    next
      case (KPc l)
      then show ?thesis using prems(2) ts pop by auto
    next
      case KCont
      then obtain x r ws where st: "st = x # VInt r # ws" "cont_ok T us r x" "conf T us ws" using prems(2) ts by auto
      have ux: "user_value x" using st(2) by (auto simp: cont_ok_def reason_ok_def)
      have gd: "goal \<le> length ws" using goal_depth [OF g st(3)] .
      have "unwound T ws goal (unwind_slots wc db why c v goal ws)" using IH [OF _ shape st(3) g] ts by simp
      moreover have "unwind_slots wc db why c v goal st = unwind_slots wc db why c v goal ws"
        using unwind_pop [of goal x "VInt r # ws" why] unwind_pop [of goal "VInt r" ws why] user_type [OF ux] gd st(1) by auto
      ultimately show ?thesis using gd st(1) by (auto intro: unwound_tail [of T ws goal _ _ "[x, VInt r]"])
    next
      case (KFinally l)
      then obtain ws where st: "st = VFinally (int l) # ws" "conf T us ws" using prems(2) ts by auto
      show ?thesis
      proof (cases "why = FIN_ABORT")
        case True
        then show ?thesis using pop [OF st] by simp
      next
        case no_abort: False
        have "cont_ok T us (reason_number why) v" using cont_okI [OF v no_abort] goal_exit g by blast
        then have "conf T (KCont # us) (v # VInt (reason_number why) # ws)" using st(2) by auto
        moreover have "arrives T l (False, KCont # us)" using prems(1) ts KFinally by simp
        moreover have "unwind_slots wc db why c v goal st = Some (v # VInt (reason_number why) # ws, Some l)"
          using no_abort st(1) False by (subst unwind_slots.simps) simp
        ultimately show ?thesis by (auto simp: unwound_def)
      qed
    next
      case (KCatch n)
      then obtain ws where st: "st = VCatch (int n) # ws" "conf T us ws" using prems(2) ts by auto
      show ?thesis
      proof (cases "why = FIN_RAISE")
        case False
        then show ?thesis using pop [OF st] by simp
      next
        case raise: True
        obtain ls ys where p: "pairs n us = Some (ls, ys)" "\<forall>l \<in> set ls. arrives T l (False, KVal # ys)"
          using prems(1) ts KCatch by (auto split: option.splits)
        have pc: "2 * n \<le> length ws" "conf T ys (drop (2 * n) ws)" using pairs_conf [OF p(1) st(2)] by auto
        obtain h where h: "first_handler wc db c (List.rev (take (2 * n) ws)) = Some h" "\<forall>x. h = Some x \<longrightarrow> (\<exists>l \<in> set ls. x = VInt (int l))"
          using first_handler_pairs [OF db c [OF raise] p(1) st(2)] by blast
        have goal: "goal = 0" using prems(3) raise by (simp add: goal_ok_def)
        show ?thesis
        proof (cases h)
          case None
          have "unwound T (drop (2 * n) ws) goal (unwind_slots wc db why c v goal (drop (2 * n) ws))"
            using IH [of ys "drop (2 * n) ws"] pairs_shape [OF p(1) shape] pc(2) pairs_length [OF p(1)] ts raise goal
            by (simp add: goal_ok_def)
          moreover have "unwind_slots wc db why c v goal st = unwind_slots wc db why c v goal (drop (2 * n) ws)"
            using st(1) raise goal pc(1) h(1) None by (subst unwind_slots.simps) simp
          ultimately show ?thesis using goal st(1)
            by (intro unwound_tail [of T "drop (2 * n) ws" goal _ st "VCatch (int n) # take (2 * n) ws"]) simp_all
        next
          case (Some x)
          then obtain l where l: "l \<in> set ls" "x = VInt (int l)" using h(2) by auto
          have "unwind_slots wc db why c v goal st = Some (v # drop (2 * n) ws, Some l)"
            using st(1) raise goal pc(1) h(1) Some l(2) by (subst unwind_slots.simps) simp
          moreover have "conf T (KVal # ys) (v # drop (2 * n) ws)" using pc(2) v by (simp add: value_ok_def)
          ultimately show ?thesis using p(2) l(1) by (auto simp: unwound_def)
        qed
      qed
    qed
  qed
qed

end
