(* ===== verification/DataSafety.thy ===== *)
theory DataSafety
  imports Typing
begin

text \<open>
  What the interpreter does with the database is safe: the properties and verbs it finds are there, and what it reads are values
  of the language.
\<close>

subsection \<open>The database\<close>

text \<open>Values of properties and names are values of the language, and every program is well-typed.\<close>

definition object_data_ok :: "object \<Rightarrow> bool" where
  "object_data_ok a \<longleftrightarrow> c_string (o_name a) \<and> (\<forall>p \<in> set (o_propval a). pv_var p = VClear \<or> user_value (pv_var p)) \<and>
    (\<forall>v \<in> set (o_verbdefs a). case v_program v of None \<Rightarrow> True | Some p \<Rightarrow> program_ok p)"

definition data_ok :: "db \<Rightarrow> bool" where
  "data_ok db \<longleftrightarrow> (\<forall>x a. heap db x = Some a \<longrightarrow> object_data_ok a)"

text \<open>The addresses of names of verbs, as the search through the verbs compares them, are harmless.\<close>

definition db_good :: "'w server \<Rightarrow> db \<Rightarrow> bool" where
  "db_good S db \<longleftrightarrow> db_ok db \<and> data_ok db \<and> (\<forall>verb. c_string verb \<longrightarrow> harmless (sv_same_name S verb) db verb)"

lemma db_goodD: "db_good S db \<Longrightarrow> db_ok db" "db_good S db \<Longrightarrow> data_ok db"
  "db_good S db \<Longrightarrow> c_string verb \<Longrightarrow> harmless (sv_same_name S verb) db verb" "db_good S db \<Longrightarrow> hier_ok Children db"
  by (auto simp: db_good_def dest: db_okD(2) verbs_okD(2))

lemma slot_value_user:
  assumes ok: "props_ok db" and data: "data_ok db" and n: "n < length (slots db x)"
  shows "\<exists>v. slot_value db x n = Some v \<and> user_value v"
proof -
  obtain v where v: "slot_value db x n = Some v" "v \<noteq> VClear" "inherits db (key (slots db x ! n)) x v"
    using slot_value_spec [OF ok n] by blast
  have "user_value w" if "inherits db k y w" "w \<noteq> VClear" for k y w
    using that
  proof (induction rule: inherits.induct)
    case (set_here y p)
    then obtain a where "heap db y = Some a" "p \<in> set (o_propval a)"
      by (auto simp: prop_map_def split: option.splits dest!: map_of_SomeD set_zip_rightD)
    with data set_here show ?case by (auto simp: data_ok_def object_data_ok_def)
  qed
  with v show ?thesis by blast
qed

text \<open>A handle that a search for a property gives.\<close>

definition handle_good :: "db \<Rightarrow> objid \<Rightarrow> prop_handle \<Rightarrow> bool" where
  "handle_good db oid h \<longleftrightarrow> (case h of
     NoProp \<Rightarrow> True
   | BuiltIn b x \<Rightarrow> x = oid
   | Slot x n d \<Rightarrow> x = oid \<and> the_slot db oid n \<noteq> None)"

lemma bi_value_user:
  assumes "db_ok db" "data_ok db" "valid db oid"
  shows "\<exists>v. get_bi_value db b oid = Some v \<and> user_value v"
proof -
  obtain a where a: "heap db oid = Some a" using assms(3) by (auto simp: valid_heap)
  have c: "c_string (o_name a)" using assms(2) a by (auto simp: data_ok_def object_data_ok_def)
  obtain cs where "listing Contents db oid = Some cs"
    using objects_okD [OF db_okD(3) [OF assms(1)], of Contents] assms(3) by (auto simp: hier_ok_def)
  then show ?thesis using a c
    by (cases b) (auto simp: db_object_name_def db_object_owner_def db_object_location_def db_object_has_flag_def int_of_flag_def)
qed

lemma property_found:
  assumes "db_ok db" "data_ok db" "valid db oid" "c_string name"
  shows "\<exists>h v. db_find_property db oid name want = Some (h, v) \<and> handle_good db oid h \<and>
    (want \<and> h \<noteq> NoProp \<longrightarrow> (\<exists>x. v = Some x \<and> user_value x))"
proof (cases "find_bi name")
  case (Some b)
  then show ?thesis using bi_value_user [OF assms(1-3), of b] by (auto simp: db_find_property_def handle_good_def)
next
  case None
  note ok = db_okD(1) [OF assms(1)]
  obtain a where a: "heap db oid = Some a" using assms(3) by (auto simp: valid_heap)
  show ?thesis
  proof (cases "find_index (\<lambda>s. fold_case (pd_name (snd s)) = fold_case name) (slots db oid)")
    case no: None
    then show ?thesis using None find_slot_name [OF ok assms(4), of oid] by (simp add: db_find_property_def handle_good_def)
  next
    case (Some i)
    obtain z p where zp: "slots db oid ! i = (z, p)" by fastforce
    have i: "i < length (slots db oid)" using find_index_Some [OF Some] by auto
    have "the_slot db oid i = Some (o_propval a ! i)"
      using a i props_okD(3) [OF ok a] by (simp add: the_slot_def nth_opt_def obj_props_ok_def)
    moreover have "find_slot db name (str_hash name) oid 0 = Some (Some (z, i))"
      using find_slot_name [OF ok assms(4), of oid] Some zp by simp
    ultimately show ?thesis using None slot_value_user [OF ok assms(2) i] by (auto simp: db_find_property_def handle_good_def)
  qed
qed

lemma allows_total:
  "handle_good db oid (Slot x n d) \<Longrightarrow> \<exists>b. db_property_allows db (Slot x n d) progr fl = Inr b"
  by (auto simp: handle_good_def db_property_allows_def)

lemma read_property_safe:
  assumes "db_ok db" "data_ok db" "c_string name"
  shows "\<exists>r. read_property db progr oid name = Some r \<and> (\<forall>v. r = Inr v \<longrightarrow> user_value v)"
proof (cases "valid db oid")
  case True
  obtain h v where h: "db_find_property db oid name True = Some (h, v)" "handle_good db oid h" "h \<noteq> NoProp \<longrightarrow> (\<exists>x. v = Some x \<and> user_value x)"
    using property_found [OF assms(1,2) True assms(3), of True] by auto
  show ?thesis
  proof (cases h)
    case (Slot x n d)
    then show ?thesis using True h allows_total [of db oid x n d progr PF_READ] by (auto simp: read_property_def)
  qed (use True h in \<open>auto simp: read_property_def\<close>)
qed (simp add: read_property_def)

subsection \<open>Assignments\<close>

lemma heap_change_good:
  assumes "db_good S db" "db_ok d" "heap d = (heap db)(x \<mapsto> b)" "heap db x = Some a" "o_verbdefs b = o_verbdefs a"
    and "c_string (o_name b)" "\<forall>p \<in> set (o_propval b). pv_var p = VClear \<or> user_value (pv_var p)"
  shows "db_good S d"
proof -
  have "data_ok d" using db_goodD(2) [OF assms(1)] assms(3-) by (auto simp: data_ok_def object_data_ok_def)
  moreover have "harmless same d verb" if "harmless same db verb" for same verb
    using that assms(3-5) by (auto simp: harmless_def)
  ultimately show ?thesis using assms(1,2) by (auto simp: db_good_def)
qed

lemma put_allowed_total:
  assumes "valid db oid" "handle_good db oid h"
  shows "\<exists>e. put_allowed db progr oid h rhs = Some e"
proof -
  obtain a where "heap db oid = Some a" using assms(1) by (auto simp: valid_heap)
  then show ?thesis using assms(2) allows_total [of db oid _ _ _ progr PF_WRITE]
    by (cases h) (auto simp: put_allowed_def db_object_owner_def, metis ok_simps(2))
qed

lemma put_value_good:
  assumes good: "db_good S db" and v: "valid db oid" and h: "handle_good db oid h" and rhs: "user_value rhs"
    and allowed: "put_allowed db progr oid h rhs = Some E_NONE"
  shows "\<exists>d. db_set_property_value h rhs db = Inr d \<and> db_good S d"
proof -
  note ok = db_goodD(1) [OF good]
  obtain a where a: "heap db oid = Some a" using v by (auto simp: valid_heap)
  have data: "c_string (o_name a)" "\<forall>p \<in> set (o_propval a). pv_var p = VClear \<or> user_value (pv_var p)"
    using db_goodD(2) [OF good] a by (auto simp: data_ok_def object_data_ok_def)
  show ?thesis
  proof (cases h)
    case NoProp
    then show ?thesis using allowed by (simp add: put_allowed_def)
  next
    case (Slot x n dd)
    then obtain p where p: "x = oid" "the_slot db oid n = Some p" using h by (auto simp: handle_good_def)
    let ?f = "\<lambda>x. x\<lparr>o_propval := (o_propval x)[n := p\<lparr>pv_var := rhs\<rparr>]\<rparr>"
    obtain d where d: "modify oid ?f db = Some d" "heap d = (heap db)(oid \<mapsto> ?f a)" using modify_ok [OF a, of ?f] by blast
    then have s: "db_set_property_value h rhs db = Inr d" using p Slot by (simp add: set_slot_def)
    have "rhs \<noteq> VClear" using rhs by auto
    with s Slot have "db_ok d" using step_ok [OF db_step.set_value ok] by blast
    then have "db_good S d" using d(2) a data rhs
      by (intro heap_change_good [OF good, of d oid "?f a" a]) (auto dest!: set_update_subset_insert [THEN subsetD])
    with s show ?thesis by blast
  next
    case (BuiltIn b x)
    then have x: "x = oid" using h by (simp add: handle_good_def)
    have allowed': "b \<noteq> BP_LOCATION" "b \<noteq> BP_CONTENTS" "b = BP_NAME \<Longrightarrow> \<exists>s. rhs = VStr s" "b = BP_OWNER \<Longrightarrow> \<exists>u. rhs = VObj u"
      using allowed BuiltIn a by (cases rhs; auto simp: put_allowed_def db_object_owner_def split: if_splits)+
    show ?thesis
    proof (cases "b = BP_NAME \<or> b = BP_OWNER")
      case True
      then consider s where "b = BP_NAME" "rhs = VStr s" | u where "b = BP_OWNER" "rhs = VObj u" using allowed' by blast
      then show ?thesis
      proof cases
        case 1
        let ?f = "\<lambda>x. x\<lparr>o_name := s\<rparr>"
        obtain d where d: "modify oid ?f db = Some d" "heap d = (heap db)(oid \<mapsto> ?f a)" using modify_ok [OF a, of ?f] by blast
        then have s: "db_set_object_name oid s db = Some d" by (simp add: db_set_object_name_def)
        have "db_ok d" using step_ok [OF db_step.set_name [OF s] ok] .
        then have "db_good S d" using d(2) a data rhs 1 by (intro heap_change_good [OF good, of d oid "?f a" a]) auto
        then show ?thesis using s BuiltIn x 1 by simp
      next
        case 2
        let ?f = "\<lambda>x. x\<lparr>o_owner := u\<rparr>"
        obtain d where d: "modify oid ?f db = Some d" "heap d = (heap db)(oid \<mapsto> ?f a)" using modify_ok [OF a, of ?f] by blast
        then have s: "db_set_object_owner oid u db = Some d" by (simp add: db_set_object_owner_def)
        have "db_ok d" using step_ok [OF db_step.set_owner [OF s] ok] .
        then have "db_good S d" using d(2) a data by (intro heap_change_good [OF good, of d oid "?f a" a]) auto
        then show ?thesis using s BuiltIn x 2 by simp
      qed
    next
      case False
      note od = db_okD(3) [OF ok]
      obtain d fl where d: "(if is_true rhs then db_set_object_flag oid (bi_flag b) db else db_clear_object_flag oid (bi_flag b) db) = Some d"
        "heap d = (heap db)(oid \<mapsto> a\<lparr>o_flags := fl\<rparr>)"
        using set_flag_spec [OF od a, of "bi_flag b"] clear_flag_spec [OF od a, of "bi_flag b"] by (cases "is_true rhs") auto
      have "db_ok d" using flag_db_ok [OF ok, of oid "bi_flag b" d] d(1) by (auto split: if_splits)
      then have "db_good S d" using d(2) a data by (intro heap_change_good [OF good, of d oid "a\<lparr>o_flags := fl\<rparr>" a]) auto
      then show ?thesis using d(1) False allowed'(1,2) BuiltIn x by simp
    qed
  qed
qed

end
