(* ===== verification/MachineSafety.thy ===== *)
theory MachineSafety
  imports UnwindSafety DataSafety
begin

text \<open>
  The stack of activations of a well-formed machine, what the interpreter relies on in the rest of the server, and
  unwinding the whole stack.
\<close>

subsection \<open>Stacks of activations\<close>

definition vector_at :: "int \<Rightarrow> activation list \<Rightarrow> activation \<Rightarrow> bytecodes option" where
  "vector_at root below_a a =
    (if below_a \<noteq> [] \<or> root = MAIN_VECTOR then Some (main_vector (a_prog a))
     else nth_opt (fork_vectors (a_prog a)) (nat root))"

lemma current_vector_at: "current_vector vm = (case activ_stack vm of [] \<Rightarrow> None | a # as \<Rightarrow> vector_at (root_activ_vector vm) as a)"
  by (auto simp: current_vector_def vector_at_def split: list.split)

text \<open>An activation called by a built-in function resumes it at a place that is not its start.\<close>

definition framed :: "resumptions \<Rightarrow> (bytecodes \<Rightarrow> typing \<Rightarrow> activation \<Rightarrow> bool) \<Rightarrow> int \<Rightarrow> activation list \<Rightarrow> activation \<Rightarrow> bool" where
  "framed RS P root as a \<longleftrightarrow> (\<exists>bc T. vector_at root as a = Some bc \<and> sound RS (a_prog a) bc T a \<and> P bc T a)"

lemma framedI: "vector_at root as a = Some bc \<Longrightarrow> sound RS (a_prog a) bc T a \<Longrightarrow> P bc T a \<Longrightarrow> framed RS P root as a"
  by (auto simp: framed_def)

fun resting :: "resumptions \<Rightarrow> int \<Rightarrow> activation list \<Rightarrow> bool" where
  "resting RS root [] = True"
| "resting RS root (a # as) = (framed RS (\<lambda>bc. waits) root as a \<and> resting RS root as)"

fun top_frame :: "resumptions \<Rightarrow> (bytecodes \<Rightarrow> typing \<Rightarrow> activation \<Rightarrow> bool) \<Rightarrow> int \<Rightarrow> activation list \<Rightarrow> bool" where
  "top_frame RS P root [] = False"
| "top_frame RS P root (a # as) = (framed RS P root as a \<and> resting RS root as)"

lemma framed_mono: "framed RS P root as a \<Longrightarrow> (\<And>bc T. sound RS (a_prog a) bc T a \<Longrightarrow> P bc T a \<Longrightarrow> Q bc T a) \<Longrightarrow> framed RS Q root as a"
  by (auto simp: framed_def)

lemma resting_raising: "resting RS root as \<Longrightarrow> as \<noteq> [] \<Longrightarrow> top_frame RS raisable root as"
  by (cases as) (auto intro: framed_mono waits_raisable)

lemma running_raising: "top_frame RS (\<lambda>bc. runs) root as \<Longrightarrow> top_frame RS raisable root as"
  by (cases as) (auto intro: framed_mono runs_raisable)

lemma vector_at_upd [simp]:
  "vector_at root as (a\<lparr>a_progr := u\<rparr>) = vector_at root as a"
  "vector_at root as (a\<lparr>a_stack := st\<rparr>) = vector_at root as a"
  "vector_at root as (a\<lparr>a_bi_func_id := i, a_bi_func_pc := k, a_bi_func_data := d\<rparr>) = vector_at root as a"
  by (simp_all add: vector_at_def)

definition raising_user :: "activation \<Rightarrow> bool" where
  "raising_user a \<longleftrightarrow> user_value (a_THISOBJ a) \<and> c_string (a_verb a)"

lemma framed_user: "framed RS P root as a \<Longrightarrow> raising_user a"
  by (auto simp: framed_def sound_def raising_user_def)

lemma resting_user: "resting RS root as \<Longrightarrow> \<forall>a \<in> set as. raising_user a"
  by (induction as) (auto intro: framed_user)

lemma top_frame_user: "top_frame RS P root as \<Longrightarrow> \<forall>a \<in> set as. raising_user a"
  by (cases as) (auto intro: framed_user dest: resting_user)

text \<open>Some instructions and calls only change the permissions of the top activation.\<close>

definition same_frames :: "'w vm \<Rightarrow> 'w vm \<Rightarrow> bool" where
  "same_frames vm vm' \<longleftrightarrow> root_activ_vector vm' = root_activ_vector vm \<and>
    (\<exists>a as u. activ_stack vm = a # as \<and> activ_stack vm' = a\<lparr>a_progr := u\<rparr> # as)"

lemma framed_progr [simp]: "framed RS (\<lambda>bc. waits) root as (a\<lparr>a_progr := u\<rparr>) = framed RS (\<lambda>bc. waits) root as a"
  "framed RS raisable root as (a\<lparr>a_progr := u\<rparr>) = framed RS raisable root as a"
  "framed RS (\<lambda>bc. runs) root as (a\<lparr>a_progr := u\<rparr>) = framed RS (\<lambda>bc. runs) root as a"
  by (simp_all add: framed_def waits_def runs_def raisable_def has_type_def cong: option.case_cong)

lemma vector_at_below: "as \<noteq> [] \<Longrightarrow> bs \<noteq> [] \<Longrightarrow> vector_at root as a = vector_at root bs a"
  by (simp add: vector_at_def)

lemma same_frames_resting:
  "same_frames vm vm' \<Longrightarrow> resting RS (root_activ_vector vm) (activ_stack vm) \<Longrightarrow> resting RS (root_activ_vector vm') (activ_stack vm')"
  by (auto simp: same_frames_def)

subsection \<open>One activation\<close>

lemma unwind_activation_safe:
  assumes db: "hier_ok Children db" and s: "sound RS pr bc T a" and ts: "shape T ts" "conf T ts (a_stack a)"
    and v: "value_ok why v" and exit: "why = FIN_EXIT \<Longrightarrow> exit_value T ts v"
  shows "\<exists>g b. unwind_activation wc db why v a = Some (g, b) \<and> (why = FIN_EXIT \<longrightarrow> g) \<and>
    (\<exists>st pc. b = a\<lparr>a_stack := st, a_pc := pc\<rparr>) \<and> (g \<longrightarrow> runs T b)"
proof -
  define c where "c = (if why = FIN_RAISE then (case v of VList (c # _) \<Rightarrow> c | _ \<Rightarrow> VInt 0) else VInt 0)"
  have c: "(if why = FIN_RAISE then (case v of VList (c # _) \<Rightarrow> Some c | _ \<Rightarrow> None) else Some (VInt 0)) = Some c" "user_value c"
    using v by (auto simp: c_def value_ok_def raise_value_def split: var.splits list.splits)
  obtain d l where d: "(if why = FIN_EXIT then (case v of VList (VInt n # VInt l # _) \<Rightarrow> Some (nat n, nat l) | _ \<Rightarrow> None)
      else Some (0, 0)) = Some (d, l)" "goal_ok T ts why v d" "why = FIN_EXIT \<Longrightarrow> exit_ok T ts d l"
  proof (cases "why = FIN_EXIT")
    case True
    then obtain d l vs where "v = VList (VInt (int d) # VInt (int l) # vs)" "exit_ok T ts d l"
      using exit by (auto simp: exit_value_def)
    then show ?thesis using True by (intro that [of d l]) (auto simp: goal_ok_def)
  qed (auto simp: goal_ok_def intro!: that)
  obtain st h where u: "unwind_slots wc db why c v d (a_stack a) = Some (st, h)"
    "case h of None \<Rightarrow> st = drop (length (a_stack a) - d) (a_stack a) | Some pc \<Rightarrow> \<exists>ts. arrives T pc (False, ts) \<and> conf T ts st"
    using unwind_slots_safe [OF db _ v ts d(2), of c wc] c(2) by (auto simp: unwound_def)
  show ?thesis
  proof (cases h)
    case (Some pc)
    then obtain ts' where ts': "arrives T pc (False, ts')" "conf T ts' st" using u(2) by auto
    have "length st \<le> a_stack_size a"
      using wt_arrives [OF sound_wt [OF s] ts'(1)] conf_length [OF ts'(2)] sound_size [OF s] by simp
    moreover have "runs T (a\<lparr>a_stack := st, a_pc := pc\<rparr>)" using ts' by (intro runsI [of T _ False ts']) auto
    ultimately show ?thesis using c(1) d(1) u(1) Some unfolding unwind_activation_def by auto
  next
    case None
    show ?thesis
    proof (cases "why = FIN_EXIT")
      case True
      then obtain us where us: "cut_at d ts = Some us" "arrives T l (False, us)"
        using d(3) by (auto simp: exit_ok_def split: option.splits)
      have "runs T (a\<lparr>a_stack := st, a_pc := l\<rparr>)"
        using us cut_at_conf [OF us(1) ts(2)] u(2) None by (intro runsI [of T _ False us]) auto
      then show ?thesis using c(1) d(1) u(1) None True unfolding unwind_activation_def by auto
    next
      case False
      then have "unwind_activation wc db why v a = Some (False, a\<lparr>a_stack := st\<rparr>)"
        using c(1) d(1) u(1) None unfolding unwind_activation_def by simp
      moreover have "\<exists>st' pc. a\<lparr>a_stack := st\<rparr> = a\<lparr>a_stack := st', a_pc := pc\<rparr>"
        by (rule exI [of _ st], rule exI [of _ "a_pc a"]) simp
      ultimately show ?thesis using False by blast
    qed
  qed
qed

lemma handles_total:
  assumes db: "hier_ok Children db" and c: "user_value c"
  shows "shape T ts \<Longrightarrow> conf T ts st \<Longrightarrow> \<exists>b. handles wc db c st = Some b"
proof (induction ts arbitrary: st rule: length_induct)
  case (1 ts)
  show ?case
  proof (cases ts)
    case Nil
    then show ?thesis using "1.prems" by (auto intro: exI [of _ False])
  next
    case (Cons k us)
    have IH: "\<exists>b. handles wc db c ws = Some b" if "length ys < length ts" "shape T ys" "conf T ys ws" for ys ws
      using "1.IH" that by blast
    have us: "shape T us" "length us < length ts" using "1.prems" Cons by auto
    have pop: ?thesis if "st = x # ws" "conf T us ws" "type_of x \<noteq> TYPE_CATCH" for x ws
      using IH [OF us(2,1) that(2)] that(1,3) by (cases x) auto
    show ?thesis
    proof (cases k)
      case (KCatch n)
      then obtain ws where st: "st = VCatch (int n) # ws" "conf T us ws" using "1.prems" Cons by auto
      obtain ls ys where p: "pairs n us = Some (ls, ys)" using "1.prems" Cons KCatch by (auto split: option.splits)
      have pc: "2 * n \<le> length ws" "conf T ys (drop (2 * n) ws)" using pairs_conf [OF p st(2)] by auto
      obtain h where "first_handler wc db c (List.rev (take (2 * n) ws)) = Some h"
        using first_handler_pairs [OF db c p st(2)] by blast
      then show ?thesis using IH [of ys, OF _ pairs_shape [OF p us(1)] pc(2)] pairs_length [OF p] us(2) st(1) pc(1) by auto
    next
      case KCont
      then obtain x r ws where st: "st = x # VInt r # ws" "cont_ok T us r x" "conf T us ws" using "1.prems" Cons by auto
      have "user_value x" using st(2) by (auto simp: cont_ok_def reason_ok_def)
      then show ?thesis using IH [OF us(2,1) st(3)] st(1) user_type by (cases x) auto
    qed (use "1.prems" Cons pop user_type in auto)
  qed
qed

lemma find_handler_total:
  assumes db: "hier_ok Children db" and c: "user_value c"
  shows "resting RS root as \<Longrightarrow> \<exists>h. find_handler_activ wc db c as = Some h"
proof (induction as)
  case (Cons a as)
  then obtain bc T where "sound RS (a_prog a) bc T a" "waits T a" by (auto simp: framed_def)
  from waits_raisable [OF this] obtain ts where "shape T ts" "conf T ts (a_stack a)" by (auto simp: raisable_def)
  from handles_total [OF db c this] obtain b where "handles wc db c (a_stack a) = Some b" by blast
  with Cons show ?case by auto
qed simp

lemma find_handler_top:
  assumes db: "hier_ok Children db" and c: "user_value c" and t: "top_frame RS raisable root as"
  shows "\<exists>h. find_handler_activ wc db c as = Some h"
proof -
  obtain a bs where as: "as = a # bs" "framed RS raisable root bs a" "resting RS root bs" using t by (cases as) auto
  then obtain T ts where "shape T ts" "conf T ts (a_stack a)" by (auto simp: framed_def raisable_def)
  from handles_total [OF db c this] obtain b where "handles wc db c (a_stack a) = Some b" by blast
  with find_handler_total [OF db c as(3)] as(1) show ?thesis by auto
qed

subsection \<open>What the rest of the server promises\<close>

definition state_ok :: "'w server \<Rightarrow> ('w \<Rightarrow> bool) \<Rightarrow> 'w vm \<Rightarrow> bool" where
  "state_ok S W vm \<longleftrightarrow> db_good S (database vm) \<and> W (world vm)"

lemma state_hier: "state_ok S W vm \<Longrightarrow> hier_ok Children (database vm)"
  by (auto simp: state_ok_def dest: db_goodD(4))

text \<open>The answers of a built-in function: a value, an error, a call of a verb that has pushed its activation, which
  resumes the function at a place other than its start, or a request to suspend, which only a fresh call may make.\<close>

definition answer_ok :: "'w server \<Rightarrow> nat \<Rightarrow> 'w vm \<Rightarrow> nat \<Rightarrow> package \<Rightarrow> 'w vm \<Rightarrow> bool" where
  "answer_ok S f vm pc p vm' \<longleftrightarrow> (case p of
     BI_RETURN v \<Rightarrow> user_value v \<and> same_frames vm vm'
   | BI_RAISE c msg v \<Rightarrow> user_value c \<and> c_string msg \<and> user_value v \<and> same_frames vm vm'
   | BI_CALL k d \<Rightarrow> resumable (sv_resumable S) f k d \<and> top_frame (sv_resumable S) (\<lambda>bc. runs) (root_activ_vector vm') (activ_stack vm')
   | BI_SUSPEND s \<Rightarrow> pc = 1 \<and> same_frames vm vm'
   | BI_KILL \<Rightarrow> same_frames vm vm')"

text \<open>A machine that has called the server: every activation, the top one too, waits for a value.\<close>

definition calling :: "'w server \<Rightarrow> ('w \<Rightarrow> bool) \<Rightarrow> 'w vm \<Rightarrow> bool" where
  "calling S W vm \<longleftrightarrow> state_ok S W vm \<and> activ_stack vm \<noteq> [] \<and> resting (sv_resumable S) (root_activ_vector vm) (activ_stack vm)"

definition machine_ok :: "'w server \<Rightarrow> ('w \<Rightarrow> bool) \<Rightarrow> 'w vm \<Rightarrow> bool" where
  "machine_ok S W vm \<longleftrightarrow> state_ok S W vm \<and> top_frame (sv_resumable S) (\<lambda>bc. runs) (root_activ_vector vm) (activ_stack vm)"

locale verb_contract =
  fixes S :: "'w server" and W :: "'w \<Rightarrow> bool"
  assumes null_program: "program_ok (sv_null_program S)"
    and function_names: "c_string (sv_name_func_by_num S f)"
begin

lemma make_stack_list_user:
  assumes "\<forall>a \<in> set as. raising_user a"
  shows "user_value (make_stack_list S as start include_end root lines)"
proof -
  have "\<forall>v \<in> set (stack_entries S start root lines inc as i). user_value v" for inc i
    using assms
  proof (induction as arbitrary: inc i)
    case (Cons a as)
    then show ?case by (auto simp: frame_entry_def bi_func_entry_def raising_user_def function_names)
  qed simp
  then show ?thesis by (simp add: make_stack_list_def)
qed

end

locale server_contract = verb_contract S W
  for S :: "'w server" and W :: "'w \<Rightarrow> bool" +
  assumes resumed_later: "(f, pc, data) \<in> sv_resumable S \<Longrightarrow> pc \<noteq> 1"
    and call_answers: "calling S W vm \<Longrightarrow> user_value arg \<Longrightarrow> pc = 1 \<and> type_of arg = TYPE_LIST \<and> small_value arg \<or> (f, pc, data) \<in> sv_resumable S \<Longrightarrow>
      \<exists>p vm'. sv_call_bi_func S f arg pc progr data vm = Some (p, vm') \<and> state_ok S W vm' \<and> answer_ok S f vm pc p vm'"
    and squelch_ends: "calling S W vm \<Longrightarrow> (f, pc, data) \<in> sv_resumable S \<Longrightarrow>
      \<exists>vm'. squelch_bi_func S f pc progr data vm = Some vm' \<and> state_ok S W vm' \<and> same_frames vm vm'"
    and suspend_answers: "calling S W vm \<Longrightarrow>
      \<exists>e vm'. sv_suspend_proc S susp vm = Some (e, vm') \<and> (e \<noteq> E_NONE \<longrightarrow> state_ok S W vm' \<and> same_frames vm vm')"
    and fork_answers: "state_ok S W vm \<Longrightarrow> top_frame (sv_resumable S) (\<lambda>bc. runs) (root_activ_vector vm) (activ_stack vm) \<Longrightarrow>
      i < length (fork_vectors (a_prog (hd (activ_stack vm)))) \<Longrightarrow>
      \<exists>e vm'. sv_enqueue_forked_task2 S i delay slot vm = Some (e, vm') \<and> state_ok S W vm' \<and> same_frames vm vm'"
    and waif_get_answers: "calling S W vm \<Longrightarrow> c_string name \<Longrightarrow>
      \<exists>e v vm'. sv_waif_get_prop S w name progr vm = Some (e, v, vm') \<and> user_value v \<and> state_ok S W vm' \<and> same_frames vm vm'"
    and waif_put_answers: "calling S W vm \<Longrightarrow> c_string name \<Longrightarrow> user_value v \<Longrightarrow>
      \<exists>e vm'. sv_waif_put_prop S w name v progr vm = Some (e, vm') \<and> state_ok S W vm' \<and> same_frames vm vm'"
begin

lemma push_top_safe:
  assumes "calling S W vm" "user_value v"
  shows "\<exists>vm'. push_top v vm = Some vm' \<and> machine_ok S W vm'"
proof -
  obtain a as where vm: "activ_stack vm = a # as" "framed (sv_resumable S) (\<lambda>bc. waits) (root_activ_vector vm) as a"
    "resting (sv_resumable S) (root_activ_vector vm) as" "state_ok S W vm"
    using assms(1) by (cases "activ_stack vm") (auto simp: calling_def)
  then obtain bc T where f: "vector_at (root_activ_vector vm) as a = Some bc" "sound (sv_resumable S) (a_prog a) bc T a" "waits T a"
    by (auto simp: framed_def)
  obtain b where b: "push v a = Some b" "b = a\<lparr>a_stack := v # a_stack a\<rparr>" "sound (sv_resumable S) (a_prog a) bc T b" "runs T b"
    using waits_push [OF f(2,3) assms(2)] by blast
  have "vector_at (root_activ_vector vm) as b = Some bc" "a_prog b = a_prog a" using f(1) b(2) by simp_all
  with b(3,4) have "framed (sv_resumable S) (\<lambda>bc. runs) (root_activ_vector vm) as b" by (intro framedI [of _ _ _ bc _ T]) simp_all
  then show ?thesis using vm b(1) by (auto simp: push_top_def machine_ok_def state_ok_def)
qed

lemma set_bi_func_safe:
  assumes "state_ok S W vm" "top_frame (sv_resumable S) (\<lambda>bc. runs) (root_activ_vector vm) (activ_stack vm)" "resumable (sv_resumable S) f k d"
  shows "\<exists>vm'. set_bi_func f k d vm = Some vm' \<and> machine_ok S W vm'"
proof -
  obtain a as where vm: "activ_stack vm = a # as" "framed (sv_resumable S) (\<lambda>bc. runs) (root_activ_vector vm) as a" "resting (sv_resumable S) (root_activ_vector vm) as"
    using assms(2) by (cases "activ_stack vm") auto
  obtain bc T where f: "vector_at (root_activ_vector vm) as a = Some bc" "sound (sv_resumable S) (a_prog a) bc T a" "runs T a"
    using vm(2) by (auto simp: framed_def)
  let ?b = "a\<lparr>a_bi_func_id := f, a_bi_func_pc := k, a_bi_func_data := d\<rparr>"
  have "sound (sv_resumable S) (a_prog a) bc T ?b" using sound_bi_func [OF f(2) assms(3)] .
  moreover have "runs T ?b" using f(3) by (simp add: runs_def has_type_def cong: option.case_cong)
  ultimately have "framed (sv_resumable S) (\<lambda>bc. runs) (root_activ_vector vm) as ?b" using f(1) by (intro framedI [of _ _ _ bc _ T]) simp_all
  then show ?thesis using vm assms(1) by (simp add: set_bi_func_def machine_ok_def state_ok_def)
qed

lemma raise_prepare_safe:
  assumes vm: "state_ok S W vm" "top_frame (sv_resumable S) raisable (root_activ_vector vm) (activ_stack vm)"
    and c: "user_value c" "c_string msg" "user_value v"
  shows "\<exists>why x vm'. raise_prepare S c msg v vm = Some (why, x, vm') \<and> value_ok why x \<and> why \<noteq> FIN_EXIT \<and> state_ok S W vm' \<and>
    activ_stack vm' = activ_stack vm \<and> root_activ_vector vm' = root_activ_vector vm"
proof -
  have db: "hier_ok Children (database vm)" using state_hier [OF vm(1)] .
  obtain h where h: "find_handler_activ (sv_waif_class S (world vm)) (database vm) c (activ_stack vm) = Some h"
    using find_handler_top [OF db c(1) vm(2)] by blast
  have u: "user_value (make_stack_list S (activ_stack vm) start inc root lines)" for start inc root lines
    using make_stack_list_user [OF top_frame_user [OF vm(2)]] .
  show ?thesis
  proof (cases h)
    case None
    then show ?thesis using h vm(1) by (simp add: raise_prepare_def value_ok_def save_handler_info_def state_ok_def)
  next
    case (Some n)
    then show ?thesis using h vm(1) c u by (simp add: raise_prepare_def value_ok_def raise_value_def)
  qed
qed

text \<open>Unwinding the stack ends the task or leaves a machine that goes on.\<close>

lemma same_frames_calling:
  assumes "same_frames vm vm'" "calling S W vm" "state_ok S W vm'"
  shows "calling S W vm'"
  using assms same_frames_resting [OF assms(1)] by (auto simp: calling_def same_frames_def)

lemma same_frames_length: "same_frames vm vm' \<Longrightarrow> length (activ_stack vm') = length (activ_stack vm)"
  by (auto simp: same_frames_def)

lemma calling_raising: "calling S W vm \<Longrightarrow> top_frame (sv_resumable S) raisable (root_activ_vector vm) (activ_stack vm)"
  by (auto simp: calling_def intro: resting_raising)

lemma unwind_stack_safe:
  assumes "state_ok S W vm" "top_frame (sv_resumable S) raisable (root_activ_vector vm) (activ_stack vm)" "value_ok why v" "why \<noteq> FIN_EXIT"
  shows "\<exists>stop vm'. unwind_stack S why v vm = Some (stop, vm') \<and> (stop = None \<longrightarrow> machine_ok S W vm')"
  using assms
proof (induction "length (activ_stack vm)" arbitrary: vm why v rule: less_induct)
  case less
  obtain a as where vm: "activ_stack vm = a # as" "framed (sv_resumable S) raisable (root_activ_vector vm) as a" "resting (sv_resumable S) (root_activ_vector vm) as"
    using less.prems(2) by (cases "activ_stack vm") auto
  obtain bc T where f: "vector_at (root_activ_vector vm) as a = Some bc" "sound (sv_resumable S) (a_prog a) bc T a" "raisable bc T a"
    using vm(2) by (auto simp: framed_def)
  obtain ts where ts: "shape T ts" "conf T ts (a_stack a)" using f(3) by (auto simp: raisable_def)
  have r1: "resumable (sv_resumable S) (a_bi_func_id a) (a_bi_func_pc a) (a_bi_func_data a)" using f(2) by (simp add: sound_def)
  have db: "hier_ok Children (database vm)" using state_hier [OF less.prems(1)] .
  obtain g b where b: "unwind_activation (sv_waif_class S (world vm)) (database vm) why v a = Some (g, b)"
    "\<exists>st pc. b = a\<lparr>a_stack := st, a_pc := pc\<rparr>" "g \<longrightarrow> runs T b"
    using unwind_activation_safe [OF db f(2) ts less.prems(3), of "sv_waif_class S (world vm)"] less.prems(4) by blast
  have bf: "a_bi_func_pc b = a_bi_func_pc a" "a_bi_func_id b = a_bi_func_id a" "a_progr b = a_progr a" "a_bi_func_data b = a_bi_func_data a"
    using b(2) by auto
  show ?case
  proof (cases "g \<or> as = []")
    case True
    moreover have "machine_ok S W (vm\<lparr>activ_stack := b # as\<rparr>)" if g
    proof -
      have "framed (sv_resumable S) (\<lambda>bc. runs) (root_activ_vector vm) as b"
        unfolding framed_def using f b(2,3) that by (auto simp: vector_at_def)
      then show ?thesis using less.prems(1) vm(3) by (simp add: machine_ok_def state_ok_def)
    qed
    ultimately show ?thesis using vm(1) b(1) by (subst unwind_stack.simps) auto
  next
    case False
    define vm1 where "vm1 = vm\<lparr>activ_stack := as\<rparr>"
    have vm1: "calling S W vm1" using False less.prems(1) vm(3) by (simp add: vm1_def calling_def state_ok_def)
    have len: "length (activ_stack vm1) < length (activ_stack vm)" using vm(1) by (simp add: vm1_def)
    have IH: "\<exists>stop vm''. unwind_stack S why' v' vm' = Some (stop, vm'') \<and> (stop = None \<longrightarrow> machine_ok S W vm'')"
      if "calling S W vm'" "same_frames vm1 vm' \<or> vm' = vm1" "value_ok why' v'" "why' \<noteq> FIN_EXIT" for vm' why' v'
      using less.hyps [of vm' why' v'] len that same_frames_length [of vm1 vm'] calling_raising by (auto simp: calling_def)
    have uv: "user_value v" using less.prems(3) by (simp add: value_ok_def)
    note unfold = unwind_stack.simps [of S why v vm]
    have f1: "(a_bi_func_id a, a_bi_func_pc a, a_bi_func_data a) \<in> sv_resumable S" if "a_bi_func_pc a \<noteq> 0"
      using r1 that by (simp add: resumable_def)
    show ?thesis
    proof (cases "a_bi_func_pc a = 0")
      case True
      show ?thesis
      proof (cases "why = FIN_RETURN")
        case True
        obtain vm' where "push_top v vm1 = Some vm'" "machine_ok S W vm'" using push_top_safe [OF vm1 uv] by blast
        moreover from this have "unwind_stack S why v vm = Some (None, vm')"
          using True vm(1) b(1) bf False \<open>a_bi_func_pc a = 0\<close> by (subst unfold) (simp add: vm1_def)
        ultimately show ?thesis by simp
      next
        case no_return: False
        then show ?thesis using IH [OF vm1 _ less.prems(3,4)] vm(1) b(1) bf False \<open>a_bi_func_pc a = 0\<close>
          by (auto simp: unfold vm1_def)
      qed
    next
      case bi: False
      show ?thesis
      proof (cases "why = FIN_RETURN")
        case True
        obtain p vm2 where p: "sv_call_bi_func S (a_bi_func_id a) v (a_bi_func_pc a) (a_progr (hd as)) (a_bi_func_data a) vm1 = Some (p, vm2)"
          "state_ok S W vm2" "answer_ok S (a_bi_func_id a) vm1 (a_bi_func_pc a) p vm2"
          using call_answers [OF vm1 uv] f1 [OF bi] by blast
        have unf: "unwind_stack S why v vm = (case p of
                 BI_RETURN v \<Rightarrow> map_option (\<lambda>vm. (None, vm)) (push_top v vm2)
               | BI_RAISE c msg v \<Rightarrow>
                   if activ_stack vm2 \<noteq> [] \<and> a_debug (hd (activ_stack vm2)) then (do {
                     (why, value, vm) \<leftarrow> raise_prepare S c msg v vm2;
                     unwind_stack S why value vm
                   })
                   else map_option (\<lambda>vm. (None, vm)) (push_top c vm2)
               | BI_SUSPEND susp \<Rightarrow> do {
                   (e, vm) \<leftarrow> suspend_task S susp vm2;
                   if e = E_NONE then Some (Some OUTCOME_BLOCKED, vm) else unwind_stack S FIN_RAISE (VErr e) vm
                 }
               | BI_CALL pc data \<Rightarrow> map_option (\<lambda>vm. (None, vm)) (set_bi_func (a_bi_func_id a) pc data vm2)
               | BI_KILL \<Rightarrow> unwind_stack S FIN_ABORT (VInt 0) vm2)"
          using True bi vm(1) b(1) bf False p(1) by (subst unfold) (simp add: vm1_def)
        show ?thesis
        proof (cases p)
          case (BI_RETURN x)
          then have "calling S W vm2" "user_value x" using p vm1 same_frames_calling by (auto simp: answer_ok_def)
          from push_top_safe [OF this] show ?thesis using unf BI_RETURN by auto
        next
          case (BI_RAISE c msg x)
          then have c: "calling S W vm2" "user_value c" "c_string msg" "user_value x" "same_frames vm1 vm2"
            using p vm1 same_frames_calling by (auto simp: answer_ok_def)
          obtain why' x' vm3 where r: "raise_prepare S c msg x vm2 = Some (why', x', vm3)" "value_ok why' x'" "why' \<noteq> FIN_EXIT"
            "state_ok S W vm3" "activ_stack vm3 = activ_stack vm2" "root_activ_vector vm3 = root_activ_vector vm2"
            using raise_prepare_safe [OF p(2) calling_raising [OF c(1)] c(2-4)] by blast
          have vm3: "calling S W vm3" "same_frames vm1 vm3" using r c(1,5) by (auto simp: calling_def same_frames_def)
          show ?thesis
          proof (cases "activ_stack vm2 \<noteq> [] \<and> a_debug (hd (activ_stack vm2))")
            case True
            then show ?thesis using unf BI_RAISE r(1) IH [OF vm3(1) _ r(2,3)] vm3(2) by auto
          next
            case False
            then show ?thesis using unf BI_RAISE push_top_safe [OF c(1,2)] by auto
          qed
        next
          case (BI_CALL k d)
          then have "resumable (sv_resumable S) (a_bi_func_id a) k d" "top_frame (sv_resumable S) (\<lambda>bc. runs) (root_activ_vector vm2) (activ_stack vm2)" using p(3) by (auto simp: answer_ok_def)
          from set_bi_func_safe [OF p(2) this(2,1)] show ?thesis using unf BI_CALL by fastforce
        next
          case (BI_SUSPEND s)
          then show ?thesis using p(3) resumed_later [OF f1 [OF bi]] by (simp add: answer_ok_def)
        next
          case BI_KILL
          then have "same_frames vm1 vm2" "calling S W vm2" using p vm1 same_frames_calling by (auto simp: answer_ok_def)
          then show ?thesis using unf BI_KILL IH [of vm2 FIN_ABORT "VInt 0"] by (auto simp: value_ok_def)
        qed
      next
        case no_return: False
        obtain vm2 where q: "squelch_bi_func S (a_bi_func_id a) (a_bi_func_pc a) (a_progr a) (a_bi_func_data a) vm1 = Some vm2"
          "state_ok S W vm2" "same_frames vm1 vm2"
          using squelch_ends [OF vm1 f1 [OF bi]] by blast
        have "calling S W vm2" using same_frames_calling [OF q(3) vm1 q(2)] .
        then show ?thesis using IH [OF _ _ less.prems(3,4), of vm2] q(1,3) no_return bi vm(1) b(1) bf False
          by (auto simp: unfold vm1_def)
      qed
    qed
  qed
qed

end

end
