(* ===== verification/CallSafety.thy ===== *)
theory CallSafety
  imports MachineSafety
begin

text \<open>
  Calling a verb gives a well-formed activation at the start of well-typed code.
\<close>

subsection \<open>Environments\<close>

lemma set_all_ok:
  "env_ok env \<Longrightarrow> \<forall>(slot, v) \<in> set svs. slot < length env \<and> (v = VNone \<or> user_value v) \<Longrightarrow>
    \<exists>env'. set_all svs env = Some env' \<and> length env' = length env \<and> env_ok env'"
proof (induction svs arbitrary: env)
  case (Cons sv svs)
  obtain slot v where sv: "sv = (slot, v)" by (cases sv)
  then have v: "slot < length env" "v = VNone \<or> user_value v" using Cons.prems by auto
  have "env_ok (env[slot := v])" using Cons.prems(1) v
    by (auto simp: env_ok_def dest!: set_update_subset_insert [THEN subsetD])
  from Cons.IH [OF this] Cons.prems(2) sv v show ?case by (auto simp: set_env_def)
qed simp

lemma new_env_ok [simp]: "env_ok (new_rt_env n)" "length (new_rt_env n) = n"
  by (auto simp: env_ok_def new_rt_env_def)

lemma fill_in_ok:
  assumes "program_ok p"
  shows "\<exists>env. fill_in_rt_consts (prog_version p) (new_rt_env (length (var_names p))) = Some env \<and>
    length env = length (var_names p) \<and> env_ok env"
proof -
  have "least_vars p \<le> length (var_names p)" using assms by (simp add: program_ok_def)
  then have "\<forall>(slot, v) \<in> set ([(SLOT_ERR, VInt 3), (SLOT_NUM, VInt 0), (SLOT_STR, VInt 2), (SLOT_OBJ, VInt 1), (SLOT_LIST, VInt 4)] @
      (if DBV_Float \<le> prog_version p then [(SLOT_INT, VInt 0), (SLOT_FLOAT, VInt 9)] else [])).
    slot < length (new_rt_env (length (var_names p))) \<and> (v = VNone \<or> user_value v)"
    by (auto simp: slot_defs least_vars_def split: if_splits)
  from set_all_ok [OF new_env_ok(1) this] show ?thesis unfolding fill_in_rt_consts_def by simp
qed

lemma enough_vars: "program_ok p \<Longrightarrow> 16 \<le> length (var_names p)"
  by (auto simp: program_ok_def least_vars_def split: if_splits)

lemma get_env_ok: "env_ok env \<Longrightarrow> slot < length env \<Longrightarrow> \<exists>v. get_env slot env = Some v \<and> (v = VNone \<or> user_value v)"
  by (auto simp: get_env_def env_ok_def)

lemma callee_env_ok:
  assumes p: "program_ok p" and c: "env_ok (a_env c)" "16 \<le> length (a_env c)" "user_value (a_THISOBJ c)"
    and args: "user_value THISOBJ" "c_string vname" "\<forall>v \<in> set args. user_value v"
  shows "\<exists>env. callee_env db p c THISOBJ vname args = Some env \<and> length env = length (var_names p) \<and> env_ok env \<and>
    (\<exists>u. env ! SLOT_PLAYER = VObj u)"
proof -
  have len: "16 \<le> length (var_names p)" using enough_vars [OF p] .
  obtain env where e0: "fill_in_rt_consts (prog_version p) (new_rt_env (length (var_names p))) = Some env"
    "length env = length (var_names p)" "env_ok env"
    using fill_in_ok [OF p] by blast
  obtain env1 where e1: "set_all [(SLOT_THIS, THISOBJ), (SLOT_CALLER, a_THISOBJ c)] env = Some env1" "length env1 = length env" "env_ok env1"
    using set_all_ok [OF e0(3), of "[(SLOT_THIS, THISOBJ), (SLOT_CALLER, a_THISOBJ c)]"] e0(2) len args(1) c(3)
    by (auto simp: slot_defs simp del: set_all.simps)
  have g: "\<exists>v. get_env slot (a_env c) = Some v \<and> (v = VNone \<or> user_value v)" if "slot < 16" for slot
    using get_env_ok [OF c(1), of slot] c(2) that by simp
  obtain v1 v2 v3 v4 v5 v6 v7 where v: "get_env SLOT_ARGSTR (a_env c) = Some v1" "v1 = VNone \<or> user_value v1"
    "get_env SLOT_DOBJ (a_env c) = Some v2" "v2 = VNone \<or> user_value v2"
    "get_env SLOT_DOBJSTR (a_env c) = Some v3" "v3 = VNone \<or> user_value v3"
    "get_env SLOT_PREPSTR (a_env c) = Some v4" "v4 = VNone \<or> user_value v4"
    "get_env SLOT_IOBJ (a_env c) = Some v5" "v5 = VNone \<or> user_value v5"
    "get_env SLOT_IOBJSTR (a_env c) = Some v6" "v6 = VNone \<or> user_value v6"
    "get_env SLOT_PLAYER (a_env c) = Some v7" "v7 = VNone \<or> user_value v7"
    using g [of SLOT_ARGSTR] g [of SLOT_DOBJ] g [of SLOT_DOBJSTR] g [of SLOT_PREPSTR] g [of SLOT_IOBJ] g [of SLOT_IOBJSTR] g [of SLOT_PLAYER]
    by (auto simp: slot_defs)
  let ?l2 = "[(SLOT_ARGSTR, v1), (SLOT_DOBJ, v2), (SLOT_DOBJSTR, v3), (SLOT_PREPSTR, v4), (SLOT_IOBJ, v5), (SLOT_IOBJSTR, v6)]"
  obtain env2 where e2: "set_all ?l2 env1 = Some env2" "length env2 = length env" "env_ok env2"
    using set_all_ok [OF e1(3), of ?l2] e1(2) e0(2) len v by (auto simp: slot_defs simp del: set_all.simps)
  define pl where "pl = (if is_wizard db (a_progr c) \<and> type_of v7 = TYPE_OBJ then v7 else VObj (a_player c))"
  have pl: "\<exists>u. pl = VObj u" by (cases v7) (auto simp: pl_def)
  let ?l3 = "[(SLOT_PLAYER, pl), (SLOT_VERB, VStr (if vname \<noteq> [] \<and> hd vname = WAIF_VERB_PREFIX then tl vname else vname)), (SLOT_ARGS, VList args)]"
  have "c_string (if vname \<noteq> [] \<and> hd vname = WAIF_VERB_PREFIX then tl vname else vname)" using args(2) by (cases vname) auto
  then obtain env3 where e3: "set_all ?l3 env2 = Some env3" "length env3 = length env" "env_ok env3"
    using set_all_ok [OF e2(3), of ?l3] e2(2) e0(2) len args(3) pl by (auto simp: slot_defs simp del: set_all.simps split del: if_split)
  have "env3 ! SLOT_PLAYER = pl" using e3(1) e2(2) e0(2) len by (auto simp: set_env_def slot_defs)
  moreover have "callee_env db p c THISOBJ vname args = Some env3"
    unfolding callee_env_def using e0(1) e1(1) e2(1) e3(1) v by (simp add: pl_def del: set_all.simps)
  ultimately show ?thesis using e3 e0(2) pl by metis
qed

subsection \<open>Verbs\<close>

lemma find_up_verb:
  assumes "ids_ok db"
  shows "hier_ok Children db \<Longrightarrow> find_up P db x = Some (Some h) \<Longrightarrow> \<exists>v. the_verb db h = Some v"
proof (induction x rule: up_induct)
  case (invalid x)
  then show ?case by (subst (asm) find_up.simps) simp
next
  case (valid x a)
  show ?case
  proof (cases "find P (o_verbdefs a)")
    case None
    with valid show ?thesis by (simp add: find_up.simps [of P db x])
  next
    case (Some v)
    have h: "h = (o_id a, v_addr v)" using valid.prems valid(1) Some by (simp add: find_up.simps [of P db x])
    have "o_id a = x" using assms valid(1) by (auto simp: ids_ok_def)
    moreover have "v \<in> set (o_verbdefs a)" using Some by (auto simp: find_Some_iff)
    then have "find (\<lambda>w. v_addr w = v_addr v) (o_verbdefs a) \<noteq> None" by (auto simp: find_None_iff)
    ultimately show ?thesis using valid(1) h by (auto simp: the_verb_def)
  qed
qed

lemma found_verb:
  assumes good: "db_good S db" and v: "the_verb db h = Some v"
  shows "c_string (v_name v) \<and> (case v_program v of None \<Rightarrow> True | Some p \<Rightarrow> program_ok p)"
proof -
  obtain a where a: "heap db (fst h) = Some a" "v \<in> set (o_verbdefs a)"
    using v by (auto simp: the_verb_def Option.bind_eq_Some_conv find_Some_iff)
  have "c_string (v_name v)" using db_okD(2) [OF db_goodD(1) [OF good]] a by (auto simp: verbs_ok_def names_ok_def)
  then show ?thesis using db_goodD(2) [OF good] a by (auto simp: data_ok_def object_data_ok_def)
qed

lemma find_callable_good:
  assumes good: "db_good S db" and c: "c_string verb"
  shows "\<exists>h d. db_find_callable_verb (sv_same_name S verb) oid verb db = Some (h, d) \<and> db_good S d \<and>
    (\<forall>g. h = Some g \<longrightarrow> (\<exists>v. the_verb d g = Some v))"
proof -
  note ok = db_goodD(1) [OF good]
  note hl = db_goodD(3) [OF good c]
  obtain h d where h: "db_find_callable_verb (sv_same_name S verb) oid verb db = Some (h, d)"
    "find_up (by_name verb) db oid = Some h" "verbs_ok d" "heap d = heap db"
    using callable_spec [OF db_okD(2) [OF ok] c hl, of oid] by blast
  have "db_good S d" using good h(4) call_db_ok [OF ok c hl h(1)] by (auto simp: db_good_def data_ok_def harmless_def)
  moreover have "\<exists>v. the_verb d g = Some v" if "h = Some g" for g
    using find_up_verb [of db "by_name verb" oid g] h(2,4) that db_goodD(4) [OF good] verbs_okD(3) [OF db_okD(2) [OF ok]]
    by (simp add: the_verb_def)
  ultimately show ?thesis using h(1) by blast
qed

context verb_contract
begin

lemma call_verb2_safe:
  assumes vm: "calling S W vm" and args: "c_string vname" "user_value THISOBJ" "\<forall>v \<in> set args. user_value v"
  shows "\<exists>e vm'. call_verb2 S thisobj vname THISOBJ args do_pass vm = Some (e, vm') \<and>
    (if e = E_NONE then machine_ok S W vm' \<and> tl (activ_stack vm') = activ_stack vm
     else calling S W vm' \<and> same_frames vm vm') \<and> root_activ_vector vm' = root_activ_vector vm"
proof -
  obtain c as where c: "activ_stack vm = c # as" using vm by (cases "activ_stack vm") (auto simp: calling_def)
  have good: "db_good S (database vm)" and W: "W (world vm)" using vm by (auto simp: calling_def state_ok_def)
  have rest: "resting (sv_resumable S) (root_activ_vector vm) (c # as)" using vm c by (simp add: calling_def)
  have refl: "same_frames vm vm" using c by (auto simp: same_frames_def intro: exI [of _ "a_progr c"])
  obtain bc T where fr: "sound (sv_resumable S) (a_prog c) bc T c" using rest by (auto simp: framed_def)
  have env: "env_ok (a_env c)" "16 \<le> length (a_env c)" "user_value (a_THISOBJ c)"
    using fr enough_vars [of "a_prog c"] by (auto simp: sound_def)
  define place where "place = (if do_pass then (if \<not> valid (database vm) (a_vloc c) then NOTHING else the (db_object_parent (database vm) (a_vloc c)))
    else thisobj)"
  have pl: "(if do_pass then (if \<not> valid (database vm) (a_vloc c) then Some NOTHING else db_object_parent (database vm) (a_vloc c))
    else Some thisobj) = Some place"
    by (auto simp: place_def db_object_parent_def valid_heap)
  show ?thesis
  proof (cases "valid (database vm) place")
    case False
    then show ?thesis using c pl vm refl by (simp add: call_verb2_def)
  next
    case True
    obtain h d where h: "db_find_callable_verb (sv_same_name S vname) place vname (database vm) = Some (h, d)" "db_good S d"
      "\<forall>g. h = Some g \<longrightarrow> (\<exists>v. the_verb d g = Some v)"
      using find_callable_good [OF good args(1)] by blast
    let ?vm = "vm\<lparr>database := d\<rparr>"
    have st: "calling S W ?vm" "same_frames vm ?vm"
      using vm h(2) W refl by (simp_all add: calling_def state_ok_def same_frames_def)
    show ?thesis
    proof (cases "h = None \<or> \<not> room_for_activation ?vm")
      case True
      then show ?thesis using c pl h(1) \<open>valid (database vm) place\<close> st by (auto simp: call_verb2_def Let_def)
    next
      case False
      then obtain g v where g: "h = Some g" "the_verb d g = Some v" using h(3) by auto
      define p where "p = (case v_program v of None \<Rightarrow> sv_null_program S | Some p \<Rightarrow> p)"
      have p: "program_ok p" "c_string (v_name v)" using found_verb [OF h(2) g(2)] null_program by (auto simp: p_def split: option.splits)
      obtain env u where env': "callee_env d p c THISOBJ vname args = Some env" "length env = length (var_names p)" "env_ok env"
        "env ! SLOT_PLAYER = VObj u"
        using callee_env_ok [OF p(1) env args(2,1,3), of d] by blast
      obtain T0 where T0: "wt p (main_vector p) T0" using p(1) by (auto simp: program_ok_def)
      define a where "a = \<lparr>a_prog = p, a_env = env, a_stack = [], a_stack_size = max_stack (main_vector p), a_pc = 0, a_error_pc = 0,
       a_bi_func_pc = 0, a_bi_func_id = 0, a_bi_func_data = 0, a_temp = VNone, a_THISOBJ = THISOBJ, a_thisobj = thisobj,
       a_player = u, a_progr = v_owner v, a_vloc = fst g, a_verb = vname, a_verbname = v_name v,
       a_debug = (((v_perms v AND PERMMASK) AND VF_DEBUG) \<noteq> 0)\<rparr>"
      have "callee d p c h thisobj THISOBJ vname args = Some a"
        using g env' by (simp add: callee_def a_def db_verb_owner_def db_verb_definer_def db_verb_names_def db_verb_flags_def on_verb_def)
      moreover have "ok (db_verb_program (sv_null_program S) d h) = Some p" using g by (simp add: db_verb_program_def on_verb_def p_def)
      ultimately have e: "call_verb2 S thisobj vname THISOBJ args do_pass vm = Some (E_NONE, ?vm\<lparr>activ_stack := a # c # as\<rparr>)"
        using c pl h(1) \<open>valid (database vm) place\<close> False by (simp add: call_verb2_def Let_def)
      have "sound (sv_resumable S) p (main_vector p) T0 a" using p env' T0 args by (simp add: sound_def a_def)
      moreover have "runs T0 a" using T0 by (simp add: runs_def has_type_def a_def wt_def)
      ultimately have "framed (sv_resumable S) (\<lambda>bc. runs) (root_activ_vector vm) (c # as) a"
        by (intro framedI [of _ _ _ "main_vector p" _ T0]) (simp_all add: a_def vector_at_def)
      then have "machine_ok S W (?vm\<lparr>activ_stack := a # c # as\<rparr>)" using rest h(2) W by (simp add: machine_ok_def state_ok_def)
      then show ?thesis using e c by simp
    qed
  qed
qed

end

end
