(* ===== verification/StepSafety.thy ===== *)
theory StepSafety
  imports CallSafety
begin

text \<open>
  One round of the interpreter loop: every instruction of well-typed code, on a machine whose activations conform to their types,
  leaves such a machine, or ends the task.
\<close>

definition result_ok :: "'w server \<Rightarrow> ('w \<Rightarrow> bool) \<Rightarrow> 'w result option \<Rightarrow> bool" where
  "result_ok S W r \<longleftrightarrow> (case r of None \<Rightarrow> False | Some (Running vm) \<Rightarrow> machine_ok S W vm | Some (Stopped out v vm) \<Rightarrow> True)"

lemma result_ok_simps [simp]:
  "\<not> result_ok S W None" "result_ok S W (Some (Running vm)) = machine_ok S W vm" "result_ok S W (Some (Stopped out v vm))"
  by (simp_all add: result_ok_def)

text \<open>A machine whose activations below the top one wait, and where the top one runs the code \<open>bc\<close> of the program \<open>pr\<close>.\<close>

definition hosts :: "'w server \<Rightarrow> ('w \<Rightarrow> bool) \<Rightarrow> 'w vm \<Rightarrow> program \<Rightarrow> bytecodes \<Rightarrow> bool" where
  "hosts S W vm pr bc \<longleftrightarrow> state_ok S W vm \<and>
    (\<exists>x as. activ_stack vm = x # as \<and> resting (sv_resumable S) (root_activ_vector vm) as \<and> a_prog x = pr \<and> vector_at (root_activ_vector vm) as x = Some bc)"

lemma vector_at_prog: "a_prog a = a_prog b \<Longrightarrow> vector_at root as a = vector_at root as b"
  by (simp add: vector_at_def)

lemma hosts_frame:
  assumes "hosts S W vm pr bc" "sound (sv_resumable S) pr bc T b" "P bc T b"
  shows "top_frame (sv_resumable S) P (root_activ_vector (with_top b vm)) (activ_stack (with_top b vm))" "state_ok S W (with_top b vm)"
proof -
  obtain x as where x: "activ_stack vm = x # as" "resting (sv_resumable S) (root_activ_vector vm) as" "a_prog x = pr"
    "vector_at (root_activ_vector vm) as x = Some bc" "state_ok S W vm"
    using assms(1) by (auto simp: hosts_def)
  have "a_prog b = pr" using assms(2) by (simp add: sound_def)
  then have "framed (sv_resumable S) P (root_activ_vector vm) as b"
    using assms(2,3) x(3,4) vector_at_prog [of b x] by (intro framedI [of _ _ _ bc _ T]) auto
  then show "top_frame (sv_resumable S) P (root_activ_vector (with_top b vm)) (activ_stack (with_top b vm))" "state_ok S W (with_top b vm)"
    using x by (auto simp: with_top_def state_ok_def)
qed

lemma hosts_machine_ok: "hosts S W vm pr bc \<Longrightarrow> sound (sv_resumable S) pr bc T b \<Longrightarrow> runs T b \<Longrightarrow> machine_ok S W (with_top b vm)"
  using hosts_frame [of S W vm pr bc T b "\<lambda>bc. runs"] by (simp add: machine_ok_def)

lemma top_frame_waits: "top_frame (sv_resumable S) (\<lambda>bc. waits) root as \<longleftrightarrow> as \<noteq> [] \<and> resting (sv_resumable S) root as"
  by (cases as) auto

lemma hosts_calling: "hosts S W vm pr bc \<Longrightarrow> sound (sv_resumable S) pr bc T b \<Longrightarrow> waits T b \<Longrightarrow> calling S W (with_top b vm)"
  using hosts_frame [of S W vm pr bc T b "\<lambda>bc. waits"] by (simp add: calling_def top_frame_waits)

text \<open>The values of an instruction and the rest of the stack.\<close>

lemma take_vals:
  assumes r: "ready RS pr bc T a t ts" and sw: "swap_vals (n, m) ts = Some us"
  shows "\<exists>vs ws. a_stack a = vs @ ws \<and> length vs = n \<and> (\<forall>v \<in> set vs. user_value v) \<and> conf T (drop n ts) ws \<and>
    us = replicate m KVal @ drop n ts"
proof -
  have ts: "ts = replicate n KVal @ drop n ts" and us: "us = replicate m KVal @ drop n ts"
    using sw by (auto simp: swap_vals_def split: if_splits) (metis append_take_drop_id)
  have "conf T (replicate n KVal @ drop n ts) (a_stack a)" using readyD(2) [OF r] ts by simp
  then show ?thesis using us by (auto simp: conf_vals)
qed

lemma conf_popped:
  assumes "ready RS pr bc T a t ts" "swap_vals (n, m) ts = Some us"
  shows "\<exists>vs ws. a_stack a = vs @ ws \<and> length vs = n \<and> (\<forall>v \<in> set vs. user_value v) \<and> conf T (drop n ts) ws \<and>
    us = replicate m KVal @ drop n ts \<and> ready RS pr bc T (a\<lparr>a_stack := ws\<rparr>) t (drop n ts)"
proof -
  obtain vs ws where v: "a_stack a = vs @ ws" "length vs = n" "\<forall>v \<in> set vs. user_value v" "conf T (drop n ts) ws"
    "us = replicate m KVal @ drop n ts"
    using take_vals [OF assms] by blast
  have "depth (drop n ts) \<le> depth ts" by (metis append_take_drop_id depth_simps(3) le_add2)
  then have "ready RS pr bc T (a\<lparr>a_stack := ws\<rparr>) t (drop n ts)"
    using assms(1) v(4) shape_drop by (auto simp: ready_def)
  with v show ?thesis by blast
qed

lemma ready_waits:
  assumes "ready RS pr bc T a t ts" "arrives T (a_pc a) (t, KVal # ts)"
  shows "waits T a"
  using readyD [OF assms(1)] assms(2) by (intro waitsI)

lemma ready_error: "ready RS pr bc T a t ts \<Longrightarrow> arrives T (a_pc a) (t, KVal # ts) \<Longrightarrow> effect_ok RS pr bc T (push_error e a)"
  by (rule push_error_safe) (auto dest: readyD)

lemma ready_runs: "ready RS pr bc T a t ts \<Longrightarrow> arrives T (a_pc a) (t, ts) \<Longrightarrow> runs T a"
  by (rule runsI [of _ _ t ts]) (auto dest: readyD)

lemma error_string [simp]: "c_string (unparse_error e)"
  by (cases e) simp_all

context server_contract
begin

lemma raise_package_safe:
  assumes "state_ok S W vm" "top_frame (sv_resumable S) raisable (root_activ_vector vm) (activ_stack vm)" "user_value c" "c_string msg" "user_value v"
  shows "result_ok S W (raise_package S c msg v vm)"
proof -
  obtain why x vm' where r: "raise_prepare S c msg v vm = Some (why, x, vm')" "value_ok why x" "why \<noteq> FIN_EXIT" "state_ok S W vm'"
    "activ_stack vm' = activ_stack vm" "root_activ_vector vm' = root_activ_vector vm"
    using raise_prepare_safe [OF assms] by blast
  then obtain stop vm'' where "unwind_stack S why x vm' = Some (stop, vm'')" "stop = None \<longrightarrow> machine_ok S W vm''"
    using unwind_stack_safe [of vm' why x] assms(2) by auto
  with r(1) show ?thesis by (auto simp: raise_package_def raise_error_def)
qed

lemma do_raise_safe:
  assumes "hosts S W vm pr bc" "sound (sv_resumable S) pr bc T a" "raisable bc T a" "k = Some b" "sound (sv_resumable S) pr bc T b" "runs T b"
  shows "result_ok S W (do_raise S e a k vm)"
proof (cases "a_debug a")
  case True
  then show ?thesis using raise_package_safe [of "with_top a vm"] hosts_frame [of S W vm pr bc T a raisable] assms
    by (simp add: do_raise_def)
next
  case False
  then show ?thesis using hosts_machine_ok assms by (auto simp: do_raise_def)
qed

lemma simple_safe:
  assumes "hosts S W vm pr bc" "effect_ok (sv_resumable S) pr bc T eff"
  shows "result_ok S W (simple S vm eff)"
  using assms
  by (cases eff) (auto simp: effect_ok_def simple_def run_effect_def
    intro: hosts_machine_ok do_raise_safe split: effect.splits option.splits)

lemma with_top_self: "activ_stack vm = a # as \<Longrightarrow> with_top a vm = vm"
  by (simp add: with_top_def)

lemma push_top_result: "calling S W vm \<Longrightarrow> user_value v \<Longrightarrow> result_ok S W (map_option Running (push_top v vm))"
  using push_top_safe by fastforce

lemma push_error_vm_safe:
  assumes "calling S W vm"
  shows "result_ok S W (push_error_vm S e vm)"
proof -
  obtain a as where vm: "activ_stack vm = a # as" "framed (sv_resumable S) (\<lambda>bc. waits) (root_activ_vector vm) as a"
    "resting (sv_resumable S) (root_activ_vector vm) as" "state_ok S W vm"
    using assms by (cases "activ_stack vm") (auto simp: calling_def)
  then obtain bc T where f: "vector_at (root_activ_vector vm) as a = Some bc" "sound (sv_resumable S) (a_prog a) bc T a" "waits T a"
    by (auto simp: framed_def)
  obtain b where "push (VErr e) a = Some b" "sound (sv_resumable S) (a_prog a) bc T b" "runs T b" using waits_push [OF f(2,3), of "VErr e"] by auto
  moreover have "hosts S W vm (a_prog a) bc" using vm f by (auto simp: hosts_def)
  ultimately show ?thesis using do_raise_safe [of vm "a_prog a" bc T a "push (VErr e) a" b e] f waits_raisable [OF f(2,3)] vm(1)
    by (simp add: push_error_vm_def)
qed

subsection \<open>Waifs and properties\<close>

lemma popped_waits:
  "sound (sv_resumable S) pr bc T a \<Longrightarrow> conf T us (a_stack a) \<Longrightarrow> (t \<Longrightarrow> user_value (a_temp a)) \<Longrightarrow> arrives T (a_pc a) (t, KVal # us) \<Longrightarrow> waits T a"
  by (rule waitsI)

lemma waif_call_safe:
  assumes vm: "calling S W vm" and args: "c_string verb" "\<forall>v \<in> set args. user_value v"
  shows "result_ok S W (waif_call S verb w args vm)"
proof -
  let ?c = "sv_waif_class S (world vm) w"
  have er: "result_ok S W (push_error_vm S e vm)" for e using push_error_vm_safe [OF vm] .
  show ?thesis
  proof (cases "valid (database vm) ?c")
    case False
    then show ?thesis using er by (simp add: waif_call_def)
  next
    case True
    then obtain u where u: "db_object_owner (database vm) ?c = Some u" by (auto simp: valid_heap db_object_owner_def)
    show ?thesis
    proof (cases "is_wizard (database vm) u")
      case False
      then show ?thesis using True u er by (simp add: waif_call_def)
    next
      case wiz: True
      obtain e vm' where e: "call_verb2 S ?c verb (VWaif w) args False vm = Some (e, vm')"
        "if e = E_NONE then machine_ok S W vm' else calling S W vm'"
        using call_verb2_safe [OF vm args(1) _ args(2), of "VWaif w" ?c False] by (auto split: if_splits)
      then show ?thesis using True u wiz push_error_vm_safe [of vm'] by (auto simp: waif_call_def split: if_splits)
    qed
  qed
qed

lemma answers_safe:
  assumes h: "hosts S W vm pr bc" and r: "ready (sv_resumable S) pr bc T a t ts" and sw: "swap_vals (n, m) ts = Some us" and ar: "arrives T (a_pc a) (t, us)"
    and ans: "\<And>vs ws. a_stack a = vs @ ws \<Longrightarrow> length vs = n \<Longrightarrow> \<forall>v \<in> set vs. user_value v \<Longrightarrow> length ws + m \<le> a_stack_size a \<Longrightarrow>
      answers m a ws eff"
  shows "result_ok S W (simple S vm eff)"
  by (rule simple_safe [OF h plain_safe [OF r sw ar ans]])

lemma property_value_safe:
  assumes h: "hosts S W vm pr bc" and s: "sound (sv_resumable S) pr bc T a" "conf T us (a_stack a)" "t \<Longrightarrow> user_value (a_temp a)"
      "arrives T (a_pc a) (t, KVal # us)" and u: "user_value obj" "user_value name"
  shows "result_ok S W (property_value S obj name a vm)"
proof -
  have err: "result_ok S W (simple S vm (push_error e a))" for e using simple_safe [OF h push_error_safe [OF s]] .
  have cal: "calling S W (with_top a vm)" using hosts_calling [OF h s(1) popped_waits [OF s]] .
  have st: "db_good S (database vm)" using h by (auto simp: hosts_def state_ok_def)
  show ?thesis
  proof (cases name)
    case (VStr n)
    then have n: "c_string n" using u(2) by simp
    show ?thesis
    proof (cases obj)
      case (VWaif w)
      obtain e v vm' where e: "sv_waif_get_prop S w n (a_progr a) (with_top a vm) = Some (e, v, vm')" "user_value v"
        "state_ok S W vm'" "same_frames (with_top a vm) vm'"
        using waif_get_answers [OF cal n] by blast
      have "calling S W vm'" using same_frames_calling [OF e(4) cal e(3)] .
      then show ?thesis using e VStr VWaif push_top_result push_error_vm_safe by (simp add: property_value_def)
    next
      case (VObj oid)
      obtain r where r: "read_property (database vm) (a_progr a) oid n = Some r" "\<forall>v. r = Inr v \<longrightarrow> user_value v"
        using read_property_safe [OF db_goodD(1,2) [OF st] n] by blast
      have "result_ok S W (simple S vm (push_next v a))" if "user_value v" for v
        using simple_safe [OF h push_next_safe [OF s]] that by simp
      then show ?thesis using r VStr VObj err by (cases r) (auto simp: property_value_def)
    qed (use VStr err in \<open>simp_all add: property_value_def\<close>)
  qed (use err in \<open>cases obj; simp add: property_value_def\<close>)+
qed

lemma put_prop_safe:
  assumes h: "hosts S W vm pr bc" and r: "ready (sv_resumable S) pr bc T a t ts" and sw: "swap_vals (3, 1) ts = Some us" and ar: "arrives T (a_pc a) (t, us)"
  shows "result_ok S W (put_prop S a vm)"
proof -
  note R = readyD [OF r]
  obtain rhs name obj ws where v: "a_stack a = rhs # name # obj # ws" "user_value rhs" "user_value name" "user_value obj"
    "conf T (drop 3 ts) ws" "us = KVal # drop 3 ts"
    using take_vals [OF r sw] by (auto simp: length_Suc_conv numeral_3_eq_3)
  let ?a = "a\<lparr>a_stack := ws\<rparr>"
  have s: "sound (sv_resumable S) pr bc T ?a" "conf T (drop 3 ts) (a_stack ?a)" "t \<Longrightarrow> user_value (a_temp ?a)" "arrives T (a_pc ?a) (t, KVal # drop 3 ts)"
    using R(1,3) v(5,6) ar by auto
  have err: "result_ok S W (simple S vm (push_error e ?a))" for e using simple_safe [OF h push_error_safe [OF s]] .
  have cal: "calling S W (with_top ?a vm)" using hosts_calling [OF h s(1) popped_waits [OF s]] .
  have st: "db_good S (database vm)" using h by (auto simp: hosts_def state_ok_def)
  show ?thesis
  proof (cases name)
    case (VStr n)
    then have n: "c_string n" using v(3) by simp
    show ?thesis
    proof (cases obj)
      case (VWaif w)
      obtain e vm' where e: "sv_waif_put_prop S w n rhs (a_progr a) (with_top ?a vm) = Some (e, vm')"
        "state_ok S W vm'" "same_frames (with_top ?a vm) vm'"
        using waif_put_answers [OF cal n v(2)] by blast
      have "calling S W vm'" using same_frames_calling [OF e(3) cal e(2)] .
      then show ?thesis using e VStr VWaif v(1,2) push_top_result push_error_vm_safe by (simp add: put_prop_def)
    next
      case (VObj oid)
      show ?thesis
      proof (cases "valid (database vm) oid")
        case False
        then show ?thesis using VStr VObj v(1) err by (simp add: put_prop_def)
      next
        case True
        obtain hd val where hd: "db_find_property (database vm) oid n False = Some (hd, val)" "handle_good (database vm) oid hd"
          using property_found [OF db_goodD(1,2) [OF st] True n, of False] by blast
        obtain e where e: "put_allowed (database vm) (a_progr a) oid hd rhs = Some e" using put_allowed_total [OF True hd(2)] by blast
        show ?thesis
        proof (cases "e = E_NONE")
          case False
          then show ?thesis using VStr VObj v(1) True hd e err by (simp add: put_prop_def)
        next
          case none: True
          obtain d where d: "db_set_property_value hd rhs (database vm) = Inr d" "db_good S d"
            using put_value_good [OF st True hd(2) v(2)] e none by blast
          have "hosts S W (vm\<lparr>database := d\<rparr>) pr bc" using h d(2) by (auto simp: hosts_def state_ok_def)
          then have "result_ok S W (simple S (vm\<lparr>database := d\<rparr>) (push_next rhs ?a))"
            by (rule simple_safe) (use push_next_safe [OF s, of rhs] v(2) in simp_all)
          then show ?thesis using VStr VObj v(1) True hd e none d(1) by (simp add: put_prop_def)
        qed
      qed
    qed (use VStr v(1) err in \<open>simp_all add: put_prop_def\<close>)
  qed (use v(1) err in \<open>cases obj; simp add: put_prop_def\<close>)+
qed

end

end
