(* ===== verification/InstrSafety.thy ===== *)
theory InstrSafety
  imports StepSafety
begin

text \<open>
  The instructions that call verbs, built-in functions and the server, that return, and that go on after a
  \<open>finally\<close> clause.
\<close>

context server_contract
begin

lemma hosts_ready_calling:
  "hosts S W vm pr bc \<Longrightarrow> ready (sv_resumable S) pr bc T a t ts \<Longrightarrow> arrives T (a_pc a) (t, KVal # ts) \<Longrightarrow> calling S W (with_top a vm)"
  by (rule hosts_calling [OF _ readyD(1) ready_waits])

lemma indexset_safe:
  assumes h: "hosts S W vm pr bc" and r: "ready (sv_resumable S) pr bc T a t ts" and sw: "swap_vals (3, 1) ts = Some us" and ar: "arrives T (a_pc a) (t, us)"
  shows "result_ok S W (indexset S a vm)"
proof -
  obtain x i l ws where v: "a_stack a = x # i # l # ws" "user_value x" "user_value i" "user_value l" "us = KVal # drop 3 ts"
    "ready (sv_resumable S) pr bc T (a\<lparr>a_stack := ws\<rparr>) t (drop 3 ts)"
    using conf_popped [OF r sw] by (auto simp: length_Suc_conv numeral_3_eq_3)
  have cal: "calling S W (with_top (a\<lparr>a_stack := ws\<rparr>) vm)"
    using hosts_ready_calling [OF h v(6)] ar v(5) by simp
  have simple: "result_ok S W (simple S vm (plain_indexset l i x (a\<lparr>a_stack := ws\<rparr>)))"
    by (rule answers_safe [OF h r sw ar])
      (use v(1-4) in \<open>auto simp: length_Suc_conv numeral_3_eq_3 Suc_le_eq intro!: plain_indexset_answers\<close>)
  show ?thesis
  proof (cases l)
    case (VWaif w)
    have "c_string WAIF_INDEXSET_VERB" by (simp add: WAIF_INDEXSET_VERB_def c_string_def)
    then show ?thesis using waif_call_safe [OF cal, of WAIF_INDEXSET_VERB "[i, x]" w] v VWaif by (simp add: indexset_def)
  qed (use simple v(1) in \<open>simp_all add: indexset_def\<close>)
qed

lemma ref_op_safe:
  assumes h: "hosts S W vm pr bc" and r: "ready (sv_resumable S) pr bc T a t ts" and sw: "swap_vals (2, 1) ts = Some us" and ar: "arrives T (a_pc a) (t, us)"
  shows "result_ok S W (ref_op S a vm)"
proof -
  obtain i l ws where v: "a_stack a = i # l # ws" "user_value i" "user_value l" "us = KVal # drop 2 ts"
    "ready (sv_resumable S) pr bc T (a\<lparr>a_stack := ws\<rparr>) t (drop 2 ts)"
    using conf_popped [OF r sw] by (auto simp: length_Suc_conv numeral_2_eq_2)
  have cal: "calling S W (with_top (a\<lparr>a_stack := ws\<rparr>) vm)"
    using hosts_ready_calling [OF h v(5)] ar v(4) by simp
  have simple: "result_ok S W (simple S vm (plain_ref l i (a\<lparr>a_stack := ws\<rparr>)))"
    by (rule answers_safe [OF h r sw ar])
      (use v(1-3) in \<open>auto simp: length_Suc_conv numeral_2_eq_2 Suc_le_eq intro!: plain_ref_answers\<close>)
  show ?thesis
  proof (cases l)
    case (VWaif w)
    have "c_string WAIF_INDEX_VERB" by (simp add: WAIF_INDEX_VERB_def c_string_def)
    then show ?thesis using waif_call_safe [OF cal, of WAIF_INDEX_VERB "[i]" w] v VWaif by (simp add: ref_op_def)
  qed (use simple v(1) in \<open>simp_all add: ref_op_def\<close>)
qed

lemma get_prop_safe:
  assumes h: "hosts S W vm pr bc" and r: "ready (sv_resumable S) pr bc T a t ts" and sw: "swap_vals (2, 1) ts = Some us" and ar: "arrives T (a_pc a) (t, us)"
  shows "result_ok S W (get_prop S a vm)"
proof -
  obtain x y ws where v: "a_stack a = x # y # ws" "user_value x" "user_value y" "us = KVal # drop 2 ts"
    "ready (sv_resumable S) pr bc T (a\<lparr>a_stack := ws\<rparr>) t (drop 2 ts)"
    using conf_popped [OF r sw] by (auto simp: length_Suc_conv numeral_2_eq_2)
  have "result_ok S W (property_value S y x (a\<lparr>a_stack := ws\<rparr>) vm)"
    by (rule property_value_safe [OF h]) (use readyD [OF v(5)] ar v(2-4) in auto)
  then show ?thesis using v(1) by (simp add: get_prop_def)
qed

lemma push_get_prop_safe:
  assumes h: "hosts S W vm pr bc" and r: "ready (sv_resumable S) pr bc T a t ts" and sw: "swap_vals (2, 3) ts = Some us" and ar: "arrives T (a_pc a) (t, us)"
  shows "result_ok S W (push_get_prop S a vm)"
proof -
  obtain x y ws where v: "a_stack a = x # y # ws" "user_value x" "user_value y" "us = KVal # KVal # KVal # drop 2 ts"
    using conf_popped [OF r sw] by (auto simp: length_Suc_conv numeral_2_eq_2 numeral_3_eq_3)
  have ts: "us = KVal # ts" using sw by (auto simp: swap_vals_def numeral_2_eq_2 numeral_3_eq_3 split: if_splits)
      (metis append_take_drop_id append_Cons append_Nil)
  have "result_ok S W (property_value S y x a vm)"
    by (rule property_value_safe [OF h]) (use readyD [OF r] ar v(2,3) ts in auto)
  then show ?thesis using v(1) by (simp add: push_get_prop_def)
qed

subsection \<open>Calls and returns\<close>

lemma error_machine: "if e = E_NONE then machine_ok S W vm else calling S W vm \<Longrightarrow>
    result_ok S W (if e = E_NONE then Some (Running vm) else push_error_vm S e vm)"
  using push_error_vm_safe by simp

lemma call_verb_op_safe:
  assumes h: "hosts S W vm pr bc" and r: "ready (sv_resumable S) pr bc T a t ts" and sw: "swap_vals (3, 1) ts = Some us" and ar: "arrives T (a_pc a) (t, us)"
  shows "result_ok S W (call_verb_op S a vm)"
proof -
  obtain args verb obj ws where v: "a_stack a = args # verb # obj # ws" "user_value args" "user_value verb" "user_value obj"
    "us = KVal # drop 3 ts" "ready (sv_resumable S) pr bc T (a\<lparr>a_stack := ws\<rparr>) t (drop 3 ts)"
    using conf_popped [OF r sw] by (auto simp: length_Suc_conv numeral_3_eq_3)
  let ?vm = "with_top (a\<lparr>a_stack := ws\<rparr>) vm"
  have cal: "calling S W ?vm" using hosts_ready_calling [OF h v(6)] ar v(5) by simp
  show ?thesis
  proof (cases "call_target S (world ?vm) obj verb args")
    case (Inl e)
    moreover from this have "e \<noteq> E_NONE" by (auto simp: call_target_def split: var.splits if_splits)
    ultimately show ?thesis using v(1) push_error_vm_safe [OF cal] by (simp add: call_verb_op_def)
  next
    case (Inr tgt)
    then obtain oid name vs where tgt: "tgt = (oid, name, vs)" "c_string name" "\<forall>x \<in> set vs. user_value x"
      using v(2,3) by (auto simp: call_target_def WAIF_VERB_PREFIX_def c_string_def split: var.splits if_splits)
    obtain e vm' where c: "call_verb2 S oid name obj vs False ?vm = Some (e, vm')"
      "if e = E_NONE then machine_ok S W vm' else calling S W vm'"
      using call_verb2_safe [OF cal tgt(2) v(4) tgt(3), of oid False] by (auto split: if_splits)
    show ?thesis using v(1) Inr tgt(1) c(1) error_machine [OF c(2)] push_error_vm_safe [OF cal]
      by (simp add: call_verb_op_def Let_def)
  qed
qed

lemma return_op_safe:
  assumes h: "hosts S W vm pr bc" and r: "ready (sv_resumable S) pr bc T a t ts" and ts: "with_value \<Longrightarrow> ts \<noteq> [] \<and> hd ts = KVal"
  shows "result_ok S W (return_op S with_value a vm)"
proof -
  obtain v b where b: "(if with_value then pop a else Some (VInt 0, a)) = Some (v, b)" "user_value v"
    "sound (sv_resumable S) pr bc T b" "raisable bc T b"
  proof (cases with_value)
    case True
    then obtain us where us: "ts = KVal # us" using ts by (cases ts) auto
    then obtain v ws where v: "a_stack a = v # ws" "user_value v" "conf T us ws" using readyD(2) [OF r] by auto
    have "raisable bc T (a\<lparr>a_stack := ws\<rparr>)" using readyD(4,5) [OF r] us v(3) by (auto simp: raisable_def)
    then show ?thesis using True v readyD(1) [OF r] by (intro that [of v "a\<lparr>a_stack := ws\<rparr>"]) simp_all
  next
    case False
    then show ?thesis using readyD [OF r] by (intro that [of "VInt 0" a]) (auto simp: raisable_def)
  qed
  have "value_ok FIN_RETURN v" using b(2) by (simp add: value_ok_def)
  then obtain stop vm' where "unwind_stack S FIN_RETURN v (with_top b vm) = Some (stop, vm')" "stop = None \<longrightarrow> machine_ok S W vm'"
    using unwind_stack_safe [of "with_top b vm" FIN_RETURN v] hosts_frame [OF h b(3), of raisable] b(4) by auto
  then show ?thesis using b(1) by (cases stop) (auto simp: return_op_def)
qed

lemma bi_func_call_safe:
  assumes h: "hosts S W vm pr bc" and r: "ready (sv_resumable S) pr bc T a t ts" and f: "rd bc 1 (a_pc a) = Some (f, pc)"
    and sw: "swap_vals (1, 1) ts = Some us" and ar: "arrives T pc (t, us)" and fm: "fits_memory (a_stack a)"
  shows "result_ok S W (bi_func_call S bc a vm)"
proof -
  let ?a = "a\<lparr>a_pc := pc\<rparr>"
  have r': "ready (sv_resumable S) pr bc T ?a t ts" using r by simp
  obtain args ws where v: "a_stack a = args # ws" "user_value args" "us = KVal # drop 1 ts"
    "ready (sv_resumable S) pr bc T (?a\<lparr>a_stack := ws\<rparr>) t (drop 1 ts)"
    using conf_popped [OF r' sw] by (auto simp: length_Suc_conv)
  let ?b = "?a\<lparr>a_stack := ws\<rparr>"
  let ?vm = "with_top ?b vm"
  have cal: "calling S W ?vm" using hosts_ready_calling [OF h v(4)] ar v(3) by simp
  have pop: "operand 1 bc a = Some (f, ?a)" "pop ?a = Some (args, ?b)" using operand_rd [OF f] v(1) by simp_all
  show ?thesis
  proof (cases "type_of args = TYPE_LIST")
    case False
    have "effect_ok (sv_resumable S) pr bc T (push_error E_TYPE ?b)" by (rule ready_error [OF v(4)]) (use ar v(3) in simp)
    then show ?thesis using simple_safe [OF h] pop False by (simp add: bi_func_call_def)
  next
    case True
    obtain p vm' where p: "sv_call_bi_func S f args 1 (a_progr ?b) 0 ?vm = Some (p, vm')" "state_ok S W vm'" "answer_ok S f ?vm 1 p vm'"
      using call_answers [OF cal v(2), of 1 f 0 "a_progr ?b"] True fm v(1) by (auto simp: fits_memory_def)
    have cal': "calling S W vm'" if "same_frames ?vm vm'" using same_frames_calling [OF that cal p(2)] .
    have bi: "bi_func_call S bc a vm = (case p of
         BI_RETURN v \<Rightarrow> map_option Running (push_top v vm')
       | BI_RAISE c msg v \<Rightarrow>
           if activ_stack vm' \<noteq> [] \<and> a_debug (hd (activ_stack vm')) then raise_package S c msg v vm'
           else map_option Running (push_top c vm')
       | BI_CALL pc data \<Rightarrow> map_option Running (set_bi_func f pc data vm')
       | BI_SUSPEND susp \<Rightarrow> (do {
           (e, vm) \<leftarrow> suspend_task S susp vm';
           if e = E_NONE then Some (Stopped OUTCOME_BLOCKED None vm) else push_error_vm S e vm
         })
       | BI_KILL \<Rightarrow> map_option (\<lambda>(_, vm). Stopped OUTCOME_ABORTED None vm) (unwind_stack S FIN_ABORT (VInt 0) vm'))"
      using pop True p(1) by (simp add: bi_func_call_def)
    show ?thesis
    proof (cases p)
      case (BI_RETURN x)
      then show ?thesis using p(3) cal' push_top_result by (simp add: bi answer_ok_def)
    next
      case (BI_RAISE c msg x)
      then show ?thesis
        using p(3) cal' push_top_result raise_package_safe [OF p(2) calling_raising] by (simp add: bi answer_ok_def)
    next
      case (BI_CALL k d)
      then have "resumable (sv_resumable S) f k d" "top_frame (sv_resumable S) (\<lambda>bc. runs) (root_activ_vector vm') (activ_stack vm')" using p(3) by (auto simp: answer_ok_def)
      then show ?thesis using set_bi_func_safe [OF p(2), of f k d] BI_CALL by (auto simp: bi)
    next
      case (BI_SUSPEND s)
      then have "calling S W vm'" using p(3) cal' by (simp add: answer_ok_def)
      from suspend_answers [OF this, of s] same_frames_calling [OF _ this] show ?thesis
        using BI_SUSPEND push_error_vm_safe by (fastforce simp: bi suspend_task_def)
    next
      case BI_KILL
      then have "calling S W vm'" using p(3) cal' by (simp add: answer_ok_def)
      from unwind_stack_safe [OF p(2) calling_raising [OF this], of FIN_ABORT "VInt 0"] show ?thesis
        using BI_KILL by (auto simp: bi value_ok_def)
    qed
  qed
qed

subsection \<open>Exits and forks\<close>

text \<open>An exit stays in its activation.\<close>

lemma unwind_exit_safe:
  assumes h: "hosts S W vm pr bc" and s: "sound (sv_resumable S) pr bc T a" and ts: "shape T ts" "conf T ts (a_stack a)"
    and v: "user_value v" "exit_value T ts v"
  shows "\<exists>vm'. unwind_stack S FIN_EXIT v (with_top a vm) = Some (None, vm') \<and> machine_ok S W vm'"
proof -
  have db: "hier_ok Children (database vm)" using h by (auto simp: hosts_def intro: state_hier)
  have "value_ok FIN_EXIT v" using v(1) by (simp add: value_ok_def)
  then obtain g b where b: "unwind_activation (sv_waif_class S (world vm)) (database vm) FIN_EXIT v a = Some (g, b)" "g"
    "\<exists>st pc. b = a\<lparr>a_stack := st, a_pc := pc\<rparr>" "runs T b"
    using unwind_activation_safe [OF db s ts, of FIN_EXIT v "sv_waif_class S (world vm)"] v(2) by blast
  have "sound (sv_resumable S) pr bc T b" using s b(3) by auto
  then have "machine_ok S W (with_top b vm)" using hosts_machine_ok [OF h _ b(4)] by simp
  moreover have "unwind_stack S FIN_EXIT v (with_top a vm) = Some (None, with_top b vm)"
    using b(1,2) by (subst unwind_stack.simps) (simp add: with_top_def)
  ultimately show ?thesis by blast
qed

lemma exit_op_safe:
  assumes h: "hosts S W vm pr bc" and r: "ready (sv_resumable S) pr bc T a t ts" and d: "rd bc (numbytes_stack bc) (a_pc a) = Some (d, pc')"
    and l: "rd_label bc pc' = Some (l, pc)" and us: "cut_at d ts = Some us" "arrives T l (False, us)"
  shows "result_ok S W (exit_op S bc a vm)"
proof -
  have o: "operand (numbytes_stack bc) bc a = Some (d, a\<lparr>a_pc := pc'\<rparr>)"
    "operand (numbytes_label bc) bc (a\<lparr>a_pc := pc'\<rparr>) = Some (l, a\<lparr>a_pc := pc\<rparr>)"
    using operand_rd [OF d] operand_rd [of bc _ "a\<lparr>a_pc := pc'\<rparr>"] l by simp_all
  have "exit_value T ts (VList [VInt (int d), VInt (int l)])"
    using us by (auto simp: exit_value_def exit_ok_def)
  then obtain vm' where "unwind_stack S FIN_EXIT (VList [VInt (int d), VInt (int l)]) (with_top (a\<lparr>a_pc := pc\<rparr>) vm) = Some (None, vm')"
    "machine_ok S W vm'"
    using unwind_exit_safe [OF h, of T "a\<lparr>a_pc := pc\<rparr>" ts "VList [VInt (int d), VInt (int l)]"] readyD [OF r] by auto
  then show ?thesis using o by (simp add: exit_op_def)
qed

lemma cont_okD: "cont_ok T ts n v \<Longrightarrow> \<exists>why. n = reason_number why \<and> reason_ok T ts why v \<and> why \<noteq> FIN_ABORT"
  unfolding cont_ok_def list_ex_iff by (elim bexE) auto

lemma continue_op_safe:
  assumes h: "hosts S W vm pr bc" and r: "ready (sv_resumable S) pr bc T a t (KCont # ts)" and ar: "arrives T (a_pc a) (t, ts)"
  shows "result_ok S W (continue_op S a vm)"
proof -
  note R = readyD [OF r]
  obtain v n ws where v: "a_stack a = v # VInt n # ws" "cont_ok T ts n v" "conf T ts ws" using R(2) by auto
  let ?a = "a\<lparr>a_stack := ws\<rparr>"
  have pop: "pop a = Some (v, a\<lparr>a_stack := VInt n # ws\<rparr>)" "pop (a\<lparr>a_stack := VInt n # ws\<rparr>) = Some (VInt n, ?a)"
    using v(1) by simp_all
  have s: "sound (sv_resumable S) pr bc T ?a" "shape T ts" "depth ts \<le> max_stack bc" using R(1,4,5) by auto
  from cont_okD [OF v(2)] obtain why where why: "n = reason_number why" "reason_ok T ts why v" "why \<noteq> FIN_ABORT" by blast
  show ?thesis
  proof (cases "why = FIN_FALL_THRU")
    case True
    have "runs T ?a" using v(3) ar R(3) by (intro runsI [of _ _ t ts]) simp_all
    then show ?thesis using pop why(1) True hosts_machine_ok [OF h s(1)] by (simp add: continue_op_def)
  next
    case False
    obtain stop vm' where u: "unwind_stack S why v (with_top ?a vm) = Some (stop, vm')" "stop = None \<longrightarrow> machine_ok S W vm'"
    proof (cases "why = FIN_EXIT")
      case True
      then show ?thesis using unwind_exit_safe [OF h s(1,2), of v] why(2) v(3) that by (auto simp: reason_ok_def)
    next
      case no_exit: False
      have "raisable bc T ?a" using s v(3) by (auto simp: raisable_def)
      moreover have "value_ok why v" using why(2) by (simp add: reason_ok_def value_ok_def)
      ultimately show ?thesis
        using unwind_stack_safe [of "with_top ?a vm" why v] hosts_frame [OF h s(1), of raisable] no_exit that by auto
    qed
    have "reason_of n = Some why" "n \<noteq> reason_number FIN_FALL_THRU"
      using why(1,3) False by (cases why; simp add: reason_of_def)+
    then show ?thesis using pop u by (cases stop) (simp_all add: continue_op_def)
  qed
qed

lemma fork_op_safe:
  assumes h: "hosts S W vm pr bc" and r: "ready (sv_resumable S) pr bc T a t ts" and sw: "swap_vals (1, 0) ts = Some us"
    and f: "rd_below (length (fork_vectors pr)) bc (numbytes_fork bc) (a_pc a) = Some (f, pc')"
    and i: "if with_id then rd bc (numbytes_var_name bc) pc' = Some (slot, pc) else pc = pc'"
    and ar: "arrives T pc (t, us)"
  shows "result_ok S W (fork_op S with_id bc a vm)"
proof -
  obtain x ws where v: "a_stack a = x # ws" "us = drop 1 ts" "ready (sv_resumable S) pr bc T (a\<lparr>a_stack := ws\<rparr>) t (drop 1 ts)"
    using conf_popped [OF r sw] by (auto simp: length_Suc_conv)
  let ?b = "a\<lparr>a_stack := ws, a_pc := pc\<rparr>"
  have o: "pop a = Some (x, a\<lparr>a_stack := ws\<rparr>)"
    "operand (numbytes_fork bc) bc (a\<lparr>a_stack := ws\<rparr>) = Some (f, a\<lparr>a_stack := ws, a_pc := pc'\<rparr>)" "f < length (fork_vectors pr)"
    using v(1) operand_below [of _ bc _ "a\<lparr>a_stack := ws\<rparr>"] f by auto
  obtain sl where sl: "(if with_id then operand (numbytes_var_name bc) bc (a\<lparr>a_stack := ws, a_pc := pc'\<rparr>)
      else Some (0, a\<lparr>a_stack := ws, a_pc := pc'\<rparr>)) = Some (sl, ?b)"
    using i operand_rd [of bc _ "a\<lparr>a_stack := ws, a_pc := pc'\<rparr>"] by (cases with_id) auto
  have b: "ready (sv_resumable S) pr bc T ?b t (drop 1 ts)" using v(3) by (simp add: ready_def)
  have run: "runs T ?b" using ready_runs [OF b] ar v(2) by simp
  have s: "sound (sv_resumable S) pr bc T ?b" using readyD(1) [OF b] .
  have raise: "result_ok S W (do_raise S e ?b (Some ?b) vm)" for e
    using do_raise_safe [OF h s runs_raisable [OF s run] refl s run] .
  have ok: "machine_ok S W (with_top ?b vm)" using hosts_machine_ok [OF h s run] .
  have st: "state_ok S W (with_top ?b vm)" "top_frame (sv_resumable S) (\<lambda>bc. runs) (root_activ_vector (with_top ?b vm)) (activ_stack (with_top ?b vm))"
    using ok by (auto simp: machine_ok_def)
  have "a_prog a = pr" using readyD(1) [OF r] by (simp add: sound_def)
  then have "\<exists>e vm'. sv_enqueue_forked_task2 S f delay sl (with_top ?b vm) = Some (e, vm') \<and> state_ok S W vm' \<and>
      same_frames (with_top ?b vm) vm'" for delay sl
    using fork_answers [OF st, of f delay sl] o(3) by (simp add: with_top_def)
  then obtain e vm' where e: "sv_enqueue_forked_task2 S f (fork_delay S x) (if with_id then int sl else - 1) (with_top ?b vm) = Some (e, vm')"
    "state_ok S W vm'" "same_frames (with_top ?b vm) vm'" by blast
  then obtain u where u: "activ_stack vm' = ?b\<lparr>a_progr := u\<rparr> # tl (activ_stack vm)" "root_activ_vector vm' = root_activ_vector vm"
    by (auto simp: same_frames_def with_top_def)
  have same: "top_frame (sv_resumable S) (\<lambda>bc. runs) (root_activ_vector vm') (activ_stack vm')"
    using st(2) e(3) by (auto simp: same_frames_def)
  then have "machine_ok S W vm'" using e(2) by (simp add: machine_ok_def)
  moreover have "result_ok S W (do_raise S e (?b\<lparr>a_progr := u\<rparr>) (Some (?b\<lparr>a_progr := u\<rparr>)) vm')" for e
  proof -
    have h': "hosts S W vm' pr bc" using h e(2) u \<open>a_prog a = pr\<close>
      by (auto simp: hosts_def vector_at_def)
    have s': "sound (sv_resumable S) pr bc T (?b\<lparr>a_progr := u\<rparr>)" using s by simp
    have "runs T (?b\<lparr>a_progr := u\<rparr>)" using run by (simp add: runs_def has_type_def cong: option.case_cong)
    then show ?thesis using do_raise_safe [OF h' s' runs_raisable [OF s'] refl s'] by blast
  qed
  ultimately have end_ok: "result_ok S W (if e = E_NONE then Some (Running vm')
       else (case activ_stack vm' of [] \<Rightarrow> None | a # _ \<Rightarrow> do_raise S e a (Some a) vm'))" using u(1) by simp
  have "result_ok S W (do_raise S E_TYPE ?b None vm)" if "a_debug ?b"
    using raise [of E_TYPE] that by (simp add: do_raise_def)
  then show ?thesis using o sl e(1) raise end_ok by (simp add: fork_op_def)
qed

end

end
