(* ===== verification/MachineRun.thy ===== *)
theory MachineRun
  imports InstrSafety
begin

text \<open>
  Type safety of the interpreter: one round of the loop of \<open>run\<close> on a well-formed machine is defined and leaves a
  well-formed machine, unless the instruction is one of those that trap.
\<close>

subsection \<open>Instructions that work on values\<close>

text \<open>The instructions that neither jump nor reach beyond their activation.\<close>

definition plain_effect :: "fp_ops \<Rightarrow> opcode \<Rightarrow> activation \<Rightarrow> effect option" where
  "plain_effect F op a = (case op of
     OP_POP \<Rightarrow> do_pop a
   | OP_MAKE_EMPTY_LIST \<Rightarrow> push_next (VList []) a
   | OPTIM_NUM n \<Rightarrow> push_next (VInt n) a
   | OP_LIST_ADD_TAIL \<Rightarrow> list_add_tail a
   | OP_LIST_APPEND \<Rightarrow> list_append a
   | OP_MAKE_SINGLETON_LIST \<Rightarrow> make_singleton_list a
   | OP_CHECK_LIST_FOR_SPLICE \<Rightarrow> check_list_for_splice a
   | OP_EQ \<Rightarrow> equal_op True a
   | OP_NE \<Rightarrow> equal_op False a
   | OP_IN \<Rightarrow> in_op a
   | OP_ADD \<Rightarrow> add_op F a
   | OP_NOT \<Rightarrow> not_op a
   | OP_UNARY_MINUS \<Rightarrow> unary_minus F a
   | OP_PUSH_REF \<Rightarrow> push_ref a
   | OP_RANGE_REF \<Rightarrow> range_ref a
   | _ \<Rightarrow> if op \<in> {OP_MULT, OP_MINUS, OP_DIV, OP_MOD} then arith_op F op a else compare_op op a)"

definition reaching :: "opcode set" where
  "reaching = {OP_INDEXSET, OP_REF, OP_GET_PROP, OP_PUSH_GET_PROP, OP_PUT_PROP, OP_CALL_VERB}"

lemma execute_plain:
  "plain op = Some nm \<Longrightarrow> op \<notin> reaching \<Longrightarrow> execute S bc op a vm = simple S vm (plain_effect (sv_floats S) op a)"
  by (cases op) (simp_all add: execute_def plain_effect_def plain_def reaching_def)

lemmas value_answers = list_add_tail_answers list_append_answers range_ref_answers push_ref_answers in_op_answers
  add_op_answers equal_op_answers compare_op_answers arith_op_answers

lemmas unary_answers = singleton_answers check_list_answers not_op_answers unary_minus_answers

lemma few_values: "length (vs :: var list) = Suc 0 \<longleftrightarrow> (\<exists>x. vs = [x])" "Suc 0 = length vs \<longleftrightarrow> (\<exists>x. vs = [x])" "length vs = 2 \<longleftrightarrow> (\<exists>x y. vs = [x, y])"
  "length vs = 3 \<longleftrightarrow> (\<exists>x y z. vs = [x, y, z])" "length vs = 4 \<longleftrightarrow> (\<exists>x y z u. vs = [x, y, z, u])"
  by (auto simp: length_Suc_conv eval_nat_numeral eq_commute [of "Suc 0"])

lemma plain_effect_answers:
  assumes "plain op = Some (n, m)" "op \<notin> reaching" "a_stack a = vs @ ws" "length vs = n" "\<forall>v \<in> set vs. user_value v"
    "length ws + m \<le> a_stack_size a" "fits_memory (a_stack a)" "\<not> traps op (a_stack a)"
  shows "answers m a ws (plain_effect F op a)"
proof -
  have "answers (Suc 0) a ws (push_next v a)" if "vs = []" "m = Suc 0" "user_value v" for v
    using answers_push [of v ws a] assms(3,6) that by (simp add: same_stack)
  moreover have "answers 0 a ws (do_pop a)" if "length vs = Suc 0"
    using that assms(3) by (auto simp: few_values do_pop_def answers_def)
  ultimately show ?thesis using assms unary_answers [of a "hd vs" ws]
    by (cases op) (auto simp: plain_def plain_effect_def reaching_def few_values Suc_le_eq traps_def intro!: value_answers)
qed

text \<open>The next instruction of the machine is one that traps, or a list on its stack is too long for the positions of the server.\<close>

definition next_op :: "'w vm \<Rightarrow> opcode option" where
  "next_op vm = (do { bc \<leftarrow> current_vector vm; b \<leftarrow> byte_at (vector bc) (a_pc (hd (activ_stack vm))); opcode_of b })"

definition traps_next :: "'w vm \<Rightarrow> bool" where
  "traps_next vm \<longleftrightarrow> (case next_op vm of None \<Rightarrow> False | Some op \<Rightarrow> traps op (a_stack (hd (activ_stack vm))))"

definition memory_ok :: "'w vm \<Rightarrow> bool" where
  "memory_ok vm \<longleftrightarrow> fits_memory (a_stack (hd (activ_stack vm)))"

context server_contract
begin

lemma plain_op_safe:
  assumes h: "hosts S W vm pr bc" and r: "ready (sv_resumable S) pr bc T a t ts" and sw: "swap_vals (n, m) ts = Some us" and ar: "arrives T (a_pc a) (t, us)"
    and p: "plain op = Some (n, m)" and fm: "fits_memory (a_stack a)" and tr: "\<not> traps op (a_stack a)"
  shows "result_ok S W (execute S bc op a vm)"
proof (cases "op \<in> reaching")
  case True
  then show ?thesis
    using indexset_safe [OF h r _ ar] ref_op_safe [OF h r _ ar] get_prop_safe [OF h r _ ar] push_get_prop_safe [OF h r _ ar]
      put_prop_safe [OF h r _ ar] call_verb_op_safe [OF h r _ ar] p sw
    by (auto simp: reaching_def execute_def plain_def)
next
  case False
  show ?thesis
    unfolding execute_plain [OF p False]
    by (rule answers_safe [OF h r sw ar]) (rule plain_effect_answers [OF p False _ _ _ _ fm tr])
qed

text \<open>The instructions with an extended number.\<close>

lemma extended_safe:
  assumes h: "hosts S W vm pr bc" and r: "ready (sv_resumable S) pr bc T a t ts"
    and tr: "transfer_eop pr bc op (a_pc a) t ts = Some ss" and ss: "leads T ss" and fm: "fits_memory (a_stack a)"
  shows "result_ok S W (extended S bc op a vm)"
proof -
  have pr: "pr = a_prog a" using readyD(1) [OF r] by (simp add: sound_def)
  note S = simple_safe [OF h, where T = T]
  show ?thesis
  proof (cases op)
    case EOP_RANGESET
    then obtain us where us: "swap_vals (4, 1) ts = Some us" "arrives T (a_pc a) (t, us)"
      using tr ss by (auto simp: transfer_eop_def plain_eop_def split: Option.bind_splits)
    show ?thesis unfolding EOP_RANGESET extended_def
      by simp (rule answers_safe [OF h r us], use fm in \<open>auto simp: few_values Suc_le_eq intro!: rangeset_answers\<close>)
  next
    case EOP_EXP
    then obtain us where us: "swap_vals (2, 1) ts = Some us" "arrives T (a_pc a) (t, us)"
      using tr ss by (auto simp: transfer_eop_def plain_eop_def split: Option.bind_splits)
    show ?thesis unfolding EOP_EXP extended_def
      by simp (rule answers_safe [OF h r us], auto simp: few_values Suc_le_eq intro!: exp_op_answers)
  next
    case EOP_LENGTH
    then show ?thesis using tr ss length_op_safe [OF r]
      by (auto simp: transfer_eop_def extended_def intro!: S split: Option.bind_splits if_splits)
  next
    case EOP_PUSH_LABEL
    then show ?thesis using tr ss push_label_safe [OF r]
      by (auto simp: transfer_eop_def extended_def intro!: S split: Option.bind_splits)
  next
    case EOP_TRY_FINALLY
    then show ?thesis using tr ss try_finally_safe [OF r]
      by (auto simp: transfer_eop_def extended_def intro!: S split: Option.bind_splits)
  next
    case EOP_CATCH
    then show ?thesis using tr ss catch_op_safe [OF r]
      by (auto simp: transfer_eop_def extended_def intro!: S)
  next
    case EOP_TRY_EXCEPT
    then show ?thesis using tr ss try_except_safe [OF r]
      by (auto simp: transfer_eop_def extended_def intro!: S split: Option.bind_splits)
  next
    case EOP_END_CATCH
    then show ?thesis using tr ss end_catch_safe r
      by (auto simp: transfer_eop_def extended_def intro!: S split: Option.bind_splits list.splits slot.splits)
  next
    case EOP_END_EXCEPT
    then show ?thesis using tr ss end_except_safe r
      by (auto simp: transfer_eop_def extended_def intro!: S split: Option.bind_splits list.splits slot.splits)
  next
    case EOP_END_FINALLY
    then show ?thesis using tr ss end_finally_safe r
      by (auto simp: transfer_eop_def extended_def intro!: S split: list.splits slot.splits)
  next
    case EOP_CONTINUE
    then show ?thesis using tr ss continue_op_safe [OF h] r
      by (auto simp: transfer_eop_def extended_def split: list.splits slot.splits)
  next
    case EOP_WHILE_ID
    then show ?thesis using tr ss while_id_safe r pr
      by (auto simp: transfer_eop_def extended_def intro!: S split: Option.bind_splits list.splits slot.splits)
  next
    case EOP_EXIT
    then show ?thesis using tr ss exit_op_safe [OF h r]
      by (auto simp: transfer_eop_def extended_def split: Option.bind_splits)
  next
    case EOP_EXIT_ID
    have "ready (sv_resumable S) pr bc T (skip_bytes (numbytes_var_name bc) a) t ts" using r by (simp add: skip_bytes_def)
    from exit_op_safe [OF h this] show ?thesis using EOP_EXIT_ID tr ss
      by (auto simp: transfer_eop_def extended_def skip_bytes_def split: Option.bind_splits)
  next
    case EOP_SCATTER
    then show ?thesis using tr ss scatter_op_safe r pr
      by (auto simp: transfer_eop_def extended_def leads_map neq_Nil_conv intro!: S split: Option.bind_splits if_splits)
  qed
qed


lemma execute_safe:
  assumes h: "hosts S W vm pr bc" and r: "ready (sv_resumable S) pr bc T a t ts"
    and tr: "transfer_op pr bc op (a_pc a) t ts = Some ss" and ss: "leads T ss"
    and fm: "fits_memory (a_stack a)" and nt: "\<not> traps op (a_stack a)"
  shows "result_ok S W (execute S bc op a vm)"
proof (cases "plain op")
  case (Some nm)
  then obtain n m where nm: "plain op = Some (n, m)" by (cases nm) auto
  then obtain us where "swap_vals (n, m) ts = Some us" "arrives T (a_pc a) (t, us)"
    using tr ss by (cases op) (auto simp: transfer_op_def plain_def Let_def split: Option.bind_splits)
  from plain_op_safe [OF h r this nm fm nt] show ?thesis .
next
  case None
  have pr: "pr = a_prog a" and env: "length (var_names pr) = length (a_env a)"
    using readyD(1) [OF r] by (simp_all add: sound_def)
  note S = simple_safe [OF h, where T = T]
  note defs = transfer_op_def execute_def Let_def
  note cut = Option.bind_splits list.splits slot.splits if_splits
  show ?thesis
  proof (cases op)
    case OP_IF
    then show ?thesis using tr ss do_test_safe r by (auto simp: defs intro!: S split: cut)
  next
    case OP_WHILE
    then show ?thesis using tr ss do_test_safe r by (auto simp: defs intro!: S split: cut)
  next
    case OP_EIF
    then show ?thesis using tr ss do_test_safe r by (auto simp: defs intro!: S split: cut)
  next
    case OP_IF_QUES
    then show ?thesis using tr ss do_test_safe r by (auto simp: defs intro!: S split: cut)
  next
    case OP_AND
    then show ?thesis using tr ss and_or_safe r by (auto simp: defs intro!: S split: cut)
  next
    case OP_OR
    then show ?thesis using tr ss and_or_safe r by (auto simp: defs intro!: S split: cut)
  next
    case OP_JUMP
    then show ?thesis using tr ss do_jump_safe [OF readyD(1-3) [OF r]] by (auto simp: defs intro!: S split: cut)
  next
    case OP_FOR_LIST
    then show ?thesis using tr ss for_list_safe [OF r] fm pr by (auto simp: defs intro!: S split: cut)
  next
    case OP_FOR_RANGE
    then show ?thesis using tr ss for_range_safe [OF r] pr by (auto simp: defs intro!: S split: cut)
  next
    case OP_IMM
    then show ?thesis using tr ss imm_safe [OF r] pr by (auto simp: defs intro!: S split: cut)
  next
    case OP_PUT_TEMP
    then show ?thesis using tr ss put_temp_safe r by (auto simp: defs intro!: S split: cut)
  next
    case OP_PUSH_TEMP
    then show ?thesis using tr ss push_temp_safe r by (auto simp: defs intro!: S split: cut)
  next
    case OP_G_PUT
    then show ?thesis using tr ss g_put_safe r pr by (auto simp: defs intro!: S split: cut)
  next
    case OP_G_PUSH
    then show ?thesis using tr ss g_push_safe [OF r] pr by (auto simp: defs intro!: S split: cut)
  next
    case (OP_PUSH i)
    then show ?thesis using tr ss push_var_safe [OF r] env by (auto simp: defs intro!: S split: cut)
  next
    case (OP_PUT i)
    then show ?thesis using tr ss put_ready_safe r env by (auto simp: defs intro!: S split: cut)
  next
    case OP_FORK
    then show ?thesis using tr ss fork_op_safe [OF h r, of _ _ _ False] by (auto simp: defs split: Option.bind_splits)
  next
    case OP_FORK_WITH_ID
    then show ?thesis using tr ss fork_op_safe [OF h r, of _ _ _ True]
      by (auto simp: defs split: Option.bind_splits dest!: rd_belowD)
  next
    case OP_RETURN
    then show ?thesis using tr return_op_safe [OF h r] by (auto simp: defs split: cut)
  next
    case OP_RETURN0
    then show ?thesis using return_op_safe [OF h r] by (simp add: defs)
  next
    case OP_DONE
    then show ?thesis using return_op_safe [OF h r] by (simp add: defs)
  next
    case OP_BI_FUNC_CALL
    then show ?thesis using tr ss bi_func_call_safe [OF h r] fm by (auto simp: defs split: Option.bind_splits)
  next
    case OP_EXTENDED
    then obtain b eop where b: "byte_at (vector bc) (a_pc a) = Some b" "eop_of b = Some eop"
      "transfer_eop pr bc eop (a_pc (skip_bytes 1 a)) t ts = Some ss"
      using tr by (auto simp: defs skip_bytes_def split: Option.bind_splits)
    have h': "hosts S W (vm\<lparr>ticks_remaining := n\<rparr>) pr bc" for n using h by (simp add: hosts_def state_ok_def)
    have "ready (sv_resumable S) pr bc T (skip_bytes 1 a) t ts" "fits_memory (a_stack (skip_bytes 1 a))" using r fm by (simp_all add: skip_bytes_def)
    from extended_safe [OF h this(1) b(3) ss this(2)] extended_safe [OF h' this(1) b(3) ss this(2)]
    show ?thesis using OP_EXTENDED b(1,2) by (simp add: defs)
  qed (use None in \<open>simp_all add: plain_def\<close>)
qed

subsection \<open>One round\<close>

lemma step_safe:
  assumes vm: "machine_ok S W vm" and fm: "memory_ok vm" and nt: "\<not> traps_next vm"
  shows "result_ok S W (step S vm)"
proof -
  obtain a as where as: "activ_stack vm = a # as" "framed (sv_resumable S) (\<lambda>bc. runs) (root_activ_vector vm) as a" "resting (sv_resumable S) (root_activ_vector vm) as"
    using vm by (cases "activ_stack vm") (auto simp: machine_ok_def)
  then obtain bc T where f: "vector_at (root_activ_vector vm) as a = Some bc" "sound (sv_resumable S) (a_prog a) bc T a" "runs T a"
    by (auto simp: framed_def)
  then obtain t ts where ts: "T (a_pc a) = Some (t, ts)" "has_type T a (t, ts)" by (auto simp: runs_def split: option.splits)
  have cur: "current_vector vm = Some bc" using as(1) f(1) by (simp add: current_vector_at)
  have i: "instr_ok (a_prog a) bc T (a_pc a) t ts" using wt_instr [OF sound_wt [OF f(2)] ts(1)] .
  then obtain b op ss where op: "byte_at (vector bc) (a_pc a) = Some b" "opcode_of b = Some op"
    "transfer_op (a_prog a) bc op (a_pc a + 1) t ts = Some ss"
    and nexts: "leads T ss \<or> (counts bc (a_pc a) \<and> arrives T (a_pc a + 1) (t, KCount # ts))"
    by (auto simp: instr_ok_def transfer_def leads_def split: option.splits Option.bind_splits)
  let ?a = "a\<lparr>a_pc := a_pc a + 1, a_error_pc := a_pc a\<rparr>"
  have r: "ready (sv_resumable S) (a_prog a) bc T ?a t ts" using f(2) ts(2) i by (auto simp: ready_def has_type_def instr_ok_def)
  have nt': "\<not> traps op (a_stack ?a)" "fits_memory (a_stack ?a)"
    using nt fm as(1) cur op(1,2) by (simp_all add: traps_next_def next_op_def memory_ok_def)
  define vm' where "vm' = with_top ?a (if count_tick op then vm\<lparr>ticks_remaining := to_int32 (ticks_remaining vm - 1)\<rparr> else vm)"
  have st: "state_ok S W vm'" "activ_stack vm' = ?a # as" "root_activ_vector vm' = root_activ_vector vm"
    using vm as(1) by (auto simp: vm'_def with_top_def machine_ok_def state_ok_def)
  have h: "hosts S W vm' (a_prog a) bc" using st as(3) f(1) by (auto simp: hosts_def vector_at_def split: if_splits)
  have "raisable bc T ?a" using readyD [OF r] by (auto simp: raisable_def)
  then have top: "top_frame (sv_resumable S) raisable (root_activ_vector vm') (activ_stack vm')"
    using st as(3) f(1) readyD(1) [OF r] by (auto simp: vector_at_def intro!: framedI [of _ _ _ bc _ T])
  have "\<exists>v. abort_task S is_ticks vm' = Some v" for is_ticks
    using unwind_stack_safe [of "save_handler_info x y vm'" FIN_ABORT "VInt 0" for x y] st(1) top
    by (simp add: abort_task_def Let_def save_handler_info_def state_ok_def value_ok_def) fastforce
  then obtain v where "abort_task S (to_int32 (ticks_remaining vm - 1) \<le> 0) vm' = Some v" by blast
  moreover have "result_ok S W (execute S bc op ?a vm')"
  proof (cases "leads T ss")
    case True
    then show ?thesis using execute_safe [OF h r _ True nt'(2,1)] op(3) by simp
  next
    case False
    then obtain n where n: "op = OPTIM_NUM n" "1 \<le> n" "arrives T (a_pc ?a) (t, KCount # ts)"
      using nexts op(1,2) by (auto simp: counts_def split: opcode.splits)
    have "effect_ok (sv_resumable S) (a_prog a) bc T (push_next (VInt n) ?a)"
      using push_next_safe [OF readyD(1,2) [OF r] _ n(3), of "VInt n"] readyD(3) [OF r] n(2) by simp
    then show ?thesis using simple_safe [OF h, where T = T] n(1) by (simp add: execute_def)
  qed
  moreover have "step S vm = (if count_tick op \<and> (to_int32 (ticks_remaining vm - 1) \<le> 0 \<or> task_timed_out vm')
     then map_option (Stopped OUTCOME_ABORTED None) (abort_task S (to_int32 (ticks_remaining vm - 1) \<le> 0) vm')
     else execute S bc op ?a vm')"
    using cur op(1,2) as(1) by (simp add: step_def Let_def vm'_def)
  ultimately show ?thesis by simp
qed

text \<open>Every run, as long as it does not come to an instruction that traps.\<close>

lemma run_steps_safe:
  assumes "machine_ok S W vm"
    and "\<And>k vm'. k < n \<Longrightarrow> run_steps k S vm = Some (Running vm') \<Longrightarrow> memory_ok vm' \<and> \<not> traps_next vm'"
  shows "result_ok S W (run_steps n S vm)"
  using assms
proof (induction n arbitrary: vm)
  case (Suc n)
  have "result_ok S W (step S vm)" using step_safe Suc.prems(1) Suc.prems(2) [of 0 vm] by simp
  then consider (on) vm' where "step S vm = Some (Running vm')" "machine_ok S W vm'"
    | (ended) out v vm' where "step S vm = Some (Stopped out v vm')"
    by (auto simp: result_ok_def split: option.splits result.splits)
  then show ?case
  proof cases
    case on
    have "memory_ok vm'' \<and> \<not> traps_next vm''" if "k < n" "run_steps k S vm' = Some (Running vm'')" for k vm''
      using Suc.prems(2) [of "Suc k" vm''] on(1) that by simp
    then show ?thesis using Suc.IH [OF on(2)] on(1) by simp
  qed simp
qed simp

end

end
