(* ===== verification/TaskSafety.thy ===== *)
theory TaskSafety
  imports MachineRun
begin

text \<open>
  Tasks start on well-formed machines: the root activation that \<open>do_task\<close> builds runs from the first instruction of
  its vector, with the environment of the command or of the server.
\<close>

lemma typed_vector:
  assumes "program_ok p" "which = MAIN_VECTOR \<or> nat which < length (fork_vectors p)"
  shows "\<exists>bc T. (if which = MAIN_VECTOR then Some (main_vector p) else nth_opt (fork_vectors p) (nat which)) = Some bc \<and> wt p bc T"
  using assms by (cases "which = MAIN_VECTOR") (auto simp: program_ok_def nth_opt_def)

lemma do_task_safe:
  assumes p: "program_ok p" "which = MAIN_VECTOR \<or> nat which < length (fork_vectors p)"
    and a: "length (a_env a) = length (var_names p)" "env_ok (a_env a)" "user_value (a_THISOBJ a)" "c_string (a_verb a)" "c_string (a_verbname a)"
    and vm: "state_ok S W vm"
  shows "\<exists>vm'. do_task p which ticks a vm = Some vm' \<and> machine_ok S W vm'"
proof -
  obtain bc T where bc: "(if which = MAIN_VECTOR then Some (main_vector p) else nth_opt (fork_vectors p) (nat which)) = Some bc" "wt p bc T"
    using typed_vector [OF p] by blast
  let ?a = "a\<lparr>a_prog := p, a_stack := [], a_stack_size := max_stack bc, a_pc := 0, a_error_pc := 0, a_bi_func_pc := 0, a_temp := VNone\<rparr>"
  have "sound (sv_resumable S) p bc T ?a" using p(1) bc(2) a by (simp add: sound_def)
  moreover have "runs T ?a" using bc(2) by (simp add: runs_def wt_def has_type_def)
  ultimately have "framed (sv_resumable S) (\<lambda>bc. runs) which [] ?a"
    using bc(1) by (intro framedI [of _ _ _ bc _ T]) (auto simp: vector_at_def split: if_splits)
  then show ?thesis
    using bc(1) vm by (simp add: do_task_def machine_ok_def state_ok_def setup_task_execution_limits_def)
qed

lemma root_env_ok:
  assumes p: "program_ok p" and v: "list_all c_string [dobjstr, iobjstr, argstr, prepstr, verb]" "\<forall>v \<in> set args. user_value v"
  shows "\<exists>env. root_env p player callr thisobj dobj iobj dobjstr iobjstr argstr prepstr verb args = Some env \<and>
    length env = length (var_names p) \<and> env_ok env"
proof -
  obtain env where env: "fill_in_rt_consts (prog_version p) (new_rt_env (length (var_names p))) = Some env"
    "length env = length (var_names p)" "env_ok env" using fill_in_ok [OF p] by blast
  have "16 \<le> length env" using enough_vars [OF p] env(2) by simp
  then have "\<exists>env'. set_all [(SLOT_PLAYER, VObj player), (SLOT_CALLER, VObj callr), (SLOT_THIS, VObj thisobj), (SLOT_DOBJ, VObj dobj),
       (SLOT_IOBJ, VObj iobj), (SLOT_DOBJSTR, VStr dobjstr), (SLOT_IOBJSTR, VStr iobjstr), (SLOT_ARGSTR, VStr argstr),
       (SLOT_PREPSTR, VStr prepstr), (SLOT_VERB, VStr verb), (SLOT_ARGS, VList args)] env = Some env' \<and>
       length env' = length env \<and> env_ok env'"
    by (intro set_all_ok [OF env(3)]) (use v in \<open>auto simp: SLOT_PLAYER_def SLOT_CALLER_def SLOT_THIS_def SLOT_DOBJ_def SLOT_IOBJ_def
      SLOT_DOBJSTR_def SLOT_IOBJSTR_def SLOT_ARGSTR_def SLOT_PREPSTR_def SLOT_VERB_def SLOT_ARGS_def\<close>)
  then show ?thesis using env by (auto simp: root_env_def)
qed

lemma server_task_safe:
  assumes p: "program_ok p" and vm: "state_ok S W vm"
    and v: "c_string verb" "c_string verbname" "c_string argstr" "\<forall>v \<in> set args. user_value v"
  shows "\<exists>vm'. do_server_program_task thisobj verb args vloc verbname p progr debug player argstr max_depth ticks vm = Some vm' \<and>
    machine_ok S W vm'"
proof -
  obtain env where env: "root_env p player (-1) thisobj NOTHING NOTHING [] [] argstr [] verb args = Some env"
    "length env = length (var_names p)" "env_ok env"
    using root_env_ok [OF p, of "[]" "[]" argstr "[]" verb args player "-1" thisobj NOTHING NOTHING] v by (auto simp: c_string_def)
  have "state_ok S W (vm\<lparr>max_stack_size := current_max_stack_size max_depth\<rparr>)" using vm by (simp add: state_ok_def)
  from do_task_safe [OF p _ _ _ _ _ _ this, of MAIN_VECTOR "root_activation p env thisobj player progr vloc verb verbname debug" ticks] env v
  show ?thesis by (simp add: do_server_program_task_def root_activation_def)
qed

text \<open>The verb that a command found.\<close>

lemma input_task_safe:
  assumes contract: "verb_contract S" and vm: "state_ok S W vm" and h: "the_verb (database vm) h = Some v"
    and pc: "list_all c_string [pc_verb pc, pc_argstr pc, pc_dobjstr pc, pc_iobjstr pc, pc_prepstr pc]" "\<forall>v \<in> set (pc_args pc). user_value v"
  shows "\<exists>vm'. do_input_task S user pc thisobj (Some h) max_depth ticks vm = Some vm' \<and> machine_ok S W vm'"
proof -
  have good: "db_good S (database vm)" using vm by (simp add: state_ok_def)
  define p where "p = (case v_program v of None \<Rightarrow> sv_null_program S | Some p \<Rightarrow> p)"
  have p: "program_ok p" "c_string (v_name v)"
    using found_verb [OF good h] verb_contract.null_program [OF contract] by (auto simp: p_def split: option.splits)
  obtain env where env: "root_env p user user thisobj (pc_dobj pc) (pc_iobj pc) (pc_dobjstr pc) (pc_iobjstr pc) (pc_argstr pc)
       (pc_prepstr pc) (pc_verb pc) (pc_args pc) = Some env"
    "length env = length (var_names p)" "env_ok env"
    using root_env_ok [OF p(1), of "pc_dobjstr pc" "pc_iobjstr pc" "pc_argstr pc" "pc_prepstr pc" "pc_verb pc" "pc_args pc" user user thisobj "pc_dobj pc" "pc_iobj pc"] pc by auto
  have "state_ok S W (vm\<lparr>max_stack_size := current_max_stack_size max_depth\<rparr>)" using vm by (simp add: state_ok_def)
  from do_task_safe [OF p(1) _ _ _ _ _ _ this, of MAIN_VECTOR
    "root_activation p env thisobj user (v_owner v) (fst h) (pc_verb pc) (v_name v) (((v_perms v AND PERMMASK) AND VF_DEBUG) \<noteq> 0)" ticks] env p pc h
  show ?thesis
    by (simp add: do_input_task_def root_activation_def db_verb_program_def db_verb_owner_def db_verb_definer_def db_verb_names_def
      db_verb_flags_def on_verb_def p_def)
qed

end
