(* ===== verification/Functions.thy ===== *)
theory Functions
  imports TaskSafety
begin

text \<open>
  The registry of built-in functions (\<open>functions.c\<close>): the table in the order of registration, the lookups by name and
  by number, and \<open>call_bi_func\<close> with its checks of permissions, argument counts and types.

  A registered C function takes the arguments, the place where it is entered, its saved data and the permissions. The
  data is a number here: 0 is the null pointer and 1 the address of \<open>call_bi_func\<close>, the only one that code looks at.
\<close>

datatype proto = TYPE_ANY | TYPE_NUMERIC | Proto var_type

type_synonym 'w bi_func = "var \<Rightarrow> nat \<Rightarrow> nat \<Rightarrow> objid \<Rightarrow> 'w vm \<Rightarrow> (package \<times> 'w vm) option"

record 'w bft_entry =
  bf_name :: string
  bf_protect_str :: string
  bf_verb_str :: string
  bf_minargs :: int
  bf_maxargs :: int
  bf_prototype :: "proto list"
  bf_func :: "'w bi_func"

definition MAX_FUNC :: nat where "MAX_FUNC = 256"
definition FUNC_NOT_FOUND :: nat where "FUNC_NOT_FOUND = MAX_FUNC"

text \<open>Registering: the number of the function and the new table. Too many functions all get the number 0.\<close>

definition register_common :: "string \<Rightarrow> int \<Rightarrow> int \<Rightarrow> 'w bi_func \<Rightarrow> proto list \<Rightarrow> 'w bft_entry list \<Rightarrow> nat \<times> 'w bft_entry list" where
  "register_common name minargs maxargs func args bf_table =
    (if length bf_table = MAX_FUNC then (0, bf_table)
     else (length bf_table, bf_table @
       [\<lparr>bf_name = name, bf_protect_str = ''protect_'' @ name, bf_verb_str = ''bf_'' @ name, bf_minargs = minargs, bf_maxargs = maxargs,
         bf_prototype = take (nat (if maxargs = -1 then minargs else maxargs)) args, bf_func = func\<rparr>]))"

definition register_function :: "string \<Rightarrow> int \<Rightarrow> int \<Rightarrow> 'w bi_func \<Rightarrow> proto list \<Rightarrow> 'w bft_entry list \<Rightarrow> 'w bft_entry list" where
  "register_function name minargs maxargs func args bf_table = snd (register_common name minargs maxargs func args bf_table)"

subsection \<open>Lookups\<close>

definition func_not_found_msg :: string where "func_not_found_msg = ''no such function''"

definition name_func_by_num :: "'w bft_entry list \<Rightarrow> nat \<Rightarrow> string" where
  "name_func_by_num bf_table n = (if n \<ge> length bf_table then func_not_found_msg else bf_name (bf_table ! n))"

definition number_func_by_name :: "'w bft_entry list \<Rightarrow> string \<Rightarrow> nat" where
  "number_func_by_name bf_table name =
    (case find_index (\<lambda>e. mystrcasecmp name (bf_name e) = 0) bf_table of Some i \<Rightarrow> i | None \<Rightarrow> FUNC_NOT_FOUND)"

subsection \<open>Calls\<close>

definition tail_call_pack :: package where "tail_call_pack = BI_CALL 0 0"

definition wrong_count :: "'w bft_entry \<Rightarrow> var list \<Rightarrow> bool" where
  "wrong_count f args \<longleftrightarrow> int (length args) < bf_minargs f \<or> (bf_maxargs f \<noteq> -1 \<and> int (length args) > bf_maxargs f)"

fun proto_allows :: "proto \<Rightarrow> var_type \<Rightarrow> bool" where
  "proto_allows TYPE_ANY arg = True"
| "proto_allows TYPE_NUMERIC arg = (arg = TYPE_INT \<or> arg = TYPE_FLOAT)"
| "proto_allows (Proto t) arg = (t = arg)"

text \<open>The types of the first arguments; a function without a bound only has types for those it needs.\<close>

definition wrong_type :: "'w bft_entry \<Rightarrow> var list \<Rightarrow> bool" where
  "wrong_type f args =
    (let max = nat (if bf_maxargs f = -1 then bf_minargs f else int (length args))
     in list_ex (\<lambda>k. \<not> proto_allows (bf_prototype f ! k) (type_of (args ! k))) [0..<max])"

definition call_bi_func_data :: nat where "call_bi_func_data = 1"

text \<open>Calling the verb of the system object that protects a function: a package if that is the answer.\<close>

definition call_protected :: "'w server \<Rightarrow> 'w bft_entry \<Rightarrow> var list \<Rightarrow> objid \<Rightarrow> 'w vm \<Rightarrow> (package option \<times> 'w vm) option" where
  "call_protected S f args progr vm = (do {
     (e, vm) \<leftarrow> call_verb2 S SYSTEM_OBJECT (bf_verb_str f) (VObj SYSTEM_OBJECT) args False vm;
     Some (if e = E_NONE then Some tail_call_pack
       else if e = E_MAXREC \<or> \<not> is_wizard (database vm) progr then Some (make_error_pack (if e = E_MAXREC then e else E_PERM))
       else None, vm)
   })"

definition call_bi_func :: "('w \<Rightarrow> nat \<Rightarrow> bool) \<Rightarrow> 'w bft_entry list \<Rightarrow> 'w server \<Rightarrow>
    nat \<Rightarrow> var \<Rightarrow> nat \<Rightarrow> objid \<Rightarrow> nat \<Rightarrow> 'w vm \<Rightarrow> (package \<times> 'w vm) option" where
  "call_bi_func protected_flag bf_table S n arglist func_pc progr vdata vm =
    (if n \<ge> length bf_table then Some (no_var_pack, vm)
     else (let f = bf_table ! n in
       if func_pc = 1 then (do {
         args \<leftarrow> (case arglist of VList vs \<Rightarrow> Some vs | _ \<Rightarrow> None);
         caller \<leftarrow> caller_object vm;
         (answer, vm) \<leftarrow> (if caller \<noteq> SYSTEM_OBJECT \<and> protected_flag (world vm) n then call_protected S f args progr vm
           else Some (None, vm));
         case answer of
           Some p \<Rightarrow> Some (p, vm)
         | None \<Rightarrow>
             if wrong_count f args then Some (make_error_pack E_ARGS, vm)
             else if wrong_type f args then Some (make_error_pack E_TYPE, vm)
             else bf_func f arglist func_pc vdata progr vm
       })
       else if func_pc = 2 \<and> vdata = call_bi_func_data then Some (make_var_pack arglist, vm)
       else bf_func f arglist func_pc vdata progr vm))"

subsection \<open>Information about functions\<close>

fun type_number :: "var_type \<Rightarrow> int" where
  "type_number TYPE_INT = 0" | "type_number TYPE_OBJ = 1" | "type_number TYPE_STR = 2" | "type_number TYPE_ERR = 3"
| "type_number TYPE_LIST = 4" | "type_number TYPE_CLEAR = 5" | "type_number TYPE_NONE = 6" | "type_number TYPE_CATCH = 7"
| "type_number TYPE_FINALLY = 8" | "type_number TYPE_FLOAT = 9" | "type_number TYPE_WAIF = 10"

fun proto_number :: "proto \<Rightarrow> int" where
  "proto_number TYPE_ANY = -1"
| "proto_number TYPE_NUMERIC = -2"
| "proto_number (Proto t) = type_number t"

definition function_description :: "'w bft_entry \<Rightarrow> var" where
  "function_description entry =
    (let nargs = nat (if bf_maxargs entry = -1 then bf_minargs entry else bf_maxargs entry)
     in VList [VStr (bf_name entry), VInt (bf_minargs entry), VInt (bf_maxargs entry),
          VList (map (\<lambda>t. VInt (proto_number t)) (take nargs (bf_prototype entry)))])"

definition bf_function_info :: "'w bft_entry list \<Rightarrow> var list \<Rightarrow> package option" where
  "bf_function_info bf_table args = (case args of
     [VStr name] \<Rightarrow>
       (let i = number_func_by_name bf_table name
        in Some (if i = FUNC_NOT_FOUND then make_error_pack E_INVARG else make_var_pack (function_description (bf_table ! i))))
   | [] \<Rightarrow> Some (make_var_pack (VList (map function_description bf_table)))
   | _ \<Rightarrow> None)"

subsection \<open>Options of the server\<close>

text \<open>\<open>get_server_option\<close> of \<open>server.c\<close>: a property of the object that \<open>server_options\<close> of the given object or of the
  system object names. The first object that has that property decides, whatever its value.\<close>

definition option_source :: "db \<Rightarrow> objid \<Rightarrow> (var option) option" where
  "option_source db oid =
    (if valid db oid then (do { (h, v) \<leftarrow> db_find_property db oid ''server_options'' True; Some (if h = NoProp then None else v) })
     else Some None)"

definition get_server_option :: "db \<Rightarrow> objid \<Rightarrow> string \<Rightarrow> (var option) option" where
  "get_server_option db oid name = (do {
     r \<leftarrow> option_source db oid;
     r \<leftarrow> (if r = None then option_source db SYSTEM_OBJECT else Some r);
     case r of
       Some (VObj x) \<Rightarrow>
         if valid db x then (do { (h, v) \<leftarrow> db_find_property db x name True; Some (if h = NoProp then None else v) })
         else Some None
     | _ \<Rightarrow> Some None
   })"

definition server_flag_option :: "db \<Rightarrow> string \<Rightarrow> bool option" where
  "server_flag_option db name = map_option (\<lambda>v. case v of Some v \<Rightarrow> is_true v | None \<Rightarrow> False) (get_server_option db SYSTEM_OBJECT name)"

definition server_int_option :: "db \<Rightarrow> string \<Rightarrow> int \<Rightarrow> int option" where
  "server_int_option db name deflt =
    map_option (\<lambda>v. case v of Some (VInt n) \<Rightarrow> to_int32 n | _ \<Rightarrow> deflt) (get_server_option db SYSTEM_OBJECT name)"

text \<open>The flags of all functions, as they are cached.\<close>

definition load_server_protect_flags :: "'w bft_entry list \<Rightarrow> db \<Rightarrow> bool list option" where
  "load_server_protect_flags bf_table db = those (map (\<lambda>e. server_flag_option db (bf_protect_str e)) bf_table)"

definition bf_load_server_options :: "'w bft_entry list \<Rightarrow> (bool list \<Rightarrow> 'w \<Rightarrow> 'w) \<Rightarrow> objid \<Rightarrow> 'w vm \<Rightarrow> (package \<times> 'w vm) option" where
  "bf_load_server_options bf_table set_flags progr vm =
    (if \<not> is_wizard (database vm) progr then Some (make_error_pack E_PERM, vm)
     else (do {
       flags \<leftarrow> load_server_protect_flags bf_table (database vm);
       Some (no_var_pack, vm\<lparr>world := set_flags flags (world vm)\<rparr>)
     }))"

subsection \<open>The functions that are modelled\<close>

text \<open>What the functions use of the rest of the server: the format of floating-point numbers, what is printed of a waif and its
  size, the numbers the generator gives next, and the cached flags of protected functions.\<close>

record 'w builtin_env =
  be_format :: "float64 \<Rightarrow> string"
  be_waif :: "'w \<Rightarrow> nat \<Rightarrow> objid \<times> objid"
  be_waif_bytes :: "'w \<Rightarrow> nat \<Rightarrow> int"
  be_random :: "'w \<Rightarrow> int \<times> int \<times> int"
  be_set_flags :: "bool list \<Rightarrow> 'w \<Rightarrow> 'w"

text \<open>A C function that only looks at its arguments, and one that cannot fail on any.\<close>

definition on_args :: "('w vm \<Rightarrow> var list \<Rightarrow> package option) \<Rightarrow> 'w bi_func" where
  "on_args f arglist next vdata progr vm =
    (case arglist of VList vs \<Rightarrow> map_option (\<lambda>p. (p, vm)) (f vm vs) | _ \<Rightarrow> None)"

definition on_vm :: "(objid \<Rightarrow> var list \<Rightarrow> 'w vm \<Rightarrow> (package \<times> 'w vm) option) \<Rightarrow> 'w bi_func" where
  "on_vm f arglist next vdata progr vm = (case arglist of VList vs \<Rightarrow> f progr vs vm | _ \<Rightarrow> None)"

type_synonym 'w registration = "string \<times> int \<times> int \<times> proto list \<times> 'w bi_func"

definition register_execute :: "'w server \<Rightarrow> 'w builtin_env \<Rightarrow> 'w registration list" where
  "register_execute S B =
    [(''raise'', 1, 3, [TYPE_ANY, Proto TYPE_STR, TYPE_ANY], on_args (\<lambda>vm. bf_raise (be_format B))),
     (''ticks_left'', 0, 0, [], on_args (\<lambda>vm vs. Some (bf_ticks_left vm))),
     (''pass'', 0, -1, [], on_vm (\<lambda>progr. bf_pass S)),
     (''set_task_perms'', 1, 1, [Proto TYPE_OBJ],
        on_vm (\<lambda>progr vs vm. case vs of VObj oid # _ \<Rightarrow> bf_set_task_perms oid progr vm | _ \<Rightarrow> None)),
     (''caller_perms'', 0, 0, [], on_args (\<lambda>vm vs. Some (bf_caller_perms vm))),
     (''callers'', 0, 1, [TYPE_ANY], on_args (\<lambda>vm vs. Some (bf_callers S vs vm)))]"

definition register_functions :: "'w bft_entry list \<Rightarrow> 'w builtin_env \<Rightarrow> 'w registration list" where
  "register_functions bf_table B =
    [(''function_info'', 0, 1, [Proto TYPE_STR], on_args (\<lambda>vm. bf_function_info bf_table)),
     (''load_server_options'', 0, 0, [], on_vm (\<lambda>progr vs. bf_load_server_options bf_table (be_set_flags B) progr))]"

definition register_list :: "'w builtin_env \<Rightarrow> 'w registration list" where
  "register_list B =
    [(''value_bytes'', 1, 1, [TYPE_ANY], on_args (\<lambda>vm vs. Some (bf_value_bytes (be_waif_bytes B (world vm)) vs))),
     (''decode_binary'', 1, 2, [Proto TYPE_STR, TYPE_ANY], on_args (\<lambda>vm vs. ok (bf_decode_binary vs))),
     (''encode_binary'', 0, -1, [], on_args (\<lambda>vm vs. Some (bf_encode_binary vs))),
     (''length'', 1, 1, [TYPE_ANY], on_args (\<lambda>vm vs. Some (bf_length vs))),
     (''setadd'', 2, 2, [Proto TYPE_LIST, TYPE_ANY], on_args (\<lambda>vm vs. ok (bf_setadd vs))),
     (''setremove'', 2, 2, [Proto TYPE_LIST, TYPE_ANY], on_args (\<lambda>vm vs. ok (bf_setremove vs))),
     (''listappend'', 2, 3, [Proto TYPE_LIST, TYPE_ANY, Proto TYPE_INT], on_args (\<lambda>vm vs. ok (bf_listappend vs))),
     (''listinsert'', 2, 3, [Proto TYPE_LIST, TYPE_ANY, Proto TYPE_INT], on_args (\<lambda>vm vs. ok (bf_listinsert vs))),
     (''listdelete'', 2, 2, [Proto TYPE_LIST, Proto TYPE_INT], on_args (\<lambda>vm vs. ok (bf_listdelete vs))),
     (''listset'', 3, 3, [Proto TYPE_LIST, TYPE_ANY, Proto TYPE_INT], on_args (\<lambda>vm vs. ok (bf_listset vs))),
     (''equal'', 2, 2, [TYPE_ANY, TYPE_ANY], on_args (\<lambda>vm vs. ok (bf_equal vs))),
     (''is_member'', 2, 2, [TYPE_ANY, Proto TYPE_LIST], on_args (\<lambda>vm vs. ok (bf_is_member vs))),
     (''tostr'', 0, -1, [], on_args (\<lambda>vm vs. ok (bf_tostr (be_format B) vs))),
     (''toliteral'', 1, 1, [TYPE_ANY], on_args (\<lambda>vm vs. Some (bf_toliteral (be_format B) (be_waif B (world vm)) vs))),
     (''substitute'', 2, 2, [Proto TYPE_STR, Proto TYPE_LIST], on_args (\<lambda>vm vs. ok (bf_substitute vs))),
     (''index'', 2, 3, [Proto TYPE_STR, Proto TYPE_STR, TYPE_ANY], on_args (\<lambda>vm vs. ok (bf_index vs))),
     (''strcmp'', 2, 2, [Proto TYPE_STR, Proto TYPE_STR], on_args (\<lambda>vm vs. ok (bf_strcmp vs))),
     (''strsub'', 3, 4, [Proto TYPE_STR, Proto TYPE_STR, Proto TYPE_STR, TYPE_ANY], on_args (\<lambda>vm vs. ok (bf_strsub vs))),
     (''ord'', 1, 1, [Proto TYPE_STR], on_args (\<lambda>vm vs. ok (bf_ord vs))),
     (''enlist'', 1, 1, [TYPE_ANY], on_args (\<lambda>vm vs. ok (bf_enlist vs))),
     (''iassoc'', 2, 3, [TYPE_ANY, Proto TYPE_LIST, Proto TYPE_INT], on_args (\<lambda>vm vs. ok (bf_iassoc vs))),
     (''assoc'', 2, 3, [TYPE_ANY, Proto TYPE_LIST, Proto TYPE_INT], on_args (\<lambda>vm vs. ok (bf_assoc vs))),
     (''remove_duplicates'', 1, 1, [Proto TYPE_LIST], on_args (\<lambda>vm vs. ok (bf_remove_duplicates vs)))]"

definition register_numbers :: "fp_ops \<Rightarrow> 'w builtin_env \<Rightarrow> 'w registration list" where
  "register_numbers F B =
    [(''toint'', 1, 1, [TYPE_ANY], on_args (\<lambda>vm vs. Some (bf_toint F vs))),
     (''tonum'', 1, 1, [TYPE_ANY], on_args (\<lambda>vm vs. Some (bf_toint F vs))),
     (''tofloat'', 1, 1, [TYPE_ANY], on_args (\<lambda>vm vs. Some (bf_tofloat F vs))),
     (''min'', 1, -1, [TYPE_NUMERIC], on_args (\<lambda>vm vs. Some (bf_min vs))),
     (''max'', 1, -1, [TYPE_NUMERIC], on_args (\<lambda>vm vs. Some (bf_max vs))),
     (''abs'', 1, 1, [TYPE_NUMERIC], on_args (\<lambda>vm vs. Some (bf_abs F vs))),
     (''random'', 0, 1, [Proto TYPE_INT], on_args (\<lambda>vm vs. Some (bf_random (be_random B (world vm)) vs)))]"

definition register_all :: "'w registration list \<Rightarrow> 'w bft_entry list \<Rightarrow> 'w bft_entry list" where
  "register_all rs bf_table = fold (\<lambda>(name, lo, hi, types, func). register_function name lo hi func types) rs bf_table"

text \<open>The functions in the order of \<open>register_bi_functions\<close>. The description of the table that \<open>function_info\<close> gives does not
  depend on what the functions do.\<close>

definition register_with :: "'w bft_entry list \<Rightarrow> 'w server \<Rightarrow> 'w builtin_env \<Rightarrow> 'w bft_entry list" where
  "register_with bf_table S B = register_all
    (register_execute S B @ register_functions bf_table B @ register_list B @ register_numbers (sv_floats S) B) []"

definition register_bi_functions :: "'w server \<Rightarrow> 'w builtin_env \<Rightarrow> 'w bft_entry list" where
  "register_bi_functions S B = register_with (register_with [] S B) S B"

end
