(* ===== verification/FunctionSafety.thy ===== *)
theory FunctionSafety
  imports Functions
begin

text \<open>
  What a built-in function has to promise so that the whole registry keeps the interpreter well-typed: for arguments of
  the registered number and types, an answer that is a value, an error, or the call of a verb.
\<close>

lemma same_frames_refl: "activ_stack vm \<noteq> [] \<Longrightarrow> same_frames vm vm"
  by (cases "activ_stack vm") (auto simp: same_frames_def intro: exI [of _ "a_progr (hd (activ_stack vm))"])

lemma same_frames_trans: "same_frames vm vm' \<Longrightarrow> same_frames vm' vm'' \<Longrightarrow> same_frames vm vm''"
  by (auto simp: same_frames_def)

lemma calling_frames: "calling S W vm \<Longrightarrow> activ_stack vm \<noteq> [] \<and> same_frames vm vm"
  by (auto simp: calling_def same_frames_refl)

lemma answer_frames: "same_frames vm vm' \<Longrightarrow> answer_ok S f vm' pc p vm'' \<Longrightarrow> answer_ok S f vm pc p vm''"
  by (auto simp: answer_ok_def split: package.splits intro: same_frames_trans)

text \<open>An answer that does not touch the frames.\<close>

definition plain_answer :: "package \<Rightarrow> bool" where
  "plain_answer p \<longleftrightarrow> (case p of BI_RETURN v \<Rightarrow> user_value v | BI_RAISE c msg v \<Rightarrow> user_value c \<and> c_string msg \<and> user_value v
     | BI_KILL \<Rightarrow> True | _ \<Rightarrow> False)"

lemma plain_answer_ok: "plain_answer p \<Longrightarrow> same_frames vm vm' \<Longrightarrow> answer_ok S f vm pc p vm'"
  by (auto simp: plain_answer_def answer_ok_def split: package.splits)

lemma plain_packs [simp]: "plain_answer (make_error_pack e)" "plain_answer no_var_pack" "plain_answer (make_var_pack v) = user_value v"
  by (simp_all add: plain_answer_def make_error_pack_def make_raise_pack_def no_var_pack_def make_var_pack_def)

subsection \<open>The contract of a registered function\<close>

definition func_safe :: "'w server \<Rightarrow> ('w \<Rightarrow> bool) \<Rightarrow> nat \<Rightarrow> (var list \<Rightarrow> bool) \<Rightarrow> 'w bi_func \<Rightarrow> bool" where
  "func_safe S W n P func \<longleftrightarrow> (\<forall>vm vs data progr. calling S W vm \<longrightarrow> (\<forall>v \<in> set vs. user_value v) \<longrightarrow> small_value (VList vs) \<longrightarrow> P vs \<longrightarrow>
    (\<exists>p vm'. func (VList vs) 1 data progr vm = Some (p, vm') \<and> state_ok S W vm' \<and> answer_ok S n vm 1 p vm'))"

definition right_args :: "'w bft_entry \<Rightarrow> var list \<Rightarrow> bool" where
  "right_args e vs \<longleftrightarrow> \<not> wrong_count e vs \<and> \<not> wrong_type e vs"

definition entry_safe :: "'w server \<Rightarrow> ('w \<Rightarrow> bool) \<Rightarrow> nat \<Rightarrow> 'w bft_entry \<Rightarrow> bool" where
  "entry_safe S W n e \<longleftrightarrow> c_string (bf_name e) \<and> c_string (bf_verb_str e) \<and> func_safe S W n (right_args e) (bf_func e)"

lemma func_safeD: "func_safe S W n P func \<Longrightarrow> calling S W vm \<Longrightarrow> \<forall>v \<in> set vs. user_value v \<Longrightarrow> small_value (VList vs) \<Longrightarrow> P vs \<Longrightarrow>
    \<exists>p vm'. func (VList vs) 1 data progr vm = Some (p, vm') \<and> state_ok S W vm' \<and> answer_ok S n vm 1 p vm'"
  unfolding func_safe_def by blast

text \<open>Calling through the registry.\<close>

context verb_contract
begin

lemma protected_call_safe:
  assumes vm: "calling S W vm" and e: "c_string (bf_verb_str f)" and vs: "\<forall>v \<in> set vs. user_value v"
  shows "\<exists>r vm'. call_protected S f vs progr vm = Some (r, vm') \<and> state_ok S W vm' \<and>
    (case r of None \<Rightarrow> calling S W vm' \<and> same_frames vm vm' | Some p \<Rightarrow> answer_ok S n vm pc p vm')"
proof -
  obtain e vm' where c: "call_verb2 S SYSTEM_OBJECT (bf_verb_str f) (VObj SYSTEM_OBJECT) vs False vm = Some (e, vm')"
    "if e = E_NONE then machine_ok S W vm' \<and> tl (activ_stack vm') = activ_stack vm else calling S W vm' \<and> same_frames vm vm'"
    using call_verb2_safe [OF vm e _ vs, of "VObj SYSTEM_OBJECT" SYSTEM_OBJECT False] by auto
  have "answer_ok S n vm pc tail_call_pack vm'" if "e = E_NONE"
    using c(2) that by (simp add: answer_ok_def tail_call_pack_def machine_ok_def)
  moreover have "answer_ok S n vm pc (make_error_pack x) vm'" if "e \<noteq> E_NONE" for x
    using c(2) that by (simp add: plain_answer_ok)
  moreover have "state_ok S W vm'" using c(2) by (auto simp: machine_ok_def calling_def split: if_splits)
  ultimately show ?thesis using c by (auto simp: call_protected_def)
qed

lemma call_bi_func_safe:
  assumes tbl: "\<forall>n < length bf_table. entry_safe S W n (bf_table ! n)"
    and vm: "calling S W vm" and arg: "user_value arg" "type_of arg = TYPE_LIST" "small_value arg"
  shows "\<exists>p vm'. call_bi_func protected_flag bf_table S n arg 1 progr data vm = Some (p, vm') \<and> state_ok S W vm' \<and> answer_ok S n vm 1 p vm'"
proof (cases "n < length bf_table")
  case False
  then show ?thesis using vm calling_frames [OF vm] by (simp add: call_bi_func_def plain_answer_ok calling_def)
next
  case True
  let ?f = "bf_table ! n"
  have f: "c_string (bf_verb_str ?f)" "func_safe S W n (right_args ?f) (bf_func ?f)" using tbl True by (auto simp: entry_safe_def)
  obtain vs where vs: "arg = VList vs" "\<forall>v \<in> set vs. user_value v" using arg(1,2) by (cases arg) auto
  obtain c where c: "caller_object vm = Some c" using calling_frames [OF vm] by (cases "activ_stack vm") (auto simp: caller_object_def)
  have go_on: "\<exists>p vm''. (if wrong_count ?f vs then Some (make_error_pack E_ARGS, vm')
      else if wrong_type ?f vs then Some (make_error_pack E_TYPE, vm') else bf_func ?f arg 1 data progr vm') = Some (p, vm'') \<and>
      state_ok S W vm'' \<and> answer_ok S n vm 1 p vm''" if "calling S W vm'" "same_frames vm vm'" for vm'
  proof (cases "right_args ?f vs")
    note this_vm = that
    case True
    obtain p vm'' where "bf_func ?f (VList vs) 1 data progr vm' = Some (p, vm'')" "state_ok S W vm''" "answer_ok S n vm' 1 p vm''"
      using func_safeD [OF f(2) this_vm(1) vs(2) _ True] arg(3) vs(1) by blast
    then show ?thesis using True answer_frames [OF this_vm(2)] vs(1) by (auto simp: right_args_def)
  next
    case False
    then show ?thesis using that by (auto simp: right_args_def plain_answer_ok calling_def)
  qed
  have unf: "call_bi_func protected_flag bf_table S n arg 1 progr data vm = (do {
         (answer, vm) \<leftarrow> (if c \<noteq> SYSTEM_OBJECT \<and> protected_flag (world vm) n then call_protected S ?f vs progr vm else Some (None, vm));
         case answer of
           Some p \<Rightarrow> Some (p, vm)
         | None \<Rightarrow>
             if wrong_count ?f vs then Some (make_error_pack E_ARGS, vm)
             else if wrong_type ?f vs then Some (make_error_pack E_TYPE, vm)
             else bf_func ?f arg 1 data progr vm })"
    using True c unfolding vs(1) call_bi_func_def Let_def by simp
  show ?thesis
  proof (cases "c \<noteq> SYSTEM_OBJECT \<and> protected_flag (world vm) n")
    case False
    then show ?thesis unfolding unf using go_on [OF vm] calling_frames [OF vm] by auto
  next
    case True
    obtain r vm' where r: "call_protected S ?f vs progr vm = Some (r, vm')" "state_ok S W vm'"
      "case r of None \<Rightarrow> calling S W vm' \<and> same_frames vm vm' | Some p \<Rightarrow> answer_ok S n vm 1 p vm'"
      using protected_call_safe [OF vm f(1) vs(2)] by blast
    then show ?thesis unfolding unf using True go_on [of vm'] by (cases r) auto
  qed
qed

end

end
