(* ===== verification/BuiltinSafety.thy ===== *)
theory BuiltinSafety
  imports FunctionSafety
begin

text \<open>
  The registered functions keep their contract: arguments of the right number and types give a value of the language, an
  error, or the call of a verb, and never a fault.
\<close>

subsection \<open>Arguments\<close>

fun types_fit :: "proto list \<Rightarrow> var list \<Rightarrow> bool" where
  "types_fit (t # types) (v # vs) = (proto_allows t (type_of v) \<and> types_fit types vs)"
| "types_fit _ _ = True"

definition args_fit :: "int \<Rightarrow> int \<Rightarrow> proto list \<Rightarrow> var list \<Rightarrow> bool" where
  "args_fit lo hi types vs \<longleftrightarrow> lo \<le> int (length vs) \<and> (hi = -1 \<or> int (length vs) \<le> hi) \<and> types_fit types vs"

lemma types_fitI: "(\<And>k. k < length vs \<Longrightarrow> k < length types \<Longrightarrow> proto_allows (types ! k) (type_of (vs ! k))) \<Longrightarrow> types_fit types vs"
proof (induction types vs rule: types_fit.induct)
  case (1 t types v vs)
  have "types_fit types vs" by (rule "1.IH") (use "1.prems" [of "Suc k" for k] in simp)
  then show ?case using "1.prems" [of 0] by simp
qed simp_all

lemma right_args_fit:
  assumes "right_args e vs" "bf_maxargs e = -1 \<longrightarrow> length (bf_prototype e) = nat (bf_minargs e)"
  shows "args_fit (bf_minargs e) (bf_maxargs e) (bf_prototype e) vs"
  using assms
  by (auto simp: right_args_def args_fit_def wrong_count_def wrong_type_def Let_def list_ex_iff split: if_splits intro!: types_fitI)

lemma typed [simp]:
  "TYPE_STR = type_of v \<longleftrightarrow> (\<exists>s. v = VStr s)" "TYPE_LIST = type_of v \<longleftrightarrow> (\<exists>l. v = VList l)"
  "TYPE_INT = type_of v \<longleftrightarrow> (\<exists>n. v = VInt n)" "TYPE_OBJ = type_of v \<longleftrightarrow> (\<exists>n. v = VObj n)"
  by (cases v; simp)+

text \<open>The shapes of the arguments for the prototypes that are used.\<close>

lemma fit_one: "args_fit 1 1 [t] vs \<Longrightarrow> \<exists>v. vs = [v] \<and> proto_allows t (type_of v)"
  by (cases vs) (auto simp: args_fit_def)

lemma fit_two: "args_fit 2 2 [t, u] vs \<Longrightarrow> \<exists>v w. vs = [v, w] \<and> proto_allows t (type_of v) \<and> proto_allows u (type_of w)"
  by (cases vs; cases "tl vs") (auto simp: args_fit_def)

lemma fit_three: "args_fit 3 3 [t, u, r] vs \<Longrightarrow>
    \<exists>v w x. vs = [v, w, x] \<and> proto_allows t (type_of v) \<and> proto_allows u (type_of w) \<and> proto_allows r (type_of x)"
  by (cases vs; cases "tl vs"; cases "tl (tl vs)") (auto simp: args_fit_def)

lemma fit_two_three: "args_fit 2 3 [t, u, r] vs \<Longrightarrow> \<exists>v w vs'. vs = v # w # vs' \<and> proto_allows t (type_of v) \<and> proto_allows u (type_of w) \<and>
    (vs' = [] \<or> (\<exists>x. vs' = [x] \<and> proto_allows r (type_of x)))"
  by (cases vs; cases "tl vs"; cases "tl (tl vs)") (auto simp: args_fit_def)

lemma fit_three_four: "args_fit 3 4 [t, u, r, s] vs \<Longrightarrow>
    \<exists>v w x vs'. vs = v # w # x # vs' \<and> proto_allows t (type_of v) \<and> proto_allows u (type_of w) \<and> proto_allows r (type_of x)"
  by (cases vs; cases "tl vs"; cases "tl (tl vs)") (auto simp: args_fit_def)

lemma fit_one_two: "args_fit 1 2 [t, u] vs \<Longrightarrow> \<exists>v vs'. vs = v # vs' \<and> proto_allows t (type_of v)"
  by (cases vs) (auto simp: args_fit_def)

lemma fit_one_more: "args_fit 1 (-1) [t] vs \<Longrightarrow> \<exists>v vs'. vs = v # vs' \<and> proto_allows t (type_of v)"
  by (cases vs) (auto simp: args_fit_def)

lemma fit_upto_one: "args_fit 0 1 [t] vs \<Longrightarrow> vs = [] \<or> (\<exists>v. vs = [v] \<and> proto_allows t (type_of v))"
  by (cases vs) (auto simp: args_fit_def)

subsection \<open>Functions of their arguments\<close>

definition answers_plainly :: "int \<Rightarrow> int \<Rightarrow> proto list \<Rightarrow> (var list \<Rightarrow> package option) \<Rightarrow> bool" where
  "answers_plainly lo hi types f \<longleftrightarrow> (\<forall>vs. (\<forall>v \<in> set vs. user_value v) \<longrightarrow> small_value (VList vs) \<longrightarrow> args_fit lo hi types vs \<longrightarrow>
    (\<exists>p. f vs = Some p \<and> plain_answer p))"

lemma answers_plainlyI: "(\<And>vs. \<forall>v \<in> set vs. user_value v \<Longrightarrow> small_value (VList vs) \<Longrightarrow> args_fit lo hi types vs \<Longrightarrow>
    \<exists>p. f vs = Some p \<and> plain_answer p) \<Longrightarrow> answers_plainly lo hi types f"
  by (simp add: answers_plainly_def)

lemmas fit_shapes = fit_one fit_two fit_three fit_two_three fit_three_four fit_one_two fit_one_more fit_upto_one

lemma int32_of_small: "0 \<le> n \<Longrightarrow> n \<le> m \<Longrightarrow> m < 2 ^ 31 - 1 \<Longrightarrow> to_int32 n = n"
  by (rule to_int32_id) (simp add: is_int32_def)

lemma ismember_user:
  assumes "user_value v" "\<forall>x \<in> set l. user_value x"
  shows "\<exists>i. ismember v l cm = Inr i \<and> 0 \<le> i \<and> i \<le> int (length l)"
proof -
  have "\<exists>i. ismember_from k v l cm = Inr i \<and> 0 \<le> i \<and> i < k + int (length l)" if "1 \<le> k" for k
    using assms that
  proof (induction l arbitrary: k)
    case (Cons x l)
    have "ok (equality v x cm) \<noteq> None" using equality_total Cons.prems by simp
    then obtain b where "equality v x cm = Inr b" by (cases "equality v x cm") auto
    then show ?case using Cons.IH [of "k + 1"] Cons.prems by (cases b) auto
  qed simp
  from this [of 1] show ?thesis by (auto simp: ismember_def)
qed

lemma user_listinsert: "user_value v \<Longrightarrow> \<forall>x \<in> set l. user_value x \<Longrightarrow> \<exists>r. listinsert l v n = Inr r \<and> (\<forall>x \<in> set r. user_value x)"
  by (auto simp: listinsert_def doinsert_def dest: in_set_takeD in_set_dropD)

lemma user_listappend: "user_value v \<Longrightarrow> \<forall>x \<in> set l. user_value x \<Longrightarrow> \<exists>r. listappend l v = Inr r \<and> (\<forall>x \<in> set r. user_value x)"
  by auto

lemma user_listdelete: "\<forall>x \<in> set l. user_value x \<Longrightarrow> 1 \<le> n \<Longrightarrow> n \<le> int (length l) \<Longrightarrow>
    \<exists>r. listdelete l n = Inr r \<and> (\<forall>x \<in> set r. user_value x)"
  by (auto simp: listdelete_def dest: in_set_takeD in_set_dropD)

lemma user_setadd: "user_value v \<Longrightarrow> \<forall>x \<in> set l. user_value x \<Longrightarrow> \<exists>r. setadd l v = Inr r \<and> (\<forall>x \<in> set r. user_value x)"
  using ismember_user [of v l False] by (auto simp: setadd_def)

lemma user_setadd_all: "\<forall>x \<in> set vs. user_value x \<Longrightarrow> \<forall>x \<in> set l. user_value x \<Longrightarrow> \<exists>r. setadd_all l vs = Inr r \<and> (\<forall>x \<in> set r. user_value x)"
proof (induction vs arbitrary: l)
  case (Cons v vs)
  then obtain r where "setadd l v = Inr r" "\<forall>x \<in> set r. user_value x" using user_setadd [of v l] by auto
  then show ?case using Cons by simp
qed simp

lemma user_setremove: "user_value v \<Longrightarrow> \<forall>x \<in> set l. user_value x \<Longrightarrow> \<exists>r. setremove l v = Inr r \<and> (\<forall>x \<in> set r. user_value x)"
  using ismember_user [of v l False] user_listdelete [of l] by (fastforce simp: setremove_def)

lemma assoc_matches_total: "user_value v \<Longrightarrow> user_value e \<Longrightarrow> 1 \<le> n \<Longrightarrow> \<exists>b. assoc_matches v n e = Inr b"
proof (cases e)
  case (VList vs)
  assume a: "user_value v" "user_value e" "1 \<le> n"
  then have "ok (equality (vs ! nat (n - 1)) v False) \<noteq> None" if "n \<le> int (length vs)"
    using VList that by (intro equality_total) auto
  then show ?thesis using VList a by (cases "equality (vs ! nat (n - 1)) v False") (auto simp: assoc_matches_def)
qed (auto simp: assoc_matches_def)

lemma list_iassoc_total: "user_value v \<Longrightarrow> \<forall>e \<in> set l. user_value e \<Longrightarrow> 1 \<le> n \<Longrightarrow> \<exists>i. list_iassoc_from k v l n = Inr i"
proof (induction l arbitrary: k)
  case (Cons e l)
  then obtain b where "assoc_matches v n e = Inr b" using assoc_matches_total by fastforce
  then show ?case using Cons by (cases b) auto
qed simp

lemma list_assoc_total: "user_value v \<Longrightarrow> \<forall>e \<in> set l. user_value e \<Longrightarrow> 1 \<le> n \<Longrightarrow> \<exists>r. list_assoc v l n = Inr r \<and> user_value r"
proof (induction l)
  case (Cons e l)
  then obtain b where "assoc_matches v n e = Inr b" using assoc_matches_total by fastforce
  then show ?case using Cons by (cases b) auto
qed simp

lemma plain_list [simp]: "\<forall>x \<in> set r. user_value x \<Longrightarrow> \<exists>p. ok (ret_list r) = Some p \<and> plain_answer p"
  by (simp add: ret_list_def)

lemma plain_if: "(b \<Longrightarrow> plain_answer p) \<Longrightarrow> (\<not> b \<Longrightarrow> \<exists>q. ok f = Some q \<and> plain_answer q) \<Longrightarrow>
    \<exists>q. ok (if b then Inr p else f) = Some q \<and> plain_answer q"
  by simp

lemma user_update: "\<forall>x \<in> set l. user_value x \<Longrightarrow> user_value v \<Longrightarrow> \<forall>x \<in> set (l[i := v]). user_value x"
  by (auto dest!: set_update_subset_insert [THEN subsetD])

lemma plain_bind: "\<exists>r. x = Inr r \<and> (\<forall>x \<in> set r. user_value x) \<Longrightarrow> \<exists>p. ok (bind_res x ret_list) = Some p \<and> plain_answer p"
  by auto

lemma bf_setadd_plain: "answers_plainly 2 2 [Proto TYPE_LIST, TYPE_ANY] (\<lambda>vs. ok (bf_setadd vs))"
proof (rule answers_plainlyI)
  fix vs assume a: "\<forall>v \<in> set vs. user_value v" "args_fit 2 2 [Proto TYPE_LIST, TYPE_ANY] vs"
  obtain l v where "vs = [VList l, v]" using fit_two [OF a(2)] by auto
  then show "\<exists>p. ok (bf_setadd vs) = Some p \<and> plain_answer p"
    using plain_bind [OF user_setadd [of v l]] a(1) by (simp add: bf_setadd_def)
qed

lemma bf_setremove_plain: "answers_plainly 2 2 [Proto TYPE_LIST, TYPE_ANY] (\<lambda>vs. ok (bf_setremove vs))"
proof (rule answers_plainlyI)
  fix vs assume a: "\<forall>v \<in> set vs. user_value v" "args_fit 2 2 [Proto TYPE_LIST, TYPE_ANY] vs"
  obtain l v where "vs = [VList l, v]" using fit_two [OF a(2)] by auto
  then show "\<exists>p. ok (bf_setremove vs) = Some p \<and> plain_answer p"
    using plain_bind [OF user_setremove [of v l]] a(1) by (simp add: bf_setremove_def)
qed

lemma insert_shape:
  assumes "args_fit 2 3 [Proto TYPE_LIST, TYPE_ANY, Proto TYPE_INT] vs"
  obtains l v where "vs = [VList l, v]" | l v n where "vs = [VList l, v, VInt n]"
  using fit_two_three [OF assms] by auto

lemma bf_listappend_plain: "answers_plainly 2 3 [Proto TYPE_LIST, TYPE_ANY, Proto TYPE_INT] (\<lambda>vs. ok (bf_listappend vs))"
proof (rule answers_plainlyI)
  fix vs assume a: "\<forall>v \<in> set vs. user_value v" "args_fit 2 3 [Proto TYPE_LIST, TYPE_ANY, Proto TYPE_INT] vs"
  from a(2) show "\<exists>p. ok (bf_listappend vs) = Some p \<and> plain_answer p"
    by (cases rule: insert_shape) (use plain_bind [OF user_listinsert] plain_bind [OF user_listappend] a(1) in \<open>simp_all add: bf_listappend_def\<close>)
qed

lemma bf_listinsert_plain: "answers_plainly 2 3 [Proto TYPE_LIST, TYPE_ANY, Proto TYPE_INT] (\<lambda>vs. ok (bf_listinsert vs))"
proof (rule answers_plainlyI)
  fix vs assume a: "\<forall>v \<in> set vs. user_value v" "args_fit 2 3 [Proto TYPE_LIST, TYPE_ANY, Proto TYPE_INT] vs"
  from a(2) show "\<exists>p. ok (bf_listinsert vs) = Some p \<and> plain_answer p"
    by (cases rule: insert_shape) (use plain_bind [OF user_listinsert] a(1) in \<open>simp_all add: bf_listinsert_def\<close>)
qed

lemma bf_listdelete_plain: "answers_plainly 2 2 [Proto TYPE_LIST, Proto TYPE_INT] (\<lambda>vs. ok (bf_listdelete vs))"
proof (rule answers_plainlyI)
  fix vs assume a: "\<forall>v \<in> set vs. user_value v" "small_value (VList vs)" "args_fit 2 2 [Proto TYPE_LIST, Proto TYPE_INT] vs"
  obtain l n where vs: "vs = [VList l, VInt n]" using fit_two [OF a(3)] by auto
  have "\<exists>r. listdelete l (to_int32 n) = Inr r \<and> (\<forall>x \<in> set r. user_value x)" if "\<not> (n \<le> 0 \<or> n > int (length l))"
    using user_listdelete [of l n] int32_of_small [of n "int (length l)"] a vs that by auto
  then show "\<exists>p. ok (bf_listdelete vs) = Some p \<and> plain_answer p" using plain_bind vs by (simp add: bf_listdelete_def)
qed

lemma bf_listset_plain: "answers_plainly 3 3 [Proto TYPE_LIST, TYPE_ANY, Proto TYPE_INT] (\<lambda>vs. ok (bf_listset vs))"
proof (rule answers_plainlyI)
  fix vs assume a: "\<forall>v \<in> set vs. user_value v" "small_value (VList vs)" "args_fit 3 3 [Proto TYPE_LIST, TYPE_ANY, Proto TYPE_INT] vs"
  obtain l v n where vs: "vs = [VList l, v, VInt n]" using fit_three [OF a(3)] by auto
  have "\<exists>r. listset l v (to_int32 n) = Inr r \<and> (\<forall>x \<in> set r. user_value x)" if "\<not> (n \<le> 0 \<or> n > int (length l))"
    using user_update [of l v] int32_of_small [of n "int (length l)"] a vs that by (auto simp: listset_def)
  then show "\<exists>p. ok (bf_listset vs) = Some p \<and> plain_answer p" using plain_bind vs by (simp add: bf_listset_def)
qed

lemma bf_remove_duplicates_plain: "answers_plainly 1 1 [Proto TYPE_LIST] (\<lambda>vs. ok (bf_remove_duplicates vs))"
proof (rule answers_plainlyI)
  fix vs assume a: "\<forall>v \<in> set vs. user_value v" "args_fit 1 1 [Proto TYPE_LIST] vs"
  obtain l where "vs = [VList l]" using fit_one [OF a(2)] by auto
  then show "\<exists>p. ok (bf_remove_duplicates vs) = Some p \<and> plain_answer p"
    using plain_bind [OF user_setadd_all [of l "[]"]] a(1) by (simp add: bf_remove_duplicates_def remove_duplicates_def)
qed

lemma bf_membership_plain:
  "answers_plainly 2 2 [TYPE_ANY, TYPE_ANY] (\<lambda>vs. ok (bf_equal vs))"
  "answers_plainly 2 2 [TYPE_ANY, Proto TYPE_LIST] (\<lambda>vs. ok (bf_is_member vs))"
proof -
  show "answers_plainly 2 2 [TYPE_ANY, TYPE_ANY] (\<lambda>vs. ok (bf_equal vs))"
  proof (rule answers_plainlyI)
    fix vs assume a: "\<forall>v \<in> set vs. user_value v" "args_fit 2 2 [TYPE_ANY, TYPE_ANY] vs"
    obtain v w where vs: "vs = [v, w]" using fit_two [OF a(2)] by auto
    then have "ok (equality v w True) \<noteq> None" using equality_total a(1) by simp
    then show "\<exists>p. ok (bf_equal vs) = Some p \<and> plain_answer p"
      using vs by (cases "equality v w True") (auto simp: bf_equal_def ret_bool_def)
  qed
  show "answers_plainly 2 2 [TYPE_ANY, Proto TYPE_LIST] (\<lambda>vs. ok (bf_is_member vs))"
  proof (rule answers_plainlyI)
    fix vs assume a: "\<forall>v \<in> set vs. user_value v" "args_fit 2 2 [TYPE_ANY, Proto TYPE_LIST] vs"
    obtain v l where vs: "vs = [v, VList l]" using fit_two [OF a(2)] by auto
    then obtain i where "ismember v l True = Inr i" using ismember_user [of v l True] a(1) by auto
    then show "\<exists>p. ok (bf_is_member vs) = Some p \<and> plain_answer p" using vs by (simp add: bf_is_member_def)
  qed
qed

lemma assoc_index:
  assumes "args_fit 2 3 [TYPE_ANY, Proto TYPE_LIST, Proto TYPE_INT] vs"
  obtains v l where "vs = [v, VList l]" | v l n where "vs = [v, VList l, VInt n]"
  using fit_two_three [OF assms] by auto

lemma bf_assoc_plain:
  "answers_plainly 2 3 [TYPE_ANY, Proto TYPE_LIST, Proto TYPE_INT] (\<lambda>vs. ok (bf_iassoc vs))"
  "answers_plainly 2 3 [TYPE_ANY, Proto TYPE_LIST, Proto TYPE_INT] (\<lambda>vs. ok (bf_assoc vs))"
proof -
  have i: "\<exists>p. ok (bind_res (list_iassoc v l k) (\<lambda>n. Inr (make_var_pack (VInt n)))) = Some p \<and> plain_answer p"
    and s: "\<exists>p. ok (bind_res (list_assoc v l k) (\<lambda>r. Inr (make_var_pack r))) = Some p \<and> plain_answer p"
    if "user_value v" "\<forall>e \<in> set l. user_value e" "\<not> k < 1" for v l k
    using list_iassoc_total [OF that(1,2), of k 1] list_assoc_total [OF that(1,2), of k] that(3) by (auto simp: list_iassoc_def)
  show "answers_plainly 2 3 [TYPE_ANY, Proto TYPE_LIST, Proto TYPE_INT] (\<lambda>vs. ok (bf_iassoc vs))"
  proof (rule answers_plainlyI)
    fix vs assume a: "\<forall>v \<in> set vs. user_value v" "args_fit 2 3 [TYPE_ANY, Proto TYPE_LIST, Proto TYPE_INT] vs"
    from a(2) show "\<exists>p. ok (bf_iassoc vs) = Some p \<and> plain_answer p"
      by (cases rule: assoc_index) (use i a(1) in \<open>simp_all add: bf_iassoc_def Let_def\<close>)
  qed
  show "answers_plainly 2 3 [TYPE_ANY, Proto TYPE_LIST, Proto TYPE_INT] (\<lambda>vs. ok (bf_assoc vs))"
  proof (rule answers_plainlyI)
    fix vs assume a: "\<forall>v \<in> set vs. user_value v" "args_fit 2 3 [TYPE_ANY, Proto TYPE_LIST, Proto TYPE_INT] vs"
    from a(2) show "\<exists>p. ok (bf_assoc vs) = Some p \<and> plain_answer p"
      by (cases rule: assoc_index) (use s a(1) in \<open>simp_all add: bf_assoc_def Let_def\<close>)
  qed
qed

end
