(* ===== verification/TextSafety.thy ===== *)
theory TextSafety
  imports BuiltinSafety
begin

text \<open>The registered functions on strings and numbers keep their contract.\<close>

subsection \<open>Strings without a NUL\<close>

lemma c_string_chars [simp]: "c_string []" "c_string (c # s) \<longleftrightarrow> c \<noteq> CHR 0x00 \<and> c_string s" "c_string (s @ t) \<longleftrightarrow> c_string s \<and> c_string t"
  by (auto simp: c_string_def)

lemma byte_nonzero: "0 < n \<Longrightarrow> n < 256 \<Longrightarrow> byte n \<noteq> CHR 0x00"
proof
  assume n: "0 < n" "n < 256" and "byte n = CHR 0x00"
  then have "code (byte n) = 0" by (simp add: code_def)
  then show False using n by (simp add: byte_def code_def)
qed

lemma digit_nonzero: "d < 10 \<Longrightarrow> digit d \<noteq> CHR 0x00"
  unfolding digit_def by (rule byte_nonzero) auto

lemma c_string_show_nat [simp]: "c_string (show_nat n)"
proof (induction n rule: show_nat.induct)
  case (1 n)
  then show ?case using digit_nonzero by (subst show_nat.simps) auto
qed

lemma c_string_show_num [simp]: "c_string (show_num n)"
  by (simp add: show_num_def)

lemma c_string_float [simp]: "c_string (fmt d) \<Longrightarrow> c_string (float2str fmt d)"
  by (simp add: float2str_def Let_def)

lemma c_string_quote_chars: "c_string s \<Longrightarrow> c_string (quote_chars s)"
  by (induction s) (auto simp: Let_def)

lemma c_string_quote [simp]: "c_string s \<Longrightarrow> c_string (string_quote s)"
  by (simp add: string_quote_def c_string_quote_chars)

lemma c_string_error_name [simp]: "c_string (error_name e)"
  by (cases e) simp_all

lemma c_string_print:
  "\<forall>d. c_string (fmt d) \<Longrightarrow> user_value v \<Longrightarrow> c_string (print_to_stream fmt waif v)"
  "\<forall>d. c_string (fmt d) \<Longrightarrow> \<forall>v \<in> set vs. user_value v \<Longrightarrow> c_string sep \<Longrightarrow> c_string (print_list fmt waif sep vs)"
  by (induction fmt waif v and fmt waif sep vs rule: print_to_stream_print_list.induct) simp_all

lemma list2str_total:
  assumes "\<And>d. c_string (fmt d)"
  shows "\<forall>v \<in> set vs. user_value v \<Longrightarrow> \<exists>s. list2str fmt vs = Inr s \<and> c_string s"
proof (induction vs)
  case (Cons v vs)
  have "\<exists>s. list2str_one fmt v = Inr s \<and> c_string s" using Cons.prems assms by (cases v) auto
  then show ?case using Cons by auto
qed simp

lemma strsub_c_string: "what \<noteq> [] \<Longrightarrow> c_string source \<Longrightarrow> c_string w \<Longrightarrow> \<exists>t. strsub source what w cc = Some t \<and> c_string t"
proof (induction source rule: length_induct)
  case (1 source)
  show ?case
  proof (cases source)
    case (Cons c rest)
    have d: "c_string (drop (length what) source)" "c_string rest"
      using "1.prems"(2) Cons by (auto simp: c_string_def dest: in_set_dropD)
    obtain t where "strsub (drop (length what) source) what w cc = Some t" "c_string t"
      using "1.IH" [rule_format, of "drop (length what) source"] "1.prems" d(1) Cons by auto
    moreover obtain u where "strsub rest what w cc = Some u" "c_string u"
      using "1.IH" [rule_format, of rest] "1.prems" d(2) Cons by auto
    ultimately show ?thesis using "1.prems" Cons by (subst strsub.simps) simp
  qed simp
qed

lemma decode_chunks_user: "c_string s \<Longrightarrow> \<forall>v \<in> set (decode_chunks s b bs). user_value v"
proof (induction s b bs rule: decode_chunks.induct)
  case (2 s b c bs)
  have "c \<noteq> CHR 0x00" if "is_text c" using that by (auto simp: is_text_def code_def Let_def)
  then show ?case using 2 by auto
qed simp

lemma sub_text_c_string: "c_string subject \<Longrightarrow> c_string (sub_text subject p)"
  by (auto simp: sub_text_def Let_def c_string_def dest: in_set_takeD in_set_dropD)

subsection \<open>Functions\<close>

lemma answers_plainlyI':
  assumes "\<And>vs. \<forall>v \<in> set vs. user_value v \<Longrightarrow> args_fit lo hi types vs \<Longrightarrow> \<exists>p. f vs = Some p \<and> plain_answer p"
  shows "answers_plainly lo hi types f"
  using assms by (simp add: answers_plainly_def)

lemma bf_decode_binary_plain: "answers_plainly 1 2 [Proto TYPE_STR, TYPE_ANY] (\<lambda>vs. ok (bf_decode_binary vs))"
proof (rule answers_plainlyI')
  fix vs assume a: "\<forall>v \<in> set vs. user_value v" "args_fit 1 2 [Proto TYPE_STR, TYPE_ANY] vs"
  obtain s ws where vs: "vs = VStr s # ws" using fit_one_two [OF a(2)] by auto
  have len: "length (decode_chunks [] False bs) = count_chunks False bs" for bs using count_decode [of "[]" False bs] by simp
  have "\<forall>v \<in> set (decode_chunks [] False bs). user_value v" for bs by (rule decode_chunks_user) simp
  then show "\<exists>p. ok (bf_decode_binary vs) = Some p \<and> plain_answer p"
    unfolding vs by (simp add: bf_decode_binary_def len Let_def ret_list_def split: option.split)
qed

lemma bf_encode_binary_plain: "answers_plainly 0 (-1) [] (\<lambda>vs. Some (bf_encode_binary vs))"
  by (rule answers_plainlyI') (simp add: bf_encode_binary_def raw_bytes_to_binary_c_string split: prod.split)

lemma bf_tostr_plain: "\<forall>d. c_string (fmt d) \<Longrightarrow> answers_plainly 0 (-1) [] (\<lambda>vs. ok (bf_tostr fmt vs))"
proof (rule answers_plainlyI')
  fix vs assume "\<forall>d. c_string (fmt d)" "\<forall>v \<in> set vs. user_value v"
  then obtain s where "list2str fmt vs = Inr s" "c_string s" using list2str_total [of fmt vs] by auto
  then show "\<exists>p. ok (bf_tostr fmt vs) = Some p \<and> plain_answer p" by (simp add: bf_tostr_def)
qed

lemma bf_toliteral_plain: "\<forall>d. c_string (fmt d) \<Longrightarrow> answers_plainly 1 1 [TYPE_ANY] (\<lambda>vs. Some (bf_toliteral fmt waif vs))"
  by (rule answers_plainlyI', drule fit_one) (auto simp: bf_toliteral_def value_to_literal_def c_string_print)

lemma bf_values_plain:
  "answers_plainly 1 1 [TYPE_ANY] (\<lambda>vs. Some (bf_value_bytes wb vs))"
  "answers_plainly 1 1 [TYPE_ANY] (\<lambda>vs. ok (bf_enlist vs))"
  "answers_plainly 1 1 [TYPE_ANY] (\<lambda>vs. Some (bf_length vs))"
proof -
  show "answers_plainly 1 1 [TYPE_ANY] (\<lambda>vs. Some (bf_value_bytes wb vs))"
    by (rule answers_plainlyI') (simp add: bf_value_bytes_def)
  show "answers_plainly 1 1 [TYPE_ANY] (\<lambda>vs. ok (bf_enlist vs))"
    by (rule answers_plainlyI', drule fit_one) (auto simp: bf_enlist_def ret_list_def)
  have "plain_answer (bf_length [v])" for v by (cases v) simp_all
  then show "answers_plainly 1 1 [TYPE_ANY] (\<lambda>vs. Some (bf_length vs))"
    by (intro answers_plainlyI', drule_tac fit_one) auto
qed

lemma str_str:
  assumes "args_fit 2 2 [Proto TYPE_STR, Proto TYPE_STR] vs"
  obtains s t where "vs = [VStr s, VStr t]"
  using fit_two [OF assms] by auto

lemma bf_strings_plain:
  "answers_plainly 2 2 [Proto TYPE_STR, Proto TYPE_STR] (\<lambda>vs. ok (bf_strcmp vs))"
  "answers_plainly 2 3 [Proto TYPE_STR, Proto TYPE_STR, TYPE_ANY] (\<lambda>vs. ok (bf_index vs))"
  "answers_plainly 1 1 [Proto TYPE_STR] (\<lambda>vs. ok (bf_ord vs))"
proof -
  show "answers_plainly 2 2 [Proto TYPE_STR, Proto TYPE_STR] (\<lambda>vs. ok (bf_strcmp vs))"
    by (rule answers_plainlyI') (auto simp: bf_strcmp_def elim: str_str)
  show "answers_plainly 2 3 [Proto TYPE_STR, Proto TYPE_STR, TYPE_ANY] (\<lambda>vs. ok (bf_index vs))"
    by (rule answers_plainlyI', drule fit_two_three) (auto simp: bf_index_def)
  show "answers_plainly 1 1 [Proto TYPE_STR] (\<lambda>vs. ok (bf_ord vs))"
    by (rule answers_plainlyI', drule fit_one) (auto simp: bf_ord_def split: prod.split)
qed

lemma bf_strsub_plain: "answers_plainly 3 4 [Proto TYPE_STR, Proto TYPE_STR, Proto TYPE_STR, TYPE_ANY] (\<lambda>vs. ok (bf_strsub vs))"
proof (rule answers_plainlyI')
  fix vs assume a: "\<forall>v \<in> set vs. user_value v" "args_fit 3 4 [Proto TYPE_STR, Proto TYPE_STR, Proto TYPE_STR, TYPE_ANY] vs"
  obtain s w u ws where vs: "vs = VStr s # VStr w # VStr u # ws" using fit_three_four [OF a(2)] by auto
  show "\<exists>p. ok (bf_strsub vs) = Some p \<and> plain_answer p"
  proof (cases "w = []")
    case False
    then obtain t where "strsub s w u (case_flag vs 4) = Some t" "c_string t"
      using strsub_c_string [of w s u "case_flag vs 4"] a(1) vs by auto
    then show ?thesis using vs False by (simp add: bf_strsub_def)
  qed (use vs in \<open>simp add: bf_strsub_def\<close>)
qed

lemma no_Cons: "(\<forall>x xs. ys \<noteq> x # xs) \<longleftrightarrow> ys = []"
  by (cases ys) auto

lemma check_subsD: "\<not> check_subs_list subs \<Longrightarrow> \<exists>a b pairs s. subs = VList [VInt a, VInt b, VList pairs, VStr s] \<and> length pairs = 9 \<and>
    (\<forall>p \<in> set pairs. \<not> bad_pair (strlen_utf s) p)"
  unfolding check_subs_list_def by (auto simp: neq_Nil_conv no_Cons split: var.split_asm list.split_asm)

lemma not_bad_pair: "\<not> bad_pair n p \<Longrightarrow> \<exists>c d. p = VList [VInt c, VInt d]"
  unfolding bad_pair_def by (auto simp: neq_Nil_conv no_Cons split: var.split_asm list.split_asm)

lemma sub_pair_total:
  assumes "\<not> check_subs_list subs" "n \<le> 9"
  shows "\<exists>p. sub_pair subs n = Some p"
proof -
  obtain a b pairs s where subs: "subs = VList [VInt a, VInt b, VList pairs, VStr s]" "length pairs = 9"
    "\<forall>p \<in> set pairs. \<not> bad_pair (strlen_utf s) p"
    using check_subsD [OF assms(1)] by blast
  have "\<exists>c d. pairs ! (n - 1) = VList [VInt c, VInt d]" if "n \<noteq> 0"
  proof -
    have "pairs ! (n - 1) \<in> set pairs" using subs(2) assms(2) that by (intro nth_mem) auto
    then have "\<not> bad_pair (strlen_utf s) (pairs ! (n - 1))" using subs(3) by blast
    then show ?thesis by (rule not_bad_pair)
  qed
  then show ?thesis using subs assms(2) by (auto simp: sub_pair_def)
qed

lemma substitute_total:
  assumes "\<not> check_subs_list subs" "c_string subject"
  shows "c_string tmpl \<Longrightarrow> \<exists>r. substitute subs subject tmpl = Inr r \<and> (\<forall>s. r = Some s \<longrightarrow> c_string s)"
proof (induction tmpl rule: length_induct)
  case (1 tmpl)
  show ?case
  proof (cases tmpl)
    case (Cons c t)
    show ?thesis
    proof (cases "c = CHR ''%''")
      case False
      obtain r where "substitute subs subject t = Inr r" "\<forall>s. r = Some s \<longrightarrow> c_string s"
        using "1.IH" [rule_format, of t] "1.prems" Cons by auto
      then show ?thesis using False Cons "1.prems" by auto
    next
      case pc: True
      show ?thesis
      proof (cases t)
        case (Cons d t')
        obtain r where r: "substitute subs subject t' = Inr r" "\<forall>s. r = Some s \<longrightarrow> c_string s"
          using "1.IH" [rule_format, of t'] "1.prems" \<open>tmpl = c # t\<close> Cons by auto
        have "\<exists>p. sub_pair subs (nat (code d - 48)) = Some p" if "48 \<le> code d" "code d \<le> 57"
          using sub_pair_total [OF assms(1)] that by auto
        then show ?thesis using r Cons \<open>tmpl = c # t\<close> pc sub_text_c_string [OF assms(2)] by auto
      qed (use \<open>tmpl = c # t\<close> pc in auto)
    qed
  qed simp
qed

lemma bf_substitute_plain: "answers_plainly 2 2 [Proto TYPE_STR, Proto TYPE_LIST] (\<lambda>vs. ok (bf_substitute vs))"
proof (rule answers_plainlyI')
  fix vs assume a: "\<forall>v \<in> set vs. user_value v" "args_fit 2 2 [Proto TYPE_STR, Proto TYPE_LIST] vs"
  obtain t l where vs: "vs = [VStr t, VList l]" using fit_two [OF a(2)] by auto
  show "\<exists>p. ok (bf_substitute vs) = Some p \<and> plain_answer p"
  proof (cases "check_subs_list (VList l)")
    case False
    then obtain x y z s where l: "l = [x, y, z, VStr s]" using check_subsD [of "VList l"] by auto
    obtain r where "substitute (VList l) s t = Inr r" "\<forall>u. r = Some u \<longrightarrow> c_string u"
      using substitute_total [OF False, of s t] a(1) vs l by auto
    then show ?thesis using vs False l by (cases r) (auto simp: bf_substitute_def)
  qed (use vs in \<open>simp add: bf_substitute_def\<close>)
qed

end
