(* ===== verification/RegistrySafety.thy ===== *)
theory RegistrySafety
  imports TextSafety
begin

text \<open>
  The whole registry keeps the contract of the interpreter, so that a server with it does: the calls of built-in functions
  in \<open>server_contract\<close> are discharged by the modelled functions.
\<close>

subsection \<open>Functions on numbers\<close>

lemma plain_number: "number_or_error v \<Longrightarrow> \<exists>p. plain_answer p"
  by (intro exI [of _ no_var_pack]) simp

lemma min_max_plain: "answers_plainly 1 (-1) [TYPE_NUMERIC] (\<lambda>vs. Some (min_max ilt flt vs))"
proof (rule answers_plainlyI')
  fix vs assume a: "\<forall>v \<in> set vs. user_value v" "args_fit 1 (-1) [TYPE_NUMERIC] vs"
  obtain v ws where vs: "vs = v # ws" using fit_one_more [OF a(2)] by auto
  have "user_value (fst (fold (keep_better ilt flt) ws (r, b)))" if "user_value r" "\<forall>w \<in> set ws. user_value w" for r b
    using that
  proof (induction ws arbitrary: r b)
    case (Cons w ws)
    have "user_value (fst (keep_better ilt flt w (r, b)))" using Cons.prems by (auto simp: keep_better_def split: var.split)
    then show ?case using Cons.IH [of "fst (keep_better ilt flt w (r, b))" "snd (keep_better ilt flt w (r, b))"] Cons.prems by simp
  qed simp
  then show "\<exists>p. Some (min_max ilt flt vs) = Some p \<and> plain_answer p"
    using a(1) vs by (auto simp: min_max_def split: prod.split) (metis fst_conv)
qed

lemma number_functions_plain:
  "answers_plainly 1 1 [TYPE_ANY] (\<lambda>vs. Some (bf_toint F vs))"
  "answers_plainly 1 1 [TYPE_ANY] (\<lambda>vs. Some (bf_tofloat F vs))"
  "answers_plainly 1 (-1) [TYPE_NUMERIC] (\<lambda>vs. Some (bf_min vs))"
  "answers_plainly 1 (-1) [TYPE_NUMERIC] (\<lambda>vs. Some (bf_max vs))"
  "answers_plainly 1 1 [TYPE_NUMERIC] (\<lambda>vs. Some (bf_abs F vs))"
  "answers_plainly 0 1 [Proto TYPE_INT] (\<lambda>vs. Some (bf_random rnd vs))"
proof -
  show "answers_plainly 1 1 [TYPE_ANY] (\<lambda>vs. Some (bf_toint F vs))"
    by (rule answers_plainlyI') (simp add: bf_toint_def split: sum.split)
  show "answers_plainly 1 1 [TYPE_ANY] (\<lambda>vs. Some (bf_tofloat F vs))"
    by (rule answers_plainlyI') (simp add: bf_tofloat_def split: sum.split)
  show "answers_plainly 1 (-1) [TYPE_NUMERIC] (\<lambda>vs. Some (bf_min vs))"
    unfolding bf_min_def by (rule min_max_plain)
  show "answers_plainly 1 (-1) [TYPE_NUMERIC] (\<lambda>vs. Some (bf_max vs))"
    unfolding bf_max_def by (rule min_max_plain)
  have "user_value v \<Longrightarrow> plain_answer (bf_abs F [v])" for v by (cases v) (simp_all add: bf_abs_def)
  then show "answers_plainly 1 1 [TYPE_NUMERIC] (\<lambda>vs. Some (bf_abs F vs))"
    by (intro answers_plainlyI', drule_tac fit_one) auto
  show "answers_plainly 0 1 [Proto TYPE_INT] (\<lambda>vs. Some (bf_random rnd vs))"
    by (rule answers_plainlyI') (simp add: bf_random_def Let_def split: prod.split)
qed

subsection \<open>Functions on the machine\<close>

lemma on_args_safe:
  assumes "\<And>vm. calling S W vm \<Longrightarrow> answers_plainly lo hi types (f vm)"
  shows "func_safe S W n (args_fit lo hi types) (on_args f)"
  unfolding func_safe_def
proof (intro allI impI)
  fix vm vs and data :: nat and progr :: objid
  assume vm: "calling S W vm" and vs: "\<forall>v \<in> set vs. user_value v" "small_value (VList vs)" "args_fit lo hi types vs"
  then obtain p where "f vm vs = Some p" "plain_answer p" using assms [OF vm] unfolding answers_plainly_def by blast
  moreover have "same_frames vm vm" "state_ok S W vm" using vm calling_frames by (auto simp: calling_def)
  ultimately show "\<exists>p vm'. on_args f (VList vs) 1 data progr vm = Some (p, vm') \<and> state_ok S W vm' \<and> answer_ok S n vm 1 p vm'"
    by (simp add: on_args_def plain_answer_ok)
qed

lemma on_vm_safe:
  assumes "\<And>vm vs progr. calling S W vm \<Longrightarrow> \<forall>v \<in> set vs. user_value v \<Longrightarrow> args_fit lo hi types vs \<Longrightarrow>
    \<exists>p vm'. f progr vs vm = Some (p, vm') \<and> state_ok S W vm' \<and> answer_ok S n vm 1 p vm'"
  shows "func_safe S W n (args_fit lo hi types) (on_vm f)"
  using assms by (simp add: func_safe_def on_vm_def)

lemma bf_raise_plain:
  assumes "\<forall>d. c_string (fmt d)"
  shows "answers_plainly 1 3 [TYPE_ANY, Proto TYPE_STR, TYPE_ANY] (bf_raise fmt)"
proof (rule answers_plainlyI')
  fix vs assume a: "\<forall>v \<in> set vs. user_value v" "args_fit 1 3 [TYPE_ANY, Proto TYPE_STR, TYPE_ANY] vs"
  obtain c ws where vs: "vs = c # ws" using a(2) by (cases vs) (auto simp: args_fit_def)
  show "\<exists>p. bf_raise fmt vs = Some p \<and> plain_answer p"
  proof (cases ws)
    case Nil
    obtain s where "value2str fmt c = Inr s" "c_string s" using list2str_total [of fmt "[c]"] assms a(1) vs by (auto simp: value2str_def)
    then show ?thesis using vs Nil a(1) by (simp add: bf_raise_def plain_answer_def zero_value_def)
  next
    case (Cons m us)
    then obtain s where "m = VStr s" using a(2) vs by (auto simp: args_fit_def)
    then show ?thesis using vs Cons a(1) by (cases us) (auto simp: bf_raise_def plain_answer_def zero_value_def)
  qed
qed

lemma ticks_perms_plain:
  "answers_plainly 0 0 [] (\<lambda>vs. Some (bf_ticks_left vm))" "answers_plainly 0 0 [] (\<lambda>vs. Some (bf_caller_perms vm))"
  by (rule answers_plainlyI', simp add: bf_ticks_left_def bf_caller_perms_def split: list.split)+

lemma bf_set_task_perms_safe:
  "func_safe S W n (args_fit 1 1 [Proto TYPE_OBJ]) (on_vm (\<lambda>progr vs vm. case vs of VObj oid # _ \<Rightarrow> bf_set_task_perms oid progr vm | _ \<Rightarrow> None))"
proof (rule on_vm_safe)
  fix vm vs progr
  assume vm: "calling S W vm" and a: "args_fit 1 1 [Proto TYPE_OBJ] vs"
  obtain x where vs: "vs = [VObj x]" using fit_one [OF a] by auto
  obtain a as where st: "activ_stack vm = a # as" "state_ok S W vm" "same_frames vm vm"
    using vm calling_frames [OF vm] by (cases "activ_stack vm") (auto simp: calling_def)
  have "same_frames vm (vm\<lparr>activ_stack := a\<lparr>a_progr := x\<rparr> # as\<rparr>)" using st(1) by (auto simp: same_frames_def)
  then show "\<exists>p vm'. (case vs of VObj oid # _ \<Rightarrow> bf_set_task_perms oid progr vm | _ \<Rightarrow> None) = Some (p, vm') \<and> state_ok S W vm' \<and>
      answer_ok S n vm 1 p vm'"
    using vs st by (auto simp: bf_set_task_perms_def plain_answer_ok state_ok_def)
qed

lemma bf_function_info_plain:
  assumes "\<forall>e \<in> set bf_table. c_string (bf_name e)"
  shows "answers_plainly 0 1 [Proto TYPE_STR] (bf_function_info bf_table)"
proof (rule answers_plainlyI')
  fix vs assume a: "args_fit 0 1 [Proto TYPE_STR] vs"
  have d: "user_value (function_description e)" if "e \<in> set bf_table" for e
    using assms that by (auto simp: function_description_def Let_def)
  have "number_func_by_name bf_table s < length bf_table" if "number_func_by_name bf_table s \<noteq> FUNC_NOT_FOUND" for s
    using that by (auto simp: number_func_by_name_def dest!: find_index_Some split: option.splits)
  then show "\<exists>p. bf_function_info bf_table vs = Some p \<and> plain_answer p"
    using fit_upto_one [OF a] d by (auto simp: bf_function_info_def Let_def)
qed

lemma option_total:
  assumes "db_good S db" "c_string name"
  shows "\<exists>v. get_server_option db oid name = Some v"
proof -
  have c: "c_string ''server_options''" by (simp add: c_string_def)
  have src: "\<exists>v. option_source db x = Some v" for x
    using property_found [OF db_goodD(1,2) [OF assms(1)] _ c, of x True] by (auto simp: option_source_def)
  have look: "\<exists>h v. db_find_property db x name True = Some (h, v)" if "valid db x" for x
    using property_found [OF db_goodD(1,2) [OF assms(1)] that assms(2), of True] by blast
  obtain r where r: "option_source db oid = Some r" using src by blast
  obtain q where q: "(if r = None then option_source db SYSTEM_OBJECT else Some r) = Some q" using src by (cases r) auto
  have "\<exists>v. (case q of Some (VObj x) \<Rightarrow>
         if valid db x then (do { (h, v) \<leftarrow> db_find_property db x name True; Some (if h = NoProp then None else v) })
         else Some None
     | _ \<Rightarrow> Some None) = Some v"
    using look by (fastforce split: option.split var.split)
  then show ?thesis using r q by (simp add: get_server_option_def)
qed

lemma protect_flags_total:
  assumes "db_good S db" "\<forall>e \<in> set bf_table. c_string (bf_protect_str e)"
  shows "\<exists>flags. load_server_protect_flags bf_table db = Some flags"
  using assms(2)
proof (induction bf_table)
  case (Cons e es)
  then obtain v where "get_server_option db SYSTEM_OBJECT (bf_protect_str e) = Some v" using option_total [OF assms(1), of "bf_protect_str e" SYSTEM_OBJECT] by auto
  then show ?case using Cons by (auto simp: load_server_protect_flags_def server_flag_option_def)
qed (simp add: load_server_protect_flags_def)

lemma bf_load_server_options_safe:
  assumes tbl: "\<forall>e \<in> set bf_table. c_string (bf_protect_str e)" and W: "\<And>flags w. W w \<Longrightarrow> W (set_flags flags w)"
  shows "func_safe S W n (args_fit 0 0 []) (on_vm (\<lambda>progr vs. bf_load_server_options bf_table set_flags progr))"
proof (rule on_vm_safe)
  fix vm progr
  assume vm: "calling S W vm"
  then have "db_good S (database vm)" "W (world vm)" "same_frames vm vm" using calling_frames by (auto simp: calling_def state_ok_def)
  moreover from this obtain flags where "load_server_protect_flags bf_table (database vm) = Some flags" using protect_flags_total tbl by blast
  moreover have "same_frames vm (vm\<lparr>world := w\<rparr>)" for w using \<open>same_frames vm vm\<close> by (simp add: same_frames_def)
  ultimately show "\<exists>p vm'. bf_load_server_options bf_table set_flags progr vm = Some (p, vm') \<and> state_ok S W vm' \<and> answer_ok S n vm 1 p vm'"
    using vm W by (auto simp: bf_load_server_options_def plain_answer_ok state_ok_def)
qed

context verb_contract
begin

lemma bf_pass_safe: "func_safe S W n (args_fit 0 (-1) []) (on_vm (\<lambda>progr. bf_pass S))"
proof (rule on_vm_safe)
  fix vm vs progr
  assume vm: "calling S W vm" and vs: "\<forall>v \<in> set vs. user_value v"
  obtain a as where a: "activ_stack vm = a # as" using calling_frames [OF vm] by (cases "activ_stack vm") auto
  have "c_string (a_verb a)" "user_value (a_THISOBJ a)"
    using vm a by (auto simp: calling_def framed_def sound_def)
  then obtain e vm' where c: "call_verb2 S (a_thisobj a) (a_verb a) (a_THISOBJ a) vs True vm = Some (e, vm')"
    "if e = E_NONE then machine_ok S W vm' \<and> tl (activ_stack vm') = activ_stack vm else calling S W vm' \<and> same_frames vm vm'"
    using call_verb2_safe [OF vm _ _ vs, of "a_verb a" "a_THISOBJ a" "a_thisobj a" True] by auto
  have "state_ok S W vm'" using c(2) by (auto simp: machine_ok_def calling_def split: if_splits)
  moreover have "answer_ok S n vm 1 (if e = E_NONE then BI_CALL 0 0 else make_error_pack e) vm'"
    using c(2) plain_answer_ok [of "make_error_pack e" vm vm'] by (cases "e = E_NONE") (auto simp: answer_ok_def machine_ok_def)
  ultimately show "\<exists>p vm'. bf_pass S vs vm = Some (p, vm') \<and> state_ok S W vm' \<and> answer_ok S n vm 1 p vm'"
    using a c(1) by (simp add: bf_pass_def)
qed

lemma bf_callers_plain: "calling S W vm \<Longrightarrow> answers_plainly 0 1 [TYPE_ANY] (\<lambda>vs. Some (bf_callers S vs vm))"
  by (rule answers_plainlyI') (auto simp: bf_callers_def calling_def intro!: make_stack_list_user dest: resting_user)

end

subsection \<open>The table\<close>

definition registered :: "'w registration \<Rightarrow> 'w bft_entry" where
  "registered r = (case r of (name, lo, hi, types, func) \<Rightarrow>
    \<lparr>bf_name = name, bf_protect_str = ''protect_'' @ name, bf_verb_str = ''bf_'' @ name, bf_minargs = lo, bf_maxargs = hi,
     bf_prototype = take (nat (if hi = -1 then lo else hi)) types, bf_func = func\<rparr>)"

lemma register_all_table:
  "length tbl + length rs \<le> MAX_FUNC \<Longrightarrow> register_all rs tbl = tbl @ map registered rs"
proof (induction rs arbitrary: tbl)
  case (Cons r rs)
  obtain name lo hi types func where r: "r = (name, lo, hi, types, func)" by (cases r) auto
  have "register_all (r # rs) tbl = register_all rs (tbl @ [registered r])"
    using Cons.prems by (simp add: register_all_def r register_function_def register_common_def registered_def)
  then show ?case using Cons by simp
qed (simp add: register_all_def)

definition registration_ok :: "'w server \<Rightarrow> ('w \<Rightarrow> bool) \<Rightarrow> 'w registration \<Rightarrow> bool" where
  "registration_ok S W r \<longleftrightarrow> (case r of (name, lo, hi, types, func) \<Rightarrow>
    c_string name \<and> length types = nat (if hi = -1 then lo else hi) \<and> (\<forall>n. func_safe S W n (args_fit lo hi types) func))"

lemma registered_ok: "registration_ok S W r \<Longrightarrow> entry_safe S W n (registered r)"
proof -
  assume ok: "registration_ok S W r"
  obtain name lo hi types func where r: "r = (name, lo, hi, types, func)" by (cases r) auto
  have "args_fit lo hi types vs" if "right_args (registered r) vs" for vs
    using right_args_fit [OF that] ok by (auto simp: r registered_def registration_ok_def split: if_splits)
  then have "func_safe S W n (right_args (registered r)) func"
    using ok by (auto simp: func_safe_def registration_ok_def r)
  then show "entry_safe S W n (registered r)" using ok by (simp add: entry_safe_def registered_def registration_ok_def r)
qed


subsection \<open>A server with the registry\<close>

text \<open>The rest of the server, with the modelled functions registered. None of them is entered again after a call.\<close>

definition named :: "'w server \<Rightarrow> 'w builtin_env \<Rightarrow> 'w server" where
  "named S B = S\<lparr>sv_name_func_by_num := name_func_by_num (register_bi_functions S B)\<rparr>"

definition with_functions :: "'w server \<Rightarrow> 'w builtin_env \<Rightarrow> ('w \<Rightarrow> nat \<Rightarrow> bool) \<Rightarrow> 'w server" where
  "with_functions S B protected_flag = (named S B)\<lparr>sv_call_bi_func :=
    call_bi_func protected_flag (register_bi_functions (named S B) B) (named S B)\<rparr>"

locale environment =
  fixes S :: "'w server" and W :: "'w \<Rightarrow> bool" and B :: "'w builtin_env" and P :: "'w \<Rightarrow> nat \<Rightarrow> bool"
  assumes program: "program_ok (sv_null_program S)"
    and format: "c_string (be_format B d)"
    and flags: "W w \<Longrightarrow> W (be_set_flags B fl w)"
    and no_resumptions: "sv_resumable S = {}"
    and suspends: "calling S W vm \<Longrightarrow>
      \<exists>e vm'. sv_suspend_proc S susp vm = Some (e, vm') \<and> (e \<noteq> E_NONE \<longrightarrow> state_ok S W vm' \<and> same_frames vm vm')"
    and forks: "state_ok S W vm \<Longrightarrow> top_frame (sv_resumable S) (\<lambda>bc. runs) (root_activ_vector vm) (activ_stack vm) \<Longrightarrow>
      i < length (fork_vectors (a_prog (hd (activ_stack vm)))) \<Longrightarrow>
      \<exists>e vm'. sv_enqueue_forked_task2 S i delay slot vm = Some (e, vm') \<and> state_ok S W vm' \<and> same_frames vm vm'"
    and waif_get: "calling S W vm \<Longrightarrow> c_string name \<Longrightarrow>
      \<exists>e v vm'. sv_waif_get_prop S w' name progr vm = Some (e, v, vm') \<and> user_value v \<and> state_ok S W vm' \<and> same_frames vm vm'"
    and waif_put: "calling S W vm \<Longrightarrow> c_string name \<Longrightarrow> user_value v \<Longrightarrow>
      \<exists>e vm'. sv_waif_put_prop S w' name v progr vm = Some (e, vm') \<and> state_ok S W vm' \<and> same_frames vm vm'"
begin

lemma named_same [simp]: "calling (named S B) W vm = calling S W vm" "state_ok (named S B) W vm = state_ok S W vm"
  by (simp_all add: calling_def state_ok_def db_good_def named_def)

lemma full_same [simp]: "calling (with_functions S B P) W vm = calling S W vm" "state_ok (with_functions S B P) W vm = state_ok S W vm"
  "answer_ok (with_functions S B P) f vm pc x vm' = answer_ok (named S B) f vm pc x vm'"
  "sv_resumable (with_functions S B P) = {}"
  by (simp_all add: calling_def state_ok_def db_good_def named_def with_functions_def answer_ok_def no_resumptions cong: package.case_cong)

lemma table: "length (register_execute S' B @ register_functions tbl B @ register_list B @ register_numbers F B) \<le> MAX_FUNC"
  by (simp add: register_execute_def register_functions_def register_list_def register_numbers_def MAX_FUNC_def)

lemma table_names: "e \<in> set (register_with tbl S' B) \<Longrightarrow> c_string (bf_name e) \<and> c_string (bf_protect_str e)"
  unfolding register_with_def
  by (subst (asm) register_all_table) (use table in \<open>auto simp: registered_def register_execute_def register_functions_def register_list_def
    register_numbers_def c_string_def\<close>)

lemma names: "verb_contract (named S B)"
proof
  show "program_ok (sv_null_program (named S B))" using program by (simp add: named_def)
  fix f
  show "c_string (sv_name_func_by_num (named S B) f)"
    using table_names [of "register_bi_functions S B ! f" "register_with [] S B" S]
    by (auto simp: named_def name_func_by_num_def func_not_found_msg_def register_bi_functions_def)
qed

end

end
