(* ===== verification/ServerSafety.thy ===== *)
theory ServerSafety
  imports RegistrySafety
begin

text \<open>
  Every environment with the modelled functions registered keeps the contract of the interpreter, so that no step of the machine
  is undefined; and a concrete environment.
\<close>

sublocale environment \<subseteq> named: verb_contract "named S B" W
  by (rule names)

context environment
begin

lemma formats: "\<forall>d. c_string (be_format B d)"
  using format by simp

lemma execute_registered: "\<forall>r \<in> set (register_execute (named S B) B). registration_ok (named S B) W r"
  by (auto simp: register_execute_def registration_ok_def c_string_def
    intro!: on_args_safe bf_raise_plain formats ticks_perms_plain named.bf_pass_safe bf_set_task_perms_safe named.bf_callers_plain)

lemma functions_registered:
  assumes "tbl = register_with tbl' S' B"
  shows "\<forall>r \<in> set (register_functions tbl B). registration_ok (named S B) W r"
  using table_names [of _ tbl' S'] flags unfolding assms
  by (auto simp: register_functions_def registration_ok_def c_string_def
    intro!: on_args_safe bf_function_info_plain bf_load_server_options_safe)

lemma list_registered: "\<forall>r \<in> set (register_list B). registration_ok (named S B) W r"
  by (auto simp: register_list_def registration_ok_def c_string_def
    intro!: on_args_safe bf_decode_binary_plain bf_encode_binary_plain bf_tostr_plain bf_toliteral_plain bf_values_plain bf_strings_plain
      bf_strsub_plain bf_substitute_plain bf_setadd_plain bf_setremove_plain bf_listappend_plain bf_listinsert_plain bf_listdelete_plain
      bf_listset_plain bf_remove_duplicates_plain bf_membership_plain bf_assoc_plain formats)

lemma numbers_registered: "\<forall>r \<in> set (register_numbers F B). registration_ok (named S B) W r"
  by (auto simp: register_numbers_def registration_ok_def c_string_def intro!: on_args_safe number_functions_plain)

lemma full_call:
  "sv_call_bi_func (with_functions S B P) = call_bi_func P (register_bi_functions (named S B) B) (named S B)"
  "sv_suspend_proc (with_functions S B P) = sv_suspend_proc S"
  "sv_enqueue_forked_task2 (with_functions S B P) = sv_enqueue_forked_task2 S"
  "sv_waif_get_prop (with_functions S B P) = sv_waif_get_prop S" "sv_waif_put_prop (with_functions S B P) = sv_waif_put_prop S"
  by (simp_all add: with_functions_def named_def)

lemma table_safe:
  assumes "n < length (register_bi_functions (named S B) B)"
  shows "entry_safe (named S B) W n (register_bi_functions (named S B) B ! n)"
proof -
  define tbl where "tbl = register_with [] (named S B) B"
  define rs where "rs = register_execute (named S B) B @ register_functions tbl B @ register_list B @ register_numbers (sv_floats (named S B)) B"
  have "\<forall>r \<in> set rs. registration_ok (named S B) W r"
    unfolding rs_def using execute_registered functions_registered [OF tbl_def] list_registered numbers_registered by auto
  then have "\<forall>e \<in> set (map registered rs). entry_safe (named S B) W n e" by (simp add: registered_ok)
  moreover have "register_bi_functions (named S B) B = map registered rs"
    using register_all_table [of "[]" rs] table by (simp add: register_bi_functions_def register_with_def [of tbl] tbl_def [symmetric] rs_def)
  ultimately show ?thesis using assms by simp
qed

end

sublocale environment \<subseteq> full: server_contract "with_functions S B P" W
proof
  show "program_ok (sv_null_program (with_functions S B P))" using program by (simp add: with_functions_def named_def)
  show "c_string (sv_name_func_by_num (with_functions S B P) f)" for f
    using named.function_names by (simp add: with_functions_def)
  show "pc \<noteq> 1" if "(f, pc, data) \<in> sv_resumable (with_functions S B P)" for f pc data using that by simp
  show "\<exists>p vm'. sv_call_bi_func (with_functions S B P) f arg pc progr data vm = Some (p, vm') \<and>
      state_ok (with_functions S B P) W vm' \<and> answer_ok (with_functions S B P) f vm pc p vm'"
    if "calling (with_functions S B P) W vm" "user_value arg"
      "pc = 1 \<and> type_of arg = TYPE_LIST \<and> small_value arg \<or> (f, pc, data) \<in> sv_resumable (with_functions S B P)" for vm arg pc f data progr
    using named.call_bi_func_safe [where bf_table = "register_bi_functions (named S B) B" and vm = vm and arg = arg and n = f
      and protected_flag = P and progr = progr and data = data] table_safe that
    by (auto simp: full_call)
qed (use suspends forks waif_get waif_put no_resumptions in \<open>simp_all add: full_call\<close>)

end
