(* ===== verification/SafeServer.thy ===== *)
theory SafeServer
  imports ServerSafety
begin


text \<open>
  Type safety of the whole interpreter with its registry of functions: a task that starts with a well-typed program never
  reaches an undefined state. An environment in which every quota is used up and every waif has lost its class shows that
  the hypotheses can hold.
\<close>

subsection \<open>A concrete environment\<close>

definition quiet_floats :: fp_ops where
  "quiet_floats = \<lparr>f_add = (\<lambda>x y. x), f_sub = (\<lambda>x y. x), f_mul = (\<lambda>x y. x), f_div = (\<lambda>x y. x), f_mod = (\<lambda>x y. x),
     f_pow = (\<lambda>x y. (x, True)), f_abs = (\<lambda>x. x), f_neg = (\<lambda>x. x), f_of_num = (\<lambda>n. 0), f_to_num = (\<lambda>d. 0), f_strtod = (\<lambda>s. (0, s))\<rparr>"

text \<open>The compiled form of \<open>i = 0; while (i < 3) i = i + 1; endwhile return i;\<close>, with the variables of the parser.\<close>

definition counting_body :: "stmt list" where
  "counting_body = [STMT_EXPR (EXPR_BINARY EXPR_ASGN (EXPR_ID 18) (EXPR_VAR (VInt 0))),
     STMT_WHILE (-1) (EXPR_BINARY EXPR_LT (EXPR_ID 18) (EXPR_VAR (VInt 3)))
       [STMT_EXPR (EXPR_BINARY EXPR_ASGN (EXPR_ID 18) (EXPR_BINARY EXPR_PLUS (EXPR_ID 18) (EXPR_VAR (VInt 1))))],
     STMT_RETURN (Some (EXPR_ID 18))]"

definition counting_program :: program where
  "counting_program = \<lparr>prog_version = 5, first_lineno = 1,
     main_vector = \<lparr>numbytes_label = 1, numbytes_literal = 1, numbytes_fork = 1, numbytes_var_name = 1, numbytes_stack = 1,
       vector = [123, 52, 111, 85, 126, 25, 1, 15, 85, 124, 21, 52, 111, 107, 3, 85, 108, 110], max_stack = 2\<rparr>,
     literals = [], fork_vectors = [], var_names = replicate 19 ''v'', cached_lineno = 1, cached_lineno_pc = 0, cached_lineno_vec = -1\<rparr>"

definition counting_typing :: "(nat \<times> ftype) list" where
  "counting_typing = map (\<lambda>(pc, n). (pc, False, replicate n KVal))
    [(0, 0), (1, 1), (2, 1), (3, 0), (4, 1), (5, 2), (6, 1), (8, 0), (9, 1), (10, 2), (11, 1), (12, 1), (13, 0), (15, 0), (16, 1)]"

lemma counting_checked: "check counting_program (main_vector counting_program) counting_typing"
  by code_simp

lemma counting_ok: "program_ok counting_program"
  using check_wt [OF counting_checked] by (auto simp: program_ok_def counting_program_def least_vars_def DBV_Float_def)

definition quiet_server :: "unit server" where
  "quiet_server = \<lparr>sv_floats = quiet_floats, sv_null_program = counting_program, sv_same_name = (\<lambda>s a. False),
     sv_find_line_number = (\<lambda>p v pc. 1), sv_name_func_by_num = (\<lambda>n. []), sv_call_bi_func = (\<lambda>n v pc progr d vm. None),
     sv_suspend_proc = (\<lambda>s vm. Some (E_QUOTA, vm)), sv_enqueue_forked_task2 = (\<lambda>i d v vm. Some (E_QUOTA, vm)),
     sv_union_double = (\<lambda>v. 0), sv_waif_class = (\<lambda>w n. NOTHING),
     sv_waif_get_prop = (\<lambda>w s progr vm. Some (E_INVIND, VInt 0, vm)), sv_waif_put_prop = (\<lambda>w s v progr vm. Some (E_INVIND, vm)),
     sv_resumable = {}\<rparr>"

definition quiet_functions :: "unit builtin_env" where
  "quiet_functions = \<lparr>be_format = (\<lambda>d. ''0.0''), be_waif = (\<lambda>w n. (NOTHING, NOTHING)), be_waif_bytes = (\<lambda>w n. 0),
     be_random = (\<lambda>w. (1, 2, 3)), be_set_flags = (\<lambda>fl w. w)\<rparr>"

lemma quiet_frames: "calling S W vm \<Longrightarrow> same_frames vm vm" "top_frame RS P root (activ_stack vm) \<Longrightarrow> same_frames vm vm"
  by (auto dest: calling_frames intro!: same_frames_refl)

interpretation quiet: environment quiet_server "\<lambda>_. True" quiet_functions "\<lambda>_ _. False"
  by unfold_locales (auto simp: quiet_server_def quiet_functions_def counting_ok c_string_def calling_def dest: quiet_frames(2)
    intro: same_frames_refl)

definition idle_vm :: "unit vm" where
  "idle_vm = \<lparr>activ_stack = [], max_stack_size = 100, root_activ_vector = MAIN_VECTOR, ticks_remaining = 0, task_timed_out = False,
     handler_info = None, database = empty_db, world = ()\<rparr>"

lemma idle_ok: "state_ok quiet_server (\<lambda>_. True) idle_vm"
  by (simp add: state_ok_def idle_vm_def db_good_def empty_db_all_ok data_ok_def harmless_def)

subsection \<open>Whole tasks\<close>

context environment
begin

lemma task_run_safe:
  assumes "program_ok p" "state_ok S W vm"
    and "c_string verb" "c_string verbname" "c_string argstr" "\<forall>v \<in> set args. user_value v"
    and start: "do_server_program_task thisobj verb args vloc verbname p progr debug player argstr max_depth ticks vm = Some vm0"
    and "\<And>k vm'. k < n \<Longrightarrow> run_steps k (with_functions S B P) vm0 = Some (Running vm') \<Longrightarrow> memory_ok vm' \<and> \<not> traps_next vm'"
  shows "result_ok (with_functions S B P) W (run_steps n (with_functions S B P) vm0)"
proof (rule full.run_steps_safe)
  have "state_ok (with_functions S B P) W vm" using assms(2) by simp
  from server_task_safe [OF assms(1) this assms(3-6), of thisobj vloc progr debug player max_depth ticks] start
  show "machine_ok (with_functions S B P) W vm0" by auto
qed (use assms(8) in simp)

end

definition counting_vm :: "unit vm" where
  "counting_vm = the (do_server_program_task 0 ''count'' [] 0 ''count'' counting_program 0 False 0 [] 50 100 idle_vm)"

lemma counting_starts: "do_server_program_task 0 ''count'' [] 0 ''count'' counting_program 0 False 0 [] 50 100 idle_vm = Some counting_vm"
proof -
  have "do_server_program_task 0 ''count'' [] 0 ''count'' counting_program 0 False 0 [] 50 100 idle_vm \<noteq> None" by code_simp
  then show ?thesis by (simp add: counting_vm_def)
qed

lemma counting_first: "memory_ok counting_vm \<and> \<not> traps_next counting_vm"
  by code_simp

lemma counting_second: "case step S counting_vm of Some (Running vm') \<Rightarrow> memory_ok vm' \<and> \<not> traps_next vm' | _ \<Rightarrow> True"
  by code_simp

lemma counting_clear: "\<forall>k < 2. \<forall>vm'. run_steps k S counting_vm = Some (Running vm') \<longrightarrow> memory_ok vm' \<and> \<not> traps_next vm'"
  using counting_first counting_second [of S] by (auto simp: less_2_cases_iff split: option.splits result.splits)

subsection \<open>Properties\<close>

text \<open>C36: type safety of the interpreter. A task that the server starts with a program that the verifier accepts, on a database
  that satisfies its invariants, never comes to an undefined state, with the registry of modelled functions in place: after any
  number of rounds of the loop the machine has stopped with an outcome, or it is well-formed again, every stack of every
  activation conforming to the types of its code. The hypothesis on the rounds before excludes what the code itself does not
  check: lists of more than 2 ^ 31 elements, and the two instructions that fault on some operands.\<close>

theorem task_never_stuck:
  assumes "environment S W B" "program_ok p" "state_ok S W vm"
    and "c_string verb" "c_string verbname" "c_string argstr" "\<forall>v \<in> set args. user_value v"
    and "do_server_program_task thisobj verb args vloc verbname p progr debug player argstr max_depth ticks vm = Some vm0"
    and "\<forall>k < n. \<forall>vm'. run_steps k (with_functions S B P) vm0 = Some (Running vm') \<longrightarrow> memory_ok vm' \<and> \<not> traps_next vm'"
  shows "case run_steps n (with_functions S B P) vm0 of
      None \<Rightarrow> False
    | Some (Running vm') \<Rightarrow> machine_ok (with_functions S B P) W vm'
    | Some (Stopped out v vm') \<Rightarrow> True"
  using environment.task_run_safe [OF assms(1-8)] assms(9) by (fastforce simp: result_ok_def split: option.split result.split)

theorem task_never_stuck_witness:
  "case run_steps 2 (with_functions quiet_server quiet_functions (\<lambda>_ _. False)) counting_vm of
      None \<Rightarrow> False
    | Some (Running vm') \<Rightarrow> machine_ok (with_functions quiet_server quiet_functions (\<lambda>_ _. False)) (\<lambda>_. True) vm'
    | Some (Stopped out v vm') \<Rightarrow> True"
  by (rule task_never_stuck [OF quiet.environment_axioms counting_ok idle_ok _ _ _ _ counting_starts counting_clear])
    (simp_all add: c_string_def)

end
