(* ===== verification/InputQueue.thy ===== *)
theory InputQueue
  imports Strings
begin

text \<open>
  The queue of input lines of a connection (\<open>dequeue_input_task\<close> and \<open>enqueue_input_task\<close> in \<open>tasks.c\<close>). The lines are in
  one linked list. The lines that end a run of out-of-band lines, or a run of other lines, are linked a second time by
  \<open>next_itail\<close>, so that the first line of either class is found in constant time. The lines are cells of a store, and reading
  a cell that is not there is undefined.
\<close>

subsection \<open>The cells and the two threads\<close>

datatype task_kind = TASK_INBAND | TASK_OOB | TASK_QUOTED | TASK_BINARY

record input_task =
  it_kind :: task_kind
  it_string :: string
  it_length :: int
  it_next :: "nat option"
  it_next_itail :: "nat option"

type_synonym inputs = "nat \<Rightarrow> input_task option"

text \<open>The address of a pointer: that of the queue itself or the one in a cell.\<close>

datatype slot = Head | Link nat

record iqueue =
  first_input :: "nat option"
  last_input :: slot
  first_itail :: "nat option"
  last_itail :: slot
  total_input_length :: int
  disable_oob :: bool

definition get_next :: "inputs \<Rightarrow> 'a iqueue_scheme \<Rightarrow> slot \<Rightarrow> nat option option" where
  "get_next h q s = (case s of Head \<Rightarrow> Some (first_input q) | Link a \<Rightarrow> map_option it_next (h a))"

definition set_next :: "slot \<Rightarrow> nat option \<Rightarrow> inputs \<times> 'a iqueue_scheme \<Rightarrow> (inputs \<times> 'a iqueue_scheme) option" where
  "set_next s v hq = (case hq of (h, q) \<Rightarrow> (case s of
     Head \<Rightarrow> Some (h, q\<lparr>first_input := v\<rparr>)
   | Link a \<Rightarrow> map_option (\<lambda>t. (h(a \<mapsto> t\<lparr>it_next := v\<rparr>), q)) (h a)))"

definition get_itail :: "inputs \<Rightarrow> 'a iqueue_scheme \<Rightarrow> slot \<Rightarrow> nat option option" where
  "get_itail h q s = (case s of Head \<Rightarrow> Some (first_itail q) | Link a \<Rightarrow> map_option it_next_itail (h a))"

definition set_itail :: "slot \<Rightarrow> nat option \<Rightarrow> inputs \<times> 'a iqueue_scheme \<Rightarrow> (inputs \<times> 'a iqueue_scheme) option" where
  "set_itail s v hq = (case hq of (h, q) \<Rightarrow> (case s of
     Head \<Rightarrow> Some (h, q\<lparr>first_itail := v\<rparr>)
   | Link a \<Rightarrow> map_option (\<lambda>t. (h(a \<mapsto> t\<lparr>it_next_itail := v\<rparr>), q)) (h a)))"

subsection \<open>Taking a line out\<close>

datatype dequeue_how = DQ_FIRST | DQ_OOB | DQ_INBAND

fun how_number :: "dequeue_how \<Rightarrow> int" where
  "how_number DQ_FIRST = -1" | "how_number DQ_OOB = 0" | "how_number DQ_INBAND = 1"

text \<open>Where the wanted line hangs: at the head, or behind the first run if that is of the other class.\<close>

definition wanted_slots :: "dequeue_how \<Rightarrow> inputs \<Rightarrow> 'a iqueue_scheme \<Rightarrow> nat \<Rightarrow> (slot \<times> slot) option" where
  "wanted_slots how h q first = (do {
     t \<leftarrow> h first;
     if how_number how = of_bool (it_kind t = TASK_OOB) then map_option (\<lambda>e. (Link e, Link e)) (first_itail q) else Some (Head, Head)
   })"

text \<open>Taking the line \<open>a\<close> out of the thread of ends of runs, if it is in there.\<close>

definition unlink_itail :: "slot \<Rightarrow> nat \<Rightarrow> inputs \<times> 'a iqueue_scheme \<Rightarrow> (inputs \<times> 'a iqueue_scheme) option" where
  "unlink_itail pitail a hq = (do {
     e \<leftarrow> get_itail (fst hq) (snd hq) pitail;
     if e \<noteq> Some a then Some hq
     else (do {
       hq \<leftarrow> set_itail pitail None hq;
       t \<leftarrow> (fst hq) a;
       (h, q) \<leftarrow> (if it_next_itail t = None then Some hq
         else set_itail (Link a) None (fst hq, (snd hq)\<lparr>first_itail := it_next_itail t\<rparr>));
       e \<leftarrow> get_itail h q (last_itail q);
       Some (h, if e = None then q\<lparr>last_itail := Head\<rparr> else q)
     })
   })"

text \<open>The line \<open>a\<close>, which hangs at \<open>pt\<close>, leaves both threads.\<close>

definition unlink_input :: "slot \<Rightarrow> slot \<Rightarrow> nat \<Rightarrow> inputs \<times> 'a iqueue_scheme \<Rightarrow> (inputs \<times> 'a iqueue_scheme) option" where
  "unlink_input pt pitail a hq = (do {
     t \<leftarrow> (fst hq) a;
     hq \<leftarrow> set_next pt (it_next t) hq;
     hq \<leftarrow> (if it_next t = None then Some (fst hq, (snd hq)\<lparr>last_input := pt\<rparr>) else set_next (Link a) None hq);
     unlink_itail pitail a hq
   })"

text \<open>With out-of-band lines disabled there are none to ask for, and the first line is taken whatever it is.\<close>

definition take_input :: "dequeue_how \<Rightarrow> inputs \<Rightarrow> 'a iqueue_scheme \<Rightarrow> (nat option \<times> inputs \<times> 'a iqueue_scheme) option" where
  "take_input how h q =
    (if disable_oob q \<and> how = DQ_OOB then Some (None, h, q)
     else (let how = (if disable_oob q then DQ_FIRST else how) in
       case first_input q of
         None \<Rightarrow> Some (None, h, q)
       | Some first \<Rightarrow> (do {
           (pt, pitail) \<leftarrow> wanted_slots how h q first;
           a \<leftarrow> get_next h q pt;
           case a of
             None \<Rightarrow> Some (None, h, q)
           | Some a \<Rightarrow> map_option (Pair (Some a)) (unlink_input pt pitail a (h, q))
         })))"

definition oob_quote_prefix :: string where "oob_quote_prefix = ''#$'' @ [CHR 0x22]"
definition oob_prefix :: string where "oob_prefix = ''#$#''"

text \<open>What the line that was taken out has become: its length is no longer counted, a quote is removed, and with out-of-band
  lines disabled it is an ordinary line.\<close>

definition taken_kind :: "'a iqueue_scheme \<Rightarrow> input_task \<Rightarrow> input_task" where
  "taken_kind q t = (case it_kind t of
     TASK_OOB \<Rightarrow> if disable_oob q then t\<lparr>it_kind := TASK_INBAND\<rparr> else t
   | TASK_QUOTED \<Rightarrow> t\<lparr>it_kind := TASK_INBAND,
       it_string := (if disable_oob q then it_string t else drop (length oob_quote_prefix) (it_string t))\<rparr>
   | _ \<Rightarrow> t)"

definition uncount_input :: "nat \<Rightarrow> inputs \<times> 'a iqueue_scheme \<Rightarrow> (inputs \<times> 'a iqueue_scheme) option" where
  "uncount_input a hq = map_option (\<lambda>t. ((fst hq)(a \<mapsto> taken_kind (snd hq) t),
     (snd hq)\<lparr>total_input_length := to_int32 (total_input_length (snd hq) - it_length t)\<rparr>)) ((fst hq) a)"

subsection \<open>Putting a line in\<close>

definition input_kind :: "bool \<Rightarrow> string \<Rightarrow> task_kind" where
  "input_kind binary input =
    (if binary then TASK_BINARY
     else if take (length oob_quote_prefix) input = oob_quote_prefix then TASK_QUOTED
     else if take (length oob_prefix) input = oob_prefix then TASK_OOB
     else TASK_INBAND)"

definition link_at_front :: "nat \<Rightarrow> nat \<Rightarrow> inputs \<times> 'a iqueue_scheme \<Rightarrow> (inputs \<times> 'a iqueue_scheme) option" where
  "link_at_front a first hq = (do {
     t \<leftarrow> (fst hq) a;
     f \<leftarrow> (fst hq) first;
     hq \<leftarrow> (if (it_kind f = TASK_OOB) \<noteq> (it_kind t = TASK_OOB) then (do {
         (h, q) \<leftarrow> set_itail (Link a) (first_itail (snd hq)) hq;
         Some (h, q\<lparr>first_itail := Some a, last_itail := (if last_itail q = Head then Link a else last_itail q)\<rparr>)
       }) else Some hq);
     (h, q) \<leftarrow> set_next (Link a) (first_input (snd hq)) hq;
     Some (h, q\<lparr>first_input := Some a\<rparr>)
   })"

definition link_at_rear :: "nat \<Rightarrow> inputs \<times> 'a iqueue_scheme \<Rightarrow> (inputs \<times> 'a iqueue_scheme) option" where
  "link_at_rear a hq = (do {
     t \<leftarrow> (fst hq) a;
     q \<leftarrow> (if first_input (snd hq) = None then Some (snd hq)
       else (do {
         e \<leftarrow> get_itail (fst hq) (snd hq) (last_itail (snd hq));
         e \<leftarrow> e;
         l \<leftarrow> (fst hq) e;
         Some (if (it_kind l = TASK_OOB) \<noteq> (it_kind t = TASK_OOB) then (snd hq)\<lparr>last_itail := Link e\<rparr> else snd hq)
       }));
     hq \<leftarrow> set_itail (last_itail q) (Some a) (fst hq, q);
     (h, q) \<leftarrow> set_next (last_input (snd hq)) (Some a) hq;
     set_next (Link a) None (h, q\<lparr>last_input := Link a\<rparr>)
   })"

text \<open>The new line at the address \<open>a\<close>; at an empty queue, the front is the rear.\<close>

definition add_input :: "nat \<Rightarrow> string \<Rightarrow> bool \<Rightarrow> bool \<Rightarrow> inputs \<Rightarrow> 'a iqueue_scheme \<Rightarrow> (inputs \<times> 'a iqueue_scheme) option" where
  "add_input a input at_front binary h q =
    (let t = \<lparr>it_kind = input_kind binary input, it_string = input, it_length = to_int32 (int (length input)),
              it_next = None, it_next_itail = None\<rparr>;
         hq = (h(a \<mapsto> t), q\<lparr>total_input_length := to_int32 (total_input_length q + it_length t)\<rparr>)
     in case first_input q of
       Some first \<Rightarrow> if at_front then link_at_front a first hq else link_at_rear a hq
     | None \<Rightarrow> link_at_rear a hq)"

subsection \<open>What the threads stand for\<close>

abbreviation next_of :: "inputs \<Rightarrow> nat \<Rightarrow> nat option option" where
  "next_of h a \<equiv> map_option it_next (h a)"

abbreviation itail_of :: "inputs \<Rightarrow> nat \<Rightarrow> nat option option" where
  "itail_of h a \<equiv> map_option it_next_itail (h a)"

definition oob :: "inputs \<Rightarrow> nat \<Rightarrow> bool" where
  "oob h a \<longleftrightarrow> map_option it_kind (h a) = Some TASK_OOB"

fun thread :: "(nat \<Rightarrow> nat option option) \<Rightarrow> nat option \<Rightarrow> nat list \<Rightarrow> nat option \<Rightarrow> bool" where
  "thread g p [] e \<longleftrightarrow> p = e"
| "thread g p (a # as) e \<longleftrightarrow> p = Some a \<and> (\<exists>n. g a = Some n \<and> thread g n as e)"

definition rear :: "nat list \<Rightarrow> slot" where
  "rear as = (if as = [] then Head else Link (last as))"

text \<open>The lines that end a run.\<close>

fun run_ends :: "(nat \<Rightarrow> bool) \<Rightarrow> nat list \<Rightarrow> nat list" where
  "run_ends P [] = []"
| "run_ends P [a] = [a]"
| "run_ends P (a # b # as) = (if P a = P b then run_ends P (b # as) else a # run_ends P (b # as))"

definition iqueue_ok :: "inputs \<Rightarrow> 'a iqueue_scheme \<Rightarrow> nat list \<Rightarrow> bool" where
  "iqueue_ok h q as \<longleftrightarrow> distinct as \<and> thread (next_of h) (first_input q) as None \<and> last_input q = rear as \<and>
     thread (itail_of h) (first_itail q) (run_ends (oob h) as) None \<and> last_itail q = rear (butlast (run_ends (oob h) as))"

text \<open>The cells keep their contents.\<close>

definition contents :: "inputs \<Rightarrow> nat \<Rightarrow> (task_kind \<times> string \<times> int) option" where
  "contents h a = map_option (\<lambda>t. (it_kind t, it_string t, it_length t)) (h a)"

subsection \<open>Threads\<close>

lemma thread_append: "thread g p (xs @ ys) e \<longleftrightarrow> (\<exists>m. thread g p xs m \<and> thread g m ys e)"
  by (induction xs arbitrary: p) auto

lemma thread_frame: "(\<And>a. a \<in> set as \<Longrightarrow> g' a = g a) \<Longrightarrow> thread g' p as e = thread g p as e"
  by (induction as arbitrary: p) auto

lemma thread_alloc: "thread g p as e \<Longrightarrow> a \<in> set as \<Longrightarrow> g a \<noteq> None"
  by (induction as arbitrary: p) auto

lemma thread_start: "thread g p as None \<Longrightarrow> p = (case as of [] \<Rightarrow> None | a # _ \<Rightarrow> Some a)"
  by (cases as) auto

text \<open>Redirecting the slot behind a prefix of a thread.\<close>

definition redirect :: "slot \<Rightarrow> nat option \<Rightarrow> nat option \<times> (nat \<Rightarrow> nat option option) \<Rightarrow> nat option \<times> (nat \<Rightarrow> nat option option)" where
  "redirect s v pg = (case s of Head \<Rightarrow> (v, snd pg) | Link a \<Rightarrow> (fst pg, (snd pg)(a \<mapsto> v)))"

lemma thread_redirect:
  assumes "thread g p xs m" "distinct xs" "set xs \<inter> set ys = {}" "thread g v ys e"
  shows "thread (snd (redirect (rear xs) v (p, g))) (fst (redirect (rear xs) v (p, g))) (xs @ ys) e"
proof (cases xs rule: rev_cases)
  case Nil
  then show ?thesis using assms by (simp add: redirect_def rear_def)
next
  case (snoc us u)
  obtain k where k: "thread g p us k" "thread g k [u] m" using assms(1) by (auto simp: snoc thread_append)
  have "thread (g(u \<mapsto> v)) p us k" using k(1) assms(2) by (subst thread_frame [of us _ g]) (auto simp: snoc)
  moreover have "thread (g(u \<mapsto> v)) v ys e" using assms(3,4) by (subst thread_frame [of ys _ g]) (auto simp: snoc)
  ultimately have "thread (g(u \<mapsto> v)) p (us @ u # ys) e" using k(2) by (auto simp: thread_append)
  then show ?thesis by (simp add: redirect_def rear_def snoc)
qed

lemma thread_slot:
  assumes "thread g p xs m"
  shows "(case rear xs of Head \<Rightarrow> Some p | Link a \<Rightarrow> g a) = Some m"
  using assms by (cases xs rule: rev_cases) (auto simp: rear_def thread_append)

subsection \<open>Ends of runs\<close>

lemma run_ends_Nil [simp]: "run_ends P as = [] \<longleftrightarrow> as = []"
  by (induction P as rule: run_ends.induct) auto

lemma run_ends_subset: "set (run_ends P as) \<subseteq> set as"
  by (induction P as rule: run_ends.induct) auto

lemma run_ends_distinct: "distinct as \<Longrightarrow> distinct (run_ends P as)"
  by (induction P as rule: run_ends.induct) (auto dest!: run_ends_subset [THEN subsetD])

lemma run_ends_cong: "(\<And>a. a \<in> set as \<Longrightarrow> P a = Q a) \<Longrightarrow> run_ends P as = run_ends Q as"
  by (induction P as rule: run_ends.induct) auto

lemma run_ends_last: "as \<noteq> [] \<Longrightarrow> last (run_ends P as) = last as"
  by (induction P as rule: run_ends.induct) auto

text \<open>A first run and what follows.\<close>

lemma run_ends_first:
  assumes "xs \<noteq> []" "\<And>a. a \<in> set xs \<Longrightarrow> P a = c" "ys = [] \<or> P (hd ys) = (\<not> c)"
  shows "run_ends P (xs @ ys) = last xs # run_ends P ys"
  using assms
proof (induction xs)
  case (Cons a xs)
  then show ?case by (cases xs; cases ys) auto
qed simp

lemma run_ends_same:
  assumes "\<And>a. a \<in> set xs \<Longrightarrow> P a = P b"
  shows "run_ends P (xs @ b # ys) = run_ends P (b # ys)"
  using assms
proof (induction xs)
  case (Cons a xs)
  then show ?case by (cases xs) auto
qed simp

lemma run_ends_snoc:
  "run_ends P (as @ [b]) = (if as = [] then [b] else if P (last as) = P b then butlast (run_ends P as) @ [b] else run_ends P as @ [b])"
  by (induction P as rule: run_ends.induct) auto

subsection \<open>The slots of the code\<close>

lemma get_next_thread: "thread (next_of h) (first_input q) xs m \<Longrightarrow> get_next h q (rear xs) = Some m"
  using thread_slot [of "next_of h" "first_input q" xs m] by (simp add: get_next_def split: slot.splits)

lemma get_itail_thread: "thread (itail_of h) (first_itail q) xs m \<Longrightarrow> get_itail h q (rear xs) = Some m"
  using thread_slot [of "itail_of h" "first_itail q" xs m] by (simp add: get_itail_def split: slot.splits)

lemma set_next_thread:
  assumes "thread (next_of h) (first_input q) xs m" "distinct xs" "set xs \<inter> set ys = {}" "thread (next_of h) v ys e"
  obtains h' q' where "set_next (rear xs) v (h, q) = Some (h', q')" "thread (next_of h') (first_input q') (xs @ ys) e"
    "itail_of h' = itail_of h" "oob h' = oob h" "contents h' = contents h" "\<And>a. a \<notin> set xs \<Longrightarrow> h' a = h a"
    "q' = q\<lparr>first_input := first_input q'\<rparr>"
proof -
  have "set_next (rear xs) v (h, q) \<noteq> None"
    using thread_slot [OF assms(1)] by (auto simp: set_next_def split: slot.splits)
  then obtain h' q' where s: "set_next (rear xs) v (h, q) = Some (h', q')" by auto
  moreover have "(first_input q', next_of h') = redirect (rear xs) v (first_input q, next_of h)"
    using s by (auto simp: set_next_def redirect_def split: slot.splits)
  then have "thread (next_of h') (first_input q') (xs @ ys) e" using thread_redirect [OF assms] by (metis fst_conv snd_conv)
  moreover have "itail_of h' = itail_of h" "oob h' = oob h" "contents h' = contents h"
    using s by (auto simp: set_next_def oob_def contents_def intro!: ext split: slot.splits if_splits)
  moreover have "\<And>a. a \<notin> set xs \<Longrightarrow> h' a = h a" "q' = q\<lparr>first_input := first_input q'\<rparr>"
    using s by (auto simp: set_next_def rear_def split: slot.splits if_splits)
  ultimately show ?thesis by (rule that)
qed

lemma set_itail_thread:
  assumes "thread (itail_of h) (first_itail q) xs m" "distinct xs" "set xs \<inter> set ys = {}" "thread (itail_of h) v ys e"
  obtains h' q' where "set_itail (rear xs) v (h, q) = Some (h', q')" "thread (itail_of h') (first_itail q') (xs @ ys) e"
    "next_of h' = next_of h" "oob h' = oob h" "contents h' = contents h" "\<And>a. a \<notin> set xs \<Longrightarrow> h' a = h a"
    "q' = q\<lparr>first_itail := first_itail q'\<rparr>"
proof -
  have "set_itail (rear xs) v (h, q) \<noteq> None"
    using thread_slot [OF assms(1)] by (auto simp: set_itail_def split: slot.splits)
  then obtain h' q' where s: "set_itail (rear xs) v (h, q) = Some (h', q')" by auto
  moreover have "(first_itail q', itail_of h') = redirect (rear xs) v (first_itail q, itail_of h)"
    using s by (auto simp: set_itail_def redirect_def split: slot.splits)
  then have "thread (itail_of h') (first_itail q') (xs @ ys) e" using thread_redirect [OF assms] by (metis fst_conv snd_conv)
  moreover have "next_of h' = next_of h" "oob h' = oob h" "contents h' = contents h"
    using s by (auto simp: set_itail_def oob_def contents_def intro!: ext split: slot.splits if_splits)
  moreover have "\<And>a. a \<notin> set xs \<Longrightarrow> h' a = h a" "q' = q\<lparr>first_itail := first_itail q'\<rparr>"
    using s by (auto simp: set_itail_def rear_def split: slot.splits if_splits)
  ultimately show ?thesis by (rule that)
qed

subsection \<open>Taking a line out of the threads\<close>

text \<open>An end of a run, with at most one end before it. The run before it and the one behind it become one.\<close>

lemma unlink_itail_end:
  assumes t: "thread (itail_of h) (first_itail q) (us @ a # vs) None" "distinct (us @ a # vs)" "length us \<le> 1"
    and l: "last_itail q = rear (butlast (us @ a # vs))"
  obtains h' q' where "unlink_itail (rear us) a (h, q) = Some (h', q')"
    "thread (itail_of h') (first_itail q') (if vs = [] then us else vs) None"
    "last_itail q' = rear (butlast (if vs = [] then us else vs))"
    "next_of h' = next_of h" "oob h' = oob h" "contents h' = contents h"
    "q' = q\<lparr>first_itail := first_itail q', last_itail := last_itail q'\<rparr>" "\<And>b. b \<notin> set (us @ a # vs) \<Longrightarrow> h' b = h b"
proof -
  obtain n where n: "thread (itail_of h) (first_itail q) us (Some a)" "itail_of h a = Some n" "thread (itail_of h) n vs None"
    using t(1) by (auto simp: thread_append)
  then obtain t0 where t0: "h a = Some t0" "it_next_itail t0 = n" by auto
  obtain h1 q1 where s1: "set_itail (rear us) None (h, q) = Some (h1, q1)" "thread (itail_of h1) (first_itail q1) (us @ []) None"
      "next_of h1 = next_of h" "oob h1 = oob h" "contents h1 = contents h" "\<And>b. b \<notin> set us \<Longrightarrow> h1 b = h b"
      "q1 = q\<lparr>first_itail := first_itail q1\<rparr>"
    by (rule set_itail_thread [OF n(1), of "[]" None None]) (use t(2) in auto)
  have a1: "h1 a = Some t0" using s1(6) [of a] t0 t(2) by auto
  obtain k where q1: "q1 = q\<lparr>first_itail := k\<rparr>" using s1(7) by blast
  have last1: "last_itail q1 = rear (butlast (us @ a # vs))" using q1 l by simp
  show ?thesis
  proof (cases "vs = []")
    case True
    then have "n = None" using n(3) by simp
    have g: "get_itail h1 q1 (last_itail q1) = Some None" using get_itail_thread [OF s1(2)] last1 True by simp
    have "unlink_itail (rear us) a (h, q) = Some (h1, q1\<lparr>last_itail := Head\<rparr>)"
      using get_itail_thread [OF n(1)] s1(1) a1 t0(2) \<open>n = None\<close> g by (simp add: unlink_itail_def)
    then show ?thesis
      by (rule that) (use s1(2-6) q1 True t(3) in \<open>auto simp: rear_def le_Suc_eq length_Suc_conv\<close>)
  next
    case False
    have "h1 b = h b" if "b \<in> set vs" for b using s1(6) t(2) that by auto
    then have "thread (itail_of h1) n vs None" using n(3) by (subst thread_frame [of vs _ "itail_of h"]) auto
    define h2 where "h2 = h1(a \<mapsto> t0\<lparr>it_next_itail := None\<rparr>)"
    have v2: "thread (itail_of h2) n vs None"
      unfolding h2_def using \<open>thread (itail_of h1) n vs None\<close> t(2) by (subst thread_frame [of vs _ "itail_of h1"]) auto
    have set2: "set_itail (Link a) None (h1, q1\<lparr>first_itail := n\<rparr>) = Some (h2, q1\<lparr>first_itail := n\<rparr>)"
      using a1 by (simp add: set_itail_def h2_def)
    have same: "next_of h2 = next_of h1" "oob h2 = oob h1" "contents h2 = contents h1"
      using a1 by (auto simp: h2_def oob_def contents_def intro!: ext split: if_splits)
    obtain ws w where vs: "vs = ws @ [w]" using False by (cases vs rule: rev_cases) auto
    have g: "get_itail h2 (q1\<lparr>first_itail := n\<rparr>) (last_itail q1) = (if ws = [] then Some None else Some (Some w))"
    proof (cases "ws = []")
      case True
      then show ?thesis using last1 vs by (simp add: rear_def butlast_append get_itail_def h2_def)
    next
      case ws: False
      have "thread (itail_of h2) n ws (Some w)" using v2 by (simp add: vs thread_append)
      then have "get_itail h2 (q1\<lparr>first_itail := n\<rparr>) (rear ws) = Some (Some w)" by (intro get_itail_thread) simp
      then show ?thesis using last1 vs ws by (simp add: rear_def butlast_append)
    qed
    have "unlink_itail (rear us) a (h, q) = Some (h2, if ws = [] then q1\<lparr>first_itail := n, last_itail := Head\<rparr> else q1\<lparr>first_itail := n\<rparr>)"
      using get_itail_thread [OF n(1)] s1(1) a1 t0(2) set2 g thread_start [OF n(3)] False
      by (cases vs) (auto simp: unlink_itail_def)
    then show ?thesis
    proof (rule that)
      show "thread (itail_of h2) (first_itail (if ws = [] then q1\<lparr>first_itail := n, last_itail := Head\<rparr> else q1\<lparr>first_itail := n\<rparr>))
          (if vs = [] then us else vs) None" using v2 False by simp
      show "last_itail (if ws = [] then q1\<lparr>first_itail := n, last_itail := Head\<rparr> else q1\<lparr>first_itail := n\<rparr>) =
          rear (butlast (if vs = [] then us else vs))"
        using last1 vs by (auto simp: rear_def butlast_append)
    qed (use s1(3-6) same q1 in \<open>simp_all add: h2_def\<close>)
  qed
qed

text \<open>The rest of the queue.\<close>

definition same_rest :: "'a iqueue_scheme \<Rightarrow> 'a iqueue_scheme \<Rightarrow> bool" where
  "same_rest q q' \<longleftrightarrow> q' = q\<lparr>first_input := first_input q', last_input := last_input q',
     first_itail := first_itail q', last_itail := last_itail q'\<rparr>"

lemma same_restD: "same_rest q q' \<Longrightarrow> total_input_length q' = total_input_length q \<and> disable_oob q' = disable_oob q \<and> iqueue.more q' = iqueue.more q"
  unfolding same_rest_def by (metis iqueue.select_convs(5,6) iqueue.simps(7) iqueue.surjective iqueue.update_convs(1-4))

text \<open>Both threads without the line, when the lines before it are none or one run of the other class.\<close>

lemma run_ends_remove:
  assumes "xs = [] \<or> (\<forall>b \<in> set xs. P b = (\<not> P a))"
  defines "us \<equiv> if xs = [] then [] else [last xs]"
  shows "run_ends P (xs @ a # ys) = us @ run_ends P (a # ys)"
    "ys \<noteq> [] \<and> P (hd ys) = P a \<Longrightarrow> run_ends P (a # ys) = run_ends P ys \<and> run_ends P (xs @ ys) = us @ run_ends P ys"
    "\<not> (ys \<noteq> [] \<and> P (hd ys) = P a) \<Longrightarrow> run_ends P (a # ys) = a # run_ends P ys \<and>
       run_ends P (xs @ ys) = (if run_ends P ys = [] then us else run_ends P ys)"
proof -
  have f: "run_ends P (xs @ zs) = us @ run_ends P zs" if "zs = [] \<or> P (hd zs) = P a" for zs
    using run_ends_first [of xs P "\<not> P a" zs] assms that by (cases "xs = []") auto
  show "run_ends P (xs @ a # ys) = us @ run_ends P (a # ys)" by (rule f) simp
  show "run_ends P (a # ys) = run_ends P ys \<and> run_ends P (xs @ ys) = us @ run_ends P ys" if "ys \<noteq> [] \<and> P (hd ys) = P a"
    using f [of ys] that by (cases ys) auto
  show "run_ends P (a # ys) = a # run_ends P ys \<and> run_ends P (xs @ ys) = (if run_ends P ys = [] then us else run_ends P ys)"
    if "\<not> (ys \<noteq> [] \<and> P (hd ys) = P a)"
  proof (cases ys)
    case Nil
    then show ?thesis using f [of "[]"] by simp
  next
    case (Cons b zs)
    then show ?thesis using run_ends_same [of xs P b zs] assms(1) that by auto
  qed
qed

lemma unlink_input_ok:
  assumes ok: "iqueue_ok h q (xs @ a # ys)" and x: "xs = [] \<or> (\<forall>b \<in> set xs. oob h b = (\<not> oob h a))"
  obtains h' q' where "unlink_input (rear xs) (rear xs) a (h, q) = Some (h', q')" "iqueue_ok h' q' (xs @ ys)"
    "contents h' = contents h" "same_rest q q'" "\<And>b. b \<notin> set (xs @ a # ys) \<Longrightarrow> h' b = h b"
proof -
  let ?P = "oob h"
  let ?us = "if xs = [] then [] else [last xs]"
  have d: "distinct (xs @ a # ys)" and nt: "thread (next_of h) (first_input q) (xs @ a # ys) None"
    and it: "thread (itail_of h) (first_itail q) (run_ends ?P (xs @ a # ys)) None"
    and li: "last_input q = rear (xs @ a # ys)" and lt: "last_itail q = rear (butlast (run_ends ?P (xs @ a # ys)))"
    using ok by (simp_all add: iqueue_ok_def)
  obtain t n where n: "thread (next_of h) (first_input q) xs (Some a)" "h a = Some t" "it_next t = n" "thread (next_of h) n ys None"
    using nt by (auto simp: thread_append)
  obtain h1 q1 where s1: "set_next (rear xs) n (h, q) = Some (h1, q1)" "thread (next_of h1) (first_input q1) (xs @ ys) None"
      "itail_of h1 = itail_of h" "oob h1 = oob h" "contents h1 = contents h" "\<And>b. b \<notin> set xs \<Longrightarrow> h1 b = h b"
      "q1 = q\<lparr>first_input := first_input q1\<rparr>"
    by (rule set_next_thread [OF n(1) _ _ n(4)]) (use d in auto)
  obtain k where q1: "q1 = q\<lparr>first_input := k\<rparr>" using s1(7) by blast
  have a1: "h1 a = Some t" using s1(6) [of a] n(2) d by simp
  obtain h2 q2 where s2: "(if n = None then Some (h1, q1\<lparr>last_input := rear xs\<rparr>) else set_next (Link a) None (h1, q1)) = Some (h2, q2)"
      "thread (next_of h2) (first_input q2) (xs @ ys) None" "itail_of h2 = itail_of h" "oob h2 = oob h" "contents h2 = contents h"
      "last_input q2 = rear (xs @ ys)" "q2 = q\<lparr>first_input := first_input q2, last_input := last_input q2\<rparr>"
      "\<And>b. b \<notin> set (xs @ a # ys) \<Longrightarrow> h2 b = h b"
  proof (cases n)
    case None
    then have "ys = []" using thread_start [OF n(4)] by (cases ys) auto
    then show ?thesis using that [of h1 "q1\<lparr>last_input := rear xs\<rparr>"] None s1(2-6) q1 by simp
  next
    case (Some b)
    let ?h = "h1(a \<mapsto> t\<lparr>it_next := None\<rparr>)"
    have y: "ys \<noteq> []" using Some n(4) by auto
    have "thread (next_of ?h) (first_input q1) (xs @ ys) None"
      using s1(2) d by (subst thread_frame [of _ _ "next_of h1"]) auto
    moreover have "itail_of ?h = itail_of h1" "oob ?h = oob h1" "contents ?h = contents h1"
      using a1 by (auto simp: oob_def contents_def intro!: ext split: if_splits)
    ultimately show ?thesis
      using that [of ?h q1] Some y a1 s1(3-6) q1 li by (simp add: set_next_def rear_def)
  qed
  obtain k l where q2: "q2 = q\<lparr>first_input := k, last_input := l\<rparr>" using s2(7) by blast
  have un: "unlink_input (rear xs) (rear xs) a (h, q) = unlink_itail (rear xs) a (h2, q2)"
    using n(2,3) s1(1) s2(1) by (cases n) (auto simp: unlink_input_def)
  have r: "rear ?us = rear xs" by (simp add: rear_def)
  note rm = run_ends_remove [OF x, of ys]
  show ?thesis
  proof (cases "ys \<noteq> [] \<and> ?P (hd ys) = ?P a")
    case True
    have it2: "thread (itail_of h2) (first_itail q2) (?us @ run_ends ?P ys) None"
      using it rm(1,2) True q2 s2(3) by simp
    then obtain m where m: "thread (itail_of h2) (first_itail q2) ?us m" "thread (itail_of h2) m (run_ends ?P ys) None"
      by (auto simp: thread_append split del: if_split)
    have "m \<noteq> Some a" using thread_start [OF m(2)] run_ends_subset [of ?P ys] d by (auto split: list.splits)
    then have "unlink_itail (rear xs) a (h2, q2) = Some (h2, q2)"
      using get_itail_thread [OF m(1)] r by (simp add: unlink_itail_def)
    then show ?thesis
      using that [of h2 q2] un s2 it2 rm(1,2) True d lt q2
      by (simp add: iqueue_ok_def same_rest_def split del: if_split)
  next
    case False
    have it2: "thread (itail_of h2) (first_itail q2) (?us @ a # run_ends ?P ys) None"
      using it rm(1,3) False q2 s2(3) by simp
    have d2: "distinct (?us @ a # run_ends ?P ys)"
      using d run_ends_distinct [of ys ?P] run_ends_subset [of ?P ys] by (auto dest: last_in_set)
    obtain h3 q3 where s3: "unlink_itail (rear ?us) a (h2, q2) = Some (h3, q3)"
        "thread (itail_of h3) (first_itail q3) (if run_ends ?P ys = [] then ?us else run_ends ?P ys) None"
        "last_itail q3 = rear (butlast (if run_ends ?P ys = [] then ?us else run_ends ?P ys))"
        "next_of h3 = next_of h2" "oob h3 = oob h2" "contents h3 = contents h2"
        "q3 = q2\<lparr>first_itail := first_itail q3, last_itail := last_itail q3\<rparr>"
        "\<And>b. b \<notin> set (?us @ a # run_ends ?P ys) \<Longrightarrow> h3 b = h2 b"
      by (rule unlink_itail_end [OF it2 d2]) (use lt rm(1,3) False q2 in auto)
    obtain u v where q3: "q3 = q2\<lparr>first_itail := u, last_itail := v\<rparr>" using s3(7) by blast
    show ?thesis
    proof (rule that)
      show "unlink_input (rear xs) (rear xs) a (h, q) = Some (h3, q3)" using un s3(1) r by simp
      have "run_ends (oob h3) (xs @ ys) = (if run_ends ?P ys = [] then ?us else run_ends ?P ys)"
        using rm(3) False s2(4) s3(5) by simp
      then show "iqueue_ok h3 q3 (xs @ ys)"
        using s3(2-4) s2(2,6) q3 d by (simp add: iqueue_ok_def split del: if_split)
      show "contents h3 = contents h" using s2(5) s3(6) by simp
      show "same_rest q q3" using q2 q3 by (simp add: same_rest_def)
      show "h3 b = h b" if "b \<notin> set (xs @ a # ys)" for b
      proof -
        have "b \<notin> set (?us @ a # run_ends ?P ys)" using that run_ends_subset [of ?P ys] by (auto dest: last_in_set)
        then show ?thesis using s3(8) s2(8) that by simp
      qed
    qed
  qed
qed

lemma find_skip: "(\<And>b. b \<in> set xs \<Longrightarrow> \<not> P b) \<Longrightarrow> find P (xs @ ys) = find P ys"
  by (induction xs) auto

text \<open>The lines a reader asks for: without out-of-band lines there are none to ask for, and every line is as good.\<close>

definition wanted :: "dequeue_how \<Rightarrow> bool \<Rightarrow> task_kind \<Rightarrow> bool" where
  "wanted how no_oob k = (if no_oob then how \<noteq> DQ_OOB
     else case how of DQ_FIRST \<Rightarrow> True | DQ_OOB \<Rightarrow> k = TASK_OOB | DQ_INBAND \<Rightarrow> k \<noteq> TASK_OOB)"

definition kind_of :: "inputs \<Rightarrow> nat \<Rightarrow> task_kind" where
  "kind_of h a = it_kind (the (h a))"

lemma iqueue_alloc: "iqueue_ok h q as \<Longrightarrow> a \<in> set as \<Longrightarrow> h a \<noteq> None"
  by (auto simp: iqueue_ok_def dest: thread_alloc)

lemma oob_kind: "h a \<noteq> None \<Longrightarrow> oob h a \<longleftrightarrow> kind_of h a = TASK_OOB"
  by (auto simp: oob_def kind_of_def)

lemma take_input_ok:
  assumes ok: "iqueue_ok h q as"
  shows "case find (\<lambda>a. wanted how (disable_oob q) (kind_of h a)) as of
      None \<Rightarrow> take_input how h q = Some (None, h, q)
    | Some a \<Rightarrow> \<exists>h' q'. take_input how h q = Some (Some a, h', q') \<and> iqueue_ok h' q' (remove1 a as) \<and> contents h' = contents h \<and> same_rest q q' \<and>
        (\<forall>b. b \<notin> set as \<longrightarrow> h' b = h b)"
proof (cases "disable_oob q \<and> how = DQ_OOB \<or> as = []")
  case True
  then show ?thesis using ok by (auto simp: take_input_def wanted_def iqueue_ok_def find_None_iff split: option.split)
next
  case False
  then obtain f as' where as: "as = f # as'" by (cases as) auto
  define W where "W = (\<lambda>a. wanted how (disable_oob q) (kind_of h a))"
  define how' where "how' = (if disable_oob q then DQ_FIRST else how)"
  have f: "first_input q = Some f" "h f \<noteq> None" using ok iqueue_alloc [OF ok] by (auto simp: iqueue_ok_def as)
  have step: "take_input how h q = (do {
      (pt, pitail) \<leftarrow> wanted_slots how' h q f;
      a \<leftarrow> get_next h q pt;
      case a of None \<Rightarrow> Some (None, h, q) | Some a \<Rightarrow> map_option (Pair (Some a)) (unlink_input pt pitail a (h, q))})"
    using False f(1) by (auto simp: take_input_def how'_def)
  have head: "(how_number how' = of_bool (kind_of h f = TASK_OOB)) = (\<not> W f)"
    using False by (cases how) (auto simp: W_def wanted_def how'_def as)
  show ?thesis
  proof (cases "W f")
    case True
    have "wanted_slots how' h q f = Some (Head, Head)"
      using head True f(2) by (auto simp: wanted_slots_def kind_of_def)
    moreover have "iqueue_ok h q ([] @ f # as')" using ok as by simp
    then obtain h' q' where "unlink_input (rear []) (rear []) f (h, q) = Some (h', q')" "iqueue_ok h' q' ([] @ as')"
      "contents h' = contents h" "same_rest q q'" "\<And>b. b \<notin> set ([] @ f # as') \<Longrightarrow> h' b = h b" by (rule unlink_input_ok) (simp, blast)
    ultimately have "take_input how h q = Some (Some f, h', q') \<and> iqueue_ok h' q' as' \<and> contents h' = contents h \<and> same_rest q q' \<and>
        (\<forall>b. b \<notin> set as \<longrightarrow> h' b = h b)"
      using f(1) step by (simp add: rear_def get_next_def as)
    then show ?thesis using True by (auto simp: as W_def [symmetric])
  next
    case out: False
    then have no: "disable_oob q = False" "how \<noteq> DQ_FIRST" using False by (cases how; auto simp: W_def wanted_def as split: if_splits)+
    let ?same = "\<lambda>b. oob h b = oob h f"
    define xs ys where "xs = takeWhile ?same as" and "ys = dropWhile ?same as"
    have xy: "as = xs @ ys" "xs \<noteq> []" "\<And>b. b \<in> set xs \<Longrightarrow> oob h b = oob h f" "ys = [] \<or> oob h (hd ys) = (\<not> oob h f)"
      using as hd_dropWhile [of ?same as] by (auto simp: xs_def ys_def dest: set_takeWhileD)
    have kind: "W b = (oob h b \<noteq> oob h f)" if "b \<in> set as" for b
      using that out no iqueue_alloc [OF ok] oob_kind [of h b] oob_kind [of h f] by (cases how) (auto simp: W_def wanted_def as)
    have "run_ends (oob h) as = last xs # run_ends (oob h) ys"
      using run_ends_first [OF xy(2), of "oob h" "oob h f" ys] xy by simp
    then have "first_itail q = Some (last xs)" using ok by (simp add: iqueue_ok_def)
    then have ws: "wanted_slots how' h q f = Some (rear xs, rear xs)"
      using head out f(2) xy(2) by (auto simp: wanted_slots_def kind_of_def rear_def)
    obtain m where m: "thread (next_of h) (first_input q) xs m" "thread (next_of h) m ys None"
      using ok by (auto simp: iqueue_ok_def xy(1) thread_append)
    have gn: "get_next h q (rear xs) = Some m" by (rule get_next_thread [OF m(1)])
    have notin: "find W as = find W ys" using kind xy(3) by (simp add: xy(1) find_skip)
    show ?thesis
    proof (cases ys)
      case Nil
      then show ?thesis using ws gn m(2) step notin by (simp add: W_def)
    next
      case (Cons a zs)
      have "oob h b = (\<not> oob h a)" if "b \<in> set xs" for b using xy(3) [OF that] xy(4) Cons by simp
      then obtain h' q' where u: "unlink_input (rear xs) (rear xs) a (h, q) = Some (h', q')" "iqueue_ok h' q' (xs @ zs)"
        "contents h' = contents h" "same_rest q q'" "\<And>b. b \<notin> set as \<Longrightarrow> h' b = h b"
        using unlink_input_ok [of h q xs a zs] ok xy(1) Cons by (metis (no_types, lifting))
      have "a \<notin> set xs" using ok xy(1) Cons by (auto simp: iqueue_ok_def)
      then have "remove1 a as = xs @ zs" by (simp add: xy(1) Cons remove1_append)
      moreover have "find W as = Some a" using notin kind [of a] xy(4) Cons by (simp add: xy(1))
      ultimately show ?thesis using ws gn m(2) Cons u step by (simp add: W_def)
    qed
  qed
qed

subsection \<open>Putting a line into the threads\<close>

lemma thread_butlast: "thread g p as None \<Longrightarrow> as \<noteq> [] \<Longrightarrow> thread g p (butlast as) (Some (last as)) \<and> g (last as) = Some None"
  by (cases as rule: rev_cases) (auto simp: thread_append)

lemma thread_snoc: "thread g p (xs @ [a]) None \<longleftrightarrow> thread g p xs (Some a) \<and> g a = Some None"
  by (auto simp: thread_append)

lemma thread_cut: "thread g p xs m \<Longrightarrow> p = (case xs of [] \<Rightarrow> m | a # _ \<Rightarrow> Some a)"
  by (cases xs) auto

text \<open>The end of the last run: replaced by the new line, or followed by it.\<close>

lemma link_at_rear_ok:
  assumes ok: "iqueue_ok h q as" and a: "a \<notin> set as" and t: "h a = Some t" "it_next_itail t = None"
  obtains h' q' where "link_at_rear a (h, q) = Some (h', q')" "iqueue_ok h' q' (as @ [a])" "contents h' = contents h" "same_rest q q'"
    "\<And>b. b \<notin> insert a (set as) \<Longrightarrow> h' b = h b"
proof -
  let ?P = "oob h"
  let ?es = "run_ends ?P as"
  let ?zs = "if as = [] \<or> ?P (last as) \<noteq> ?P a then ?es else butlast ?es"
  have d: "distinct as" "distinct ?es" "set ?es \<subseteq> set as" and nt: "thread (next_of h) (first_input q) as None"
    and it: "thread (itail_of h) (first_itail q) ?es None"
    and li: "last_input q = rear as" and lt: "last_itail q = rear (butlast ?es)"
    using ok run_ends_distinct run_ends_subset by (auto simp: iqueue_ok_def)
  have zs: "run_ends ?P (as @ [a]) = ?zs @ [a]" by (auto simp: run_ends_snoc)
  have "\<exists>q1. (if first_input q = None then Some q else (do {
        e \<leftarrow> get_itail h q (last_itail q); e \<leftarrow> e; l \<leftarrow> h e;
        Some (if (it_kind l = TASK_OOB) \<noteq> (it_kind t = TASK_OOB) then q\<lparr>last_itail := Link e\<rparr> else q) })) = Some q1 \<and>
      q1 = q\<lparr>last_itail := rear ?zs\<rparr>"
  proof (cases "as = []")
    case True
    then show ?thesis using nt lt by (simp add: rear_def)
  next
    case False
    have l: "last ?es = last as" using run_ends_last [OF False] .
    have g: "get_itail h q (last_itail q) = Some (Some (last as))"
      unfolding lt using thread_butlast [OF it] False l by (intro get_itail_thread) simp
    obtain l where lc: "h (last as) = Some l" using iqueue_alloc [OF ok] False by fastforce
    have "first_input q \<noteq> None" using nt False by (cases as) auto
    moreover have "rear ?es = Link (last as)" using False l by (simp add: rear_def)
    ultimately show ?thesis using g lc t(1) lt False by (auto simp: oob_def)
  qed
  then obtain q1 where q1: "(if first_input q = None then Some q else (do {
        e \<leftarrow> get_itail h q (last_itail q); e \<leftarrow> e; l \<leftarrow> h e;
        Some (if (it_kind l = TASK_OOB) \<noteq> (it_kind t = TASK_OOB) then q\<lparr>last_itail := Link e\<rparr> else q) })) = Some q1"
      "q1 = q\<lparr>last_itail := rear ?zs\<rparr>" by blast
  have "\<exists>m. thread (itail_of h) (first_itail q1) ?zs m"
  proof (cases "as = [] \<or> ?P (last as) \<noteq> ?P a")
    case True
    then show ?thesis using it q1(2) by (auto split del: if_split)
  next
    case False
    then show ?thesis using thread_butlast [OF it] q1(2) by auto
  qed
  then obtain m where m: "thread (itail_of h) (first_itail q1) ?zs m" by blast
  have zd: "distinct ?zs" "set ?zs \<subseteq> set as" using d by (auto simp: distinct_butlast dest: in_set_butlastD)
  obtain h2 q2 where s2: "set_itail (rear ?zs) (Some a) (h, q1) = Some (h2, q2)" "thread (itail_of h2) (first_itail q2) (?zs @ [a]) None"
      "next_of h2 = next_of h" "oob h2 = oob h" "contents h2 = contents h" "\<And>b. b \<notin> set ?zs \<Longrightarrow> h2 b = h b"
      "q2 = q1\<lparr>first_itail := first_itail q2\<rparr>"
    by (rule set_itail_thread [OF m zd(1), of "[a]" "Some a" None]) (use zd(2) a t in auto)
  obtain i where q2: "q2 = q1\<lparr>first_itail := i\<rparr>" using s2(7) by blast
  have n2: "thread (next_of h2) (first_input q2) as None" using nt s2(3) q2 q1(2) by simp
  obtain n where n: "next_of h2 a = Some n" using fun_cong [OF s2(3), of a] t by auto
  have "\<exists>h3 q3 h4 q4. set_next (last_input q2) (Some a) (h2, q2) = Some (h3, q3) \<and>
      set_next (Link a) None (h3, q3\<lparr>last_input := Link a\<rparr>) = Some (h4, q4) \<and>
      thread (next_of h4) (first_input q4) (as @ [a]) None \<and> itail_of h4 = itail_of h2 \<and> oob h4 = oob h2 \<and> contents h4 = contents h2 \<and>
      (\<exists>f. q4 = q2\<lparr>first_input := f, last_input := Link a\<rparr>) \<and> (\<forall>b. b \<notin> insert a (set as) \<longrightarrow> h4 b = h2 b)"
  proof -
    obtain h3 q3 where s3: "set_next (rear as) (Some a) (h2, q2) = Some (h3, q3)" "thread (next_of h3) (first_input q3) (as @ []) (Some a)"
        "itail_of h3 = itail_of h2" "oob h3 = oob h2" "contents h3 = contents h2" "\<And>b. b \<notin> set as \<Longrightarrow> h3 b = h2 b"
        "q3 = q2\<lparr>first_input := first_input q3\<rparr>"
      by (rule set_next_thread [OF n2 d(1), of "[]" "Some a" "Some a"]) auto
    obtain f where q3: "q3 = q2\<lparr>first_input := f\<rparr>" using s3(7) by blast
    obtain t3 where t3: "h3 a = Some t3" using s3(6) [OF a] n by auto
    let ?h = "h3(a \<mapsto> t3\<lparr>it_next := None\<rparr>)"
    have "thread (next_of ?h) (first_input q3) as (Some a)" using s3(2) a by (subst thread_frame [of _ _ "next_of h3"]) auto
    then have "thread (next_of ?h) (first_input q3) (as @ [a]) None" by (simp add: thread_snoc)
    moreover have "itail_of ?h = itail_of h3" "oob ?h = oob h3" "contents ?h = contents h3"
      using t3 by (auto simp: oob_def contents_def intro!: ext split: if_splits)
    moreover have "last_input q2 = rear as" using li q2 q1(2) by simp
    ultimately show ?thesis using s3 t3 q3 by (auto simp: set_next_def)
  qed
  then obtain h3 q3 h4 q4 f where s4: "set_next (last_input q2) (Some a) (h2, q2) = Some (h3, q3)"
      "set_next (Link a) None (h3, q3\<lparr>last_input := Link a\<rparr>) = Some (h4, q4)"
      "thread (next_of h4) (first_input q4) (as @ [a]) None" "itail_of h4 = itail_of h2" "oob h4 = oob h2" "contents h4 = contents h2"
      "q4 = q2\<lparr>first_input := f, last_input := Link a\<rparr>" "\<And>b. b \<notin> insert a (set as) \<Longrightarrow> h4 b = h2 b" by blast
  show ?thesis
  proof (rule that)
    have "last_itail q1 = rear ?zs" using q1(2) by simp
    then show "link_at_rear a (h, q) = Some (h4, q4)"
      using t(1) q1(1) s2(1) s4(1,2) by (simp add: link_at_rear_def split del: if_split cong del: if_weak_cong)
    show "iqueue_ok h4 q4 (as @ [a])"
      using d a s4(3-5,7) s2(2,4) q2 q1(2) zs by (simp add: iqueue_ok_def rear_def split del: if_split)
    show "contents h4 = contents h" using s4(6) s2(5) by simp
    show "same_rest q q4" using s4(7) q2 q1(2) by (simp add: same_rest_def)
    show "h4 b = h b" if "b \<notin> insert a (set as)" for b using s4(8) [OF that] s2(6) [of b] that zd(2) by auto
  qed
qed

lemma link_at_front_ok:
  assumes ok: "iqueue_ok h q (f # as)" and a: "a \<notin> set (f # as)" and t: "h a = Some t"
  obtains h' q' where "link_at_front a f (h, q) = Some (h', q')" "iqueue_ok h' q' (a # f # as)" "contents h' = contents h" "same_rest q q'"
    "\<And>b. b \<noteq> a \<Longrightarrow> h' b = h b"
proof -
  let ?P = "oob h"
  let ?es = "run_ends ?P (f # as)"
  have d: "distinct (f # as)" "set ?es \<subseteq> set (f # as)" and nt: "thread (next_of h) (first_input q) (f # as) None"
    and it: "thread (itail_of h) (first_itail q) ?es None"
    and li: "last_input q = rear (f # as)" and lt: "last_itail q = rear (butlast ?es)"
    using ok run_ends_subset [of ?P "f # as"] by (auto simp: iqueue_ok_def)
  obtain tf where tf: "h f = Some tf" using nt by auto
  have fa: "first_input q = Some f" using nt by simp
  define same where "same \<longleftrightarrow> (it_kind tf = TASK_OOB) = (it_kind t = TASK_OOB)"
  have P: "(?P a = ?P f) = same" using t tf by (auto simp: same_def oob_def)
  let ?h1 = "if same then h else h(a \<mapsto> t\<lparr>it_next_itail := first_itail q\<rparr>)"
  let ?q1 = "if same then q else q\<lparr>first_itail := Some a, last_itail := (if last_itail q = Head then Link a else last_itail q)\<rparr>"
  let ?t1 = "if same then t else t\<lparr>it_next_itail := first_itail q\<rparr>"
  let ?h2 = "?h1(a \<mapsto> ?t1\<lparr>it_next := Some f\<rparr>)"
  have l: "link_at_front a f (h, q) = Some (?h2, ?q1\<lparr>first_input := Some a\<rparr>)"
    using t tf fa by (auto simp: link_at_front_def set_itail_def set_next_def same_def)
  have cells: "oob ?h2 = oob h" "contents ?h2 = contents h"
    using t by (auto simp: oob_def contents_def intro!: ext split: if_splits)
  have "thread (next_of ?h2) (Some f) (f # as) None"
    using nt a fa by (subst thread_frame [of _ _ "next_of h"]) auto
  then have n2: "thread (next_of ?h2) (Some a) (a # f # as) None" by simp
  have e2: "run_ends (oob ?h2) (a # f # as) = (if same then ?es else a # ?es)" unfolding cells using P by simp
  have "thread (itail_of ?h2) (first_itail q) ?es None"
    using it a d(2) by (subst thread_frame [of _ _ "itail_of h"]) auto
  then have i2: "thread (itail_of ?h2) (first_itail ?q1) (if same then ?es else a # ?es) None" by simp
  have l2: "last_itail ?q1 = rear (butlast (if same then ?es else a # ?es))"
    using lt by (auto simp: rear_def)
  show ?thesis
  proof (rule that [OF l])
    show "iqueue_ok ?h2 (?q1\<lparr>first_input := Some a\<rparr>) (a # f # as)"
      unfolding iqueue_ok_def e2
    proof (intro conjI)
      show "distinct (a # f # as)" using d(1) a by simp
      show "thread (next_of ?h2) (first_input (?q1\<lparr>first_input := Some a\<rparr>)) (a # f # as) None" using n2 by simp
      show "last_input (?q1\<lparr>first_input := Some a\<rparr>) = rear (a # f # as)" using li by (simp add: rear_def)
      show "thread (itail_of ?h2) (first_itail (?q1\<lparr>first_input := Some a\<rparr>)) (if same then ?es else a # ?es) None" using i2 by simp
      show "last_itail (?q1\<lparr>first_input := Some a\<rparr>) = rear (butlast (if same then ?es else a # ?es))" using l2 by simp
    qed
  qed (use cells in \<open>auto simp: same_rest_def\<close>)
qed

lemma iqueue_frame:
  assumes ok: "iqueue_ok h q as" and h: "\<And>b. b \<in> set as \<Longrightarrow> next_of h' b = next_of h b \<and> itail_of h' b = itail_of h b \<and> oob h' b = oob h b"
  shows "iqueue_ok h' q as"
proof -
  have "run_ends (oob h') as = run_ends (oob h) as" by (rule run_ends_cong) (simp add: h)
  moreover have "thread (next_of h') p as None = thread (next_of h) p as None" for p by (rule thread_frame) (simp add: h)
  moreover have "thread (itail_of h') p (run_ends (oob h) as) None = thread (itail_of h) p (run_ends (oob h) as) None" for p
    by (rule thread_frame) (use h run_ends_subset in blast)
  ultimately show ?thesis using ok by (simp add: iqueue_ok_def)
qed

lemma iqueue_rest: "iqueue_ok h (q\<lparr>total_input_length := n\<rparr>) as = iqueue_ok h q as" "iqueue_ok h (q\<lparr>disable_oob := b\<rparr>) as = iqueue_ok h q as"
  by (simp_all add: iqueue_ok_def)

lemma add_input_ok:
  assumes ok: "iqueue_ok h q as" and a: "h a = None"
  obtains h' q' where "add_input a s at_front binary h q = Some (h', q')" "iqueue_ok h' q' (if at_front then a # as else as @ [a])"
    "contents h' = (contents h)(a \<mapsto> (input_kind binary s, s, to_int32 (int (length s))))"
    "total_input_length q' = to_int32 (total_input_length q + to_int32 (int (length s)))"
    "disable_oob q' = disable_oob q" "iqueue.more q' = iqueue.more q" "\<And>b. b \<notin> insert a (set as) \<Longrightarrow> h' b = h b"
proof -
  let ?t = "\<lparr>it_kind = input_kind binary s, it_string = s, it_length = to_int32 (int (length s)), it_next = None, it_next_itail = None\<rparr>"
  let ?h = "h(a \<mapsto> ?t)" and ?q = "q\<lparr>total_input_length := to_int32 (total_input_length q + to_int32 (int (length s)))\<rparr>"
  have new: "a \<notin> set as" using iqueue_alloc [OF ok, of a] a by auto
  then have ok': "iqueue_ok ?h ?q as" unfolding iqueue_rest by (intro iqueue_frame [OF ok]) (auto simp: oob_def)
  have c: "contents ?h = (contents h)(a \<mapsto> (input_kind binary s, s, to_int32 (int (length s))))"
    by (auto simp: contents_def)
  have f: "first_input ?q = (case as of [] \<Rightarrow> None | f # _ \<Rightarrow> Some f)" using ok thread_start by (auto simp: iqueue_ok_def)
  have "\<exists>h' q'. add_input a s at_front binary h q = Some (h', q') \<and> iqueue_ok h' q' (if at_front then a # as else as @ [a]) \<and>
      contents h' = contents ?h \<and> same_rest ?q q' \<and> (\<forall>b. b \<notin> insert a (set as) \<longrightarrow> h' b = h b)"
  proof (cases "at_front \<and> as \<noteq> []")
    case True
    then obtain f as' where as: "as = f # as'" by (cases as) auto
    obtain h' q' where "link_at_front a f (?h, ?q) = Some (h', q')" "iqueue_ok h' q' (a # f # as')" "contents h' = contents ?h" "same_rest ?q q'"
        "\<And>b. b \<noteq> a \<Longrightarrow> h' b = ?h b"
      by (rule link_at_front_ok [of ?h ?q f as' a ?t]) (use ok' new as in auto)
    then show ?thesis using True f as by (simp add: add_input_def)
  next
    case False
    obtain h' q' where "link_at_rear a (?h, ?q) = Some (h', q')" "iqueue_ok h' q' (as @ [a])" "contents h' = contents ?h" "same_rest ?q q'"
        "\<And>b. b \<notin> insert a (set as) \<Longrightarrow> h' b = ?h b"
      by (rule link_at_rear_ok [of ?h ?q as a ?t]) (use ok' new in auto)
    then show ?thesis using False f by (cases as) (auto simp: add_input_def)
  qed
  then show ?thesis using c that by (fastforce dest!: same_restD)
qed

subsection \<open>Serving requests\<close>

text \<open>Lines are added and taken, and the handling of out-of-band lines is switched, in any order. A line that was taken is
  copied out of its cell, and the cell is freed.\<close>

datatype request = Add string bool bool | Take dequeue_how | Disable bool

fun serve :: "request \<Rightarrow> nat \<times> inputs \<times> iqueue \<Rightarrow> ((task_kind \<times> string) option \<times> nat \<times> inputs \<times> iqueue) option" where
  "serve (Add s at_front binary) (n, h, q) = map_option (\<lambda>(h, q). (None, n + 1, h, q)) (add_input n s at_front binary h q)"
| "serve (Take how) (n, h, q) = (do {
     (r, h, q) \<leftarrow> take_input how h q;
     case r of None \<Rightarrow> Some (None, n, h, q)
     | Some a \<Rightarrow> do {
         (h, q) \<leftarrow> uncount_input a (h, q);
         t \<leftarrow> h a;
         Some (Some (it_kind t, it_string t), n, h(a := None), q)
       }
   })"
| "serve (Disable b) (n, h, q) = Some (None, n, h, q\<lparr>disable_oob := b\<rparr>)"

fun serve_all :: "request list \<Rightarrow> nat \<times> inputs \<times> iqueue \<Rightarrow> ((task_kind \<times> string) option list \<times> nat \<times> inputs \<times> iqueue) option" where
  "serve_all [] st = Some ([], st)"
| "serve_all (r # rs) st = (do { (x, st) \<leftarrow> serve r st; (xs, st) \<leftarrow> serve_all rs st; Some (x # xs, st) })"

definition empty_iqueue :: iqueue where
  "empty_iqueue = \<lparr>first_input = None, last_input = Head, first_itail = None, last_itail = Head, total_input_length = 0, disable_oob = False\<rparr>"

text \<open>The same on a list of lines.\<close>

definition read_line :: "bool \<Rightarrow> task_kind \<times> string \<Rightarrow> task_kind \<times> string" where
  "read_line no_oob l = (case l of (k, s) \<Rightarrow> (case k of
     TASK_OOB \<Rightarrow> (if no_oob then TASK_INBAND else TASK_OOB, s)
   | TASK_QUOTED \<Rightarrow> (TASK_INBAND, if no_oob then s else drop (length oob_quote_prefix) s)
   | _ \<Rightarrow> (k, s)))"

fun serve_list :: "request \<Rightarrow> bool \<times> (task_kind \<times> string) list \<Rightarrow> (task_kind \<times> string) option \<times> bool \<times> (task_kind \<times> string) list" where
  "serve_list (Add s at_front binary) (d, ls) =
    (None, d, if at_front then (input_kind binary s, s) # ls else ls @ [(input_kind binary s, s)])"
| "serve_list (Take how) (d, ls) = (case List.extract (\<lambda>l. wanted how d (fst l)) ls of
     None \<Rightarrow> (None, d, ls)
   | Some (us, l, vs) \<Rightarrow> (Some (read_line d l), d, us @ vs))"
| "serve_list (Disable b) (d, ls) = (None, b, ls)"

fun serve_lists :: "request list \<Rightarrow> bool \<times> (task_kind \<times> string) list \<Rightarrow> (task_kind \<times> string) option list" where
  "serve_lists [] st = []"
| "serve_lists (r # rs) st = (let (x, st) = serve_list r st in x # serve_lists rs st)"

text \<open>The relation between the two: the cells of the lines, and the lengths of all lines together.\<close>

definition lines :: "inputs \<Rightarrow> nat list \<Rightarrow> (task_kind \<times> string) list" where
  "lines h as = map (\<lambda>a. (it_kind (the (h a)), it_string (the (h a)))) as"

definition lengths_ok :: "inputs \<Rightarrow> 'a iqueue_scheme \<Rightarrow> nat list \<Rightarrow> bool" where
  "lengths_ok h q as \<longleftrightarrow> (\<forall>a \<in> set as. it_length (the (h a)) = to_int32 (int (length (it_string (the (h a)))))) \<and>
     total_input_length q = to_int32 (\<Sum>a \<leftarrow> as. int (length (it_string (the (h a)))))"

definition represents :: "nat \<times> inputs \<times> iqueue \<Rightarrow> bool \<times> (task_kind \<times> string) list \<Rightarrow> bool" where
  "represents st d_ls \<longleftrightarrow> (case st of (n, h, q) \<Rightarrow> \<exists>as. iqueue_ok h q as \<and> lengths_ok h q as \<and> d_ls = (disable_oob q, lines h as) \<and>
     (\<forall>a \<ge> n. h a = None))"

lemma to_int32_mod: "to_int32 x mod 2 ^ 32 = x mod 2 ^ 32"
proof -
  have "take_bit 32 (signed_take_bit 31 x) = take_bit 32 x" by (rule take_bit_signed_take_bit) simp
  then show ?thesis by (simp add: to_int32_def take_bit_eq_mod)
qed

lemma to_int32_cong: "to_int32 x = to_int32 y \<longleftrightarrow> x mod 2 ^ 32 = y mod 2 ^ 32"
  by (simp add: to_int32_def signed_take_bit_eq_iff_take_bit_eq take_bit_eq_mod)

lemma to_int32_add: "to_int32 (to_int32 x + y) = to_int32 (x + y)" "to_int32 (x + to_int32 y) = to_int32 (x + y)"
  "to_int32 (to_int32 x - y) = to_int32 (x - y)" "to_int32 (x - to_int32 y) = to_int32 (x - y)"
  unfolding to_int32_cong by (metis mod_add_left_eq mod_add_right_eq mod_diff_left_eq mod_diff_right_eq to_int32_mod)+

text \<open>What the list of lines and the lengths are, from the contents of the cells.\<close>

lemma lines_cong: "(\<And>a. a \<in> set as \<Longrightarrow> contents h' a = contents h a \<and> h a \<noteq> None) \<Longrightarrow> lines h' as = lines h as"
  by (fastforce simp: lines_def contents_def)

lemma length_cell: "a \<in> set as \<Longrightarrow> lengths_ok h q as \<Longrightarrow> it_length (the (h a)) = to_int32 (int (length (it_string (the (h a)))))"
  by (simp add: lengths_ok_def)

lemma lengths_cong:
  "(\<And>a. a \<in> set as \<Longrightarrow> contents h' a = contents h a \<and> h a \<noteq> None) \<Longrightarrow> total_input_length q' = total_input_length q \<Longrightarrow>
     lengths_ok h' q' as = lengths_ok h q as"
proof -
  assume c: "\<And>a. a \<in> set as \<Longrightarrow> contents h' a = contents h a \<and> h a \<noteq> None" and t: "total_input_length q' = total_input_length q"
  have e: "it_length (the (h' a)) = it_length (the (h a)) \<and> it_string (the (h' a)) = it_string (the (h a))" if "a \<in> set as" for a
    using c [OF that] by (auto simp: contents_def)
  then have "(\<Sum>a \<leftarrow> as. int (length (it_string (the (h' a))))) = (\<Sum>a \<leftarrow> as. int (length (it_string (the (h a)))))"
    by (intro arg_cong [where f = sum_list] map_cong) auto
  then show ?thesis using e t by (simp add: lengths_ok_def)
qed

lemma lengths_remove:
  assumes ok: "lengths_ok h q as" and d: "distinct as" "a \<in> set as"
    and c: "\<And>b. b \<in> set (remove1 a as) \<Longrightarrow> contents h' b = contents h b \<and> h b \<noteq> None"
    and t: "total_input_length q' = to_int32 (total_input_length q - it_length (the (h a)))"
  shows "lengths_ok h' q' (remove1 a as)"
proof -
  let ?q = "q\<lparr>total_input_length := total_input_length q'\<rparr>"
  have "lengths_ok h ?q (remove1 a as)"
    using ok d t sum_list_map_remove1 [OF d(2), of "\<lambda>a. int (length (it_string (the (h a))))"]
    by (auto simp: lengths_ok_def to_int32_add)
  then show ?thesis using lengths_cong [of "remove1 a as" h' h q' ?q] c by simp
qed

lemma lengths_add:
  assumes ok: "lengths_ok h q as" and c: "\<And>b. b \<in> set as \<Longrightarrow> contents h' b = contents h b \<and> h b \<noteq> None"
    and a: "contents h' a = Some (k, s, to_int32 (int (length s)))"
    and t: "total_input_length q' = to_int32 (total_input_length q + to_int32 (int (length s)))"
  shows "lengths_ok h' q' (a # as) \<and> lengths_ok h' q' (as @ [a])"
proof -
  have "lengths_ok h' (q'\<lparr>total_input_length := total_input_length q\<rparr>) as"
    using ok lengths_cong [of as h' h "q'\<lparr>total_input_length := total_input_length q\<rparr>" q] c by simp
  then show ?thesis using a t by (auto simp: lengths_ok_def to_int32_add add.commute contents_def)
qed

lemma extract_lines:
  assumes "distinct as"
  shows "List.extract (\<lambda>l. P (fst l)) (lines h as) = (case find (\<lambda>a. P (kind_of h a)) as of None \<Rightarrow> None
    | Some a \<Rightarrow> Some (lines h (takeWhile (\<lambda>b. \<not> P (kind_of h b)) as), (kind_of h a, it_string (the (h a))),
        lines h (tl (dropWhile (\<lambda>b. \<not> P (kind_of h b)) as))))"
  by (induction as) (auto simp: lines_def kind_of_def extract_Nil_code extract_Cons_code split: option.splits)

lemma remove_first: "distinct as \<Longrightarrow> find P as = Some a \<Longrightarrow> remove1 a as = takeWhile (\<lambda>b. \<not> P b) as @ tl (dropWhile (\<lambda>b. \<not> P b) as)"
  by (induction as) (auto split: if_splits simp: find_Some_iff)

lemma serve_refines:
  assumes r: "represents st al"
  obtains x st' where "serve rq st = Some (x, st')" "fst (serve_list rq al) = x" "represents st' (snd (serve_list rq al))"
proof -
  obtain n h q where st: "st = (n, h, q)" by (cases st)
  obtain as where as: "iqueue_ok h q as" "lengths_ok h q as" "al = (disable_oob q, lines h as)" "\<And>a. a \<ge> n \<Longrightarrow> h a = None"
    using r by (auto simp: represents_def st)
  have cells: "h a \<noteq> None" if "a \<in> set as" for a using iqueue_alloc [OF as(1) that] .
  have dist: "distinct as" using as(1) by (simp add: iqueue_ok_def)
  have "\<exists>x st'. serve rq st = Some (x, st') \<and> fst (serve_list rq al) = x \<and> represents st' (snd (serve_list rq al))"
  proof (cases rq)
    case (Disable b)
    then show ?thesis using as by (auto simp: st represents_def iqueue_rest lengths_ok_def intro!: exI [of _ as])
  next
    case (Add s at_front binary)
    obtain h' q' where a: "add_input n s at_front binary h q = Some (h', q')" "iqueue_ok h' q' (if at_front then n # as else as @ [n])"
      "contents h' = (contents h)(n \<mapsto> (input_kind binary s, s, to_int32 (int (length s))))"
      "total_input_length q' = to_int32 (total_input_length q + to_int32 (int (length s)))"
      "disable_oob q' = disable_oob q" "iqueue.more q' = iqueue.more q"
      by (rule add_input_ok [OF as(1), of n s at_front binary]) (use as(4) in auto)
    have n: "n \<notin> set as" using cells [of n] as(4) [of n] by auto
    obtain t where t: "h' n = Some t" "it_kind t = input_kind binary s" "it_string t = s" "it_length t = to_int32 (int (length s))"
      using fun_cong [OF a(3), of n] by (auto simp: contents_def)
    have old: "contents h' b = contents h b \<and> h b \<noteq> None" if "b \<in> set as" for b
      using a(3) n that cells [OF that] by auto
    have "h' b = None" if "b \<ge> n + 1" for b
      using fun_cong [OF a(3), of b] as(4) [of b] that by (auto simp: contents_def)
    moreover have "lengths_ok h' q' (if at_front then n # as else as @ [n])"
      using lengths_add [where h' = h' and a = n, OF as(2) old _ a(4)] a(3) by auto
    moreover have "lines h' as = lines h as" using lines_cong old by blast
    then have "lines h' (if at_front then n # as else as @ [n]) =
        (if at_front then (input_kind binary s, s) # lines h as else lines h as @ [(input_kind binary s, s)])"
      using t by (simp add: lines_def)
    ultimately show ?thesis using Add a as(3) by (auto simp: st represents_def intro!: exI)
  next
    case (Take how)
    define P where "P = wanted how (disable_oob q)"
    have spec: "case find (\<lambda>a. P (kind_of h a)) as of None \<Rightarrow> take_input how h q = Some (None, h, q)
      | Some a \<Rightarrow> \<exists>h' q'. take_input how h q = Some (Some a, h', q') \<and> iqueue_ok h' q' (remove1 a as) \<and> contents h' = contents h \<and> same_rest q q' \<and>
        (\<forall>b. b \<notin> set as \<longrightarrow> h' b = h b)"
      using take_input_ok [OF as(1)] by (simp add: P_def)
    show ?thesis
    proof (cases "find (\<lambda>a. P (kind_of h a)) as")
      case None
      then show ?thesis
        using Take spec as extract_lines [OF dist, of P h] by (auto simp: st represents_def P_def)
    next
      case (Some a)
      then obtain h' q' where t: "take_input how h q = Some (Some a, h', q')" "iqueue_ok h' q' (remove1 a as)"
        "contents h' = contents h" "same_rest q q'" using spec by auto
      have a: "a \<in> set as" using Some by (auto simp: find_Some_iff)
      obtain c where c: "h a = Some c" using cells [OF a] by auto
      then obtain c' where c': "h' a = Some c'" "it_kind c' = it_kind c" "it_string c' = it_string c" "it_length c' = it_length c"
        using fun_cong [OF t(3), of a] by (auto simp: contents_def)
      let ?q = "q'\<lparr>total_input_length := to_int32 (total_input_length q' - it_length c')\<rparr>" and ?h = "h'(a := None)"
      let ?x = "Some (it_kind (taken_kind q' c'), it_string (taken_kind q' c'))"
      have sv: "serve (Take how) (n, h, q) = Some (?x, n, ?h, ?q)"
        using t(1) c'(1) by (simp add: uncount_input_def)
      have rest: "total_input_length q' = total_input_length q" "disable_oob q' = disable_oob q" using same_restD [OF t(4)] by simp_all
      have na: "a \<notin> set (remove1 a as)" using dist by simp
      have old: "contents ?h b = contents h b \<and> h b \<noteq> None" if "b \<in> set (remove1 a as)" for b
        using t(3) na that cells [of b] notin_set_remove1 [of b as a] by (auto simp: contents_def fun_eq_iff)
      have ok: "iqueue_ok ?h ?q (remove1 a as)"
        unfolding iqueue_rest by (rule iqueue_frame [OF t(2)]) (use na in \<open>auto simp: oob_def\<close>)
      have len: "lengths_ok ?h ?q (remove1 a as)"
        by (rule lengths_remove [OF as(2) dist a old]) (use c c'(4) rest in simp_all)
      have ln: "lines ?h (remove1 a as) = lines h (remove1 a as)" using lines_cong old by blast
      have "lines h (remove1 a as) = lines h (takeWhile (\<lambda>b. \<not> P (kind_of h b)) as) @ lines h (tl (dropWhile (\<lambda>b. \<not> P (kind_of h b)) as))"
        by (simp add: remove_first [OF dist Some] lines_def)
      then have abs: "serve_list rq al = (Some (read_line (disable_oob q) (it_kind c, it_string c)), disable_oob q, lines h (remove1 a as))"
        using extract_lines [OF dist, of P h] Some c Take as(3) by (simp add: P_def kind_of_def)
      have "?x = Some (read_line (disable_oob q) (it_kind c, it_string c))"
        using c' rest(2) by (auto simp: taken_kind_def read_line_def split: task_kind.splits)
      moreover have "?h b = None" if "b \<ge> n" for b
        using as(4) [OF that] fun_cong [OF t(3), of b] by (auto simp: contents_def)
      ultimately show ?thesis
        using sv abs ok len ln rest(2) Take by (auto simp: st represents_def iqueue_rest)
    qed
  qed
  then show ?thesis using that by blast
qed

lemma serve_all_refines: "represents st al \<Longrightarrow> \<exists>st'. serve_all rs st = Some (serve_lists rs al, st')"
proof (induction rs arbitrary: st al)
  case (Cons r rs)
  obtain x st1 where "serve r st = Some (x, st1)" "fst (serve_list r al) = x" "represents st1 (snd (serve_list r al))"
    by (rule serve_refines [OF Cons.prems])
  with Cons.IH [OF this(3)] show ?case by (auto simp: Let_def split: prod.splits)
next
  case Nil
  show ?case by (rule exI [of _ st]) simp
qed

lemma represents_empty: "represents (0, (\<lambda>_. None), empty_iqueue) (False, [])"
  by (auto simp: represents_def iqueue_ok_def empty_iqueue_def lengths_ok_def lines_def rear_def to_int32_def intro!: exI [of _ "[]"])

text \<open>C37: the threaded queue of input lines behaves as a plain list. Whatever lines are added, at the rear or at the front, and
  whatever lines are taken (the first, the first out-of-band line, the first other line), with out-of-band handling switched on
  and off in between, no access is to a cell that is not there, and every reader gets the line that searching a list gives.\<close>

theorem input_queue_refines_list:
  "\<exists>st. serve_all rs (0, (\<lambda>_. None), empty_iqueue) = Some (serve_lists rs (False, []), st)"
  by (rule serve_all_refines [OF represents_empty])

end
