(* ===== verification/TaskQueues.thy ===== *)
theory TaskQueues
  imports InputQueue Functions
begin

text \<open>
  The queues of tasks (\<open>tasks.c\<close>). Every player and every connection has a queue with its input and its background tasks that
  are ready to run. A queue with something to do is on the list of active queues, which is ordered by the time that its tasks have
  used; all others are on the list of idle queues. Forked and suspended tasks wait in one list ordered by the time at which they
  are to start.

  Queues are cells of a store, as other parts of the server keep pointers to them. The calls of the network layer are recorded in
  their order. The numbers that \<open>RANDOM\<close> gives are a sequence, with how many of them have been used.
\<close>

subsection \<open>Times\<close>

type_synonym timeval = "int \<times> int"

definition timercmp_less :: "timeval \<Rightarrow> timeval \<Rightarrow> bool" where
  "timercmp_less s t \<longleftrightarrow> (if fst s = fst t then snd s < snd t else fst s < fst t)"

definition timeradd :: "timeval \<Rightarrow> timeval \<Rightarrow> timeval" where
  "timeradd s t = (if snd s + snd t \<ge> 1000000 then (fst s + fst t + 1, snd s + snd t - 1000000) else (fst s + fst t, snd s + snd t))"

definition timersub :: "timeval \<Rightarrow> timeval \<Rightarrow> timeval" where
  "timersub s t = (if snd s - snd t < 0 then (fst s - fst t - 1, snd s - snd t + 1000000) else (fst s - fst t, snd s - snd t))"

definition ROUND :: "timeval \<Rightarrow> int" where
  "ROUND t = fst t + of_bool (snd t > 500000)"

subsection \<open>Tasks\<close>

text \<open>A suspended machine always has an activation on top.\<close>

record saved_vm =
  vm_task_id :: int
  vm_top_activ :: activation
  vm_callers :: "activation list"
  vm_root_activ_vector :: int
  vm_max_stack_size :: nat

record forked_task =
  ft_id :: int
  ft_a :: activation
  ft_f_index :: nat
  ft_start_tv :: timeval

record suspended_task =
  st_vm :: saved_vm
  st_start_tv :: timeval
  st_value :: var

datatype bg_task = TASK_FORKED forked_task | TASK_SUSPENDED suspended_task

definition progr_of_cur_verb :: "saved_vm \<Rightarrow> objid" where
  "progr_of_cur_verb v = a_progr (vm_top_activ v)"

fun GET_START_TIME :: "bg_task \<Rightarrow> timeval" where
  "GET_START_TIME (TASK_FORKED t) = ft_start_tv t"
| "GET_START_TIME (TASK_SUSPENDED t) = st_start_tv t"

fun bg_progr :: "bg_task \<Rightarrow> objid" where
  "bg_progr (TASK_FORKED t) = a_progr (ft_a t)"
| "bg_progr (TASK_SUSPENDED t) = progr_of_cur_verb (st_vm t)"

fun bg_task_id :: "bg_task \<Rightarrow> int" where
  "bg_task_id (TASK_FORKED t) = ft_id t"
| "bg_task_id (TASK_SUSPENDED t) = vm_task_id (st_vm t)"

subsection \<open>Queues\<close>

record tqueue = iqueue +
  tq_player :: objid
  tq_handler :: objid
  tq_connected :: bool
  tq_last_input_task_id :: int
  tq_input_suspended :: bool
  tq_bg :: "bg_task list"
  tq_usage :: int
  tq_num_bg_tasks :: int
  tq_output_prefix :: "string option"
  tq_output_suffix :: "string option"
  tq_flush_cmd :: "string option"
  tq_program_stream :: "string option"
  tq_program_object :: objid
  tq_program_verb :: string
  tq_hold_input :: bool
  tq_reading :: "saved_vm option"
  tq_icmds :: "nat set"

datatype net_call = Server_suspend_input objid | Server_resume_input objid | Notify objid string

record tasks =
  inputs :: inputs
  next_input :: nat
  queues :: "nat \<Rightarrow> tqueue option"
  next_queue :: nat
  idle_tqueues :: "nat list"
  active_tqueues :: "nat list"
  waiting_tasks :: "bg_task list"
  current_task_id :: int
  random_numbers :: "nat \<Rightarrow> int"
  numbers_drawn :: nat
  net_calls :: "net_call list"

definition INPUT_HIWAT :: int where "INPUT_HIWAT = 1048576"
definition INPUT_LOWAT :: int where "INPUT_LOWAT = INPUT_HIWAT div 2"
definition NO_USAGE :: int where "NO_USAGE = -1"

definition put_queue :: "nat \<Rightarrow> tqueue \<Rightarrow> tasks \<Rightarrow> tasks" where
  "put_queue q tq ts = ts\<lparr>queues := (queues ts)(q \<mapsto> tq)\<rparr>"

definition call_net :: "net_call \<Rightarrow> tasks \<Rightarrow> tasks" where
  "call_net c ts = ts\<lparr>net_calls := net_calls ts @ [c]\<rparr>"

text \<open>Out of the list of idle queues, by the pointer back.\<close>

definition deactivate_tqueue :: "nat \<Rightarrow> tasks \<Rightarrow> tasks option" where
  "deactivate_tqueue q ts = map_option (\<lambda>tq.
     (put_queue q (tq\<lparr>tq_usage := NO_USAGE\<rparr>) ts)\<lparr>idle_tqueues := q # idle_tqueues ts\<rparr>) (queues ts q)"

text \<open>Behind all queues that have not used more.\<close>

fun insert_by_usage :: "(nat \<Rightarrow> int) \<Rightarrow> nat \<Rightarrow> nat list \<Rightarrow> nat list" where
  "insert_by_usage u q [] = [q]"
| "insert_by_usage u q (p # ps) = (if u p \<le> u q then p # insert_by_usage u q ps else q # p # ps)"

definition usage_of :: "tasks \<Rightarrow> nat \<Rightarrow> int" where
  "usage_of ts q = (case queues ts q of Some tq \<Rightarrow> tq_usage tq | None \<Rightarrow> NO_USAGE)"

definition activate_tqueue :: "nat \<Rightarrow> tasks \<Rightarrow> tasks" where
  "activate_tqueue q ts = ts\<lparr>active_tqueues := insert_by_usage (usage_of ts) q (active_tqueues ts)\<rparr>"

definition ensure_usage :: "nat \<Rightarrow> tasks \<Rightarrow> tasks option" where
  "ensure_usage q ts = (do {
     tq \<leftarrow> queues ts q;
     if tq_usage tq = NO_USAGE then
       (let u = (case active_tqueues ts of [] \<Rightarrow> 0 | p # _ \<Rightarrow> usage_of ts p);
            ts = put_queue q (tq\<lparr>tq_usage := u\<rparr>) ts
        in Some (activate_tqueue q (ts\<lparr>idle_tqueues := remove1 q (idle_tqueues ts)\<rparr>)))
     else Some ts
   })"

definition server_string_option :: "db \<Rightarrow> string \<Rightarrow> string option \<Rightarrow> string option option" where
  "server_string_option db name deflt =
    map_option (\<lambda>v. case v of Some (VStr s) \<Rightarrow> Some s | Some _ \<Rightarrow> None | None \<Rightarrow> deflt) (get_server_option db SYSTEM_OBJECT name)"

definition default_flush_command :: "db \<Rightarrow> string option option" where
  "default_flush_command db = map_option (\<lambda>s. case s of Some (c # cs) \<Rightarrow> Some (c # cs) | _ \<Rightarrow> None)
     (server_string_option db ''default_flush_command'' (Some ''.flush''))"

definition find_player :: "objid \<Rightarrow> tasks \<Rightarrow> nat option" where
  "find_player player ts =
    find (\<lambda>q. map_option tq_player (queues ts q) = Some player) (active_tqueues ts @ idle_tqueues ts)"

definition ICMD_ALL_CMDS :: "nat set" where "ICMD_ALL_CMDS = {1, 2, 3, 4, 5}"

definition new_tqueue :: "objid \<Rightarrow> string option \<Rightarrow> tqueue" where
  "new_tqueue player flush =
    \<lparr>first_input = None, last_input = Head, first_itail = None, last_itail = Head, total_input_length = 0, disable_oob = False,
     tq_player = player, tq_handler = 0, tq_connected = False, tq_last_input_task_id = 0, tq_input_suspended = False, tq_bg = [],
     tq_usage = NO_USAGE, tq_num_bg_tasks = 0, tq_output_prefix = None, tq_output_suffix = None, tq_flush_cmd = flush,
     tq_program_stream = None, tq_program_object = 0, tq_program_verb = [], tq_hold_input = False, tq_reading = None,
     tq_icmds = ICMD_ALL_CMDS\<rparr>"

text \<open>With \<open>create_if_not_found\<close>, a new queue starts idle.\<close>

definition find_tqueue :: "db \<Rightarrow> objid \<Rightarrow> tasks \<Rightarrow> (nat \<times> tasks) option" where
  "find_tqueue db player ts = (case find_player player ts of
     Some q \<Rightarrow> Some (q, ts)
   | None \<Rightarrow> (do {
       flush \<leftarrow> default_flush_command db;
       let q = next_queue ts;
       ts \<leftarrow> deactivate_tqueue q ((put_queue q (new_tqueue player flush) ts)\<lparr>next_queue := q + 1\<rparr>);
       Some (q, ts)
     }))"

definition free_tqueue :: "nat \<Rightarrow> tasks \<Rightarrow> tasks" where
  "free_tqueue q ts = ts\<lparr>idle_tqueues := remove1 q (idle_tqueues ts), queues := (queues ts)(q := None)\<rparr>"

subsection \<open>Background tasks of a queue\<close>

definition enqueue_bg_task :: "nat \<Rightarrow> bg_task \<Rightarrow> tasks \<Rightarrow> tasks option" where
  "enqueue_bg_task q t ts = map_option (\<lambda>tq. put_queue q (tq\<lparr>tq_bg := tq_bg tq @ [t]\<rparr>) ts) (queues ts q)"

definition dequeue_bg_task :: "nat \<Rightarrow> tasks \<Rightarrow> (bg_task option \<times> tasks) option" where
  "dequeue_bg_task q ts = (do {
     tq \<leftarrow> queues ts q;
     Some (case tq_bg tq of
       [] \<Rightarrow> (None, ts)
     | t # us \<Rightarrow> (Some t, put_queue q (tq\<lparr>tq_bg := us, tq_num_bg_tasks := tq_num_bg_tasks tq - 1\<rparr>) ts))
   })"

subsection \<open>Input of a queue\<close>

definition dequeue_input_task :: "nat \<Rightarrow> dequeue_how \<Rightarrow> tasks \<Rightarrow> ((nat \<times> input_task) option \<times> tasks) option" where
  "dequeue_input_task q how ts = (do {
     tq \<leftarrow> queues ts q;
     (r, h, tq) \<leftarrow> take_input how (inputs ts) tq;
     case r of
       None \<Rightarrow> Some (None, ts)
     | Some a \<Rightarrow> (do {
         (h, tq) \<leftarrow> uncount_input a (h, tq);
         t \<leftarrow> h a;
         let resume = (tq_input_suspended tq \<and> tq_connected tq \<and> total_input_length tq < INPUT_LOWAT);
         let ts = (put_queue q (if resume then tq\<lparr>tq_input_suspended := False\<rparr> else tq) ts)\<lparr>inputs := h\<rparr>;
         Some (Some (a, t), if resume then call_net (Server_resume_input (tq_player tq)) ts else ts)
       })
   })"

definition free_input :: "nat \<Rightarrow> tasks \<Rightarrow> tasks" where
  "free_input a ts = ts\<lparr>inputs := (inputs ts)(a := None)\<rparr>"

definition enqueue_input_task :: "nat \<Rightarrow> string \<Rightarrow> bool \<Rightarrow> bool \<Rightarrow> tasks \<Rightarrow> tasks option" where
  "enqueue_input_task q input at_front binary ts = (do {
     tq \<leftarrow> queues ts q;
     (h, tq) \<leftarrow> add_input (next_input ts) input at_front binary (inputs ts) tq;
     let ts = (put_queue q tq ts)\<lparr>inputs := h, next_input := next_input ts + 1\<rparr>;
     ts \<leftarrow> (if \<not> tq_hold_input tq \<or> tq_reading tq \<noteq> None \<or> (\<not> disable_oob tq \<and> input_kind binary input = TASK_OOB)
       then ensure_usage q ts else Some ts);
     tq \<leftarrow> queues ts q;
     Some (if \<not> tq_input_suspended tq \<and> tq_connected tq \<and> total_input_length tq > INPUT_HIWAT
       then call_net (Server_suspend_input (tq_player tq)) (put_queue q (tq\<lparr>tq_input_suspended := True\<rparr>) ts) else ts)
   })"

definition task_suspend_input :: "nat \<Rightarrow> tasks \<Rightarrow> tasks option" where
  "task_suspend_input q ts = map_option (\<lambda>tq.
     if \<not> tq_input_suspended tq \<and> tq_connected tq
     then call_net (Server_suspend_input (tq_player tq)) (put_queue q (tq\<lparr>tq_input_suspended := True\<rparr>) ts) else ts) (queues ts q)"

partial_function (option) flush_lines :: "nat \<Rightarrow> bool \<Rightarrow> tasks \<Rightarrow> tasks option" where
  "flush_lines q show_messages ts = (do {
     (r, ts) \<leftarrow> dequeue_input_task q DQ_FIRST ts;
     case r of
       None \<Rightarrow> Some ts
     | Some (a, t) \<Rightarrow> (case queues ts q of
         None \<Rightarrow> None
       | Some tq \<Rightarrow> flush_lines q show_messages
           (free_input a (if show_messages then call_net (Notify (tq_player tq) (''>>     '' @ it_string t)) ts else ts)))
   })"

declare flush_lines.simps [code]

definition flush_input :: "nat \<Rightarrow> bool \<Rightarrow> tasks \<Rightarrow> tasks option" where
  "flush_input q show_messages ts = (do {
     tq \<leftarrow> queues ts q;
     let say = (\<lambda>s ts. if show_messages then call_net (Notify (tq_player tq) s) ts else ts);
     if first_input tq \<noteq> None then
       map_option (say ''>> (Done flushing)'') (flush_lines q show_messages (say ''>> Flushing the following pending input:'' ts))
     else Some (say ''>> No pending input to flush...'' ts)
   })"

definition new_input_task :: "nat \<Rightarrow> string \<Rightarrow> bool \<Rightarrow> tasks \<Rightarrow> tasks option" where
  "new_input_task q input binary ts = (do {
     tq \<leftarrow> queues ts q;
     case tq_flush_cmd tq of
       Some cmd \<Rightarrow> if mystrcasecmp input cmd = 0 then flush_input q True ts else enqueue_input_task q input False binary ts
     | None \<Rightarrow> enqueue_input_task q input False binary ts
   })"

definition is_out_of_input :: "tqueue \<Rightarrow> bool" where
  "is_out_of_input tq \<longleftrightarrow> \<not> tq_connected tq \<and> first_input tq = None"

definition new_task_queue :: "db \<Rightarrow> objid \<Rightarrow> objid \<Rightarrow> tasks \<Rightarrow> (nat \<times> tasks) option" where
  "new_task_queue db player handler ts = (do {
     (q, ts) \<leftarrow> find_tqueue db player ts;
     tq \<leftarrow> queues ts q;
     Some (q, put_queue q (tq\<lparr>tq_connected := True, tq_handler := handler\<rparr>) ts)
   })"

definition free_task_queue :: "nat \<Rightarrow> tasks \<Rightarrow> tasks option" where
  "free_task_queue q ts = (do {
     tq \<leftarrow> queues ts q;
     let ts = put_queue q (tq\<lparr>tq_connected := False\<rparr>) ts;
     if tq_reading tq \<noteq> None then ensure_usage q ts else Some ts
   })"

subsection \<open>Waiting tasks\<close>

fun insert_waiting :: "bg_task \<Rightarrow> bg_task list \<Rightarrow> bg_task list" where
  "insert_waiting t [] = [t]"
| "insert_waiting t (u # us) = (if timercmp_less (GET_START_TIME t) (GET_START_TIME u) then t # u # us else u # insert_waiting t us)"

definition enqueue_waiting :: "db \<Rightarrow> bg_task \<Rightarrow> tasks \<Rightarrow> tasks option" where
  "enqueue_waiting db t ts = (do {
     (q, ts) \<leftarrow> find_tqueue db (bg_progr t) ts;
     tq \<leftarrow> queues ts q;
     Some ((put_queue q (tq\<lparr>tq_num_bg_tasks := tq_num_bg_tasks tq + 1\<rparr>) ts)\<lparr>waiting_tasks := insert_waiting t (waiting_tasks ts)\<rparr>)
   })"

text \<open>A limit of the user, or one of the server, or none.\<close>

definition task_limit :: "db \<Rightarrow> objid \<Rightarrow> int option" where
  "task_limit db user = (do {
     own \<leftarrow> (if valid db user then (do {
         (h, v) \<leftarrow> db_find_property db user ''queued_task_limit'' True;
         Some (case if h = NoProp then None else v of Some (VInt n) \<Rightarrow> to_int32 n | _ \<Rightarrow> -1)
       }) else Some (-1));
     if own < 0 then server_int_option db ''queued_task_limit'' (-1) else Some own
   })"

definition check_user_task_limit :: "db \<Rightarrow> objid \<Rightarrow> tasks \<Rightarrow> bool option" where
  "check_user_task_limit db user ts = (do {
     limit \<leftarrow> task_limit db user;
     n \<leftarrow> (case find_player user ts of Some q \<Rightarrow> map_option tq_num_bg_tasks (queues ts q) | None \<Rightarrow> Some 0);
     Some (limit < 0 \<or> n < limit)
   })"

text \<open>Numbers of tasks are random, but not 0.\<close>

partial_function (option) draw_nonzero :: "(nat \<Rightarrow> int) \<Rightarrow> nat \<Rightarrow> (int \<times> nat) option" where
  "draw_nonzero rnd n = (if rnd n \<noteq> 0 then Some (rnd n, n + 1) else draw_nonzero rnd (n + 1))"

declare draw_nonzero.simps [code]

definition new_task_id :: "tasks \<Rightarrow> (int \<times> tasks) option" where
  "new_task_id ts = map_option (\<lambda>(i, n). (i, ts\<lparr>numbers_drawn := n\<rparr>)) (draw_nonzero (random_numbers ts) (numbers_drawn ts))"

text \<open>Forking: the variable for the number of the task is set in the environment that the running activation goes on with, too.\<close>

definition enqueue_ft :: "db \<Rightarrow> activation \<Rightarrow> nat \<Rightarrow> timeval \<Rightarrow> int \<Rightarrow> tasks \<Rightarrow> tasks option" where
  "enqueue_ft db a f_index start_tv tid ts =
    enqueue_waiting db (TASK_FORKED \<lparr>ft_id = tid, ft_a = a\<lparr>a_stack := []\<rparr>, ft_f_index = f_index, ft_start_tv = start_tv\<rparr>) ts"

definition enqueue_forked_task2 :: "db \<Rightarrow> activation \<Rightarrow> nat \<Rightarrow> timeval \<Rightarrow> int \<Rightarrow> tasks \<Rightarrow> (error \<times> activation \<times> tasks) option" where
  "enqueue_forked_task2 db a f_index start_tv vid ts = (do {
     allowed \<leftarrow> check_user_task_limit db (a_progr a) ts;
     if \<not> allowed then Some (E_QUOTA, a, ts)
     else (do {
       (tid, ts) \<leftarrow> new_task_id ts;
       a \<leftarrow> (if vid \<ge> 0 then map_option (\<lambda>env. a\<lparr>a_env := env\<rparr>) (set_env (nat vid) (VInt tid) (a_env a)) else Some a);
       ts \<leftarrow> enqueue_ft db a f_index start_tv tid ts;
       Some (E_NONE, a, ts)
     })
   })"

text \<open>Suspending, for a time or until somebody resumes the task.\<close>

definition never :: timeval where "never = (2 ^ 31 - 1, 0)"

definition enqueue_suspended_task :: "db \<Rightarrow> saved_vm \<Rightarrow> timeval option \<Rightarrow> tasks \<Rightarrow> (error \<times> tasks) option" where
  "enqueue_suspended_task db the_vm start_tv ts = (do {
     allowed \<leftarrow> check_user_task_limit db (progr_of_cur_verb the_vm) ts;
     if allowed then map_option (Pair E_NONE) (enqueue_waiting db (TASK_SUSPENDED
         \<lparr>st_vm = the_vm, st_start_tv = (case start_tv of Some t \<Rightarrow> t | None \<Rightarrow> never), st_value = zero_value\<rparr>) ts)
     else Some (E_QUOTA, ts)
   })"

definition resume_task :: "db \<Rightarrow> saved_vm \<Rightarrow> var \<Rightarrow> tasks \<Rightarrow> tasks option" where
  "resume_task db the_vm v ts = (do {
     (q, ts) \<leftarrow> find_tqueue db (progr_of_cur_verb the_vm) ts;
     ts \<leftarrow> enqueue_bg_task q (TASK_SUSPENDED \<lparr>st_vm = the_vm, st_start_tv = (0, 0), st_value = v\<rparr>) ts;
     ensure_usage q ts
   })"

subsection \<open>Reading\<close>

definition read_input_now :: "objid \<Rightarrow> tasks \<Rightarrow> (var \<times> tasks) option" where
  "read_input_now connection ts = (case find_player connection ts of
     None \<Rightarrow> Some (VErr E_INVARG, ts)
   | Some q \<Rightarrow> (do {
       tq \<leftarrow> queues ts q;
       if is_out_of_input tq then Some (VErr E_INVARG, ts)
       else (do {
         (r, ts) \<leftarrow> dequeue_input_task q DQ_INBAND ts;
         Some (case r of None \<Rightarrow> (VInt 0, ts) | Some (a, t) \<Rightarrow> (VStr (it_string t), free_input a ts))
       })
     }))"

definition make_reading_task :: "saved_vm \<Rightarrow> objid \<Rightarrow> tasks \<Rightarrow> (error \<times> tasks) option" where
  "make_reading_task the_vm player ts = (case find_player player ts of
     None \<Rightarrow> Some (E_INVARG, ts)
   | Some q \<Rightarrow> (do {
       tq \<leftarrow> queues ts q;
       if tq_reading tq \<noteq> None \<or> is_out_of_input tq then Some (E_INVARG, ts)
       else (do {
         let ts = put_queue q (tq\<lparr>tq_reading := Some the_vm\<rparr>) ts;
         ts \<leftarrow> (if first_input tq \<noteq> None then ensure_usage q ts else Some ts);
         Some (E_NONE, ts)
       })
     }))"

definition last_input_task_id :: "objid \<Rightarrow> tasks \<Rightarrow> int option" where
  "last_input_task_id player ts = (case find_player player ts of
     Some q \<Rightarrow> map_option tq_last_input_task_id (queues ts q) | None \<Rightarrow> Some 0)"

subsection \<open>When to go on\<close>

text \<open>The time in microseconds until a task can run, at most ten seconds, or \<open>-1\<close> when there is none.\<close>

definition next_task_start :: "timeval \<Rightarrow> tasks \<Rightarrow> int" where
  "next_task_start now ts =
    (if \<exists>q \<in> set (active_tqueues ts). case queues ts q of Some tq \<Rightarrow> first_input tq \<noteq> None \<or> tq_bg tq \<noteq> [] | None \<Rightarrow> False then 0
     else (case waiting_tasks ts of
       [] \<Rightarrow> -1
     | t # _ \<Rightarrow>
         (let delta = timersub (GET_START_TIME t) now
          in if fst delta < 0 \<or> snd delta < 0 then 0 else snd delta + (if fst delta > 9 then 9 else fst delta) * 1000000)))"

text \<open>The first part of \<open>run_ready_tasks\<close>: the tasks whose time has come go to their queues.\<close>

fun wake_tasks :: "db \<Rightarrow> timeval \<Rightarrow> bg_task list \<Rightarrow> tasks \<Rightarrow> tasks option" where
  "wake_tasks db now [] ts = Some (ts\<lparr>waiting_tasks := []\<rparr>)"
| "wake_tasks db now (t # us) ts =
    (if timercmp_less now (GET_START_TIME t) then Some (ts\<lparr>waiting_tasks := t # us\<rparr>)
     else (do {
       (q, ts) \<leftarrow> find_tqueue db (bg_progr t) ts;
       ts \<leftarrow> ensure_usage q ts;
       ts \<leftarrow> enqueue_bg_task q t (ts\<lparr>waiting_tasks := us\<rparr>);
       wake_tasks db now us ts
     }))"

text \<open>Its last part: queues that nothing can come to are freed.\<close>

definition reap_tqueues :: "tasks \<Rightarrow> tasks" where
  "reap_tqueues ts = fold (\<lambda>q ts. case queues ts q of
     Some tq \<Rightarrow> if \<not> tq_connected tq \<and> first_input tq = None \<and> tq_num_bg_tasks tq = 0 then free_tqueue q ts else ts
   | None \<Rightarrow> ts) (idle_tqueues ts) ts"

end
