(* ===== verification/TaskControl.thy ===== *)
theory TaskControl
  imports TaskQueues
begin

text \<open>
  The functions of the language that look at tasks and change them, the options of connections, and the commands that the
  server handles itself (\<open>tasks.c\<close>). No part of this configuration registers a queue of its own by \<open>register_task_queue\<close>,
  so the list of external queues is empty.
\<close>

subsection \<open>Intrinsic commands\<close>

definition ICMD_SUFFIX :: nat where "ICMD_SUFFIX = 1"
definition ICMD_OUTPUTSUFFIX :: nat where "ICMD_OUTPUTSUFFIX = 2"
definition ICMD_OUTPUTPREFIX :: nat where "ICMD_OUTPUTPREFIX = 3"
definition ICMD_PREFIX :: nat where "ICMD_PREFIX = 4"
definition ICMD_PROGRAM :: nat where "ICMD_PROGRAM = 5"

text \<open>The table in its order, with the test of a verb.\<close>

definition icmd_table :: "(nat \<times> string \<times> (string \<Rightarrow> bool)) list" where
  "icmd_table =
    [(ICMD_PROGRAM, ''.program'', \<lambda>verb. verbcasecmp False ''.pr*ogram'' verb),
     (ICMD_PREFIX, ''PREFIX'', \<lambda>verb. verb = ''PREFIX''),
     (ICMD_SUFFIX, ''SUFFIX'', \<lambda>verb. verb = ''SUFFIX''),
     (ICMD_OUTPUTPREFIX, ''OUTPUTPREFIX'', \<lambda>verb. verb = ''OUTPUTPREFIX''),
     (ICMD_OUTPUTSUFFIX, ''OUTPUTSUFFIX'', \<lambda>verb. verb = ''OUTPUTSUFFIX'')]"

text \<open>The hash of a verb: its third and ninth characters, 0 where it is shorter.\<close>

definition icmd_hash :: "string \<Rightarrow> nat" where
  "icmd_hash verb =
    (let c2 = (if length verb > 2 then code (verb ! 2) else 0); c8 = (if length verb > 8 then code (verb ! 8) else 0)
     in nat (((c2 AND 7) XOR 6) + of_bool (c8 AND 2 = 0)))"

definition icmd_index :: "string \<Rightarrow> nat" where
  "icmd_index verb = (case find (\<lambda>(i, name, test). i = icmd_hash verb) icmd_table of
     Some (i, name, test) \<Rightarrow> if test verb then i else 0
   | None \<Rightarrow> 0)"

definition icmd_list :: "nat set \<Rightarrow> var" where
  "icmd_list flags = VList (map (\<lambda>(i, name, test). VStr name) (filter (\<lambda>(i, name, test). i \<in> flags) icmd_table))"

fun icmd_flags :: "var list \<Rightarrow> nat set option" where
  "icmd_flags [] = Some {}"
| "icmd_flags (v # vs) = (case v of
     VStr s \<Rightarrow> if icmd_index s = 0 then None else map_option (insert (icmd_index s)) (icmd_flags vs)
   | _ \<Rightarrow> None)"

definition icmd_set_flags :: "tqueue \<Rightarrow> var \<Rightarrow> tqueue option" where
  "icmd_set_flags tq v = map_option (\<lambda>f. tq\<lparr>tq_icmds := f\<rparr>) (case v of
     VInt n \<Rightarrow> Some (if is_true v then ICMD_ALL_CMDS else {})
   | VList vs \<Rightarrow> icmd_flags vs
   | _ \<Rightarrow> None)"

subsection \<open>Options of connections\<close>

definition FLUSH_COMMAND :: string where "FLUSH_COMMAND = ''flush-command''"
definition HOLD_INPUT :: string where "HOLD_INPUT = ''hold-input''"
definition DISABLE_OOB :: string where "DISABLE_OOB = ''disable-oob''"
definition INTRINSIC_COMMANDS :: string where "INTRINSIC_COMMANDS = ''intrinsic-commands''"

definition set_flush_cmd :: "nat \<Rightarrow> var \<Rightarrow> tqueue \<Rightarrow> tasks \<Rightarrow> tasks" where
  "set_flush_cmd q v tq ts = put_queue q (tq\<lparr>tq_flush_cmd := (case v of VStr (c # cs) \<Rightarrow> Some (c # cs) | _ \<Rightarrow> None)\<rparr>) ts"

definition set_hold_input :: "nat \<Rightarrow> var \<Rightarrow> tqueue \<Rightarrow> tasks \<Rightarrow> tasks option" where
  "set_hold_input q v tq ts =
    (let ts = put_queue q (tq\<lparr>tq_hold_input := is_true v\<rparr>) ts
     in if \<not> is_true v \<and> first_input tq \<noteq> None then ensure_usage q ts else Some ts)"

text \<open>With out-of-band lines enabled again, there may be one to handle: the first, or the one behind the first run.\<close>

definition set_disable_oob :: "nat \<Rightarrow> var \<Rightarrow> tqueue \<Rightarrow> tasks \<Rightarrow> tasks option" where
  "set_disable_oob q v tq ts =
    (let ts = put_queue q (tq\<lparr>disable_oob := is_true v\<rparr>) ts
     in if is_true v then Some ts
        else (case first_input tq of
            None \<Rightarrow> Some ts
          | Some f \<Rightarrow> (do {
              e \<leftarrow> first_itail tq;
              et \<leftarrow> inputs ts e;
              ft \<leftarrow> inputs ts f;
              if it_next et \<noteq> None \<or> it_kind ft = TASK_OOB then ensure_usage q ts else Some ts
            })))"

definition tasks_set_connection_option :: "nat \<Rightarrow> string \<Rightarrow> var \<Rightarrow> tasks \<Rightarrow> (bool \<times> tasks) option" where
  "tasks_set_connection_option q option v ts = (do {
     tq \<leftarrow> queues ts q;
     if mystrcasecmp option FLUSH_COMMAND = 0 then Some (True, set_flush_cmd q v tq ts)
     else if mystrcasecmp option HOLD_INPUT = 0 then map_option (Pair True) (set_hold_input q v tq ts)
     else if mystrcasecmp option DISABLE_OOB = 0 then map_option (Pair True) (set_disable_oob q v tq ts)
     else if mystrcasecmp option INTRINSIC_COMMANDS = 0 then
       Some (case icmd_set_flags tq v of Some tq \<Rightarrow> (True, put_queue q tq ts) | None \<Rightarrow> (False, ts))
     else Some (False, ts)
   })"

definition option_values :: "tqueue \<Rightarrow> (string \<times> var) list" where
  "option_values tq =
    [(FLUSH_COMMAND, VStr (case tq_flush_cmd tq of Some s \<Rightarrow> s | None \<Rightarrow> [])),
     (HOLD_INPUT, VInt (of_bool (tq_hold_input tq))),
     (DISABLE_OOB, VInt (of_bool (disable_oob tq))),
     (INTRINSIC_COMMANDS, icmd_list (tq_icmds tq))]"

definition tasks_connection_option :: "tqueue \<Rightarrow> string \<Rightarrow> var option" where
  "tasks_connection_option tq option = map_option snd (find (\<lambda>(name, v). mystrcasecmp option name = 0) (option_values tq))"

definition tasks_connection_options :: "tqueue \<Rightarrow> var list \<Rightarrow> var list" where
  "tasks_connection_options tq list = list @ map (\<lambda>(name, v). VList [VStr name, v]) (option_values tq)"

subsection \<open>Sizes and descriptions of tasks\<close>

definition sizeof_activation :: int where "sizeof_activation = 144"
definition sizeof_forked_task :: int where "sizeof_forked_task = 192"
definition sizeof_vmstruct :: int where "sizeof_vmstruct = 32"

definition activation_bytes :: "(nat \<Rightarrow> int) \<Rightarrow> activation \<Rightarrow> int" where
  "activation_bytes wb a = sizeof_activation + program_bytes wb (a_prog a) + sum_list (map (value_bytes wb) (a_env a)) +
     sum_list (map (value_bytes wb) (a_stack a)) + (value_bytes wb (a_temp a) - sizeof_Var) +
     int (length (a_verb a)) + 1 + int (length (a_verbname a)) + 1"

definition forked_task_bytes :: "(nat \<Rightarrow> int) \<Rightarrow> forked_task \<Rightarrow> int" where
  "forked_task_bytes wb ft = sizeof_forked_task + activation_bytes wb (ft_a ft) - sizeof_activation"

definition suspended_task_bytes :: "(nat \<Rightarrow> int) \<Rightarrow> saved_vm \<Rightarrow> int" where
  "suspended_task_bytes wb v = sizeof_vmstruct + sum_list (map (activation_bytes wb) (vm_top_activ v # vm_callers v))"

definition suspended_lineno_of_vm :: "(program \<Rightarrow> int \<Rightarrow> nat \<Rightarrow> int) \<Rightarrow> saved_vm \<Rightarrow> int" where
  "suspended_lineno_of_vm find_line v = find_line (a_prog (vm_top_activ v))
     (if vm_callers v = [] then vm_root_activ_vector v else MAIN_VECTOR) (a_error_pc (vm_top_activ v))"

definition DEFAULT_BG_TICKS :: int where "DEFAULT_BG_TICKS = 150000"

definition list_for_forked_task :: "(program \<Rightarrow> int \<Rightarrow> nat \<Rightarrow> int) \<Rightarrow> (nat \<Rightarrow> int) \<Rightarrow> forked_task \<Rightarrow> var" where
  "list_for_forked_task find_line wb ft = VList
    [VInt (ft_id ft), VInt (ROUND (ft_start_tv ft)), VInt 0, VInt DEFAULT_BG_TICKS, VObj (a_progr (ft_a ft)), VObj (a_vloc (ft_a ft)),
     VStr (a_verbname (ft_a ft)), VInt (find_line (a_prog (ft_a ft)) (int (ft_f_index ft)) 0), VObj (a_thisobj (ft_a ft)),
     VInt (to_int32 (forked_task_bytes wb ft))]"

text \<open>The second place of the list is filled in by the caller.\<close>

definition list_for_vm :: "(program \<Rightarrow> int \<Rightarrow> nat \<Rightarrow> int) \<Rightarrow> (nat \<Rightarrow> int) \<Rightarrow> var \<Rightarrow> objid \<Rightarrow> saved_vm \<Rightarrow> var" where
  "list_for_vm find_line wb second fifth v =
    (let a = vm_top_activ v in VList
    [VInt (vm_task_id v), second, VInt 0, VInt DEFAULT_BG_TICKS, VObj fifth, VObj (a_vloc a),
     VStr (a_verbname a), VInt (suspended_lineno_of_vm find_line v), VObj (a_thisobj a), VInt (to_int32 (suspended_task_bytes wb v))])"

definition list_for_suspended_task :: "(program \<Rightarrow> int \<Rightarrow> nat \<Rightarrow> int) \<Rightarrow> (nat \<Rightarrow> int) \<Rightarrow> suspended_task \<Rightarrow> var" where
  "list_for_suspended_task find_line wb st =
    list_for_vm find_line wb (VInt (ROUND (st_start_tv st))) (progr_of_cur_verb (st_vm st)) (st_vm st)"

definition list_for_reading_task :: "(program \<Rightarrow> int \<Rightarrow> nat \<Rightarrow> int) \<Rightarrow> (nat \<Rightarrow> int) \<Rightarrow> objid \<Rightarrow> saved_vm \<Rightarrow> var" where
  "list_for_reading_task find_line wb player v = list_for_vm find_line wb (VInt (-1)) player v"

fun list_for_bg_task :: "(program \<Rightarrow> int \<Rightarrow> nat \<Rightarrow> int) \<Rightarrow> (nat \<Rightarrow> int) \<Rightarrow> bg_task \<Rightarrow> var" where
  "list_for_bg_task find_line wb (TASK_FORKED t) = list_for_forked_task find_line wb t"
| "list_for_bg_task find_line wb (TASK_SUSPENDED t) = list_for_suspended_task find_line wb t"

subsection \<open>Functions that look\<close>

definition reading_tasks :: "tasks \<Rightarrow> nat \<Rightarrow> (objid \<times> saved_vm) list" where
  "reading_tasks ts q = (case queues ts q of
     Some tq \<Rightarrow> (case tq_reading tq of Some v \<Rightarrow> [(tq_player tq, v)] | None \<Rightarrow> [])
   | None \<Rightarrow> [])"

definition bg_of :: "tasks \<Rightarrow> nat \<Rightarrow> bg_task list" where
  "bg_of ts q = (case queues ts q of Some tq \<Rightarrow> tq_bg tq | None \<Rightarrow> [])"

definition bf_queued_tasks :: "(program \<Rightarrow> int \<Rightarrow> nat \<Rightarrow> int) \<Rightarrow> (nat \<Rightarrow> int) \<Rightarrow> db \<Rightarrow> objid \<Rightarrow> tasks \<Rightarrow> package" where
  "bf_queued_tasks find_line wb db progr ts =
    (let show_all = is_wizard db progr;
         readers = (\<lambda>q. map (\<lambda>(p, v). list_for_reading_task find_line wb p v) (filter (\<lambda>(p, v). show_all \<or> p = progr) (reading_tasks ts q)));
         listed = (\<lambda>us. map (list_for_bg_task find_line wb) (filter (\<lambda>t. show_all \<or> bg_progr t = progr) us))
     in make_var_pack (VList (concat (map readers (idle_tqueues ts)) @
          concat (map (\<lambda>q. readers q @ listed (bg_of ts q)) (active_tqueues ts)) @ listed (waiting_tasks ts))))"

definition bf_queue_info :: "var list \<Rightarrow> tasks \<Rightarrow> package" where
  "bf_queue_info args ts = (case args of
     VObj who # _ \<Rightarrow> make_var_pack (VInt (case find_player who ts of
         Some q \<Rightarrow> (case queues ts q of Some tq \<Rightarrow> tq_num_bg_tasks tq | None \<Rightarrow> 0)
       | None \<Rightarrow> 0))
   | _ \<Rightarrow> make_var_pack (VList (rev (map (\<lambda>q. VObj (case queues ts q of Some tq \<Rightarrow> tq_player tq | None \<Rightarrow> NOTHING))
       (active_tqueues ts @ idle_tqueues ts)))))"

definition bf_task_id :: "tasks \<Rightarrow> package" where
  "bf_task_id ts = make_var_pack (VInt (current_task_id ts))"

text \<open>A suspended or reading task: waiting, reading on an idle queue, or on an active one.\<close>

definition suspended_vms :: "bg_task list \<Rightarrow> saved_vm list" where
  "suspended_vms us = concat (map (\<lambda>t. case t of TASK_SUSPENDED st \<Rightarrow> [st_vm st] | TASK_FORKED _ \<Rightarrow> []) us)"

definition find_suspended_task :: "int \<Rightarrow> tasks \<Rightarrow> saved_vm option" where
  "find_suspended_task tid ts = find (\<lambda>v. vm_task_id v = tid)
     (suspended_vms (waiting_tasks ts) @ concat (map (\<lambda>q. map snd (reading_tasks ts q)) (idle_tqueues ts)) @
      concat (map (\<lambda>q. map snd (reading_tasks ts q) @ suspended_vms (bg_of ts q)) (active_tqueues ts)))"

definition bf_output_delimiters :: "db \<Rightarrow> objid \<Rightarrow> objid \<Rightarrow> tasks \<Rightarrow> package" where
  "bf_output_delimiters db progr player ts =
    (if \<not> is_wizard db progr \<and> progr \<noteq> player then make_error_pack E_PERM
     else (case find_player player ts of
         None \<Rightarrow> make_error_pack E_INVARG
       | Some q \<Rightarrow> (case queues ts q of
           Some tq \<Rightarrow>
             if \<not> tq_connected tq then make_error_pack E_INVARG
             else make_var_pack (VList [VStr (case tq_output_prefix tq of Some s \<Rightarrow> s | None \<Rightarrow> []),
                VStr (case tq_output_suffix tq of Some s \<Rightarrow> s | None \<Rightarrow> [])])
         | None \<Rightarrow> make_error_pack E_INVARG)))"

subsection \<open>Killing and resuming\<close>

text \<open>The first task of a list with a number, and the list without it.\<close>

definition pick_task :: "(bg_task \<Rightarrow> bool) \<Rightarrow> bg_task list \<Rightarrow> (bg_task \<times> bg_task list) option" where
  "pick_task P us = map_option (\<lambda>(xs, t, ys). (t, xs @ ys)) (List.extract P us)"

definition reading_id :: "int \<Rightarrow> tqueue \<Rightarrow> bool" where
  "reading_id tid tq \<longleftrightarrow> (case tq_reading tq of Some v \<Rightarrow> vm_task_id v = tid | None \<Rightarrow> False)"

text \<open>Killing a task in one queue: a reader, and on active queues the background tasks. \<open>None\<close> when it is not there.\<close>

definition kill_in_queue :: "bool \<Rightarrow> int \<Rightarrow> bool \<Rightarrow> objid \<Rightarrow> nat \<Rightarrow> tasks \<Rightarrow> (error \<times> tasks) option" where
  "kill_in_queue bg tid wiz owner q ts = (case queues ts q of
     None \<Rightarrow> None
   | Some tq \<Rightarrow>
       if reading_id tid tq then
         Some (if \<not> wiz \<and> owner \<noteq> tq_player tq then (E_PERM, ts) else (E_NONE, put_queue q (tq\<lparr>tq_reading := None\<rparr>) ts))
       else if bg then
         (case pick_task (\<lambda>t. bg_task_id t = tid) (tq_bg tq) of
            None \<Rightarrow> None
          | Some (t, us) \<Rightarrow> Some (if \<not> wiz \<and> owner \<noteq> tq_player tq then (E_PERM, ts)
              else (E_NONE, put_queue q (tq\<lparr>tq_bg := us, tq_num_bg_tasks := tq_num_bg_tasks tq - 1\<rparr>) ts)))
       else None)"

fun kill_in_queues :: "bool \<Rightarrow> int \<Rightarrow> bool \<Rightarrow> objid \<Rightarrow> nat list \<Rightarrow> tasks \<Rightarrow> (error \<times> tasks) option" where
  "kill_in_queues bg tid wiz owner [] ts = None"
| "kill_in_queues bg tid wiz owner (q # qs) ts = (case kill_in_queue bg tid wiz owner q ts of
     Some r \<Rightarrow> Some r | None \<Rightarrow> kill_in_queues bg tid wiz owner qs ts)"

definition kill_task :: "db \<Rightarrow> int \<Rightarrow> objid \<Rightarrow> tasks \<Rightarrow> error \<times> tasks" where
  "kill_task db tid owner ts =
    (if tid = current_task_id ts then (E_NONE, ts)
     else (case pick_task (\<lambda>t. bg_task_id t = tid) (waiting_tasks ts) of
         Some (t, us) \<Rightarrow>
           if \<not> is_wizard db owner \<and> owner \<noteq> bg_progr t then (E_PERM, ts)
           else (E_NONE, (case find_player (bg_progr t) ts of
               None \<Rightarrow> ts
             | Some q \<Rightarrow> (case queues ts q of
                 Some tq \<Rightarrow> put_queue q (tq\<lparr>tq_num_bg_tasks := tq_num_bg_tasks tq - 1\<rparr>) ts
               | None \<Rightarrow> ts))\<lparr>waiting_tasks := us\<rparr>)
       | None \<Rightarrow> (case kill_in_queues False tid (is_wizard db owner) owner (idle_tqueues ts) ts of
           Some r \<Rightarrow> r
         | None \<Rightarrow> (case kill_in_queues True tid (is_wizard db owner) owner (active_tqueues ts) ts of
             Some r \<Rightarrow> r
           | None \<Rightarrow> (E_INVARG, ts)))))"

definition bf_kill_task :: "db \<Rightarrow> int \<Rightarrow> objid \<Rightarrow> tasks \<Rightarrow> package \<times> tasks" where
  "bf_kill_task db tid progr ts = (case kill_task db tid progr ts of (e, ts) \<Rightarrow>
     (if e \<noteq> E_NONE then make_error_pack e else if tid = current_task_id ts then BI_KILL else no_var_pack, ts))"

definition suspended_id :: "int \<Rightarrow> bg_task \<Rightarrow> bool" where
  "suspended_id tid t \<longleftrightarrow> (case t of TASK_SUSPENDED st \<Rightarrow> vm_task_id (st_vm st) = tid | TASK_FORKED _ \<Rightarrow> False)"

fun with_value :: "var \<Rightarrow> bg_task \<Rightarrow> bg_task" where
  "with_value v (TASK_SUSPENDED st) = TASK_SUSPENDED (st\<lparr>st_value := v\<rparr>)"
| "with_value v t = t"

fun with_start :: "timeval \<Rightarrow> bg_task \<Rightarrow> bg_task" where
  "with_start s (TASK_SUSPENDED st) = TASK_SUSPENDED (st\<lparr>st_start_tv := s\<rparr>)"
| "with_start s t = t"

text \<open>A task that was resumed already only gets a new value.\<close>

fun revalue_in_queues :: "int \<Rightarrow> var \<Rightarrow> bool \<Rightarrow> objid \<Rightarrow> nat list \<Rightarrow> tasks \<Rightarrow> (error \<times> tasks) option" where
  "revalue_in_queues tid v wiz progr [] ts = None"
| "revalue_in_queues tid v wiz progr (q # qs) ts = (case queues ts q of
     None \<Rightarrow> None
   | Some tq \<Rightarrow> (case find_index (suspended_id tid) (tq_bg tq) of
       None \<Rightarrow> revalue_in_queues tid v wiz progr qs ts
     | Some i \<Rightarrow> Some (if \<not> wiz \<and> progr \<noteq> tq_player tq then (E_PERM, ts)
         else (E_NONE, put_queue q (tq\<lparr>tq_bg := (tq_bg tq)[i := with_value v (tq_bg tq ! i)]\<rparr>) ts))))"

definition do_resume :: "db \<Rightarrow> timeval \<Rightarrow> int \<Rightarrow> var \<Rightarrow> objid \<Rightarrow> tasks \<Rightarrow> (error \<times> tasks) option" where
  "do_resume db now tid v progr ts = (case pick_task (suspended_id tid) (waiting_tasks ts) of
     Some (t, us) \<Rightarrow>
       if \<not> is_wizard db progr \<and> progr \<noteq> bg_progr t then Some (E_PERM, ts)
       else (do {
         (q, ts) \<leftarrow> find_tqueue db (bg_progr t) ts;
         ts \<leftarrow> ensure_usage q (ts\<lparr>waiting_tasks := us\<rparr>);
         map_option (Pair E_NONE) (enqueue_bg_task q (with_value v (with_start now t)) ts)
       })
   | None \<Rightarrow> Some (case revalue_in_queues tid v (is_wizard db progr) progr (active_tqueues ts) ts of
         Some r \<Rightarrow> r | None \<Rightarrow> (E_INVARG, ts)))"

definition bf_resume :: "db \<Rightarrow> timeval \<Rightarrow> var list \<Rightarrow> objid \<Rightarrow> tasks \<Rightarrow> (package \<times> tasks) option" where
  "bf_resume db now args progr ts = (case args of
     VInt tid # vs \<Rightarrow> (do {
       (e, ts) \<leftarrow> do_resume db now (to_int32 tid) (case vs of v # _ \<Rightarrow> v | [] \<Rightarrow> zero_value) progr ts;
       Some (if e \<noteq> E_NONE then make_error_pack e else no_var_pack, ts)
     })
   | _ \<Rightarrow> None)"

subsection \<open>Input from the program\<close>

definition bf_force_input :: "db \<Rightarrow> var list \<Rightarrow> objid \<Rightarrow> tasks \<Rightarrow> (package \<times> tasks) option" where
  "bf_force_input db args progr ts = (case args of
     VObj conn # VStr line # vs \<Rightarrow>
       if \<not> is_wizard db progr \<and> progr \<noteq> conn then Some (make_error_pack E_PERM, ts)
       else (do {
         (q, ts) \<leftarrow> find_tqueue db conn ts;
         ts \<leftarrow> enqueue_input_task q line (case vs of v # _ \<Rightarrow> is_true v | [] \<Rightarrow> False) False ts;
         Some (no_var_pack, ts)
       })
   | _ \<Rightarrow> None)"

definition bf_flush_input :: "db \<Rightarrow> var list \<Rightarrow> objid \<Rightarrow> tasks \<Rightarrow> (package \<times> tasks) option" where
  "bf_flush_input db args progr ts = (case args of
     VObj conn # vs \<Rightarrow>
       if \<not> is_wizard db progr \<and> progr \<noteq> conn then Some (make_error_pack E_PERM, ts)
       else (do {
         (q, ts) \<leftarrow> find_tqueue db conn ts;
         ts \<leftarrow> flush_input q (case vs of v # _ \<Rightarrow> is_true v | [] \<Rightarrow> False) ts;
         Some (no_var_pack, ts)
       })
   | _ \<Rightarrow> None)"

end
