(* ===== verification/TaskInvariant.thy ===== *)
theory TaskInvariant
  imports TaskControl
begin

text \<open>
  What always holds of the queues of tasks, and that every operation keeps it. Besides the shape of the lists this is the count of
  background tasks that limits a user, the order of the waiting tasks, the threads of the input lines, and that no wake-up is lost:
  a queue with something to do is never on the list of idle queues.
\<close>

subsection \<open>The invariant\<close>

text \<open>Something to do: a background task of a player, a line that may be handled, or a reader that will never get one. The
  background tasks of a connection are left out, since logging in can leave them on an idle queue.\<close>

definition due :: "inputs \<Rightarrow> nat list \<Rightarrow> tqueue \<Rightarrow> bool" where
  "due h as tq \<longleftrightarrow> (tq_bg tq \<noteq> [] \<and> tq_player tq \<ge> 0) \<or> (tq_reading tq \<noteq> None \<and> (\<not> tq_connected tq \<or> as \<noteq> [])) \<or>
     (\<exists>a \<in> set as. wanted (if tq_hold_input tq then DQ_OOB else DQ_FIRST) (disable_oob tq) (kind_of h a))"

definition waiting_for :: "objid \<Rightarrow> bg_task list \<Rightarrow> int" where
  "waiting_for p us = int (length (filter (\<lambda>t. bg_progr t = p) us))"

text \<open>One queue: its lines are at the addresses \<open>as\<close>.\<close>

definition queue_ok :: "inputs \<Rightarrow> bg_task list \<Rightarrow> nat list \<Rightarrow> tqueue \<Rightarrow> bool" where
  "queue_ok h us as tq \<longleftrightarrow> iqueue_ok h tq as \<and> lengths_ok h tq as \<and>
     (tq_player tq \<noteq> NOTHING \<longrightarrow> tq_num_bg_tasks tq = int (length (tq_bg tq)) + waiting_for (tq_player tq) us)"

definition usage_ok :: "tasks \<Rightarrow> bool" where
  "usage_ok ts \<longleftrightarrow> sorted (map (usage_of ts) (active_tqueues ts)) \<and> (\<forall>q \<in> set (active_tqueues ts). usage_of ts q \<ge> 0) \<and>
     (\<forall>q \<in> set (idle_tqueues ts). usage_of ts q = NO_USAGE)"

definition starts_ok :: "bg_task list \<Rightarrow> bool" where
  "starts_ok us \<longleftrightarrow> sorted_wrt (\<lambda>t u. \<not> timercmp_less (GET_START_TIME u) (GET_START_TIME t)) us"

text \<open>The lines of every queue are at \<open>L\<close>. The queues in \<open>X\<close> are about to be activated.\<close>

definition tasks_inv :: "(nat \<Rightarrow> nat list) \<Rightarrow> nat set \<Rightarrow> tasks \<Rightarrow> bool" where
  "tasks_inv L X ts \<longleftrightarrow>
     distinct (active_tqueues ts @ idle_tqueues ts) \<and>
     (\<forall>q. queues ts q \<noteq> None \<longleftrightarrow> q \<in> set (active_tqueues ts @ idle_tqueues ts)) \<and>
     (\<forall>q \<ge> next_queue ts. queues ts q = None) \<and> usage_ok ts \<and>
     (\<forall>q q' tq tq'. queues ts q = Some tq \<longrightarrow> queues ts q' = Some tq' \<longrightarrow> tq_player tq = tq_player tq' \<longrightarrow>
        tq_player tq \<noteq> NOTHING \<longrightarrow> q = q') \<and>
     (\<forall>q tq. queues ts q = Some tq \<longrightarrow> queue_ok (inputs ts) (waiting_tasks ts) (L q) tq) \<and>
     (\<forall>q. queues ts q = None \<longrightarrow> L q = []) \<and>
     (\<forall>q q'. q \<noteq> q' \<longrightarrow> set (L q) \<inter> set (L q') = {}) \<and>
     (\<forall>a \<ge> next_input ts. inputs ts a = None) \<and>
     starts_ok (waiting_tasks ts) \<and>
     (\<forall>t \<in> set (waiting_tasks ts). bg_progr t \<noteq> NOTHING \<longrightarrow> (\<exists>q tq. queues ts q = Some tq \<and> tq_player tq = bg_progr t)) \<and>
     (\<forall>q \<in> set (idle_tqueues ts) - X. \<forall>tq. queues ts q = Some tq \<longrightarrow> \<not> due (inputs ts) (L q) tq)"

definition tasks_ok :: "tasks \<Rightarrow> bool" where
  "tasks_ok ts \<longleftrightarrow> (\<exists>L. tasks_inv L {} ts)"

lemma tasks_invD:
  assumes "tasks_inv L X ts"
  shows "distinct (active_tqueues ts)" "distinct (idle_tqueues ts)" "set (active_tqueues ts) \<inter> set (idle_tqueues ts) = {}"
    "queues ts q \<noteq> None \<longleftrightarrow> q \<in> set (active_tqueues ts) \<or> q \<in> set (idle_tqueues ts)"
    "q \<ge> next_queue ts \<Longrightarrow> queues ts q = None" "usage_ok ts"
    "queues ts q = Some tq \<Longrightarrow> queues ts q' = Some tq' \<Longrightarrow> tq_player tq = tq_player tq' \<Longrightarrow> tq_player tq \<noteq> NOTHING \<Longrightarrow> q = q'"
    "queues ts q = Some tq \<Longrightarrow> queue_ok (inputs ts) (waiting_tasks ts) (L q) tq"
    "queues ts q = None \<Longrightarrow> L q = []" "q \<noteq> q' \<Longrightarrow> set (L q) \<inter> set (L q') = {}" "a \<ge> next_input ts \<Longrightarrow> inputs ts a = None"
    "starts_ok (waiting_tasks ts)"
    "q \<in> set (idle_tqueues ts) \<Longrightarrow> q \<notin> X \<Longrightarrow> queues ts q = Some tq \<Longrightarrow> \<not> due (inputs ts) (L q) tq"
    "t \<in> set (waiting_tasks ts) \<Longrightarrow> bg_progr t \<noteq> NOTHING \<Longrightarrow> \<exists>q tq. queues ts q = Some tq \<and> tq_player tq = bg_progr t"
proof -
  note inv = assms [unfolded tasks_inv_def]
  show "distinct (active_tqueues ts)" "distinct (idle_tqueues ts)" "set (active_tqueues ts) \<inter> set (idle_tqueues ts) = {}"
    "queues ts q \<noteq> None \<longleftrightarrow> q \<in> set (active_tqueues ts) \<or> q \<in> set (idle_tqueues ts)" "usage_ok ts" "starts_ok (waiting_tasks ts)"
    "q \<ge> next_queue ts \<Longrightarrow> queues ts q = None" "queues ts q = None \<Longrightarrow> L q = []" "a \<ge> next_input ts \<Longrightarrow> inputs ts a = None"
    "q \<noteq> q' \<Longrightarrow> set (L q) \<inter> set (L q') = {}"
    using inv by simp_all
  show "t \<in> set (waiting_tasks ts) \<Longrightarrow> bg_progr t \<noteq> NOTHING \<Longrightarrow> \<exists>q tq. queues ts q = Some tq \<and> tq_player tq = bg_progr t"
    using inv by simp
  show "queues ts q = Some tq \<Longrightarrow> queues ts q' = Some tq' \<Longrightarrow> tq_player tq = tq_player tq' \<Longrightarrow> tq_player tq \<noteq> NOTHING \<Longrightarrow> q = q'"
    "queues ts q = Some tq \<Longrightarrow> queue_ok (inputs ts) (waiting_tasks ts) (L q) tq"
    "q \<in> set (idle_tqueues ts) \<Longrightarrow> q \<notin> X \<Longrightarrow> queues ts q = Some tq \<Longrightarrow> \<not> due (inputs ts) (L q) tq"
    using inv by blast+
qed

lemma tasks_invI:
  assumes "distinct (active_tqueues ts)" "distinct (idle_tqueues ts)" "set (active_tqueues ts) \<inter> set (idle_tqueues ts) = {}"
    "\<And>q. queues ts q \<noteq> None \<longleftrightarrow> q \<in> set (active_tqueues ts) \<or> q \<in> set (idle_tqueues ts)"
    "\<And>q. q \<ge> next_queue ts \<Longrightarrow> queues ts q = None" "usage_ok ts"
    "\<And>q q' tq tq'. queues ts q = Some tq \<Longrightarrow> queues ts q' = Some tq' \<Longrightarrow> tq_player tq = tq_player tq' \<Longrightarrow> tq_player tq \<noteq> NOTHING \<Longrightarrow> q = q'"
    "\<And>q tq. queues ts q = Some tq \<Longrightarrow> queue_ok (inputs ts) (waiting_tasks ts) (L q) tq"
    "\<And>q. queues ts q = None \<Longrightarrow> L q = []" "\<And>q q'. q \<noteq> q' \<Longrightarrow> set (L q) \<inter> set (L q') = {}"
    "\<And>a. a \<ge> next_input ts \<Longrightarrow> inputs ts a = None" "starts_ok (waiting_tasks ts)"
    "\<And>q tq. q \<in> set (idle_tqueues ts) \<Longrightarrow> q \<notin> X \<Longrightarrow> queues ts q = Some tq \<Longrightarrow> \<not> due (inputs ts) (L q) tq"
    "\<And>t. t \<in> set (waiting_tasks ts) \<Longrightarrow> bg_progr t \<noteq> NOTHING \<Longrightarrow> \<exists>q tq. queues ts q = Some tq \<and> tq_player tq = bg_progr t"
  shows "tasks_inv L X ts"
  unfolding tasks_inv_def
proof (intro conjI)
  show "distinct (active_tqueues ts @ idle_tqueues ts)" using assms(1-3) by simp
  show "\<forall>q. (queues ts q \<noteq> None) = (q \<in> set (active_tqueues ts @ idle_tqueues ts))" unfolding set_append Un_iff using assms(4) by blast
qed (use assms(5-) in blast)+

subsection \<open>Changing one queue\<close>

lemma iqueue_ok_cong:
  assumes "first_input q' = first_input q" "last_input q' = last_input q" "first_itail q' = first_itail q" "last_itail q' = last_itail q"
  shows "iqueue_ok h q' as = iqueue_ok h q as"
  using assms by (simp add: iqueue_ok_def)

lemma usage_of_put: "usage_of (put_queue q tq ts) p = (if p = q then tq_usage tq else usage_of ts p)"
  by (simp add: usage_of_def put_queue_def)

lemma usage_ok_cong:
  "active_tqueues ts' = active_tqueues ts \<Longrightarrow> idle_tqueues ts' = idle_tqueues ts \<Longrightarrow> usage_of ts' = usage_of ts \<Longrightarrow> usage_ok ts' = usage_ok ts"
  by (simp add: usage_ok_def)

text \<open>The rest of the state does not matter.\<close>

lemma tasks_inv_cong:
  assumes "inputs ts' = inputs ts" "next_input ts' = next_input ts" "queues ts' = queues ts" "next_queue ts' = next_queue ts"
    "idle_tqueues ts' = idle_tqueues ts" "active_tqueues ts' = active_tqueues ts" "waiting_tasks ts' = waiting_tasks ts"
  shows "tasks_inv L X ts' = tasks_inv L X ts"
proof -
  have "usage_of ts' = usage_of ts" using assms(3) by (simp add: usage_of_def fun_eq_iff)
  then show ?thesis using assms usage_ok_cong [OF assms(6,5)] by (simp add: tasks_inv_def)
qed

lemma tasks_inv_call_net [simp]: "tasks_inv L X (call_net c ts) = tasks_inv L X ts"
  by (rule tasks_inv_cong) (simp_all add: call_net_def)

lemma players_update:
  assumes unique: "\<And>q q' tq tq'. Q q = Some tq \<Longrightarrow> Q q' = Some tq' \<Longrightarrow> tq_player tq = tq_player tq' \<Longrightarrow> tq_player tq \<noteq> NOTHING \<Longrightarrow> q = q'"
    and q: "Q q = Some tq" "tq_player tq' = tq_player tq"
    and t: "(if p = q then Some tq' else Q p) = Some t" "(if p' = q then Some tq' else Q p') = Some t'" "tq_player t = tq_player t'" "tq_player t \<noteq> NOTHING"
  shows "p = p'"
proof -
  obtain s where "Q p = Some s" "tq_player s = tq_player t" using q t(1) by (cases "p = q") auto
  moreover obtain s' where "Q p' = Some s'" "tq_player s' = tq_player t'" using q t(2) by (cases "p' = q") auto
  ultimately show ?thesis using unique [of p s p' s'] t(3,4) by simp
qed

text \<open>A queue gets new contents, with the lines, and nothing to do if it is idle, or else it is about to be activated.\<close>

lemma put_queue_inv:
  assumes inv: "tasks_inv L X ts" and q: "queues ts q = Some tq"
    and same: "tq_player tq' = tq_player tq" "tq_usage tq' = tq_usage tq"
    and ok: "queue_ok (inputs ts) (waiting_tasks ts) (L q) tq'"
    and due: "q \<notin> X' \<Longrightarrow> q \<in> set (idle_tqueues ts) \<Longrightarrow> \<not> due (inputs ts) (L q) tq'" and X: "X \<subseteq> insert q X'"
  shows "tasks_inv L X' (put_queue q tq' ts)"
proof -
  have u: "usage_of ts q = tq_usage tq" using q by (simp add: usage_of_def)
  have f: "active_tqueues (put_queue q tq' ts) = active_tqueues ts" "idle_tqueues (put_queue q tq' ts) = idle_tqueues ts"
    "next_queue (put_queue q tq' ts) = next_queue ts" "inputs (put_queue q tq' ts) = inputs ts" "next_input (put_queue q tq' ts) = next_input ts"
    "waiting_tasks (put_queue q tq' ts) = waiting_tasks ts" "\<And>p. queues (put_queue q tq' ts) p = (if p = q then Some tq' else queues ts p)"
    by (simp_all add: put_queue_def)
  note D = tasks_invD [OF inv]
  show ?thesis
  proof (rule tasks_invI, unfold f)
    have "usage_of (put_queue q tq' ts) = usage_of ts" by (intro ext) (simp add: usage_of_put u same(2))
    then show "usage_ok (put_queue q tq' ts)" using D(6) usage_ok_cong f by blast
    show "(if p = q then Some tq' else queues ts p) \<noteq> None \<longleftrightarrow> p \<in> set (active_tqueues ts) \<or> p \<in> set (idle_tqueues ts)" for p
      using D(4) [of p] q by auto
    show "p = p'" if "(if p = q then Some tq' else queues ts p) = Some t" "(if p' = q then Some tq' else queues ts p') = Some t'"
      "tq_player t = tq_player t'" "tq_player t \<noteq> NOTHING" for p p' t t'
      by (rule players_update [where Q = "queues ts", OF _ q same(1) that]) (rule D(7))
    show "queue_ok (inputs ts) (waiting_tasks ts) (L p) t" if "(if p = q then Some tq' else queues ts p) = Some t" for p t
      using that ok D(8) by (auto split: if_splits)
    show "\<not> due (inputs ts) (L p) t" if "p \<in> set (idle_tqueues ts)" "p \<notin> X'" "(if p = q then Some tq' else queues ts p) = Some t" for p t
      using that due D(13) [of p t] X by (auto split: if_splits)
    show "\<exists>p t. (if p = q then Some tq' else queues ts p) = Some t \<and> tq_player t = bg_progr w" if "w \<in> set (waiting_tasks ts)" "bg_progr w \<noteq> NOTHING" for w
      using D(14) [OF that] q same(1) by (metis option.inject)
  qed (use D q in \<open>auto split: if_splits\<close>)
qed

subsection \<open>Activation\<close>

lemma insert_by_usage_set [simp]: "set (insert_by_usage u q qs) = insert q (set qs)"
  by (induction qs) auto

lemma insert_by_usage_distinct [simp]: "distinct (insert_by_usage u q qs) \<longleftrightarrow> q \<notin> set qs \<and> distinct qs"
  by (induction qs) auto

lemma insert_by_usage_sorted: "sorted (map u qs) \<Longrightarrow> sorted (map u (insert_by_usage u q qs))"
  by (induction qs) auto

lemma insert_by_usage_hd: "qs \<noteq> [] \<Longrightarrow> u (hd qs) \<le> u q \<Longrightarrow> hd (insert_by_usage u q qs) = hd qs"
  by (cases qs) auto

lemma idle_usage: "tasks_inv L X ts \<Longrightarrow> queues ts q = Some tq \<Longrightarrow> tq_usage tq = NO_USAGE \<longleftrightarrow> q \<in> set (idle_tqueues ts)"
proof -
  assume inv: "tasks_inv L X ts" and q: "queues ts q = Some tq"
  have "usage_ok ts" "q \<in> set (active_tqueues ts) \<or> q \<in> set (idle_tqueues ts)" "usage_of ts q = tq_usage tq"
    using tasks_invD(4,6) [OF inv] q by (auto simp: usage_of_def)
  then show ?thesis using tasks_invD(3) [OF inv] by (auto simp: usage_ok_def NO_USAGE_def)
qed

lemma ensure_usage_inv:
  assumes inv: "tasks_inv L (insert q X) ts" and q: "queues ts q = Some tq"
  obtains ts' where "ensure_usage q ts = Some ts'" "tasks_inv L X ts'" "q \<in> set (active_tqueues ts')"
    "inputs ts' = inputs ts" "waiting_tasks ts' = waiting_tasks ts" "idle_tqueues ts' = remove1 q (idle_tqueues ts)"
    "queues ts' = (queues ts)(q \<mapsto> tq\<lparr>tq_usage := usage_of ts' q\<rparr>)" "next_input ts' = next_input ts" "next_queue ts' = next_queue ts"
proof (cases "q \<in> set (idle_tqueues ts)")
  case False
  then have a: "q \<in> set (active_tqueues ts)" using tasks_invD(4) [OF inv, of q] q by auto
  have "ensure_usage q ts = Some ts" using q idle_usage [OF inv q] False by (simp add: ensure_usage_def)
  moreover have "tasks_inv L X ts" using inv False by (auto simp: tasks_inv_def)
  moreover have "queues ts = (queues ts)(q \<mapsto> tq\<lparr>tq_usage := usage_of ts q\<rparr>)" using q by (auto simp: usage_of_def)
  ultimately show ?thesis using that [of ts] a False by (simp add: remove1_idem)
next
  case True
  define u where "u = (case active_tqueues ts of [] \<Rightarrow> 0 | p # _ \<Rightarrow> usage_of ts p)"
  have na: "q \<notin> set (active_tqueues ts)" using True tasks_invD(3) [OF inv] by auto
  define ts1 where "ts1 = (put_queue q (tq\<lparr>tq_usage := u\<rparr>) ts)\<lparr>idle_tqueues := remove1 q (idle_tqueues ts)\<rparr>"
  have e: "ensure_usage q ts = Some (activate_tqueue q ts1)"
    using q idle_usage [OF inv q] True by (simp add: ensure_usage_def u_def ts1_def put_queue_def)
  have us: "usage_ok ts" using tasks_invD(6) [OF inv] .
  have uo: "usage_of ts1 p = (if p = q then u else usage_of ts p)" for p by (simp add: usage_of_def ts1_def put_queue_def)
  have act: "active_tqueues ts1 = active_tqueues ts" by (simp add: ts1_def put_queue_def)
  have uo': "usage_of (activate_tqueue q ts1) = usage_of ts1" by (simp add: usage_of_def activate_tqueue_def fun_eq_iff)
  have m: "map (usage_of ts1) (active_tqueues ts) = map (usage_of ts) (active_tqueues ts)" using na uo by (auto simp: map_eq_conv)
  have u0: "u \<ge> 0" using us by (auto simp: u_def usage_ok_def split: list.splits)
  have ua: "usage_ok (activate_tqueue q ts1)"
    unfolding usage_ok_def uo'
  proof (intro conjI ballI)
    show "sorted (map (usage_of ts1) (active_tqueues (activate_tqueue q ts1)))"
      using insert_by_usage_sorted [of "usage_of ts1" "active_tqueues ts" q] m us by (simp add: activate_tqueue_def act usage_ok_def)
    show "0 \<le> usage_of ts1 p" if "p \<in> set (active_tqueues (activate_tqueue q ts1))" for p
      using that us u0 uo [of p] by (auto simp: activate_tqueue_def act usage_ok_def)
    show "usage_of ts1 p = NO_USAGE" if "p \<in> set (idle_tqueues (activate_tqueue q ts1))" for p
      using that us uo [of p] tasks_invD(2) [OF inv] by (auto simp: activate_tqueue_def ts1_def usage_ok_def)
  qed
  have qo: "queue_ok (inputs ts) (waiting_tasks ts) (L q) (tq\<lparr>tq_usage := u\<rparr>)"
    using tasks_invD(8) [OF inv q] by (simp add: queue_ok_def lengths_ok_def iqueue_ok_def)
  have f: "active_tqueues (activate_tqueue q ts1) = insert_by_usage (usage_of ts1) q (active_tqueues ts)"
    "idle_tqueues (activate_tqueue q ts1) = remove1 q (idle_tqueues ts)"
    "next_queue (activate_tqueue q ts1) = next_queue ts" "inputs (activate_tqueue q ts1) = inputs ts" "next_input (activate_tqueue q ts1) = next_input ts"
    "waiting_tasks (activate_tqueue q ts1) = waiting_tasks ts"
    "\<And>p. queues (activate_tqueue q ts1) p = (if p = q then Some (tq\<lparr>tq_usage := u\<rparr>) else queues ts p)"
    by (simp_all add: activate_tqueue_def ts1_def put_queue_def)
  note D = tasks_invD [OF inv]
  have "tasks_inv L X (activate_tqueue q ts1)"
  proof (rule tasks_invI, unfold f)
    show "(if p = q then Some (tq\<lparr>tq_usage := u\<rparr>) else queues ts p) \<noteq> None \<longleftrightarrow>
        p \<in> set (insert_by_usage (usage_of ts1) q (active_tqueues ts)) \<or> p \<in> set (remove1 q (idle_tqueues ts))" for p
      using D(4) [of p] D(2) q by auto
    show "p = p'" if "(if p = q then Some (tq\<lparr>tq_usage := u\<rparr>) else queues ts p) = Some t"
      "(if p' = q then Some (tq\<lparr>tq_usage := u\<rparr>) else queues ts p') = Some t'" "tq_player t = tq_player t'" "tq_player t \<noteq> NOTHING" for p p' t t'
      by (rule players_update [where Q = "queues ts", OF _ q _ that]) (use D(7) in simp_all)
    show "queue_ok (inputs ts) (waiting_tasks ts) (L p) t" if "(if p = q then Some (tq\<lparr>tq_usage := u\<rparr>) else queues ts p) = Some t" for p t
      using that qo D(8) by (auto split: if_splits)
    show "\<not> due (inputs ts) (L p) t" if "p \<in> set (remove1 q (idle_tqueues ts))" "p \<notin> X"
      "(if p = q then Some (tq\<lparr>tq_usage := u\<rparr>) else queues ts p) = Some t" for p t
      using that D(13) [of p t] D(2) by (auto split: if_splits)
    show "\<exists>p t. (if p = q then Some (tq\<lparr>tq_usage := u\<rparr>) else queues ts p) = Some t \<and> tq_player t = bg_progr w"
      if "w \<in> set (waiting_tasks ts)" "bg_progr w \<noteq> NOTHING" for w
      using D(14) [OF that] q by (elim exE) (rule_tac x = qa in exI, auto)
  qed (use D q na ua in \<open>auto split: if_splits\<close>)
  then show ?thesis
    by (rule that [OF e]) (auto simp: activate_tqueue_def ts1_def put_queue_def usage_of_def)
qed

subsection \<open>Finding a queue\<close>

lemma find_player_some:
  assumes "find_player player ts = Some q"
  obtains tq where "queues ts q = Some tq" "tq_player tq = player"
  using assms by (auto simp: find_player_def find_Some_iff)

lemma find_player_none: "tasks_inv L X ts \<Longrightarrow> find_player player ts = None \<Longrightarrow> queues ts q = Some tq \<Longrightarrow> tq_player tq \<noteq> player"
  using tasks_invD(4) [of L X ts q] by (auto simp: find_player_def find_None_iff)

lemma find_player_unique:
  assumes inv: "tasks_inv L X ts" and q: "queues ts q = Some tq" "tq_player tq \<noteq> NOTHING"
  shows "find_player (tq_player tq) ts = Some q"
proof (cases "find_player (tq_player tq) ts")
  case None
  then show ?thesis using find_player_none [OF inv None q(1)] by simp
next
  case (Some p)
  then obtain t where "queues ts p = Some t" "tq_player t = tq_player tq" by (rule find_player_some)
  then show ?thesis using tasks_invD(7) [OF inv q(1), of p t] q(2) Some by simp
qed

lemma usage_ok_frame:
  assumes "usage_ok ts" "active_tqueues ts' = active_tqueues ts" "\<And>q. q \<in> set (active_tqueues ts) \<Longrightarrow> usage_of ts' q = usage_of ts q"
    "\<And>q. q \<in> set (idle_tqueues ts') \<Longrightarrow> usage_of ts' q = NO_USAGE"
  shows "usage_ok ts'"
proof -
  have m: "map (usage_of ts') (active_tqueues ts) = map (usage_of ts) (active_tqueues ts)" by (rule map_cong) (use assms(3) in auto)
  show ?thesis unfolding usage_ok_def assms(2) m using assms(1,3,4) by (simp add: usage_ok_def)
qed

lemma new_queue_ok: "(tq_player tq \<noteq> NOTHING \<Longrightarrow> waiting_for (tq_player tq) us = 0) \<Longrightarrow> tq = new_tqueue p f \<Longrightarrow> queue_ok h us [] tq"
  by (auto simp: queue_ok_def new_tqueue_def iqueue_ok_def rear_def lengths_ok_def to_int32_def)

lemma not_waiting: "(\<And>t. t \<in> set us \<Longrightarrow> bg_progr t \<noteq> p) \<Longrightarrow> waiting_for p us = 0"
  by (simp add: waiting_for_def filter_empty_conv)

lemma find_tqueue_inv:
  assumes inv: "tasks_inv L X ts" and opt: "default_flush_command db \<noteq> None"
  obtains q tq ts' where "find_tqueue db player ts = Some (q, ts')" "tasks_inv L X ts'" "queues ts' q = Some tq" "tq_player tq = player"
    "inputs ts' = inputs ts" "waiting_tasks ts' = waiting_tasks ts" "next_input ts' = next_input ts"
    "active_tqueues ts' = active_tqueues ts" "ts' = ts \<or> (queues ts q = None \<and> queues ts' = (queues ts)(q \<mapsto> tq) \<and> tq_bg tq = [] \<and>
       tq_num_bg_tasks tq = 0 \<and> find_player player ts = None)"
proof (cases "find_player player ts")
  case (Some q)
  then obtain tq where "queues ts q = Some tq" "tq_player tq = player" by (rule find_player_some)
  then show ?thesis using that [of q ts tq] Some inv by (simp add: find_tqueue_def)
next
  case None
  obtain flush where flush: "default_flush_command db = Some flush" using opt by auto
  let ?q = "next_queue ts" and ?tq = "new_tqueue player flush"
  let ?ts = "ts\<lparr>next_queue := ?q + 1, queues := (queues ts)(?q \<mapsto> ?tq), idle_tqueues := ?q # idle_tqueues ts\<rparr>"
  note D = tasks_invD [OF inv]
  have free: "queues ts ?q = None" using D(5) by simp
  have notin: "?q \<notin> set (active_tqueues ts)" "?q \<notin> set (idle_tqueues ts)" using D(4) [of ?q] free by auto
  have usage: "tq_usage ?tq = NO_USAGE" "?tq\<lparr>tq_usage := NO_USAGE\<rparr> = ?tq" by (simp_all add: new_tqueue_def)
  have f: "find_tqueue db player ts = Some (?q, ?ts)"
    using None flush usage(2) by (simp add: find_tqueue_def deactivate_tqueue_def put_queue_def Let_def)
  have player: "tq_player ?tq = player" by (simp add: new_tqueue_def)
  have others: "tq_player t \<noteq> player" if "queues ts p = Some t" for p t using find_player_none [OF inv None that] .
  have uo: "usage_of ?ts p = (if p = ?q then NO_USAGE else usage_of ts p)" for p using usage(1) by (simp add: usage_of_def)
  have inv': "tasks_inv L X ?ts"
  proof (rule tasks_invI)
    show "usage_ok ?ts"
    proof (rule usage_ok_frame [OF D(6)])
      show "usage_of ?ts q = usage_of ts q" if "q \<in> set (active_tqueues ts)" for q using that notin uo [of q] by metis
      show "usage_of ?ts q = NO_USAGE" if "q \<in> set (idle_tqueues ?ts)" for q using that D(6) uo [of q] by (auto simp: usage_ok_def)
    qed simp
    show "queues ?ts p \<noteq> None \<longleftrightarrow> p \<in> set (active_tqueues ?ts) \<or> p \<in> set (idle_tqueues ?ts)" for p
      using D(4) [of p] notin by auto
    show "p = p'" if "queues ?ts p = Some t" "queues ?ts p' = Some t'" "tq_player t = tq_player t'" "tq_player t \<noteq> NOTHING" for p p' t t'
      using that others [of p t] others [of p' t'] D(7) [of p t p' t'] player by (auto split: if_splits)
    show "queue_ok (inputs ?ts) (waiting_tasks ?ts) (L p) t" if "queues ?ts p = Some t" for p t
    proof (cases "p = ?q")
      case True
      have "waiting_for player (waiting_tasks ts) = 0" if "player \<noteq> NOTHING"
        using D(14) others that by (intro not_waiting) metis
      then show ?thesis using that True D(9) [OF free] player by (auto intro!: new_queue_ok)
    next
      case False
      then show ?thesis using that D(8) by simp
    qed
    show "\<not> due (inputs ?ts) (L p) t" if "p \<in> set (idle_tqueues ?ts)" "p \<notin> X" "queues ?ts p = Some t" for p t
      using that D(13) [of p t] D(9) [OF free] notin by (auto simp: due_def new_tqueue_def split: if_splits)
    show "\<exists>p t. queues ?ts p = Some t \<and> tq_player t = bg_progr w" if w: "w \<in> set (waiting_tasks ?ts)" "bg_progr w \<noteq> NOTHING" for w
    proof -
      obtain p t where "queues ts p = Some t" "tq_player t = bg_progr w" using D(14) [of w] w by auto
      then show ?thesis using free by (intro exI [of _ p] exI [of _ t]) auto
    qed
  qed (use D notin in \<open>auto split: if_splits\<close>)
  have "tq_bg ?tq = []" "tq_num_bg_tasks ?tq = 0" by (simp_all add: new_tqueue_def)
  then show ?thesis by (intro that [OF f inv', of ?tq]) (use player free None in simp_all)
qed

subsection \<open>Input lines\<close>

lemma due_mono:
  assumes "\<not> due h as tq" "set as' \<subseteq> set as" "\<And>a. a \<in> set as' \<Longrightarrow> kind_of h' a = kind_of h a"
    "tq_bg tq' = tq_bg tq" "tq_reading tq' = tq_reading tq" "tq_connected tq' = tq_connected tq"
    "tq_hold_input tq' = tq_hold_input tq" "disable_oob tq' = disable_oob tq" "tq_player tq' = tq_player tq"
  shows "\<not> due h' as' tq'"
  using assms by (auto simp: due_def)

text \<open>The lines of one queue change; the cells of the other queues do not.\<close>

lemma change_input_inv:
  assumes inv: "tasks_inv L X ts" and q: "queues ts q = Some tq"
    and same: "tq_player tq' = tq_player tq" "tq_usage tq' = tq_usage tq"
    and ok: "queue_ok h (waiting_tasks ts) as tq'"
    and others: "\<And>p a. p \<noteq> q \<Longrightarrow> a \<in> set (L p) \<Longrightarrow> h a = inputs ts a"
    and new: "\<And>a p. a \<in> set as \<Longrightarrow> p \<noteq> q \<Longrightarrow> a \<notin> set (L p)" "\<And>a. a \<ge> n \<Longrightarrow> h a = None"
    and due: "q \<notin> X' \<Longrightarrow> q \<in> set (idle_tqueues ts) \<Longrightarrow> \<not> due h as tq'" and X: "X \<subseteq> insert q X'"
  shows "tasks_inv (L(q := as)) X' ((put_queue q tq' ts)\<lparr>inputs := h, next_input := n\<rparr>)"
proof -
  let ?ts = "(put_queue q tq' ts)\<lparr>inputs := h, next_input := n\<rparr>"
  have u: "usage_of ts q = tq_usage tq" using q by (simp add: usage_of_def)
  have uo: "usage_of ?ts p = usage_of ts p" for p
    using usage_of_put [of q tq' ts p] u same(2) by (simp add: usage_of_def)
  have f: "active_tqueues ?ts = active_tqueues ts" "idle_tqueues ?ts = idle_tqueues ts"
    "next_queue ?ts = next_queue ts" "inputs ?ts = h" "next_input ?ts = n"
    "waiting_tasks ?ts = waiting_tasks ts" "\<And>p. queues ?ts p = (if p = q then Some tq' else queues ts p)"
    by (simp_all add: put_queue_def)
  note D = tasks_invD [OF inv]
  have cell: "kind_of h a = kind_of (inputs ts) a" if "p \<noteq> q" "a \<in> set (L p)" for p a
    using others [OF that] by (simp add: kind_of_def)
  have old: "queue_ok h (waiting_tasks ts) (L p) t" if "p \<noteq> q" "queues ts p = Some t" for p t
  proof -
    have c: "queue_ok (inputs ts) (waiting_tasks ts) (L p) t" using D(8) that by blast
    have "iqueue_ok h t (L p)"
      by (rule iqueue_frame [of "inputs ts"]) (use c that(1) others in \<open>auto simp: queue_ok_def oob_def\<close>)
    moreover have "lengths_ok h t (L p)"
      using lengths_cong [of "L p" h "inputs ts" t t] c others [OF that(1)] iqueue_alloc [of "inputs ts" t "L p"]
      by (auto simp: queue_ok_def contents_def)
    ultimately show ?thesis using c by (simp add: queue_ok_def)
  qed
  show ?thesis
  proof (rule tasks_invI, unfold f)
    show "usage_ok ?ts" by (rule usage_ok_frame [OF D(6)]) (use uo D(6) f in \<open>auto simp: usage_ok_def\<close>)
    show "(if p = q then Some tq' else queues ts p) \<noteq> None \<longleftrightarrow> p \<in> set (active_tqueues ts) \<or> p \<in> set (idle_tqueues ts)" for p
      using D(4) [of p] q by auto
    show "p = p'" if "(if p = q then Some tq' else queues ts p) = Some t" "(if p' = q then Some tq' else queues ts p') = Some t'"
      "tq_player t = tq_player t'" "tq_player t \<noteq> NOTHING" for p p' t t'
      by (rule players_update [where Q = "queues ts", OF _ q same(1) that]) (rule D(7))
    show "queue_ok h (waiting_tasks ts) ((L(q := as)) p) t" if "(if p = q then Some tq' else queues ts p) = Some t" for p t
      using that ok old by (auto split: if_splits)
    show "\<not> due h ((L(q := as)) p) t" if "p \<in> set (idle_tqueues ts)" "p \<notin> X'" "(if p = q then Some tq' else queues ts p) = Some t" for p t
    proof (cases "p = q")
      case True
      then show ?thesis using that due by simp
    next
      case False
      have "p \<notin> X" using X that(2) False by auto
      moreover have "queues ts p = Some t" using that(3) False by simp
      ultimately have "\<not> due (inputs ts) (L p) t" using D(13) that(1) by blast
      then have "\<not> due h (L p) t" by (rule due_mono) (use cell [OF False] in auto)
      then show ?thesis using False by simp
    qed
    show "\<exists>p t. (if p = q then Some tq' else queues ts p) = Some t \<and> tq_player t = bg_progr w" if "w \<in> set (waiting_tasks ts)" "bg_progr w \<noteq> NOTHING" for w
      using D(14) [OF that] q same(1) by (metis option.inject)
    show "set ((L(q := as)) p) \<inter> set ((L(q := as)) p') = {}" if "p \<noteq> p'" for p p'
      using D(10) [OF that] new(1) that by (cases "p = q"; cases "p' = q") auto
  qed (use D q new in \<open>auto split: if_splits\<close>)
qed

lemma queue_okD:
  assumes "queue_ok h us as tq"
  shows "iqueue_ok h tq as" "lengths_ok h tq as" "distinct as" "a \<in> set as \<Longrightarrow> h a \<noteq> None"
    "tq_player tq \<noteq> NOTHING \<Longrightarrow> tq_num_bg_tasks tq = int (length (tq_bg tq)) + waiting_for (tq_player tq) us"
  using assms iqueue_alloc [of h tq as a] by (auto simp: queue_ok_def iqueue_ok_def)

text \<open>Taking a line: the first that is wanted, with its cell still there; nothing happens when there is none.\<close>

lemma dequeue_input_inv:
  fixes how :: dequeue_how
  assumes inv: "tasks_inv L X ts" and q: "queues ts q = Some tq"
  defines "P \<equiv> \<lambda>a. wanted how (disable_oob tq) (kind_of (inputs ts) a)"
  obtains "find P (L q) = None" "dequeue_input_task q how ts = Some (None, ts)"
    | a t ts' tq' where "find P (L q) = Some a" "dequeue_input_task q how ts = Some (Some (a, t), ts')"
      "tasks_inv (L(q := remove1 a (L q))) X ts'" "queues ts' = (queues ts)(q \<mapsto> tq')" "inputs ts' a = Some t"
      "tq_player tq' = tq_player tq" "tq_bg tq' = tq_bg tq" "tq_num_bg_tasks tq' = tq_num_bg_tasks tq"
      "tq_reading tq' = tq_reading tq" "tq_connected tq' = tq_connected tq" "tq_hold_input tq' = tq_hold_input tq"
      "disable_oob tq' = disable_oob tq" "tq_flush_cmd tq' = tq_flush_cmd tq" "\<And>p b. b \<in> set ((L(q := remove1 a (L q))) p) \<Longrightarrow> b \<noteq> a"
      "waiting_tasks ts' = waiting_tasks ts" "idle_tqueues ts' = idle_tqueues ts" "active_tqueues ts' = active_tqueues ts"
      "tq_usage tq' = tq_usage tq" "next_queue ts' = next_queue ts"
proof -
  note D = tasks_invD [OF inv]
  have ok: "queue_ok (inputs ts) (waiting_tasks ts) (L q) tq" using D(8) [OF q] .
  note O = queue_okD [OF ok]
  have spec: "case find P (L q) of None \<Rightarrow> take_input how (inputs ts) tq = Some (None, inputs ts, tq)
    | Some a \<Rightarrow> \<exists>h' q'. take_input how (inputs ts) tq = Some (Some a, h', q') \<and> iqueue_ok h' q' (remove1 a (L q)) \<and>
        contents h' = contents (inputs ts) \<and> same_rest tq q' \<and> (\<forall>b. b \<notin> set (L q) \<longrightarrow> h' b = inputs ts b)"
    using take_input_ok [OF O(1), of how] by (simp add: P_def)
  show ?thesis
  proof (cases "find P (L q)")
    case None
    then show ?thesis using spec that(1) q by (simp add: dequeue_input_task_def)
  next
    case (Some a)
    then obtain h tq1 where t: "take_input how (inputs ts) tq = Some (Some a, h, tq1)" "iqueue_ok h tq1 (remove1 a (L q))"
      "contents h = contents (inputs ts)" "same_rest tq tq1" "\<And>b. b \<notin> set (L q) \<Longrightarrow> h b = inputs ts b" using spec by auto
    have a: "a \<in> set (L q)" using Some by (auto simp: find_Some_iff)
    obtain c where c: "inputs ts a = Some c" using O(4) [OF a] by auto
    obtain c' where c': "h a = Some c'" "it_length c' = it_length c"
      using fun_cong [OF t(3), of a] c by (auto simp: contents_def)
    define tq2 where "tq2 = tq1\<lparr>total_input_length := to_int32 (total_input_length tq1 - it_length c')\<rparr>"
    define resume where "resume = (tq_input_suspended tq2 \<and> tq_connected tq2 \<and> total_input_length tq2 < INPUT_LOWAT)"
    define tq3 where "tq3 = (if resume then tq2\<lparr>tq_input_suspended := False\<rparr> else tq2)"
    define h' where "h' = h(a \<mapsto> taken_kind tq1 c')"
    let ?ts = "(put_queue q tq3 ts)\<lparr>inputs := h', next_input := next_input ts\<rparr>"
    define ts' where "ts' = (if resume then call_net (Server_resume_input (tq_player tq2)) ?ts else ?ts)"
    have more: "iqueue.more tq1 = iqueue.more tq" "disable_oob tq1 = disable_oob tq" "total_input_length tq1 = total_input_length tq"
      using same_restD [OF t(4)] by auto
    have fields: "tq_player tq3 = tq_player tq" "tq_bg tq3 = tq_bg tq" "tq_num_bg_tasks tq3 = tq_num_bg_tasks tq"
      "tq_reading tq3 = tq_reading tq" "tq_connected tq3 = tq_connected tq" "tq_hold_input tq3 = tq_hold_input tq"
      "disable_oob tq3 = disable_oob tq" "tq_usage tq3 = tq_usage tq" "tq_flush_cmd tq3 = tq_flush_cmd tq"
      using more by (cases tq, cases tq1, simp add: tq3_def tq2_def)+
    have dq: "dequeue_input_task q how ts = Some (Some (a, taken_kind tq1 c'), ts')"
      using q t(1) c'(1) by (simp add: dequeue_input_task_def uncount_input_def Let_def ts'_def resume_def tq3_def h'_def tq2_def put_queue_def)
    have na: "a \<notin> set (remove1 a (L q))" using O(3) by simp
    have iq: "iqueue_ok h' tq3 (remove1 a (L q))"
    proof -
      have "iqueue_ok h' tq1 (remove1 a (L q))" unfolding h'_def by (rule iqueue_frame [OF t(2)]) (use na in \<open>auto simp: oob_def\<close>)
      then show ?thesis by (simp add: iqueue_ok_def tq3_def tq2_def)
    qed
    have old: "contents h' b = contents (inputs ts) b \<and> inputs ts b \<noteq> None" if "b \<in> set (remove1 a (L q))" for b
    proof -
      have "b \<in> set (L q)" "b \<noteq> a" using that na notin_set_remove1 [of b "L q" a] by auto
      then have "inputs ts b \<noteq> None" "contents h b = contents (inputs ts) b" using D(8) [OF q] queue_okD(4) t(3) by auto
      then show ?thesis using \<open>b \<noteq> a\<close> by (simp add: h'_def contents_def)
    qed
    have len: "lengths_ok h' tq3 (remove1 a (L q))"
      by (rule lengths_remove [OF O(2,3) a old]) (use c c' more in \<open>simp_all add: tq3_def tq2_def\<close>)
    have qo: "queue_ok h' (waiting_tasks ts) (remove1 a (L q)) tq3"
      using iq len O(5) fields by (simp add: queue_ok_def)
    have kinds: "kind_of h' b = kind_of (inputs ts) b" if "b \<in> set (remove1 a (L q))" for b
      using old [OF that] by (auto simp: contents_def kind_of_def)
    have other: "h' b = inputs ts b" if "p \<noteq> q" "b \<in> set (L p)" for p b
    proof -
      have "b \<notin> set (L q)" using D(10) [OF that(1)] that(2) by auto
      then show ?thesis using t(5) [of b] a by (auto simp: h'_def)
    qed
    have "tasks_inv (L(q := remove1 a (L q))) X ?ts"
    proof (rule change_input_inv [OF inv q])
      show "\<not> due h' (remove1 a (L q)) tq3" if "q \<notin> X" "q \<in> set (idle_tqueues ts)"
        using D(13) [OF that(2,1) q] by (rule due_mono [OF _ set_remove1_subset]) (use kinds fields in auto)
      show "b \<notin> set (L p)" if "b \<in> set (remove1 a (L q))" "p \<noteq> q" for b p
        using that D(10) [of p q] notin_set_remove1 [of b "L q" a] by auto
      show "h' b = None" if "b \<ge> next_input ts" for b
        using D(11) [OF that] fun_cong [OF t(3), of b] c by (auto simp: h'_def contents_def)
    qed (use fields qo other in auto)
    then have "tasks_inv (L(q := remove1 a (L q))) X ts'" by (simp add: ts'_def)
    then show ?thesis
    proof (rule that(2) [OF Some dq])
      show "queues ts' = (queues ts)(q \<mapsto> tq3)" by (simp add: ts'_def put_queue_def call_net_def)
      show "inputs ts' a = Some (taken_kind tq1 c')" by (simp add: ts'_def put_queue_def call_net_def h'_def)
      show "b \<noteq> a" if "b \<in> set ((L(q := remove1 a (L q))) p)" for p b
        using that na D(10) [of p q] a by (auto split: if_splits)
      show "waiting_tasks ts' = waiting_tasks ts" "idle_tqueues ts' = idle_tqueues ts" "active_tqueues ts' = active_tqueues ts"
        "next_queue ts' = next_queue ts"
        by (simp_all add: ts'_def put_queue_def call_net_def)
    qed (use fields in simp_all)
  qed
qed

lemma free_input_inv:
  assumes inv: "tasks_inv L X ts" and a: "\<And>p b. b \<in> set (L p) \<Longrightarrow> b \<noteq> a"
  shows "tasks_inv L X (free_input a ts)"
proof -
  let ?ts = "free_input a ts"
  note D = tasks_invD [OF inv]
  have h: "inputs ?ts b = inputs ts b" if "b \<in> set (L p)" for b p using a [OF that] by (simp add: free_input_def)
  have f: "active_tqueues ?ts = active_tqueues ts" "idle_tqueues ?ts = idle_tqueues ts" "next_queue ?ts = next_queue ts"
    "next_input ?ts = next_input ts" "waiting_tasks ?ts = waiting_tasks ts" "queues ?ts = queues ts"
    by (simp_all add: free_input_def)
  have "usage_of ?ts = usage_of ts" by (simp add: usage_of_def fun_eq_iff f)
  then have u: "usage_ok ?ts" using D(6) usage_ok_cong [OF f(1,2)] by simp
  show ?thesis
  proof (rule tasks_invI, unfold f)
    show "queue_ok (inputs ?ts) (waiting_tasks ts) (L p) t" if "queues ts p = Some t" for p t
    proof -
      have c: "queue_ok (inputs ts) (waiting_tasks ts) (L p) t" using D(8) that by blast
      have "iqueue_ok (inputs ?ts) t (L p)"
        by (rule iqueue_frame [of "inputs ts"]) (use c h in \<open>auto simp: queue_ok_def oob_def\<close>)
      moreover have "lengths_ok (inputs ?ts) t (L p)"
        using lengths_cong [of "L p" "inputs ?ts" "inputs ts" t t] c h iqueue_alloc [of "inputs ts" t "L p"]
        by (auto simp: queue_ok_def contents_def)
      ultimately show ?thesis using c by (simp add: queue_ok_def)
    qed
    show "\<not> due (inputs ?ts) (L p) t" if "p \<in> set (idle_tqueues ts)" "p \<notin> X" "queues ts p = Some t" for p t
      using D(13) [OF that] by (rule due_mono) (use h in \<open>auto simp: kind_of_def\<close>)
    show "queues ts q \<noteq> None \<longleftrightarrow> q \<in> set (active_tqueues ts) \<or> q \<in> set (idle_tqueues ts)" for q using D(4) .
    show "inputs ?ts b = None" if "b \<ge> next_input ts" for b using D(11) [OF that] by (simp add: free_input_def)
  qed (use D u in blast)+
qed

text \<open>Adding a line; the queue is active afterwards if the line may be handled.\<close>

lemma enqueue_input_inv:
  assumes inv: "tasks_inv L X ts" and q: "queues ts q = Some tq" and X: "q \<notin> X"
  obtains ts' L' where "enqueue_input_task q input at_front binary ts = Some ts'" "tasks_inv L' X ts'"
    "waiting_tasks ts' = waiting_tasks ts"
proof -
  note D = tasks_invD [OF inv]
  have ok: "queue_ok (inputs ts) (waiting_tasks ts) (L q) tq" using D(8) [OF q] .
  note O = queue_okD [OF ok]
  let ?a = "next_input ts"
  let ?as = "if at_front then ?a # L q else L q @ [?a]"
  let ?k = "input_kind binary input"
  obtain h tq1 where a: "add_input ?a input at_front binary (inputs ts) tq = Some (h, tq1)" "iqueue_ok h tq1 ?as"
    "contents h = (contents (inputs ts))(?a \<mapsto> (?k, input, to_int32 (int (length input))))"
    "total_input_length tq1 = to_int32 (total_input_length tq + to_int32 (int (length input)))"
    "disable_oob tq1 = disable_oob tq" "iqueue.more tq1 = iqueue.more tq" "\<And>b. b \<notin> insert ?a (set (L q)) \<Longrightarrow> h b = inputs ts b"
    by (rule add_input_ok [OF O(1), of ?a input at_front binary]) (use D(11) in auto)
  have fresh: "?a \<notin> set (L p)" for p
  proof
    assume p: "?a \<in> set (L p)"
    then obtain t where "queues ts p = Some t" using D(9) [of p] by (cases "queues ts p") auto
    then show False using queue_okD(4) [OF D(8) p] D(11) by auto
  qed
  have fields: "tq_player tq1 = tq_player tq" "tq_bg tq1 = tq_bg tq" "tq_num_bg_tasks tq1 = tq_num_bg_tasks tq"
    "tq_reading tq1 = tq_reading tq" "tq_connected tq1 = tq_connected tq" "tq_hold_input tq1 = tq_hold_input tq"
    "tq_usage tq1 = tq_usage tq"
    using a(6) by (cases tq, cases tq1, simp)+
  have old: "contents h b = contents (inputs ts) b \<and> inputs ts b \<noteq> None" if "b \<in> set (L q)" for b
    using a(3) fresh O(4) [OF that] that by auto
  have len: "lengths_ok h tq1 ?as"
    using lengths_add [where h' = h and a = ?a, OF O(2) old _ a(4)] a(3) by auto
  have qo: "queue_ok h (waiting_tasks ts) ?as tq1" using a(2) len O(5) fields by (simp add: queue_ok_def)
  have kinds: "kind_of h b = kind_of (inputs ts) b" if "b \<in> set (L q)" for b
    using old [OF that] by (auto simp: contents_def kind_of_def)
  have knew: "kind_of h ?a = ?k" using fun_cong [OF a(3), of ?a] by (auto simp: contents_def kind_of_def)
  let ?ts = "(put_queue q tq1 ts)\<lparr>inputs := h, next_input := ?a + 1\<rparr>"
  define wake where "wake \<longleftrightarrow> \<not> tq_hold_input tq1 \<or> tq_reading tq1 \<noteq> None \<or> (\<not> disable_oob tq1 \<and> ?k = TASK_OOB)"
  have i1: "tasks_inv (L(q := ?as)) (if wake then insert q X else X) ?ts"
  proof (rule change_input_inv [OF inv q])
    show "\<not> due h ?as tq1" if nx: "q \<notin> (if wake then insert q X else X)" and i: "q \<in> set (idle_tqueues ts)"
    proof -
      have w: "\<not> wake" using nx by (auto split: if_splits)
      have nd: "\<not> due (inputs ts) (L q) tq" using D(13) [OF i X q] .
      have s: "set ?as = insert ?a (set (L q))" by auto
      show ?thesis
        using w nd fields kinds knew a(5) unfolding due_def wake_def s by (auto simp: wanted_def)
    qed
    show "h b = inputs ts b" if "p \<noteq> q" "b \<in> set (L p)" for p b
      using a(7) [of b] D(10) [OF that(1)] that(2) fresh by (metis disjoint_iff insertE)
    show "b \<notin> set (L p)" if "b \<in> set ?as" "p \<noteq> q" for b p
      using that fresh D(10) [of p q] by (auto split: if_splits)
    show "h b = None" if "b \<ge> ?a + 1" for b
      using fun_cong [OF a(3), of b] D(11) [of b] that by (auto simp: contents_def)
  qed (use fields qo in auto)
  have q1: "queues ?ts q = Some tq1" by (simp add: put_queue_def)
  obtain ts2 tq2 where s2: "(if wake then ensure_usage q ?ts else Some ?ts) = Some ts2" "tasks_inv (L(q := ?as)) X ts2"
    "queues ts2 q = Some tq2" "waiting_tasks ts2 = waiting_tasks ts"
  proof (cases wake)
    case True
    obtain ts2 where "ensure_usage q ?ts = Some ts2" "tasks_inv (L(q := ?as)) X ts2" "waiting_tasks ts2 = waiting_tasks ?ts"
      "queues ts2 = (queues ?ts)(q \<mapsto> tq1\<lparr>tq_usage := usage_of ts2 q\<rparr>)"
      by (rule ensure_usage_inv [OF _ q1, of "L(q := ?as)" X]) (use i1 True in auto)
    then show ?thesis using that [of ts2] True by (simp add: put_queue_def)
  next
    case False
    then show ?thesis using that [of ?ts] i1 q1 by (simp add: put_queue_def)
  qed
  define full where "full \<longleftrightarrow> \<not> tq_input_suspended tq2 \<and> tq_connected tq2 \<and> total_input_length tq2 > INPUT_HIWAT"
  let ?ts3 = "if full then call_net (Server_suspend_input (tq_player tq2)) (put_queue q (tq2\<lparr>tq_input_suspended := True\<rparr>) ts2) else ts2"
  have "enqueue_input_task q input at_front binary ts = Some ?ts3"
    using q a(1) s2(1,3) by (simp add: enqueue_input_task_def Let_def full_def wake_def split del: if_split cong del: if_weak_cong)
  moreover have "tasks_inv (L(q := ?as)) X (put_queue q (tq2\<lparr>tq_input_suspended := True\<rparr>) ts2)"
    by (rule put_queue_inv [OF s2(2,3)])
      (use tasks_invD(8) [OF s2(2,3)] tasks_invD(13) [OF s2(2) _ _ s2(3)] in \<open>auto simp: queue_ok_def lengths_ok_def iqueue_ok_def due_def\<close>)
  then have "tasks_inv (L(q := ?as)) X ?ts3" using s2(2) by simp
  moreover have "waiting_tasks ?ts3 = waiting_tasks ts" using s2(4) by (simp add: call_net_def put_queue_def)
  ultimately show ?thesis by (rule that)
qed

end
