(* ===== verification/TaskSteps.thy ===== *)
theory TaskSteps
  imports TaskInvariant
begin

text \<open>
  Every operation on the queues of tasks is defined and keeps their invariant.
\<close>

lemma put_queue_simps:
  "queues (put_queue q tq ts) = (queues ts)(q \<mapsto> tq)" "inputs (put_queue q tq ts) = inputs ts"
  "waiting_tasks (put_queue q tq ts) = waiting_tasks ts" "active_tqueues (put_queue q tq ts) = active_tqueues ts"
  "idle_tqueues (put_queue q tq ts) = idle_tqueues ts" "next_input (put_queue q tq ts) = next_input ts"
  "next_queue (put_queue q tq ts) = next_queue ts"
  by (simp_all add: put_queue_def)

subsection \<open>Reading and flushing\<close>

lemma wanted_first [simp]: "wanted DQ_FIRST b k"
  by (simp add: wanted_def)

lemma flush_lines_inv:
  assumes "tasks_inv L X ts" "queues ts q = Some tq"
  shows "\<exists>ts' L' tq'. flush_lines q show_messages ts = Some ts' \<and> tasks_inv L' X ts' \<and> waiting_tasks ts' = waiting_tasks ts \<and>
    queues ts' q = Some tq' \<and> first_input tq' = None"
  using assms
proof (induction "length (L q)" arbitrary: L ts tq rule: less_induct)
  case less
  show ?case
  proof (rule dequeue_input_inv [OF less.prems, of DQ_FIRST])
    assume n: "find (\<lambda>a. wanted DQ_FIRST (disable_oob tq) (kind_of (inputs ts) a)) (L q) = None"
      "dequeue_input_task q DQ_FIRST ts = Some (None, ts)"
    have "L q = []" using n(1) by (cases "L q") auto
    then have "first_input tq = None" using queue_okD(1) [OF tasks_invD(8) [OF less.prems]] by (simp add: iqueue_ok_def)
    then show ?thesis using n(2) less.prems by (subst flush_lines.simps) auto
  next
    fix a t ts1 tq1
    assume s: "find (\<lambda>a. wanted DQ_FIRST (disable_oob tq) (kind_of (inputs ts) a)) (L q) = Some a"
      "dequeue_input_task q DQ_FIRST ts = Some (Some (a, t), ts1)"
      "tasks_inv (L(q := remove1 a (L q))) X ts1" "queues ts1 = (queues ts)(q \<mapsto> tq1)"
      "\<And>p b. b \<in> set ((L(q := remove1 a (L q))) p) \<Longrightarrow> b \<noteq> a" "waiting_tasks ts1 = waiting_tasks ts"
    let ?L = "L(q := remove1 a (L q))"
    let ?ts = "free_input a (if show_messages then call_net (Notify (tq_player tq1) (''>>     '' @ it_string t)) ts1 else ts1)"
    have "a \<in> set (L q)" using s(1) by (auto simp: find_Some_iff)
    then have short: "length (?L q) < length (L q)" using length_pos_if_in_set [of a "L q"] by (simp add: length_remove1)
    have "tasks_inv ?L X (if show_messages then call_net (Notify (tq_player tq1) (''>>     '' @ it_string t)) ts1 else ts1)"
      using s(3) by simp
    then have i: "tasks_inv ?L X ?ts" by (rule free_input_inv) (rule s(5))
    have q: "queues ?ts q = Some tq1" "waiting_tasks ?ts = waiting_tasks ts" using s(4,6) by (simp_all add: free_input_def call_net_def)
    from less.hyps [OF short i q(1)] show ?thesis
      using s(2,4) q(2) by (subst flush_lines.simps) simp
  qed
qed

lemma flush_input_inv:
  assumes inv: "tasks_inv L X ts" and q: "queues ts q = Some tq"
  shows "\<exists>ts' L'. flush_input q show_messages ts = Some ts' \<and> tasks_inv L' X ts' \<and> waiting_tasks ts' = waiting_tasks ts"
proof -
  define say where "say = (\<lambda>s ts. if show_messages then call_net (Notify (tq_player tq) s) ts else ts)"
  have say: "tasks_inv L X (say s ts') = tasks_inv L X ts'" "queues (say s ts') = queues ts'" "waiting_tasks (say s ts') = waiting_tasks ts'" for L s ts'
    by (simp_all add: say_def call_net_def) (simp add: call_net_def [symmetric])
  obtain ts' L' where "flush_lines q show_messages (say ''>> Flushing the following pending input:'' ts) = Some ts'"
    "tasks_inv L' X ts'" "waiting_tasks ts' = waiting_tasks ts"
    using flush_lines_inv [of L X "say ''>> Flushing the following pending input:'' ts" q tq show_messages] inv q say by auto
  moreover have "flush_input q show_messages ts = (if first_input tq \<noteq> None
      then map_option (say ''>> (Done flushing)'') (flush_lines q show_messages (say ''>> Flushing the following pending input:'' ts))
      else Some (say ''>> No pending input to flush...'' ts))"
    using q by (simp add: flush_input_def Let_def say_def)
  ultimately show ?thesis using inv say by (cases "first_input tq = None") auto
qed

lemma read_input_now_inv:
  assumes inv: "tasks_inv L X ts"
  shows "\<exists>v ts' L'. read_input_now connection ts = Some (v, ts') \<and> tasks_inv L' X ts' \<and> waiting_tasks ts' = waiting_tasks ts"
proof (cases "find_player connection ts")
  case None
  then show ?thesis using inv by (auto simp: read_input_now_def)
next
  case (Some q)
  then obtain tq where q: "queues ts q = Some tq" "tq_player tq = connection" by (rule find_player_some)
  show ?thesis
  proof (rule dequeue_input_inv [OF inv q(1), of DQ_INBAND])
    assume "dequeue_input_task q DQ_INBAND ts = Some (None, ts)"
    then show ?thesis using inv q Some by (auto simp: read_input_now_def)
  next
    fix a t ts1 tq1
    assume s: "dequeue_input_task q DQ_INBAND ts = Some (Some (a, t), ts1)"
      "tasks_inv (L(q := remove1 a (L q))) X ts1" "\<And>p b. b \<in> set ((L(q := remove1 a (L q))) p) \<Longrightarrow> b \<noteq> a"
      "waiting_tasks ts1 = waiting_tasks ts"
    have "tasks_inv (L(q := remove1 a (L q))) X (free_input a ts1)" by (rule free_input_inv [OF s(2)]) (rule s(3))
    then show ?thesis using s(1,4) inv q Some by (auto simp: read_input_now_def free_input_def)
  qed
qed

subsection \<open>Changing a queue and the waiting tasks\<close>

lemma change_waiting_inv:
  assumes inv: "tasks_inv L X ts" and q: "queues ts q = Some tq"
    and same: "tq_player tq' = tq_player tq" "tq_usage tq' = tq_usage tq"
    and ok: "queue_ok (inputs ts) us (L q) tq'" and starts: "starts_ok us"
    and others: "\<And>p. p \<noteq> NOTHING \<Longrightarrow> p \<noteq> tq_player tq \<Longrightarrow> waiting_for p us = waiting_for p (waiting_tasks ts)"
    and owners: "\<And>t. t \<in> set us \<Longrightarrow> t \<in> set (waiting_tasks ts) \<or> bg_progr t = tq_player tq"
    and due: "q \<notin> X' \<Longrightarrow> q \<in> set (idle_tqueues ts) \<Longrightarrow> \<not> due (inputs ts) (L q) tq'" and X: "X \<subseteq> insert q X'"
  shows "tasks_inv L X' ((put_queue q tq' ts)\<lparr>waiting_tasks := us\<rparr>)"
proof -
  let ?ts = "(put_queue q tq' ts)\<lparr>waiting_tasks := us\<rparr>"
  have u: "usage_of ts q = tq_usage tq" using q by (simp add: usage_of_def)
  have uo: "usage_of ?ts p = usage_of ts p" for p
    using usage_of_put [of q tq' ts p] u same(2) by (simp add: usage_of_def)
  have f: "active_tqueues ?ts = active_tqueues ts" "idle_tqueues ?ts = idle_tqueues ts"
    "next_queue ?ts = next_queue ts" "inputs ?ts = inputs ts" "next_input ?ts = next_input ts"
    "waiting_tasks ?ts = us" "\<And>p. queues ?ts p = (if p = q then Some tq' else queues ts p)"
    by (simp_all add: put_queue_def)
  note D = tasks_invD [OF inv]
  show ?thesis
  proof (rule tasks_invI, unfold f)
    show "usage_ok ?ts" by (rule usage_ok_frame [OF D(6)]) (use uo D(6) f in \<open>auto simp: usage_ok_def\<close>)
    show "(if p = q then Some tq' else queues ts p) \<noteq> None \<longleftrightarrow> p \<in> set (active_tqueues ts) \<or> p \<in> set (idle_tqueues ts)" for p
      using D(4) [of p] q by auto
    show "p = p'" if "(if p = q then Some tq' else queues ts p) = Some t" "(if p' = q then Some tq' else queues ts p') = Some t'"
      "tq_player t = tq_player t'" "tq_player t \<noteq> NOTHING" for p p' t t'
      by (rule players_update [where Q = "queues ts", OF _ q same(1) that]) (rule D(7))
    show "queue_ok (inputs ts) us (L p) t" if "(if p = q then Some tq' else queues ts p) = Some t" for p t
    proof (cases "p = q")
      case False
      then have p: "queues ts p = Some t" using that by simp
      have "tq_player t \<noteq> NOTHING \<Longrightarrow> tq_player t \<noteq> tq_player tq" using D(7) [OF p q] False by auto
      then show ?thesis using D(8) [OF p] others [of "tq_player t"] by (auto simp: queue_ok_def)
    qed (use that ok in simp)
    show "\<not> due (inputs ts) (L p) t" if "p \<in> set (idle_tqueues ts)" "p \<notin> X'" "(if p = q then Some tq' else queues ts p) = Some t" for p t
      using that due D(13) [of p t] X by (auto split: if_splits)
    show "\<exists>p t. (if p = q then Some tq' else queues ts p) = Some t \<and> tq_player t = bg_progr w" if "w \<in> set us" "bg_progr w \<noteq> NOTHING" for w
      using D(14) [OF _ that(2)] owners [OF that(1)] q same(1) by (metis option.inject)
  qed (use D q starts in \<open>auto split: if_splits\<close>)
qed

lemma waiting_for_simps [simp]: "waiting_for p [] = 0"
  "waiting_for p (t # us) = of_bool (bg_progr t = p) + waiting_for p us"
  "waiting_for p (us @ vs) = waiting_for p us + waiting_for p vs"
  by (simp_all add: waiting_for_def)

lemma waiting_for_insert [simp]: "waiting_for p (insert_waiting t us) = of_bool (bg_progr t = p) + waiting_for p us"
  by (induction us) auto

lemma set_insert_waiting [simp]: "set (insert_waiting t us) = insert t (set us)"
  by (induction us) auto

lemma waiting_for_zero: "waiting_for p us = 0 \<longleftrightarrow> (\<forall>t \<in> set us. bg_progr t \<noteq> p)"
  by (auto simp: waiting_for_def filter_empty_conv)

lemma waiting_for_nonneg [simp]: "0 \<le> waiting_for p us"
  by (simp add: waiting_for_def)

text \<open>The order of times is linear.\<close>

lemma timercmp_linear:
  "\<not> timercmp_less s s" "timercmp_less s t \<Longrightarrow> \<not> timercmp_less t s"
  "\<not> timercmp_less t s \<Longrightarrow> \<not> timercmp_less u t \<Longrightarrow> \<not> timercmp_less u s"
  "timercmp_less s t \<Longrightarrow> \<not> timercmp_less u t \<Longrightarrow> \<not> timercmp_less u s"
  by (auto simp: timercmp_less_def split: if_splits)

lemma timercmp_trans: "timercmp_less s t \<Longrightarrow> \<not> timercmp_less u t \<Longrightarrow> timercmp_less s u"
  by (auto simp: timercmp_less_def split: if_splits)

lemma starts_insert: "starts_ok us \<Longrightarrow> starts_ok (insert_waiting t us)"
proof (induction us)
  case (Cons u us)
  have u: "\<not> timercmp_less (GET_START_TIME x) (GET_START_TIME u)" if "x \<in> set us" for x
    using Cons.prems that by (simp add: starts_ok_def)
  show ?case
  proof (cases "timercmp_less (GET_START_TIME t) (GET_START_TIME u)")
    case True
    then have "\<not> timercmp_less (GET_START_TIME x) (GET_START_TIME t)" if "x \<in> set (u # us)" for x
      using that timercmp_linear(2) [OF True] timercmp_linear(4) [OF True u] by (cases "x = u") simp_all
    then show ?thesis using Cons.prems True by (simp add: starts_ok_def)
  next
    case False
    then show ?thesis using Cons u by (simp add: starts_ok_def)
  qed
qed (simp add: starts_ok_def)

lemma queue_ok_num:
  "queue_ok h us as tq \<Longrightarrow> tq_player tq' = tq_player tq \<Longrightarrow> iqueue.truncate tq' = iqueue.truncate tq \<Longrightarrow>
    (tq_player tq \<noteq> NOTHING \<Longrightarrow> tq_num_bg_tasks tq' = int (length (tq_bg tq')) + waiting_for (tq_player tq) us') \<Longrightarrow>
    queue_ok h us' as tq'"
  by (auto simp: queue_ok_def iqueue_ok_def lengths_ok_def iqueue.defs)

lemma enqueue_waiting_inv:
  assumes inv: "tasks_inv L X ts" and opt: "default_flush_command db \<noteq> None"
  shows "\<exists>ts'. enqueue_waiting db t ts = Some ts' \<and> tasks_inv L X ts' \<and> waiting_tasks ts' = insert_waiting t (waiting_tasks ts) \<and>
    active_tqueues ts' = active_tqueues ts"
proof -
  obtain q tq ts1 where s: "find_tqueue db (bg_progr t) ts = Some (q, ts1)" "tasks_inv L X ts1" "queues ts1 q = Some tq"
    "tq_player tq = bg_progr t" "inputs ts1 = inputs ts" "waiting_tasks ts1 = waiting_tasks ts"
    "active_tqueues ts1 = active_tqueues ts"
    by (rule find_tqueue_inv [OF inv opt])
  note D = tasks_invD [OF s(2)]
  let ?tq = "tq\<lparr>tq_num_bg_tasks := tq_num_bg_tasks tq + 1\<rparr>"
  have "tasks_inv L X ((put_queue q ?tq ts1)\<lparr>waiting_tasks := insert_waiting t (waiting_tasks ts1)\<rparr>)"
  proof (rule change_waiting_inv [OF s(2,3)])
    show "queue_ok (inputs ts1) (insert_waiting t (waiting_tasks ts1)) (L q) ?tq"
      by (rule queue_ok_num [OF D(8) [OF s(3)]]) (use queue_okD(5) [OF D(8) [OF s(3)]] s(4) in \<open>auto simp: iqueue.defs\<close>)
    show "starts_ok (insert_waiting t (waiting_tasks ts1))" using D(12) by (rule starts_insert)
    show "\<not> due (inputs ts1) (L q) ?tq" if "q \<notin> X" "q \<in> set (idle_tqueues ts1)"
      using D(13) [OF that(2,1) s(3)] by (simp add: due_def)
  qed (use s(4) in auto)
  then show ?thesis using s by (simp add: enqueue_waiting_def put_queue_def)
qed

subsection \<open>Forking and suspending\<close>

text \<open>The properties that hold options can be read.\<close>

definition options_readable :: "db \<Rightarrow> bool" where
  "options_readable db \<longleftrightarrow> (\<forall>x name. c_string name \<longrightarrow> get_server_option db x name \<noteq> None) \<and>
     (\<forall>p name. valid db p \<longrightarrow> c_string name \<longrightarrow> db_find_property db p name True \<noteq> None)"

lemma options_defined:
  assumes "options_readable db"
  shows "default_flush_command db \<noteq> None" "task_limit db user \<noteq> None"
proof -
  have opt: "get_server_option db x name \<noteq> None" if "c_string name" for x name using assms that by (simp add: options_readable_def)
  show "default_flush_command db \<noteq> None"
    using opt [of "''default_flush_command''" SYSTEM_OBJECT] by (simp add: default_flush_command_def server_string_option_def c_string_def)
  have int: "server_int_option db ''queued_task_limit'' (-1) \<noteq> None"
    using opt [of "''queued_task_limit''" SYSTEM_OBJECT] by (simp add: server_int_option_def c_string_def)
  show "task_limit db user \<noteq> None"
  proof (cases "valid db user")
    case True
    then obtain h v where "db_find_property db user ''queued_task_limit'' True = Some (h, v)"
      using assms by (fastforce simp: options_readable_def c_string_def)
    then show ?thesis using int True by (simp add: task_limit_def)
  qed (use int in \<open>simp add: task_limit_def\<close>)
qed

lemma check_limit:
  assumes "tasks_inv L X ts" "options_readable db"
  shows "\<exists>limit. task_limit db user = Some limit \<and> check_user_task_limit db user ts = Some (limit < 0 \<or>
    (case find_player user ts of Some q \<Rightarrow> tq_num_bg_tasks (the (queues ts q)) | None \<Rightarrow> 0) < limit)"
proof -
  obtain limit where "task_limit db user = Some limit" using options_defined(2) [OF assms(2), of user] by auto
  then show ?thesis
    by (cases "find_player user ts") (auto simp: check_user_task_limit_def elim!: find_player_some)
qed

lemma new_task_id_inv:
  assumes "tasks_inv L X ts" "\<exists>m \<ge> numbers_drawn ts. random_numbers ts m \<noteq> 0"
  shows "\<exists>i ts'. new_task_id ts = Some (i, ts') \<and> i \<noteq> 0 \<and> tasks_inv L X ts' \<and> waiting_tasks ts' = waiting_tasks ts \<and>
    active_tqueues ts' = active_tqueues ts"
proof -
  have "\<exists>i n'. draw_nonzero rnd n = Some (i, n') \<and> i \<noteq> 0" if "rnd m \<noteq> 0" "n \<le> m" for rnd n m
    using that
  proof (induction "m - n" arbitrary: n)
    case 0
    then show ?case by (subst draw_nonzero.simps) auto
  next
    case (Suc k)
    then show ?case by (cases "rnd n = 0") (subst draw_nonzero.simps, auto)+
  qed
  then obtain i n' where "draw_nonzero (random_numbers ts) (numbers_drawn ts) = Some (i, n')" "i \<noteq> 0" using assms(2) by blast
  moreover have "tasks_inv L X (ts\<lparr>numbers_drawn := n'\<rparr>)" using assms(1) by (subst tasks_inv_cong) simp_all
  ultimately show ?thesis by (simp add: new_task_id_def)
qed

lemma enqueue_forked_inv:
  assumes inv: "tasks_inv L X ts" and opt: "options_readable db" and rnd: "\<exists>m \<ge> numbers_drawn ts. random_numbers ts m \<noteq> 0"
    and vid: "vid < int (length (a_env a))"
  shows "\<exists>e a' ts'. enqueue_forked_task2 db a f start vid ts = Some (e, a', ts') \<and> tasks_inv L X ts' \<and>
    (e = E_QUOTA \<and> a' = a \<and> ts' = ts \<or>
     e = E_NONE \<and> (\<exists>i. i \<noteq> 0 \<and> a' = (if vid \<ge> 0 then a\<lparr>a_env := (a_env a)[nat vid := VInt i]\<rparr> else a) \<and>
       waiting_tasks ts' = insert_waiting (TASK_FORKED \<lparr>ft_id = i, ft_a = a'\<lparr>a_stack := []\<rparr>, ft_f_index = f, ft_start_tv = start\<rparr>) (waiting_tasks ts)))"
proof -
  obtain allowed where c: "check_user_task_limit db (a_progr a) ts = Some allowed" using check_limit [OF inv opt] by blast
  show ?thesis
  proof (cases allowed)
    case False
    then show ?thesis using c inv by (simp add: enqueue_forked_task2_def)
  next
    case True
    obtain i ts1 where i: "new_task_id ts = Some (i, ts1)" "i \<noteq> 0" "tasks_inv L X ts1" "waiting_tasks ts1 = waiting_tasks ts"
      using new_task_id_inv [OF inv rnd] by blast
    let ?a = "if vid \<ge> 0 then a\<lparr>a_env := (a_env a)[nat vid := VInt i]\<rparr> else a"
    have e: "(if vid \<ge> 0 then map_option (\<lambda>env. a\<lparr>a_env := env\<rparr>) (set_env (nat vid) (VInt i) (a_env a)) else Some a) = Some ?a"
      using vid by (auto simp: set_env_def nat_less_iff)
    obtain ts2 where "enqueue_ft db ?a f start i ts1 = Some ts2" "tasks_inv L X ts2"
      "waiting_tasks ts2 = insert_waiting (TASK_FORKED \<lparr>ft_id = i, ft_a = ?a\<lparr>a_stack := []\<rparr>, ft_f_index = f, ft_start_tv = start\<rparr>) (waiting_tasks ts)"
      using enqueue_waiting_inv [OF i(3) options_defined(1) [OF opt],
        of "TASK_FORKED \<lparr>ft_id = i, ft_a = ?a\<lparr>a_stack := []\<rparr>, ft_f_index = f, ft_start_tv = start\<rparr>"] i(4)
      by (auto simp: enqueue_ft_def simp del: if_split)
    then show ?thesis using c True i(1,2) e by (simp add: enqueue_forked_task2_def del: if_split) blast
  qed
qed

lemma enqueue_suspended_inv:
  assumes inv: "tasks_inv L X ts" and opt: "options_readable db"
  shows "\<exists>e ts'. enqueue_suspended_task db v start ts = Some (e, ts') \<and> tasks_inv L X ts' \<and>
    (e = E_QUOTA \<and> ts' = ts \<or> e = E_NONE \<and> waiting_tasks ts' = insert_waiting (TASK_SUSPENDED
      \<lparr>st_vm = v, st_start_tv = (case start of Some t \<Rightarrow> t | None \<Rightarrow> never), st_value = zero_value\<rparr>) (waiting_tasks ts))"
proof -
  obtain allowed where c: "check_user_task_limit db (progr_of_cur_verb v) ts = Some allowed" using check_limit [OF inv opt] by blast
  show ?thesis
    using c inv enqueue_waiting_inv [OF inv options_defined(1) [OF opt], of "TASK_SUSPENDED
      \<lparr>st_vm = v, st_start_tv = (case start of Some t \<Rightarrow> t | None \<Rightarrow> never), st_value = zero_value\<rparr>"]
    by (cases allowed) (auto simp: enqueue_suspended_task_def)
qed

lemma due_active:
  assumes "tasks_inv L X ts" "queues ts q = Some tq"
  shows "tasks_inv L X (put_queue q tq ts)"
proof -
  have "put_queue q tq ts = ts" using assms(2) by (simp add: put_queue_def fun_upd_idem)
  then show ?thesis using assms(1) by simp
qed

lemma make_reading_inv:
  assumes inv: "tasks_inv L {} ts"
  shows "\<exists>e ts'. make_reading_task v player ts = Some (e, ts') \<and> tasks_inv L {} ts' \<and> waiting_tasks ts' = waiting_tasks ts"
proof (cases "find_player player ts")
  case None
  then show ?thesis using inv by (simp add: make_reading_task_def)
next
  case (Some q)
  then obtain tq where q: "queues ts q = Some tq" "tq_player tq = player" by (rule find_player_some)
  note D = tasks_invD [OF inv]
  show ?thesis
  proof (cases "tq_reading tq \<noteq> None \<or> is_out_of_input tq")
    case True
    then show ?thesis using Some q inv by (auto simp: make_reading_task_def)
  next
    case False
    let ?tq = "tq\<lparr>tq_reading := Some v\<rparr>"
    have ok: "queue_ok (inputs ts) (waiting_tasks ts) (L q) ?tq"
      using D(8) [OF q(1)] by (simp add: queue_ok_def iqueue_ok_def lengths_ok_def)
    have first: "first_input tq = None \<longleftrightarrow> L q = []"
      using queue_okD(1) [OF D(8) [OF q(1)]] thread_start by (cases "L q") (auto simp: iqueue_ok_def)
    have i: "tasks_inv L (if first_input tq = None then {} else {q}) (put_queue q ?tq ts)"
    proof (rule put_queue_inv [OF inv q(1) _ _ ok])
      show "\<not> due (inputs ts) (L q) ?tq" if "q \<notin> (if first_input tq = None then {} else {q})" "q \<in> set (idle_tqueues ts)"
        using D(13) [OF that(2) _ q(1)] that(1) first False by (auto simp: due_def is_out_of_input_def split: if_splits)
    qed auto
    show ?thesis
    proof (cases "first_input tq = None")
      case True
      then show ?thesis using Some q i False by (simp add: make_reading_task_def put_queue_def)
    next
      case f: False
      have "queues (put_queue q ?tq ts) q = Some ?tq" by (simp add: put_queue_def)
      then obtain ts' where "ensure_usage q (put_queue q ?tq ts) = Some ts'" "tasks_inv L {} ts'"
        "waiting_tasks ts' = waiting_tasks (put_queue q ?tq ts)"
        using ensure_usage_inv [of L q "{}" "put_queue q ?tq ts" ?tq] i f by auto
      then show ?thesis using Some q f False by (simp add: make_reading_task_def put_queue_def)
    qed
  qed
qed

subsection \<open>Waking tasks\<close>

lemma enqueue_bg_inv:
  assumes inv: "tasks_inv L X ts" and q: "queues ts q = Some tq" "q \<in> set (active_tqueues ts)" and p: "tq_player tq = bg_progr t"
    and w: "waiting_tasks ts = xs @ t0 # ys" "bg_progr t0 = bg_progr t"
  shows "\<exists>ts'. enqueue_bg_task q t (ts\<lparr>waiting_tasks := xs @ ys\<rparr>) = Some ts' \<and> tasks_inv L X ts' \<and> waiting_tasks ts' = xs @ ys \<and>
    queues ts' = (queues ts)(q \<mapsto> tq\<lparr>tq_bg := tq_bg tq @ [t]\<rparr>)"
proof -
  note D = tasks_invD [OF inv]
  let ?tq = "tq\<lparr>tq_bg := tq_bg tq @ [t]\<rparr>"
  have "tasks_inv L X ((put_queue q ?tq ts)\<lparr>waiting_tasks := xs @ ys\<rparr>)"
  proof (rule change_waiting_inv [OF inv q(1)])
    show "queue_ok (inputs ts) (xs @ ys) (L q) ?tq"
      by (rule queue_ok_num [OF D(8) [OF q(1)]]) (use queue_okD(5) [OF D(8) [OF q(1)]] p w in \<open>auto simp: iqueue.defs\<close>)
    show "starts_ok (xs @ ys)" using D(12) w(1) by (auto simp: starts_ok_def sorted_wrt_append)
    show "\<not> due (inputs ts) (L q) ?tq" if "q \<in> set (idle_tqueues ts)" using that D(3) q(2) by auto
  qed (use p w in auto)
  moreover have "put_queue q ?tq (ts\<lparr>waiting_tasks := xs @ ys\<rparr>) = (put_queue q ?tq ts)\<lparr>waiting_tasks := xs @ ys\<rparr>"
    by (simp add: put_queue_def)
  ultimately show ?thesis using q(1) by (simp add: enqueue_bg_task_def put_queue_simps)
qed

lemma pick_task_some:
  assumes "pick_task P us = Some (t, vs)"
  obtains xs ys where "us = xs @ t # ys" "vs = xs @ ys" "P t" "\<forall>x \<in> set xs. \<not> P x"
  using assms by (auto simp: pick_task_def extract_Some_iff)

text \<open>One task goes from the waiting tasks to its queue.\<close>

lemma wake_one:
  assumes inv: "tasks_inv L X ts" and opt: "default_flush_command db \<noteq> None"
    and w: "waiting_tasks ts = xs @ t # ys" and t': "bg_progr t' = bg_progr t"
  shows "\<exists>q ts1 ts2 ts3 tq. find_tqueue db (bg_progr t) ts = Some (q, ts1) \<and> ensure_usage q ts1 = Some ts2 \<and>
    enqueue_bg_task q t' (ts2\<lparr>waiting_tasks := xs @ ys\<rparr>) = Some ts3 \<and> tasks_inv L X ts3 \<and> waiting_tasks ts3 = xs @ ys \<and>
    q \<in> set (active_tqueues ts3) \<and> queues ts3 q = Some tq \<and> tq_bg tq \<noteq> [] \<and> last (tq_bg tq) = t' \<and> tq_player tq = bg_progr t"
proof -
  obtain q tq ts1 where s: "find_tqueue db (bg_progr t) ts = Some (q, ts1)" "tasks_inv L X ts1" "queues ts1 q = Some tq"
    "tq_player tq = bg_progr t" "waiting_tasks ts1 = waiting_tasks ts"
    by (rule find_tqueue_inv [OF inv opt])
  have "tasks_inv L (insert q X) ts1" using s(2) by (auto simp: tasks_inv_def)
  then obtain ts2 where e: "ensure_usage q ts1 = Some ts2" "tasks_inv L X ts2" "q \<in> set (active_tqueues ts2)"
    "waiting_tasks ts2 = waiting_tasks ts1" "queues ts2 = (queues ts1)(q \<mapsto> tq\<lparr>tq_usage := usage_of ts2 q\<rparr>)"
    by (rule ensure_usage_inv [OF _ s(3)])
  let ?tq = "tq\<lparr>tq_usage := usage_of ts2 q\<rparr>"
  have q2: "queues ts2 q = Some ?tq" using e(5) by simp
  obtain ts3 where b: "enqueue_bg_task q t' (ts2\<lparr>waiting_tasks := xs @ ys\<rparr>) = Some ts3" "tasks_inv L X ts3" "waiting_tasks ts3 = xs @ ys"
    "queues ts3 = (queues ts2)(q \<mapsto> ?tq\<lparr>tq_bg := tq_bg ?tq @ [t']\<rparr>)"
  proof -
    have "tq_player ?tq = bg_progr t'" "waiting_tasks ts2 = xs @ t # ys" using s(4,5) t' w e(4) by simp_all
    from enqueue_bg_inv [OF e(2) q2 e(3) this t' [symmetric]] show ?thesis using that by blast
  qed
  have "active_tqueues ts3 = active_tqueues ts2" using b(1) q2 by (auto simp: enqueue_bg_task_def put_queue_simps)
  then have "q \<in> set (active_tqueues ts3)" using e(3) by simp
  moreover have "queues ts3 q = Some (?tq\<lparr>tq_bg := tq_bg ?tq @ [t']\<rparr>)" using b(4) by simp
  ultimately show ?thesis using s(1,4) e(1) b(1-3)
    by (intro exI [of _ q] exI [of _ ts1] exI [of _ ts2] exI [of _ ts3] exI [of _ "?tq\<lparr>tq_bg := tq_bg ?tq @ [t']\<rparr>"]) simp
qed

lemma wake_tasks_inv:
  assumes "tasks_inv L X ts" "default_flush_command db \<noteq> None" "waiting_tasks ts = us"
  shows "\<exists>ts'. wake_tasks db now us ts = Some ts' \<and> tasks_inv L X ts' \<and>
    waiting_tasks ts' = dropWhile (\<lambda>t. \<not> timercmp_less now (GET_START_TIME t)) us"
  using assms
proof (induction us arbitrary: ts)
  case Nil
  have "tasks_inv L X (ts\<lparr>waiting_tasks := []\<rparr>)" using Nil by (subst tasks_inv_cong) simp_all
  then show ?case by simp
next
  case (Cons t us)
  show ?case
  proof (cases "timercmp_less now (GET_START_TIME t)")
    case True
    have "tasks_inv L X (ts\<lparr>waiting_tasks := t # us\<rparr>)" using Cons.prems by (subst tasks_inv_cong) simp_all
    then show ?thesis using True by simp
  next
    case False
    obtain q ts1 ts2 ts3 where s: "find_tqueue db (bg_progr t) ts = Some (q, ts1)" "ensure_usage q ts1 = Some ts2"
      "enqueue_bg_task q t (ts2\<lparr>waiting_tasks := us\<rparr>) = Some ts3" "tasks_inv L X ts3" "waiting_tasks ts3 = us"
      using wake_one [OF Cons.prems(1,2), of "[]" t us t] Cons.prems(3) by auto
    from Cons.IH [OF s(4) Cons.prems(2) s(5)] show ?thesis using s(1-3) False by simp
  qed
qed

text \<open>The tasks that go are those whose time has come: the list is ordered.\<close>

lemma starts_split:
  assumes "starts_ok us"
  shows "dropWhile (\<lambda>t. \<not> timercmp_less now (GET_START_TIME t)) us = filter (\<lambda>t. timercmp_less now (GET_START_TIME t)) us"
  using assms
proof (induction us)
  case (Cons t us)
  show ?case
  proof (cases "timercmp_less now (GET_START_TIME t)")
    case True
    have "timercmp_less now (GET_START_TIME u)" if "u \<in> set us" for u
      using Cons.prems that timercmp_trans [OF True] by (simp add: starts_ok_def)
    then show ?thesis using True by simp
  next
    case False
    then show ?thesis using Cons by (simp add: starts_ok_def)
  qed
qed simp

subsection \<open>Freeing queues\<close>

lemma free_tqueue_inv:
  assumes inv: "tasks_inv L X ts" and q: "queues ts q = Some tq" "q \<in> set (idle_tqueues ts)"
    and e: "first_input tq = None" "tq_num_bg_tasks tq = 0"
  shows "tasks_inv L X (free_tqueue q ts)"
proof -
  let ?ts = "free_tqueue q ts"
  note D = tasks_invD [OF inv]
  have f: "active_tqueues ?ts = active_tqueues ts" "idle_tqueues ?ts = remove1 q (idle_tqueues ts)"
    "next_queue ?ts = next_queue ts" "inputs ?ts = inputs ts" "next_input ?ts = next_input ts"
    "waiting_tasks ?ts = waiting_tasks ts" "\<And>p. queues ?ts p = (if p = q then None else queues ts p)"
    by (simp_all add: free_tqueue_def)
  have na: "q \<notin> set (active_tqueues ts)" using q(2) D(3) by auto
  have L: "L q = []" using queue_okD(1) [OF D(8) [OF q(1)]] e(1) thread_start by (cases "L q") (auto simp: iqueue_ok_def)
  have mem: "p \<in> set (remove1 q (idle_tqueues ts)) \<longleftrightarrow> p \<in> set (idle_tqueues ts) \<and> p \<noteq> q" for p using D(2) by auto
  have uo: "usage_of ?ts p = usage_of ts p" if "p \<noteq> q" for p using that by (simp add: usage_of_def f)
  show ?thesis
  proof (rule tasks_invI, unfold f mem)
    show "usage_ok ?ts"
    proof (rule usage_ok_frame [OF D(6) f(1)])
      show "usage_of ?ts p = usage_of ts p" if "p \<in> set (active_tqueues ts)" for p using uo that na by metis
      show "usage_of ?ts p = NO_USAGE" if "p \<in> set (idle_tqueues ?ts)" for p
        using that uo [of p] D(6) unfolding f mem by (simp add: usage_ok_def)
    qed
    show "(if p = q then None else queues ts p) \<noteq> None \<longleftrightarrow> p \<in> set (active_tqueues ts) \<or> (p \<in> set (idle_tqueues ts) \<and> p \<noteq> q)" for p
      using D(4) [of p] na by auto
    show "p = p'" if "(if p = q then None else queues ts p) = Some t" "(if p' = q then None else queues ts p') = Some t'"
      "tq_player t = tq_player t'" "tq_player t \<noteq> NOTHING" for p p' t t'
      using that D(7) [of p t p' t'] by (auto split: if_splits)
    show "\<exists>p t. (if p = q then None else queues ts p) = Some t \<and> tq_player t = bg_progr w"
      if w: "w \<in> set (waiting_tasks ts)" "bg_progr w \<noteq> NOTHING" for w
    proof -
      obtain p t where p: "queues ts p = Some t" "tq_player t = bg_progr w" using D(14) w by blast
      have "p \<noteq> q"
      proof
        assume "p = q"
        then have "tq_player tq = bg_progr w" using p q(1) by simp
        then have "waiting_for (bg_progr w) (waiting_tasks ts) \<le> 0"
          using queue_okD(5) [OF D(8) [OF q(1)]] e(2) w(2) by simp
        then have "waiting_for (bg_progr w) (waiting_tasks ts) = 0" by (simp add: order.antisym)
        then show False using w(1) by (auto simp: waiting_for_zero)
      qed
      then show ?thesis using p by auto
    qed
    show "L p = []" if "(if p = q then None else queues ts p) = None" for p using that L D(9) by (auto split: if_splits)
    show "distinct (remove1 q (idle_tqueues ts))" using D(2) by simp
    show "set (active_tqueues ts) \<inter> set (remove1 q (idle_tqueues ts)) = {}" using D(3) set_remove1_subset by fastforce
  qed (use D in \<open>auto split: if_splits\<close>)
qed

lemma reap_inv:
  assumes inv: "tasks_inv L X ts"
  shows "tasks_inv L X (reap_tqueues ts) \<and> waiting_tasks (reap_tqueues ts) = waiting_tasks ts"
proof -
  let ?f = "\<lambda>q ts. case queues ts q of
     Some tq \<Rightarrow> if \<not> tq_connected tq \<and> first_input tq = None \<and> tq_num_bg_tasks tq = 0 then free_tqueue q ts else ts
   | None \<Rightarrow> ts"
  have "tasks_inv L X (fold ?f qs ts) \<and> waiting_tasks (fold ?f qs ts) = waiting_tasks ts"
    if "tasks_inv L X ts" "set qs \<subseteq> set (idle_tqueues ts)" "distinct qs" for qs ts
    using that
  proof (induction qs arbitrary: ts)
    case (Cons q qs)
    have "tasks_inv L X (?f q ts) \<and> set qs \<subseteq> set (idle_tqueues (?f q ts)) \<and> waiting_tasks (?f q ts) = waiting_tasks ts"
    proof (cases "queues ts q")
      case (Some tq)
      then show ?thesis using free_tqueue_inv [OF Cons.prems(1) Some] Cons.prems tasks_invD(2) [OF Cons.prems(1)]
        by (auto simp: free_tqueue_def)
    qed (use Cons.prems in auto)
    then show ?case using Cons.IH [of "?f q ts"] Cons.prems(3) by simp
  qed simp
  then show ?thesis using inv tasks_invD(2) [OF inv] by (simp add: reap_tqueues_def)
qed

subsection \<open>Connections and their options\<close>

text \<open>A change of a queue that does not touch its input, its background tasks or its owner, and gives it nothing to do.\<close>

lemma same_queue_inv:
  assumes inv: "tasks_inv L {} ts" and q: "queues ts q = Some tq"
    and same: "iqueue.truncate tq' = iqueue.truncate tq" "tq_player tq' = tq_player tq" "tq_usage tq' = tq_usage tq"
      "tq_bg tq' = tq_bg tq" "tq_num_bg_tasks tq' = tq_num_bg_tasks tq"
    and due: "\<And>as. due (inputs ts) as tq' \<Longrightarrow> due (inputs ts) as tq"
  shows "tasks_inv L {} (put_queue q tq' ts)"
proof (rule put_queue_inv [OF inv q same(2,3)])
  note ok = tasks_invD(8) [OF inv q]
  show "queue_ok (inputs ts) (waiting_tasks ts) (L q) tq'"
    by (rule queue_ok_num [OF ok same(2,1)]) (use queue_okD(5) [OF ok] same in simp)
  show "\<not> due (inputs ts) (L q) tq'" if "q \<in> set (idle_tqueues ts)" using tasks_invD(13) [OF inv that _ q] due by auto
qed simp

text \<open>The same followed by an activation.\<close>

lemma same_queue_active:
  assumes inv: "tasks_inv L {} ts" and q: "queues ts q = Some tq"
    and ok: "queue_ok (inputs ts) (waiting_tasks ts) (L q) tq'" and same: "tq_player tq' = tq_player tq" "tq_usage tq' = tq_usage tq"
  shows "\<exists>ts'. ensure_usage q (put_queue q tq' ts) = Some ts' \<and> tasks_inv L {} ts' \<and> waiting_tasks ts' = waiting_tasks ts"
proof -
  have "tasks_inv L {q} (put_queue q tq' ts)" by (rule put_queue_inv [OF inv q same ok]) auto
  then show ?thesis
    using ensure_usage_inv [of L q "{}" "put_queue q tq' ts" tq'] by (auto simp: put_queue_simps)
qed

lemma new_task_queue_inv:
  assumes inv: "tasks_inv L {} ts" and opt: "default_flush_command db \<noteq> None"
  shows "\<exists>q ts'. new_task_queue db player handler ts = Some (q, ts') \<and> tasks_inv L {} ts' \<and> waiting_tasks ts' = waiting_tasks ts"
proof -
  obtain q tq ts1 where s: "find_tqueue db player ts = Some (q, ts1)" "tasks_inv L {} ts1" "queues ts1 q = Some tq"
    "waiting_tasks ts1 = waiting_tasks ts"
    by (rule find_tqueue_inv [OF inv opt])
  have "tasks_inv L {} (put_queue q (tq\<lparr>tq_connected := True, tq_handler := handler\<rparr>) ts1)"
    by (rule same_queue_inv [OF s(2,3)]) (auto simp: due_def iqueue.defs)
  then show ?thesis using s by (simp add: new_task_queue_def put_queue_simps)
qed

lemma free_task_queue_inv:
  assumes inv: "tasks_inv L {} ts" and q: "queues ts q = Some tq"
  shows "\<exists>ts'. free_task_queue q ts = Some ts' \<and> tasks_inv L {} ts' \<and> waiting_tasks ts' = waiting_tasks ts"
proof (cases "tq_reading tq = None")
  case True
  have "tasks_inv L {} (put_queue q (tq\<lparr>tq_connected := False\<rparr>) ts)"
    by (rule same_queue_inv [OF inv q]) (use True in \<open>auto simp: due_def iqueue.defs\<close>)
  then show ?thesis using True q by (simp add: free_task_queue_def put_queue_simps)
next
  case False
  have "queue_ok (inputs ts) (waiting_tasks ts) (L q) (tq\<lparr>tq_connected := False\<rparr>)"
    using tasks_invD(8) [OF inv q] by (simp add: queue_ok_def iqueue_ok_def lengths_ok_def)
  then show ?thesis using same_queue_active [OF inv q] False q by (simp add: free_task_queue_def)
qed

lemma task_suspend_input_inv:
  assumes inv: "tasks_inv L {} ts" and q: "queues ts q = Some tq"
  shows "\<exists>ts'. task_suspend_input q ts = Some ts' \<and> tasks_inv L {} ts' \<and> waiting_tasks ts' = waiting_tasks ts"
proof -
  have "tasks_inv L {} (put_queue q (tq\<lparr>tq_input_suspended := True\<rparr>) ts)"
    by (rule same_queue_inv [OF inv q]) (auto simp: due_def iqueue.defs)
  then show ?thesis using q inv by (simp add: task_suspend_input_def put_queue_simps) (simp add: call_net_def put_queue_simps)
qed

text \<open>The first line and the end of the first run tell whether there is an out-of-band line.\<close>

lemma first_run:
  assumes ok: "iqueue_ok h tq (a # as)"
  obtains e et ft where "first_itail tq = Some e" "h e = Some et" "h a = Some ft" "first_input tq = Some a"
    "(it_next et \<noteq> None \<or> it_kind ft = TASK_OOB) \<longleftrightarrow> (\<exists>b \<in> set (a # as). kind_of h b = TASK_OOB)"
proof -
  let ?same = "\<lambda>b. oob h b = oob h a"
  define xs ys where "xs = takeWhile ?same (a # as)" and "ys = dropWhile ?same (a # as)"
  have xy: "a # as = xs @ ys" "xs \<noteq> []" "\<And>b. b \<in> set xs \<Longrightarrow> oob h b = oob h a" "ys = [] \<or> oob h (hd ys) = (\<not> oob h a)"
    using hd_dropWhile [of ?same "a # as"] by (auto simp: xs_def ys_def dest: set_takeWhileD)
  have alloc: "h b \<noteq> None" if "b \<in> set (a # as)" for b using iqueue_alloc [OF ok that] .
  have "run_ends (oob h) (a # as) = last xs # run_ends (oob h) ys"
    unfolding xy(1) by (rule run_ends_first [OF xy(2), of "oob h" "oob h a"]) (use xy in auto)
  then have e: "first_itail tq = Some (last xs)" using ok by (simp add: iqueue_ok_def)
  have "last xs \<in> set (a # as)" using xy(1,2) by simp
  then obtain et where et: "h (last xs) = Some et" using alloc by blast
  obtain ft where ft: "h a = Some ft" using alloc [of a] by auto
  obtain m where m: "thread (next_of h) (first_input tq) xs m" "thread (next_of h) m ys None"
    using ok unfolding iqueue_ok_def xy(1) thread_append by blast
  have "next_of h (last xs) = Some m"
    using thread_slot [OF m(1)] xy(2) by (simp add: rear_def)
  then have last_one: "it_next et = None \<longleftrightarrow> ys = []" using et thread_start [OF m(2)] by (cases ys) auto
  have "(it_next et \<noteq> None \<or> it_kind ft = TASK_OOB) \<longleftrightarrow> (\<exists>b \<in> set (a # as). kind_of h b = TASK_OOB)"
  proof (cases "oob h a")
    case True
    then show ?thesis using ft by (auto simp: oob_def kind_of_def)
  next
    case False
    have "(\<exists>b \<in> set (a # as). kind_of h b = TASK_OOB) \<longleftrightarrow> (\<exists>b \<in> set (a # as). oob h b)" using oob_kind alloc by blast
    also have "\<dots> \<longleftrightarrow> (\<exists>b \<in> set ys. oob h b)" unfolding xy(1) using xy(3) False by auto
    also have "\<dots> \<longleftrightarrow> ys \<noteq> []" using xy(4) False by (cases ys) auto
    finally show ?thesis using last_one ft False by (simp add: oob_def)
  qed
  moreover have "first_input tq = Some a" using ok by (simp add: iqueue_ok_def)
  ultimately show ?thesis using that e et ft by blast
qed

lemma set_connection_option_inv:
  assumes inv: "tasks_inv L {} ts" and q: "queues ts q = Some tq"
  shows "\<exists>b ts'. tasks_set_connection_option q option v ts = Some (b, ts') \<and> tasks_inv L {} ts' \<and> waiting_tasks ts' = waiting_tasks ts"
proof -
  note ok = tasks_invD(8) [OF inv q]
  note iq = queue_okD(1) [OF ok]
  have flush: "tasks_inv L {} (set_flush_cmd q v tq ts)"
    unfolding set_flush_cmd_def by (rule same_queue_inv [OF inv q]) (auto simp: due_def iqueue.defs)
  have empty: "first_input tq = None \<longleftrightarrow> L q = []" using iq thread_start by (cases "L q") (auto simp: iqueue_ok_def)
  have hold: "\<exists>ts'. set_hold_input q v tq ts = Some ts' \<and> tasks_inv L {} ts' \<and> waiting_tasks ts' = waiting_tasks ts"
  proof (cases "\<not> is_true v \<and> first_input tq \<noteq> None")
    case True
    have "queue_ok (inputs ts) (waiting_tasks ts) (L q) (tq\<lparr>tq_hold_input := is_true v\<rparr>)"
      using ok by (simp add: queue_ok_def iqueue_ok_def lengths_ok_def)
    then show ?thesis using same_queue_active [OF inv q, of "tq\<lparr>tq_hold_input := is_true v\<rparr>"] True by (simp add: set_hold_input_def)
  next
    case False
    have "tasks_inv L {} (put_queue q (tq\<lparr>tq_hold_input := is_true v\<rparr>) ts)"
    proof (rule put_queue_inv [OF inv q])
      show "\<not> due (inputs ts) (L q) (tq\<lparr>tq_hold_input := is_true v\<rparr>)" if "q \<in> set (idle_tqueues ts)"
        using tasks_invD(13) [OF inv that _ q] False empty by (auto simp: due_def wanted_def split: if_splits)
    qed (use ok in \<open>auto simp: queue_ok_def iqueue_ok_def lengths_ok_def\<close>)
    then show ?thesis using False by (auto simp: set_hold_input_def put_queue_simps)
  qed
  have ok': "queue_ok (inputs ts) (waiting_tasks ts) (L q) (tq\<lparr>disable_oob := is_true v\<rparr>)"
    using ok by (simp add: queue_ok_def iqueue_ok_def lengths_ok_def)
  have put: "tasks_inv L {} (put_queue q (tq\<lparr>disable_oob := is_true v\<rparr>) ts)"
    if "is_true v \<or> (\<forall>b \<in> set (L q). kind_of (inputs ts) b \<noteq> TASK_OOB)"
  proof (rule put_queue_inv [OF inv q _ _ ok'])
    show "\<not> due (inputs ts) (L q) (tq\<lparr>disable_oob := is_true v\<rparr>)" if "q \<in> set (idle_tqueues ts)"
      using tasks_invD(13) [OF inv that _ q] \<open>is_true v \<or> _\<close> by (auto simp: due_def wanted_def split: if_splits)
  qed auto
  have dis: "\<exists>ts'. set_disable_oob q v tq ts = Some ts' \<and> tasks_inv L {} ts' \<and> waiting_tasks ts' = waiting_tasks ts"
  proof (cases "is_true v \<or> L q = []")
    case True
    then show ?thesis using put empty by (auto simp: set_disable_oob_def put_queue_simps Let_def)
  next
    case False
    then obtain a as where L: "L q = a # as" by (cases "L q") auto
    obtain e et ft where f: "first_itail tq = Some e" "inputs ts e = Some et" "inputs ts a = Some ft" "first_input tq = Some a"
      "(it_next et \<noteq> None \<or> it_kind ft = TASK_OOB) \<longleftrightarrow> (\<exists>b \<in> set (a # as). kind_of (inputs ts) b = TASK_OOB)"
      using iq unfolding L by (rule first_run)
    show ?thesis
    proof (cases "it_next et \<noteq> None \<or> it_kind ft = TASK_OOB")
      case True
      then show ?thesis using same_queue_active [OF inv q ok'] f(1-4) False by (auto simp: set_disable_oob_def put_queue_simps Let_def)
    next
      case out: False
      then show ?thesis using put f L False by (auto simp: set_disable_oob_def put_queue_simps Let_def)
    qed
  qed
  have icmd: "tasks_inv L {} (put_queue q tq' ts)" if "icmd_set_flags tq v = Some tq'" for tq'
    by (rule same_queue_inv [OF inv q]) (use that in \<open>auto simp: icmd_set_flags_def due_def iqueue.defs\<close>)
  show ?thesis
    using q flush hold dis icmd inv
    by (auto simp: tasks_set_connection_option_def put_queue_simps set_flush_cmd_def split: option.split)
qed

end
