(* ===== verification/Scheduler.thy ===== *)
theory Scheduler
  imports TaskSteps
begin

text \<open>
  The main part of \<open>tasks.c\<close>: what a line of input means, and the choice of the next task to run (\<open>run_ready_tasks\<close>).

  The state is the queues of tasks together with the rest of the server, of which only the database is known here. The functions of
  \<open>execute.c\<close> that run a task to its end, the parser, and \<open>player_connected\<close> of \<open>server.c\<close> are the fields of a record; they
  may change the queues as well as the rest.
\<close>

type_synonym 's server_state = "tasks \<times> 's"

record 's runs =
  rn_db :: "'s \<Rightarrow> db"
  rn_set_db :: "db \<Rightarrow> 's \<Rightarrow> 's"
  rn_same_name :: "string \<Rightarrow> nat \<Rightarrow> bool"
  rn_server_verb :: "objid \<Rightarrow> string \<Rightarrow> var list \<Rightarrow> handle \<Rightarrow> objid \<Rightarrow> string \<Rightarrow> 's server_state \<Rightarrow> (outcome \<times> var option \<times> 's server_state) option"
  rn_input_verb :: "objid \<Rightarrow> parsed_command \<Rightarrow> objid \<Rightarrow> handle \<Rightarrow> 's server_state \<Rightarrow> 's server_state option"
  rn_forked :: "forked_task \<Rightarrow> 's server_state \<Rightarrow> 's server_state option"
  rn_resumed :: "saved_vm \<Rightarrow> var \<Rightarrow> 's server_state \<Rightarrow> 's server_state option"
  rn_parse :: "string \<Rightarrow> program option \<times> string list" \<comment> \<open>the program, and the messages of the parser\<close>
  rn_player_connected :: "objid \<Rightarrow> objid \<Rightarrow> bool \<Rightarrow> 's server_state \<Rightarrow> 's server_state option"

definition on_queue :: "nat \<Rightarrow> (tqueue \<Rightarrow> tqueue) \<Rightarrow> 's server_state \<Rightarrow> 's server_state option" where
  "on_queue q f m = map_option (\<lambda>tq. (put_queue q (f tq) (fst m), snd m)) (queues (fst m) q)"

definition say :: "objid \<Rightarrow> string \<Rightarrow> 's server_state \<Rightarrow> 's server_state" where
  "say player s m = (call_net (Notify player s) (fst m), snd m)"

subsection \<open>Programming by lines\<close>

text \<open>\<open>get_system_object\<close> of \<open>utils.c\<close>, with \<open>get_system_property\<close>.\<close>

definition get_system_object :: "db \<Rightarrow> string \<Rightarrow> objid option" where
  "get_system_object db name =
    (if \<not> valid db SYSTEM_OBJECT then Some NOTHING
     else (do {
       (h, v) \<leftarrow> db_find_property db SYSTEM_OBJECT name True;
       Some (case (if h = NoProp then None else v) of Some (VObj x) \<Rightarrow> x | _ \<Rightarrow> NOTHING)
     }))"

definition find_described_verb :: "(nat \<Rightarrow> bool) \<Rightarrow> db \<Rightarrow> objid \<Rightarrow> var \<Rightarrow> handle option" where
  "find_described_verb same db oid desc = (case desc of
     VInt n \<Rightarrow> db_find_indexed_verb db oid (n mod 2 ^ 32)
   | VStr s \<Rightarrow> (do {
       flag \<leftarrow> server_flag_option db ''support_numeric_verbname_strings'';
       db_find_defined_verb same db oid s flag
     })
   | _ \<Rightarrow> None)"

definition in_quotes :: "string \<Rightarrow> string" where
  "in_quotes s = CHR 0x22 # s @ [CHR 0x22]"

text \<open>The handle, the message for the player, and the name of the verb.\<close>

definition find_verb_for_programming :: "(string \<Rightarrow> nat \<Rightarrow> bool) \<Rightarrow> db \<Rightarrow> objid \<Rightarrow> string \<Rightarrow> (handle \<times> string \<times> string) option" where
  "find_verb_for_programming same db player verbref =
    (let obj = takeWhile (\<lambda>c. c \<noteq> CHR '':'') verbref; vname = drop (length obj + 1) verbref
     in if vname = [] then Some (None, ''You must specify a verb; use the format object:verb.'', [])
        else (do {
          oid \<leftarrow> (case obj of c # s \<Rightarrow> if c = CHR ''$'' then get_system_object db s else match_object db player obj
                 | [] \<Rightarrow> match_object db player obj);
          if \<not> valid db oid then
            Some (None, (if oid = FAILED_MATCH then ''I don't see '' @ in_quotes obj @ '' here.''
              else if oid = AMBIGUOUS then ''I don't know which '' @ in_quotes obj @ '' you mean.''
              else in_quotes obj @ '' is not a valid object.''), vname)
          else (do {
            h \<leftarrow> find_described_verb (same vname) db oid (VStr vname);
            if h = None then Some (None, ''That object does not have that verb definition.'', vname)
            else (do {
              allows \<leftarrow> ok (db_verb_allows db h player VF_WRITE);
              protected \<leftarrow> (if allows then server_flag_option db ''protect_set_verb_code'' else Some False);
              if \<not> allows \<or> (protected \<and> \<not> is_wizard db player) then Some (None, ''Permission denied.'', vname)
              else (do {
                name \<leftarrow> db_object_name db oid;
                names \<leftarrow> ok (db_verb_names db h);
                Some (h, ''Now programming '' @ name @ '':'' @ names @ ''.  Use '' @ in_quotes ''.'' @ '' to end.'', vname)
              })
            })
          })
        }))"

definition start_programming :: "'s runs \<Rightarrow> nat \<Rightarrow> string \<Rightarrow> 's server_state \<Rightarrow> 's server_state option" where
  "start_programming R q argstr m = (do {
     tq \<leftarrow> queues (fst m) q;
     (h, message, vname) \<leftarrow> find_verb_for_programming (rn_same_name R) (rn_db R (snd m)) (tq_player tq) argstr;
     let m = say (tq_player tq) message m;
     case h of
       None \<Rightarrow> Some m
     | Some _ \<Rightarrow> (do {
         definer \<leftarrow> ok (db_verb_definer h);
         on_queue q (\<lambda>tq. tq\<lparr>tq_program_stream := Some [], tq_program_object := definer, tq_program_verb := vname\<rparr>) m
       })
   })"

definition end_programming :: "'s runs \<Rightarrow> nat \<Rightarrow> 's server_state \<Rightarrow> 's server_state option" where
  "end_programming R q m = (do {
     tq \<leftarrow> queues (fst m) q;
     text \<leftarrow> tq_program_stream tq;
     let player = tq_player tq;
     let db = rn_db R (snd m);
     m \<leftarrow> (if \<not> valid db (tq_program_object tq) then Some (say player ''That object appears to have disappeared ...'' m)
       else (do {
         h \<leftarrow> find_described_verb (rn_same_name R (tq_program_verb tq)) db (tq_program_object tq) (VStr (tq_program_verb tq));
         if h = None then Some (say player ''That verb appears to have disappeared ...'' m)
         else (do {
           let (p, errors) = rn_parse R text;
           let m = say player (show_num (int (length errors)) @ '' error(s).'') (fold (say player) errors m);
           case p of
             None \<Rightarrow> Some (say player ''Verb not programmed.'' m)
           | Some _ \<Rightarrow> (do {
               db \<leftarrow> ok (db_set_verb_program h p db);
               Some (say player ''Verb programmed.'' (fst m, rn_set_db R db (snd m)))
             })
         })
       }));
     on_queue q (\<lambda>tq. tq\<lparr>tq_program_verb := [], tq_program_stream := None\<rparr>) m
   })"

subsection \<open>Commands\<close>

definition delimiter :: "string \<Rightarrow> string option" where
  "delimiter s = (if s = [] then None else Some s)"

definition find_verb_on :: "(string \<Rightarrow> nat \<Rightarrow> bool) \<Rightarrow> db \<Rightarrow> objid \<Rightarrow> parsed_command \<Rightarrow> handle option" where
  "find_verb_on same db oid pc =
    (if \<not> valid db oid then Some None
     else db_find_command_verb (same (pc_verb pc)) db oid (pc_verb pc)
       (if pc_dobj pc = oid then ASPEC_THIS else if pc_dobj pc = NOTHING then ASPEC_NONE else ASPEC_ANY) (pc_prep pc)
       (if pc_iobj pc = oid then ASPEC_THIS else if pc_iobj pc = NOTHING then ASPEC_NONE else ASPEC_ANY))"

text \<open>Whether the command was one of the server's own.\<close>

definition do_intrinsic_command :: "'s runs \<Rightarrow> nat \<Rightarrow> parsed_command \<Rightarrow> 's server_state \<Rightarrow> (bool \<times> 's server_state) option" where
  "do_intrinsic_command R q pc m = (do {
     tq \<leftarrow> queues (fst m) q;
     let icmd = icmd_index (pc_verb pc);
     if icmd = 0 \<or> icmd \<notin> tq_icmds tq then Some (False, m)
     else if icmd = ICMD_PROGRAM then
       (if \<not> is_programmer (rn_db R (snd m)) (tq_player tq) then Some (False, m)
        else map_option (Pair True) (case pc_args pc of
          [VStr arg] \<Rightarrow> start_programming R q arg m
        | _ \<Rightarrow> Some (say (tq_player tq) ''Usage:  .program object:verb'' m)))
     else if icmd \<in> {ICMD_PREFIX, ICMD_OUTPUTPREFIX} then
       map_option (Pair True) (on_queue q (\<lambda>tq. tq\<lparr>tq_output_prefix := delimiter (pc_argstr pc)\<rparr>) m)
     else map_option (Pair True) (on_queue q (\<lambda>tq. tq\<lparr>tq_output_suffix := delimiter (pc_argstr pc)\<rparr>) m)
   })"

text \<open>A verb that the server calls; its task has a new number, which the queue remembers if it is asked to.\<close>

definition run_server_task :: "'s runs \<Rightarrow> objid \<Rightarrow> objid \<Rightarrow> string \<Rightarrow> var list \<Rightarrow> string \<Rightarrow> nat option \<Rightarrow> 's server_state \<Rightarrow>
    (outcome \<times> var option \<times> 's server_state) option" where
  "run_server_task R player what verb args argstr setting m = (do {
     (tid, ts) \<leftarrow> new_task_id (fst m);
     let m = (ts\<lparr>current_task_id := tid\<rparr>, snd m);
     m \<leftarrow> (case setting of Some q \<Rightarrow> on_queue q (\<lambda>tq. tq\<lparr>tq_last_input_task_id := tid\<rparr>) m | None \<Rightarrow> Some m);
     (h, db) \<leftarrow> db_find_callable_verb (rn_same_name R verb) what verb (rn_db R (snd m));
     let m = (fst m, rn_set_db R db (snd m));
     if h = None then Some (OUTCOME_DONE, Some (VInt 0), m) else rn_server_verb R what verb args h player argstr m
   })"

text \<open>The first object that has a verb for the command, or \<open>huh\<close> of the location.\<close>

fun first_verb_on :: "(string \<Rightarrow> nat \<Rightarrow> bool) \<Rightarrow> db \<Rightarrow> parsed_command \<Rightarrow> objid list \<Rightarrow> (objid \<times> handle) option option" where
  "first_verb_on same db pc [] = Some None"
| "first_verb_on same db pc (x # xs) = (do {
     h \<leftarrow> find_verb_on same db x pc;
     if h \<noteq> None then Some (Some (x, h)) else first_verb_on same db pc xs
   })"

definition verb_for_command :: "'s runs \<Rightarrow> objid \<Rightarrow> objid \<Rightarrow> parsed_command \<Rightarrow> 's server_state \<Rightarrow> ((objid \<times> handle) option \<times> 's server_state) option" where
  "verb_for_command R player location pc m = (do {
     r \<leftarrow> first_verb_on (rn_same_name R) (rn_db R (snd m)) pc [player, location, pc_dobj pc, pc_iobj pc];
     if r = None \<and> valid (rn_db R (snd m)) location then (do {
       (h, db) \<leftarrow> db_find_callable_verb (rn_same_name R ''huh'') location ''huh'' (rn_db R (snd m));
       Some (if h = None then None else Some (location, h), fst m, rn_set_db R db (snd m))
     })
     else Some (r, m)
   })"

text \<open>A line of a player. The result is whether a task was run; the location is that before \<open>do_command\<close>.\<close>

definition run_command :: "'s runs \<Rightarrow> nat \<Rightarrow> string \<Rightarrow> parsed_command \<Rightarrow> 's server_state \<Rightarrow> 's server_state option" where
  "run_command R q command pc m = (do {
     tq \<leftarrow> queues (fst m) q;
     location \<leftarrow> (if valid (rn_db R (snd m)) (tq_player tq) then db_object_location (rn_db R (snd m)) (tq_player tq) else Some NOTHING);
     let m = (case tq_output_prefix tq of Some s \<Rightarrow> say (tq_player tq) s m | None \<Rightarrow> m);
     (out, result, m) \<leftarrow> run_server_task R (tq_player tq) (tq_handler tq) ''do_command'' (map VStr (parse_into_words command)) command (Some q) m;
     tq \<leftarrow> queues (fst m) q;
     m \<leftarrow> (if out \<noteq> OUTCOME_DONE \<or> (case result of Some v \<Rightarrow> is_true v | None \<Rightarrow> False) then Some m
       else (do {
         (r, m) \<leftarrow> verb_for_command R (tq_player tq) location pc m;
         case r of
           Some (thisobj, h) \<Rightarrow> rn_input_verb R (tq_player tq) pc thisobj h m
         | None \<Rightarrow> on_queue q (\<lambda>tq. tq\<lparr>tq_last_input_task_id := 0\<rparr>) (say (tq_player tq) ''I couldn't understand that.'' m)
       }));
     tq \<leftarrow> queues (fst m) q;
     Some (case tq_output_suffix tq of Some s \<Rightarrow> say (tq_player tq) s m | None \<Rightarrow> m)
   })"

definition do_command_task :: "'s runs \<Rightarrow> nat \<Rightarrow> string \<Rightarrow> 's server_state \<Rightarrow> (bool \<times> 's server_state) option" where
  "do_command_task R q command m = (do {
     tq \<leftarrow> queues (fst m) q;
     case tq_program_stream tq of
       Some text \<Rightarrow> map_option (Pair True)
         (if command = ''.'' then end_programming R q m
          else on_queue q (\<lambda>tq. tq\<lparr>tq_program_stream := Some (text @ command @ [CHR 0x0A])\<rparr>) m)
     | None \<Rightarrow> (do {
         parsed \<leftarrow> parse_command (rn_db R (snd m)) command (tq_player tq);
         case parsed of
           None \<Rightarrow> Some (False, m)
         | Some pc \<Rightarrow> (do {
             (own, m) \<leftarrow> do_intrinsic_command R q pc m;
             map_option (Pair True) (if own then Some m else run_command R q command pc m)
           })
       })
   })"

subsection \<open>Logging in\<close>

text \<open>The queue \<open>q\<close> of a connection becomes that of a player. Tasks that the connection has go to a queue of their own; those of the
  old queue of the player come to this one, and its input is thrown away.\<close>

partial_function (option) move_bg_tasks :: "nat \<Rightarrow> nat \<Rightarrow> tasks \<Rightarrow> tasks option" where
  "move_bg_tasks a b ts = (do {
     (r, ts) \<leftarrow> dequeue_bg_task a ts;
     case r of None \<Rightarrow> Some ts | Some t \<Rightarrow> (case enqueue_bg_task b t ts of None \<Rightarrow> None | Some ts \<Rightarrow> move_bg_tasks a b ts)
   })"

declare move_bg_tasks.simps [code]

definition set_queue :: "nat \<Rightarrow> (tqueue \<Rightarrow> tqueue) \<Rightarrow> tasks \<Rightarrow> tasks option" where
  "set_queue q f ts = map_option (\<lambda>tq. put_queue q (f tq) ts) (queues ts q)"

definition num_bg :: "nat \<Rightarrow> tasks \<Rightarrow> int option" where
  "num_bg q ts = map_option tq_num_bg_tasks (queues ts q)"

definition log_in :: "db \<Rightarrow> nat \<Rightarrow> objid \<Rightarrow> tasks \<Rightarrow> tasks option" where
  "log_in db q new_player ts = (do {
     tq \<leftarrow> queues ts q;
     let old_player = tq_player tq;
     let dead = find_player new_player ts;
     ts \<leftarrow> set_queue q (\<lambda>tq. tq\<lparr>tq_player := new_player\<rparr>) ts;
     ts \<leftarrow> (if tq_num_bg_tasks tq \<noteq> 0 then (do {
         (old, ts) \<leftarrow> find_tqueue db old_player ts;
         ts \<leftarrow> set_queue old (\<lambda>p. p\<lparr>tq_num_bg_tasks := tq_num_bg_tasks tq\<rparr>) ts;
         ts \<leftarrow> move_bg_tasks q old ts;
         set_queue q (\<lambda>tq. tq\<lparr>tq_num_bg_tasks := 0\<rparr>) ts
       }) else Some ts);
     case dead of
       None \<Rightarrow> Some ts
     | Some d \<Rightarrow> (do {
         n \<leftarrow> num_bg d ts;
         ts \<leftarrow> set_queue q (\<lambda>tq. tq\<lparr>tq_num_bg_tasks := n\<rparr>) ts;
         ts \<leftarrow> flush_lines d False ts;
         ts \<leftarrow> move_bg_tasks d q ts;
         set_queue d (\<lambda>d. d\<lparr>tq_player := NOTHING, tq_num_bg_tasks := 0\<rparr>) ts
       })
   })"

definition do_login_task :: "'s runs \<Rightarrow> nat \<Rightarrow> string \<Rightarrow> 's server_state \<Rightarrow> 's server_state option" where
  "do_login_task R q command m = (do {
     tq \<leftarrow> queues (fst m) q;
     let old_max_object = db_last_used_objid (rn_db R (snd m));
     (out, result, m) \<leftarrow> run_server_task R (tq_player tq) (tq_handler tq) ''do_login_command'' (map VStr (parse_into_words command)) command
       (Some q) m;
     tq \<leftarrow> queues (fst m) q;
     case result of
       Some (VObj new_player) \<Rightarrow>
         if tq_connected tq \<and> is_user (rn_db R (snd m)) new_player then (do {
           ts \<leftarrow> log_in (rn_db R (snd m)) q new_player (fst m);
           rn_player_connected R (tq_player tq) new_player (new_player > old_max_object) (ts, snd m)
         })
         else Some m
     | _ \<Rightarrow> Some m
   })"

definition do_out_of_band_command :: "'s runs \<Rightarrow> nat \<Rightarrow> string \<Rightarrow> 's server_state \<Rightarrow> 's server_state option" where
  "do_out_of_band_command R q command m = (do {
     tq \<leftarrow> queues (fst m) q;
     (out, result, m) \<leftarrow> run_server_task R (tq_player tq) (tq_handler tq) ''do_out_of_band_command'' (map VStr (parse_into_words command))
       command None m;
     Some m
   })"

subsection \<open>Running tasks\<close>

text \<open>What a queue gives next, in this order: a reader for which no line will come; a line; a background task. While input is held
  back and nobody reads, only out-of-band lines come. The number of the task is current from then on. The cell of a line is freed
  here and not only after the run: nothing points to it any more.\<close>

datatype work =
    No_more_input saved_vm
  | Oob_line string
  | Read_line saved_vm string
  | Command_line string
  | Forked forked_task
  | Suspended suspended_task

definition out_of_input :: "nat \<Rightarrow> tasks \<Rightarrow> (work option \<times> tasks) option" where
  "out_of_input q ts = (do {
     tq \<leftarrow> queues ts q;
     Some (case tq_reading tq of
       Some v \<Rightarrow> if is_out_of_input tq
         then (Some (No_more_input v), (put_queue q (tq\<lparr>tq_reading := None\<rparr>) ts)\<lparr>current_task_id := vm_task_id v\<rparr>) else (None, ts)
     | None \<Rightarrow> (None, ts))
   })"

definition next_work :: "nat \<Rightarrow> tasks \<Rightarrow> (work option \<times> tasks) option" where
  "next_work q ts = (do {
     tq \<leftarrow> queues ts q;
     (r, ts) \<leftarrow> dequeue_input_task q (if tq_hold_input tq \<and> tq_reading tq = None then DQ_OOB else DQ_FIRST) ts;
     case r of
       Some (a, t) \<Rightarrow> (do {
         let ts = free_input a ts;
         tq \<leftarrow> queues ts q;
         Some (if it_kind t = TASK_OOB then (Some (Oob_line (it_string t)), ts)
           else (case tq_reading tq of
               Some v \<Rightarrow> (Some (Read_line v (it_string t)), (put_queue q (tq\<lparr>tq_reading := None\<rparr>) ts)\<lparr>current_task_id := vm_task_id v\<rparr>)
             | None \<Rightarrow> (Some (Command_line (it_string t)), ts)))
       })
     | None \<Rightarrow> (do {
         (t, ts) \<leftarrow> dequeue_bg_task q ts;
         Some (case t of
           None \<Rightarrow> (None, ts)
         | Some (TASK_FORKED ft) \<Rightarrow> (Some (Forked ft), ts\<lparr>current_task_id := ft_id ft\<rparr>)
         | Some (TASK_SUSPENDED st) \<Rightarrow> (Some (Suspended st), ts\<lparr>current_task_id := vm_task_id (st_vm st)\<rparr>))
       })
   })"

text \<open>Only a line can turn out to be nothing.\<close>

fun run_work :: "'s runs \<Rightarrow> nat \<Rightarrow> work \<Rightarrow> 's server_state \<Rightarrow> (bool \<times> 's server_state) option" where
  "run_work R q (No_more_input v) m = map_option (Pair True) (rn_resumed R v (VErr E_INVARG) m)"
| "run_work R q (Oob_line s) m = map_option (Pair True) (do_out_of_band_command R q s m)"
| "run_work R q (Read_line v s) m = map_option (Pair True) (rn_resumed R v (VStr s) m)"
| "run_work R q (Command_line s) m = (do {
     tq \<leftarrow> queues (fst m) q;
     if tq_player tq \<ge> 0 then do_command_task R q s m else map_option (Pair True) (do_login_task R q s m)
   })"
| "run_work R q (Forked ft) m = map_option (Pair True) (rn_forked R ft m)"
| "run_work R q (Suspended st) m = map_option (Pair True) (rn_resumed R (st_vm st) (st_value st) m)"

text \<open>One queue: its work until something was run; true if something was.\<close>

partial_function (option) run_queue :: "'s runs \<Rightarrow> nat \<Rightarrow> 's server_state \<Rightarrow> (bool \<times> 's server_state) option" where
  "run_queue R q m = (do {
     (w, ts) \<leftarrow> next_work q (fst m);
     case w of
       None \<Rightarrow> Some (False, ts, snd m)
     | Some w \<Rightarrow> (do {
         (did, m) \<leftarrow> run_work R q w (ts, snd m);
         if did then Some (True, m) else run_queue R q m
       })
   })"

declare run_queue.simps [code]

definition serve_queue :: "'s runs \<Rightarrow> nat \<Rightarrow> 's server_state \<Rightarrow> (bool \<times> 's server_state) option" where
  "serve_queue R q m = (do {
     (w, ts) \<leftarrow> out_of_input q (fst m);
     case w of None \<Rightarrow> run_queue R q (ts, snd m) | Some w \<Rightarrow> run_work R q w (ts, snd m)
   })"

text \<open>The end of a turn: the queue leaves its place, and is put back behind those that have not used more, or becomes idle.\<close>

definition behind :: "nat \<Rightarrow> nat list \<Rightarrow> nat list" where
  "behind q qs = tl (dropWhile (\<lambda>p. p \<noteq> q) qs)"

definition end_turn :: "bool \<Rightarrow> int \<Rightarrow> nat \<Rightarrow> tasks \<Rightarrow> tasks option" where
  "end_turn did elapsed q ts =
    (let ts = ts\<lparr>active_tqueues := behind q (active_tqueues ts)\<rparr>
     in if did then map_option (activate_tqueue q) (set_queue q (\<lambda>tq. tq\<lparr>tq_usage := to_int32 (tq_usage tq + elapsed)\<rparr>) ts)
        else deactivate_tqueue q ts)"

definition turn :: "'s runs \<Rightarrow> int \<Rightarrow> nat \<Rightarrow> 's server_state \<Rightarrow> (bool \<times> 's server_state) option" where
  "turn R elapsed q m = (do {
     (did, m) \<leftarrow> serve_queue R q m;
     ts \<leftarrow> end_turn did elapsed q (fst m);
     Some (did, ts, snd m)
   })"

partial_function (option) turns :: "'s runs \<Rightarrow> int \<Rightarrow> 's server_state \<Rightarrow> 's server_state option" where
  "turns R elapsed m = (case active_tqueues (fst m) of
     [] \<Rightarrow> Some m
   | q # _ \<Rightarrow> (case turn R elapsed q m of
       None \<Rightarrow> None
     | Some (did, m) \<Rightarrow> if did then Some m else turns R elapsed m))"

declare turns.simps [code]

definition run_ready_tasks :: "'s runs \<Rightarrow> timeval \<Rightarrow> int \<Rightarrow> 's server_state \<Rightarrow> 's server_state option" where
  "run_ready_tasks R now elapsed m = (do {
     ts \<leftarrow> wake_tasks (rn_db R (snd m)) now (waiting_tasks (fst m)) (fst m);
     m \<leftarrow> turns R elapsed (ts, snd m);
     Some (reap_tqueues (fst m), snd m)
   })"

end
