(* ===== verification/TaskKill.thy ===== *)
theory TaskKill
  imports TaskSteps
begin

text \<open>
  Killing and resuming tasks, input from the program, and logging in keep the invariant of the queues.
\<close>

lemma usage_of_upd:
  "usage_of (ts\<lparr>waiting_tasks := w\<rparr>) = usage_of ts" "usage_of (ts\<lparr>idle_tqueues := i\<rparr>) = usage_of ts"
  "usage_of (ts\<lparr>active_tqueues := a\<rparr>) = usage_of ts" "usage_of (ts\<lparr>inputs := h\<rparr>) = usage_of ts"
  "usage_of (ts\<lparr>net_calls := c\<rparr>) = usage_of ts" "usage_of (ts\<lparr>current_task_id := n\<rparr>) = usage_of ts"
  "usage_of (ts\<lparr>next_input := m\<rparr>) = usage_of ts" "usage_of (ts\<lparr>numbers_drawn := m\<rparr>) = usage_of ts"
  "usage_of (ts\<lparr>next_queue := m\<rparr>) = usage_of ts"
  "usage_of (ts\<lparr>queues := Q\<rparr>) = (\<lambda>q. case Q q of Some tq \<Rightarrow> tq_usage tq | None \<Rightarrow> NO_USAGE)"
  by (simp_all add: usage_of_def fun_eq_iff)

subsection \<open>Killing\<close>

text \<open>A task leaves the list of waiting tasks and the count of its queue.\<close>

lemma uncount_waiting_inv:
  assumes inv: "tasks_inv L X ts" and w: "waiting_tasks ts = xs @ t # ys"
  shows "tasks_inv L X ((case find_player (bg_progr t) ts of
       None \<Rightarrow> ts
     | Some q \<Rightarrow> (case queues ts q of
         Some tq \<Rightarrow> put_queue q (tq\<lparr>tq_num_bg_tasks := tq_num_bg_tasks tq - 1\<rparr>) ts
       | None \<Rightarrow> ts))\<lparr>waiting_tasks := xs @ ys\<rparr>)"
proof (cases "find_player (bg_progr t) ts")
  case None
  note D = tasks_invD [OF inv]
  have p: "bg_progr t = NOTHING"
    using D(14) [of t] w find_player_none [OF inv None] by auto
  let ?ts = "ts\<lparr>waiting_tasks := xs @ ys\<rparr>"
  have "tasks_inv L X ?ts"
  proof (rule tasks_invI)
    show "usage_ok ?ts" using D(6) by (simp add: usage_ok_def usage_of_upd)
    show "queue_ok (inputs ?ts) (waiting_tasks ?ts) (L q) tq" if "queues ?ts q = Some tq" for q tq
      using D(8) [of q tq] that w p by (auto simp: queue_ok_def)
    show "starts_ok (waiting_tasks ?ts)" using D(12) w by (auto simp: starts_ok_def sorted_wrt_append)
    show "\<exists>q tq. queues ?ts q = Some tq \<and> tq_player tq = bg_progr u" if "u \<in> set (waiting_tasks ?ts)" "bg_progr u \<noteq> NOTHING" for u
      using D(14) [of u] that w by auto
    show "queues ?ts q \<noteq> None \<longleftrightarrow> q \<in> set (active_tqueues ?ts) \<or> q \<in> set (idle_tqueues ?ts)" for q using D(4) [of q] by simp
    show "q = q'" if "queues ?ts q = Some tq" "queues ?ts q' = Some tq'" "tq_player tq = tq_player tq'" "tq_player tq \<noteq> NOTHING" for q q' tq tq'
      using D(7) [of q tq q' tq'] that by simp
  qed (use D in simp_all)
  then show ?thesis using None by simp
next
  case (Some q)
  then obtain tq where q: "queues ts q = Some tq" "tq_player tq = bg_progr t" by (rule find_player_some)
  note D = tasks_invD [OF inv]
  let ?tq = "tq\<lparr>tq_num_bg_tasks := tq_num_bg_tasks tq - 1\<rparr>"
  have "tasks_inv L X ((put_queue q ?tq ts)\<lparr>waiting_tasks := xs @ ys\<rparr>)"
  proof (rule change_waiting_inv [OF inv q(1)])
    show "queue_ok (inputs ts) (xs @ ys) (L q) ?tq"
      by (rule queue_ok_num [OF D(8) [OF q(1)]]) (use queue_okD(5) [OF D(8) [OF q(1)]] q(2) w in \<open>auto simp: iqueue.defs\<close>)
    show "starts_ok (xs @ ys)" using D(12) w by (auto simp: starts_ok_def sorted_wrt_append)
    show "\<not> due (inputs ts) (L q) ?tq" if "q \<notin> X" "q \<in> set (idle_tqueues ts)" using D(13) [OF that(2,1) q(1)] by (simp add: due_def)
  qed (use q(2) w in auto)
  then show ?thesis using Some q(1) by simp
qed

text \<open>Fewer background tasks, and perhaps no reader.\<close>

lemma less_work_inv:
  assumes inv: "tasks_inv L X ts" and q: "queues ts q = Some tq"
    and same: "iqueue.truncate tq' = iqueue.truncate tq" "tq_player tq' = tq_player tq" "tq_usage tq' = tq_usage tq"
      "tq_hold_input tq' = tq_hold_input tq" "tq_connected tq' = tq_connected tq"
    and num: "tq_num_bg_tasks tq' - int (length (tq_bg tq')) = tq_num_bg_tasks tq - int (length (tq_bg tq))"
    and less: "tq_bg tq = [] \<Longrightarrow> tq_bg tq' = []" "tq_reading tq = None \<Longrightarrow> tq_reading tq' = None"
  shows "tasks_inv L X (put_queue q tq' ts)"
proof (rule put_queue_inv [OF inv q same(2,3)])
  note ok = tasks_invD(8) [OF inv q]
  show "queue_ok (inputs ts) (waiting_tasks ts) (L q) tq'"
    by (rule queue_ok_num [OF ok same(2,1)]) (use queue_okD(5) [OF ok] num in simp)
  have "disable_oob tq' = disable_oob tq" using same(1) by (simp add: iqueue.defs)
  then show "\<not> due (inputs ts) (L q) tq'" if "q \<notin> X" "q \<in> set (idle_tqueues ts)"
    using tasks_invD(13) [OF inv that(2,1) q] same less by (auto simp: due_def)
qed auto

lemma kill_in_queue_inv:
  assumes "tasks_inv L X ts" "kill_in_queue bg tid wiz owner q ts = Some (e, ts')"
  shows "tasks_inv L X ts' \<and> waiting_tasks ts' = waiting_tasks ts"
proof (cases "queues ts q")
  case (Some tq)
  have 1: "tasks_inv L X (put_queue q (tq\<lparr>tq_reading := None\<rparr>) ts)"
    by (rule less_work_inv [OF assms(1) Some]) (simp_all add: iqueue.defs)
  have 2: "tasks_inv L X (put_queue q (tq\<lparr>tq_bg := us, tq_num_bg_tasks := tq_num_bg_tasks tq - 1\<rparr>) ts)"
    if "pick_task P (tq_bg tq) = Some (t, us)" for P t us
    by (rule less_work_inv [OF assms(1) Some]) (use that in \<open>auto simp: iqueue.defs elim!: pick_task_some\<close>)
  show ?thesis using assms Some 1 2 by (auto simp: kill_in_queue_def put_queue_simps split: if_splits option.splits prod.splits)
qed (use assms(2) in \<open>simp add: kill_in_queue_def\<close>)

lemma kill_in_queues_inv:
  "tasks_inv L X ts \<Longrightarrow> kill_in_queues bg tid wiz owner qs ts = Some (e, ts') \<Longrightarrow>
    tasks_inv L X ts' \<and> waiting_tasks ts' = waiting_tasks ts"
  by (induction qs) (auto dest: kill_in_queue_inv split: option.splits)

lemma kill_task_inv:
  assumes inv: "tasks_inv L X ts" and k: "kill_task db tid owner ts = (e, ts')"
  shows "tasks_inv L X ts'"
proof (cases "pick_task (\<lambda>t. bg_task_id t = tid) (waiting_tasks ts)")
  case None
  then show ?thesis
    using k inv kill_in_queues_inv [OF inv] by (auto simp: kill_task_def split: if_splits option.splits)
next
  case (Some r)
  obtain t us where r: "r = (t, us)" by force
  obtain xs ys where w: "waiting_tasks ts = xs @ t # ys" "us = xs @ ys" using Some r by (auto elim: pick_task_some)
  show ?thesis
    using k inv uncount_waiting_inv [OF inv w(1)] Some r w(2) by (auto simp: kill_task_def split: if_splits)
qed

subsection \<open>Resuming\<close>

lemma with_value_simps [simp]: "bg_progr (with_value v t) = bg_progr t" "bg_progr (with_start s t) = bg_progr t"
  by (cases t; simp)+

lemma revalue_inv:
  "tasks_inv L X ts \<Longrightarrow> revalue_in_queues tid v wiz progr qs ts = Some (e, ts') \<Longrightarrow>
    tasks_inv L X ts' \<and> waiting_tasks ts' = waiting_tasks ts"
proof (induction qs)
  case (Cons q qs)
  have "tasks_inv L X (put_queue q (tq\<lparr>tq_bg := (tq_bg tq)[i := t]\<rparr>) ts)" if "queues ts q = Some tq" for tq i t
    by (rule less_work_inv [OF Cons.prems(1) that]) (auto simp: iqueue.defs)
  then show ?case using Cons by (auto simp: put_queue_simps split: option.splits if_splits)
qed simp

lemma do_resume_inv:
  assumes inv: "tasks_inv L X ts" and opt: "default_flush_command db \<noteq> None"
  shows "\<exists>e ts'. do_resume db now tid v progr ts = Some (e, ts') \<and> tasks_inv L X ts'"
proof (cases "pick_task (suspended_id tid) (waiting_tasks ts)")
  case None
  then show ?thesis
    using inv revalue_inv [OF inv, of tid v "is_wizard db progr" progr "active_tqueues ts"]
    by (auto simp: do_resume_def split: option.splits)
next
  case (Some r)
  obtain t us where r: "r = (t, us)" by force
  obtain xs ys where w: "waiting_tasks ts = xs @ t # ys" "us = xs @ ys" using Some r by (auto elim: pick_task_some)
  obtain q ts1 ts2 ts3 where s: "find_tqueue db (bg_progr t) ts = Some (q, ts1)" "ensure_usage q ts1 = Some ts2"
    "enqueue_bg_task q (with_value v (with_start now t)) (ts2\<lparr>waiting_tasks := xs @ ys\<rparr>) = Some ts3" "tasks_inv L X ts3"
    using wake_one [OF inv opt w(1), of "with_value v (with_start now t)"] by auto
  have "ensure_usage q (ts1\<lparr>waiting_tasks := us\<rparr>) = Some (ts2\<lparr>waiting_tasks := xs @ ys\<rparr>)"
    using s(2) w(2) by (cases "queues ts1 q")
      (auto simp: ensure_usage_def put_queue_def activate_tqueue_def usage_of_upd Let_def cong del: if_weak_cong option.case_cong_weak split: if_splits list.splits)
  then show ?thesis using Some r s inv by (auto simp: do_resume_def)
qed

end
