(* ===== verification/TaskLogin.thy ===== *)
theory TaskLogin
  imports Scheduler TaskKill
begin

text \<open>
  Logging in: the queue of a connection becomes the queue of a player, and the invariant of the queues is kept.
\<close>

subsection \<open>Moving background tasks\<close>

lemma move_bg_tasks_exact:
  assumes "a \<noteq> b" "queues ts a = Some ta" "queues ts b = Some tb"
  shows "move_bg_tasks a b ts = Some (ts\<lparr>queues := (queues ts)
    (a \<mapsto> ta\<lparr>tq_bg := [], tq_num_bg_tasks := tq_num_bg_tasks ta - int (length (tq_bg ta))\<rparr>, b \<mapsto> tb\<lparr>tq_bg := tq_bg tb @ tq_bg ta\<rparr>)\<rparr>)"
  using assms
proof (induction "tq_bg ta" arbitrary: ts ta tb)
  case Nil
  have "ta\<lparr>tq_bg := [], tq_num_bg_tasks := tq_num_bg_tasks ta - int (length (tq_bg ta))\<rparr> = ta" "tb\<lparr>tq_bg := tq_bg tb @ tq_bg ta\<rparr> = tb"
    using Nil(1) by (simp_all add: Nil(1) [symmetric])
  moreover have "(queues ts)(a \<mapsto> ta, b \<mapsto> tb) = queues ts" using Nil.prems by auto
  ultimately have "ts\<lparr>queues := (queues ts)
    (a \<mapsto> ta\<lparr>tq_bg := [], tq_num_bg_tasks := tq_num_bg_tasks ta - int (length (tq_bg ta))\<rparr>, b \<mapsto> tb\<lparr>tq_bg := tq_bg tb @ tq_bg ta\<rparr>)\<rparr> = ts"
    by simp
  moreover have "move_bg_tasks a b ts = Some ts"
    using Nil by (subst move_bg_tasks.simps) (simp add: dequeue_bg_task_def Nil(1) [symmetric])
  ultimately show ?case by (simp only:)
next
  case (Cons t us)
  let ?ta = "ta\<lparr>tq_bg := us, tq_num_bg_tasks := tq_num_bg_tasks ta - 1\<rparr>" and ?tb = "tb\<lparr>tq_bg := tq_bg tb @ [t]\<rparr>"
  let ?ts = "put_queue b ?tb (put_queue a ?ta ts)"
  have "move_bg_tasks a b ts = move_bg_tasks a b ?ts"
    using Cons.prems by (subst move_bg_tasks.simps)
      (simp add: dequeue_bg_task_def enqueue_bg_task_def put_queue_simps Cons.hyps(2) [symmetric])
  also have "\<dots> = Some (?ts\<lparr>queues := (queues ?ts)
    (a \<mapsto> ?ta\<lparr>tq_bg := [], tq_num_bg_tasks := tq_num_bg_tasks ?ta - int (length (tq_bg ?ta))\<rparr>, b \<mapsto> ?tb\<lparr>tq_bg := tq_bg ?tb @ tq_bg ?ta\<rparr>)\<rparr>)"
    by (rule Cons.hyps(1)) (use Cons.prems in \<open>auto simp: put_queue_simps\<close>)
  also have "\<dots> = Some (ts\<lparr>queues := (queues ts)
    (a \<mapsto> ta\<lparr>tq_bg := [], tq_num_bg_tasks := tq_num_bg_tasks ta - int (length (tq_bg ta))\<rparr>, b \<mapsto> tb\<lparr>tq_bg := tq_bg tb @ tq_bg ta\<rparr>)\<rparr>)"
    using Cons.prems(1) by (simp add: put_queue_def Cons.hyps(2) [symmetric] fun_upd_twist algebra_simps)
  finally show ?case .
qed

subsection \<open>Flushing beside other changes\<close>

text \<open>Other queues, the list of idle queues and the next address are replaced.\<close>

definition patch :: "(nat \<Rightarrow> tqueue option) \<Rightarrow> nat list \<Rightarrow> nat \<Rightarrow> tasks \<Rightarrow> tasks" where
  "patch Q idle n ts = ts\<lparr>queues := queues ts ++ Q, idle_tqueues := idle, next_queue := n\<rparr>"

lemma patch_simps [simp]:
  "queues (patch Q idle n ts) = queues ts ++ Q" "idle_tqueues (patch Q idle n ts) = idle" "next_queue (patch Q idle n ts) = n"
  "inputs (patch Q idle n ts) = inputs ts" "active_tqueues (patch Q idle n ts) = active_tqueues ts"
  "waiting_tasks (patch Q idle n ts) = waiting_tasks ts" "next_input (patch Q idle n ts) = next_input ts"
  by (simp_all add: patch_def)

lemma patch_put: "Q d = None \<Longrightarrow> put_queue d tq (patch Q idle n ts) = patch Q idle n (put_queue d tq ts)"
  by (auto simp: put_queue_def patch_def map_add_def fun_eq_iff split: option.split)

lemma dequeue_patch:
  assumes "Q d = None"
  shows "dequeue_input_task d how (patch Q idle n ts) = map_option (map_prod id (patch Q idle n)) (dequeue_input_task d how ts)"
proof -
  have q: "queues (patch Q idle n ts) d = queues ts d" using assms by (simp add: map_add_def)
  have e: "(patch Q idle n (put_queue d tq ts))\<lparr>inputs := h\<rparr> = patch Q idle n ((put_queue d tq ts)\<lparr>inputs := h\<rparr>)" for tq h
    by (simp add: patch_def)
  have c: "call_net c (patch Q idle n ts) = patch Q idle n (call_net c ts)" for c ts by (simp add: patch_def call_net_def)
  note put = patch_put [where Q = Q, OF assms]
  show ?thesis
  proof (cases "queues ts d")
    case None
    then show ?thesis using q by (simp add: dequeue_input_task_def del: patch_simps(1))
  next
    case (Some tq)
    show ?thesis
    proof (cases "take_input how (inputs ts) tq")
      case None
      then show ?thesis using q Some by (simp add: dequeue_input_task_def del: patch_simps(1))
    next
      case Some2: (Some x)
      then obtain r h tq1 where t: "take_input how (inputs ts) tq = Some (r, h, tq1)" by (metis prod_cases3 option.exhaust)
      show ?thesis
      proof (cases r)
        case None
        then show ?thesis using q Some t by (simp add: dequeue_input_task_def del: patch_simps(1))
      next
        case r: (Some a)
        then show ?thesis using q Some t
          by (cases "uncount_input a (h, tq1)")
            (auto simp: dequeue_input_task_def put e c Let_def uncount_input_def simp del: patch_simps(1) split: option.split bind_split)
      qed
    qed
  qed
qed

lemma free_input_patch: "free_input a (patch Q idle n ts) = patch Q idle n (free_input a ts)"
  by (simp add: free_input_def patch_def)

lemma flush_patch:
  assumes "tasks_inv L X ts" "queues ts d = Some td" "Q d = None"
  shows "\<exists>ts' td'. flush_lines d False ts = Some ts' \<and> flush_lines d False (patch Q idle n ts) = Some (patch Q idle n ts') \<and>
    tasks_inv (L(d := [])) X ts' \<and> queues ts' = (queues ts)(d \<mapsto> td') \<and> waiting_tasks ts' = waiting_tasks ts \<and>
    idle_tqueues ts' = idle_tqueues ts \<and> active_tqueues ts' = active_tqueues ts \<and> next_queue ts' = next_queue ts \<and> tq_player td' = tq_player td \<and>
    tq_bg td' = tq_bg td \<and> tq_num_bg_tasks td' = tq_num_bg_tasks td \<and> tq_reading td' = tq_reading td \<and> tq_connected td' = tq_connected td \<and>
    tq_usage td' = tq_usage td"
  using assms(1,2)
proof (induction "length (L d)" arbitrary: L ts td rule: less_induct)
  case less
  note dp = dequeue_patch [where Q = Q and d = d and how = DQ_FIRST and idle = idle and n = n and ts = ts, OF assms(3)]
  show ?case
  proof (rule dequeue_input_inv [OF less.prems, of DQ_FIRST])
    assume n: "find (\<lambda>a. wanted DQ_FIRST (disable_oob td) (kind_of (inputs ts) a)) (L d) = None"
      and e: "dequeue_input_task d DQ_FIRST ts = Some (None, ts)"
    have "L d = []" using n by (cases "L d") auto
    then have "L(d := []) = L" by auto
    moreover have "flush_lines d False ts = Some ts" using e by (subst flush_lines.simps) simp
    moreover have "flush_lines d False (patch Q idle n ts) = Some (patch Q idle n ts)" using e dp by (subst flush_lines.simps) simp
    moreover have "queues ts = (queues ts)(d \<mapsto> td)" using less.prems(2) by auto
    ultimately show ?thesis using less.prems(1) by metis
  next
    fix a t ts1 tq1
    assume s: "find (\<lambda>a. wanted DQ_FIRST (disable_oob td) (kind_of (inputs ts) a)) (L d) = Some a"
      "dequeue_input_task d DQ_FIRST ts = Some (Some (a, t), ts1)"
      "tasks_inv (L(d := remove1 a (L d))) X ts1" "queues ts1 = (queues ts)(d \<mapsto> tq1)"
      "tq_player tq1 = tq_player td" "tq_bg tq1 = tq_bg td" "tq_num_bg_tasks tq1 = tq_num_bg_tasks td" "tq_reading tq1 = tq_reading td"
      "tq_connected tq1 = tq_connected td" "\<And>p b. b \<in> set ((L(d := remove1 a (L d))) p) \<Longrightarrow> b \<noteq> a"
      "waiting_tasks ts1 = waiting_tasks ts" "idle_tqueues ts1 = idle_tqueues ts" "active_tqueues ts1 = active_tqueues ts"
      "tq_usage tq1 = tq_usage td" "next_queue ts1 = next_queue ts"
    let ?L = "L(d := remove1 a (L d))"
    have a: "a \<in> set (L d)" using s(1) by (auto simp: find_Some_iff)
    have len: "length (?L d) < length (L d)" using a length_pos_if_in_set [OF a] by (simp add: length_remove1)
    have i: "tasks_inv ?L X (free_input a ts1)" by (rule free_input_inv [OF s(3)]) (rule s(10))
    have q1: "queues (free_input a ts1) d = Some tq1" using s(4) by (simp add: free_input_def)
    have f: "flush_lines d False ts = flush_lines d False (free_input a ts1)"
      using s(2,4) by (subst flush_lines.simps) simp
    have fp: "flush_lines d False (patch Q idle n ts) = flush_lines d False (patch Q idle n (free_input a ts1))"
      using s(2,4) dp assms(3) by (subst flush_lines.simps) (simp add: free_input_patch map_add_def)
    have LL: "?L(d := []) = L(d := [])" by auto
    have fields: "queues (free_input a ts1) = (queues ts)(d \<mapsto> tq1)" "waiting_tasks (free_input a ts1) = waiting_tasks ts"
      "idle_tqueues (free_input a ts1) = idle_tqueues ts" "active_tqueues (free_input a ts1) = active_tqueues ts"
      using s(4,11-13) by (simp_all add: free_input_def)
    have n: "next_queue (free_input a ts1) = next_queue ts" using s(15) by (simp add: free_input_def)
    show ?thesis using less.hyps [OF len i q1] unfolding f fp LL fields s(5-9,14) n by simp
  qed
qed

subsection \<open>The new state\<close>

lemma patch_usage:
  assumes "\<And>t. Q p = Some t \<Longrightarrow> tq_usage t = usage_of ts p"
  shows "usage_of (patch Q idle n ts) p = usage_of ts p"
proof (cases "Q p")
  case (Some t)
  then show ?thesis using assms [OF Some] by (simp add: usage_of_def [of "patch Q idle n ts"] map_add_def)
qed (simp add: usage_of_def map_add_def)

lemma patch_inv:
  assumes inv: "tasks_inv L X ts" and n: "next_queue ts \<le> n"
    and os: "distinct os" "\<And>p. p \<in> set os \<Longrightarrow> next_queue ts \<le> p \<and> p < n \<and> (\<exists>t. Q p = Some t)"
    and dom: "\<And>p t. Q p = Some t \<Longrightarrow> p \<in> set os \<or> queues ts p \<noteq> None"
    and usage: "\<And>p t. Q p = Some t \<Longrightarrow> tq_usage t = usage_of ts p"
    and players: "\<And>p p' t t'. (queues ts ++ Q) p = Some t \<Longrightarrow> (queues ts ++ Q) p' = Some t' \<Longrightarrow> tq_player t = tq_player t' \<Longrightarrow>
      tq_player t \<noteq> NOTHING \<Longrightarrow> p = p'"
    and ok: "\<And>p t. Q p = Some t \<Longrightarrow> queue_ok (inputs ts) (waiting_tasks ts) (L p) t"
    and owners: "\<And>w. w \<in> set (waiting_tasks ts) \<Longrightarrow> bg_progr w \<noteq> NOTHING \<Longrightarrow> \<exists>p t. (queues ts ++ Q) p = Some t \<and> tq_player t = bg_progr w"
    and due: "\<And>p t. Q p = Some t \<Longrightarrow> p \<in> set (os @ idle_tqueues ts) \<Longrightarrow> p \<notin> X \<Longrightarrow> \<not> due (inputs ts) (L p) t"
  shows "tasks_inv L X (patch Q (os @ idle_tqueues ts) n ts)"
proof -
  note D = tasks_invD [OF inv]
  let ?ts = "patch Q (os @ idle_tqueues ts) n ts"
  have fresh: "queues ts p = None" if "p \<in> set os" for p using D(5) os(2) [OF that] by auto
  have apart: "set os \<inter> set (idle_tqueues ts) = {}" "set (active_tqueues ts) \<inter> set os = {}"
    using D(4) fresh by (metis disjoint_iff)+
  have uo: "usage_of ?ts p = usage_of ts p" for p by (rule patch_usage) (rule usage)
  have idle_new: "usage_of ?ts p = NO_USAGE" if "p \<in> set (os @ idle_tqueues ts)" for p
    using that D(6) fresh [of p] uo [of p] by (auto simp: usage_ok_def usage_of_def [of ts])
  show ?thesis
  proof (rule tasks_invI, unfold patch_simps)
    show "usage_ok ?ts"
      by (rule usage_ok_frame [OF D(6)]) (simp, rule uo, rule idle_new, simp)
    show "(queues ts ++ Q) p \<noteq> None \<longleftrightarrow> p \<in> set (active_tqueues ts) \<or> p \<in> set (os @ idle_tqueues ts)" for p
      using D(4) [of p] dom [of p] os(2) [of p] by (auto simp: map_add_def split: option.splits)
    show "(queues ts ++ Q) p = None" if "n \<le> p" for p
      using D(5) [of p] dom [of p] os(2) [of p] n that by (cases "Q p") (auto simp: map_add_def)
    show "queue_ok (inputs ts) (waiting_tasks ts) (L p) t" if "(queues ts ++ Q) p = Some t" for p t
      using that ok D(8) by (auto simp: map_add_Some_iff)
    show "L p = []" if "(queues ts ++ Q) p = None" for p using that D(9) by (auto simp: map_add_def split: option.splits)
    show "\<not> due (inputs ts) (L p) t" if "p \<in> set (os @ idle_tqueues ts)" "p \<notin> X" "(queues ts ++ Q) p = Some t" for p t
      using that due [of p t] D(13) [of p t] fresh [of p] by (auto simp: map_add_Some_iff)
    show "distinct (os @ idle_tqueues ts)" using os(1) D(2) apart by simp
    show "set (active_tqueues ts) \<inter> set (os @ idle_tqueues ts) = {}" using D(3) apart by auto
    show "p = p'" if "(queues ts ++ Q) p = Some t" "(queues ts ++ Q) p' = Some t'" "tq_player t = tq_player t'" "tq_player t \<noteq> NOTHING"
      for p p' t t' by (rule players [OF that])
    show "\<exists>p t. (queues ts ++ Q) p = Some t \<and> tq_player t = bg_progr w" if "w \<in> set (waiting_tasks ts)" "bg_progr w \<noteq> NOTHING" for w
      by (rule owners [OF that])
    show "set (L p) \<inter> set (L p') = {}" if "p \<noteq> p'" for p p' using D(10) that by blast
  qed (use D in simp_all)
qed


text \<open>The queue of the connection after logging in, and the one that keeps the tasks of the connection.\<close>

definition logged_in :: "objid \<Rightarrow> tqueue \<Rightarrow> tqueue option \<Rightarrow> tqueue" where
  "logged_in new tq dead = tq\<lparr>tq_player := new, tq_bg := (case dead of Some td \<Rightarrow> tq_bg td | None \<Rightarrow> []),
     tq_num_bg_tasks := (case dead of Some td \<Rightarrow> tq_num_bg_tasks td | None \<Rightarrow> 0)\<rparr>"

definition left_behind :: "tqueue \<Rightarrow> string option \<Rightarrow> tqueue" where
  "left_behind tq flush = (new_tqueue (tq_player tq) flush)\<lparr>tq_num_bg_tasks := tq_num_bg_tasks tq, tq_bg := tq_bg tq\<rparr>"

text \<open>The first part of logging in.\<close>

definition log_in_old :: "db \<Rightarrow> nat \<Rightarrow> objid \<Rightarrow> tqueue \<Rightarrow> tasks \<Rightarrow> tasks option" where
  "log_in_old db q new tq ts = (do {
     ts \<leftarrow> set_queue q (\<lambda>tq. tq\<lparr>tq_player := new\<rparr>) ts;
     if tq_num_bg_tasks tq \<noteq> 0 then (do {
         (old, ts) \<leftarrow> find_tqueue db (tq_player tq) ts;
         ts \<leftarrow> set_queue old (\<lambda>p. p\<lparr>tq_num_bg_tasks := tq_num_bg_tasks tq\<rparr>) ts;
         ts \<leftarrow> move_bg_tasks q old ts;
         set_queue q (\<lambda>tq. tq\<lparr>tq_num_bg_tasks := 0\<rparr>) ts
       }) else Some ts
   })"

lemma log_in_old_exact:
  assumes inv: "tasks_inv L X ts" and flush: "default_flush_command db = Some flush"
    and q: "queues ts q = Some tq" and p: "tq_player tq \<noteq> NOTHING" "tq_player tq \<noteq> new"
  shows "log_in_old db q new tq ts = Some (if tq_num_bg_tasks tq = 0 then patch [q \<mapsto> logged_in new tq None] (idle_tqueues ts) (next_queue ts) ts
    else patch [q \<mapsto> logged_in new tq None, next_queue ts \<mapsto> left_behind tq flush] (next_queue ts # idle_tqueues ts) (next_queue ts + 1) ts)"
proof (cases "tq_num_bg_tasks tq = 0")
  case True
  have "int (length (tq_bg tq)) + waiting_for (tq_player tq) (waiting_tasks ts) = 0"
    using queue_okD(5) [OF tasks_invD(8) [OF inv q] p(1)] True by simp
  then have "tq_bg tq = []" using waiting_for_nonneg [of "tq_player tq" "waiting_tasks ts"] by (cases "tq_bg tq") auto
  then have "tq\<lparr>tq_player := new\<rparr> = logged_in new tq None" using True by (simp add: logged_in_def)
  then show ?thesis using True q by (simp add: log_in_old_def set_queue_def put_queue_def patch_def map_add_upd)
next
  case False
  let ?o = "next_queue ts" and ?tq = "tq\<lparr>tq_player := new\<rparr>"
  let ?ts = "put_queue q ?tq ts"
  note D = tasks_invD [OF inv]
  have o: "queues ts ?o = None" "?o \<noteq> q" "q \<noteq> ?o" using D(5) q by auto
  have "find_player (tq_player tq) ?ts = None"
    unfolding find_player_def find_None_iff
  proof (intro notI, elim bexE exE conjE)
    fix r
    assume "r \<in> set (active_tqueues ?ts @ idle_tqueues ?ts)" "map_option tq_player (queues ?ts r) = Some (tq_player tq)"
    then obtain tr where "r \<noteq> q" "queues ts r = Some tr" "tq_player tr = tq_player tq"
      using p(2) by (auto simp: put_queue_simps split: if_splits)
    then show False using D(7) [of r tr q tq] q p(1) by simp
  qed
  then have f: "find_tqueue db (tq_player tq) ?ts = Some (?o, ?ts\<lparr>next_queue := ?o + 1,
      queues := (queues ?ts)(?o \<mapsto> new_tqueue (tq_player tq) flush), idle_tqueues := ?o # idle_tqueues ts\<rparr>)"
    using flush by (simp add: find_tqueue_def deactivate_tqueue_def put_queue_def new_tqueue_def Let_def)
  let ?m = "\<lambda>Q. ts\<lparr>next_queue := ?o + 1, idle_tqueues := ?o # idle_tqueues ts, queues := Q\<rparr>"
  have m: "move_bg_tasks q ?o (?m ((queues ts)(q \<mapsto> ?tq, ?o \<mapsto> (new_tqueue (tq_player tq) flush)\<lparr>tq_num_bg_tasks := tq_num_bg_tasks tq\<rparr>))) =
      Some (?m ((queues ts)(q \<mapsto> ?tq\<lparr>tq_bg := [], tq_num_bg_tasks := tq_num_bg_tasks tq - int (length (tq_bg tq))\<rparr>, ?o \<mapsto> left_behind tq flush)))"
    by (subst move_bg_tasks_exact) (use o in \<open>auto simp: left_behind_def new_tqueue_def fun_upd_twist\<close>)
  have "log_in_old db q new tq ts = Some (?m ((queues ts)(q \<mapsto> logged_in new tq None, ?o \<mapsto> left_behind tq flush)))"
    using False q o f m by (simp add: log_in_old_def set_queue_def put_queue_def logged_in_def fun_upd_twist)
  also have "?m ((queues ts)(q \<mapsto> logged_in new tq None, ?o \<mapsto> left_behind tq flush)) =
      patch [q \<mapsto> logged_in new tq None, ?o \<mapsto> left_behind tq flush] (?o # idle_tqueues ts) (?o + 1) ts"
    by (rule tasks.equality) (simp_all add: patch_def map_add_upd)
  finally show ?thesis using False by simp
qed

text \<open>All queues that change, and the invariant of the state with them.\<close>

definition dead_queue :: "tqueue \<Rightarrow> tqueue" where
  "dead_queue td = td\<lparr>tq_bg := [], tq_player := NOTHING, tq_num_bg_tasks := 0\<rparr>"

definition login_queues :: "objid \<Rightarrow> string option \<Rightarrow> nat \<Rightarrow> tqueue \<Rightarrow> nat list \<Rightarrow> (nat \<times> tqueue) option \<Rightarrow> nat \<Rightarrow> tqueue option" where
  "login_queues new flush q tq os dead r =
    (if r = q then Some (logged_in new tq (map_option snd dead))
     else if r \<in> set os then Some (left_behind tq flush)
     else case dead of Some (d, td) \<Rightarrow> if r = d then Some (dead_queue td) else None | None \<Rightarrow> None)"

lemma login_usage:
  assumes "queues ts q = Some tq" "\<And>r. r \<in> set os \<Longrightarrow> queues ts r = None" "\<And>d td. dead = Some (d, td) \<Longrightarrow> queues ts d = Some td"
  shows "usage_of (patch (login_queues new flush q tq os dead) idle n ts) r = usage_of ts r"
  by (rule patch_usage) (use assms in
    \<open>auto simp: login_queues_def usage_of_def logged_in_def left_behind_def new_tqueue_def dead_queue_def split: if_splits option.splits\<close>)

lemma login_state_inv:
  assumes inv: "tasks_inv L {} ts" and q: "queues ts q = Some tq" "q \<in> set (active_tqueues ts)"
    and p: "tq_player tq < 0" "tq_player tq \<noteq> NOTHING" "new \<ge> 0" "q \<noteq> n0"
    and os: "os = (if tq_num_bg_tasks tq = 0 then [] else [n0])" "next_queue ts \<le> n0"
    and dead: "case dead of Some (d, td) \<Rightarrow> queues ts d = Some td \<and> tq_player td = new \<and> L d = []
      | None \<Rightarrow> \<forall>r tr. queues ts r = Some tr \<longrightarrow> tq_player tr \<noteq> new"
  shows "tasks_inv L {} (patch (login_queues new flush q tq os dead) (os @ idle_tqueues ts) (n0 + length os) ts)"
proof (rule patch_inv [OF inv])
  let ?Q = "login_queues new flush q tq os dead"
  note D = tasks_invD [OF inv]
  have n0: "queues ts n0 = None" "L n0 = []" using D(5) [of n0] D(9) [of n0] os(2) by auto
  have new: "new \<noteq> NOTHING" "new \<noteq> tq_player tq" using p by (auto simp: NOTHING_def)
  have old: "tq_player tr \<noteq> tq_player tq" if "queues ts r = Some tr" "r \<noteq> q" for r tr
    using D(7) [OF that(1) q(1)] that(2) p(2) by auto
  have d: "d \<noteq> q \<and> d \<notin> set os \<and> queues ts d = Some td \<and> tq_player td = new \<and> L d = []" if "dead = Some (d, td)" for d td
    using dead that q(1) new n0 os by auto
  have other: "tq_player tr \<noteq> new" if "queues ts r = Some tr" "r \<noteq> q" "\<nexists>td. dead = Some (r, td)" for r tr
  proof (cases dead)
    case None
    then show ?thesis using dead that by auto
  next
    case (Some dt)
    then obtain e td where e: "dead = Some (e, td)" by (cases dt) auto
    then show ?thesis using D(7) [OF that(1), of e td] d [OF e] that(3) new by auto
  qed
  have players: "tq_player t = (if r = q then new else if r \<in> set os then tq_player tq else if \<exists>td. dead = Some (r, td) then NOTHING
      else tq_player (the (queues ts r)))" if "(queues ts ++ ?Q) r = Some t" for r t
    using that by (auto simp: login_queues_def map_add_def logged_in_def left_behind_def new_tqueue_def dead_queue_def split: option.splits if_splits)
  have in_ts: "queues ts r \<noteq> None" if "(queues ts ++ ?Q) r = Some t" "r \<noteq> q" "r \<notin> set os" "\<nexists>td. dead = Some (r, td)" for r t
    using that by (auto simp: login_queues_def map_add_def split: option.splits if_splits)
  show "distinct os" using os(1) by simp
  show "next_queue ts \<le> p \<and> p < n0 + length os \<and> (\<exists>t. ?Q p = Some t)" if "p \<in> set os" for p
    using that os p(4) by (auto simp: login_queues_def split: if_splits)
  show "next_queue ts \<le> n0 + length os" using os(2) by simp
  show "p \<in> set os \<or> queues ts p \<noteq> None" if "?Q p = Some t" for p t
    using that q(1) d by (auto simp: login_queues_def split: if_splits option.splits)
  show "tq_usage t = usage_of ts p" if "?Q p = Some t" for p t
    using that q(1) d n0 os(1)
    by (auto simp: login_queues_def usage_of_def logged_in_def left_behind_def new_tqueue_def dead_queue_def split: if_splits option.splits)
  show "r = r'" if t: "(queues ts ++ ?Q) r = Some t" "(queues ts ++ ?Q) r' = Some t'" "tq_player t = tq_player t'" "tq_player t \<noteq> NOTHING" for r r' t t'
  proof -
    have cls: "(r = q \<and> tq_player t = new) \<or> (r = n0 \<and> os = [n0] \<and> tq_player t = tq_player tq) \<or>
      (r \<noteq> q \<and> (\<exists>tr. queues ts r = Some tr \<and> tq_player t = tq_player tr \<and> tq_player tr \<noteq> new \<and> tq_player tr \<noteq> tq_player tq))"
      if "(queues ts ++ ?Q) r = Some t" "tq_player t \<noteq> NOTHING" for r t
      using players [OF that(1)] in_ts [OF that(1)] that(2) os(1) other [of r] old [of r] by (auto split: if_splits)
    show ?thesis using cls [OF t(1,4)] cls [OF t(2)] t(3,4) new D(7) by metis
  qed
  show "queue_ok (inputs ts) (waiting_tasks ts) (L r) t" if t: "?Q r = Some t" for r t
  proof -
    consider "r = q" "t = logged_in new tq (map_option snd dead)" | "r = n0" "os = [n0]" "t = left_behind tq flush"
      | td where "dead = Some (r, td)" "t = dead_queue td"
      using t os(1) by (auto simp: login_queues_def split: if_splits option.splits)
    then show ?thesis
    proof cases
      case 1
      have "tq_num_bg_tasks t = int (length (tq_bg t)) + waiting_for new (waiting_tasks ts)"
      proof (cases dead)
        case None
        have "waiting_for new (waiting_tasks ts) = 0" using D(14) dead None new(1) by (intro not_waiting) force
        then show ?thesis using 1 None by (simp add: logged_in_def)
      next
        case (Some dt)
        then obtain e td where e: "dead = Some (e, td)" by (cases dt) auto
        then show ?thesis using queue_okD(5) [OF D(8)] d [OF e] new(1) 1 by (auto simp: logged_in_def)
      qed
      then show ?thesis using D(8) [OF q(1)] 1 by (simp add: queue_ok_def logged_in_def iqueue_ok_def lengths_ok_def)
    next
      case 2
      then show ?thesis
        using queue_okD(5) [OF D(8) [OF q(1)] p(2)] n0
        by (simp add: queue_ok_def left_behind_def new_tqueue_def iqueue_ok_def rear_def lengths_ok_def to_int32_def)
    next
      case 3
      then show ?thesis using D(8) [of r td] d by (simp add: queue_ok_def dead_queue_def iqueue_ok_def lengths_ok_def)
    qed
  qed
  show "\<exists>r t. (queues ts ++ ?Q) r = Some t \<and> tq_player t = bg_progr w" if w: "w \<in> set (waiting_tasks ts)" "bg_progr w \<noteq> NOTHING" for w
  proof -
    obtain r tr where r: "queues ts r = Some tr" "tq_player tr = bg_progr w" using D(14) [OF w] by blast
    have there: "\<exists>r t. (queues ts ++ ?Q) r = Some t \<and> tq_player t = x" if "?Q s = Some u" "tq_player u = x" for s u x
      using that by (intro exI [of _ s] exI [of _ u]) simp
    consider "bg_progr w = new" | "r = q" | "r \<noteq> q" "bg_progr w \<noteq> new" by blast
    then show ?thesis
    proof cases
      case 1
      show ?thesis by (rule there [of q "logged_in new tq (map_option snd dead)"]) (use 1 in \<open>auto simp: login_queues_def logged_in_def\<close>)
    next
      case 2
      have "tq_num_bg_tasks tq \<noteq> 0"
      proof
        assume "tq_num_bg_tasks tq = 0"
        then have "waiting_for (tq_player tq) (waiting_tasks ts) = 0"
          using queue_okD(5) [OF D(8) [OF q(1)] p(2)] waiting_for_nonneg [of "tq_player tq" "waiting_tasks ts"] by linarith
        then show False using w(1) r 2 q(1) by (auto simp: waiting_for_zero)
      qed
      then have "os = [n0]" using os(1) by simp
      show ?thesis by (rule there [of n0 "left_behind tq flush"]) (use \<open>os = [n0]\<close> p(4) 2 r q(1) in \<open>auto simp: login_queues_def left_behind_def new_tqueue_def\<close>)
    next
      case 3
      have nd: "dead \<noteq> Some (r, td)" for td
      proof
        assume "dead = Some (r, td)"
        from d [OF this] show False using 3(2) r by simp
      qed
      have "r \<notin> set os" using r n0(1) os(1) by (auto split: if_splits)
      then have "?Q r = None" using 3(1) nd [of "snd (the dead)"] by (cases dead) (auto simp: login_queues_def split: if_splits)
      then show ?thesis using r by (intro exI [of _ r] exI [of _ tr]) (simp add: map_add_def)
    qed
  qed
  show "\<not> due (inputs ts) (L r) t" if t: "?Q r = Some t" "r \<in> set (os @ idle_tqueues ts)" for r t
  proof -
    have "r \<noteq> q" using t(2) q(2) D(3) os p(4) by (auto split: if_splits)
    then consider "r = n0" "t = left_behind tq flush" | td where "dead = Some (r, td)" "t = dead_queue td" "r \<in> set (idle_tqueues ts)"
      using t os(1) by (auto simp: login_queues_def split: if_splits option.splits)
    then show ?thesis
    proof cases
      case 1
      then show ?thesis using n0 p(1) by (simp add: due_def left_behind_def new_tqueue_def)
    next
      case 2
      then show ?thesis using D(13) [of r td] d by (simp add: due_def dead_queue_def)
    qed
  qed
qed

theorem log_in_inv:
  assumes inv: "tasks_inv L {} ts" and flush: "default_flush_command db = Some flush"
    and q: "queues ts q = Some tq" "q \<in> set (active_tqueues ts)" and p: "tq_player tq < 0" "tq_player tq \<noteq> NOTHING" "new \<ge> 0"
  obtains ts' L' where "log_in db q new ts = Some ts'" "tasks_inv L' {} ts'" "waiting_tasks ts' = waiting_tasks ts"
    "active_tqueues ts' = active_tqueues ts" "\<And>r. usage_of ts' r = usage_of ts r"
proof -
  define os where "os = (if tq_num_bg_tasks tq = 0 then [] else [next_queue ts])"
  note D = tasks_invD [OF inv]
  have fresh: "queues ts (next_queue ts) = None" "q \<noteq> next_queue ts" using D(5) q(1) by auto
  let ?idle = "os @ idle_tqueues ts" and ?n = "next_queue ts + length os"
  let ?P = "\<lambda>dead. patch (login_queues new flush q tq os dead) ?idle ?n"
  have new: "tq_player tq \<noteq> new" using p by simp
  have old: "log_in_old db q new tq ts = Some (?P None ts)"
  proof -
    have "(\<lambda>r. if r = q then Some (logged_in new tq None) else None) = [q \<mapsto> logged_in new tq None]" by auto
    then show ?thesis
      using log_in_old_exact [OF inv flush q(1) p(2) new] fresh
      by (auto simp: os_def login_queues_def fun_eq_iff intro!: arg_cong [of _ _ "\<lambda>Q. patch Q _ _ _"])
  qed
  have split: "log_in db q new ts = (case log_in_old db q new tq ts of None \<Rightarrow> None | Some ts1 \<Rightarrow>
      (case find_player new ts of None \<Rightarrow> Some ts1
       | Some d \<Rightarrow> (do {
           n \<leftarrow> num_bg d ts1;
           ts \<leftarrow> set_queue q (\<lambda>tq. tq\<lparr>tq_num_bg_tasks := n\<rparr>) ts1;
           ts \<leftarrow> flush_lines d False ts;
           ts \<leftarrow> move_bg_tasks d q ts;
           set_queue d (\<lambda>d. d\<lparr>tq_player := NOTHING, tq_num_bg_tasks := 0\<rparr>) ts
         })))"
    using q(1) by (auto simp: log_in_def log_in_old_def split: bind_split option.split)
  show ?thesis
  proof (cases "find_player new ts")
    case None
    have "tasks_inv L {} (?P None ts)"
      by (rule login_state_inv [OF inv q p fresh(2) os_def order_refl]) (use find_player_none [OF inv None] in auto)
    then show ?thesis
      by (intro that [of "?P None ts"]) (use split old None login_usage [OF q(1), of os None] fresh(1) os_def in \<open>auto split: if_splits\<close>)
  next
    case (Some d)
    then obtain td where d: "queues ts d = Some td" "tq_player td = new" by (rule find_player_some)
    have dq: "d \<noteq> q" "d \<notin> set os" using d q(1) new fresh(1) os_def by auto
    let ?Q = "(login_queues new flush q tq os None)(q \<mapsto> (logged_in new tq None)\<lparr>tq_num_bg_tasks := tq_num_bg_tasks td\<rparr>)"
    have Qd: "login_queues new flush q tq os None d = None" "?Q d = None" using dq by (auto simp: login_queues_def)
    obtain ts1 td1 where f: "flush_lines d False (patch ?Q ?idle ?n ts) = Some (patch ?Q ?idle ?n ts1)"
      "tasks_inv (L(d := [])) {} ts1" "queues ts1 = (queues ts)(d \<mapsto> td1)" "waiting_tasks ts1 = waiting_tasks ts"
      "idle_tqueues ts1 = idle_tqueues ts" "active_tqueues ts1 = active_tqueues ts" "tq_player td1 = new" "tq_bg td1 = tq_bg td"
      "tq_num_bg_tasks td1 = tq_num_bg_tasks td" "next_queue ts1 = next_queue ts" "tq_usage td1 = tq_usage td"
      using flush_patch [where Q = ?Q and idle = ?idle and n = ?n, OF inv d(1) Qd(2)] d(2) by auto
    have q1: "queues ts1 q = Some tq" "q \<in> set (active_tqueues ts1)" using f(3,6) dq q by auto
    let ?Q1 = "login_queues new flush q tq os (Some (d, td1))"
    have n1: "next_queue ts1 \<le> next_queue ts" using f(10) by simp
    have i: "tasks_inv (L(d := [])) {} (patch ?Q1 (os @ idle_tqueues ts1) ?n ts1)"
      by (rule login_state_inv [OF f(2) q1 p fresh(2) os_def n1]) (use f(3,7) in auto)
    have "queues (patch (login_queues new flush q tq os None) ?idle ?n ts) d = Some td" using Qd d(1) by (simp add: map_add_def)
    moreover have "set_queue q (\<lambda>tq. tq\<lparr>tq_num_bg_tasks := tq_num_bg_tasks td\<rparr>) (?P None ts) = Some (patch ?Q ?idle ?n ts)"
    proof -
      have "queues (?P None ts) q = Some (logged_in new tq None)" by (simp add: login_queues_def)
      then show ?thesis by (simp add: set_queue_def put_queue_def patch_def map_add_upd)
    qed
    moreover have "do { ts \<leftarrow> move_bg_tasks d q (patch ?Q ?idle ?n ts1); set_queue d (\<lambda>d. d\<lparr>tq_player := NOTHING, tq_num_bg_tasks := 0\<rparr>) ts } =
        Some (patch ?Q1 ?idle ?n ts1)"
    proof -
      let ?ts = "patch ?Q ?idle ?n ts1"
      let ?td = "td1\<lparr>tq_bg := [], tq_num_bg_tasks := tq_num_bg_tasks td1 - int (length (tq_bg td1))\<rparr>"
      have 1: "queues ?ts d = Some td1" using f(3) Qd(2) by (simp add: map_add_def)
      have 2: "queues ?ts q = Some ((logged_in new tq None)\<lparr>tq_num_bg_tasks := tq_num_bg_tasks td\<rparr>)" by simp
      have 3: "(logged_in new tq None)\<lparr>tq_num_bg_tasks := tq_num_bg_tasks td, tq_bg := tq_bg td1\<rparr> = logged_in new tq (Some td1)"
        using f(9) by (simp add: logged_in_def)
      have 4: "((queues ts1 ++ ?Q)(d \<mapsto> dead_queue td1, q \<mapsto> logged_in new tq (Some td1))) = queues ts1 ++ ?Q1"
        using dq by (auto simp: fun_eq_iff login_queues_def map_add_def split: option.split)
      have "move_bg_tasks d q ?ts = Some (?ts\<lparr>queues := (queues ?ts)(d \<mapsto> ?td, q \<mapsto> logged_in new tq (Some td1))\<rparr>)"
        using move_bg_tasks_exact [OF dq(1) 1 2] 3 by (simp add: logged_in_def)
      then show ?thesis using dq 4
        by (simp add: set_queue_def put_queue_def patch_def dead_queue_def fun_upd_twist)
    qed
    ultimately have "log_in db q new ts = Some (patch ?Q1 ?idle ?n ts1)"
      using split old Some f(1) by (simp add: num_bg_def)
    then show ?thesis
    proof (rule that [OF _ i [unfolded f(5)]])
      show "usage_of (patch ?Q1 ?idle ?n ts1) r = usage_of ts r" for r
        using login_usage [OF q1(1), of os "Some (d, td1)" new flush ?idle ?n r] f(3,11) d(1) fresh(1) os_def dq
        by (auto simp: usage_of_def split: if_splits)
    qed (use f in simp_all)
  qed
qed

end
