(* ===== verification/TaskMoves.thy ===== *)
theory TaskMoves
  imports TaskLogin
begin

text \<open>
  The operations on the queues of tasks as one relation, and what every one of them leaves alone: the queues at the head of the list
  of active queues that have used the same least time stay there, in their order.
\<close>

subsection \<open>What stays\<close>

definition strings_ok :: "tasks \<Rightarrow> bool" where
  "strings_ok ts \<longleftrightarrow> (\<forall>a t. inputs ts a = Some t \<longrightarrow> c_string (it_string t)) \<and>
     (\<forall>q tq. queues ts q = Some tq \<longrightarrow> c_string (tq_program_verb tq))"

definition frame :: "tasks \<Rightarrow> tasks \<Rightarrow> bool" where
  "frame ts ts' \<longleftrightarrow>
     (\<forall>ps qs. active_tqueues ts = ps @ qs \<longrightarrow> (\<forall>p \<in> set ps. usage_of ts p = usage_of ts (hd ps)) \<longrightarrow>
        (\<exists>qs'. active_tqueues ts' = ps @ qs') \<and> (\<forall>p \<in> set ps. usage_of ts' p = usage_of ts p)) \<and>
     (\<forall>B \<ge> 0. (\<forall>q. usage_of ts q \<le> B) \<longrightarrow> (\<forall>q. usage_of ts' q \<le> B)) \<and>
     (\<forall>q tq. queues ts q = Some tq \<longrightarrow> (\<exists>tq'. queues ts' q = Some tq' \<and> tq_player tq' = tq_player tq)) \<and>
     (strings_ok ts \<longrightarrow> strings_ok ts') \<and> random_numbers ts' = random_numbers ts"

lemma frameD:
  assumes "frame ts ts'"
  shows "active_tqueues ts = ps @ qs \<Longrightarrow> \<forall>p \<in> set ps. usage_of ts p = usage_of ts (hd ps) \<Longrightarrow> \<exists>qs'. active_tqueues ts' = ps @ qs'"
    "active_tqueues ts = ps @ qs \<Longrightarrow> \<forall>p \<in> set ps. usage_of ts p = usage_of ts (hd ps) \<Longrightarrow> p \<in> set ps \<Longrightarrow> usage_of ts' p = usage_of ts p"
    "B \<ge> 0 \<Longrightarrow> (\<And>q. usage_of ts q \<le> B) \<Longrightarrow> usage_of ts' q \<le> B"
    "queues ts q = Some tq \<Longrightarrow> \<exists>tq'. queues ts' q = Some tq' \<and> tq_player tq' = tq_player tq"
    "strings_ok ts \<Longrightarrow> strings_ok ts'" "random_numbers ts' = random_numbers ts"
  using assms unfolding frame_def by blast+

lemma frame_refl [simp]: "frame ts ts"
  by (simp add: frame_def)

lemma frame_trans:
  assumes a: "frame ts ts1" and b: "frame ts1 ts2"
  shows "frame ts ts2"
  unfolding frame_def
proof (intro conjI allI impI)
  fix ps qs
  assume ps: "active_tqueues ts = ps @ qs" "\<forall>p \<in> set ps. usage_of ts p = usage_of ts (hd ps)"
  obtain qs1 where q1: "active_tqueues ts1 = ps @ qs1" using frameD(1) [OF a ps] by blast
  have u1: "\<forall>p \<in> set ps. usage_of ts1 p = usage_of ts p" using frameD(2) [OF a ps] by blast
  then have ps1: "\<forall>p \<in> set ps. usage_of ts1 p = usage_of ts1 (hd ps)"
  proof (intro ballI)
    fix p assume p: "p \<in> set ps"
    have "hd ps \<in> set ps" using p by (cases ps) auto
    then have "usage_of ts1 (hd ps) = usage_of ts (hd ps)" using u1 by blast
    moreover have "usage_of ts1 p = usage_of ts p" "usage_of ts p = usage_of ts (hd ps)" using u1 ps(2) p by blast+
    ultimately show "usage_of ts1 p = usage_of ts1 (hd ps)" by simp
  qed
  show "\<exists>qs'. active_tqueues ts2 = ps @ qs'" using frameD(1) [OF b q1 ps1] .
  show "\<forall>p \<in> set ps. usage_of ts2 p = usage_of ts p" using frameD(2) [OF b q1 ps1] u1 by simp
next
  show "usage_of ts2 q \<le> B" if "B \<ge> 0" "\<forall>q. usage_of ts q \<le> B" for B q
    using frameD(3) [OF b that(1)] frameD(3) [OF a that(1)] that(2) by blast
  show "\<exists>tq'. queues ts2 q = Some tq' \<and> tq_player tq' = tq_player tq" if "queues ts q = Some tq" for q tq
    using frameD(4) [OF a that] frameD(4) [OF b, of q] by fastforce
  show "strings_ok ts2" if "strings_ok ts" using frameD(5) a b that by blast
  show "random_numbers ts2 = random_numbers ts" using frameD(6) a b by metis
qed

lemma frame_inputs:
  assumes "queues ts' = queues ts" "active_tqueues ts' = active_tqueues ts" "random_numbers ts' = random_numbers ts"
    and i: "strings_ok ts \<Longrightarrow> \<forall>a t. inputs ts' a = Some t \<longrightarrow> c_string (it_string t)"
  shows "frame ts ts'"
proof -
  have "usage_of ts' = usage_of ts" using assms(1) by (simp add: usage_of_def fun_eq_iff)
  moreover have "strings_ok ts \<longrightarrow> strings_ok ts'" using i assms(1) by (auto simp: strings_ok_def)
  ultimately show ?thesis using assms(1-3) by (simp add: frame_def)
qed

lemma frame_other:
  assumes "queues ts' = queues ts" "active_tqueues ts' = active_tqueues ts" "inputs ts' = inputs ts" "random_numbers ts' = random_numbers ts"
  shows "frame ts ts'"
proof -
  have "usage_of ts' = usage_of ts" using assms(1) by (simp add: usage_of_def fun_eq_iff)
  then show ?thesis using assms by (simp add: frame_def strings_ok_def)
qed

lemma frame_put:
  assumes q: "queues ts q = Some tq" and same: "tq_usage tq' = tq_usage tq" "tq_player tq' = tq_player tq"
    "tq_program_verb tq' = tq_program_verb tq \<or> c_string (tq_program_verb tq')"
  shows "frame ts (put_queue q tq' ts)"
proof -
  have "usage_of (put_queue q tq' ts) = usage_of ts" using q same(1) by (intro ext) (simp add: usage_of_put, simp add: usage_of_def)
  moreover have "strings_ok ts \<Longrightarrow> strings_ok (put_queue q tq' ts)" using q same(3) by (auto simp: strings_ok_def put_queue_simps)
  moreover have "random_numbers (put_queue q tq' ts) = random_numbers ts" by (simp add: put_queue_def)
  ultimately show ?thesis using q same(2) by (simp add: frame_def put_queue_simps)
qed

lemma insert_behind: "(\<And>p. p \<in> set ps \<Longrightarrow> u p \<le> u q) \<Longrightarrow> insert_by_usage u q (ps @ qs) = ps @ insert_by_usage u q qs"
  by (induction ps) auto

lemma frame_ensure:
  assumes e: "ensure_usage q ts = Some ts'"
  shows "frame ts ts'"
proof (cases "queues ts q")
  case (Some tq)
  show ?thesis
  proof (cases "tq_usage tq = NO_USAGE")
    case False
    then show ?thesis using e Some by (simp add: ensure_usage_def)
  next
    case True
    define u where "u = (case active_tqueues ts of [] \<Rightarrow> 0 | p # _ \<Rightarrow> usage_of ts p)"
    let ?ts = "(put_queue q (tq\<lparr>tq_usage := u\<rparr>) ts)\<lparr>idle_tqueues := remove1 q (idle_tqueues ts)\<rparr>"
    have ts': "ts' = activate_tqueue q ?ts" using e Some True by (simp add: ensure_usage_def u_def put_queue_def)
    have uo: "usage_of ts' p = (if p = q then u else usage_of ts p)" "usage_of ?ts p = (if p = q then u else usage_of ts p)" for p
      by (simp_all add: ts' activate_tqueue_def usage_of_upd(2,3) usage_of_put)
    show ?thesis
      unfolding frame_def
    proof (intro conjI allI impI)
      fix ps qs
      assume ps: "active_tqueues ts = ps @ qs" "\<forall>p \<in> set ps. usage_of ts p = usage_of ts (hd ps)"
      have up: "usage_of ts p = u" if "p \<in> set ps" for p using that ps by (cases ps) (auto simp: u_def)
      have "active_tqueues ts' = insert_by_usage (usage_of ?ts) q (ps @ qs)" by (simp add: ts' activate_tqueue_def put_queue_def ps(1))
      also have "\<dots> = ps @ insert_by_usage (usage_of ?ts) q qs" by (rule insert_behind) (use up in \<open>simp add: uo\<close>)
      finally show "\<exists>qs'. active_tqueues ts' = ps @ qs'" by blast
      show "\<forall>p \<in> set ps. usage_of ts' p = usage_of ts p" using up uo(1) by simp
    next
      show "usage_of ts' p \<le> B" if "B \<ge> 0" "\<forall>q. usage_of ts q \<le> B" for B p
        using that uo(1) by (auto simp: u_def split: list.split)
      show "\<exists>tr'. queues ts' r = Some tr' \<and> tq_player tr' = tq_player tr" if "queues ts r = Some tr" for r tr
        using that Some by (auto simp: ts' activate_tqueue_def put_queue_def)
      show "strings_ok ts'" if "strings_ok ts" using that Some by (auto simp: ts' activate_tqueue_def put_queue_def strings_ok_def)
      show "random_numbers ts' = random_numbers ts" by (simp add: ts' activate_tqueue_def put_queue_def)
    qed
  qed
qed (use e in \<open>simp add: ensure_usage_def\<close>)

lemma frame_find:
  assumes f: "find_tqueue db p ts = Some (q, ts')" and inv: "tasks_inv L X ts"
  shows "frame ts ts'"
proof (cases "find_player p ts")
  case None
  have fresh: "queues ts (next_queue ts) = None" using tasks_invD(5) [OF inv] by simp
  obtain fl where "ts' = ts\<lparr>next_queue := next_queue ts + 1, queues := (queues ts)(next_queue ts \<mapsto> (new_tqueue p fl)\<lparr>tq_usage := NO_USAGE\<rparr>),
      idle_tqueues := next_queue ts # idle_tqueues ts\<rparr>"
    using f None by (auto simp: find_tqueue_def deactivate_tqueue_def put_queue_def Let_def split: bind_splits)
  moreover from this have "usage_of ts' = usage_of ts" using fresh by (auto simp: usage_of_def fun_eq_iff)
  ultimately show ?thesis using fresh by (auto simp: frame_def strings_ok_def new_tqueue_def c_string_def)
qed (use f in \<open>simp add: find_tqueue_def\<close>)

lemma frame_bg: "enqueue_bg_task q t ts = Some ts' \<Longrightarrow> frame ts ts'"
  by (auto simp: enqueue_bg_task_def intro!: frame_put)

lemma frame_net [simp]: "frame ts ts' \<Longrightarrow> frame ts (call_net c ts')"
  by (erule frame_trans) (simp add: frame_other call_net_def)

lemma frame_from_net: "frame (call_net c ts) ts' \<Longrightarrow> frame ts ts'"
  by (rule frame_trans [of ts "call_net c ts"]) simp_all

lemma frame_free: "frame ts ts' \<Longrightarrow> frame ts (free_input a ts')"
  by (erule frame_trans) (rule frame_inputs, auto simp: free_input_def strings_ok_def)

text \<open>Taking a line out keeps the texts of all lines, but for a quote at the beginning.\<close>

lemma take_input_contents:
  assumes "iqueue_ok h q as" "take_input how h q = Some (r, h', q')"
  shows "contents h' = contents h \<and> iqueue.more q' = iqueue.more q"
proof (cases "find (\<lambda>a. wanted how (disable_oob q) (kind_of h a)) as")
  case None
  then show ?thesis using take_input_ok [OF assms(1), of how] assms(2) by simp
next
  case (Some a)
  then show ?thesis using take_input_ok [OF assms(1), of how] assms(2) by (auto dest: same_restD)
qed

lemma dequeue_strings:
  assumes inv: "tasks_inv L X ts" and e: "dequeue_input_task q how ts = Some (r, ts')"
  shows "(strings_ok ts \<longrightarrow> strings_ok ts') \<and> random_numbers ts' = random_numbers ts"
proof (cases "queues ts q")
  case (Some tq)
  obtain x h tq1 where t: "take_input how (inputs ts) tq = Some (x, h, tq1)" using e Some by (auto simp: dequeue_input_task_def bind_eq_Some_conv)
  note c = take_input_contents [OF queue_okD(1) [OF tasks_invD(8) [OF inv Some]] t]
  have h: "c_string (it_string u)" if "strings_ok ts" "h b = Some u" for b u
    using that fun_cong [OF conjunct1 [OF c], of b] by (cases "inputs ts b") (auto simp: contents_def strings_ok_def)
  have pv: "c_string (tq_program_verb tq1)" if "strings_ok ts"
  proof -
    have "tq_program_verb tq1 = tq_program_verb tq" using c by (cases tq, cases tq1, simp)
    then show ?thesis using that Some by (auto simp: strings_ok_def)
  qed
  have drop: "c_string (drop n s)" if "c_string s" for n s using that by (auto simp: c_string_def dest: in_set_dropD)
  have taken: "c_string (it_string (taken_kind tq1 u))" if "strings_ok ts" "h b = Some u" for b u
    using h [OF that] drop by (auto simp: taken_kind_def split: task_kind.split)
  have old: "c_string (tq_program_verb u)" if "strings_ok ts" "queues ts b = Some u" for b u using that by (auto simp: strings_ok_def)
  show ?thesis
  proof (cases x)
    case None
    then show ?thesis using e Some t by (simp add: dequeue_input_task_def)
  next
    case x: (Some a)
    have e2: "(uncount_input a (h, tq1) \<bind> (\<lambda>(h, tq). h a \<bind> (\<lambda>t. let resume = (tq_input_suspended tq \<and> tq_connected tq \<and>
        total_input_length tq < INPUT_LOWAT); ts = (put_queue q (if resume then tq\<lparr>tq_input_suspended := False\<rparr> else tq) ts)\<lparr>inputs := h\<rparr>
      in Some (Some (a, t), if resume then call_net (Server_resume_input (tq_player tq)) ts else ts)))) = Some (r, ts')"
      using e Some t x by (simp add: dequeue_input_task_def)
    then obtain u where u: "h a = Some u" by (cases "h a") (simp_all add: uncount_input_def)
    define tq2 where "tq2 = tq1\<lparr>total_input_length := to_int32 (total_input_length tq1 - it_length u)\<rparr>"
    define tq3 where "tq3 = (if tq_input_suspended tq2 \<and> tq_connected tq2 \<and> total_input_length tq2 < INPUT_LOWAT
      then tq2\<lparr>tq_input_suspended := False\<rparr> else tq2)"
    have "inputs ts' = h(a \<mapsto> taken_kind tq1 u)" "queues ts' = (queues ts)(q \<mapsto> tq3)" "random_numbers ts' = random_numbers ts"
      using e2 u by (simp_all add: uncount_input_def Let_def put_queue_def call_net_def flip: tq2_def) (auto simp: tq3_def call_net_def)
    moreover have "tq_program_verb tq3 = tq_program_verb tq1" by (simp add: tq3_def tq2_def)
    moreover have "c_string (it_string w)" if "strings_ok ts" "(h(a \<mapsto> taken_kind tq1 u)) b = Some w" for b w
      using that h [OF that(1), of b w] taken [OF that(1) u] by (cases "b = a") auto
    moreover have "c_string (tq_program_verb w)" if "strings_ok ts" "((queues ts)(q \<mapsto> tq3)) b = Some w" for b w
      using that old [OF that(1), of b w] pv [OF that(1)] calculation(4) by (cases "b = q") auto
    ultimately show ?thesis unfolding strings_ok_def [of ts'] by simp
  qed
qed (use e in \<open>simp add: dequeue_input_task_def\<close>)

lemma frame_dequeue:
  assumes "tasks_inv L X ts" "dequeue_input_task q how ts = Some (r, ts')"
  shows "frame ts ts'"
proof (cases "queues ts q")
  case (Some tq)
  show ?thesis
  proof (rule dequeue_input_inv [OF assms(1) Some, of how])
    fix a t ts1 tq1
    assume s: "dequeue_input_task q how ts = Some (Some (a, t), ts1)" "queues ts1 = (queues ts)(q \<mapsto> tq1)"
      "tq_player tq1 = tq_player tq" "active_tqueues ts1 = active_tqueues ts" "tq_usage tq1 = tq_usage tq"
    have "usage_of ts1 = usage_of ts" using s(2,5) Some by (auto simp: usage_of_def fun_eq_iff)
    then show ?thesis using assms(2) s(1-4) Some dequeue_strings [OF assms] by (simp add: frame_def)
  qed (use assms(2) in simp)
qed (use assms(2) in \<open>simp add: dequeue_input_task_def\<close>)

lemma frame_enqueue_input:
  assumes inv: "tasks_inv L X ts" and e: "enqueue_input_task q input at_front binary ts = Some ts'" and c: "c_string input"
  shows "frame ts ts'"
proof (cases "queues ts q")
  case (Some tq)
  note D = tasks_invD [OF inv]
  have ok: "queue_ok (inputs ts) (waiting_tasks ts) (L q) tq" using D(8) [OF Some] .
  obtain h tq1 where a: "add_input (next_input ts) input at_front binary (inputs ts) tq = Some (h, tq1)" "iqueue.more tq1 = iqueue.more tq"
    "contents h = (contents (inputs ts))(next_input ts \<mapsto> (input_kind binary input, input, to_int32 (int (length input))))"
    by (rule add_input_ok [OF queue_okD(1) [OF ok], of "next_input ts" input at_front binary]) (use D(11) in auto)
  have same: "tq_usage tq1 = tq_usage tq" "tq_player tq1 = tq_player tq" "tq_program_verb tq1 = tq_program_verb tq" using a(2) by (cases tq, cases tq1, simp)+
  let ?ts = "(put_queue q tq1 ts)\<lparr>inputs := h, next_input := Suc (next_input ts)\<rparr>"
  have 1: "frame ts ?ts"
  proof (rule frame_trans [OF frame_put [OF Some same(1,2) disjI1 [OF same(3)]]], rule frame_inputs)
    assume st: "strings_ok (put_queue q tq1 ts)"
    show "\<forall>b t. inputs ?ts b = Some t \<longrightarrow> c_string (it_string t)"
    proof (intro allI impI)
      fix b t
      assume "inputs ?ts b = Some t"
      then have "h b = Some t" by simp
      with fun_cong [OF a(3), of b] st c show "c_string (it_string t)"
        by (cases "b = next_input ts"; cases "inputs ts b") (auto simp: contents_def strings_ok_def put_queue_simps)
    qed
  qed (simp_all add: put_queue_def)
  define W where "W \<longleftrightarrow> \<not> tq_hold_input tq1 \<or> tq_reading tq1 \<noteq> None \<or> (\<not> disable_oob tq1 \<and> input_kind binary input = TASK_OOB)"
  have "\<exists>ts2. (if W then ensure_usage q ?ts else Some ?ts) = Some ts2 \<and> (\<exists>tq2. queues ts2 q = Some tq2 \<and>
    (if \<not> tq_input_suspended tq2 \<and> tq_connected tq2 \<and> total_input_length tq2 > INPUT_HIWAT
       then call_net (Server_suspend_input (tq_player tq2)) (put_queue q (tq2\<lparr>tq_input_suspended := True\<rparr>) ts2) else ts2) = ts')"
    using e Some a(1) by (simp add: enqueue_input_task_def Let_def W_def bind_eq_Some_conv split del: if_split)
  then obtain ts2 tq2 where w: "(if W then ensure_usage q ?ts else Some ?ts) = Some ts2" and 2: "queues ts2 q = Some tq2"
    "ts' = (if \<not> tq_input_suspended tq2 \<and> tq_connected tq2 \<and> total_input_length tq2 > INPUT_HIWAT
       then call_net (Server_suspend_input (tq_player tq2)) (put_queue q (tq2\<lparr>tq_input_suspended := True\<rparr>) ts2) else ts2)"
    by blast
  have 3: "frame ?ts ts2" using w frame_ensure [of q ?ts ts2] by (cases W) auto
  have "frame ts2 ts'" using frame_put [OF 2(1), of "tq2\<lparr>tq_input_suspended := True\<rparr>"] by (simp add: 2(2))
  then show ?thesis using 1 3 frame_trans by blast
qed (use e in \<open>simp add: enqueue_input_task_def\<close>)

lemma frame_flush_lines:
  assumes "tasks_inv L X ts" "queues ts q = Some tq" "flush_lines q b ts = Some ts'"
  shows "frame ts ts'"
  using assms
proof (induction "length (L q)" arbitrary: L ts tq rule: less_induct)
  case less
  show ?case
  proof (rule dequeue_input_inv [OF less.prems(1,2), of DQ_FIRST])
    assume "dequeue_input_task q DQ_FIRST ts = Some (None, ts)"
    then show ?thesis using less.prems(3) by (subst (asm) flush_lines.simps) simp
  next
    fix a t ts1 tq1
    assume s: "find (\<lambda>a. wanted DQ_FIRST (disable_oob tq) (kind_of (inputs ts) a)) (L q) = Some a"
      "dequeue_input_task q DQ_FIRST ts = Some (Some (a, t), ts1)"
      "tasks_inv (L(q := remove1 a (L q))) X ts1" "queues ts1 = (queues ts)(q \<mapsto> tq1)"
      "\<And>p b. b \<in> set ((L(q := remove1 a (L q))) p) \<Longrightarrow> b \<noteq> a"
    let ?L = "L(q := remove1 a (L q))"
    let ?ts0 = "if b then call_net (Notify (tq_player tq1) (''>>     '' @ it_string t)) ts1 else ts1"
    have "a \<in> set (L q)" using s(1) by (auto simp: find_Some_iff)
    then have short: "length (?L q) < length (L q)" using length_pos_if_in_set [of a "L q"] by (simp add: length_remove1)
    have "tasks_inv ?L X ?ts0" using s(3) by simp
    then have i: "tasks_inv ?L X (free_input a ?ts0)" by (rule free_input_inv) (rule s(5))
    have q: "queues (free_input a ?ts0) q = Some tq1" using s(4) by (simp add: free_input_def call_net_def)
    have "flush_lines q b (free_input a ?ts0) = Some ts'" using less.prems(3) s(2,4) by (subst (asm) flush_lines.simps) simp
    then have "frame (free_input a ?ts0) ts'" by (rule less.hyps [OF short i q])
    moreover have "frame ts (free_input a ?ts0)" by (rule frame_free) (use frame_dequeue [OF less.prems(1) s(2)] in auto)
    ultimately show ?thesis using frame_trans by blast
  qed
qed

lemma frame_flush_input:
  assumes inv: "tasks_inv L X ts" and f: "flush_input q b ts = Some ts'"
  shows "frame ts ts'"
proof (cases "queues ts q")
  case (Some tq)
  let ?ts = "if b then call_net (Notify (tq_player tq) ''>> Flushing the following pending input:'') ts else ts"
  have "tasks_inv L X ?ts" using inv by simp
  moreover have "queues ?ts q = Some tq" using Some by (simp add: call_net_def)
  ultimately have "frame ?ts r" if "flush_lines q b ?ts = Some r" for r using frame_flush_lines that by blast
  then have "frame ts r" if "flush_lines q b ?ts = Some r" for r using that by (cases b) (auto intro: frame_from_net)
  then show ?thesis using f Some by (auto simp: flush_input_def Let_def split: if_splits)
qed (use f in \<open>simp add: flush_input_def\<close>)

lemma frame_enqueue_waiting:
  assumes inv: "tasks_inv L X ts" and e: "enqueue_waiting db t ts = Some ts'"
  shows "frame ts ts'"
proof -
  obtain q ts1 tq where f: "find_tqueue db (bg_progr t) ts = Some (q, ts1)" "queues ts1 q = Some tq"
    "ts' = (put_queue q (tq\<lparr>tq_num_bg_tasks := tq_num_bg_tasks tq + 1\<rparr>) ts1)\<lparr>waiting_tasks := insert_waiting t (waiting_tasks ts1)\<rparr>"
    using e by (auto simp: enqueue_waiting_def bind_eq_Some_conv)
  have "frame ts1 (put_queue q (tq\<lparr>tq_num_bg_tasks := tq_num_bg_tasks tq + 1\<rparr>) ts1)" by (rule frame_put [OF f(2)]) simp_all
  then have "frame ts1 ts'" unfolding f(3) by (rule frame_trans) (rule frame_other, simp_all)
  then show ?thesis using frame_find [OF f(1) inv] frame_trans by blast
qed

lemma frame_put_ensure:
  "queues ts q = Some tq \<Longrightarrow> tq_usage tq' = tq_usage tq \<Longrightarrow> tq_player tq' = tq_player tq \<Longrightarrow>
    tq_program_verb tq' = tq_program_verb tq \<or> c_string (tq_program_verb tq') \<Longrightarrow> ensure_usage q (put_queue q tq' ts) = Some ts' \<Longrightarrow> frame ts ts'"
  by (blast intro: frame_trans frame_put frame_ensure)

subsection \<open>All operations\<close>

text \<open>What may change in a queue without more: the fields that the scheduler does not look at.\<close>

definition same_core :: "tqueue \<Rightarrow> tqueue \<Rightarrow> bool" where
  "same_core tq tq' \<longleftrightarrow> iqueue.truncate tq' = iqueue.truncate tq \<and> tq_player tq' = tq_player tq \<and> tq_usage tq' = tq_usage tq \<and>
     tq_bg tq' = tq_bg tq \<and> tq_num_bg_tasks tq' = tq_num_bg_tasks tq \<and> tq_reading tq' = tq_reading tq \<and>
     tq_connected tq' = tq_connected tq \<and> tq_hold_input tq' = tq_hold_input tq \<and>
     (tq_program_verb tq' = tq_program_verb tq \<or> c_string (tq_program_verb tq'))"

text \<open>The databases are those in which the options can be read. Connections have numbers other than \<open>NOTHING\<close>.\<close>

inductive task_op :: "tasks \<Rightarrow> tasks \<Rightarrow> bool" where
  op_line: "c_string s \<Longrightarrow> new_input_task q s binary ts = Some ts' \<Longrightarrow> task_op ts ts'"
| op_connect: "options_readable db \<Longrightarrow> player \<noteq> NOTHING \<Longrightarrow> new_task_queue db player handler ts = Some (q, ts') \<Longrightarrow> task_op ts ts'"
| op_disconnect: "free_task_queue q ts = Some ts' \<Longrightarrow> task_op ts ts'"
| op_pause: "task_suspend_input q ts = Some ts' \<Longrightarrow> task_op ts ts'"
| op_option: "tasks_set_connection_option q option v ts = Some (b, ts') \<Longrightarrow> task_op ts ts'"
| op_fork: "options_readable db \<Longrightarrow> enqueue_forked_task2 db a f_index start vid ts = Some (e, a', ts') \<Longrightarrow> task_op ts ts'"
| op_suspend: "options_readable db \<Longrightarrow> enqueue_suspended_task db the_vm start_tv ts = Some (e, ts') \<Longrightarrow> task_op ts ts'"
| op_read: "make_reading_task the_vm player ts = Some (e, ts') \<Longrightarrow> task_op ts ts'"
| op_read_now: "read_input_now player ts = Some (v, ts') \<Longrightarrow> task_op ts ts'"
| op_kill: "kill_task db tid owner ts = (e, ts') \<Longrightarrow> task_op ts ts'"
| op_resume: "options_readable db \<Longrightarrow> do_resume db now tid v progr ts = Some (e, ts') \<Longrightarrow> task_op ts ts'"
| op_force: "options_readable db \<Longrightarrow> (\<And>s. VStr s \<in> set args \<Longrightarrow> c_string s) \<Longrightarrow> bf_force_input db args progr ts = Some (pack, ts') \<Longrightarrow> task_op ts ts'"
| op_flush: "options_readable db \<Longrightarrow> bf_flush_input db args progr ts = Some (pack, ts') \<Longrightarrow> task_op ts ts'"
| op_number: "new_task_id ts = Some (i, ts') \<Longrightarrow> task_op ts (ts'\<lparr>current_task_id := tid\<rparr>)"
| op_notify: "task_op ts (call_net c ts)"
| op_note: "queues ts q = Some tq \<Longrightarrow> same_core tq tq' \<Longrightarrow> task_op ts (put_queue q tq' ts)"

lemma frame_option:
  assumes o: "tasks_set_connection_option q option v ts = Some (b, ts')"
  shows "frame ts ts'"
proof (cases "queues ts q")
  case (Some tq)
  note ensure = frame_put_ensure [OF Some, of _ ts']
  show ?thesis
    using o Some
    by (auto simp: tasks_set_connection_option_def set_flush_cmd_def set_hold_input_def set_disable_oob_def icmd_set_flags_def Let_def
      bind_eq_Some_conv intro!: frame_put dest!: ensure [rotated 3] split: if_splits option.splits)
qed (use o in \<open>simp add: tasks_set_connection_option_def\<close>)

lemma frame_kill_in_queues: "kill_in_queues bg tid wiz owner qs ts = Some (e, ts') \<Longrightarrow> frame ts ts'"
  by (induction qs) (auto simp: kill_in_queue_def intro!: frame_put split: option.splits if_splits prod.splits)

lemma frame_revalue: "revalue_in_queues tid v wiz progr qs ts = Some (e, ts') \<Longrightarrow> frame ts ts'"
  by (induction qs) (auto intro!: frame_put split: option.splits if_splits)

lemma frame_kill: "kill_task db tid owner ts = (e, ts') \<Longrightarrow> frame ts ts'"
proof -
  have "frame ts ((case find_player p ts of None \<Rightarrow> ts | Some q \<Rightarrow> (case queues ts q of
      Some tq \<Rightarrow> put_queue q (tq\<lparr>tq_num_bg_tasks := tq_num_bg_tasks tq - 1\<rparr>) ts | None \<Rightarrow> ts))\<lparr>waiting_tasks := us\<rparr>)" for p us
    by (rule frame_trans [OF _ frame_other]) (auto intro!: frame_put split: option.split)
  note waiting = this
  assume k: "kill_task db tid owner ts = (e, ts')"
  show "frame ts ts'"
  proof (cases "pick_task (\<lambda>t. bg_task_id t = tid) (waiting_tasks ts)")
    case None
    then show ?thesis using k by (auto simp: kill_task_def dest: frame_kill_in_queues split: if_splits option.splits prod.splits)
  next
    case (Some r)
    then show ?thesis using k waiting by (cases r) (auto simp: kill_task_def split: if_splits)
  qed
qed

lemma frame_resume:
  assumes inv: "tasks_inv L X ts" and r: "do_resume db now tid v progr ts = Some (e, ts')"
  shows "frame ts ts'"
proof (cases "pick_task (suspended_id tid) (waiting_tasks ts)")
  case None
  then show ?thesis using r by (auto simp: do_resume_def dest: frame_revalue split: option.splits)
next
  case (Some tu)
  obtain t us where tu: "tu = (t, us)" by force
  show ?thesis
  proof (cases "\<not> is_wizard db progr \<and> progr \<noteq> bg_progr t")
    case True
    then show ?thesis using r Some tu by (simp add: do_resume_def)
  next
    case False
    obtain q ts1 ts2 where s: "find_tqueue db (bg_progr t) ts = Some (q, ts1)" "ensure_usage q (ts1\<lparr>waiting_tasks := us\<rparr>) = Some ts2"
      "enqueue_bg_task q (with_value v (with_start now t)) ts2 = Some ts'"
      using r Some tu False by (auto simp: do_resume_def bind_eq_Some_conv)
    have "frame ts1 (ts1\<lparr>waiting_tasks := us\<rparr>)" by (rule frame_other) simp_all
    then show ?thesis
      using frame_find [OF s(1) inv] frame_ensure [OF s(2)] frame_bg [OF s(3)] frame_trans by blast
  qed
qed

lemma frame_number: "new_task_id ts = Some (i, ts') \<Longrightarrow> frame ts ts'"
  by (auto simp: new_task_id_def intro: frame_other)

lemma frame_fork:
  assumes inv: "tasks_inv L X ts" and f: "enqueue_forked_task2 db a f_index start vid ts = Some (e, a', ts')"
  shows "frame ts ts'"
proof -
  consider "ts' = ts" | i ts1 t where "new_task_id ts = Some (i, ts1)" "enqueue_waiting db t ts1 = Some ts'"
    using f by (auto simp: enqueue_forked_task2_def enqueue_ft_def bind_eq_Some_conv split: if_splits)
  then show ?thesis
  proof cases
    case 2
    have "tasks_inv L X ts1" using 2(1) inv by (auto simp: new_task_id_def) (subst tasks_inv_cong, simp_all)
    then show ?thesis using frame_number [OF 2(1)] frame_enqueue_waiting [OF _ 2(2)] frame_trans by blast
  qed simp
qed

lemma find_then:
  assumes inv: "tasks_inv L X ts" and opt: "options_readable db" and f: "find_tqueue db p ts = Some (q, ts1)"
  shows "tasks_inv L X ts1 \<and> (\<exists>tq. queues ts1 q = Some tq \<and> tq_player tq = p) \<and> waiting_tasks ts1 = waiting_tasks ts"
  by (rule find_tqueue_inv [OF inv options_defined(1) [OF opt], of p]) (use f in auto)

lemma op_frame: "task_op ts ts' \<Longrightarrow> tasks_inv L {} ts \<Longrightarrow> frame ts ts'"
proof (induction rule: task_op.induct)
  case (op_line s q binary ts ts')
  then show ?case
    by (auto simp: new_input_task_def bind_eq_Some_conv intro: frame_flush_input frame_enqueue_input split: option.splits if_splits)
next
  case (op_connect db player handler ts q ts')
  then obtain ts1 tq where f: "find_tqueue db player ts = Some (q, ts1)" "queues ts1 q = Some tq"
    "ts' = put_queue q (tq\<lparr>tq_connected := True, tq_handler := handler\<rparr>) ts1"
    by (auto simp: new_task_queue_def bind_eq_Some_conv)
  show ?case unfolding f(3) by (rule frame_trans [OF frame_find [OF f(1) op_connect.prems] frame_put [OF f(2)]]) simp_all
next
  case (op_disconnect q ts ts')
  then show ?case
    by (auto simp: free_task_queue_def bind_eq_Some_conv Let_def intro!: frame_put dest!: frame_put_ensure [rotated 4] split: if_splits)
next
  case (op_pause q ts ts')
  then show ?case by (auto simp: task_suspend_input_def intro!: frame_net frame_put split: if_splits)
next
  case (op_option q option v ts b ts')
  then show ?case by (blast intro: frame_option)
next
  case (op_fork db a f_index start vid ts e a' ts')
  then show ?case by (blast intro: frame_fork)
next
  case (op_suspend db the_vm start_tv ts e ts')
  then show ?case by (auto simp: enqueue_suspended_task_def bind_eq_Some_conv intro: frame_enqueue_waiting split: if_splits)
next
  case (op_read the_vm player ts e ts')
  then show ?case
    by (auto simp: make_reading_task_def bind_eq_Some_conv Let_def intro!: frame_put dest!: frame_put_ensure [rotated 4]
      split: if_splits option.splits)
next
  case (op_read_now player ts v ts')
  have d: "frame ts ts1" "frame ts (free_input c ts1)" if "dequeue_input_task q DQ_INBAND ts = Some (r, ts1)" for q r ts1 c
    using frame_dequeue [OF op_read_now.prems that] frame_free by blast+
  show ?case using op_read_now.hyps d
    by (auto simp: read_input_now_def bind_eq_Some_conv split: if_splits option.splits)
next
  case (op_kill db tid owner ts e ts')
  then show ?case by (blast intro: frame_kill)
next
  case (op_resume db now tid v progr ts e ts')
  then show ?case by (blast intro: frame_resume)
next
  case (op_force db args progr ts pack ts')
  have "frame ts ts'" if f: "find_tqueue db p ts = Some (q, ts1)" "enqueue_input_task q s b False ts1 = Some ts'" "c_string s" for p q ts1 s b
    using find_then [OF op_force.prems op_force.hyps(1) f(1)] frame_find [OF f(1) op_force.prems] frame_enqueue_input [OF _ f(2,3)] frame_trans by blast
  then show ?case using op_force.hyps by (auto simp: bf_force_input_def bind_eq_Some_conv split: list.splits var.splits if_splits)
next
  case (op_flush db args progr ts pack ts')
  have "frame ts ts'" if f: "find_tqueue db p ts = Some (q, ts1)" "flush_input q b ts1 = Some ts'" for p q ts1 b
    using find_then [OF op_flush.prems op_flush.hyps(1) f(1)] frame_find [OF f(1) op_flush.prems] frame_flush_input [OF _ f(2)] frame_trans by blast
  then show ?case using op_flush.hyps by (auto simp: bf_flush_input_def bind_eq_Some_conv split: list.splits var.splits if_splits)
next
  case (op_number ts i ts' tid)
  then show ?case by (auto intro: frame_trans [OF frame_number frame_other])
next
  case (op_notify ts c)
  show ?case by simp
next
  case (op_note ts q tq tq')
  then show ?case by (auto simp: same_core_def intro: frame_put)
qed

lemma option_inv:
  "tasks_inv L {} ts \<Longrightarrow> queues ts q = Some tq \<Longrightarrow> tasks_set_connection_option q option v ts = Some (b, ts') \<Longrightarrow> tasks_inv L {} ts'"
  using set_connection_option_inv [of L ts q tq option v] by auto

lemma op_inv: "task_op ts ts' \<Longrightarrow> tasks_inv L {} ts \<Longrightarrow> \<exists>L'. tasks_inv L' {} ts'"
proof (induction rule: task_op.induct)
  case (op_line s q binary ts ts')
  obtain tq where q: "queues ts q = Some tq" using op_line.hyps by (auto simp: new_input_task_def bind_eq_Some_conv)
  have 1: "\<exists>L'. tasks_inv L' {} ts'" if "flush_input q True ts = Some ts'"
    using flush_input_inv [OF op_line.prems q, of True] that by auto
  have 2: "\<exists>L'. tasks_inv L' {} ts'" if "enqueue_input_task q s False binary ts = Some ts'"
    by (rule enqueue_input_inv [OF op_line.prems q, of s False binary]) (use that in auto)
  show ?case using op_line.hyps q 1 2 by (auto simp: new_input_task_def split: option.splits if_splits)
next
  case (op_connect db player handler ts q ts')
  then show ?case using new_task_queue_inv [OF op_connect.prems options_defined(1) [OF op_connect.hyps(1)], of player handler] by auto
next
  case (op_disconnect q ts ts')
  then obtain tq where "queues ts q = Some tq" by (auto simp: free_task_queue_def bind_eq_Some_conv)
  then show ?case using free_task_queue_inv [OF op_disconnect.prems, of q] op_disconnect.hyps by auto
next
  case (op_pause q ts ts')
  then obtain tq where "queues ts q = Some tq" by (auto simp: task_suspend_input_def)
  then show ?case using task_suspend_input_inv [OF op_pause.prems, of q] op_pause.hyps by auto
next
  case (op_option q option v ts b ts')
  then obtain tq where "queues ts q = Some tq" by (auto simp: tasks_set_connection_option_def bind_eq_Some_conv)
  then show ?case using option_inv op_option by blast
next
  case (op_fork db a f_index start vid ts e a' ts')
  consider "ts' = ts" | i ts1 t where "new_task_id ts = Some (i, ts1)" "enqueue_waiting db t ts1 = Some ts'"
    using op_fork.hyps by (auto simp: enqueue_forked_task2_def enqueue_ft_def bind_eq_Some_conv split: if_splits)
  then show ?case
  proof cases
    case 2
    have "tasks_inv L {} ts1" using 2(1) op_fork.prems by (auto simp: new_task_id_def) (subst tasks_inv_cong, simp_all)
    from enqueue_waiting_inv [OF this options_defined(1) [OF op_fork.hyps(1)], of t] show ?thesis using 2(2) by auto
  qed (use op_fork.prems in auto)
next
  case (op_suspend db the_vm start_tv ts e ts')
  then show ?case using enqueue_suspended_inv [OF op_suspend.prems op_suspend.hyps(1), of the_vm start_tv] by auto
next
  case (op_read the_vm player ts e ts')
  then show ?case using make_reading_inv [OF op_read.prems, of the_vm player] by auto
next
  case (op_read_now player ts v ts')
  then show ?case using read_input_now_inv [OF op_read_now.prems, of player] by auto
next
  case (op_kill db tid owner ts e ts')
  then show ?case using kill_task_inv [OF op_kill.prems op_kill.hyps] by blast
next
  case (op_resume db now tid v progr ts e ts')
  then show ?case using do_resume_inv [OF op_resume.prems options_defined(1) [OF op_resume.hyps(1)], of now tid v progr] by auto
next
  case (op_force db args progr ts pack ts')
  have "\<exists>L'. tasks_inv L' {} ts'" if f: "find_tqueue db p ts = Some (q, ts1)" "enqueue_input_task q s b False ts1 = Some ts'" for p q ts1 s b
  proof -
    obtain tq where "tasks_inv L {} ts1" "queues ts1 q = Some tq" using find_then [OF op_force.prems op_force.hyps(1) f(1)] by auto
    then show ?thesis by (rule enqueue_input_inv [of L "{}" ts1 q tq s b False]) (use f(2) in auto)
  qed
  then show ?case using op_force by (auto simp: bf_force_input_def bind_eq_Some_conv split: list.splits var.splits if_splits)
next
  case (op_flush db args progr ts pack ts')
  have "\<exists>L'. tasks_inv L' {} ts'" if f: "find_tqueue db p ts = Some (q, ts1)" "flush_input q b ts1 = Some ts'" for p q ts1 b
  proof -
    obtain tq where "tasks_inv L {} ts1" "queues ts1 q = Some tq" using find_then [OF op_flush.prems op_flush.hyps(1) f(1)] by auto
    then show ?thesis using flush_input_inv [of L "{}" ts1 q tq b] f(2) by auto
  qed
  then show ?case using op_flush by (auto simp: bf_flush_input_def bind_eq_Some_conv split: list.splits var.splits if_splits)
next
  case (op_number ts i ts' tid)
  then show ?case by (auto simp: new_task_id_def) (subst tasks_inv_cong, auto)
next
  case (op_notify ts c)
  then show ?case by auto
next
  case (op_note ts q tq tq')
  have "disable_oob tq' = disable_oob tq" using op_note.hyps(2) by (simp add: same_core_def iqueue.defs)
  then have "tasks_inv L {} (put_queue q tq' ts)"
    using op_note.hyps by (intro same_queue_inv [OF op_note.prems op_note.hyps(1)]) (auto simp: same_core_def due_def)
  then show ?case by blast
qed

subsection \<open>Reachable states\<close>

definition empty_tasks :: "(nat \<Rightarrow> int) \<Rightarrow> tasks" where
  "empty_tasks rnd = \<lparr>inputs = Map.empty, next_input = 0, queues = Map.empty, next_queue = 0, idle_tqueues = [], active_tqueues = [],
     waiting_tasks = [], current_task_id = 0, random_numbers = rnd, numbers_drawn = 0, net_calls = []\<rparr>"

lemma empty_tasks_inv: "tasks_inv (\<lambda>_. []) {} (empty_tasks rnd)"
  by (simp add: tasks_inv_def empty_tasks_def usage_ok_def starts_ok_def)

lemma ops_inv: "task_op\<^sup>*\<^sup>* ts ts' \<Longrightarrow> tasks_inv L {} ts \<Longrightarrow> (\<exists>L'. tasks_inv L' {} ts') \<and> frame ts ts'"
proof (induction rule: rtranclp_induct)
  case (step ts1 ts2)
  then obtain L' where L': "tasks_inv L' {} ts1" "frame ts ts1" by blast
  then show ?case using op_inv [OF step.hyps(2) L'(1)] op_frame [OF step.hyps(2) L'(1)] frame_trans by blast
qed auto


lemma empty_db_options: "options_readable empty_db"
proof -
  have v: "\<not> valid empty_db x" for x by (auto simp: valid_def)
  show ?thesis by (simp add: options_readable_def get_server_option_def option_source_def v)
qed

definition connected_tasks :: tasks where
  "connected_tasks = snd (the (new_task_queue empty_db (-7) 0 (empty_tasks (\<lambda>_. 1))))"

lemma connected_tasks: "new_task_queue empty_db (-7) 0 (empty_tasks (\<lambda>_. 1)) = Some (0, connected_tasks)"
proof -
  have "map_option fst (new_task_queue empty_db (-7) 0 (empty_tasks (\<lambda>_. 1))) = Some 0" by code_simp
  then show ?thesis by (auto simp: connected_tasks_def)
qed


end
