(* ===== verification/Assembly.thy ===== *)
theory Assembly
  imports Frames
begin

text \<open>
  What the second pass of the code generator does to the bytes of the first: every byte and every operand has one place in the
  vector, and reading an operand there gives the value of its fixup.
\<close>

subsection \<open>Places\<close>

text \<open>The bytes that the operands before a place take beyond the one of the first pass.\<close>

definition shift :: "sizes \<Rightarrow> fixup list \<Rightarrow> nat \<Rightarrow> nat" where
  "shift z fs i = sum_list (map (\<lambda>f. fixup_size z (f_kind f) - 1) (filter (\<lambda>f. f_pc f < i) fs))"

definition loc :: "sizes \<Rightarrow> fixup list \<Rightarrow> nat \<Rightarrow> nat" where
  "loc z fs i = i + shift z fs i"

definition in_order :: "fixup list \<Rightarrow> bool" where
  "in_order fs \<longleftrightarrow> sorted_wrt (<) (map f_pc fs)"

text \<open>The sizes that the generator chooses; positions on the stack take one byte.\<close>

definition size_ok :: "nat \<Rightarrow> bool" where
  "size_ok n \<longleftrightarrow> n \<in> {1, 2, 4}"

definition sizes_ok :: "sizes \<Rightarrow> bool" where
  "sizes_ok z \<longleftrightarrow> size_ok (literal_size z) \<and> size_ok (fork_size z) \<and> size_ok (var_size z) \<and> size_ok (label_size z) \<and> stack_size z = 1"

lemma fixup_size_ok: "sizes_ok z \<Longrightarrow> size_ok (fixup_size z k)"
  by (cases k) (auto simp: sizes_ok_def size_ok_def fixup_size_def)

lemma size_ok_pos: "size_ok n \<Longrightarrow> 1 \<le> n"
  by (auto simp: size_ok_def)

lemma operand_bytes_length: "size_ok n \<Longrightarrow> length (operand_bytes n v) = n"
  by (auto simp: size_ok_def operand_bytes_def)

lemma in_order_simps [simp]: "in_order []" "in_order (f # fs) \<longleftrightarrow> (\<forall>g \<in> set fs. f_pc f < f_pc g) \<and> in_order fs"
  by (auto simp: in_order_def)

lemma in_order_append: "in_order (fs @ gs) \<longleftrightarrow> in_order fs \<and> in_order gs \<and> (\<forall>f \<in> set fs. \<forall>g \<in> set gs. f_pc f < f_pc g)"
  by (auto simp: in_order_def sorted_wrt_append)

lemma shift_none: "\<forall>f \<in> set fs. i \<le> f_pc f \<Longrightarrow> shift z fs i = 0"
  by (simp add: shift_def filter_False leD)

lemma shift_mono: "i \<le> j \<Longrightarrow> shift z fs i \<le> shift z fs j"
  by (induction fs) (auto simp: shift_def)

lemma loc_mono: "i < j \<Longrightarrow> loc z fs i < loc z fs j"
  using shift_mono [of i j z fs] by (simp add: loc_def)

lemma loc_eq [simp]: "loc z fs i = loc z fs j \<longleftrightarrow> i = j"
  using loc_mono [of i j z fs] loc_mono [of j i z fs] by (metis less_irrefl linorder_neqE_nat)

lemma loc_zero [simp]: "loc z fs 0 = 0"
  by (simp add: loc_def shift_def)

lemma loc_bound: "i \<le> loc z fs i"
  by (simp add: loc_def)

lemma relocate_split:
  assumes "sizes_ok z" "in_order fs" "\<forall>f \<in> set fs. i \<le> f_pc f" "k \<le> length bs"
  shows "\<exists>A. relocate z i bs fs = A @ relocate z (i + k) (drop k bs) (filter (\<lambda>f. i + k \<le> f_pc f) fs) \<and> length A = k + shift z fs (i + k)"
  using assms
proof (induction z i bs fs arbitrary: k rule: relocate.induct)
  case (2 z i b bs)
  then show ?case
  proof (cases k)
    case (Suc m)
    obtain A where "relocate z (i + 1) bs [] = A @ relocate z (i + 1 + m) (drop m bs) (filter (\<lambda>f. i + 1 + m \<le> f_pc f) [])"
      "length A = m + shift z [] (i + 1 + m)" using 2(1) [of m] 2(2-) Suc by auto
    then show ?thesis using Suc by (intro exI [of _ "b # A"]) (simp add: shift_def)
  qed (simp add: shift_def)
next
  case (3 z i b bs f fs)
  show ?case
  proof (cases k)
    case 0
    have "filter (\<lambda>f. i \<le> f_pc f) fs = fs" using 3(5) by (simp add: filter_id_conv)
    then show ?thesis using 0 3(5) by (simp add: shift_none)
  next
    case (Suc m)
    show ?thesis
    proof (cases "f_pc f = i")
      case True
      let ?p = "operand_bytes (fixup_size z (f_kind f)) (fixup_result z f)"
      have "\<forall>g \<in> set fs. i + 1 \<le> f_pc g" using 3(4) True by auto
      then obtain A where A: "relocate z (i + 1) bs fs = A @ relocate z (i + 1 + m) (drop m bs) (filter (\<lambda>f. i + 1 + m \<le> f_pc f) fs)"
        "length A = m + shift z fs (i + 1 + m)" using 3(1) [OF True, of m] 3(3,4,6) Suc by auto
      have "length ?p = 1 + (fixup_size z (f_kind f) - 1)"
        using operand_bytes_length [OF fixup_size_ok [OF 3(3)]] size_ok_pos [OF fixup_size_ok [OF 3(3), of "f_kind f"]] by simp
      then show ?thesis using A True Suc by (intro exI [of _ "?p @ A"]) (simp add: shift_def)
    next
      case False
      then have "\<forall>g \<in> set (f # fs). i + 1 \<le> f_pc g" using 3(4,5) by fastforce
      then obtain A where "relocate z (i + 1) bs (f # fs) = A @ relocate z (i + 1 + m) (drop m bs) (filter (\<lambda>f. i + 1 + m \<le> f_pc f) (f # fs))"
        "length A = m + shift z (f # fs) (i + 1 + m)" using 3(2) [OF False, of m] 3(3,4,6) Suc by auto
      then show ?thesis using False Suc by (intro exI [of _ "b # A"]) simp
    qed
  qed
qed (auto simp: shift_def)

lemma relocate_from:
  assumes "sizes_ok z" "in_order fs" "k \<le> length bs"
  shows "\<exists>A. relocate z 0 bs fs = A @ relocate z k (drop k bs) (filter (\<lambda>f. k \<le> f_pc f) fs) \<and> length A = loc z fs k"
  using relocate_split [OF assms(1,2), of 0 k bs] assms(3) by (simp add: loc_def)

lemma relocate_length: "sizes_ok z \<Longrightarrow> in_order fs \<Longrightarrow> length (relocate z 0 bs fs) = loc z fs (length bs)"
  using relocate_from [of z fs "length bs" bs] by auto

subsection \<open>Reading\<close>

definition fixup_at :: "fixup list \<Rightarrow> nat \<Rightarrow> fixup \<Rightarrow> bool" where
  "fixup_at fs i f \<longleftrightarrow> f \<in> set fs \<and> f_pc f = i"

lemma shift_Suc: "shift z fs (Suc i) = shift z fs i + sum_list (map (\<lambda>f. fixup_size z (f_kind f) - 1) (filter (\<lambda>f. f_pc f = i) fs))"
  by (induction fs) (auto simp: shift_def less_Suc_eq)

lemma filter_fixup_at: "in_order fs \<Longrightarrow> fixup_at fs i f \<Longrightarrow> filter (\<lambda>g. f_pc g = i) fs = [f]"
proof (induction fs)
  case (Cons g fs)
  then show ?case by (cases "g = f") (auto simp: fixup_at_def filter_empty_conv)
qed (simp add: fixup_at_def)

lemma loc_operand:
  "sizes_ok z \<Longrightarrow> in_order fs \<Longrightarrow> fixup_at fs i f \<Longrightarrow> loc z fs (Suc i) = loc z fs i + fixup_size z (f_kind f)"
  using size_ok_pos [OF fixup_size_ok, of z "f_kind f"] by (simp add: loc_def shift_Suc filter_fixup_at)

lemma loc_byte: "\<nexists>f. fixup_at fs i f \<Longrightarrow> loc z fs (Suc i) = loc z fs i + 1"
  by (auto simp: loc_def shift_Suc fixup_at_def filter_empty_conv)

lemma filter_from: "in_order fs \<Longrightarrow> fixup_at fs i f \<Longrightarrow> \<exists>gs. filter (\<lambda>g. i \<le> f_pc g) fs = f # gs"
proof (induction fs)
  case (Cons g fs)
  then show ?case by (cases "i \<le> f_pc g") (auto simp: fixup_at_def)
qed (simp add: fixup_at_def)

lemma read_at:
  assumes "sizes_ok z" "in_order fs" "i < length bs" "fixup_at fs i f"
  shows "\<exists>A B. relocate z 0 bs fs = A @ operand_bytes (fixup_size z (f_kind f)) (fixup_result z f) @ B \<and> length A = loc z fs i"
proof -
  obtain A where A: "relocate z 0 bs fs = A @ relocate z i (drop i bs) (filter (\<lambda>f. i \<le> f_pc f) fs)" "length A = loc z fs i"
    using relocate_from [OF assms(1,2), of i bs] assms(3) by auto
  moreover obtain gs where "filter (\<lambda>g. i \<le> f_pc g) fs = f # gs" using filter_from [OF assms(2,4)] by blast
  moreover have "drop i bs = bs ! i # drop (Suc i) bs" using assms(3) by (simp add: Cons_nth_drop_Suc)
  ultimately show ?thesis using assms(4) by (auto simp: fixup_at_def)
qed

lemma byte_at_loc:
  assumes "sizes_ok z" "in_order fs" "i < length bs" "\<nexists>f. fixup_at fs i f"
  shows "byte_at (relocate z 0 bs fs) (loc z fs i) = Some (unat (bs ! i))"
proof -
  obtain A where A: "relocate z 0 bs fs = A @ relocate z i (drop i bs) (filter (\<lambda>f. i \<le> f_pc f) fs)" "length A = loc z fs i"
    using relocate_from [OF assms(1,2), of i bs] assms(3) by auto
  moreover have "drop i bs = bs ! i # drop (Suc i) bs" using assms(3) by (simp add: Cons_nth_drop_Suc)
  moreover have "relocate z i (bs ! i # ys) (filter (\<lambda>f. i \<le> f_pc f) fs) = bs ! i # relocate z (i + 1) ys (filter (\<lambda>f. i \<le> f_pc f) fs)" for ys
  proof (cases "filter (\<lambda>f. i \<le> f_pc f) fs")
    case (Cons f gs)
    then have "f \<in> set (filter (\<lambda>f. i \<le> f_pc f) fs)" by simp
    then have "f \<in> set fs" by simp
    then show ?thesis using Cons assms(4) by (auto simp: fixup_at_def)
  qed simp
  ultimately show ?thesis by (simp add: byte_at_def nth_append)
qed

lemma two_bytes: "y < 65536 \<Longrightarrow> y div 256 mod 256 * 256 + y mod 256 = (y :: nat)"
proof -
  assume "y < 65536"
  then have "y div 256 < 256" by (simp add: less_mult_imp_div_less)
  then show ?thesis using div_mult_mod_eq [of y 256] by simp
qed

lemma four_bytes:
  fixes x :: nat
  assumes "x < 4294967296"
  shows "x div 16777216 mod 256 * 16777216 + x div 65536 mod 256 * 65536 + x div 256 mod 256 * 256 + x mod 256 = x"
proof -
  have "x div 65536 < 65536" using assms by (simp add: less_mult_imp_div_less)
  moreover have "x div 65536 div 256 = x div 16777216" by (simp add: div_mult2_eq [symmetric])
  ultimately have "x div 16777216 mod 256 * 256 + x div 65536 mod 256 = x div 65536" using two_bytes [of "x div 65536"] by (simp only:)
  moreover have "x div 256 mod 256 * 256 + x mod 256 = x mod 65536" using mod_mult2_eq [of x 256 256] by simp
  ultimately show ?thesis using div_mult_mod_eq [of x 65536] by linarith
qed

lemma byte_at_middle: "k < length bs \<Longrightarrow> byte_at (A @ bs @ B) (length A + k) = Some (unat (bs ! k))"
  by (simp add: byte_at_def nth_append)

lemma read_bytes_at:
  assumes "size_ok n" "x < 256 ^ n"
  shows "read_bytes (A @ operand_bytes n x @ B) (length A) n = Some x"
proof -
  note M = byte_at_middle [of _ "operand_bytes n x" A B]
  have "read_bytes (A @ operand_bytes n x @ B) (length A) n = Some x" if "n = 1"
    using M [of 0] that assms(2) by (simp add: operand_bytes_def read_bytes_def unat_of_nat)
  moreover have "read_bytes (A @ operand_bytes n x @ B) (length A) n = Some x" if "n = 2"
    using M [of 0] M [of 1] that assms(2) two_bytes [of x] by (simp add: operand_bytes_def read_bytes_def unat_of_nat)
  moreover have "read_bytes (A @ operand_bytes n x @ B) (length A) n = Some x" if "n = 4"
    using M [of 0] M [of 1] M [of 2] M [of 3] that assms(2) four_bytes [of x] by (simp add: operand_bytes_def read_bytes_def unat_of_nat)
  ultimately show ?thesis using assms(1) by (auto simp: size_ok_def)
qed

lemma operand_at_loc:
  assumes "sizes_ok z" "in_order fs" "i < length bs" "fixup_at fs i f" "fixup_result z f < 256 ^ fixup_size z (f_kind f)"
  shows "read_bytes (relocate z 0 bs fs) (loc z fs i) (fixup_size z (f_kind f)) = Some (fixup_result z f)"
  using read_at [OF assms(1-4)] read_bytes_at [OF fixup_size_ok [OF assms(1)] assms(5)] by metis

subsection \<open>The values of labels\<close>

definition kind_before :: "fixup_kind \<Rightarrow> nat \<Rightarrow> fixup list \<Rightarrow> nat" where
  "kind_before k i fs = length (filter (\<lambda>f. f_kind f = k \<and> f_pc f < i) fs)"

text \<open>A label that knows how many operands stand before its target.\<close>

definition counted :: "fixup list \<Rightarrow> fixup \<Rightarrow> bool" where
  "counted fs f \<longleftrightarrow> prev_literals f = kind_before FIXUP_LITERAL (f_value f) fs \<and> prev_forks f = kind_before FIXUP_FORK (f_value f) fs \<and>
     prev_var_refs f = kind_before FIXUP_VAR_REF (f_value f) fs \<and> prev_labels f = kind_before FIXUP_LABEL (f_value f) fs"

lemma shift_kinds:
  assumes "stack_size z = 1"
  shows "shift z fs i = kind_before FIXUP_LITERAL i fs * (literal_size z - 1) + kind_before FIXUP_FORK i fs * (fork_size z - 1) +
    kind_before FIXUP_VAR_REF i fs * (var_size z - 1) + kind_before FIXUP_LABEL i fs * (label_size z - 1)"
proof (induction fs)
  case (Cons f fs)
  then show ?case using assms by (cases "f_kind f") (auto simp: shift_def kind_before_def fixup_size_def)
qed (simp add: shift_def kind_before_def)

lemma label_result: "sizes_ok z \<Longrightarrow> counted fs f \<Longrightarrow> f_kind f = FIXUP_LABEL \<Longrightarrow> fixup_result z f = loc z fs (f_value f)"
  by (simp add: fixup_result_def counted_def loc_def shift_kinds sizes_ok_def)

end
