(* ===== verification/CodeShape.thy ===== *)
theory CodeShape
  imports Assembly
begin

text \<open>
  Typed code in the first pass of the code generator. Instructions are recognised by their bytes and fixups, a label is the index of
  its fixup, and the labels that are not defined yet are kept with the type that the stack must have where they will be defined. A
  state is \<open>coded\<close> when all instructions emitted so far conform to a typing; this becomes well-typed code by the second pass.
\<close>

subsection \<open>Instructions of the first pass\<close>

datatype target = Here nat | Lab nat

definition raw_at :: "cstate \<Rightarrow> nat \<Rightarrow> nat \<Rightarrow> bool" where
  "raw_at s i b \<longleftrightarrow> i < num_bytes s \<and> b < 256 \<and> bytes s ! i = word_of_nat b \<and> (\<forall>f \<in> set (fixups s). f_pc f \<noteq> i)"

definition op_at :: "cstate \<Rightarrow> nat \<Rightarrow> opcode \<Rightarrow> bool" where
  "op_at s i op \<longleftrightarrow> real_op op \<and> raw_at s i (op_number op)"

definition eop_at :: "cstate \<Rightarrow> nat \<Rightarrow> extended_opcode \<Rightarrow> bool" where
  "eop_at s i op \<longleftrightarrow> op_at s i OP_EXTENDED \<and> raw_at s (i + 1) (eop_number op)"

definition ref_at :: "cstate \<Rightarrow> nat \<Rightarrow> fixup_kind \<Rightarrow> nat \<Rightarrow> bool" where
  "ref_at s i k j \<longleftrightarrow> i < num_bytes s \<and> j < length (fixups s) \<and> f_pc (fixups s ! j) = i \<and> f_kind (fixups s ! j) = k"

text \<open>The variables and labels of a scattering assignment.\<close>

fun targets_at :: "cstate \<Rightarrow> nat \<Rightarrow> nat list \<Rightarrow> bool" where
  "targets_at s i [] = True"
| "targets_at s i (j # js) = ((\<exists>v. ref_at s i FIXUP_VAR_REF v) \<and> ref_at s (i + 1) FIXUP_LABEL j \<and> targets_at s (i + 2) js)"

definition plain_label :: "fixup \<Rightarrow> bool" where
  "plain_label f \<longleftrightarrow> prev_literals f = 0 \<and> prev_forks f = 0 \<and> prev_var_refs f = 0 \<and> prev_labels f = 0"

text \<open>The types behind an instruction. The codes tell the labels 0 and 1 of a scattering assignment from the others.\<close>

inductive pstep :: "nat \<Rightarrow> (nat \<Rightarrow> nat) \<Rightarrow> cstate \<Rightarrow> nat \<Rightarrow> bool \<Rightarrow> slot list \<Rightarrow> (target \<times> ftype) list \<Rightarrow> bool"
  for nv cd s i t where
  plain: "op_at s i op \<Longrightarrow> plain op = Some nm \<Longrightarrow> swap_vals nm ts = Some us \<Longrightarrow> pstep nv cd s i t ts [(Here (i + 1), t, us)]"
| count: "op_at s i (OPTIM_NUM n) \<Longrightarrow> 1 \<le> n \<Longrightarrow> pstep nv cd s i t ts [(Here (i + 1), t, KCount # ts)]"
| test: "op_at s i op \<Longrightarrow> op \<in> {OP_IF, OP_WHILE, OP_EIF, OP_IF_QUES} \<Longrightarrow> ref_at s (i + 1) FIXUP_LABEL j \<Longrightarrow>
    pstep nv cd s i t (KVal # us) [(Lab j, t, us), (Here (i + 2), t, us)]"
| both: "op_at s i op \<Longrightarrow> op \<in> {OP_AND, OP_OR} \<Longrightarrow> ref_at s (i + 1) FIXUP_LABEL j \<Longrightarrow>
    pstep nv cd s i t (KVal # us) [(Lab j, t, KVal # us), (Here (i + 2), t, us)]"
| jump: "op_at s i OP_JUMP \<Longrightarrow> ref_at s (i + 1) FIXUP_LABEL j \<Longrightarrow> pstep nv cd s i t ts [(Lab j, t, ts)]"
| for_list: "op_at s i OP_FOR_LIST \<Longrightarrow> ref_at s (i + 1) FIXUP_VAR_REF v \<Longrightarrow> ref_at s (i + 2) FIXUP_LABEL j \<Longrightarrow>
    pstep nv cd s i t (KCount # KVal # us) [(Lab j, t, us), (Here (i + 3), t, KCount # KVal # us)]"
| for_range: "op_at s i OP_FOR_RANGE \<Longrightarrow> ref_at s (i + 1) FIXUP_VAR_REF v \<Longrightarrow> ref_at s (i + 2) FIXUP_LABEL j \<Longrightarrow>
    pstep nv cd s i t (KVal # KVal # us) [(Lab j, t, us), (Here (i + 3), t, KVal # KVal # us)]"
| imm: "op_at s i OP_IMM \<Longrightarrow> ref_at s (i + 1) FIXUP_LITERAL v \<Longrightarrow> pstep nv cd s i t ts [(Here (i + 2), t, KVal # ts)]"
| put_temp: "op_at s i OP_PUT_TEMP \<Longrightarrow> pstep nv cd s i t (KVal # us) [(Here (i + 1), True, KVal # us)]"
| push_temp: "op_at s i OP_PUSH_TEMP \<Longrightarrow> t \<Longrightarrow> pstep nv cd s i t ts [(Here (i + 1), False, KVal # ts)]"
| g_put: "op_at s i OP_G_PUT \<Longrightarrow> ref_at s (i + 1) FIXUP_VAR_REF v \<Longrightarrow> pstep nv cd s i t (KVal # us) [(Here (i + 2), t, KVal # us)]"
| g_push: "op_at s i OP_G_PUSH \<Longrightarrow> ref_at s (i + 1) FIXUP_VAR_REF v \<Longrightarrow> pstep nv cd s i t ts [(Here (i + 2), t, KVal # ts)]"
| push: "op_at s i (OP_PUSH n) \<Longrightarrow> n < nv \<Longrightarrow> pstep nv cd s i t ts [(Here (i + 1), t, KVal # ts)]"
| put: "op_at s i (OP_PUT n) \<Longrightarrow> n < nv \<Longrightarrow> pstep nv cd s i t (KVal # us) [(Here (i + 1), t, KVal # us)]"
| fork: "op_at s i OP_FORK \<Longrightarrow> ref_at s (i + 1) FIXUP_FORK v \<Longrightarrow> pstep nv cd s i t (KVal # us) [(Here (i + 2), t, us)]"
| fork_id: "op_at s i OP_FORK_WITH_ID \<Longrightarrow> ref_at s (i + 1) FIXUP_FORK v \<Longrightarrow> ref_at s (i + 2) FIXUP_VAR_REF w \<Longrightarrow>
    pstep nv cd s i t (KVal # us) [(Here (i + 3), t, us)]"
| return: "op_at s i OP_RETURN \<Longrightarrow> pstep nv cd s i t (KVal # us) []"
| return0: "op_at s i op \<Longrightarrow> op \<in> {OP_RETURN0, OP_DONE} \<Longrightarrow> pstep nv cd s i t ts []"
| call: "op_at s i OP_BI_FUNC_CALL \<Longrightarrow> raw_at s (i + 1) b \<Longrightarrow> pstep nv cd s i t (KVal # us) [(Here (i + 2), t, KVal # us)]"
| plain_eop: "eop_at s i op \<Longrightarrow> plain_eop op = Some nm \<Longrightarrow> swap_vals nm ts = Some us \<Longrightarrow> pstep nv cd s i t ts [(Here (i + 2), t, us)]"
| length: "eop_at s i EOP_LENGTH \<Longrightarrow> ref_at s (i + 2) FIXUP_STACK j \<Longrightarrow> val_at (f_value (fixups s ! j)) ts \<Longrightarrow>
    pstep nv cd s i t ts [(Here (i + 3), t, KVal # ts)]"
| scatter: "eop_at s i EOP_SCATTER \<Longrightarrow> raw_at s (i + 2) (length js) \<Longrightarrow> raw_at s (i + 3) nreq \<Longrightarrow> raw_at s (i + 4) rpos \<Longrightarrow>
    targets_at s (i + 5) js \<Longrightarrow> ref_at s (i + 5 + 2 * length js) FIXUP_LABEL d \<Longrightarrow>
    \<forall>j \<in> set js. cd j < 2 \<longrightarrow> f_value (fixups s ! j) = cd j \<and> plain_label (fixups s ! j) \<Longrightarrow>
    nreq = required rpos (map cd js) \<Longrightarrow> rest_ok rpos (map cd js) \<Longrightarrow>
    pstep nv cd s i t (KVal # us) (map (\<lambda>j. (Lab j, t, KVal # us)) (filter (\<lambda>j. 1 < cd j) js @ [d]))"
| push_label: "eop_at s i EOP_PUSH_LABEL \<Longrightarrow> ref_at s (i + 2) FIXUP_LABEL j \<Longrightarrow> pstep nv cd s i t ts [(Here (i + 3), t, KPc j # ts)]"
| try_finally: "eop_at s i EOP_TRY_FINALLY \<Longrightarrow> ref_at s (i + 2) FIXUP_LABEL j \<Longrightarrow> pstep nv cd s i t ts [(Here (i + 3), t, KFinally j # ts)]"
| catch: "eop_at s i EOP_CATCH \<Longrightarrow> pstep nv cd s i t ts [(Here (i + 2), t, KCatch 1 # ts)]"
| try_except: "eop_at s i EOP_TRY_EXCEPT \<Longrightarrow> raw_at s (i + 2) n \<Longrightarrow> pstep nv cd s i t ts [(Here (i + 3), t, KCatch n # ts)]"
| end_catch: "eop_at s i EOP_END_CATCH \<Longrightarrow> ref_at s (i + 2) FIXUP_LABEL j \<Longrightarrow> pairs n ts = Some (ls, us) \<Longrightarrow>
    pstep nv cd s i t (KVal # KCatch n # ts) [(Lab j, t, KVal # us)]"
| end_except: "eop_at s i EOP_END_EXCEPT \<Longrightarrow> ref_at s (i + 2) FIXUP_LABEL j \<Longrightarrow> pairs n ts = Some (ls, us) \<Longrightarrow>
    pstep nv cd s i t (KCatch n # ts) [(Lab j, t, us)]"
| end_finally: "eop_at s i EOP_END_FINALLY \<Longrightarrow> pstep nv cd s i t (KFinally l # us) [(Here (i + 2), t, KCont # us)]"
| continue: "eop_at s i EOP_CONTINUE \<Longrightarrow> pstep nv cd s i t (KCont # us) [(Here (i + 2), t, us)]"
| while_id: "eop_at s i EOP_WHILE_ID \<Longrightarrow> ref_at s (i + 2) FIXUP_VAR_REF v \<Longrightarrow> ref_at s (i + 3) FIXUP_LABEL j \<Longrightarrow>
    pstep nv cd s i t (KVal # us) [(Lab j, t, us), (Here (i + 4), t, us)]"
| exit_id: "eop_at s i EOP_EXIT_ID \<Longrightarrow> ref_at s (i + 2) FIXUP_VAR_REF v \<Longrightarrow> ref_at s (i + 3) FIXUP_STACK d \<Longrightarrow> ref_at s (i + 4) FIXUP_LABEL j \<Longrightarrow>
    cut_at (f_value (fixups s ! d)) ts = Some us \<Longrightarrow> pstep nv cd s i t ts [(Lab j, False, us)]"
| exit: "eop_at s i EOP_EXIT \<Longrightarrow> ref_at s (i + 2) FIXUP_STACK d \<Longrightarrow> ref_at s (i + 3) FIXUP_LABEL j \<Longrightarrow>
    cut_at (f_value (fixups s ! d)) ts = Some us \<Longrightarrow> pstep nv cd s i t ts [(Lab j, False, us)]"

subsection \<open>Pending labels\<close>

text \<open>A chain of labels that will be defined at the same place, with the type of that place.\<close>

type_synonym pending = "(nat list \<times> slot list) list"

definition pty :: "pending \<Rightarrow> nat \<Rightarrow> slot list \<Rightarrow> bool" where
  "pty Q j ts \<longleftrightarrow> (\<exists>c. (c, ts) \<in> set Q \<and> j \<in> set c)"

definition pend :: "pending \<Rightarrow> nat \<Rightarrow> bool" where
  "pend Q j \<longleftrightarrow> (\<exists>ts. pty Q j ts)"

fun linked :: "fixup list \<Rightarrow> nat list \<Rightarrow> bool" where
  "linked fs [] = False"
| "linked fs [j] = (f_next (fs ! j) = None)"
| "linked fs (j # k # c) = (f_next (fs ! j) = Some k \<and> k < j \<and> linked fs (k # c))"

definition pend_ok :: "cstate \<Rightarrow> pending \<Rightarrow> bool" where
  "pend_ok s Q \<longleftrightarrow> distinct (concat (map fst Q)) \<and>
     (\<forall>(c, ts) \<in> set Q. linked (fixups s) c \<and> (\<forall>j \<in> set c. j < length (fixups s) \<and> f_kind (fixups s ! j) = FIXUP_LABEL))"

definition code_of :: "cstate \<Rightarrow> pending \<Rightarrow> nat \<Rightarrow> nat" where
  "code_of s Q j = (if pend Q j \<or> 2 \<le> f_value (fixups s ! j) then 2 else f_value (fixups s ! j))"

definition sat :: "cstate \<Rightarrow> typing \<Rightarrow> pending \<Rightarrow> nat \<Rightarrow> ftype \<Rightarrow> bool" where
  "sat s T Q j ty \<longleftrightarrow> j < length (fixups s) \<and> f_kind (fixups s ! j) = FIXUP_LABEL \<and>
     (if pend Q j then pty Q j (snd ty)
      else arrives T (f_value (fixups s ! j)) ty \<and> counted (fixups s) (fixups s ! j))"

fun reach :: "cstate \<Rightarrow> typing \<Rightarrow> pending \<Rightarrow> target \<Rightarrow> ftype \<Rightarrow> bool" where
  "reach s T Q (Here i) ty = arrives T i ty"
| "reach s T Q (Lab j) ty = sat s T Q j ty"

subsection \<open>Shapes\<close>

text \<open>As for the shape of a stack in the final code, with another notion of a label that may be entered with a type.\<close>

fun gshape :: "(nat \<Rightarrow> ftype \<Rightarrow> bool) \<Rightarrow> slot list \<Rightarrow> bool" where
  "gshape A [] = True"
| "gshape A (k # ts) = (gshape A ts \<and>
    (case k of
       KCatch n \<Rightarrow> (case pairs n ts of
           None \<Rightarrow> False
         | Some (ls, us) \<Rightarrow> \<forall>l \<in> set ls. A l (False, KVal # us))
     | KFinally l \<Rightarrow> A l (False, KCont # ts)
     | KPc l \<Rightarrow> \<exists>ty. A l ty
     | _ \<Rightarrow> True))"

lemma gshape_mono: "gshape A ts \<Longrightarrow> (\<And>l ty. A l ty \<Longrightarrow> B l ty) \<Longrightarrow> gshape B ts"
proof (induction ts)
  case (Cons k ts)
  then show ?case by (cases k) (auto split: option.splits, blast)
qed simp

lemma gshape_vals [simp]: "gshape A (replicate n KVal @ ts) = gshape A ts"
  by (induction n) auto

lemma gshape_append: "gshape A (xs @ ts) \<Longrightarrow> gshape A ts"
  by (induction xs) auto

subsection \<open>States\<close>

text \<open>A vector that is well-typed in every program that has at least so many literals and vectors.\<close>

definition fits_sizes :: "bytecodes \<Rightarrow> bool" where
  "fits_sizes b \<longleftrightarrow> length (vector b) \<le> 2 ^ 32 \<and> max_stack b < 256"

definition good_vector :: "nat \<Rightarrow> nat \<Rightarrow> nat \<Rightarrow> bytecodes \<Rightarrow> bool" where
  "good_vector nv nl nf b \<longleftrightarrow> (\<forall>p. length (var_names p) = nv \<longrightarrow> nl \<le> length (literals p) \<longrightarrow> nf \<le> length (fork_vectors p) \<longrightarrow>
     length (literals p) \<le> 2 ^ 32 \<longrightarrow> length (fork_vectors p) \<le> 2 ^ 32 \<longrightarrow> fits_sizes b \<longrightarrow> (\<exists>T. wt p b T))"

definition gs_ok :: "nat \<Rightarrow> gstate \<Rightarrow> bool" where
  "gs_ok nv gs \<longleftrightarrow> (\<forall>v \<in> set (g_literals gs). user_value v) \<and>
     (\<forall>b \<in> set (g_fork_vectors gs). good_vector nv (length (g_literals gs)) (length (g_fork_vectors gs)) b)"

definition kinds :: "fixup_kind \<Rightarrow> fixup list \<Rightarrow> nat" where
  "kinds k fs = length (filter (\<lambda>f. f_kind f = k) fs)"

definition value_bound :: "nat \<Rightarrow> cstate \<Rightarrow> fixup \<Rightarrow> bool" where
  "value_bound nv s f \<longleftrightarrow> (case f_kind f of
     FIXUP_LITERAL \<Rightarrow> f_value f < length (g_literals (gstate s))
   | FIXUP_FORK \<Rightarrow> f_value f < length (g_fork_vectors (gstate s))
   | FIXUP_VAR_REF \<Rightarrow> f_value f < nv
   | FIXUP_STACK \<Rightarrow> f_value f \<le> cs_max_stack s
   | FIXUP_LABEL \<Rightarrow> True)"

definition gen_ok :: "nat \<Rightarrow> cstate \<Rightarrow> bool" where
  "gen_ok nv s \<longleftrightarrow> gs_ok nv (gstate s) \<and> in_order (fixups s) \<and> (\<forall>f \<in> set (fixups s). f_pc f < num_bytes s \<and> value_bound nv s f) \<and>
     num_literals s = kinds FIXUP_LITERAL (fixups s) \<and> num_forks s = kinds FIXUP_FORK (fixups s) \<and>
     num_var_refs s = kinds FIXUP_VAR_REF (fixups s) \<and> num_labels s = kinds FIXUP_LABEL (fixups s)"

definition typed :: "nat \<Rightarrow> cstate \<Rightarrow> typing \<Rightarrow> pending \<Rightarrow> nat \<Rightarrow> bool \<Rightarrow> slot list \<Rightarrow> bool" where
  "typed nv s T Q i t ts \<longleftrightarrow> depth ts \<le> cs_max_stack s \<and> gshape (sat s T Q) ts \<and>
     (\<exists>ss. pstep nv (code_of s Q) s i t ts ss \<and> (\<forall>(g, ty) \<in> set ss. reach s T Q g ty))"

text \<open>The code so far conforms to the typing, and at its end the stack has the type \<open>ty\<close>.\<close>

definition coded :: "nat \<Rightarrow> cstate \<Rightarrow> typing \<Rightarrow> pending \<Rightarrow> ftype \<Rightarrow> bool" where
  "coded nv s T Q ty \<longleftrightarrow> T 0 = Some (False, []) \<and> T (num_bytes s) = Some ty \<and> (\<forall>i > num_bytes s. T i = None) \<and>
     (\<forall>i < num_bytes s. \<forall>t ts. T i = Some (t, ts) \<longrightarrow> typed nv s T Q i t ts) \<and>
     gshape (sat s T Q) (snd ty) \<and> depth (snd ty) \<le> cs_max_stack s \<and> gen_ok nv s \<and> pend_ok s Q"

end
