(* ===== verification/CodeAssembly.thy ===== *)
theory CodeAssembly
  imports CodeShape
begin

text \<open>
  The second pass turns typed code of the first pass into well-typed code.
\<close>

subsection \<open>Types with addresses\<close>

text \<open>The address that a label becomes, and the type with addresses in place of labels.\<close>

definition res :: "sizes \<Rightarrow> cstate \<Rightarrow> nat \<Rightarrow> nat" where
  "res z s j = fixup_result z (fixups s ! j)"

fun slot_map :: "(nat \<Rightarrow> nat) \<Rightarrow> slot \<Rightarrow> slot" where
  "slot_map r (KPc j) = KPc (r j)"
| "slot_map r (KFinally j) = KFinally (r j)"
| "slot_map r k = k"

fun address :: "sizes \<Rightarrow> cstate \<Rightarrow> target \<Rightarrow> nat" where
  "address z s (Here i) = loc z (fixups s) i"
| "address z s (Lab j) = res z s j"

lemma slot_map_val [simp]: "slot_map r k = KVal \<longleftrightarrow> k = KVal" "KVal = slot_map r k \<longleftrightarrow> k = KVal"
  by (cases k; simp)+

lemma width_map [simp]: "width (slot_map r k) = width k"
  by (cases k) auto

lemma depth_map [simp]: "depth (map (slot_map r) ts) = depth ts"
  by (simp add: depth_def comp_def)

lemma pairs_map: "pairs n (map (slot_map r) ts) = map_option (\<lambda>(ls, us). (map r ls, map (slot_map r) us)) (pairs n ts)"
  by (induction n ts rule: pairs.induct) (auto simp: option.map_comp comp_def split_beta intro!: option.map_cong0)

lemma cut_at_map: "cut_at d (map (slot_map r) ts) = map_option (map (slot_map r)) (cut_at d ts)"
proof (induction ts)
  case (Cons k ts)
  have "depth (slot_map r k # map (slot_map r) ts) = depth (k # ts)" by (simp add: depth_def comp_def)
  then show ?case using Cons by simp
qed simp

lemma val_at_map [simp]: "val_at d (map (slot_map r) ts) = val_at d ts"
  by (induction ts) auto

lemma replicate_map: "map (slot_map r) ts = replicate n KVal \<longleftrightarrow> ts = replicate n KVal"
proof (induction n arbitrary: ts)
  case (Suc n)
  then show ?case by (cases ts) auto
qed simp

lemma swap_vals_map: "swap_vals nm (map (slot_map r) ts) = map_option (map (slot_map r)) (swap_vals nm ts)"
  by (simp add: swap_vals_def take_map drop_map replicate_map)

lemma shape_map:
  "gshape A ts \<Longrightarrow> (\<And>l t us. A l (t, us) \<Longrightarrow> arrives T (r l) (t, map (slot_map r) us)) \<Longrightarrow> shape T (map (slot_map r) ts)"
proof (induction ts)
  case (Cons k ts)
  note A = Cons.prems(2) [of _ False "KVal # us" for us] Cons.prems(2) [of _ False "KCont # ts"]
  show ?case using Cons.IH [OF _ Cons.prems(2)] Cons.prems(1) A by (cases k) (auto simp: pairs_map split: option.splits)
qed simp

subsection \<open>Assembled code\<close>

definition assembled :: "nat \<Rightarrow> cstate \<Rightarrow> sizes \<Rightarrow> program \<Rightarrow> bytecodes \<Rightarrow> bool" where
  "assembled nv s z p bc \<longleftrightarrow> gen_ok nv s \<and> sizes_ok z \<and> nv \<le> 256 \<and> length (var_names p) = nv \<and>
     length (g_literals (gstate s)) \<le> length (literals p) \<and> length (g_fork_vectors (gstate s)) \<le> length (fork_vectors p) \<and>
     length (g_literals (gstate s)) \<le> 256 ^ literal_size z \<and> length (g_fork_vectors (gstate s)) \<le> 256 ^ fork_size z \<and>
     cs_max_stack s < 256 \<and> vector bc = relocate z 0 (bytes s) (fixups s) \<and> length (vector bc) \<le> 256 ^ label_size z \<and>
     numbytes_label bc = label_size z \<and> numbytes_literal bc = literal_size z \<and> numbytes_fork bc = fork_size z \<and>
     numbytes_var_name bc = var_size z \<and> numbytes_stack bc = stack_size z \<and> max_stack bc = cs_max_stack s"

definition lab_ok :: "sizes \<Rightarrow> cstate \<Rightarrow> nat \<Rightarrow> bool" where
  "lab_ok z s j \<longleftrightarrow> res z s j < 256 ^ label_size z"

lemma assembledD:
  assumes "assembled nv s z p bc"
  shows "in_order (fixups s)" "sizes_ok z" "vector bc = relocate z 0 (bytes s) (fixups s)" "length (var_names p) = nv" "max_stack bc = cs_max_stack s"
    "f \<in> set (fixups s) \<Longrightarrow> value_bound nv s f" "length (vector bc) = loc z (fixups s) (num_bytes s)"
    "numbytes_label bc = label_size z"
  using assms relocate_length [of z "fixups s" "bytes s"] by (auto simp: assembled_def gen_ok_def)

lemma raw_read:
  assumes a: "assembled nv s z p bc" and r: "raw_at s i b"
  shows "byte_at (vector bc) (loc z (fixups s) i) = Some b" "loc z (fixups s) (i + 1) = loc z (fixups s) i + 1"
    "rd bc 1 (loc z (fixups s) i) = Some (b, loc z (fixups s) (i + 1))"
proof -
  note A = assembledD [OF a]
  have n: "\<nexists>f. fixup_at (fixups s) i f" and i: "i < num_bytes s" and b: "bytes s ! i = word_of_nat b" "b < 256"
    using r by (auto simp: raw_at_def fixup_at_def)
  have "unat (bytes s ! i) = b" using b by (simp add: unat_of_nat)
  then show 1: "byte_at (vector bc) (loc z (fixups s) i) = Some b" using byte_at_loc [OF A(2,1) i n] A(3) by simp
  show 2: "loc z (fixups s) (i + 1) = loc z (fixups s) i + 1" using loc_byte [OF n] by simp
  show "rd bc 1 (loc z (fixups s) i) = Some (b, loc z (fixups s) (i + 1))" using 1 2 by (simp add: rd_def read_bytes_def)
qed

lemma ref_read:
  assumes a: "assembled nv s z p bc" and r: "ref_at s i k j" and v: "res z s j < 256 ^ fixup_size z k"
  shows "rd bc (fixup_size z k) (loc z (fixups s) i) = Some (res z s j, loc z (fixups s) (i + 1))"
proof -
  note A = assembledD [OF a]
  have f: "fixup_at (fixups s) i (fixups s ! j)" "i < num_bytes s" "f_kind (fixups s ! j) = k" using r by (auto simp: ref_at_def fixup_at_def)
  show ?thesis using operand_at_loc [OF A(2,1) f(2,1)] loc_operand [OF A(2,1) f(1)] v f(3) A(3) by (simp add: rd_def res_def)
qed

lemma value_res: "f_kind (fixups s ! j) \<noteq> FIXUP_LABEL \<Longrightarrow> res z s j = f_value (fixups s ! j)"
  by (simp add: res_def fixup_result_def)

lemma ref_value:
  assumes "assembled nv s z p bc" "ref_at s i k j" "k \<noteq> FIXUP_LABEL" "f_value (fixups s ! j) < 256 ^ fixup_size z k"
  shows "rd bc (fixup_size z k) (loc z (fixups s) i) = Some (f_value (fixups s ! j), loc z (fixups s) (i + 1))"
  using ref_read [OF assms(1,2)] value_res [of s j z] assms(2-4) by (simp add: ref_at_def)

lemma ref_bound: "assembled nv s z p bc \<Longrightarrow> ref_at s i k j \<Longrightarrow> value_bound nv s (fixups s ! j)"
  using assembledD(6) [of nv s z p bc] by (simp add: ref_at_def)

lemma label_read: "assembled nv s z p bc \<Longrightarrow> ref_at s i FIXUP_LABEL j \<Longrightarrow> lab_ok z s j \<Longrightarrow>
    rd_label bc (loc z (fixups s) i) = Some (res z s j, loc z (fixups s) (i + 1))"
  using ref_read [of nv s z p bc i FIXUP_LABEL j] assembledD(8) [of nv s z p bc] by (simp add: lab_ok_def fixup_size_def)

lemma slot_read:
  assumes a: "assembled nv s z p bc" and r: "ref_at s i FIXUP_VAR_REF j"
  shows "rd_slot p bc (loc z (fixups s) i) = Some (f_value (fixups s ! j), loc z (fixups s) (i + 1))"
    "loc z (fixups s) (i + 1) = loc z (fixups s) i + numbytes_var_name bc"
proof -
  have v: "f_value (fixups s ! j) < nv" using ref_bound [OF a r] r by (simp add: value_bound_def ref_at_def)
  have "(256 :: nat) \<le> 256 ^ var_size z" using a by (auto simp: assembled_def sizes_ok_def size_ok_def)
  then have "f_value (fixups s ! j) < 256 ^ fixup_size z FIXUP_VAR_REF" using v a by (simp add: fixup_size_def assembled_def)
  from ref_value [OF a r _ this] show 1: "rd_slot p bc (loc z (fixups s) i) = Some (f_value (fixups s ! j), loc z (fixups s) (i + 1))"
    using v a by (simp add: rd_below_def fixup_size_def assembled_def)
  show "loc z (fixups s) (i + 1) = loc z (fixups s) i + numbytes_var_name bc"
    using 1 by (auto simp: rd_below_def rd_def split: Option.bind_splits if_splits)
qed

lemma literal_read:
  assumes a: "assembled nv s z p bc" and r: "ref_at s i FIXUP_LITERAL j"
  shows "rd_below (length (literals p)) bc (numbytes_literal bc) (loc z (fixups s) i) = Some (f_value (fixups s ! j), loc z (fixups s) (i + 1))"
proof -
  have v: "f_value (fixups s ! j) < length (g_literals (gstate s))" using ref_bound [OF a r] r by (simp add: value_bound_def ref_at_def)
  then have "f_value (fixups s ! j) < 256 ^ fixup_size z FIXUP_LITERAL" using a by (simp add: fixup_size_def assembled_def)
  from ref_value [OF a r _ this] show ?thesis using v a by (simp add: rd_below_def fixup_size_def assembled_def)
qed

lemma fork_read:
  assumes a: "assembled nv s z p bc" and r: "ref_at s i FIXUP_FORK j"
  shows "rd_below (length (fork_vectors p)) bc (numbytes_fork bc) (loc z (fixups s) i) = Some (f_value (fixups s ! j), loc z (fixups s) (i + 1))"
proof -
  have v: "f_value (fixups s ! j) < length (g_fork_vectors (gstate s))" using ref_bound [OF a r] r by (simp add: value_bound_def ref_at_def)
  then have "f_value (fixups s ! j) < 256 ^ fixup_size z FIXUP_FORK" using a by (simp add: fixup_size_def assembled_def)
  from ref_value [OF a r _ this] show ?thesis using v a by (simp add: rd_below_def fixup_size_def assembled_def)
qed

lemma stack_read:
  assumes a: "assembled nv s z p bc" and r: "ref_at s i FIXUP_STACK j"
  shows "rd bc (numbytes_stack bc) (loc z (fixups s) i) = Some (f_value (fixups s ! j), loc z (fixups s) (i + 1))"
proof -
  have "f_value (fixups s ! j) \<le> cs_max_stack s" using ref_bound [OF a r] r by (simp add: value_bound_def ref_at_def)
  then have "f_value (fixups s ! j) < 256 ^ fixup_size z FIXUP_STACK" using a by (simp add: fixup_size_def assembled_def sizes_ok_def)
  from ref_value [OF a r _ this] show ?thesis using a by (simp add: fixup_size_def assembled_def)
qed

lemma op_read:
  assumes "assembled nv s z p bc" "op_at s i op"
  shows "byte_at (vector bc) (loc z (fixups s) i) = Some (op_number op)" "loc z (fixups s) (i + 1) = loc z (fixups s) i + 1"
    "opcode_of (op_number op) = Some op"
  using assms raw_read by (auto simp: op_at_def)

text \<open>An instruction of the vector begins as that of the first pass.\<close>

lemma transfer_op_at:
  assumes "assembled nv s z p bc" "op_at s i op"
  shows "transfer p bc (loc z (fixups s) i) t ts = transfer_op p bc op (loc z (fixups s) (i + 1)) t ts"
  using op_read [OF assms] by (simp add: transfer_def)

lemma transfer_eop_at:
  assumes a: "assembled nv s z p bc" and e: "eop_at s i op"
  shows "transfer p bc (loc z (fixups s) i) t ts = transfer_eop p bc op (loc z (fixups s) (i + 2)) t ts"
proof -
  have "op_at s i OP_EXTENDED" "raw_at s (i + 1) (eop_number op)" using e by (auto simp: eop_at_def)
  then show ?thesis using transfer_op_at [OF a] raw_read [OF a] by (simp add: transfer_op_def numeral_2_eq_2)
qed

text \<open>The labels that an instruction refers to.\<close>

definition labs_ok :: "sizes \<Rightarrow> cstate \<Rightarrow> (target \<times> ftype) list \<Rightarrow> bool" where
  "labs_ok z s ss \<longleftrightarrow> (\<forall>(g, t, ts) \<in> set ss. (case g of Lab j \<Rightarrow> lab_ok z s j | _ \<Rightarrow> True) \<and>
     (case ts of KPc j # _ \<Rightarrow> lab_ok z s j | KFinally j # _ \<Rightarrow> lab_ok z s j | _ \<Rightarrow> True))"

definition heres_ok :: "cstate \<Rightarrow> (target \<times> ftype) list \<Rightarrow> bool" where
  "heres_ok s ss \<longleftrightarrow> (\<forall>i ty. (Here i, ty) \<in> set ss \<longrightarrow> i < num_bytes s)"

definition moved :: "sizes \<Rightarrow> cstate \<Rightarrow> (target \<times> ftype) list \<Rightarrow> (nat \<times> ftype) list" where
  "moved z s ss = map (\<lambda>(g, t, ts). (address z s g, t, map (slot_map (res z s)) ts)) ss"

lemma moved_simps [simp]: "moved z s [] = []"
  "moved z s ((g, t, ts) # ss) = (address z s g, t, map (slot_map (res z s)) ts) # moved z s ss" "moved z s (rs @ ss) = moved z s rs @ moved z s ss"
  by (simp_all add: moved_def)

lemma labs_ok_simps [simp]: "labs_ok z s []"
  "labs_ok z s ((g, t, ts) # ss) \<longleftrightarrow> (case g of Lab j \<Rightarrow> lab_ok z s j | _ \<Rightarrow> True) \<and>
     (case ts of KPc j # _ \<Rightarrow> lab_ok z s j | KFinally j # _ \<Rightarrow> lab_ok z s j | _ \<Rightarrow> True) \<and> labs_ok z s ss"
  by (auto simp: labs_ok_def)

lemma heres_ok_simps [simp]: "heres_ok s []" "heres_ok s ((Here i, ty) # ss) \<longleftrightarrow> i < num_bytes s \<and> heres_ok s ss"
  "heres_ok s ((Lab j, ty) # ss) = heres_ok s ss"
  by (cases ty; auto simp: heres_ok_def)+

lemma next_byte:
  assumes a: "assembled nv s z p bc" and i: "i < num_bytes s"
  shows "\<exists>b. byte_at (vector bc) (loc z (fixups s) i) = Some b"
  using assembledD(7) [OF a] loc_mono [OF i, of z "fixups s"] by (simp add: byte_at_def)

lemma swap_one: "swap_vals (Suc 0, m) (KVal # us) = Some (replicate m KVal @ us)"
  by (simp add: swap_vals_def)

lemma plain_transfer:
  assumes "plain op = Some nm" "swap_vals nm ts = Some us"
  shows "transfer_op p bc op pc t ts = Some [go t us pc]"
  using assms by (cases op) (auto simp: transfer_op_def plain_def)

lemma plain_eop_transfer:
  assumes "plain_eop op = Some nm" "swap_vals nm ts = Some us"
  shows "transfer_eop p bc op pc t ts = Some [go t us pc]"
  using assms by (cases op) (auto simp: transfer_eop_def plain_eop_def)

text \<open>The targets of a scattering assignment.\<close>

lemma targets_read:
  assumes "assembled nv s z p bc" "targets_at s i js" "\<forall>j \<in> set js. lab_ok z s j"
  shows "rd_targets p bc (length js) (loc z (fixups s) i) = Some (map (res z s) js, loc z (fixups s) (i + 2 * length js))"
  using assms(2,3)
proof (induction js arbitrary: i)
  case (Cons j js)
  obtain v where v: "ref_at s i FIXUP_VAR_REF v" "ref_at s (i + 1) FIXUP_LABEL j" "targets_at s (i + 2) js" using Cons.prems(1) by auto
  have "lab_ok z s j" using Cons.prems(2) by simp
  then show ?case
    using slot_read(1) [OF assms(1) v(1)] label_read [OF assms(1) v(2)] Cons.IH [OF v(3)] Cons.prems(2) by (simp add: numeral_2_eq_2)
qed simp

lemma required_cong: "(\<And>j. j \<in> set js \<Longrightarrow> f j = 0 \<longleftrightarrow> g j = 0) \<Longrightarrow> required rpos (map f js) = required rpos (map g js)"
proof -
  have "length (filter (\<lambda>(i, l). l = 0 \<and> i \<noteq> rpos) (enumerate k (map f js))) = length (filter (\<lambda>(i, l). l = 0 \<and> i \<noteq> rpos) (enumerate k (map g js)))"
    if "\<And>j. j \<in> set js \<Longrightarrow> f j = 0 \<longleftrightarrow> g j = 0" for k
    using that by (induction js arbitrary: k) auto
  then show "(\<And>j. j \<in> set js \<Longrightarrow> f j = 0 \<longleftrightarrow> g j = 0) \<Longrightarrow> ?thesis" by (simp add: required_def)
qed

lemma rest_ok_cong: "(\<And>j. j \<in> set js \<Longrightarrow> f j = 0 \<longleftrightarrow> g j = 0) \<Longrightarrow> rest_ok rpos (map f js) = rest_ok rpos (map g js)"
  by (auto simp: rest_ok_def)

text \<open>An instruction of the first pass that conforms to its type is one of the vector.\<close>

lemma pstep_transfer:
  assumes a: "assembled nv s z p bc" and st: "pstep nv cd s i t ts ss" and l: "labs_ok z s ss" and h: "heres_ok s ss"
    and real: "\<And>j ty. (Lab j, ty) \<in> set ss \<Longrightarrow> 1 < cd j \<Longrightarrow> 1 < res z s j"
  shows "transfer p bc (loc z (fixups s) i) t (map (slot_map (res z s)) ts) = Some (moved z s ss) \<or>
    counts bc (loc z (fixups s) i) \<and> loc z (fixups s) (i + 1) = loc z (fixups s) i + 1 \<and> ss = [(Here (i + 1), t, KCount # ts)] \<and>
      transfer p bc (loc z (fixups s) i) t (map (slot_map (res z s)) ts) \<noteq> None"
  using st
proof cases
  case (plain op nm us)
  then show ?thesis using transfer_op_at [OF a plain(2)] plain_transfer [OF plain(3)] by (simp add: swap_vals_map go_def)
next
  case (count n)
  have "plain (OPTIM_NUM n) = Some (0, 1)" by (simp add: plain_def)
  from plain_transfer [OF this] have "transfer p bc (loc z (fixups s) i) t (map (slot_map (res z s)) ts) \<noteq> None"
    using transfer_op_at [OF a count(2)] by (simp add: swap_vals_def)
  moreover have "counts bc (loc z (fixups s) i)" using op_read [OF a count(2)] count(3) by (simp add: counts_def)
  ultimately show ?thesis using op_read [OF a count(2)] count(1) by simp
next
  case (test op j us)
  then show ?thesis using transfer_op_at [OF a test(3)] label_read [OF a test(5)] l by (auto simp: transfer_op_def go_def)
next
  case (both op j us)
  then show ?thesis using transfer_op_at [OF a both(3)] label_read [OF a both(5)] l by (auto simp: transfer_op_def go_def)
next
  case (jump j)
  then show ?thesis using transfer_op_at [OF a jump(2)] label_read [OF a jump(3)] l by (simp add: transfer_op_def go_def)
next
  case (for_list v j us)
  then show ?thesis using transfer_op_at [OF a for_list(3)] slot_read(1) [OF a for_list(4)] label_read [OF a for_list(5)] l
    by (simp add: transfer_op_def go_def numeral_eq_Suc)
next
  case (for_range v j us)
  then show ?thesis using transfer_op_at [OF a for_range(3)] slot_read(1) [OF a for_range(4)] label_read [OF a for_range(5)] l
    by (simp add: transfer_op_def go_def numeral_eq_Suc)
next
  case (imm v)
  then show ?thesis using transfer_op_at [OF a imm(2)] literal_read [OF a imm(3)] next_byte [OF a, of "i + 2"] h
    by (auto simp: transfer_op_def go_def numeral_eq_Suc)
next
  case (put_temp us)
  then show ?thesis using transfer_op_at [OF a put_temp(3)] by (simp add: transfer_op_def go_def)
next
  case push_temp
  then show ?thesis using transfer_op_at [OF a push_temp(2)] by (simp add: transfer_op_def go_def)
next
  case (g_put v us)
  then show ?thesis using transfer_op_at [OF a g_put(3)] slot_read(1) [OF a g_put(4)] by (simp add: transfer_op_def go_def numeral_eq_Suc)
next
  case (g_push v)
  then show ?thesis using transfer_op_at [OF a g_push(2)] slot_read(1) [OF a g_push(3)] by (simp add: transfer_op_def go_def numeral_eq_Suc)
next
  case (push n)
  then show ?thesis using transfer_op_at [OF a push(2)] assembledD(4) [OF a] by (simp add: transfer_op_def go_def)
next
  case (put n us)
  then show ?thesis using transfer_op_at [OF a put(3)] assembledD(4) [OF a] next_byte [OF a, of "i + 1"] h by (auto simp: transfer_op_def go_def)
next
  case (fork v us)
  then show ?thesis using transfer_op_at [OF a fork(3)] fork_read [OF a fork(4)] by (simp add: transfer_op_def go_def swap_one numeral_eq_Suc)
next
  case (fork_id v w us)
  then show ?thesis using transfer_op_at [OF a fork_id(3)] fork_read [OF a fork_id(4)] slot_read(1) [OF a fork_id(5)]
    by (simp add: transfer_op_def go_def swap_one numeral_eq_Suc)
next
  case (return us)
  then show ?thesis using transfer_op_at [OF a return(3)] by (simp add: transfer_op_def)
next
  case (return0 op)
  then show ?thesis using transfer_op_at [OF a return0(2)] by (auto simp: transfer_op_def)
next
  case (call b us)
  then show ?thesis using transfer_op_at [OF a call(3)] raw_read(3) [OF a call(4)] by (simp add: transfer_op_def go_def swap_one numeral_eq_Suc)
next
  case (plain_eop op nm us)
  then show ?thesis using transfer_eop_at [OF a plain_eop(2)] plain_eop_transfer [OF plain_eop(3)] by (simp add: swap_vals_map go_def)
next
  case (length j)
  then show ?thesis using transfer_eop_at [OF a length(2)] stack_read [OF a length(3)] by (simp add: transfer_eop_def go_def numeral_eq_Suc)
next
  case (scatter js nreq rpos d us)
  have pseudo: "res z s j = cd j" if "j \<in> set js" "\<not> 1 < cd j" for j
    using scatter(9) that a by (auto simp: res_def fixup_result_def plain_label_def assembled_def sizes_ok_def)
  have here: "1 < res z s j" if "j \<in> set js" "1 < cd j" for j using real [of j] that scatter(2) by auto
  have labs: "\<forall>j \<in> set js. lab_ok z s j"
  proof
    fix j assume j: "j \<in> set js"
    show "lab_ok z s j"
    proof (cases "1 < cd j")
      case True
      then show ?thesis using l j scatter(2) by (auto simp: labs_ok_def)
    next
      case False
      have "(256 :: nat) \<le> 256 ^ label_size z" using a by (auto simp: assembled_def sizes_ok_def size_ok_def)
      then show ?thesis using pseudo [OF j False] False by (simp add: lab_ok_def)
    qed
  qed
  have zero: "cd j = 0 \<longleftrightarrow> res z s j = 0" if "j \<in> set js" for j using pseudo [OF that] here [OF that] by (cases "1 < cd j") auto
  have "1 < res z s j \<longleftrightarrow> 1 < cd j" if "j \<in> set js" for j using pseudo [OF that] here [OF that] by (cases "1 < cd j") auto
  then have "filter ((<) 1) (map (res z s) js) = map (res z s) (filter (\<lambda>j. 1 < cd j) js)"
    by (simp add: filter_map comp_def cong: filter_cong)
  moreover have "lab_ok z s d" using l scatter(2) by (auto simp: labs_ok_def)
  ultimately show ?thesis
    using scatter transfer_eop_at [OF a scatter(3)] raw_read(3) [OF a scatter(4)] raw_read(3) [OF a scatter(5)] raw_read(3) [OF a scatter(6)]
      targets_read [OF a scatter(7) labs] label_read [OF a scatter(8)] required_cong [of js cd "res z s" rpos, OF zero] rest_ok_cong [of js cd "res z s" rpos, OF zero]
    by (simp add: transfer_eop_def go_def numeral_eq_Suc moved_def)
next
  case (push_label j)
  then show ?thesis using transfer_eop_at [OF a push_label(2)] label_read [OF a push_label(3)] l by (simp add: transfer_eop_def go_def numeral_eq_Suc)
next
  case (try_finally j)
  then show ?thesis using transfer_eop_at [OF a try_finally(2)] label_read [OF a try_finally(3)] l by (simp add: transfer_eop_def go_def numeral_eq_Suc)
next
  case catch
  then show ?thesis using transfer_eop_at [OF a catch(2)] by (simp add: transfer_eop_def go_def)
next
  case (try_except n)
  then show ?thesis using transfer_eop_at [OF a try_except(2)] raw_read(3) [OF a try_except(3)] by (simp add: transfer_eop_def go_def numeral_eq_Suc)
next
  case (end_catch j n us ls vs)
  then show ?thesis using transfer_eop_at [OF a end_catch(3)] label_read [OF a end_catch(4)] l by (simp add: transfer_eop_def go_def pairs_map)
next
  case (end_except j n us ls vs)
  then show ?thesis using transfer_eop_at [OF a end_except(3)] label_read [OF a end_except(4)] l by (simp add: transfer_eop_def go_def pairs_map)
next
  case (end_finally l us)
  then show ?thesis using transfer_eop_at [OF a end_finally(3)] by (simp add: transfer_eop_def go_def)
next
  case (continue us)
  then show ?thesis using transfer_eop_at [OF a continue(3)] by (simp add: transfer_eop_def go_def)
next
  case (while_id v j us)
  then show ?thesis using transfer_eop_at [OF a while_id(3)] slot_read(1) [OF a while_id(4)] label_read [OF a while_id(5)] l
    by (simp add: transfer_eop_def go_def numeral_eq_Suc)
next
  case (exit_id v d j us)
  then show ?thesis using transfer_eop_at [OF a exit_id(2)] slot_read(2) [OF a exit_id(3)] stack_read [OF a exit_id(4)] label_read [OF a exit_id(5)] l
    by (simp add: transfer_eop_def go_def cut_at_map numeral_eq_Suc)
next
  case (exit d j us)
  then show ?thesis using transfer_eop_at [OF a exit(2)] stack_read [OF a exit(3)] label_read [OF a exit(4)] l
    by (simp add: transfer_eop_def go_def cut_at_map numeral_eq_Suc)
qed

subsection \<open>Well-typed vectors\<close>

text \<open>The whole code of a vector: no label is pending, and nothing falls off its end.\<close>

definition closed :: "nat \<Rightarrow> cstate \<Rightarrow> typing \<Rightarrow> bool" where
  "closed nv s T \<longleftrightarrow> T 0 = Some (False, []) \<and> (\<forall>i t ts. T i = Some (t, ts) \<longrightarrow> i < num_bytes s \<and> typed nv s T [] i t ts)"

definition moved_typing :: "sizes \<Rightarrow> cstate \<Rightarrow> typing \<Rightarrow> typing" where
  "moved_typing z s T pc = (if \<exists>i. loc z (fixups s) i = pc
     then map_option (\<lambda>(t, ts). (t, map (slot_map (res z s)) ts)) (T (THE i. loc z (fixups s) i = pc)) else None)"

lemma moved_typing_loc: "moved_typing z s T (loc z (fixups s) i) = map_option (\<lambda>(t, ts). (t, map (slot_map (res z s)) ts)) (T i)"
proof -
  have "(THE k. loc z (fixups s) k = loc z (fixups s) i) = i" by (rule the_equality) simp_all
  then show ?thesis by (auto simp: moved_typing_def)
qed

lemma moved_typingD: "moved_typing z s T pc = Some (t, us) \<Longrightarrow> \<exists>i ts. pc = loc z (fixups s) i \<and> T i = Some (t, ts) \<and> us = map (slot_map (res z s)) ts"
proof -
  assume m: "moved_typing z s T pc = Some (t, us)"
  then obtain i where i: "pc = loc z (fixups s) i" by (auto simp: moved_typing_def split: if_splits)
  with m show ?thesis by (auto simp: moved_typing_loc)
qed

lemma arrives_moved: "arrives T i (t, us) \<Longrightarrow> arrives (moved_typing z s T) (loc z (fixups s) i) (t, map (slot_map (res z s)) us)"
  by (auto simp: arrives_def moved_typing_loc split: option.splits)

lemma pend_none [simp]: "\<not> pend [] j" "\<not> pty [] j ts"
  by (simp_all add: pend_def pty_def)

lemma closed_label:
  assumes c: "closed nv s T" and a: "assembled nv s z p bc" and j: "sat s T [] j (t, us)"
  shows "arrives T (f_value (fixups s ! j)) (t, us)" "res z s j = loc z (fixups s) (f_value (fixups s ! j))" "lab_ok z s j"
proof -
  show 1: "arrives T (f_value (fixups s ! j)) (t, us)" using j by (simp add: sat_def)
  have l: "counted (fixups s) (fixups s ! j)" "f_kind (fixups s ! j) = FIXUP_LABEL" using j by (simp_all add: sat_def)
  show 2: "res z s j = loc z (fixups s) (f_value (fixups s ! j))" unfolding res_def by (rule label_result [OF assembledD(2) [OF a] l])
  have "f_value (fixups s ! j) < num_bytes s" using 1 c by (auto simp: closed_def dest!: arrivesD)
  then have "res z s j < length (vector bc)" using loc_mono [of "f_value (fixups s ! j)" "num_bytes s" z "fixups s"] 2 assembledD(7) [OF a] by simp
  moreover have "length (vector bc) \<le> 256 ^ label_size z" using a unfolding assembled_def by blast
  ultimately show "lab_ok z s j" by (simp add: lab_ok_def)
qed

lemma closed_reach:
  assumes c: "closed nv s T" and a: "assembled nv s z p bc" and r: "reach s T [] g (t, us)"
  shows "arrives (moved_typing z s T) (address z s g) (t, map (slot_map (res z s)) us)"
proof (cases g)
  case (Here i)
  then show ?thesis using r by (simp add: arrives_moved)
next
  case (Lab j)
  then have j: "sat s T [] j (t, us)" using r by simp
  show ?thesis using arrives_moved [OF closed_label(1) [OF c a j]] closed_label(2) [OF c a j] Lab by simp
qed

lemma closed_labs_ok:
  assumes c: "closed nv s T" and a: "assembled nv s z p bc" and r: "\<forall>(g, ty) \<in> set ss. reach s T [] g ty"
  shows "labs_ok z s ss" "heres_ok s ss"
proof -
  show "labs_ok z s ss"
    unfolding labs_ok_def
  proof (intro ballI, clarify, intro conjI)
    fix g t ts
    assume g: "(g, t, ts) \<in> set ss"
    then have r: "reach s T [] g (t, ts)" using assms(3) by blast
    show "case g of Here i \<Rightarrow> True | Lab j \<Rightarrow> lab_ok z s j" using r closed_label(3) [OF c a] by (cases g) auto
    obtain i where "arrives T i (t, ts)" using r closed_label(1) [OF c a] by (cases g) auto
    then obtain t' where "T i = Some (t', ts)" by (blast dest: arrivesD)
    then have "gshape (sat s T []) ts" using c by (auto simp: closed_def typed_def)
    then show "case ts of KPc j # _ \<Rightarrow> lab_ok z s j | KFinally j # _ \<Rightarrow> lab_ok z s j | _ \<Rightarrow> True"
      using closed_label(3) [OF c a] by (auto split: list.split slot.split)
  qed
  show "heres_ok s ss" using r c by (fastforce simp: heres_ok_def closed_def dest!: arrivesD)
qed

lemma closed_wt:
  assumes c: "closed nv s T" and a: "assembled nv s z p bc"
  shows "wt p bc (moved_typing z s T)"
  unfolding wt_def
proof (intro conjI allI impI)
  show "moved_typing z s T 0 = Some (False, [])" using moved_typing_loc [of z s T 0] c by (simp add: closed_def)
next
  fix pc t us
  assume "moved_typing z s T pc = Some (t, us)"
  then obtain i ts where i: "pc = loc z (fixups s) i" "T i = Some (t, ts)" "us = map (slot_map (res z s)) ts" by (blast dest: moved_typingD)
  then have ty: "typed nv s T [] i t ts" using c by (simp add: closed_def)
  then obtain ss where ss: "pstep nv (code_of s []) s i t ts ss" "\<forall>(g, ty) \<in> set ss. reach s T [] g ty" by (auto simp: typed_def)
  have real: "1 < res z s j" if "(Lab j, ty) \<in> set ss" "1 < code_of s [] j" for j ty
  proof -
    have "sat s T [] j ty" using ss(2) that(1) by fastforce
    then have j: "sat s T [] j (fst ty, snd ty)" by simp
    have "2 \<le> f_value (fixups s ! j)" using that(2) by (auto simp: code_of_def split: if_splits)
    then show ?thesis using closed_label(2) [OF c a j] loc_bound [of "f_value (fixups s ! j)" z "fixups s"] by simp
  qed
  have go: "arrives (moved_typing z s T) pc' ty'" if "(pc', ty') \<in> set (moved z s ss)" for pc' ty'
    using that closed_reach [OF c a] ss(2) by (fastforce simp: moved_def)
  have shape: "shape (moved_typing z s T) us"
    unfolding i(3)
  proof (rule shape_map)
    show "gshape (sat s T []) ts" using ty by (simp add: typed_def)
    show "arrives (moved_typing z s T) (res z s l) (t, map (slot_map (res z s)) us)" if "sat s T [] l (t, us)" for l t us
      using closed_reach [OF c a, of "Lab l" t us] that by simp
  qed
  show "instr_ok p bc (moved_typing z s T) pc t us"
    using pstep_transfer [OF a ss(1) closed_labs_ok [OF c a ss(2)] real]
  proof
    assume "transfer p bc (loc z (fixups s) i) t (map (slot_map (res z s)) ts) = Some (moved z s ss)"
    then show ?thesis using shape go ty assembledD(5) [OF a] by (auto simp: instr_ok_def i(1,3) typed_def)
  next
    assume n: "counts bc (loc z (fixups s) i) \<and> loc z (fixups s) (i + 1) = loc z (fixups s) i + 1 \<and> ss = [(Here (i + 1), t, KCount # ts)] \<and>
      transfer p bc (loc z (fixups s) i) t (map (slot_map (res z s)) ts) \<noteq> None"
    have "arrives (moved_typing z s T) (loc z (fixups s) (i + 1)) (t, KCount # us)" using go n by (simp add: i(3))
    then show ?thesis using n shape ty assembledD(5) [OF a] by (auto simp: instr_ok_def i(1,3) typed_def)
  qed
qed

subsection \<open>The sizes that are chosen\<close>

lemma ref_size_ok: "size_ok (ref_size n)" "n \<le> 2 ^ 32 \<Longrightarrow> n \<le> 256 ^ ref_size n"
  by (simp_all add: ref_size_def size_ok_def)

lemma kinds_before: "\<forall>f \<in> set fs. f_pc f < i \<Longrightarrow> kind_before k i fs = kinds k fs"
  by (simp add: kind_before_def kinds_def cong: filter_cong)

lemma assemble_assembled:
  assumes b: "assemble s = Some b" and ok: "gen_ok nv s" and fits: "fits_sizes b" and p: "nv \<le> 256" "length (var_names p) = nv"
    "length (g_literals (gstate s)) \<le> length (literals p)" "length (g_fork_vectors (gstate s)) \<le> length (fork_vectors p)"
    "length (literals p) \<le> 2 ^ 32" "length (fork_vectors p) \<le> 2 ^ 32"
  shows "assembled nv s (chosen_sizes s) p b"
proof -
  let ?z = "chosen_sizes s"
  define v where "v = relocate ?z 0 (bytes s) (fixups s)"
  have b': "b = \<lparr>numbytes_label = label_size ?z, numbytes_literal = literal_size ?z, numbytes_fork = fork_size ?z,
          numbytes_var_name = var_size ?z, numbytes_stack = stack_size ?z, vector = v, max_stack = cs_max_stack s\<rparr>"
    using b by (auto simp: assemble_def Let_def v_def split: if_splits)
  have m: "cs_max_stack s < 256" "length v \<le> 2 ^ 32" using fits by (simp_all add: b' fits_sizes_def)
  then have z: "sizes_ok ?z" by (simp add: sizes_ok_def chosen_sizes_def Let_def ref_size_ok size_ok_def) (simp add: ref_size_def)
  have lits: "length (g_literals (gstate s)) \<le> 256 ^ literal_size ?z"
    by (rule order_trans [OF _ order_trans [OF ref_size_ok(2) [of "min (2 ^ 32) (max (max_literal s) (length (g_literals (gstate s))))"]]])
      (use p in \<open>auto simp: chosen_sizes_def Let_def ref_size_def min_def max_def\<close>)
  have forks: "length (g_fork_vectors (gstate s)) \<le> 256 ^ fork_size ?z"
    by (rule order_trans [OF _ order_trans [OF ref_size_ok(2) [of "min (2 ^ 32) (max (max_fork s) (length (g_fork_vectors (gstate s))))"]]])
      (use p in \<open>auto simp: chosen_sizes_def Let_def ref_size_def min_def max_def\<close>)
  have o: "in_order (fixups s)" "\<forall>f \<in> set (fixups s). f_pc f < num_bytes s" using ok by (simp_all add: gen_ok_def)
  define n where "n = num_bytes s + (literal_size ?z - 1) * num_literals s + (fork_size ?z - 1) * num_forks s + (var_size ?z - 1) * num_var_refs s"
  have "length v = loc ?z (fixups s) (num_bytes s)" unfolding v_def by (rule relocate_length [OF z o(1)])
  also have "\<dots> = n + (label_size ?z - 1) * num_labels s"
    using z ok by (simp add: loc_def shift_kinds kinds_before [OF o(2)] n_def gen_ok_def sizes_ok_def)
  finally have len: "length v = n + (label_size ?z - 1) * num_labels s" .
  have "label_size ?z = (if n \<le> 256 then 1 else if n + num_labels s \<le> 256 * 256 then 2 else 4)"
    by (simp add: n_def chosen_sizes_def Let_def)
  then have "length v \<le> 256 ^ label_size ?z" using len m(2) by (auto split: if_splits)
  then show ?thesis using ok z p m lits forks by (simp add: assembled_def b' v_def)
qed

lemma closed_good:
  assumes c: "closed nv s T" and ok: "gen_ok nv s" and b: "assemble s = Some b" and nv: "nv \<le> 256"
  shows "good_vector nv (length (g_literals (gstate s))) (length (g_fork_vectors (gstate s))) b"
  using closed_wt [OF c assemble_assembled [OF b ok]] nv unfolding good_vector_def by blast

end
