(* ===== verification/Spec2Isabelle.thy ===== *)
theory Spec2Isabelle
  imports Commands SafeServer TaskMoves CodeAssembly
begin

text \<open>
  NuMOO is a server for a shared world of objects that is programmed from within. Players connect by the network; a line that a player
  types is a command, which is parsed and matched against the objects around the player, and a program that is stored in the
  database, a verb, is run for it. Verbs are compiled to bytecode for a stack machine. A program can start tasks that run later.
  This library models the C sources in \<open>src/server\<close>; all file names below are relative to that directory.

  \<^bold>\<open>The parts and how they interact.\<close>
  The main loop (\<open>server.c\<close>) waits for the network and calls \<open>run_ready_tasks\<close> of \<open>tasks.c\<close>, which takes one line or one task from the
  queue whose turn it is. A line is split and matched by \<open>parse_cmd.c\<close> and \<open>match.c\<close>; its verb is searched in the database
  (\<open>db_*.c\<close>) and run by \<open>execute.c\<close>, which calls the built-in functions by number through the registry of \<open>functions.c\<close>. The values of
  the language (\<open>structures.h\<close>) and the operations on them (\<open>utils.c\<close>, \<open>list.c\<close>, \<open>numbers.c\<close>, \<open>streams.c\<close>, \<open>utf.c\<close>) are used by all
  of them. \<open>code_gen.c\<close> makes the bytecode from syntax trees (\<open>ast.h\<close>).

  \<^bold>\<open>Theories.\<close> In the order of their imports:
  \<^item> \<open>Prelude\<close>: bytes and characters, the wrap-around of 32- and 64-bit integers, faults (\<open>panic\<close>) as values of a sum.
  \<^item> \<open>Utf\<close>: \<open>utf.c\<close>, runes and their encoding. \<open>Streams\<close>: \<open>streams.c\<close>, growing buffers with their capacity.
  \<^item> \<open>Strings\<close>: the string functions of \<open>utils.c\<close> and \<open>list.c\<close>: hashing, comparison up to case, patterns of verb names, searching,
    substitution, binary strings, and the lexer of string literals of \<open>parser.y\<close>.
  \<^item> \<open>Values\<close>, \<open>Printing\<close>: the type \<open>Var\<close>, equality and truth, and its text (\<open>utils.c\<close>, \<open>list.c\<close>, \<open>unparse.c\<close>).
  \<^item> \<open>Numbers\<close>, \<open>Lists\<close>: arithmetic and the built-in functions of \<open>numbers.c\<close> and \<open>list.c\<close>, with the cache of compiled patterns.
  \<^item> \<open>Program\<close>: compiled programs (\<open>program.h\<close>). \<open>Ast\<close>, \<open>Opcodes\<close>, \<open>CodeGen\<close>: \<open>ast.h\<close>, \<open>opcode.h\<close> and \<open>code_gen.c\<close>.
  \<^item> \<open>DbObjects\<close>, \<open>DbProps\<close>, \<open>DbPropEdits\<close>, \<open>DbHierarchy\<close>, \<open>DbVerbs\<close>, \<open>VerbCache\<close>, \<open>Database\<close>: \<open>db_objects.c\<close>, \<open>db_properties.c\<close>,
    \<open>db_verbs.c\<close>. Objects are records in a table indexed by their number; the lists of contents and children are threaded through
    the objects, as in C. Definitions of verbs have an address, so that handles and the entries of the verb cache may go stale.
  \<^item> \<open>Words\<close>, \<open>Commands\<close>: \<open>parse_cmd.c\<close> and \<open>match.c\<close>.
  \<^item> \<open>Activations\<close>, \<open>Unwinding\<close>, \<open>Interp\<close>, \<open>Run\<close>, \<open>TaskStart\<close>: \<open>execute.c\<close> and \<open>eval_env.c\<close>. A machine is a list of activations with the
    limits of the task; an instruction is a function from a machine to a machine. What the machine calls of the rest of the server is
    the record \<open>server\<close>, and the state of that rest the type parameter \<open>world\<close>.
  \<^item> \<open>Typing\<close>, \<open>Frames\<close>, \<open>PlainSafety\<close>, \<open>ControlSafety\<close>, \<open>HandlerSafety\<close>, \<open>UnwindSafety\<close>, \<open>DataSafety\<close>, \<open>MachineSafety\<close>, \<open>CallSafety\<close>,
    \<open>StepSafety\<close>, \<open>InstrSafety\<close>, \<open>MachineRun\<close>, \<open>TaskSafety\<close>: a verifier for bytecode (\<open>check\<close>: for every program counter the kinds of the
    values on the stack), and the proof that a machine whose frames conform to it stays so.
  \<^item> \<open>Functions\<close>, \<open>FunctionSafety\<close>, \<open>BuiltinSafety\<close>, \<open>TextSafety\<close>, \<open>RegistrySafety\<close>, \<open>ServerSafety\<close>, \<open>SafeServer\<close>: \<open>functions.c\<close>, the options of
    \<open>server.c\<close>, and the proof that every modelled built-in function gives the machine what the verifier relies on. The locale
    \<open>environment\<close> states what the machine needs of the rest; \<open>SafeServer\<close> interprets it.
  \<^item> \<open>InputQueue\<close>, \<open>TaskQueues\<close>, \<open>TaskControl\<close>, \<open>Scheduler\<close>: \<open>tasks.c\<close>. Lines of input are cells of a store with the two threads of the
    code; queues are cells of a second store. \<open>TaskInvariant\<close>, \<open>TaskSteps\<close>, \<open>TaskKill\<close>, \<open>TaskLogin\<close>, \<open>TaskMoves\<close>: their invariant, that every
    operation is defined and keeps it, and that it holds in every reachable state.

  \<^bold>\<open>Groups of lemmas.\<close> Encodings are shown to be inverse to their decodings, and optimised routines equal to reference definitions
  (hashed comparison, the power loop, the cache of patterns, the verb cache, the threaded queue of lines). For the database, the
  operations keep a well-formedness invariant, and their effect is stated for the object and for all others. For the machine, the
  verifier gives type safety: no instruction reaches an undefined state. For the queues, the invariant includes the count that limits a
  user's tasks and that no idle queue has something to do.

  \<^bold>\<open>Conventions.\<close> A run-time error of the language is a value of type \<open>error\<close>. A call of \<open>panic\<close> is a fault. What is undefined in C
  (reading a cell that is not there, an empty stack, a missing pointer) and a loop that does not end are \<open>None\<close>, so that a theorem that a
  result is \<open>Some\<close> excludes them. Integers are \<open>int\<close> with the wrap-around written out (\<open>to_int32\<close>, \<open>to_int64\<close>) or words, where the
  code's width matters. Strings are lists of bytes without the terminating zero, and \<open>c_string\<close> says that a list has no zero inside.
  No theorem depends on a bound on fuel: \<open>run_steps\<close> counts rounds of the interpreter, and its theorems hold for every count. Other
  loops that need not end are partial functions, with lemmas that they do end under the invariants.

  \<^bold>\<open>Configuration.\<close> As in \<open>options.h\<close> and \<open>config.h\<close>: the verb cache is on, \<open>BYTECODE_REDUCE_REF\<close> and \<open>EXAMPLE\<close> are off,
  \<open>IGNORE_PROP_PROTECTED\<close> is on.

  \<^bold>\<open>Not modelled.\<close> The grammar of the language, which yacc turns into tables, so that programs are given as syntax trees or as compiled
  programs; the decompiler and the text of programs; the files of the database (\<open>db_file.c\<close>, \<open>db_io.c\<close>); the properties of waifs, which
  are parameters of the machine; the built-in functions of \<open>objects.c\<close>, \<open>property.c\<close>, \<open>verbs.c\<close>; the network, signals, timers and
  the main loop; interning, reference counts and allocation (values are immutable here, and sharing is invisible but for equality of
  pointers, which is a parameter where the code uses it); floating-point arithmetic, which is a parameter; logging.
\<close>

end
